(* ===== verification/ThriftPrelude.thy ===== *)
theory ThriftPrelude
  imports Main "HOL-Library.Word"
begin

text \<open>
  The vocabulary of the development: byte strings, the exceptions of the C++ library, the
  calling convention of its methods and the generic facts on lists, bytes and numbers that the
  component theories share.

  A C++ method of an object with state \<open>'s\<close> that returns \<open>'a\<close> is a function of type
  \<open>('s, 'a) tio\<close>: it takes the object before the call and returns the outcome (an exception or
  a value) with the object after the call. The state after an exception is kept, since the code
  can catch the exception and go on using the object.
\<close>

section \<open>Bytes and machine integers\<close>

type_synonym u8 = "8 word"
type_synonym i16 = "16 word"
type_synonym i32 = "32 word"
type_synonym i64 = "64 word"
type_synonym bytes = "u8 list"

named_theorems tio_simps "unfolding rules for the calling convention"
named_theorems slice_simps "facts on buffers and their regions"

text \<open>
  Sizes and buffer offsets (\<^verbatim>\<open>uint32_t\<close>) are natural numbers with the wrap-around written
  out: \<open>u32\<close> reduces modulo \<open>2 ^ 32\<close> and \<open>u32_diff\<close> is the wrapping subtraction.
\<close>

definition u32 :: "nat \<Rightarrow> nat" where
  "u32 n = n mod 2 ^ 32"

definition u32_diff :: "nat \<Rightarrow> nat \<Rightarrow> nat" where
  "u32_diff a b = nat ((int a - int b) mod 2 ^ 32)"

lemma u32_small [simp]: "n < 2 ^ 32 \<Longrightarrow> u32 n = n"
  by (simp add: u32_def)

lemma u32_bound [simp]: "u32 n < 4294967296"
  by (simp add: u32_def)

lemma u32_diff_small [simp]: "b \<le> a \<Longrightarrow> a < 2 ^ 32 \<Longrightarrow> u32_diff a b = a - b"
  by (simp add: u32_diff_def nat_diff_distrib flip: of_nat_diff)

lemma u32_diff_wraps: "a < b \<Longrightarrow> b < 2 ^ 32 \<Longrightarrow> u32_diff a b = 2 ^ 32 + a - b"
proof -
  assume "a < b" and "b < 2 ^ 32"
  then have "(int a - int b) mod 2 ^ 32 = int a - int b + 2 ^ 32"
    by (intro mod_pos_pos_trivial [THEN trans, rotated 2] mod_add_self2 [symmetric, THEN trans])
      (auto simp: mod_add_self2)
  then show ?thesis using \<open>a < b\<close> \<open>b < 2 ^ 32\<close>
    by (simp add: u32_diff_def)
qed

section \<open>Exceptions and the calling convention\<close>

text \<open>
  \<^verbatim>\<open>TTransportExceptionType\<close> and \<^verbatim>\<open>TProtocolExceptionType\<close>, with the prefix of their class.
\<close>

datatype transport_exc_type =
    TE_UNKNOWN | TE_NOT_OPEN | TE_TIMED_OUT | TE_END_OF_FILE | TE_INTERRUPTED | TE_BAD_ARGS
  | TE_CORRUPTED_DATA | TE_INTERNAL_ERROR

datatype protocol_exc_type =
    PE_UNKNOWN | PE_INVALID_DATA | PE_NEGATIVE_SIZE | PE_SIZE_LIMIT | PE_BAD_VERSION
  | PE_NOT_IMPLEMENTED

text \<open>
  The outcomes of a call other than a value. \<open>AssertFail\<close> is a failed \<^verbatim>\<open>assert\<close>,
  \<open>UndefinedBehaviour\<close> an access outside an allocated block (or another step the language
  leaves undefined), \<open>ThrownPointer\<close> a \<^verbatim>\<open>throw new\<close> of an exception (which no handler of
  the exception's class catches) and \<open>Diverges\<close> a loop that never ends: theorems say where they cannot
  happen.
\<close>

datatype exc =
    TTransportException transport_exc_type
  | TProtocolException protocol_exc_type
  | TException
  | BadAlloc
  | AssertFail
  | UndefinedBehaviour
  | ThrownPointer protocol_exc_type
  | Diverges

type_synonym ('s, 'a) tio = "'s \<Rightarrow> (exc + 'a) \<times> 's"

definition ret :: "'a \<Rightarrow> ('s, 'a) tio" where
  [tio_simps]: "ret x s = (Inr x, s)"

definition throw :: "exc \<Rightarrow> ('s, 'a) tio" where
  [tio_simps]: "throw e s = (Inl e, s)"

definition bindT :: "('s, 'a) tio \<Rightarrow> ('a \<Rightarrow> ('s, 'b) tio) \<Rightarrow> ('s, 'b) tio" where
  [tio_simps]: "bindT m f s = (case m s of (Inl e, s') \<Rightarrow> (Inl e, s') | (Inr x, s') \<Rightarrow> f x s')"

text \<open>Reading and updating the object itself.\<close>

definition gets :: "('s \<Rightarrow> 'a) \<Rightarrow> ('s, 'a) tio" where
  [tio_simps]: "gets f s = (Inr (f s), s)"

definition modify :: "('s \<Rightarrow> 's) \<Rightarrow> ('s, unit) tio" where
  [tio_simps]: "modify f s = (Inr (), f s)"

text \<open>
  A call on a member object: \<open>on_part get put m\<close> runs \<open>m\<close> on the part of the state that
  \<open>get\<close> selects and stores the part back with \<open>put\<close>.
\<close>

definition on_part :: "('s \<Rightarrow> 'p) \<Rightarrow> ('p \<Rightarrow> 's \<Rightarrow> 's) \<Rightarrow> ('p, 'a) tio \<Rightarrow> ('s, 'a) tio" where
  [tio_simps]: "on_part get put m s = (case m (get s) of (r, p) \<Rightarrow> (r, put p s))"

lemma bindT_ok: "m s = (Inr x, s') \<Longrightarrow> bindT m f s = f x s'"
  by (simp add: bindT_def)

lemma bindT_exc: "m s = (Inl e, s') \<Longrightarrow> bindT m f s = (Inl e, s')"
  by (simp add: bindT_def)

lemma bindT_assoc: "bindT (bindT m f) g = bindT m (\<lambda>x. bindT (f x) g)"
  by (rule ext) (simp add: bindT_def split: prod.splits sum.splits)

lemma bindT_Inr_elim:
  assumes "bindT m f s = (Inr y, t)"
  obtains x u where "m s = (Inr x, u)" and "f x u = (Inr y, t)"
  using assms by (auto simp: bindT_def split: prod.splits sum.splits)

section \<open>Regions of a buffer\<close>

text \<open>
  \<open>slice i n xs\<close> is the region of \<open>n\<close> bytes at offset \<open>i\<close> (the source of a
  \<^verbatim>\<open>memcpy\<close>), \<open>splice i ys xs\<close> the buffer after \<open>ys\<close> is copied to offset \<open>i\<close>.
\<close>

definition slice :: "nat \<Rightarrow> nat \<Rightarrow> 'a list \<Rightarrow> 'a list" where
  "slice i n xs = take n (drop i xs)"

definition splice :: "nat \<Rightarrow> 'a list \<Rightarrow> 'a list \<Rightarrow> 'a list" where
  "splice i ys xs = take i xs @ ys @ drop (i + length ys) xs"

lemma length_slice [simp]: "i + n \<le> length xs \<Longrightarrow> length (slice i n xs) = n"
  by (simp add: slice_def)

lemma length_splice [simp]: "i + length ys \<le> length xs \<Longrightarrow> length (splice i ys xs) = length xs"
  by (simp add: splice_def)

lemma slice_0 [simp]: "slice i 0 xs = []"
  by (simp add: slice_def)

lemma slice_start [simp]: "slice 0 n xs = take n xs"
  by (simp add: slice_def)

lemma splice_Nil [simp]: "splice i [] xs = xs"
  by (simp add: splice_def)

lemma slice_append [slice_simps]:
  "slice i m xs @ slice (i + m) n xs = slice i (m + n) xs"
  by (simp add: slice_def take_add add.commute)

lemma take_splice [slice_simps]:
  "i + length ys \<le> length xs \<Longrightarrow> take (i + length ys) (splice i ys xs) = take i xs @ ys"
  by (simp add: splice_def)

lemma take_splice_before [slice_simps]:
  "j \<le> i \<Longrightarrow> i \<le> length xs \<Longrightarrow> take j (splice i ys xs) = take j xs"
  by (simp add: splice_def min_absorb1)

lemma slice_take [slice_simps]: "i + n \<le> j \<Longrightarrow> slice i n (take j xs) = slice i n xs"
  by (simp add: slice_def drop_take min_absorb1)

lemma drop_take_slice [slice_simps]: "i \<le> j \<Longrightarrow> drop i (take j xs) = slice i (j - i) xs"
  by (simp add: slice_def drop_take)

lemma slice_split [slice_simps]:
  "n \<le> m \<Longrightarrow> take n (slice i m xs) = slice i n xs"
  "n \<le> m \<Longrightarrow> drop n (slice i m xs) = slice (i + n) (m - n) xs"
  by (simp_all add: slice_def min_absorb1 drop_take add.commute)

text \<open>The block that \<^verbatim>\<open>realloc\<close> returns: the contents up to the smaller size.\<close>

definition resize :: "nat \<Rightarrow> bytes \<Rightarrow> bytes" where
  "resize n xs = take n xs @ replicate (n - length xs) 0"

lemma length_resize [simp]: "length (resize n xs) = n"
  by (simp add: resize_def)

lemma take_resize [simp]: "k \<le> n \<Longrightarrow> k \<le> length xs \<Longrightarrow> take k (resize n xs) = take k xs"
  by (simp add: resize_def min_absorb1)

section \<open>Integers in memory\<close>

text \<open>
  The bytes of an integer in network order (what \<^verbatim>\<open>htons\<close>, \<^verbatim>\<open>htonl\<close> and \<^verbatim>\<open>htonll\<close>
  leave in memory, on any host) and in little-endian order (\<^verbatim>\<open>htolell\<close>), with the readers.
\<close>

fun be_bytes :: "nat \<Rightarrow> nat \<Rightarrow> bytes" where
  "be_bytes 0 n = []"
| "be_bytes (Suc k) n = be_bytes k (n div 256) @ [of_nat n]"

definition be_nat :: "bytes \<Rightarrow> nat" where
  "be_nat bs = foldl (\<lambda>a b. a * 256 + unat b) 0 bs"

fun le_bytes :: "nat \<Rightarrow> nat \<Rightarrow> bytes" where
  "le_bytes 0 n = []"
| "le_bytes (Suc k) n = of_nat n # le_bytes k (n div 256)"

fun le_nat :: "bytes \<Rightarrow> nat" where
  "le_nat [] = 0"
| "le_nat (b # bs) = unat b + 256 * le_nat bs"

lemma be_nat_Nil [simp]: "be_nat [] = 0"
  by (simp add: be_nat_def)

lemma be_nat_snoc [simp]: "be_nat (bs @ [b]) = be_nat bs * 256 + unat b"
  by (simp add: be_nat_def)

lemma length_be_bytes [simp]: "length (be_bytes k n) = k"
  by (induction k arbitrary: n) simp_all

lemma length_le_bytes [simp]: "length (le_bytes k n) = k"
  by (induction k arbitrary: n) simp_all

lemma unat_byte_of_nat [simp]: "unat (of_nat n :: u8) = n mod 256"
  by (simp add: unat_of_nat)

lemma div_256_mod: "(n div 256) mod 256 ^ k * 256 + n mod 256 = n mod (256 * 256 ^ k)" for n :: nat
  using mod_mult2_eq [of n 256 "256 ^ k"] by simp

lemma be_nat_be_bytes [simp]: "be_nat (be_bytes k n) = n mod 256 ^ k"
  by (induction k arbitrary: n) (simp_all add: div_256_mod)

lemma le_nat_le_bytes [simp]: "le_nat (le_bytes k n) = n mod 256 ^ k"
  by (induction k arbitrary: n) (simp_all add: div_256_mod [symmetric] algebra_simps)

lemma byte_lt_256 [simp]: "unat (b :: u8) < 256"
  using unsigned_less [of b] by simp

lemma unat_bounds [simp]:
  "unat (w16 :: i16) < 65536" "unat (w32 :: i32) < 4294967296" "unat (w64 :: i64) < 18446744073709551616"
  using unsigned_less [of w16, where 'a = nat] unsigned_less [of w32, where 'a = nat]
    unsigned_less [of w64, where 'a = nat] by simp_all

lemma byte_256 [simp]: "(256 :: u8) = 0"
  by (rule word_uint_eqI) simp

lemma byte_mod_256 [simp]: "unat (b :: u8) mod 256 = unat b"
  by simp

lemma be_bytes_be_nat [simp]: "be_bytes (length bs) (be_nat bs) = bs"
  by (induction bs rule: rev_induct)
    (simp_all add: div_mult_self3 [where b = 256] of_nat_add of_nat_mult)

lemma le_bytes_le_nat [simp]: "le_bytes (length bs) (le_nat bs) = bs"
  by (induction bs) (simp_all add: of_nat_add of_nat_mult)

lemma be_bytes_4: "be_bytes 4 n = [of_nat (n div 256 div 256 div 256), of_nat (n div 256 div 256), of_nat (n div 256), of_nat n]"
proof -
  have "4 = Suc (Suc (Suc (Suc 0)))" by simp
  then show ?thesis by (simp only: be_bytes.simps append.simps)
qed

lemma be_bytes_mod: "be_bytes k (n mod 256 ^ k) = be_bytes k n"
  by (metis be_bytes_be_nat be_nat_be_bytes length_be_bytes)

end
