(* ===== verification/Transport.thy ===== *)
theory Transport
  imports ThriftPrelude
begin

text \<open>
  The abstract transport of \<^verbatim>\<open>lib/cpp/src/transport/TTransport.h\<close>: the class as a table of
  its virtual functions over an object state \<open>'s\<close>, the defaults of the base class, the generic
  \<^verbatim>\<open>readAll\<close> loop, and the contracts that the transports of the library give to the
  protocols above them: a source of bytes and a sink of bytes.
\<close>

section \<open>The virtual functions of TTransport\<close>

text \<open>
  \<open>t_read T n\<close> is \<^verbatim>\<open>read(buf, n)\<close> and returns the bytes put in \<^verbatim>\<open>buf\<close>;
  \<open>t_borrow T n\<close> is \<^verbatim>\<open>borrow(NULL, &n)\<close> and returns the borrowed bytes, whose number is
  the updated \<^verbatim>\<open>*len\<close>, or \<open>None\<close> for the null pointer.
\<close>

record 's ttransport =
  t_isOpen :: "'s \<Rightarrow> bool"
  t_peek :: "('s, bool) tio"
  t_open :: "('s, unit) tio"
  t_close :: "('s, unit) tio"
  t_read :: "nat \<Rightarrow> ('s, bytes) tio"
  t_readAll :: "nat \<Rightarrow> ('s, bytes) tio"
  t_readEnd :: "('s, nat) tio"
  t_write :: "bytes \<Rightarrow> ('s, unit) tio"
  t_writeEnd :: "('s, nat) tio"
  t_flush :: "('s, unit) tio"
  t_borrow :: "nat \<Rightarrow> ('s, bytes option) tio"
  t_consume :: "nat \<Rightarrow> ('s, unit) tio"

text \<open>
  The \<^verbatim>\<open>readAll\<close> template: \<open>acc\<close> holds the \<^verbatim>\<open>have\<close> bytes already in the caller's
  buffer. A read that returns more bytes than asked for would run past that buffer.
\<close>

function readAll_loop :: "(nat \<Rightarrow> ('s, bytes) tio) \<Rightarrow> nat \<Rightarrow> bytes \<Rightarrow> ('s, bytes) tio" where
  "readAll_loop rd len got s =
     (if length got < len then
        (case rd (len - length got) s of
           (Inl e, s') \<Rightarrow> (Inl e, s')
         | (Inr get, s') \<Rightarrow>
             if get = [] then (Inl (TTransportException TE_END_OF_FILE), s')
             else if len - length got < length get then (Inl UndefinedBehaviour, s')
             else readAll_loop rd len (got @ get) s')
      else (Inr got, s))"
  by pat_completeness auto
termination
  by (relation "measure (\<lambda>(rd, len, h, s). len - length h)") (auto simp: neq_Nil_conv)

declare readAll_loop.simps [simp del]

definition readAll :: "(nat \<Rightarrow> ('s, bytes) tio) \<Rightarrow> nat \<Rightarrow> ('s, bytes) tio" where
  "readAll rd len = readAll_loop rd len []"

text \<open>The functions of the base class, which a transport gets where it does not override them.\<close>

definition base_isOpen :: "'s \<Rightarrow> bool" where
  "base_isOpen s = False"

definition base_peek :: "('s \<Rightarrow> bool) \<Rightarrow> ('s, bool) tio" where
  "base_peek is_open = gets is_open"

definition base_open :: "('s, unit) tio" where
  "base_open = throw (TTransportException TE_NOT_OPEN)"

definition base_close :: "('s, unit) tio" where
  "base_close = throw (TTransportException TE_NOT_OPEN)"

definition base_read :: "nat \<Rightarrow> ('s, bytes) tio" where
  "base_read n = throw (TTransportException TE_NOT_OPEN)"

definition base_write :: "bytes \<Rightarrow> ('s, unit) tio" where
  "base_write bs = throw (TTransportException TE_NOT_OPEN)"

definition base_readEnd :: "('s, nat) tio" where
  "base_readEnd = ret 0"

definition base_writeEnd :: "('s, nat) tio" where
  "base_writeEnd = ret 0"

definition base_flush :: "('s, unit) tio" where
  "base_flush = ret ()"

definition base_borrow :: "nat \<Rightarrow> ('s, bytes option) tio" where
  "base_borrow n = ret None"

definition base_consume :: "nat \<Rightarrow> ('s, unit) tio" where
  "base_consume n = throw (TTransportException TE_NOT_OPEN)"

section \<open>The contract of a source of bytes\<close>

text \<open>
  \<open>pending s\<close> are the bytes the transport still has to deliver. A read delivers a prefix of
  them, at most as long as asked for, and some of them when as many as asked for are pending.
\<close>

locale stream_base =
  fixes T :: "'s ttransport"
    and inv :: "'s \<Rightarrow> bool"
    and pending :: "'s \<Rightarrow> bytes"
  assumes read_prefix:
    "inv s \<Longrightarrow> \<exists>bs s'. t_read T n s = (Inr bs, s') \<and> inv s' \<and> pending s = bs @ pending s' \<and>
       length bs \<le> n \<and> (0 < n \<longrightarrow> n \<le> length (pending s) \<longrightarrow> bs \<noteq> [])"
begin

lemma readAll_loop_exact:
  assumes "inv s" and "n - length h \<le> length (pending s)" and "length h \<le> n"
  shows "\<exists>s'. readAll_loop (t_read T) n h s = (Inr (h @ take (n - length h) (pending s)), s') \<and>
    inv s' \<and> pending s' = drop (n - length h) (pending s)"
  using assms
proof (induction "t_read T" n h s rule: readAll_loop.induct)
  case (1 n h s)
  show ?case
  proof (cases "length h < n")
    case False
    with "1.prems" show ?thesis by (subst readAll_loop.simps) simp
  next
    case True
    with "1.prems" obtain bs s' where rd: "t_read T (n - length h) s = (Inr bs, s')"
      and inv': "inv s'" and split: "pending s = bs @ pending s'"
      and le: "length bs \<le> n - length h" and "bs \<noteq> []"
      using read_prefix [of s "n - length h"] by auto
    have "\<exists>s''. readAll_loop (t_read T) n (h @ bs) s' =
        (Inr ((h @ bs) @ take (n - length (h @ bs)) (pending s')), s'') \<and> inv s'' \<and>
        pending s'' = drop (n - length (h @ bs)) (pending s')"
      using "1.prems" True split le
      by (intro "1.hyps" [OF True rd [symmetric] refl \<open>bs \<noteq> []\<close> _ inv']) auto
    then show ?thesis using True rd le \<open>bs \<noteq> []\<close> split
      by (subst readAll_loop.simps) (auto simp: diff_diff_add)
  qed
qed

lemma readAll_loop_eof:
  assumes "inv s" and "length (pending s) < n - length h"
  shows "\<exists>s'. readAll_loop (t_read T) n h s = (Inl (TTransportException TE_END_OF_FILE), s') \<and>
    inv s' \<and> (\<exists>k. pending s' = drop k (pending s))"
  using assms
proof (induction "t_read T" n h s rule: readAll_loop.induct)
  case (1 n h s)
  then have True: "length h < n" by simp
  obtain bs s' where rd: "t_read T (n - length h) s = (Inr bs, s')"
    and inv': "inv s'" and split: "pending s = bs @ pending s'"
    and le: "length bs \<le> n - length h"
    using read_prefix [OF "1.prems"(1), of "n - length h"] True by auto
  have drop: "drop k (pending s') = drop (length bs + k) (pending s)" for k using split by simp
  show ?case
  proof (cases "bs = []")
    case True
    with \<open>length h < n\<close> rd inv' drop [of 0] show ?thesis
      by (subst readAll_loop.simps) (auto intro: exI [of _ 0])
  next
    case False
    have "\<exists>s''. readAll_loop (t_read T) n (h @ bs) s' =
        (Inl (TTransportException TE_END_OF_FILE), s'') \<and> inv s'' \<and>
        (\<exists>k. pending s'' = drop k (pending s'))"
      using "1.prems" True split le
      by (intro "1.hyps" [OF \<open>length h < n\<close> rd [symmetric] refl False _ inv']) auto
    then show ?thesis using True rd le False drop
      by (subst readAll_loop.simps) auto
  qed
qed

lemmas readAll_exact = readAll_loop_exact [where h = "[]", simplified, folded readAll_def]
lemmas readAll_eof_base = readAll_loop_eof [where h = "[]", simplified, folded readAll_def]

end

text \<open>
  The promise of a blocking stream: a read makes progress unless nothing is pending, so that a
  return of 0 bytes means the end.
\<close>

locale stream_source = stream_base +
  assumes progress:
    "inv s \<Longrightarrow> 0 < n \<Longrightarrow> pending s \<noteq> [] \<Longrightarrow> t_read T n s = (Inr bs, s') \<Longrightarrow> bs \<noteq> []"
begin

lemma read_stream:
  "inv s \<Longrightarrow> \<exists>bs s'. t_read T n s = (Inr bs, s') \<and> inv s' \<and> pending s = bs @ pending s' \<and>
     length bs \<le> n \<and> (0 < n \<longrightarrow> pending s \<noteq> [] \<longrightarrow> bs \<noteq> [])"
  using read_prefix [of s n] progress [of s n] by metis

lemma readAll_loop_short:
  assumes "inv s" and "length (pending s) < n - length h"
  shows "\<exists>s'. readAll_loop (t_read T) n h s = (Inl (TTransportException TE_END_OF_FILE), s') \<and>
    inv s' \<and> pending s' = []"
  using assms
proof (induction "t_read T" n h s rule: readAll_loop.induct)
  case (1 n h s)
  then have True: "length h < n" by simp
  obtain bs s' where rd: "t_read T (n - length h) s = (Inr bs, s')"
    and inv': "inv s'" and split: "pending s = bs @ pending s'"
    and le: "length bs \<le> n - length h" and progress: "pending s \<noteq> [] \<longrightarrow> bs \<noteq> []"
    using read_stream [OF "1.prems"(1), of "n - length h"] True by auto
  show ?case
  proof (cases "bs = []")
    case True
    with \<open>length h < n\<close> rd inv' split progress show ?thesis
      by (subst readAll_loop.simps) auto
  next
    case False
    have "\<exists>s''. readAll_loop (t_read T) n (h @ bs) s' =
        (Inl (TTransportException TE_END_OF_FILE), s'') \<and> inv s'' \<and> pending s'' = []"
      using "1.prems" True split le
      by (intro "1.hyps" [OF \<open>length h < n\<close> rd [symmetric] refl False _ inv']) auto
    then show ?thesis using True rd le False
      by (subst readAll_loop.simps) auto
  qed
qed

lemmas readAll_short = readAll_loop_short [where h = "[]", simplified, folded readAll_def]

end

lemma stream_sourceI:
  fixes inv :: "'s \<Rightarrow> bool"
  assumes "\<And>s n. inv s \<Longrightarrow> \<exists>bs s'. t_read T n s = (Inr bs, s') \<and> inv s' \<and> pending s = bs @ pending s' \<and>
     length bs \<le> n \<and> (0 < n \<longrightarrow> pending s \<noteq> [] \<longrightarrow> bs \<noteq> [])"
  shows "stream_source T inv pending"
proof unfold_locales
  fix s n
  assume "inv s"
  from assms [OF this, of n] show "\<exists>bs s'. t_read T n s = (Inr bs, s') \<and> inv s' \<and>
     pending s = bs @ pending s' \<and> length bs \<le> n \<and> (0 < n \<longrightarrow> n \<le> length (pending s) \<longrightarrow> bs \<noteq> [])"
    by fastforce
next
  fix s n bs s'
  assume "inv s" "0 < n" "pending s \<noteq> []" "t_read T n s = (Inr bs, s')"
  with assms [OF \<open>inv s\<close>, of n] show "bs \<noteq> []" by auto
qed

text \<open>
  What a protocol reads from: an exact \<^verbatim>\<open>readAll\<close>, and a \<^verbatim>\<open>borrow\<close> that either
  declines or shows pending bytes that can then be consumed.
\<close>

locale byte_source =
  fixes T :: "'s ttransport"
    and inv :: "'s \<Rightarrow> bool"
    and pending :: "'s \<Rightarrow> bytes"
  assumes readAll_ok:
    "inv s \<Longrightarrow> n \<le> length (pending s) \<Longrightarrow> \<exists>s'. t_readAll T n s = (Inr (take n (pending s)), s') \<and>
       inv s' \<and> pending s' = drop n (pending s)"
    and readAll_eof:
    "inv s \<Longrightarrow> length (pending s) < n \<Longrightarrow>
       \<exists>s'. t_readAll T n s = (Inl (TTransportException TE_END_OF_FILE), s') \<and> inv s'"
    and borrow_ok:
    "inv s \<Longrightarrow> \<exists>r s'. t_borrow T n s = (Inr r, s') \<and> inv s' \<and> pending s' = pending s \<and>
       (\<forall>bs. r = Some bs \<longrightarrow> n \<le> length bs \<and> take (length bs) (pending s) = bs \<and>
          (\<forall>m \<le> length bs. \<exists>s''. t_consume T m s' = (Inr (), s'') \<and> inv s'' \<and>
             pending s'' = drop m (pending s)))"
begin

lemma readAll_append:
  assumes "inv s" and "pending s = bs @ rest"
  obtains s' where "t_readAll T (length bs) s = (Inr bs, s')" and "inv s'" and "pending s' = rest"
  using readAll_ok [OF assms(1), of "length bs"] assms(2) by auto

end

text \<open>A transport below another one gives both.\<close>

locale full_source = stream_source + byte_source

section \<open>The contract of a sink of bytes\<close>

text \<open>
  \<open>written s\<close> are the bytes accepted so far and \<open>room s n\<close> says that \<open>n\<close> more are
  accepted without an error; a write of \<open>bs\<close> uses up \<open>length bs\<close> of the room.
\<close>

locale byte_sink =
  fixes T :: "'s ttransport"
    and inv :: "'s \<Rightarrow> bool"
    and room :: "'s \<Rightarrow> nat \<Rightarrow> bool"
    and written :: "'s \<Rightarrow> bytes"
  assumes room_le: "room s n \<Longrightarrow> m \<le> n \<Longrightarrow> room s m"
    and write_ok:
    "inv s \<Longrightarrow> room s (length bs + n) \<Longrightarrow> \<exists>s'. t_write T bs s = (Inr (), s') \<and> inv s' \<and>
       written s' = written s @ bs \<and> room s' n"
begin

text \<open>
  \<open>writes m bs\<close>: whenever there is room for \<open>bs\<close>, the action \<open>m\<close> returns, and has
  appended exactly \<open>bs\<close>. It composes along the code's sequences of writes.
\<close>

definition writes :: "('s, 'a) tio \<Rightarrow> bytes \<Rightarrow> 'a \<Rightarrow> bool" where
  "writes m bs x \<longleftrightarrow> (\<forall>s n. inv s \<longrightarrow> room s (length bs + n) \<longrightarrow>
     (\<exists>s'. m s = (Inr x, s') \<and> inv s' \<and> written s' = written s @ bs \<and> room s' n))"

lemma writes_write: "writes (t_write T bs) bs ()"
  using write_ok by (simp add: writes_def)

lemma writes_ret: "writes (ret x) [] x"
  by (simp add: writes_def ret_def)

lemma writes_bind:
  assumes "writes m bs x" and "writes (f x) cs y"
  shows "writes (bindT m f) (bs @ cs) y"
  unfolding writes_def
proof (intro allI impI)
  fix s n
  assume "inv s" and "room s (length (bs @ cs) + n)"
  then obtain s1 where "m s = (Inr x, s1)" "inv s1" "written s1 = written s @ bs"
      "room s1 (length cs + n)"
    using assms(1) by (auto simp: writes_def add.assoc)
  moreover from this obtain s2 where "f x s1 = (Inr y, s2)" "inv s2"
      "written s2 = written s1 @ cs" "room s2 n"
    using assms(2) unfolding writes_def by (metis append.assoc)
  ultimately show "\<exists>s'. bindT m f s = (Inr y, s') \<and> inv s' \<and> written s' = written s @ bs @ cs \<and>
      room s' n"
    by (auto simp: bindT_def)
qed

end


section \<open>A channel\<close>

text \<open>
  What a protocol needs from its transport: a sink for its writer and a source for its reader.
  The two can be different objects of the same class, in different states.
\<close>

locale byte_channel = snk: byte_sink T winv room written + src: byte_source T rinv pending
  for T :: "'s ttransport"
    and winv :: "'s \<Rightarrow> bool" and room :: "'s \<Rightarrow> nat \<Rightarrow> bool" and written :: "'s \<Rightarrow> bytes"
    and rinv :: "'s \<Rightarrow> bool" and pending :: "'s \<Rightarrow> bytes"
begin

lemma write_whole:
  assumes "winv s" and "room s (length bs + n)"
  obtains s' where "t_write T bs s = (Inr (), s')" and "winv s'" and "written s' = written s @ bs"
    and "room s' n"
  using snk.write_ok [OF assms] by blast

lemma read_whole:
  assumes "rinv s" and "pending s = bs @ rest"
  obtains s' where "t_readAll T (length bs) s = (Inr bs, s')" and "rinv s'" and "pending s' = rest"
  by (rule src.readAll_append [OF assms])

end

end
