(* ===== verification/BufferBase.thy ===== *)
theory BufferBase
  imports Transport
begin

text \<open>
  \<^verbatim>\<open>TBufferBase\<close> (\<^verbatim>\<open>transport/TBufferTransports.h\<close>): the fast paths shared by the
  buffered transports. The four pointers are offsets into the buffers of the subclass, which
  gives its buffers and its slow paths as arguments, as it overrides the virtual functions.
  Every copy goes through \<open>load\<close> and \<open>store\<close>, which check the bounds of the block.
\<close>

record tbuf_base =
  rBase :: nat
  rBound :: nat
  wBase :: nat
  wBound :: nat

definition load :: "('s \<Rightarrow> bytes) \<Rightarrow> nat \<Rightarrow> nat \<Rightarrow> ('s, bytes) tio" where
  "load mem i n s =
     (if i + n \<le> length (mem s) then (Inr (slice i n (mem s)), s)
      else (Inl UndefinedBehaviour, s))"

definition store ::
  "('s \<Rightarrow> bytes) \<Rightarrow> ((bytes \<Rightarrow> bytes) \<Rightarrow> 's \<Rightarrow> 's) \<Rightarrow> nat \<Rightarrow> bytes \<Rightarrow> ('s, unit) tio" where
  "store mem upd i bs s =
     (if i + length bs \<le> length (mem s) then (Inr (), upd (splice i bs) s)
      else (Inl UndefinedBehaviour, s))"

definition setReadBuffer :: "nat \<Rightarrow> nat \<Rightarrow> 'x tbuf_base_scheme \<Rightarrow> 'x tbuf_base_scheme" where
  "setReadBuffer p len s = s\<lparr>rBase := p, rBound := p + len\<rparr>"

definition setWriteBuffer :: "nat \<Rightarrow> nat \<Rightarrow> 'x tbuf_base_scheme \<Rightarrow> 'x tbuf_base_scheme" where
  "setWriteBuffer p len s = s\<lparr>wBase := p, wBound := p + len\<rparr>"

definition tbuf_read ::
  "('x tbuf_base_scheme \<Rightarrow> bytes) \<Rightarrow> (nat \<Rightarrow> ('x tbuf_base_scheme, bytes) tio) \<Rightarrow>
   nat \<Rightarrow> ('x tbuf_base_scheme, bytes) tio" where
  "tbuf_read rmem readSlow len s =
     (let new_rBase = rBase s + len in
      if new_rBase \<le> rBound s then
        bindT (load rmem (rBase s) len) (\<lambda>bs.
        bindT (modify (\<lambda>s. s\<lparr>rBase := new_rBase\<rparr>)) (\<lambda>_. ret bs)) s
      else readSlow len s)"

definition tbuf_readAll ::
  "('x tbuf_base_scheme \<Rightarrow> bytes) \<Rightarrow> (nat \<Rightarrow> ('x tbuf_base_scheme, bytes) tio) \<Rightarrow>
   nat \<Rightarrow> ('x tbuf_base_scheme, bytes) tio" where
  "tbuf_readAll rmem readSlow len s =
     (let new_rBase = rBase s + len in
      if new_rBase \<le> rBound s then
        bindT (load rmem (rBase s) len) (\<lambda>bs.
        bindT (modify (\<lambda>s. s\<lparr>rBase := new_rBase\<rparr>)) (\<lambda>_. ret bs)) s
      else readAll (tbuf_read rmem readSlow) len s)"

definition tbuf_write ::
  "('x tbuf_base_scheme \<Rightarrow> bytes) \<Rightarrow>
   ((bytes \<Rightarrow> bytes) \<Rightarrow> 'x tbuf_base_scheme \<Rightarrow> 'x tbuf_base_scheme) \<Rightarrow>
   (bytes \<Rightarrow> ('x tbuf_base_scheme, unit) tio) \<Rightarrow> bytes \<Rightarrow> ('x tbuf_base_scheme, unit) tio" where
  "tbuf_write wmem wupd writeSlow buf s =
     (let new_wBase = wBase s + length buf in
      if new_wBase \<le> wBound s then
        bindT (store wmem wupd (wBase s) buf) (\<lambda>_.
        modify (\<lambda>s. s\<lparr>wBase := new_wBase\<rparr>)) s
      else writeSlow buf s)"

text \<open>The pointer that \<^verbatim>\<open>borrow\<close> returns is followed at once: the bytes it gives access to.\<close>

definition tbuf_borrow ::
  "('x tbuf_base_scheme \<Rightarrow> bytes) \<Rightarrow> (nat \<Rightarrow> ('x tbuf_base_scheme, bytes option) tio) \<Rightarrow>
   nat \<Rightarrow> ('x tbuf_base_scheme, bytes option) tio" where
  "tbuf_borrow rmem borrowSlow len s =
     (if int len \<le> int (rBound s) - int (rBase s) then
        bindT (load rmem (rBase s) (u32 (rBound s - rBase s))) (\<lambda>bs. ret (Some bs)) s
      else borrowSlow len s)"

definition tbuf_consume :: "nat \<Rightarrow> ('x tbuf_base_scheme, unit) tio" where
  "tbuf_consume len s =
     (if int len \<le> int (rBound s) - int (rBase s) then (Inr (), s\<lparr>rBase := rBase s + len\<rparr>)
      else (Inl (TTransportException TE_BAD_ARGS), s))"

lemma load_ok [simp]:
  "i + n \<le> length (mem s) \<Longrightarrow> load mem i n s = (Inr (slice i n (mem s)), s)"
  by (simp add: load_def)

lemma store_ok [simp]:
  "i + length bs \<le> length (mem s) \<Longrightarrow> store mem upd i bs s = (Inr (), upd (splice i bs) s)"
  by (simp add: store_def)

lemma tbuf_read_fast:
  "rBase s + n \<le> rBound s \<Longrightarrow> rBound s \<le> length (rmem s) \<Longrightarrow>
   tbuf_read rmem slow n s = (Inr (slice (rBase s) n (rmem s)), s\<lparr>rBase := rBase s + n\<rparr>)"
  by (simp add: tbuf_read_def tio_simps Let_def)

lemma tbuf_read_slow: "\<not> rBase s + n \<le> rBound s \<Longrightarrow> tbuf_read rmem slow n s = slow n s"
  by (simp add: tbuf_read_def)

lemma tbuf_readAll_fast:
  "rBase s + n \<le> rBound s \<Longrightarrow> rBound s \<le> length (rmem s) \<Longrightarrow>
   tbuf_readAll rmem slow n s = (Inr (slice (rBase s) n (rmem s)), s\<lparr>rBase := rBase s + n\<rparr>)"
  by (simp add: tbuf_readAll_def tio_simps Let_def)

lemma tbuf_readAll_slow:
  "\<not> rBase s + n \<le> rBound s \<Longrightarrow>
   tbuf_readAll rmem slow n s = readAll (tbuf_read rmem slow) n s"
  by (simp add: tbuf_readAll_def)

lemma tbuf_write_fast:
  "wBase s + length bs \<le> wBound s \<Longrightarrow> wBound s \<le> length (wmem s) \<Longrightarrow>
   tbuf_write wmem upd slow bs s =
     (Inr (), (upd (splice (wBase s) bs) s)\<lparr>wBase := wBase s + length bs\<rparr>)"
  by (simp add: tbuf_write_def tio_simps Let_def)

lemma tbuf_write_slow:
  "\<not> wBase s + length bs \<le> wBound s \<Longrightarrow> tbuf_write wmem upd slow bs s = slow bs s"
  by (simp add: tbuf_write_def)

lemma tbuf_borrow_fast:
  "rBase s + n \<le> rBound s \<Longrightarrow> rBound s \<le> length (rmem s) \<Longrightarrow> rBound s < 2 ^ 32 \<Longrightarrow>
   tbuf_borrow rmem slow n s = (Inr (Some (slice (rBase s) (rBound s - rBase s) (rmem s))), s)"
  by (simp add: tbuf_borrow_def tio_simps)

lemma tbuf_borrow_slow:
  "\<not> rBase s + n \<le> rBound s \<Longrightarrow> tbuf_borrow rmem slow n s = slow n s"
  by (simp add: tbuf_borrow_def)

lemma tbuf_consume_ok:
  "rBase s + n \<le> rBound s \<Longrightarrow> tbuf_consume n s = (Inr (), s\<lparr>rBase := rBase s + n\<rparr>)"
  by (simp add: tbuf_consume_def)

lemmas tbuf_fast = tbuf_read_fast tbuf_readAll_fast tbuf_write_fast tbuf_borrow_fast tbuf_consume_ok
lemmas tbuf_slow = tbuf_read_slow tbuf_readAll_slow tbuf_write_slow tbuf_borrow_slow

end
