(* ===== verification/MemoryBuffer.thy ===== *)
theory MemoryBuffer
  imports BufferBase
begin

text \<open>
  \<^verbatim>\<open>TMemoryBuffer\<close> (\<^verbatim>\<open>transport/TBufferTransports.{h,cpp}\<close>): reads from and writes to
  one growing block of memory. \<open>buffer\<close> is the allocated block or the null pointer; a fresh
  block is modelled as zero bytes, and no theorem depends on bytes that were never written.
  Allocation is taken to succeed, except that \<^verbatim>\<open>realloc\<close> to size 0 returns the null pointer.
\<close>

record mem_buffer = tbuf_base +
  buffer :: "bytes option"
  bufferSize :: nat
  owner :: bool

section \<open>Operations\<close>

definition mem :: "mem_buffer \<Rightarrow> bytes" where
  "mem s = (case buffer s of None \<Rightarrow> [] | Some b \<Rightarrow> b)"

definition mem_upd :: "(bytes \<Rightarrow> bytes) \<Rightarrow> mem_buffer \<Rightarrow> mem_buffer" where
  "mem_upd f s = s\<lparr>buffer := map_option f (buffer s)\<rparr>"

datatype memory_policy = OBSERVE | COPY | TAKE_OWNERSHIP

definition initCommon :: "bytes option \<Rightarrow> nat \<Rightarrow> bool \<Rightarrow> nat \<Rightarrow> mem_buffer" where
  "initCommon buf sz own wPos =
     (let b = (if buf = None \<and> sz \<noteq> 0 then Some (replicate sz 0) else buf) in
      \<lparr>rBase = 0, rBound = wPos, wBase = wPos, wBound = sz,
       buffer = b, bufferSize = sz, owner = own\<rparr>)"

definition available_read :: "mem_buffer \<Rightarrow> nat" where
  "available_read s = u32 (wBase s - rBase s)"

definition available_write :: "mem_buffer \<Rightarrow> nat" where
  "available_write s = u32 (wBound s - wBase s)"

text \<open>
  The loop of \<^verbatim>\<open>ensureCanWrite\<close> that doubles the size; its arithmetic is in
  \<^verbatim>\<open>uint32_t\<close>, so the doubling can wrap to 0.
\<close>

partial_function (option) grow_loop :: "nat \<Rightarrow> nat \<Rightarrow> nat \<Rightarrow> nat \<Rightarrow> nat \<Rightarrow> nat option" where
  "grow_loop len avail_write bufSize new_size avail =
     (if avail < len then
        (let new_size' = (if new_size > 0 then u32 (new_size * 2) else 1) in
         grow_loop len avail_write bufSize new_size' (u32 (avail_write + u32_diff new_size' bufSize)))
      else Some new_size)"

definition ensureCanWrite :: "nat \<Rightarrow> (mem_buffer, unit) tio" where
  "ensureCanWrite len s =
     (let avail = available_write s in
      if len \<le> avail then (Inr (), s)
      else if \<not> owner s then (Inl (TTransportException TE_UNKNOWN), s)
      else (case grow_loop len avail (bufferSize s) (bufferSize s) avail of
              None \<Rightarrow> (Inl Diverges, s)
            | Some new_size \<Rightarrow>
                if new_size = 0 then (Inl BadAlloc, s)
                else (Inr (), s\<lparr>buffer := Some (take new_size (mem s) @
                                              replicate (new_size - length (mem s)) 0),
                                bufferSize := new_size, wBound := new_size\<rparr>)))"

definition computeRead :: "nat \<Rightarrow> (mem_buffer, nat \<times> nat) tio" where
  "computeRead len s =
     (let s1 = s\<lparr>rBound := wBase s\<rparr>;
          give = min len (available_read s1) in
      (Inr (rBase s1, give), s1\<lparr>rBase := rBase s1 + give\<rparr>))"

definition mem_readSlow :: "nat \<Rightarrow> (mem_buffer, bytes) tio" where
  "mem_readSlow len = bindT (computeRead len) (\<lambda>(start, give). load mem start give)"

definition mem_writeSlow :: "bytes \<Rightarrow> (mem_buffer, unit) tio" where
  "mem_writeSlow buf =
     bindT (ensureCanWrite (length buf)) (\<lambda>_. \<lambda>s.
     bindT (store mem mem_upd (wBase s) buf) (\<lambda>_.
     modify (\<lambda>s. s\<lparr>wBase := wBase s + length buf\<rparr>)) s)"

definition mem_borrowSlow :: "nat \<Rightarrow> (mem_buffer, bytes option) tio" where
  "mem_borrowSlow len s =
     (let s1 = s\<lparr>rBound := wBase s\<rparr> in
      if available_read s1 \<ge> len then
        bindT (load mem (rBase s1) (available_read s1)) (\<lambda>bs. ret (Some bs)) s1
      else (Inr None, s1))"

definition mem_read :: "nat \<Rightarrow> (mem_buffer, bytes) tio" where
  "mem_read = tbuf_read mem mem_readSlow"

definition mem_readAll :: "nat \<Rightarrow> (mem_buffer, bytes) tio" where
  "mem_readAll = tbuf_readAll mem mem_readSlow"

definition mem_write :: "bytes \<Rightarrow> (mem_buffer, unit) tio" where
  "mem_write = tbuf_write mem mem_upd mem_writeSlow"

definition mem_borrow :: "nat \<Rightarrow> (mem_buffer, bytes option) tio" where
  "mem_borrow = tbuf_borrow mem mem_borrowSlow"

text \<open>\<^verbatim>\<open>readAppendToString\<close> and \<^verbatim>\<open>readAsString\<close>; the string is returned.\<close>

definition readAppendToString :: "bytes \<Rightarrow> nat \<Rightarrow> (mem_buffer, nat \<times> bytes) tio" where
  "readAppendToString str len s =
     (if buffer s = None then (Inr (0, str), s)
      else bindT (computeRead len) (\<lambda>(start, give).
           bindT (load mem start give) (\<lambda>bs. ret (give, str @ bs))) s)"

definition readAsString :: "nat \<Rightarrow> (mem_buffer, bytes) tio" where
  "readAsString len = bindT (readAppendToString [] len) (\<lambda>(n, str). ret str)"

definition getBuffer :: "mem_buffer \<Rightarrow> bytes" where
  "getBuffer s = slice (rBase s) (u32 (wBase s - rBase s)) (mem s)"

definition getBufferAsString :: "mem_buffer \<Rightarrow> bytes" where
  "getBufferAsString s = (if buffer s = None then [] else getBuffer s)"

definition appendBufferToString :: "mem_buffer \<Rightarrow> bytes \<Rightarrow> bytes" where
  "appendBufferToString s str = (if buffer s = None then str else str @ getBuffer s)"

definition mem_resetBuffer :: "mem_buffer \<Rightarrow> mem_buffer" where
  "mem_resetBuffer s =
     (let s1 = s\<lparr>rBase := 0, rBound := 0, wBase := 0\<rparr> in
      if \<not> owner s1 then s1\<lparr>wBound := wBase s1, bufferSize := 0\<rparr> else s1)"

definition mem_readEnd :: "(mem_buffer, nat) tio" where
  "mem_readEnd s =
     (Inr (u32 (rBase s)), if rBase s = wBase s then mem_resetBuffer s else s)"

definition mem_writeEnd :: "(mem_buffer, nat) tio" where
  "mem_writeEnd s = (Inr (u32 (wBase s)), s)"

definition mem_peek :: "(mem_buffer, bool) tio" where
  "mem_peek s = (Inr (rBase s < wBase s), s)"

definition getWritePtr :: "nat \<Rightarrow> (mem_buffer, nat) tio" where
  "getWritePtr len = bindT (ensureCanWrite len) (\<lambda>_. gets wBase)"

definition wroteBytes :: "nat \<Rightarrow> (mem_buffer, unit) tio" where
  "wroteBytes len s =
     (if available_write s < len then (Inl (TTransportException TE_UNKNOWN), s)
      else (Inr (), s\<lparr>wBase := wBase s + len\<rparr>))"

text \<open>The constructors: default size, a given size, and a given block under a policy.\<close>

definition new_TMemoryBuffer_sized :: "nat \<Rightarrow> mem_buffer" where
  "new_TMemoryBuffer_sized sz = initCommon None sz True 0"

definition new_TMemoryBuffer :: mem_buffer where
  "new_TMemoryBuffer = new_TMemoryBuffer_sized 1024"

definition new_TMemoryBuffer_from ::
  "bytes option \<Rightarrow> nat \<Rightarrow> memory_policy \<Rightarrow> exc + mem_buffer" where
  "new_TMemoryBuffer_from buf sz policy =
     (if buf = None \<and> sz \<noteq> 0 then Inl (TTransportException TE_BAD_ARGS)
      else case policy of
        COPY \<Rightarrow>
          (case mem_write (case buf of None \<Rightarrow> [] | Some b \<Rightarrow> take sz b) (initCommon None sz True 0) of
             (Inl e, s) \<Rightarrow> Inl e | (Inr _, s) \<Rightarrow> Inr s)
      | _ \<Rightarrow> Inr (initCommon buf sz (policy = TAKE_OWNERSHIP) sz))"

text \<open>\<^verbatim>\<open>resetBuffer\<close> with arguments constructs a new buffer and swaps all members.\<close>

definition mem_resetBuffer_from :: "bytes option \<Rightarrow> nat \<Rightarrow> memory_policy \<Rightarrow> (mem_buffer, unit) tio" where
  "mem_resetBuffer_from buf sz policy s =
     (case new_TMemoryBuffer_from buf sz policy of Inl e \<Rightarrow> (Inl e, s) | Inr s' \<Rightarrow> (Inr (), s'))"

definition mem_resetBuffer_sized :: "nat \<Rightarrow> (mem_buffer, unit) tio" where
  "mem_resetBuffer_sized sz s = (Inr (), new_TMemoryBuffer_sized sz)"

definition mem_transport :: "mem_buffer ttransport" where
  "mem_transport = \<lparr>
     t_isOpen = (\<lambda>_. True), t_peek = mem_peek, t_open = ret (), t_close = ret (),
     t_read = mem_read, t_readAll = mem_readAll, t_readEnd = mem_readEnd,
     t_write = mem_write, t_writeEnd = mem_writeEnd, t_flush = base_flush,
     t_borrow = mem_borrow, t_consume = tbuf_consume\<rparr>"

section \<open>Growing the block\<close>

declare grow_loop.simps [code]

text \<open>
  While less than \<open>2 ^ 31\<close> bytes are needed in all, the doubling cannot wrap: it stops, with
  room for the request and at most twice what is needed.
\<close>

lemma grow_loop_ok:
  assumes "bsz \<le> ns" and "ns < 2 ^ 32" and "aw \<le> bsz" and "avail = aw + (ns - bsz)"
    and "len + (bsz - aw) \<le> 2 ^ 31"
  shows "\<exists>r. grow_loop len aw bsz ns avail = Some r \<and> ns \<le> r \<and> r < 2 ^ 32 \<and>
    len \<le> aw + (r - bsz) \<and> r \<le> max ns (2 * (len + (bsz - aw)))"
  using assms
proof (induction "2 ^ 31 - ns" arbitrary: ns avail rule: less_induct)
  case less
  show ?case
  proof (cases "avail < len")
    case False
    with less.prems show ?thesis by (subst grow_loop.simps) auto
  next
    case True
    define ns' where "ns' = (if ns > 0 then u32 (ns * 2) else 1)"
    from True less.prems have small: "ns < 2 ^ 31" and need: "ns < len + (bsz - aw)" by auto
    then have ns': "ns < ns'" "ns' < 2 ^ 32" "ns' \<le> 2 * (len + (bsz - aw))"
      by (auto simp: ns'_def u32_def)
    define av where "av = aw + (ns' - bsz)"
    have u: "u32 (aw + u32_diff ns' bsz) = av"
      using less.prems ns' by (simp add: av_def)
    have "\<exists>r. grow_loop len aw bsz ns' av = Some r \<and> ns' \<le> r \<and> r < 2 ^ 32 \<and>
        len \<le> aw + (r - bsz) \<and> r \<le> max ns' (2 * (len + (bsz - aw)))"
      using less.prems ns' small by (intro less.hyps) (auto simp: av_def)
    then show ?thesis using True ns' u
      by (subst grow_loop.simps) (auto simp: Let_def ns'_def [symmetric])
  qed
qed

section \<open>The invariant, and the bytes in the buffer\<close>

definition mem_inv :: "mem_buffer \<Rightarrow> bool" where
  "mem_inv s \<longleftrightarrow> rBase s \<le> rBound s \<and> rBound s \<le> wBase s \<and> wBase s \<le> wBound s \<and>
     wBound s = bufferSize s \<and> bufferSize s < 2 ^ 32 \<and>
     (if owner s then length (mem s) = bufferSize s else bufferSize s \<le> length (mem s))"

definition mem_pending :: "mem_buffer \<Rightarrow> bytes" where
  "mem_pending s = slice (rBase s) (wBase s - rBase s) (mem s)"

definition mem_written :: "mem_buffer \<Rightarrow> bytes" where
  "mem_written s = take (wBase s) (mem s)"

definition mem_room :: "mem_buffer \<Rightarrow> nat \<Rightarrow> bool" where
  "mem_room s n \<longleftrightarrow> wBase s + n \<le> wBound s \<or> (owner s \<and> wBase s + n \<le> 2 ^ 31)"

lemma mem_inv_D:
  assumes "mem_inv s"
  shows "rBase s \<le> rBound s" "rBound s \<le> wBase s" "wBase s \<le> wBound s" "wBound s \<le> length (mem s)"
    "wBound s < 2 ^ 32" "rBase s \<le> wBase s" "rBound s \<le> length (mem s)" "wBase s \<le> length (mem s)"
    "rBound s < 2 ^ 32" "wBase s < 2 ^ 32"
  using assms by (auto simp: mem_inv_def split: if_splits)

lemma mem_simps [simp]:
  "mem (s\<lparr>rBase := a\<rparr>) = mem s" "mem (s\<lparr>rBound := a\<rparr>) = mem s"
  "mem (s\<lparr>wBase := a\<rparr>) = mem s" "mem (s\<lparr>wBound := a\<rparr>) = mem s"
  "mem (s\<lparr>bufferSize := a\<rparr>) = mem s" "mem (s\<lparr>buffer := Some b\<rparr>) = b"
  by (simp_all add: mem_def)

lemma mem_upd_simps [simp]:
  "rBase (mem_upd f s) = rBase s" "rBound (mem_upd f s) = rBound s" "wBase (mem_upd f s) = wBase s"
  "wBound (mem_upd f s) = wBound s" "bufferSize (mem_upd f s) = bufferSize s"
  "owner (mem_upd f s) = owner s"
  by (simp_all add: mem_upd_def)

lemma mem_mem_upd: "f [] = [] \<Longrightarrow> mem (mem_upd f s) = f (mem s)"
  by (simp add: mem_def mem_upd_def split: option.splits)

lemma mem_splice [simp]:
  "i + length bs \<le> length (mem s) \<Longrightarrow> mem (mem_upd (splice i bs) s) = splice i bs (mem s)"
  by (cases "mem s = []") (auto simp: mem_def mem_upd_def split: option.splits)

lemma length_mem_pending: "mem_inv s \<Longrightarrow> length (mem_pending s) = wBase s - rBase s"
  using mem_inv_D [of s] by (simp add: mem_pending_def)

lemma available_read_eq [simp]: "mem_inv s \<Longrightarrow> available_read s = wBase s - rBase s"
  using mem_inv_D [of s] by (simp add: available_read_def)

lemma available_write_eq [simp]: "mem_inv s \<Longrightarrow> available_write s = wBound s - wBase s"
  using mem_inv_D [of s] by (simp add: available_write_def)

section \<open>Behaviour of the operations\<close>

text \<open>A read leaves the contents, the write position and the ownership alone.\<close>

definition same_writes :: "mem_buffer \<Rightarrow> mem_buffer \<Rightarrow> bool" where
  "same_writes s s' \<longleftrightarrow> mem s' = mem s \<and> wBase s' = wBase s \<and> wBound s' = wBound s \<and>
     bufferSize s' = bufferSize s \<and> owner s' = owner s"

lemma same_writes_room: "same_writes s s' \<Longrightarrow> mem_room s' n = mem_room s n"
  and same_writes_written: "same_writes s s' \<Longrightarrow> mem_written s' = mem_written s"
  by (simp_all add: same_writes_def mem_room_def mem_written_def)

lemma mem_advance:
  fixes b n :: nat and s :: mem_buffer
  defines "s' \<equiv> s\<lparr>rBound := b, rBase := rBase s + n\<rparr>"
  assumes "mem_inv s" and "rBase s + n \<le> wBase s" and "rBase s + n \<le> b" and "b \<le> wBase s"
  shows "mem_inv s'" and "mem_pending s' = drop n (mem_pending s)" and "same_writes s s'"
proof -
  show "mem_inv s'" and "same_writes s s'"
    using assms by (auto simp: mem_inv_def same_writes_def)
  show "mem_pending s' = drop n (mem_pending s)"
    using assms by (simp add: mem_pending_def slice_split diff_diff_add)
qed

lemma mem_readSlow_eq:
  assumes "mem_inv s"
  shows "\<exists>s'. mem_readSlow n s = (Inr (take n (mem_pending s)), s') \<and> mem_inv s' \<and>
    mem_pending s' = drop n (mem_pending s) \<and> same_writes s s'"
proof -
  note inv = assms mem_inv_D [OF assms]
  let ?m = "min n (wBase s - rBase s)"
  let ?s' = "s\<lparr>rBound := wBase s, rBase := rBase s + ?m\<rparr>"
  have "mem_inv (s\<lparr>rBound := wBase s\<rparr>)" using inv by (auto simp: mem_inv_def)
  then have "computeRead n s = (Inr (rBase s, ?m), ?s')"
    by (simp add: computeRead_def Let_def)
  then have "mem_readSlow n s = (Inr (slice (rBase s) ?m (mem s)), ?s')"
    using inv by (simp add: mem_readSlow_def bindT_def)
  moreover have "slice (rBase s) ?m (mem s) = take n (mem_pending s)"
    using inv by (cases "n \<le> wBase s - rBase s") (auto simp: mem_pending_def slice_split min_absorb1)
  moreover have "drop ?m (mem_pending s) = drop n (mem_pending s)"
    using length_mem_pending [OF assms] by (cases "n \<le> wBase s - rBase s") auto
  ultimately show ?thesis
    using mem_advance [of s ?m "wBase s"] inv by auto
qed

lemma mem_read_eq:
  assumes "mem_inv s"
  shows "\<exists>s'. mem_read n s = (Inr (take n (mem_pending s)), s') \<and> mem_inv s' \<and>
    mem_pending s' = drop n (mem_pending s) \<and> same_writes s s'"
proof (cases "rBase s + n \<le> rBound s")
  case True
  note inv = mem_inv_D [OF assms]
  have "s\<lparr>rBase := rBase s + n\<rparr> = s\<lparr>rBound := rBound s, rBase := rBase s + n\<rparr>" by simp
  with True inv assms show ?thesis
    using mem_advance [of s n "rBound s"]
    by (simp add: mem_read_def tbuf_fast mem_pending_def slice_split)
next
  case False
  then show ?thesis using mem_readSlow_eq [OF assms] by (simp add: mem_read_def tbuf_slow)
qed

lemma mem_borrow_eq:
  assumes "mem_inv s"
  shows "\<exists>r s'. mem_borrow n s = (Inr r, s') \<and> mem_inv s' \<and> mem_pending s' = mem_pending s \<and>
    same_writes s s' \<and> rBase s' = rBase s \<and>
    (r = None \<longleftrightarrow> length (mem_pending s) < n) \<and>
    (\<forall>bs. r = Some bs \<longrightarrow> n \<le> length bs \<and> take (length bs) (mem_pending s) = bs \<and>
       rBase s' + length bs \<le> rBound s')"
proof (cases "rBase s + n \<le> rBound s")
  case True
  note inv = mem_inv_D [OF assms]
  from True inv assms show ?thesis
    by (auto simp: mem_borrow_def tbuf_fast mem_pending_def slice_split same_writes_def)
next
  case False
  note inv = mem_inv_D [OF assms]
  let ?s' = "s\<lparr>rBound := wBase s\<rparr>"
  have inv': "mem_inv ?s'" using assms by (auto simp: mem_inv_def)
  show ?thesis
  proof (cases "n \<le> wBase s - rBase s")
    case True
    then have "mem_borrow n s = (Inr (Some (mem_pending s)), ?s')"
      using False inv inv' by (simp add: mem_borrow_def tbuf_slow mem_borrowSlow_def Let_def
          bindT_def ret_def mem_pending_def)
    with True inv inv' length_mem_pending [OF assms] show ?thesis
      by (auto simp: same_writes_def mem_pending_def)
  next
    case nofit: False
    then have "mem_borrow n s = (Inr None, ?s')"
      using False inv inv' by (simp add: mem_borrow_def tbuf_slow mem_borrowSlow_def Let_def)
    with nofit inv inv' length_mem_pending [OF assms] show ?thesis
      by (auto simp: same_writes_def mem_pending_def)
  qed
qed

text \<open>Writes: the block grows where it must, and the bytes are appended.\<close>

lemma ensureCanWrite_ok:
  assumes "mem_inv s" and "mem_room s n"
  shows "\<exists>s'. ensureCanWrite n s = (Inr (), s') \<and> mem_inv s' \<and> wBase s' + n \<le> wBound s' \<and>
    rBase s' = rBase s \<and> wBase s' = wBase s \<and> owner s' = owner s \<and>
    take (length (mem s)) (mem s') = mem s"
proof (cases "n \<le> wBound s - wBase s")
  case True
  with assms mem_inv_D [OF assms(1)] show ?thesis by (auto simp: ensureCanWrite_def Let_def)
next
  case False
  note inv = mem_inv_D [OF assms(1)]
  from False assms(2) inv have own: "owner s" and le: "wBase s + n \<le> 2 ^ 31"
    by (auto simp: mem_room_def)
  with assms(1) inv have len: "length (mem s) = bufferSize s" and sz: "wBound s = bufferSize s"
    by (auto simp: mem_inv_def)
  obtain r where r: "grow_loop n (wBound s - wBase s) (bufferSize s) (bufferSize s)
      (wBound s - wBase s) = Some r" "bufferSize s \<le> r" "r < 2 ^ 32"
      "n \<le> wBound s - wBase s + (r - bufferSize s)"
    using grow_loop_ok [of "bufferSize s" "bufferSize s" "wBound s - wBase s"
        "wBound s - wBase s" n] inv sz le by auto
  let ?s' = "s\<lparr>buffer := Some (take r (mem s) @ replicate (r - length (mem s)) 0),
    bufferSize := r, wBound := r\<rparr>"
  have "ensureCanWrite n s = (Inr (), ?s')"
    using False own r assms(1) inv by (auto simp: ensureCanWrite_def Let_def sz)
  moreover have "mem_inv ?s'"
    using assms(1) inv r len sz own by (auto simp: mem_inv_def)
  ultimately show ?thesis using r len sz inv by auto
qed

lemma mem_write_ok:
  assumes "mem_inv s" and "mem_room s (length bs + n)"
  shows "\<exists>s'. mem_write bs s = (Inr (), s') \<and> mem_inv s' \<and> mem_written s' = mem_written s @ bs \<and>
    mem_room s' n \<and> mem_pending s' = mem_pending s @ bs \<and> rBase s' = rBase s \<and>
    wBase s' = wBase s + length bs \<and> owner s' = owner s"
proof -
  have append: "mem_inv u' \<and> mem_written u' = mem_written u @ bs \<and> mem_pending u' = mem_pending u @ bs"
    if "mem_inv u" "wBase u + length bs \<le> wBound u"
      "u' = (mem_upd (splice (wBase u) bs) u)\<lparr>wBase := wBase u + length bs\<rparr>" for u u'
  proof -
    note inv = mem_inv_D [OF that(1)]
    have fit: "wBase u + length bs \<le> length (mem u)" using that inv by simp
    have "mem_written u' = mem_written u @ bs"
      using fit that(3) by (simp add: mem_written_def take_splice)
    moreover have "mem_pending v = drop (rBase v) (mem_written v)" if "rBase v \<le> wBase v" for v
      using that by (simp add: mem_pending_def mem_written_def drop_take_slice)
    moreover have "length (mem_written u) = wBase u" using inv by (simp add: mem_written_def)
    moreover have "mem_inv u'" using that fit inv by (auto simp: mem_inv_def)
    ultimately show ?thesis using inv that by simp
  qed
  show ?thesis
  proof (cases "wBase s + length bs \<le> wBound s")
    case True
    with assms mem_inv_D [OF assms(1)] append [OF assms(1) True refl] show ?thesis
      by (auto simp: mem_write_def tbuf_fast mem_room_def)
  next
    case False
    have "mem_room s (length bs)" using assms(2) by (auto simp: mem_room_def)
    from ensureCanWrite_ok [OF assms(1) this] obtain u where
      u: "ensureCanWrite (length bs) s = (Inr (), u)" "mem_inv u"
        "wBase u + length bs \<le> wBound u" "rBase u = rBase s" "wBase u = wBase s"
        "owner u = owner s" "take (length (mem s)) (mem u) = mem s" by blast
    note inv = mem_inv_D [OF assms(1)]
    have same: "mem_written u = mem_written s"
      using inv u(5,7) by (simp add: mem_written_def) (metis min_absorb1 take_take)
    moreover have "mem_pending u = mem_pending s"
      using same u inv mem_inv_D [OF u(2)]
      by (simp add: mem_pending_def mem_written_def drop_take_slice [symmetric])
    ultimately show ?thesis
      using append [OF u(2,3) refl] u False assms(2) mem_inv_D [OF u(2)]
      by (auto simp: mem_write_def tbuf_slow mem_writeSlow_def tio_simps mem_room_def)
  qed
qed

section \<open>The memory buffer as source and sink\<close>

lemma mem_read_stream:
  assumes "mem_inv s"
  shows "\<exists>bs s'. mem_read n s = (Inr bs, s') \<and> mem_inv s' \<and> mem_pending s = bs @ mem_pending s' \<and>
    length bs \<le> n \<and> (0 < n \<longrightarrow> mem_pending s \<noteq> [] \<longrightarrow> bs \<noteq> [])"
proof -
  obtain s' where "mem_read n s = (Inr (take n (mem_pending s)), s')" "mem_inv s'"
    "mem_pending s' = drop n (mem_pending s)"
    using mem_read_eq [OF assms, of n] by blast
  then show ?thesis by (intro exI [of _ "take n (mem_pending s)"] exI [of _ s']) simp
qed

interpretation mem_stream: stream_source mem_transport mem_inv mem_pending
  by (rule stream_sourceI) (simp add: mem_transport_def mem_read_stream)

lemma mem_readAll_ok:
  assumes "mem_inv s" and "n \<le> length (mem_pending s)"
  shows "\<exists>s'. mem_readAll n s = (Inr (take n (mem_pending s)), s') \<and> mem_inv s' \<and>
    mem_pending s' = drop n (mem_pending s)"
proof (cases "rBase s + n \<le> rBound s")
  case True
  have "mem_readAll n s = mem_read n s"
    by (simp add: mem_readAll_def mem_read_def tbuf_read_def tbuf_readAll_def True)
  then show ?thesis using mem_read_eq [OF assms(1), of n] by auto
next
  case False
  then have "mem_readAll n s = readAll (t_read mem_transport) n s"
    by (simp add: mem_readAll_def tbuf_slow mem_transport_def mem_read_def)
  then show ?thesis using mem_stream.readAll_exact [OF assms] by simp
qed

lemma mem_readAll_eof:
  assumes "mem_inv s" and "length (mem_pending s) < n"
  shows "\<exists>s'. mem_readAll n s = (Inl (TTransportException TE_END_OF_FILE), s') \<and> mem_inv s'"
proof -
  have "\<not> rBase s + n \<le> rBound s"
    using assms length_mem_pending [of s] mem_inv_D [of s] by auto
  then have "mem_readAll n s = readAll (t_read mem_transport) n s"
    by (simp add: mem_readAll_def tbuf_slow mem_transport_def mem_read_def)
  then show ?thesis using mem_stream.readAll_short [OF assms] by auto
qed

lemma mem_consume_ok:
  assumes "mem_inv s" and "rBase s + n \<le> rBound s"
  shows "\<exists>s'. tbuf_consume n s = (Inr (), s') \<and> mem_inv s' \<and> mem_pending s' = drop n (mem_pending s)"
  using mem_advance [of s n "rBound s"] mem_inv_D [OF assms(1)] assms
  by (simp add: tbuf_consume_ok)

lemma mem_borrow_law:
  assumes "mem_inv s"
  shows "\<exists>r s'. mem_borrow n s = (Inr r, s') \<and> mem_inv s' \<and> mem_pending s' = mem_pending s \<and>
    (\<forall>bs. r = Some bs \<longrightarrow> n \<le> length bs \<and> take (length bs) (mem_pending s) = bs \<and>
      (\<forall>m \<le> length bs. \<exists>s''. tbuf_consume m s' = (Inr (), s'') \<and> mem_inv s'' \<and>
         mem_pending s'' = drop m (mem_pending s)))"
proof -
  obtain r s' where b: "mem_borrow n s = (Inr r, s')" "mem_inv s'"
      "mem_pending s' = mem_pending s"
    and some: "\<And>bs. r = Some bs \<Longrightarrow> n \<le> length bs \<and> take (length bs) (mem_pending s) = bs \<and>
      rBase s' + length bs \<le> rBound s'"
    using mem_borrow_eq [OF assms, of n] by blast
  have "\<exists>s''. tbuf_consume m s' = (Inr (), s'') \<and> mem_inv s'' \<and>
      mem_pending s'' = drop m (mem_pending s)" if "r = Some bs" "m \<le> length bs" for bs m
    using mem_consume_ok [OF b(2), of m] some [OF that(1)] that(2) b(3) by simp
  with b some show ?thesis by blast
qed

interpretation mem_source: byte_source mem_transport mem_inv mem_pending
proof unfold_locales
  fix s n
  assume inv: "mem_inv s"
  show "\<exists>r s'. t_borrow mem_transport n s = (Inr r, s') \<and> mem_inv s' \<and>
      mem_pending s' = mem_pending s \<and>
      (\<forall>bs. r = Some bs \<longrightarrow> n \<le> length bs \<and> take (length bs) (mem_pending s) = bs \<and>
        (\<forall>m\<le>length bs. \<exists>s''. t_consume mem_transport m s' = (Inr (), s'') \<and> mem_inv s'' \<and>
           mem_pending s'' = drop m (mem_pending s)))"
    using mem_borrow_law [OF inv, of n] by (simp add: mem_transport_def)
qed (simp_all add: mem_transport_def mem_readAll_ok mem_readAll_eof)

interpretation mem_full: full_source mem_transport mem_inv mem_pending ..

interpretation mem_sink: byte_sink mem_transport mem_inv mem_room mem_written
proof unfold_locales
  fix s n m
  assume "mem_room s n" and "m \<le> n"
  then show "mem_room s m" by (auto simp: mem_room_def)
next
  fix s :: mem_buffer and bs :: bytes and n
  assume "mem_inv s" and "mem_room s (length bs + n)"
  from mem_write_ok [OF this]
  show "\<exists>s'. t_write mem_transport bs s = (Inr (), s') \<and>
      mem_inv s' \<and> mem_written s' = mem_written s @ bs \<and> mem_room s' n"
    unfolding mem_transport_def by auto
qed

text \<open>A buffer that has not been read from: what was written is what is pending.\<close>

definition mem_unread :: "mem_buffer \<Rightarrow> bool" where
  "mem_unread s \<longleftrightarrow> mem_inv s \<and> rBase s = 0"

lemma mem_unread_pending: "mem_unread s \<Longrightarrow> mem_pending s = mem_written s"
  by (simp add: mem_unread_def mem_pending_def mem_written_def)

interpretation mem_unread_sink: byte_sink mem_transport mem_unread mem_room mem_written
proof unfold_locales
  fix s :: mem_buffer and bs :: bytes and n
  assume "mem_unread s" and "mem_room s (length bs + n)"
  then show "\<exists>s'. t_write mem_transport bs s = (Inr (), s') \<and>
      mem_unread s' \<and> mem_written s' = mem_written s @ bs \<and> mem_room s' n"
    using mem_write_ok [of s bs n] unfolding mem_transport_def mem_unread_def by auto
qed (rule mem_sink.room_le)

interpretation mem_channel: byte_channel mem_transport mem_unread mem_room mem_written mem_inv mem_pending
  by unfold_locales

text \<open>The constructors build buffers that satisfy the invariant, with the contents given.\<close>

lemma new_sized_inv:
  "sz < 2 ^ 32 \<Longrightarrow> mem_inv (new_TMemoryBuffer_sized sz) \<and> mem_pending (new_TMemoryBuffer_sized sz) = []"
  by (auto simp: new_TMemoryBuffer_sized_def initCommon_def mem_inv_def mem_def mem_pending_def
      Let_def split: option.splits)

lemma new_sized_fields:
  "owner (new_TMemoryBuffer_sized sz)" "wBase (new_TMemoryBuffer_sized sz) = 0"
  "rBase (new_TMemoryBuffer_sized sz) = 0"
  "wBound (new_TMemoryBuffer_sized sz) = sz"
  by (simp_all add: new_TMemoryBuffer_sized_def initCommon_def Let_def)

lemma new_from_ok:
  assumes "length b = sz" and "sz \<le> 2 ^ 31"
  shows "\<exists>s. new_TMemoryBuffer_from (Some b) sz policy = Inr s \<and> mem_inv s \<and> mem_pending s = b"
proof (cases "policy = COPY")
  case True
  have "mem_inv (new_TMemoryBuffer_sized sz)" and "mem_room (new_TMemoryBuffer_sized sz) (length b + 0)"
    using assms new_sized_inv [of sz] new_sized_fields [of sz] by (auto simp: mem_room_def)
  from mem_write_ok [OF this] new_sized_inv [of sz] assms show ?thesis
    by (auto simp: new_TMemoryBuffer_from_def True new_TMemoryBuffer_sized_def)
next
  case False
  with assms show ?thesis
    by (cases policy) (auto simp: new_TMemoryBuffer_from_def initCommon_def mem_inv_def mem_def
        mem_pending_def Let_def)
qed

lemma mem_resetBuffer_inv:
  "mem_inv s \<Longrightarrow> mem_inv (mem_resetBuffer s) \<and> mem_pending (mem_resetBuffer s) = []"
  by (auto simp: mem_inv_def mem_resetBuffer_def mem_pending_def Let_def mem_def)

lemma getBuffer_pending: "mem_inv s \<Longrightarrow> getBufferAsString s = mem_pending s"
  using mem_inv_D [of s]
  by (auto simp: getBufferAsString_def getBuffer_def mem_pending_def mem_def)

section \<open>Refinement of a byte queue\<close>

text \<open>
  The operations of the class as events, and the queue of bytes they act on: the abstract
  specification is that the buffer is a FIFO queue, whatever the doubling, the fast and slow
  paths and the resets do.
\<close>

datatype mem_op =
    MWrite bytes
  | MRead nat
  | MReadAll nat
  | MReadString nat
  | MReadEnd
  | MWroteBytes bytes
  | MReset

text \<open>
  \<open>MWroteBytes bs\<close> is the client protocol of \<^verbatim>\<open>getWritePtr\<close>: ask for room, copy to the
  pointer, report the bytes with \<^verbatim>\<open>wroteBytes\<close>.
\<close>

fun mem_step :: "mem_op \<Rightarrow> (mem_buffer, bytes) tio" where
  "mem_step (MWrite bs) = bindT (mem_write bs) (\<lambda>_. ret [])"
| "mem_step (MRead n) = mem_read n"
| "mem_step (MReadAll n) = mem_readAll n"
| "mem_step (MReadString n) = readAsString n"
| "mem_step MReadEnd = bindT mem_readEnd (\<lambda>_. ret [])"
| "mem_step (MWroteBytes bs) =
     bindT (getWritePtr (length bs)) (\<lambda>p. bindT (store mem mem_upd p bs) (\<lambda>_.
     bindT (wroteBytes (length bs)) (\<lambda>_. ret [])))"
| "mem_step MReset = bindT (modify mem_resetBuffer) (\<lambda>_. ret [])"

fun queue_step :: "mem_op \<Rightarrow> bytes \<Rightarrow> (exc + bytes) \<times> bytes" where
  "queue_step (MWrite bs) q = (Inr [], q @ bs)"
| "queue_step (MRead n) q = (Inr (take n q), drop n q)"
| "queue_step (MReadAll n) q =
     (if n \<le> length q then (Inr (take n q), drop n q)
      else (Inl (TTransportException TE_END_OF_FILE), []))"
| "queue_step (MReadString n) q = (Inr (take n q), drop n q)"
| "queue_step MReadEnd q = (Inr [], q)"
| "queue_step (MWroteBytes bs) q = (Inr [], q @ bs)"
| "queue_step MReset q = (Inr [], [])"

fun op_size :: "mem_op \<Rightarrow> nat" where
  "op_size (MWrite bs) = length bs"
| "op_size (MWroteBytes bs) = length bs"
| "op_size _ = 0"

fun run_ops :: "('o \<Rightarrow> ('s, 'a) tio) \<Rightarrow> 'o list \<Rightarrow> 's \<Rightarrow> (exc + 'a) list \<times> 's" where
  "run_ops step [] s = ([], s)"
| "run_ops step (x # xs) s =
     (case step x s of (r, s') \<Rightarrow> (case run_ops step xs s' of (rs, t) \<Rightarrow> (r # rs, t)))"

text \<open>Reading from the buffer with a loop keeps the write side as it is.\<close>

lemma mem_stream_frame: "stream_source mem_transport (\<lambda>u. mem_inv u \<and> same_writes s u) mem_pending"
proof (rule stream_sourceI)
  fix n u
  assume u: "mem_inv u \<and> same_writes s u"
  obtain u' where "mem_read n u = (Inr (take n (mem_pending u)), u')" "mem_inv u'"
    "mem_pending u' = drop n (mem_pending u)" "same_writes u u'"
    using mem_read_eq u by blast
  with u show "\<exists>bs u'. t_read mem_transport n u = (Inr bs, u') \<and> (mem_inv u' \<and> same_writes s u') \<and>
      mem_pending u = bs @ mem_pending u' \<and> length bs \<le> n \<and>
      (0 < n \<longrightarrow> mem_pending u \<noteq> [] \<longrightarrow> bs \<noteq> [])"
    by (intro exI [of _ "take n (mem_pending u)"] exI [of _ u'])
      (simp add: mem_transport_def same_writes_def)
qed

lemma mem_readAll_eq:
  assumes "mem_inv s"
  shows "\<exists>s'. mem_readAll n s = (if n \<le> length (mem_pending s) then Inr (take n (mem_pending s))
      else Inl (TTransportException TE_END_OF_FILE), s') \<and> mem_inv s' \<and> same_writes s s' \<and>
    mem_pending s' = drop n (mem_pending s)"
proof (cases "rBase s + n \<le> rBound s")
  case True
  then have "mem_readAll n s = mem_read n s"
    by (simp add: mem_readAll_def mem_read_def tbuf_read_def tbuf_readAll_def)
  moreover have "n \<le> length (mem_pending s)"
    using True assms length_mem_pending [of s] mem_inv_D [of s] by auto
  ultimately show ?thesis using mem_read_eq [OF assms, of n] by auto
next
  case False
  then have eq: "mem_readAll n s = readAll (t_read mem_transport) n s"
    by (simp add: mem_readAll_def tbuf_slow mem_transport_def mem_read_def)
  have s: "mem_inv s \<and> same_writes s s" using assms by (simp add: same_writes_def)
  note base = stream_source.axioms(1) [OF mem_stream_frame]
  note exact = stream_base.readAll_exact [OF base s]
    and short = stream_source.readAll_short [OF mem_stream_frame s]
  show ?thesis using exact [of n] short [of n] eq by (cases "n \<le> length (mem_pending s)") auto
qed

lemma mem_readAsString_eq:
  assumes "mem_inv s"
  shows "\<exists>s'. readAsString n s = (Inr (take n (mem_pending s)), s') \<and> mem_inv s' \<and>
    mem_pending s' = drop n (mem_pending s) \<and> same_writes s s'"
proof (cases "buffer s = None")
  case True
  then have "mem_pending s = []" by (simp add: mem_pending_def mem_def slice_def)
  with True assms show ?thesis
    by (simp add: readAsString_def readAppendToString_def tio_simps same_writes_def)
next
  case False
  then have "readAsString n s = mem_readSlow n s"
    by (auto simp: readAsString_def readAppendToString_def mem_readSlow_def tio_simps
        split: prod.splits sum.splits)
  with mem_readSlow_eq [OF assms] show ?thesis by simp
qed

lemma mem_wrote_ok:
  assumes "mem_inv s" and "mem_room s (length bs)"
  shows "\<exists>s'. mem_step (MWroteBytes bs) s = (Inr [], s') \<and> mem_inv s' \<and>
    mem_pending s' = mem_pending s @ bs \<and> owner s' = owner s \<and> wBase s' = wBase s + length bs"
proof -
  obtain u where u: "ensureCanWrite (length bs) s = (Inr (), u)" "mem_inv u"
      "wBase u + length bs \<le> wBound u" "rBase u = rBase s" "wBase u = wBase s"
      "owner u = owner s" "take (length (mem s)) (mem u) = mem s"
    using ensureCanWrite_ok [OF assms] by blast
  note inv = mem_inv_D [OF assms(1)] mem_inv_D [OF u(2)]
  let ?v = "mem_upd (splice (wBase u) bs) u"
  have v: "mem_inv ?v" using u inv by (auto simp: mem_inv_def)
  then have w: "wroteBytes (length bs) ?v = (Inr (), ?v\<lparr>wBase := wBase u + length bs\<rparr>)"
    using u inv by (simp add: wroteBytes_def)
  have "drop (rBase u) (take (wBase u) (mem u)) = mem_pending s"
    using u inv by (simp add: mem_pending_def drop_take_slice [symmetric])
      (metis min_absorb1 take_take)
  then have "mem_pending (?v\<lparr>wBase := wBase u + length bs\<rparr>) = mem_pending s @ bs"
    using u inv by (simp add: mem_pending_def drop_take_slice [symmetric] take_splice)
  moreover have "mem_inv (?v\<lparr>wBase := wBase u + length bs\<rparr>)"
    using v u by (auto simp: mem_inv_def)
  ultimately show ?thesis
    using u inv w by (simp add: getWritePtr_def tio_simps)
qed

lemma mem_step_refines:
  assumes "mem_inv s" and "owner s" and "wBase s + (op_size op + k) \<le> 2 ^ 31"
  shows "\<exists>r s'. mem_step op s = (r, s') \<and> queue_step op (mem_pending s) = (r, mem_pending s') \<and>
    mem_inv s' \<and> owner s' \<and> wBase s' + k \<le> 2 ^ 31"
proof (cases op)
  case (MWrite bs)
  then have "mem_room s (length bs + 0)" using assms by (simp add: mem_room_def)
  from mem_write_ok [OF assms(1) this] MWrite assms show ?thesis by (auto simp: tio_simps)
next
  case (MRead n)
  with mem_read_eq [OF assms(1), of n] assms show ?thesis by (auto simp: same_writes_def)
next
  case (MReadAll n)
  with mem_readAll_eq [OF assms(1), of n] assms show ?thesis by (auto simp: same_writes_def)
next
  case (MReadString n)
  with mem_readAsString_eq [OF assms(1), of n] assms show ?thesis by (auto simp: same_writes_def)
next
  case MReadEnd
  then show ?thesis using assms mem_resetBuffer_inv [OF assms(1)]
    by (auto simp: mem_readEnd_def tio_simps mem_pending_def mem_resetBuffer_def Let_def)
next
  case (MWroteBytes bs)
  then have "mem_room s (length bs)" using assms by (simp add: mem_room_def)
  from mem_wrote_ok [OF assms(1) this] MWroteBytes assms show ?thesis by auto
next
  case MReset
  then show ?thesis using assms mem_resetBuffer_inv [OF assms(1)]
    by (auto simp: tio_simps mem_resetBuffer_def Let_def)
qed

lemma mem_run_refines:
  assumes "mem_inv s" and "owner s" and "wBase s + sum_list (map op_size ops) \<le> 2 ^ 31"
  shows "fst (run_ops mem_step ops s) = fst (run_ops queue_step ops (mem_pending s)) \<and>
    mem_pending (snd (run_ops mem_step ops s)) = snd (run_ops queue_step ops (mem_pending s)) \<and>
    mem_inv (snd (run_ops mem_step ops s))"
  using assms
proof (induction ops arbitrary: s)
  case Nil
  then show ?case by simp
next
  case (Cons op ops)
  from mem_step_refines [of s op "sum_list (map op_size ops)"] Cons.prems
  obtain r s' where "mem_step op s = (r, s')" "queue_step op (mem_pending s) = (r, mem_pending s')"
    "mem_inv s'" "owner s'" "wBase s' + sum_list (map op_size ops) \<le> 2 ^ 31" by auto
  with Cons.IH [of s'] show ?case by (simp add: case_prod_beta)
qed

section \<open>A request that never returns\<close>

text \<open>
  On an empty buffer whose size is a power of two, a request for more than \<open>2 ^ 31\<close> bytes
  doubles the size to \<open>2 ^ 31\<close>, wraps to 0 and starts again.
\<close>

lemma grow_loop_cycle:
  assumes "grow_loop len aw bsz ns avail = Some r"
  shows "aw = bsz \<longrightarrow> bsz < 2 ^ 32 \<longrightarrow> avail = ns \<longrightarrow> 2 ^ 31 < len \<longrightarrow>
    (\<exists>k \<le> 31. ns = 2 ^ k) \<or> ns = 0 \<longrightarrow> False"
proof (rule grow_loop.raw_induct [where
      P = "\<lambda>len aw bsz ns avail r. aw = bsz \<longrightarrow> bsz < 2 ^ 32 \<longrightarrow> avail = ns \<longrightarrow> 2 ^ 31 < len \<longrightarrow>
        (\<exists>k \<le> 31. ns = 2 ^ k) \<or> ns = 0 \<longrightarrow> False", OF _ assms], intro impI)
  fix f len aw bsz ns avail r
  assume IH: "\<And>len aw bsz ns avail r. f len aw bsz ns avail = Some r \<Longrightarrow> aw = bsz \<longrightarrow> bsz < 2 ^ 32 \<longrightarrow>
      avail = ns \<longrightarrow> 2 ^ 31 < len \<longrightarrow> (\<exists>k \<le> 31. ns = 2 ^ k) \<or> ns = 0 \<longrightarrow> False"
    and eq: "(if avail < len then
        (let ns' = if 0 < ns then u32 (ns * 2) else 1 in f len aw bsz ns' (u32 (aw + u32_diff ns' bsz)))
      else Some ns) = Some r"
    and inv: "aw = bsz" "bsz < 2 ^ 32" "avail = ns" "2 ^ 31 < len" "(\<exists>k \<le> 31. ns = 2 ^ k) \<or> ns = 0"
  define ns' where "ns' = (if 0 < ns then u32 (ns * 2) else 1)"
  have "ns \<le> 2 ^ 31"
  proof -
    have "(2::nat) ^ k \<le> 2 ^ 31" if "k \<le> 31" for k using that by (intro power_increasing) auto
    with inv(5) show ?thesis by auto
  qed
  then have "avail < len" using inv by linarith
  have "(\<exists>k \<le> 31. ns' = 2 ^ k) \<or> ns' = 0"
  proof (cases "ns = 0")
    case True
    then show ?thesis by (auto simp: ns'_def intro: exI [of _ 0])
  next
    case False
    with inv(5) obtain k where k: "k \<le> 31" "ns = 2 ^ k" by auto
    show ?thesis
    proof (cases "k = 31")
      case True
      with k show ?thesis by (simp add: ns'_def u32_def)
    next
      case False
      with k have "Suc k \<le> 31" by simp
      moreover have "(2::nat) ^ Suc k < 2 ^ 32" using \<open>Suc k \<le> 31\<close> by (intro power_strict_increasing) auto
      then have "ns' = 2 ^ Suc k" using k by (simp add: ns'_def mult.commute)
      ultimately show ?thesis by blast
    qed
  qed
  moreover have "ns' < 2 ^ 32" by (simp add: ns'_def)
  then have "u32 (bsz + u32_diff ns' bsz) = ns'"
  proof (cases "bsz \<le> ns'")
    case True
    with \<open>ns' < 2 ^ 32\<close> show ?thesis by simp
  next
    case False
    with inv(2) show ?thesis by (simp add: u32_diff_wraps) (simp add: u32_def)
  qed
  ultimately show False
    using eq IH [of len aw bsz ns' ns' r] inv \<open>avail < len\<close> by (simp add: ns'_def Let_def)
qed

lemma grow_loop_diverges:
  "2 ^ 31 < len \<Longrightarrow> k \<le> 31 \<Longrightarrow> grow_loop len (2 ^ k) (2 ^ k) (2 ^ k) (2 ^ k) = None"
proof (rule ccontr)
  assume "2 ^ 31 < len" "k \<le> 31" "grow_loop len (2 ^ k) (2 ^ k) (2 ^ k) (2 ^ k) \<noteq> None"
  then obtain r where r: "grow_loop len (2 ^ k) (2 ^ k) (2 ^ k) (2 ^ k) = Some r" by auto
  have "(2::nat) ^ k < 2 ^ 32" using \<open>k \<le> 31\<close> by (intro power_strict_increasing) auto
  then show False using grow_loop_cycle [OF r] \<open>2 ^ 31 < len\<close> \<open>k \<le> 31\<close> by blast
qed

section \<open>Properties\<close>

text \<open>
  C4: TMemoryBuffer is a FIFO queue of bytes. Any sequence of writes, reads, exact reads,
  string reads, getWritePtr/wroteBytes pairs, readEnd and resetBuffer calls on an owned
  buffer gives the results of the same operations on a list of pending bytes, as long as no
  more than \<open>2 ^ 31\<close> bytes are written in all; the pointer invariant is kept.
\<close>

theorem memory_buffer_is_fifo:
  assumes "mem_inv s" and "owner s" and "wBase s + sum_list (map op_size ops) \<le> 2 ^ 31"
  shows "fst (run_ops mem_step ops s) = fst (run_ops queue_step ops (mem_pending s)) \<and>
    mem_pending (snd (run_ops mem_step ops s)) = snd (run_ops queue_step ops (mem_pending s)) \<and>
    mem_inv (snd (run_ops mem_step ops s))"
  using assms by (rule mem_run_refines)

theorem memory_buffer_is_fifo_witness:
  "fst (run_ops mem_step [MWrite [1, 2, 3], MRead 2, MWroteBytes [7], MReadAll 2]
     (new_TMemoryBuffer_sized 2)) = [Inr [], Inr [1, 2], Inr [], Inr [3, 7]]"
  using memory_buffer_is_fifo [of "new_TMemoryBuffer_sized 2"
      "[MWrite [1, 2, 3], MRead 2, MWroteBytes [7], MReadAll 2]"]
  by (simp add: new_sized_inv new_sized_fields)

text \<open>
  C18: a write to a fresh default TMemoryBuffer returns, and appends the bytes, exactly when it
  is of at most \<open>2 ^ 31\<close> bytes; a longer one never returns, since the doubling in
  ensureCanWrite wraps around to 0 for ever.
\<close>

theorem memory_buffer_write_terminates_iff:
  "(fst (mem_write bs new_TMemoryBuffer) = Inr () \<and>
      getBufferAsString (snd (mem_write bs new_TMemoryBuffer)) = bs \<longleftrightarrow> length bs \<le> 2 ^ 31) \<and>
   (fst (mem_write bs new_TMemoryBuffer) = Inl Diverges \<longleftrightarrow> 2 ^ 31 < length bs)"
proof -
  let ?s = new_TMemoryBuffer
  have inv: "mem_inv ?s" "mem_pending ?s = []"
    using new_sized_inv [of 1024] by (simp_all add: new_TMemoryBuffer_def)
  have f: "wBase ?s = 0" "wBound ?s = 1024" "owner ?s" "bufferSize ?s = 1024"
    using new_sized_fields [of 1024]
    by (simp_all add: new_TMemoryBuffer_def) (simp add: new_TMemoryBuffer_sized_def initCommon_def)
  show ?thesis
  proof (cases "length bs \<le> 2 ^ 31")
    case True
    then have "mem_room ?s (length bs + 0)" using f by (simp add: mem_room_def)
    from mem_write_ok [OF inv(1) this] True inv show ?thesis
      by (auto simp: getBuffer_pending)
  next
    case False
    then have "grow_loop (length bs) 1024 1024 1024 1024 = None"
      using grow_loop_diverges [of "length bs" 10] by simp
    with False f inv show ?thesis
      by (simp add: mem_write_def tbuf_slow mem_writeSlow_def tio_simps ensureCanWrite_def)
  qed
qed

end
