(* ===== verification/BufferedTransport.thy ===== *)
theory BufferedTransport
  imports MemoryBuffer
begin

text \<open>
  \<^verbatim>\<open>TBufferedTransport\<close> (\<^verbatim>\<open>transport/TBufferTransports.{h,cpp}\<close>) over any underlying
  transport \<open>U\<close> with state \<open>'u\<close>: reads ahead into one block and collects writes in another.
\<close>

record 'u buffered = tbuf_base +
  b_trans :: 'u
  b_rBufSize :: nat
  b_wBufSize :: nat
  b_rBuf :: bytes
  b_wBuf :: bytes

section \<open>Operations\<close>

text \<open>A call on the underlying transport.\<close>

definition b_under :: "('u, 'a) tio \<Rightarrow> ('u buffered, 'a) tio" where
  [tio_simps]: "b_under = on_part b_trans (\<lambda>u s. s\<lparr>b_trans := u\<rparr>)"

definition new_TBufferedTransport :: "'u \<Rightarrow> nat \<Rightarrow> nat \<Rightarrow> 'u buffered" where
  "new_TBufferedTransport u rsz wsz =
     \<lparr>rBase = 0, rBound = 0, wBase = 0, wBound = wsz, b_trans = u, b_rBufSize = rsz,
      b_wBufSize = wsz, b_rBuf = replicate rsz 0, b_wBuf = replicate wsz 0\<rparr>"

definition new_TBufferedTransport_default :: "'u \<Rightarrow> 'u buffered" where
  "new_TBufferedTransport_default u = new_TBufferedTransport u 512 512"

text \<open>
  \<^verbatim>\<open>setReadBuffer(rBuf_.get(), transport_->read(rBuf_.get(), rBufSize_))\<close>: the read fills
  the start of the block; a transport that returns more than asked for would overrun it.
\<close>

definition b_fill :: "'u ttransport \<Rightarrow> ('u buffered, unit) tio" where
  "b_fill U = (\<lambda>s.
     bindT (b_under (t_read U (b_rBufSize s))) (\<lambda>got.
     bindT (store b_rBuf (\<lambda>f s. s\<lparr>b_rBuf := f (b_rBuf s)\<rparr>) 0 got) (\<lambda>_.
     modify (setReadBuffer 0 (length got)))) s)"

definition b_readSlow :: "'u ttransport \<Rightarrow> nat \<Rightarrow> ('u buffered, bytes) tio" where
  "b_readSlow U len s =
     (let have_bytes = u32 (rBound s - rBase s) in
      if \<not> have_bytes < len then (Inl AssertFail, s)
      else if have_bytes > 0 then
        bindT (load b_rBuf (rBase s) have_bytes) (\<lambda>bs.
        bindT (modify (setReadBuffer 0 0)) (\<lambda>_. ret bs)) s
      else
        bindT (b_fill U) (\<lambda>_. \<lambda>s.
          let give = min len (u32 (rBound s - rBase s)) in
          bindT (load b_rBuf (rBase s) give) (\<lambda>bs.
          bindT (modify (\<lambda>s. s\<lparr>rBase := rBase s + give\<rparr>)) (\<lambda>_. ret bs)) s) s)"

definition b_wstore :: "nat \<Rightarrow> bytes \<Rightarrow> ('u buffered, unit) tio" where
  "b_wstore = store b_wBuf (\<lambda>f s. s\<lparr>b_wBuf := f (b_wBuf s)\<rparr>)"

definition b_writeSlow :: "'u ttransport \<Rightarrow> bytes \<Rightarrow> ('u buffered, unit) tio" where
  "b_writeSlow U buf s =
     (let len = length buf;
          have_bytes = u32 (wBase s);
          space = u32 (wBound s - wBase s) in
      if \<not> int (wBound s) - int (wBase s) < int len then (Inl AssertFail, s)
      else if u32 (have_bytes + len) \<ge> u32 (2 * b_wBufSize s) \<or> have_bytes = 0 then
        bindT (if have_bytes > 0
               then bindT (load b_wBuf 0 have_bytes) (\<lambda>bs. b_under (t_write U bs))
               else ret ()) (\<lambda>_.
        bindT (b_under (t_write U buf)) (\<lambda>_.
        modify (\<lambda>s. s\<lparr>wBase := 0\<rparr>))) s
      else
        bindT (b_wstore (wBase s) (take space buf)) (\<lambda>_.
        bindT (\<lambda>s. bindT (load b_wBuf 0 (b_wBufSize s)) (\<lambda>bs. b_under (t_write U bs)) s) (\<lambda>_.
        (\<lambda>s. let rest = drop space buf in
              if \<not> length rest < b_wBufSize s then (Inl AssertFail, s)
              else bindT (b_wstore 0 rest) (\<lambda>_. modify (\<lambda>s. s\<lparr>wBase := length rest\<rparr>)) s))) s)"

definition b_borrowSlow :: "nat \<Rightarrow> ('u buffered, bytes option) tio" where
  "b_borrowSlow len = ret None"

definition b_read :: "'u ttransport \<Rightarrow> nat \<Rightarrow> ('u buffered, bytes) tio" where
  "b_read U = tbuf_read b_rBuf (b_readSlow U)"

definition b_readAll :: "'u ttransport \<Rightarrow> nat \<Rightarrow> ('u buffered, bytes) tio" where
  "b_readAll U = tbuf_readAll b_rBuf (b_readSlow U)"

definition b_write :: "'u ttransport \<Rightarrow> bytes \<Rightarrow> ('u buffered, unit) tio" where
  "b_write U = tbuf_write b_wBuf (\<lambda>f s. s\<lparr>b_wBuf := f (b_wBuf s)\<rparr>) (b_writeSlow U)"

definition b_borrow :: "nat \<Rightarrow> ('u buffered, bytes option) tio" where
  "b_borrow = tbuf_borrow b_rBuf b_borrowSlow"

definition b_flush :: "'u ttransport \<Rightarrow> ('u buffered, unit) tio" where
  "b_flush U s =
     (let have_bytes = u32 (wBase s) in
      bindT (if have_bytes > 0
             then bindT (load b_wBuf 0 have_bytes) (\<lambda>bs.
                  bindT (modify (\<lambda>s. s\<lparr>wBase := 0\<rparr>)) (\<lambda>_. b_under (t_write U bs)))
             else ret ()) (\<lambda>_.
      b_under (t_flush U)) s)"

definition b_peek :: "'u ttransport \<Rightarrow> ('u buffered, bool) tio" where
  "b_peek U s =
     bindT (if rBase s = rBound s then b_fill U else ret ()) (\<lambda>_.
     gets (\<lambda>s. rBase s < rBound s)) s"

definition b_close :: "'u ttransport \<Rightarrow> ('u buffered, unit) tio" where
  "b_close U = bindT (b_flush U) (\<lambda>_. b_under (t_close U))"

definition buffered_transport :: "'u ttransport \<Rightarrow> 'u buffered ttransport" where
  "buffered_transport U = \<lparr>
     t_isOpen = (\<lambda>s. t_isOpen U (b_trans s)), t_peek = b_peek U,
     t_open = b_under (t_open U), t_close = b_close U,
     t_read = b_read U, t_readAll = b_readAll U, t_readEnd = base_readEnd,
     t_write = b_write U, t_writeEnd = base_writeEnd, t_flush = b_flush U,
     t_borrow = b_borrow, t_consume = tbuf_consume\<rparr>"

section \<open>The invariant and the abstract contents\<close>

definition b_inv :: "('u \<Rightarrow> bool) \<Rightarrow> 'u buffered \<Rightarrow> bool" where
  "b_inv uinv s \<longleftrightarrow> rBase s \<le> rBound s \<and> rBound s \<le> b_rBufSize s \<and>
     wBase s \<le> wBound s \<and> wBound s = b_wBufSize s \<and>
     length (b_rBuf s) = b_rBufSize s \<and> length (b_wBuf s) = b_wBufSize s \<and>
     0 < b_rBufSize s \<and> b_rBufSize s < 2 ^ 32 \<and> b_wBufSize s < 2 ^ 31 \<and> uinv (b_trans s)"

definition b_ahead :: "'u buffered \<Rightarrow> bytes" where
  "b_ahead s = slice (rBase s) (rBound s - rBase s) (b_rBuf s)"

definition b_pending :: "('u \<Rightarrow> bytes) \<Rightarrow> 'u buffered \<Rightarrow> bytes" where
  "b_pending p s = b_ahead s @ p (b_trans s)"

definition b_collected :: "'u buffered \<Rightarrow> bytes" where
  "b_collected s = take (wBase s) (b_wBuf s)"

definition b_written :: "('u \<Rightarrow> bytes) \<Rightarrow> 'u buffered \<Rightarrow> bytes" where
  "b_written w s = w (b_trans s) @ b_collected s"

text \<open>Room for \<open>n\<close> more bytes: the sum stays a \<^verbatim>\<open>uint32_t\<close>, and the transport below has
  room for them and for what is still collected.\<close>

definition b_room :: "('u \<Rightarrow> nat \<Rightarrow> bool) \<Rightarrow> 'u buffered \<Rightarrow> nat \<Rightarrow> bool" where
  "b_room r s n \<longleftrightarrow> wBase s + n < 2 ^ 32 \<and> r (b_trans s) (wBase s + n)"

lemma b_inv_D:
  assumes "b_inv uinv s"
  shows "rBase s \<le> rBound s" "rBound s \<le> length (b_rBuf s)" "rBound s < 2 ^ 32"
    "wBase s \<le> wBound s" "wBound s = b_wBufSize s" "length (b_wBuf s) = b_wBufSize s"
    "wBound s < 2 ^ 31" "wBase s < 2 ^ 32" "uinv (b_trans s)" "b_rBufSize s < 2 ^ 32"
    "length (b_rBuf s) = b_rBufSize s" "0 < b_rBufSize s"
  using assms by (auto simp: b_inv_def)

lemma length_b_ahead: "b_inv uinv s \<Longrightarrow> length (b_ahead s) = rBound s - rBase s"
  using b_inv_D [of uinv s] by (simp add: b_ahead_def)

section \<open>Reads: the transport is again a source\<close>

context stream_source
begin

lemma b_fill_ok:
  assumes "b_inv inv s" and "rBase s = rBound s"
  shows "\<exists>s'. b_fill T s = (Inr (), s') \<and> b_inv inv s' \<and> b_pending pending s' = b_pending pending s \<and>
    rBase s' = 0 \<and> (b_pending pending s \<noteq> [] \<longrightarrow> b_ahead s' \<noteq> []) \<and>
    wBase s' = wBase s \<and> b_wBuf s' = b_wBuf s"
proof -
  note I = b_inv_D [OF assms(1)]
  obtain bs u' where rd: "t_read T (b_rBufSize s) (b_trans s) = (Inr bs, u')" "inv u'"
      "pending (b_trans s) = bs @ pending u'" "length bs \<le> b_rBufSize s"
      "pending (b_trans s) \<noteq> [] \<longrightarrow> bs \<noteq> []"
    using read_stream [of "b_trans s" "b_rBufSize s"] I by blast
  let ?s' = "setReadBuffer 0 (length bs) (s\<lparr>b_trans := u', b_rBuf := splice 0 bs (b_rBuf s)\<rparr>)"
  have "b_fill T s = (Inr (), ?s')"
    using rd I by (simp add: b_fill_def tio_simps)
  moreover have "b_ahead ?s' = bs" using rd I
    by (simp add: b_ahead_def setReadBuffer_def splice_def)
  moreover have "b_ahead s = []" using assms(2) by (simp add: b_ahead_def)
  moreover have "b_inv inv ?s'" using assms(1) rd I by (simp add: b_inv_def setReadBuffer_def)
  ultimately show ?thesis using rd
    by (auto simp: b_pending_def setReadBuffer_def)
qed

lemma b_advance:
  assumes "b_inv inv s" and "rBase s + n \<le> rBound s"
  defines "s' \<equiv> s\<lparr>rBase := rBase s + n\<rparr>"
  shows "b_inv inv s'" and "b_pending pending s = take n (b_ahead s) @ b_pending pending s'"
    and "slice (rBase s) n (b_rBuf s) = take n (b_ahead s)" and "length (take n (b_ahead s)) = n"
proof -
  note I = b_inv_D [OF assms(1)]
  show "b_inv inv s'" using assms by (simp add: b_inv_def)
  have "b_ahead s' = drop n (b_ahead s)"
    using assms(2) by (simp add: b_ahead_def s'_def slice_split diff_diff_add)
  then show "b_pending pending s = take n (b_ahead s) @ b_pending pending s'"
    by (simp add: b_pending_def s'_def)
  show "slice (rBase s) n (b_rBuf s) = take n (b_ahead s)" "length (take n (b_ahead s)) = n"
    using assms(2) I by (simp_all add: b_ahead_def slice_split)
qed

lemma b_readSlow_ok:
  assumes "b_inv inv s" and "\<not> rBase s + n \<le> rBound s"
  shows "\<exists>bs s'. b_readSlow T n s = (Inr bs, s') \<and> b_inv inv s' \<and>
    b_pending pending s = bs @ b_pending pending s' \<and> length bs \<le> n \<and>
    (b_pending pending s \<noteq> [] \<longrightarrow> bs \<noteq> []) \<and> wBase s' = wBase s \<and> b_wBuf s' = b_wBuf s"
proof (cases "rBase s < rBound s")
  case True
  note I = b_inv_D [OF assms(1)]
  let ?s' = "setReadBuffer 0 0 s"
  have "b_readSlow T n s = (Inr (b_ahead s), ?s')"
    using True assms(2) I by (simp add: b_readSlow_def tio_simps b_ahead_def Let_def)
  moreover have "b_inv inv ?s'" using assms(1) by (simp add: b_inv_def setReadBuffer_def)
  moreover have "b_pending pending ?s' = pending (b_trans s)"
    by (simp add: b_pending_def b_ahead_def setReadBuffer_def)
  ultimately show ?thesis using True assms(2) length_b_ahead [OF assms(1)]
    by (intro exI [of _ "b_ahead s"] exI [of _ ?s'])
      (auto simp: b_pending_def setReadBuffer_def)
next
  case False
  note I = b_inv_D [OF assms(1)]
  with False have eq: "rBase s = rBound s" by simp
  with assms(2) have "0 < n" by simp
  obtain u where u: "b_fill T s = (Inr (), u)" "b_inv inv u"
      "b_pending pending u = b_pending pending s" "rBase u = 0"
      "b_pending pending s \<noteq> [] \<longrightarrow> b_ahead u \<noteq> []" "wBase u = wBase s" "b_wBuf u = b_wBuf s"
    using b_fill_ok [OF assms(1) eq] by blast
  note J = b_inv_D [OF u(2)]
  let ?g = "min n (rBound u)"
  have fit: "rBase u + ?g \<le> rBound u" using u by simp
  note adv = b_advance [OF u(2) fit]
  have "b_readSlow T n s = (Inr (take ?g (b_ahead u)), u\<lparr>rBase := rBase u + ?g\<rparr>)"
    using eq \<open>0 < n\<close> u J adv(3) by (simp add: b_readSlow_def tio_simps Let_def)
  moreover have "take ?g (b_ahead u) \<noteq> []" if "b_pending pending s \<noteq> []"
    using that u(4,5) \<open>0 < n\<close> length_b_ahead [OF u(2)] by (cases "b_ahead u") auto
  ultimately show ?thesis using adv u
    by (intro exI [of _ "take ?g (b_ahead u)"] exI [of _ "u\<lparr>rBase := rBase u + ?g\<rparr>"])
      (auto simp: min_def)
qed

lemma b_read_ok:
  assumes "b_inv inv s"
  shows "\<exists>bs s'. b_read T n s = (Inr bs, s') \<and> b_inv inv s' \<and>
    b_pending pending s = bs @ b_pending pending s' \<and> length bs \<le> n \<and>
    (0 < n \<longrightarrow> b_pending pending s \<noteq> [] \<longrightarrow> bs \<noteq> []) \<and> wBase s' = wBase s \<and> b_wBuf s' = b_wBuf s"
proof (cases "rBase s + n \<le> rBound s")
  case True
  note I = b_inv_D [OF assms]
  note adv = b_advance [OF assms True]
  have "b_read T n s = (Inr (take n (b_ahead s)), s\<lparr>rBase := rBase s + n\<rparr>)"
    using True I adv(3) by (simp add: b_read_def tbuf_fast)
  with adv show ?thesis
    by (intro exI [of _ "take n (b_ahead s)"] exI [of _ "s\<lparr>rBase := rBase s + n\<rparr>"]) auto
next
  case False
  then have "b_read T n s = b_readSlow T n s" by (simp add: b_read_def tbuf_slow)
  with b_readSlow_ok [OF assms False] show ?thesis by auto
qed

lemma b_stream: "stream_source (buffered_transport T) (b_inv inv) (b_pending pending)"
proof (rule stream_sourceI)
  fix s n
  assume "b_inv inv s"
  from b_read_ok [OF this, of n]
  show "\<exists>bs s'. t_read (buffered_transport T) n s = (Inr bs, s') \<and> b_inv inv s' \<and>
      b_pending pending s = bs @ b_pending pending s' \<and> length bs \<le> n \<and>
      (0 < n \<longrightarrow> b_pending pending s \<noteq> [] \<longrightarrow> bs \<noteq> [])"
    by (auto simp: buffered_transport_def)
qed

lemma b_readAll_cases:
  "b_readAll T n s =
     (if rBase s + n \<le> rBound s then b_read T n s else readAll (t_read (buffered_transport T)) n s)"
  by (simp add: b_readAll_def b_read_def tbuf_read_def tbuf_readAll_def buffered_transport_def)

text \<open>The exact read and the borrow, and with them the whole contract.\<close>

lemma b_readAll_ok:
  assumes "b_inv inv s" and "n \<le> length (b_pending pending s)"
  shows "\<exists>s'. b_readAll T n s = (Inr (take n (b_pending pending s)), s') \<and> b_inv inv s' \<and>
    b_pending pending s' = drop n (b_pending pending s)"
proof (cases "rBase s + n \<le> rBound s")
  case True
  note I = b_inv_D [OF assms(1)]
  note adv = b_advance [OF assms(1) True]
  have "b_readAll T n s = (Inr (take n (b_ahead s)), s\<lparr>rBase := rBase s + n\<rparr>)"
    using True I adv(3) by (simp add: b_readAll_def tbuf_fast)
  moreover have "take n (b_pending pending s) = take n (b_ahead s)"
    and "drop n (b_pending pending s) = b_pending pending (s\<lparr>rBase := rBase s + n\<rparr>)"
    using adv(2,4) by (metis append_eq_conv_conj)+
  ultimately show ?thesis using adv(1) by simp
next
  case False
  with stream_base.readAll_exact [OF stream_source.axioms(1) [OF b_stream] assms] show ?thesis
    by (simp add: b_readAll_cases)
qed

lemma b_readAll_eof:
  assumes "b_inv inv s" and "length (b_pending pending s) < n"
  shows "\<exists>s'. b_readAll T n s = (Inl (TTransportException TE_END_OF_FILE), s') \<and> b_inv inv s'"
proof -
  have "rBound s - rBase s \<le> length (b_pending pending s)"
    using length_b_ahead [OF assms(1)] by (simp add: b_pending_def)
  then have "\<not> rBase s + n \<le> rBound s" using assms b_inv_D [OF assms(1)] by linarith
  with stream_source.readAll_short [OF b_stream assms] show ?thesis
    by (auto simp: b_readAll_cases)
qed

lemma b_borrow_law:
  assumes "b_inv inv s"
  shows "\<exists>r s'. b_borrow n s = (Inr r, s') \<and> b_inv inv s' \<and> b_pending pending s' = b_pending pending s \<and>
    (\<forall>bs. r = Some bs \<longrightarrow> n \<le> length bs \<and> take (length bs) (b_pending pending s) = bs \<and>
      (\<forall>m \<le> length bs. \<exists>s''. tbuf_consume m s' = (Inr (), s'') \<and> b_inv inv s'' \<and>
         b_pending pending s'' = drop m (b_pending pending s)))"
proof (cases "rBase s + n \<le> rBound s")
  case True
  note I = b_inv_D [OF assms]
  have "b_borrow n s = (Inr (Some (b_ahead s)), s)"
    using True I by (simp add: b_borrow_def tbuf_fast b_ahead_def)
  moreover have "\<exists>s''. tbuf_consume m s = (Inr (), s'') \<and> b_inv inv s'' \<and>
         b_pending pending s'' = drop m (b_pending pending s)" if "m \<le> length (b_ahead s)" for m
  proof -
    have fit: "rBase s + m \<le> rBound s" using that length_b_ahead [OF assms] I by simp
    note adv = b_advance [OF assms fit]
    from adv(2,4) have "drop m (b_pending pending s) = b_pending pending (s\<lparr>rBase := rBase s + m\<rparr>)"
      by (metis append_eq_conv_conj)
    with adv(1) fit show ?thesis by (simp add: tbuf_consume_ok)
  qed
  ultimately show ?thesis using assms True length_b_ahead [OF assms]
    by (auto simp: b_pending_def)
next
  case False
  then show ?thesis using assms by (simp add: b_borrow_def tbuf_slow b_borrowSlow_def ret_def)
qed

lemma b_source: "byte_source (buffered_transport T) (b_inv inv) (b_pending pending)"
proof
  fix s n
  assume "b_inv inv s"
  from b_borrow_law [OF this, of n]
  show "\<exists>r s'. t_borrow (buffered_transport T) n s = (Inr r, s') \<and> b_inv inv s' \<and>
      b_pending pending s' = b_pending pending s \<and>
      (\<forall>bs. r = Some bs \<longrightarrow> n \<le> length bs \<and> take (length bs) (b_pending pending s) = bs \<and>
        (\<forall>m \<le> length bs. \<exists>s''. t_consume (buffered_transport T) m s' = (Inr (), s'') \<and> b_inv inv s'' \<and>
           b_pending pending s'' = drop m (b_pending pending s)))"
    by (simp add: buffered_transport_def)
qed (simp_all add: buffered_transport_def b_readAll_ok b_readAll_eof)

end

section \<open>Writes: the transport is again a sink\<close>

lemma b_wstore_ok:
  "i + length bs \<le> length (b_wBuf s) \<Longrightarrow>
   b_wstore i bs s = (Inr (), s\<lparr>b_wBuf := splice i bs (b_wBuf s)\<rparr>)"
  by (simp add: b_wstore_def)

context byte_sink
begin

lemma b_write_fast:
  assumes "b_inv inv s" and "b_room room s (length bs + n)" and "wBase s + length bs \<le> wBound s"
  shows "\<exists>s'. b_write T bs s = (Inr (), s') \<and> b_inv inv s' \<and>
    b_written written s' = b_written written s @ bs \<and> b_room room s' n"
proof -
  note I = b_inv_D [OF assms(1)]
  let ?s' = "s\<lparr>b_wBuf := splice (wBase s) bs (b_wBuf s), wBase := wBase s + length bs\<rparr>"
  have "b_write T bs s = (Inr (), ?s')"
    using assms(3) I by (simp add: b_write_def tbuf_fast)
  moreover have "b_inv inv ?s'" using assms(1,3) I by (simp add: b_inv_def)
  moreover have "b_collected ?s' = b_collected s @ bs"
    using assms(3) I by (simp add: b_collected_def take_splice)
  moreover have "b_room room ?s' n" using assms(2) by (simp add: b_room_def add.assoc)
  ultimately show ?thesis by (simp add: b_written_def)
qed

text \<open>Two system calls: what is collected, then the caller's bytes.\<close>

lemma b_write_through:
  assumes "b_inv inv s" and "b_room room s (length bs + n)"
  shows "\<exists>s'. bindT (if wBase s > 0
               then bindT (load b_wBuf 0 (wBase s)) (\<lambda>bs. b_under (t_write T bs))
               else ret ()) (\<lambda>_.
        bindT (b_under (t_write T bs)) (\<lambda>_.
        modify (\<lambda>s. s\<lparr>wBase := 0\<rparr>))) s = (Inr (), s') \<and> b_inv inv s' \<and>
    b_written written s' = b_written written s @ bs \<and> b_room room s' n"
proof -
  note I = b_inv_D [OF assms(1)]
  have len: "length (take (wBase s) (b_wBuf s)) = wBase s" using I by simp
  have "\<exists>u. (wBase s > 0 \<longrightarrow> t_write T (take (wBase s) (b_wBuf s)) (b_trans s) = (Inr (), u)) \<and>
      (wBase s = 0 \<longrightarrow> u = b_trans s) \<and> inv u \<and>
      written u = written (b_trans s) @ b_collected s \<and> room u (length bs + n)"
  proof (cases "wBase s = 0")
    case True
    with assms(2) I show ?thesis by (simp add: b_collected_def b_room_def)
  next
    case False
    have "room (b_trans s) (length (take (wBase s) (b_wBuf s)) + (length bs + n))"
      using assms(2) len by (simp add: b_room_def)
    from write_ok [OF I(9) this] False show ?thesis by (auto simp: b_collected_def)
  qed
  then obtain u where u: "wBase s > 0 \<longrightarrow> t_write T (take (wBase s) (b_wBuf s)) (b_trans s) = (Inr (), u)"
      "wBase s = 0 \<longrightarrow> u = b_trans s" "inv u" "written u = written (b_trans s) @ b_collected s"
      "room u (length bs + n)" by (elim exE conjE) (rule that)
  from write_ok [OF u(3,5)] obtain v where v: "t_write T bs u = (Inr (), v)" "inv v"
      "written v = written u @ bs" "room v n" by blast
  let ?s' = "s\<lparr>b_trans := v, wBase := 0\<rparr>"
  have "b_inv inv ?s'" using assms(1) v by (simp add: b_inv_def)
  moreover have "b_written written ?s' = b_written written s @ bs"
    using u v by (simp add: b_written_def b_collected_def)
  moreover have "b_room room ?s' n" using v assms(2) by (simp add: b_room_def)
  ultimately show ?thesis using u v I by (cases "wBase s = 0") (simp_all add: tio_simps)
qed

text \<open>One system call: the block is filled and written, the rest is collected anew.\<close>

lemma b_write_refill:
  assumes "b_inv inv s" and "b_room room s (length bs + n)"
    and "\<not> wBase s + length bs \<le> wBound s" and "wBase s + length bs < 2 * b_wBufSize s"
    and "0 < wBase s"
  shows "\<exists>s'. b_writeSlow T bs s = (Inr (), s') \<and> b_inv inv s' \<and>
    b_written written s' = b_written written s @ bs \<and> b_room room s' n"
proof -
  note I = b_inv_D [OF assms(1)]
  let ?space = "wBound s - wBase s"
  let ?head = "take ?space bs" and ?rest = "drop ?space bs"
  have len: "length ?head = ?space" "length ?rest = length bs - ?space" "length ?rest < b_wBufSize s"
    using assms I by auto
  let ?w = "splice (wBase s) ?head (b_wBuf s)"
  have w: "?w = b_collected s @ ?head" "length ?w = b_wBufSize s"
    using len I by (simp_all add: splice_def b_collected_def)
  have "room (b_trans s) (length ?w + (length ?rest + n))"
    using assms(2,3) len w(2) I by (auto simp: b_room_def elim: room_le)
  from write_ok [OF I(9) this] obtain u where u: "t_write T ?w (b_trans s) = (Inr (), u)" "inv u"
      "written u = written (b_trans s) @ ?w" "room u (length ?rest + n)" by blast
  let ?s' = "s\<lparr>b_wBuf := splice 0 ?rest ?w, b_trans := u, wBase := length ?rest\<rparr>"
  have small: "wBase s + length bs < 2 ^ 32" using assms(2) by (simp add: b_room_def)
  have two: "u32 (wBase s + length bs) < u32 (2 * b_wBufSize s)"
    using assms(4) small I by simp
  have step1: "b_wstore (wBase s) ?head s = (Inr (), s\<lparr>b_wBuf := ?w\<rparr>)"
    using len I assms(3) by (intro b_wstore_ok) simp
  have step2: "b_wstore 0 ?rest (s\<lparr>b_wBuf := ?w, b_trans := u\<rparr>) =
      (Inr (), s\<lparr>b_wBuf := splice 0 ?rest ?w, b_trans := u\<rparr>)"
    using len w by (subst b_wstore_ok) simp_all
  have "u32 ?space = ?space" "u32 (wBase s) = wBase s" using I by simp_all
  then have "b_writeSlow T bs s = (Inr (), ?s')"
    using assms(3,5) I len(3) w(2) u(1) two step1 step2
    by (simp add: b_writeSlow_def Let_def bindT_def b_under_def on_part_def modify_def
        del: length_drop)
  moreover have "b_inv inv ?s'" using assms(1) u len w I by (simp add: b_inv_def)
  moreover have "b_written written ?s' = b_written written s @ bs"
    using u w len by (simp add: b_written_def b_collected_def splice_def)
  moreover have "length ?rest + n < 2 ^ 32"
    using assms(2) len(2) unfolding b_room_def by linarith
  then have "b_room room ?s' n" using u(4) by (simp add: b_room_def)
  ultimately show ?thesis by blast
qed

lemma b_write_ok:
  assumes "b_inv inv s" and "b_room room s (length bs + n)"
  shows "\<exists>s'. b_write T bs s = (Inr (), s') \<and> b_inv inv s' \<and>
    b_written written s' = b_written written s @ bs \<and> b_room room s' n"
proof (cases "wBase s + length bs \<le> wBound s")
  case True
  with assms show ?thesis by (rule b_write_fast)
next
  case False
  note I = b_inv_D [OF assms(1)]
  from False have eq: "b_write T bs s = b_writeSlow T bs s" by (simp add: b_write_def tbuf_slow)
  show ?thesis
  proof (cases "2 * b_wBufSize s \<le> wBase s + length bs \<or> wBase s = 0")
    case True
    have "wBase s + length bs < 2 ^ 32" using assms(2) by (simp add: b_room_def)
    with True False I have "b_writeSlow T bs s = bindT (if wBase s > 0
               then bindT (load b_wBuf 0 (wBase s)) (\<lambda>bs. b_under (t_write T bs))
               else ret ()) (\<lambda>_.
        bindT (b_under (t_write T bs)) (\<lambda>_.
        modify (\<lambda>s. s\<lparr>wBase := 0\<rparr>))) s"
      by (simp add: b_writeSlow_def Let_def)
    with b_write_through [OF assms] eq show ?thesis by simp
  next
    case nosplit: False
    with b_write_refill [OF assms False] eq show ?thesis by simp
  qed
qed

lemma b_sink: "byte_sink (buffered_transport T) (b_inv inv) (b_room room) (b_written written)"
proof
  fix s n m
  assume "b_room room s n" and "m \<le> n"
  then show "b_room room s m" by (auto simp: b_room_def elim: room_le)
next
  fix s :: "'s buffered" and bs :: bytes and n
  assume "b_inv inv s" and "b_room room s (length bs + n)"
  from b_write_ok [OF this]
  show "\<exists>s'. t_write (buffered_transport T) bs s = (Inr (), s') \<and> b_inv inv s' \<and>
      b_written written s' = b_written written s @ bs \<and> b_room room s' n"
    by (simp add: buffered_transport_def)
qed

text \<open>A flush hands everything to the transport below, then flushes that one.\<close>

lemma b_flush_ok:
  assumes "b_inv inv s" and "b_room room s n"
  shows "\<exists>u. inv u \<and> written u = b_written written s \<and> room u n \<and>
    b_flush T s = (case t_flush T u of (r, u') \<Rightarrow> (r, s\<lparr>wBase := 0, b_trans := u'\<rparr>))"
proof (cases "wBase s = 0")
  case True
  with assms b_inv_D [OF assms(1)] show ?thesis
    by (intro exI [of _ "b_trans s"])
      (auto simp: b_flush_def tio_simps b_written_def b_collected_def b_room_def split: prod.splits)
next
  case False
  note I = b_inv_D [OF assms(1)]
  have "room (b_trans s) (length (take (wBase s) (b_wBuf s)) + n)"
    using assms(2) I by (simp add: b_room_def)
  from write_ok [OF I(9) this] obtain u where "t_write T (take (wBase s) (b_wBuf s)) (b_trans s) = (Inr (), u)"
    "inv u" "written u = written (b_trans s) @ b_collected s" "room u n"
    by (auto simp: b_collected_def)
  with False I show ?thesis
    by (intro exI [of _ u]) (simp add: b_flush_def tio_simps b_written_def split: prod.splits)
qed

end

section \<open>Buffering over a memory buffer\<close>

lemmas buffered_mem_source = mem_stream.b_source
lemmas buffered_mem_stream = mem_stream.b_stream
lemmas buffered_mem_sink = mem_sink.b_sink

interpretation bmem_source: byte_source "buffered_transport mem_transport" "b_inv mem_inv" "b_pending mem_pending"
  by (rule buffered_mem_source)

interpretation bmem_stream: stream_source "buffered_transport mem_transport" "b_inv mem_inv"
  "b_pending mem_pending"
  by (rule buffered_mem_stream)

interpretation bmem_full: full_source "buffered_transport mem_transport" "b_inv mem_inv"
  "b_pending mem_pending" ..

interpretation bmem_sink: byte_sink "buffered_transport mem_transport" "b_inv mem_inv" "b_room mem_room"
  "b_written mem_written"
  by (rule buffered_mem_sink)

lemma new_buffered_inv:
  "uinv u \<Longrightarrow> 0 < rsz \<Longrightarrow> rsz < 2 ^ 32 \<Longrightarrow> wsz < 2 ^ 31 \<Longrightarrow> b_inv uinv (new_TBufferedTransport u rsz wsz)"
  by (simp add: b_inv_def new_TBufferedTransport_def)

lemma new_buffered_contents:
  "b_pending p (new_TBufferedTransport u rsz wsz) = p u"
  "b_written w (new_TBufferedTransport u rsz wsz) = w u"
  "b_room r (new_TBufferedTransport u rsz wsz) n \<longleftrightarrow> n < 2 ^ 32 \<and> r u n"
  by (simp_all add: b_pending_def b_ahead_def b_written_def b_collected_def b_room_def
      new_TBufferedTransport_def)

lemma b_flushed:
  "b_inv uinv t \<Longrightarrow> uinv u \<Longrightarrow> b_inv uinv (t\<lparr>wBase := 0, b_trans := u\<rparr>)"
  "wBase (t\<lparr>wBase := 0, b_trans := u\<rparr>) = 0" "b_trans (t\<lparr>wBase := 0, b_trans := u\<rparr>) = u"
  by (simp_all add: b_inv_def)

text \<open>A list of writes, stopping at the first exception.\<close>

fun write_all :: "'s ttransport \<Rightarrow> bytes list \<Rightarrow> ('s, unit) tio" where
  "write_all T [] = ret ()"
| "write_all T (b # bs) = bindT (t_write T b) (\<lambda>_. write_all T bs)"

context byte_sink
begin

lemma writes_write_all: "writes (write_all T bss) (concat bss) ()"
proof (induction bss)
  case Nil
  then show ?case by (simp add: writes_ret)
next
  case (Cons b bss)
  then show ?case using writes_bind [OF writes_write Cons] by simp
qed

end

section \<open>Properties\<close>

text \<open>
  C19: TBufferedTransport loses, repeats and reorders no byte on the way down. Whatever the
  buffer size, the pieces and the split between buffering and writing through, after the
  writes and a flush the memory buffer underneath holds the concatenation of the pieces.
\<close>

theorem buffered_writes_reach_the_transport:
  assumes "b_inv mem_inv s" and "b_room mem_room s (length (concat bss))"
  shows "\<exists>s'. bindT (write_all (buffered_transport mem_transport) bss)
      (\<lambda>_. b_flush mem_transport) s = (Inr (), s') \<and>
    mem_written (b_trans s') = b_written mem_written s @ concat bss \<and> b_inv mem_inv s' \<and> wBase s' = 0"
proof -
  from assms obtain t where t: "write_all (buffered_transport mem_transport) bss s = (Inr (), t)"
      "b_inv mem_inv t" "b_written mem_written t = b_written mem_written s @ concat bss"
      "b_room mem_room t 0"
    using bmem_sink.writes_write_all [of bss] unfolding bmem_sink.writes_def
    by (metis add.right_neutral)
  from mem_sink.b_flush_ok [OF t(2,4)] obtain u where u: "mem_inv u"
      "mem_written u = b_written mem_written t"
      "b_flush mem_transport t = (Inr (), t\<lparr>wBase := 0, b_trans := u\<rparr>)"
    by (auto simp: mem_transport_def base_flush_def ret_def)
  with t show ?thesis by (simp add: bindT_def b_flushed)
qed

theorem buffered_writes_reach_the_transport_witness:
  "\<exists>s'. bindT (write_all (buffered_transport mem_transport) [[1, 2], [3], [4, 5, 6, 7, 8], [9]])
      (\<lambda>_. b_flush mem_transport) (new_TBufferedTransport (new_TMemoryBuffer_sized 2) 4 4) = (Inr (), s') \<and>
    mem_written (b_trans s') = [1, 2, 3, 4, 5, 6, 7, 8, 9]"
proof -
  let ?s = "new_TBufferedTransport (new_TMemoryBuffer_sized 2) 4 4"
  have "b_inv mem_inv ?s" using new_sized_inv [of 2] by (intro new_buffered_inv) simp_all
  moreover have "b_room mem_room ?s (length (concat [[1, 2], [3], [4, 5, 6, 7, 8 :: u8], [9]]))"
    by (simp add: new_buffered_contents mem_room_def new_sized_fields)
  moreover have "mem_written (new_TMemoryBuffer_sized 2) = []"
    by (simp add: mem_written_def new_sized_fields)
  ultimately show ?thesis
    using buffered_writes_reach_the_transport [of ?s "[[1, 2], [3], [4, 5, 6, 7, 8], [9]]"]
    by (auto simp: new_buffered_contents)
qed

text \<open>
  C10: TBufferedTransport loses, repeats and reorders no byte on the way up, over any transport
  that delivers a stream in pieces of any size: an exact read returns the next bytes of the
  stream (read-ahead included) or fails with END_OF_FILE when there are too few, and a borrow
  shows pending bytes without taking them.
\<close>

theorem buffered_reads_the_stream:
  assumes "stream_source U uinv pending" and "b_inv uinv s"
  shows "(\<exists>s'. b_readAll U n s =
      (if n \<le> length (b_pending pending s) then Inr (take n (b_pending pending s))
       else Inl (TTransportException TE_END_OF_FILE), s') \<and> b_inv uinv s' \<and>
      (n \<le> length (b_pending pending s) \<longrightarrow> b_pending pending s' = drop n (b_pending pending s))) \<and>
    (\<exists>r s'. b_borrow n s = (Inr r, s') \<and> b_pending pending s' = b_pending pending s \<and>
      (\<forall>bs. r = Some bs \<longrightarrow> n \<le> length bs \<and> take (length bs) (b_pending pending s) = bs))"
proof (rule conjI)
  note src = stream_source.b_readAll_ok [OF assms(1,2)] stream_source.b_readAll_eof [OF assms(1,2)]
  show "\<exists>s'. b_readAll U n s =
      (if n \<le> length (b_pending pending s) then Inr (take n (b_pending pending s))
       else Inl (TTransportException TE_END_OF_FILE), s') \<and> b_inv uinv s' \<and>
    (n \<le> length (b_pending pending s) \<longrightarrow> b_pending pending s' = drop n (b_pending pending s))"
    using src(1) [of n] src(2) [of n] by (cases "n \<le> length (b_pending pending s)") auto
  show "\<exists>r s'. b_borrow n s = (Inr r, s') \<and> b_pending pending s' = b_pending pending s \<and>
      (\<forall>bs. r = Some bs \<longrightarrow> n \<le> length bs \<and> take (length bs) (b_pending pending s) = bs)"
    using stream_source.b_borrow_law [OF assms(1,2)] by blast
qed

theorem buffered_reads_the_stream_witness:
  "\<exists>m s'. new_TMemoryBuffer_from (Some [1, 2, 3, 4, 5]) 5 TAKE_OWNERSHIP = Inr m \<and>
     b_readAll mem_transport 3 (new_TBufferedTransport m 2 2) = (Inr [1, 2, 3], s')"
proof -
  obtain m where m: "new_TMemoryBuffer_from (Some [1, 2, 3, 4, 5]) 5 TAKE_OWNERSHIP = Inr m"
      "mem_inv m" "mem_pending m = [1, 2, 3, 4, 5]"
    using new_from_ok [of "[1, 2, 3, 4, 5]" 5] by auto
  have "b_inv mem_inv (new_TBufferedTransport m 2 2)" using m by (intro new_buffered_inv) simp_all
  from buffered_reads_the_stream [OF mem_stream.stream_source_axioms this, of 3] m show ?thesis
    by (auto simp: new_buffered_contents numeral_3_eq_3)
qed

end
