(* ===== verification/FramedTransport.thy ===== *)
theory FramedTransport
  imports BufferedTransport
begin

text \<open>
  \<^verbatim>\<open>TFramedTransport\<close> (\<^verbatim>\<open>transport/TBufferTransports.{h,cpp}\<close>): collects writes until a
  flush sends them as one frame, a four-byte length and the payload, and reads frame by frame.

  \<open>f_live\<close> says whether the read pointers point into the current read block: replacing the
  block frees the old one, and until the frame is complete the pointers are left dangling.
\<close>

record 'u framed = tbuf_base +
  f_trans :: 'u
  f_rBufSize :: nat
  f_wBufSize :: nat
  f_rBuf :: bytes
  f_wBuf :: bytes
  f_live :: bool

section \<open>Operations\<close>

definition f_under :: "('u, 'a) tio \<Rightarrow> ('u framed, 'a) tio" where
  [tio_simps]: "f_under = on_part f_trans (\<lambda>u s. s\<lparr>f_trans := u\<rparr>)"

text \<open>What the read pointers can reach, and the value of a 32-bit word as \<^verbatim>\<open>int32_t\<close>.\<close>

definition f_rmem :: "'u framed \<Rightarrow> bytes" where
  "f_rmem s = (if f_live s then f_rBuf s else [])"

definition s32 :: "nat \<Rightarrow> int" where
  "s32 n = (if n < 2 ^ 31 then int n else int n - 2 ^ 32)"

text \<open>
  The loop that reads the frame size; \<open>szp\<close> holds the bytes read so far. The result is
  \<open>None\<close> at the end of the stream before the first byte.
\<close>

function frame_size_loop :: "'u ttransport \<Rightarrow> bytes \<Rightarrow> ('u, bytes option) tio" where
  "frame_size_loop U szp u =
     (if length szp < 4 then
        (case t_read U (4 - length szp) u of
           (Inl e, u') \<Rightarrow> (Inl e, u')
         | (Inr got, u') \<Rightarrow>
             if got = [] then
               (if szp = [] then (Inr None, u')
                else (Inl (TTransportException TE_END_OF_FILE), u'))
             else if 4 - length szp < length got then (Inl UndefinedBehaviour, u')
             else frame_size_loop U (szp @ got) u')
      else (Inr (Some szp), u))"
  by pat_completeness auto
termination
  by (relation "measure (\<lambda>(U, szp, u). 4 - length szp)") (auto simp: neq_Nil_conv)

declare frame_size_loop.simps [simp del]

text \<open>
  When the bytes of a frame end early, with an exception, the code may have overwritten some of its
  buffer, and a client that reads on after the exception may find these bytes; here the buffer stays
  as it was. No lemma is about reads after such an exception.
\<close>

definition readFrame :: "'u ttransport \<Rightarrow> ('u framed, bool) tio" where
  "readFrame U =
     bindT (f_under (frame_size_loop U [])) (\<lambda>szp.
     case szp of
       None \<Rightarrow> ret False
     | Some b \<Rightarrow>
         let sz = be_nat b in
         if s32 sz < 0 then throw (TTransportException TE_UNKNOWN)
         else
           bindT (modify (\<lambda>s. if s32 sz > s32 (f_rBufSize s)
                              then s\<lparr>f_rBuf := replicate sz 0, f_rBufSize := sz, f_live := False\<rparr>
                              else s)) (\<lambda>_.
           bindT (f_under (t_readAll U sz)) (\<lambda>bs.
           bindT (store f_rBuf (\<lambda>f s. s\<lparr>f_rBuf := f (f_rBuf s)\<rparr>) 0 bs) (\<lambda>_.
           bindT (modify (\<lambda>s. (setReadBuffer 0 sz s)\<lparr>f_live := True\<rparr>)) (\<lambda>_. ret True)))))"

definition f_readSlow :: "'u ttransport \<Rightarrow> nat \<Rightarrow> ('u framed, bytes) tio" where
  "f_readSlow U len s =
     (let have_bytes = u32 (rBound s - rBase s) in
      if \<not> have_bytes < len then (Inl AssertFail, s)
      else
        bindT (if have_bytes > 0 then load f_rmem (rBase s) have_bytes else ret []) (\<lambda>front.
        bindT (readFrame U) (\<lambda>more.
        if \<not> more then ret []
        else (\<lambda>s.
          let give = min (len - have_bytes) (u32 (rBound s - rBase s)) in
          bindT (load f_rmem (rBase s) give) (\<lambda>bs.
          bindT (modify (\<lambda>s. s\<lparr>rBase := rBase s + give\<rparr>)) (\<lambda>_. ret (front @ bs))) s))) s)"

partial_function (option) frame_grow :: "nat \<Rightarrow> nat \<Rightarrow> nat option" where
  "frame_grow need new_size =
     (if new_size < need
      then frame_grow need (if new_size > 0 then u32 (new_size * 2) else 1)
      else Some new_size)"

definition f_wstore :: "nat \<Rightarrow> bytes \<Rightarrow> ('u framed, unit) tio" where
  "f_wstore = store f_wBuf (\<lambda>f s. s\<lparr>f_wBuf := f (f_wBuf s)\<rparr>)"

definition f_writeSlow :: "bytes \<Rightarrow> ('u framed, unit) tio" where
  "f_writeSlow buf s =
     (let have_bytes = u32 (wBase s) in
      case frame_grow (u32 (length buf + have_bytes)) (f_wBufSize s) of
        None \<Rightarrow> (Inl Diverges, s)
      | Some new_size \<Rightarrow>
          bindT (load f_wBuf 0 have_bytes) (\<lambda>old.
          bindT (modify (\<lambda>s. s\<lparr>f_wBuf := old @ replicate (new_size - have_bytes) 0,
                               f_wBufSize := new_size, wBase := have_bytes,
                               wBound := new_size\<rparr>)) (\<lambda>_.
          bindT (f_wstore have_bytes buf) (\<lambda>_.
          modify (\<lambda>s. s\<lparr>wBase := wBase s + length buf\<rparr>)))) s)"

definition f_write :: "bytes \<Rightarrow> ('u framed, unit) tio" where
  "f_write = tbuf_write f_wBuf (\<lambda>f s. s\<lparr>f_wBuf := f (f_wBuf s)\<rparr>) f_writeSlow"

definition f_read :: "'u ttransport \<Rightarrow> nat \<Rightarrow> ('u framed, bytes) tio" where
  "f_read U = tbuf_read f_rmem (f_readSlow U)"

definition f_readAll :: "'u ttransport \<Rightarrow> nat \<Rightarrow> ('u framed, bytes) tio" where
  "f_readAll U = tbuf_readAll f_rmem (f_readSlow U)"

definition f_borrowSlow :: "nat \<Rightarrow> ('u framed, bytes option) tio" where
  "f_borrowSlow len = ret None"

definition f_borrow :: "nat \<Rightarrow> ('u framed, bytes option) tio" where
  "f_borrow = tbuf_borrow f_rmem f_borrowSlow"

definition f_flush :: "'u ttransport \<Rightarrow> ('u framed, unit) tio" where
  "f_flush U s =
     (if \<not> f_wBufSize s > 4 then (Inl AssertFail, s)
      else
        let sz_hbo = u32 (wBase s - 4) in
        bindT (f_wstore 0 (be_bytes 4 sz_hbo)) (\<lambda>_.
        bindT (if s32 sz_hbo > 0
               then bindT (modify (\<lambda>s. s\<lparr>wBase := 4\<rparr>)) (\<lambda>_.
                    bindT (load f_wBuf 0 (4 + sz_hbo)) (\<lambda>bs. f_under (t_write U bs)))
               else ret ()) (\<lambda>_.
        f_under (t_flush U))) s)"

definition f_writeEnd :: "('u framed, nat) tio" where
  "f_writeEnd s = (Inr (u32 (wBase s)), s)"

definition f_readEnd :: "('u framed, nat) tio" where
  "f_readEnd s = (Inr (u32 (rBound s + 4)), s)"

definition f_peek :: "'u ttransport \<Rightarrow> ('u framed, bool) tio" where
  "f_peek U s = (if rBase s < rBound s then (Inr True, s) else f_under (t_peek U) s)"

definition f_close :: "'u ttransport \<Rightarrow> ('u framed, unit) tio" where
  "f_close U = bindT (f_flush U) (\<lambda>_. f_under (t_close U))"

text \<open>The constructor writes four bytes of padding, where the frame size will go.\<close>

definition new_TFramedTransport :: "'u \<Rightarrow> nat \<Rightarrow> exc + 'u framed" where
  "new_TFramedTransport u sz =
     (case f_write (replicate 4 0)
        \<lparr>rBase = 0, rBound = 0, wBase = 0, wBound = sz, f_trans = u, f_rBufSize = 0,
         f_wBufSize = sz, f_rBuf = [], f_wBuf = replicate sz 0, f_live = True\<rparr>
      of (Inl e, s) \<Rightarrow> Inl e | (Inr _, s) \<Rightarrow> Inr s)"

definition new_TFramedTransport_default :: "'u \<Rightarrow> exc + 'u framed" where
  "new_TFramedTransport_default u = new_TFramedTransport u 512"

definition framed_transport :: "'u ttransport \<Rightarrow> 'u framed ttransport" where
  "framed_transport U = \<lparr>
     t_isOpen = (\<lambda>s. t_isOpen U (f_trans s)), t_peek = f_peek U,
     t_open = f_under (t_open U), t_close = f_close U,
     t_read = f_read U, t_readAll = f_readAll U, t_readEnd = f_readEnd,
     t_write = f_write, t_writeEnd = f_writeEnd, t_flush = f_flush U,
     t_borrow = f_borrow, t_consume = tbuf_consume\<rparr>"

section \<open>Frames\<close>

definition frame :: "bytes \<Rightarrow> bytes" where
  "frame bs = be_bytes 4 (length bs) @ bs"

definition frame_ok :: "bytes \<Rightarrow> bool" where
  "frame_ok f \<longleftrightarrow> f \<noteq> [] \<and> length f < 2 ^ 31"

text \<open>The payload of a stream of frames.\<close>

function unframe :: "bytes \<Rightarrow> bytes" where
  "unframe bs =
     (if length bs < 4 then []
      else take (be_nat (take 4 bs)) (drop 4 bs) @ unframe (drop (4 + be_nat (take 4 bs)) bs))"
  by pat_completeness auto
termination
  by (relation "measure length") auto

declare unframe.simps [simp del]

lemma unframe_Nil [simp]: "unframe [] = []"
  by (simp add: unframe.simps)

lemma be_nat_frame: "length f < 2 ^ 32 \<Longrightarrow> be_nat (take 4 (frame f)) = length f"
  by (simp add: frame_def)

lemma unframe_frame: "length f < 2 ^ 32 \<Longrightarrow> unframe (frame f @ bs) = f @ unframe bs"
  by (subst unframe.simps) (simp add: frame_def)

lemma unframe_frames: "\<forall>f \<in> set fs. length f < 2 ^ 32 \<Longrightarrow> unframe (concat (map frame fs)) = concat fs"
  by (induction fs) (simp_all add: unframe_frame)

section \<open>Reads: frames are a source of bytes\<close>

definition f_rinv :: "('u \<Rightarrow> bool) \<Rightarrow> ('u \<Rightarrow> bytes) \<Rightarrow> 'u framed \<Rightarrow> bool" where
  "f_rinv uinv p s \<longleftrightarrow> rBase s \<le> rBound s \<and> rBound s \<le> f_rBufSize s \<and>
     length (f_rBuf s) = f_rBufSize s \<and> f_rBufSize s < 2 ^ 31 \<and> f_live s \<and> uinv (f_trans s) \<and>
     (\<exists>fs. p (f_trans s) = concat (map frame fs) \<and> (\<forall>f \<in> set fs. frame_ok f))"

definition f_ahead :: "'u framed \<Rightarrow> bytes" where
  "f_ahead s = slice (rBase s) (rBound s - rBase s) (f_rBuf s)"

definition f_pending :: "('u \<Rightarrow> bytes) \<Rightarrow> 'u framed \<Rightarrow> bytes" where
  "f_pending p s = f_ahead s @ unframe (p (f_trans s))"

lemma f_rinv_D:
  assumes "f_rinv uinv p s"
  shows "rBase s \<le> rBound s" "rBound s \<le> length (f_rBuf s)" "rBound s < 2 ^ 31"
    "f_live s" "uinv (f_trans s)" "f_rBufSize s < 2 ^ 31" "length (f_rBuf s) = f_rBufSize s"
    "f_rmem s = f_rBuf s"
  using assms by (auto simp: f_rinv_def f_rmem_def)

lemma f_rinv_frames:
  assumes "f_rinv uinv p s"
  obtains fs where "p (f_trans s) = concat (map frame fs)" and "\<forall>f \<in> set fs. frame_ok f"
    and "f_pending p s = f_ahead s @ concat fs"
proof -
  from assms obtain fs where fs: "p (f_trans s) = concat (map frame fs)" "\<forall>f \<in> set fs. frame_ok f"
    by (auto simp: f_rinv_def)
  moreover from fs(2) have "\<forall>f \<in> set fs. length f < 2 ^ 32" by (auto simp: frame_ok_def)
  ultimately show ?thesis using that by (simp add: f_pending_def unframe_frames)
qed

lemma length_f_ahead: "f_rinv uinv p s \<Longrightarrow> length (f_ahead s) = rBound s - rBase s"
  using f_rinv_D [of uinv p s] by (simp add: f_ahead_def)

lemma f_advance:
  assumes "f_rinv uinv p s" and "rBase s + n \<le> rBound s"
  defines "s' \<equiv> s\<lparr>rBase := rBase s + n\<rparr>"
  shows "f_rinv uinv p s'" and "f_pending p s = take n (f_ahead s) @ f_pending p s'"
    and "slice (rBase s) n (f_rBuf s) = take n (f_ahead s)" and "length (take n (f_ahead s)) = n"
proof -
  note I = f_rinv_D [OF assms(1)]
  show "f_rinv uinv p s'" using assms by (simp add: f_rinv_def)
  have "f_ahead s' = drop n (f_ahead s)"
    using assms(2) by (simp add: f_ahead_def s'_def slice_split diff_diff_add)
  then show "f_pending p s = take n (f_ahead s) @ f_pending p s'"
    by (simp add: f_pending_def s'_def)
  show "slice (rBase s) n (f_rBuf s) = take n (f_ahead s)" "length (take n (f_ahead s)) = n"
    using assms(2) I by (simp_all add: f_ahead_def slice_split)
qed

context full_source
begin

lemma frame_size_loop_exact:
  assumes "inv u" and "4 - length h \<le> length (pending u)" and "length h \<le> 4"
  shows "\<exists>u'. frame_size_loop T h u = (Inr (Some (h @ take (4 - length h) (pending u))), u') \<and>
    inv u' \<and> pending u' = drop (4 - length h) (pending u)"
  using assms
proof (induction "4 - length h" arbitrary: h u rule: less_induct)
  case less
  show ?case
  proof (cases "length h < 4")
    case False
    with less.prems show ?thesis by (subst frame_size_loop.simps) simp
  next
    case True
    with less.prems obtain bs u' where rd: "t_read T (4 - length h) u = (Inr bs, u')"
      and inv': "inv u'" and split: "pending u = bs @ pending u'"
      and le: "length bs \<le> 4 - length h" and "bs \<noteq> []"
      using read_prefix [of u "4 - length h"] by auto
    then have shrink: "4 - length (h @ bs) < 4 - length h" using True by (cases bs) auto
    have "\<exists>u''. frame_size_loop T (h @ bs) u' =
        (Inr (Some ((h @ bs) @ take (4 - length (h @ bs)) (pending u'))), u'') \<and> inv u'' \<and>
        pending u'' = drop (4 - length (h @ bs)) (pending u')"
      using less.prems True split le inv' by (intro less.hyps [OF shrink]) auto
    then show ?thesis using True rd le \<open>bs \<noteq> []\<close> split
      by (subst frame_size_loop.simps) (auto simp: diff_diff_add)
  qed
qed

lemma frame_size_loop_eof:
  assumes "inv u" and "pending u = []"
  shows "\<exists>u'. frame_size_loop T [] u = (Inr None, u') \<and> inv u' \<and> pending u' = []"
  using read_prefix [OF assms(1), of 4] assms(2) by (subst frame_size_loop.simps) auto

lemma readFrame_eof:
  assumes "inv (f_trans s)" and "pending (f_trans s) = []"
  shows "\<exists>u'. readFrame T s = (Inr False, s\<lparr>f_trans := u'\<rparr>) \<and> inv u' \<and> pending u' = []"
  using frame_size_loop_eof [OF assms] by (auto simp: readFrame_def tio_simps)

lemma readFrame_frame:
  assumes "inv (f_trans s)" and "pending (f_trans s) = frame f @ rest" and "frame_ok f"
    and "length (f_rBuf s) = f_rBufSize s" and "f_rBufSize s < 2 ^ 31"
  shows "\<exists>s'. readFrame T s = (Inr True, s') \<and> inv (f_trans s') \<and> pending (f_trans s') = rest \<and>
    rBase s' = 0 \<and> rBound s' = length f \<and> f_live s' \<and> take (length f) (f_rBuf s') = f \<and>
    length (f_rBuf s') = f_rBufSize s' \<and> f_rBufSize s' < 2 ^ 31 \<and> length f \<le> f_rBufSize s'"
proof -
  have f31: "length f < 2 ^ 31" using assms(3) by (simp add: frame_ok_def)
  then have f256: "length f < 256 ^ 4" by simp
  obtain u where u: "frame_size_loop T [] (f_trans s) = (Inr (Some (be_bytes 4 (length f))), u)"
      "inv u" "pending u = f @ rest"
    using frame_size_loop_exact [OF assms(1), of "[]"] assms(2) by (auto simp: frame_def)
  obtain v where v: "t_readAll T (length f) u = (Inr f, v)" "inv v" "pending v = rest"
    using readAll_ok [OF u(2), of "length f"] u(3) by auto
  have sz: "be_nat (be_bytes 4 (length f)) = length f" using f256 by simp
  have s32: "s32 (length f) = int (length f)" "s32 (f_rBufSize s) = int (f_rBufSize s)"
    using f31 assms(5) by (simp_all add: s32_def)
  show ?thesis
  proof (cases "f_rBufSize s < length f")
    case True
    then show ?thesis using u(1) v f31 sz s32
      by (simp add: readFrame_def tio_simps Let_def setReadBuffer_def splice_def)
  next
    case False
    then show ?thesis using u(1) v f31 sz s32 assms(4,5)
      by (simp add: readFrame_def tio_simps Let_def setReadBuffer_def splice_def)
  qed
qed

lemma f_readSlow_ok:
  assumes "f_rinv inv pending s" and "\<not> rBase s + n \<le> rBound s"
  shows "\<exists>bs s'. f_readSlow T n s = (Inr bs, s') \<and> f_rinv inv pending s' \<and>
    f_pending pending s = bs @ f_pending pending s' \<and> length bs \<le> n \<and>
    (n \<le> length (f_pending pending s) \<longrightarrow> bs \<noteq> [])"
proof -
  note I = f_rinv_D [OF assms(1)]
  let ?have = "rBound s - rBase s"
  have have_lt: "?have < n" using assms(2) I by linarith
  have front: "(if ?have > 0 then load f_rmem (rBase s) ?have else ret []) s = (Inr (f_ahead s), s)"
    using I by (simp add: f_ahead_def ret_def)
  obtain fs where fs: "pending (f_trans s) = concat (map frame fs)" "\<forall>f \<in> set fs. frame_ok f"
    "f_pending pending s = f_ahead s @ concat fs" by (rule f_rinv_frames [OF assms(1)])
  show ?thesis
  proof (cases fs)
    case Nil
    then obtain u' where u': "readFrame T s = (Inr False, s\<lparr>f_trans := u'\<rparr>)" "inv u'" "pending u' = []"
      using readFrame_eof [OF I(5)] fs by auto
    let ?s' = "s\<lparr>f_trans := u'\<rparr>"
    have "f_readSlow T n s = (Inr [], ?s')"
      using have_lt front u' I by (simp add: f_readSlow_def Let_def bindT_def ret_def)
    moreover have "f_rinv inv pending ?s'"
      using assms(1) u' by (auto simp: f_rinv_def intro: exI [of _ "[]"])
    moreover have "f_pending pending ?s' = f_ahead s"
      using u' by (simp add: f_pending_def f_ahead_def)
    ultimately show ?thesis
      using fs(3) Nil have_lt length_f_ahead [OF assms(1)]
      by (intro exI [of _ "[]"] exI [of _ ?s']) simp
  next
    case (Cons f fs')
    then have f: "frame_ok f" "length f < 2 ^ 31" "f \<noteq> []" using fs(2) by (auto simp: frame_ok_def)
    have "pending (f_trans s) = frame f @ concat (map frame fs')" using fs(1) Cons by simp
    from readFrame_frame [OF I(5) this f(1) I(7,6)] obtain t where t:
      "readFrame T s = (Inr True, t)" "inv (f_trans t)" "pending (f_trans t) = concat (map frame fs')"
      "rBase t = 0" "rBound t = length f" "f_live t" "take (length f) (f_rBuf t) = f"
      "length (f_rBuf t) = f_rBufSize t" "f_rBufSize t < 2 ^ 31" "length f \<le> f_rBufSize t" by blast
    have tinv: "f_rinv inv pending t" using t fs(2) Cons by (auto simp: f_rinv_def)
    have ahead: "f_ahead t = f" using t by (simp add: f_ahead_def)
    have len32: "\<forall>f \<in> set fs'. length f < 2 ^ 32" using fs(2) Cons by (auto simp: frame_ok_def)
    then have pend: "f_pending pending s = f_ahead s @ f_pending pending t"
      using fs(3) Cons ahead t(3) by (simp add: f_pending_def unframe_frames)
    let ?g = "min (n - ?have) (length f)"
    have fit: "rBase t + ?g \<le> rBound t" using t by simp
    note adv = f_advance [OF tinv fit]
    let ?s' = "t\<lparr>rBase := rBase t + ?g\<rparr>"
    have "u32 ?have = ?have" "u32 (rBound t - rBase t) = length f" using I t f by simp_all
    then have "f_readSlow T n s = (Inr (f_ahead s @ take ?g f), ?s')"
      using have_lt front t(1,10) adv(3) ahead f_rinv_D [OF tinv] t(4)
      by (simp add: f_readSlow_def Let_def bindT_def ret_def modify_def)
    moreover have "length (f_ahead s @ take ?g f) \<le> n"
      using length_f_ahead [OF assms(1)] have_lt by simp
    moreover have "f_ahead s @ take ?g f \<noteq> []" using f(3) have_lt by simp
    ultimately show ?thesis using adv pend ahead
      by (intro exI [of _ "f_ahead s @ take ?g f"] exI [of _ ?s']) auto
  qed
qed

lemma f_stream: "stream_base (framed_transport T) (f_rinv inv pending) (f_pending pending)"
proof
  fix s n
  assume inv: "f_rinv inv pending s"
  show "\<exists>bs s'. t_read (framed_transport T) n s = (Inr bs, s') \<and> f_rinv inv pending s' \<and>
      f_pending pending s = bs @ f_pending pending s' \<and> length bs \<le> n \<and>
      (0 < n \<longrightarrow> n \<le> length (f_pending pending s) \<longrightarrow> bs \<noteq> [])"
  proof (cases "rBase s + n \<le> rBound s")
    case True
    note adv = f_advance [OF inv True] and I = f_rinv_D [OF inv]
    have "f_read T n s = (Inr (take n (f_ahead s)), s\<lparr>rBase := rBase s + n\<rparr>)"
      using True I adv(3) by (simp add: f_read_def tbuf_fast)
    with adv show ?thesis
      by (intro exI [of _ "take n (f_ahead s)"] exI [of _ "s\<lparr>rBase := rBase s + n\<rparr>"])
        (auto simp: framed_transport_def)
  next
    case False
    then have "t_read (framed_transport T) n s = f_readSlow T n s"
      by (simp add: framed_transport_def f_read_def tbuf_slow)
    with f_readSlow_ok [OF inv False] show ?thesis by auto
  qed
qed

lemma f_readAll_cases:
  "f_readAll T n s =
     (if rBase s + n \<le> rBound s then f_read T n s else readAll (t_read (framed_transport T)) n s)"
  by (simp add: f_readAll_def f_read_def tbuf_read_def tbuf_readAll_def framed_transport_def)

lemma f_readAll_ok:
  assumes "f_rinv inv pending s" and "n \<le> length (f_pending pending s)"
  shows "\<exists>s'. f_readAll T n s = (Inr (take n (f_pending pending s)), s') \<and> f_rinv inv pending s' \<and>
    f_pending pending s' = drop n (f_pending pending s)"
proof (cases "rBase s + n \<le> rBound s")
  case True
  note I = f_rinv_D [OF assms(1)]
  note adv = f_advance [OF assms(1) True]
  have "f_readAll T n s = (Inr (take n (f_ahead s)), s\<lparr>rBase := rBase s + n\<rparr>)"
    using True I adv(3) by (simp add: f_readAll_def tbuf_fast)
  moreover have "take n (f_pending pending s) = take n (f_ahead s)"
    and "drop n (f_pending pending s) = f_pending pending (s\<lparr>rBase := rBase s + n\<rparr>)"
    using adv(2,4) by (metis append_eq_conv_conj)+
  ultimately show ?thesis using adv(1) by simp
next
  case False
  with stream_base.readAll_exact [OF f_stream assms] show ?thesis by (simp add: f_readAll_cases)
qed

lemma f_readAll_eof:
  assumes "f_rinv inv pending s" and "length (f_pending pending s) < n"
  shows "\<exists>s'. f_readAll T n s = (Inl (TTransportException TE_END_OF_FILE), s') \<and> f_rinv inv pending s'"
proof -
  have "rBound s - rBase s \<le> length (f_pending pending s)"
    using length_f_ahead [OF assms(1)] by (simp add: f_pending_def)
  then have "\<not> rBase s + n \<le> rBound s" using assms f_rinv_D [OF assms(1)] by linarith
  with stream_base.readAll_eof_base [OF f_stream assms] show ?thesis by (auto simp: f_readAll_cases)
qed

lemma f_borrow_law:
  assumes "f_rinv inv pending s"
  shows "\<exists>r s'. f_borrow n s = (Inr r, s') \<and> f_rinv inv pending s' \<and>
    f_pending pending s' = f_pending pending s \<and>
    (\<forall>bs. r = Some bs \<longrightarrow> n \<le> length bs \<and> take (length bs) (f_pending pending s) = bs \<and>
      (\<forall>m \<le> length bs. \<exists>s''. tbuf_consume m s' = (Inr (), s'') \<and> f_rinv inv pending s'' \<and>
         f_pending pending s'' = drop m (f_pending pending s)))"
proof (cases "rBase s + n \<le> rBound s")
  case True
  note I = f_rinv_D [OF assms]
  have "f_borrow n s = (Inr (Some (f_ahead s)), s)"
    using True I by (simp add: f_borrow_def tbuf_fast f_ahead_def)
  moreover have "\<exists>s''. tbuf_consume m s = (Inr (), s'') \<and> f_rinv inv pending s'' \<and>
         f_pending pending s'' = drop m (f_pending pending s)" if "m \<le> length (f_ahead s)" for m
  proof -
    have fit: "rBase s + m \<le> rBound s" using that length_f_ahead [OF assms] I by simp
    note adv = f_advance [OF assms fit]
    from adv(2,4) have "drop m (f_pending pending s) = f_pending pending (s\<lparr>rBase := rBase s + m\<rparr>)"
      by (metis append_eq_conv_conj)
    with adv(1) fit show ?thesis by (simp add: tbuf_consume_ok)
  qed
  ultimately show ?thesis using assms True length_f_ahead [OF assms]
    by (auto simp: f_pending_def)
next
  case False
  then show ?thesis using assms by (simp add: f_borrow_def tbuf_slow f_borrowSlow_def ret_def)
qed

lemma f_source: "byte_source (framed_transport T) (f_rinv inv pending) (f_pending pending)"
proof
  fix s n
  assume "f_rinv inv pending s"
  from f_borrow_law [OF this, of n]
  show "\<exists>r s'. t_borrow (framed_transport T) n s = (Inr r, s') \<and> f_rinv inv pending s' \<and>
      f_pending pending s' = f_pending pending s \<and>
      (\<forall>bs. r = Some bs \<longrightarrow> n \<le> length bs \<and> take (length bs) (f_pending pending s) = bs \<and>
        (\<forall>m \<le> length bs. \<exists>s''. t_consume (framed_transport T) m s' = (Inr (), s'') \<and>
           f_rinv inv pending s'' \<and> f_pending pending s'' = drop m (f_pending pending s)))"
    by (simp add: framed_transport_def)
qed (simp_all add: framed_transport_def f_readAll_ok f_readAll_eof)

end

section \<open>Writes: the payload being collected\<close>

lemma frame_grow_ok:
  assumes "need \<le> 2 ^ 31" and "ns < 2 ^ 32"
  shows "\<exists>r. frame_grow need ns = Some r \<and> need \<le> r \<and> ns \<le> r \<and> r < 2 ^ 32"
  using assms
proof (induction "2 ^ 31 - ns" arbitrary: ns rule: less_induct)
  case less
  show ?case
  proof (cases "ns < need")
    case False
    with less.prems show ?thesis by (subst frame_grow.simps) auto
  next
    case True
    define ns' where "ns' = (if ns > 0 then u32 (ns * 2) else 1)"
    from True less.prems have small: "ns < 2 ^ 31" by simp
    then have ns': "ns < ns'" "ns' < 2 ^ 32" by (auto simp: ns'_def u32_def)
    have "\<exists>r. frame_grow need ns' = Some r \<and> need \<le> r \<and> ns' \<le> r \<and> r < 2 ^ 32"
      using less.prems ns' small by (intro less.hyps) auto
    then show ?thesis using True ns'
      by (subst frame_grow.simps) (auto simp: ns'_def [symmetric])
  qed
qed

definition f_winv :: "'u framed \<Rightarrow> bool" where
  "f_winv s \<longleftrightarrow> 4 \<le> wBase s \<and> wBase s \<le> wBound s \<and> wBound s = f_wBufSize s \<and>
     length (f_wBuf s) = f_wBufSize s \<and> f_wBufSize s < 2 ^ 32"

definition f_wroom :: "'u framed \<Rightarrow> nat \<Rightarrow> bool" where
  "f_wroom s n \<longleftrightarrow> wBase s + n \<le> 2 ^ 31"

definition f_payload :: "'u framed \<Rightarrow> bytes" where
  "f_payload s = drop 4 (take (wBase s) (f_wBuf s))"

lemma f_wstore_ok:
  "i + length bs \<le> length (f_wBuf s) \<Longrightarrow>
   f_wstore i bs s = (Inr (), s\<lparr>f_wBuf := splice i bs (f_wBuf s)\<rparr>)"
  by (simp add: f_wstore_def)

lemma f_append:
  assumes "f_winv s" and "wBase s + length bs \<le> wBound s"
  defines "s' \<equiv> s\<lparr>f_wBuf := splice (wBase s) bs (f_wBuf s), wBase := wBase s + length bs\<rparr>"
  shows "f_winv s'" and "f_payload s' = f_payload s @ bs"
  using assms by (auto simp: f_winv_def f_payload_def take_splice)

definition f_grown :: "nat \<Rightarrow> 'u framed \<Rightarrow> 'u framed" where
  "f_grown r s = s\<lparr>f_wBuf := take (wBase s) (f_wBuf s) @ replicate (r - wBase s) 0,
                   f_wBufSize := r, wBase := wBase s, wBound := r\<rparr>"

lemma f_grown_simps [simp]:
  "wBase (f_grown r s) = wBase s" "wBound (f_grown r s) = r" "f_wBufSize (f_grown r s) = r"
  "f_wBuf (f_grown r s) = take (wBase s) (f_wBuf s) @ replicate (r - wBase s) 0"
  "f_trans (f_grown r s) = f_trans s"
  by (simp_all add: f_grown_def)

lemma f_writeSlow_ok:
  assumes "f_winv s" and "f_wroom s (length bs)"
  shows "\<exists>r. f_writeSlow bs s = (Inr (), (f_grown r s)\<lparr>
       f_wBuf := splice (wBase (f_grown r s)) bs (f_wBuf (f_grown r s)),
       wBase := wBase (f_grown r s) + length bs\<rparr>) \<and>
    wBase s + length bs \<le> r \<and> r < 2 ^ 32 \<and> f_wBufSize s \<le> r"
proof -
  have need: "length bs + wBase s \<le> 2 ^ 31" using assms(2) by (simp add: f_wroom_def)
  then have u: "u32 (length bs + u32 (wBase s)) = length bs + wBase s" "u32 (wBase s) = wBase s"
    by simp_all
  from need assms(1) obtain r where r: "frame_grow (length bs + wBase s) (f_wBufSize s) = Some r"
      "length bs + wBase s \<le> r" "r < 2 ^ 32" "f_wBufSize s \<le> r"
    using frame_grow_ok [of "length bs + wBase s" "f_wBufSize s"] by (auto simp: f_winv_def)
  then show ?thesis using assms(1) u
    by (intro exI [of _ r])
      (auto simp: f_writeSlow_def Let_def tio_simps f_wstore_ok f_winv_def f_grown_def)
qed

lemma f_write_ok:
  assumes "f_winv s" and "f_wroom s (length bs + n)"
  shows "\<exists>s'. f_write bs s = (Inr (), s') \<and> f_winv s' \<and> f_payload s' = f_payload s @ bs \<and>
    f_wroom s' n \<and> wBase s' = wBase s + length bs \<and> f_trans s' = f_trans s \<and>
    f_wBufSize s \<le> f_wBufSize s'"
proof (cases "wBase s + length bs \<le> wBound s")
  case True
  then have "f_write bs s =
      (Inr (), s\<lparr>f_wBuf := splice (wBase s) bs (f_wBuf s), wBase := wBase s + length bs\<rparr>)"
    using assms(1) by (simp add: f_write_def tbuf_fast f_winv_def)
  with f_append [OF assms(1) True] assms(2) show ?thesis by (simp add: f_wroom_def)
next
  case False
  have "f_wroom s (length bs)" using assms(2) by (simp add: f_wroom_def)
  from f_writeSlow_ok [OF assms(1) this] obtain r where r: "f_writeSlow bs s = (Inr (), (f_grown r s)\<lparr>
       f_wBuf := splice (wBase (f_grown r s)) bs (f_wBuf (f_grown r s)),
       wBase := wBase (f_grown r s) + length bs\<rparr>)"
      "wBase s + length bs \<le> r" "r < 2 ^ 32" "f_wBufSize s \<le> r" by blast
  have "f_winv (f_grown r s)" "f_payload (f_grown r s) = f_payload s"
      "wBase (f_grown r s) + length bs \<le> wBound (f_grown r s)"
    using assms(1) r by (auto simp: f_winv_def f_payload_def)
  with f_append [of "f_grown r s" bs] r False assms(2) show ?thesis
    by (simp add: f_write_def tbuf_slow f_wroom_def)
qed

lemma f_sink: "byte_sink (framed_transport T) f_winv f_wroom f_payload"
proof
  fix s :: "'a framed" and n m
  assume "f_wroom s n" and "m \<le> n"
  then show "f_wroom s m" by (simp add: f_wroom_def)
next
  fix s :: "'a framed" and bs :: bytes and n
  assume "f_winv s" and "f_wroom s (length bs + n)"
  from f_write_ok [OF this] show "\<exists>s'. t_write (framed_transport T) bs s = (Inr (), s') \<and> f_winv s' \<and>
      f_payload s' = f_payload s @ bs \<and> f_wroom s' n"
    by (auto simp: framed_transport_def)
qed

lemma new_framed_ok:
  assumes "sz \<le> 2 ^ 31"
  shows "\<exists>s. new_TFramedTransport u sz = Inr s \<and> f_winv s \<and> wBase s = 4 \<and> f_trans s = u \<and>
    rBase s = 0 \<and> rBound s = 0 \<and> f_rBufSize s = 0 \<and> f_rBuf s = [] \<and> f_live s \<and>
    f_wBufSize s = (if sz = 0 \<or> sz = 1 \<or> sz = 2 then 4 else if sz = 3 then 6 else sz)"
proof (cases "4 \<le> sz")
  case True
  with assms show ?thesis
    by (auto simp: new_TFramedTransport_def f_write_def tbuf_fast f_winv_def)
next
  case False
  have grow: "frame_grow 4 0 = Some 4" "frame_grow 4 1 = Some 4" "frame_grow 4 2 = Some 4"
      "frame_grow 4 3 = Some 6"
    by (simp_all add: frame_grow.simps)
  from False consider "sz = 0" | "sz = 1" | "sz = 2" | "sz = 3" by linarith
  then show ?thesis
    by cases (simp_all add: new_TFramedTransport_def f_write_def tbuf_write_def f_writeSlow_def
        Let_def tio_simps grow [simplified] f_wstore_ok f_winv_def)
qed

context byte_sink
begin

lemma f_flush_frame:
  assumes "f_winv s" and "f_wroom s 0" and "4 < f_wBufSize s" and "inv (f_trans s)"
    and "room (f_trans s) (4 + length (f_payload s) + n)"
  shows "\<exists>u s1. inv u \<and> room u n \<and> f_winv s1 \<and> f_payload s1 = [] \<and> f_trans s1 = f_trans s \<and> wBase s1 = 4 \<and>
    f_wBufSize s1 = f_wBufSize s \<and>
    written u = written (f_trans s) @ (if f_payload s = [] then [] else frame (f_payload s)) \<and>
    f_flush T s = (case t_flush T u of (r, u') \<Rightarrow> (r, s1\<lparr>f_trans := u'\<rparr>))"
proof -
  let ?n = "wBase s - 4"
  let ?w = "splice 0 (be_bytes 4 ?n) (f_wBuf s)"
  have W: "4 \<le> wBase s" "wBase s \<le> length (f_wBuf s)" "wBase s \<le> 2 ^ 31" "4 \<le> length (f_wBuf s)"
    using assms(1,2) by (auto simp: f_winv_def f_wroom_def)
  then have n: "u32 ?n = ?n" "s32 ?n = int ?n" "length (f_payload s) = ?n"
    by (simp_all add: s32_def f_payload_def)
  have frm: "take (4 + ?n) ?w = frame (f_payload s)"
    using W n(3) by (simp add: frame_def splice_def f_payload_def drop_take)
  have st: "f_wstore 0 (be_bytes 4 ?n) s = (Inr (), s\<lparr>f_wBuf := ?w\<rparr>)"
    using W by (simp add: f_wstore_ok)
  show ?thesis
  proof (cases "?n = 0")
    case True
    then have "f_payload s = []" "wBase s = 4" using n W by auto
    moreover have "f_payload (s\<lparr>f_wBuf := ?w\<rparr>) = []"
      using True W by (simp add: f_payload_def)
    ultimately show ?thesis
      using assms True st n W
      by (intro exI [of _ "f_trans s"] exI [of _ "s\<lparr>f_wBuf := ?w\<rparr>"])
        (auto simp: f_flush_def Let_def bindT_def ret_def f_under_def on_part_def f_winv_def
          elim: room_le split: prod.splits)
  next
    case False
    have len: "length (frame (f_payload s)) = 4 + ?n" using n by (simp add: frame_def)
    then have "room (f_trans s) (length (frame (f_payload s)) + n)" using assms(5) n by simp
    from write_ok [OF assms(4) this] obtain u where u: "t_write T (frame (f_payload s)) (f_trans s) = (Inr (), u)"
      "inv u" "written u = written (f_trans s) @ frame (f_payload s)" "room u n" by blast
    let ?s1 = "s\<lparr>f_wBuf := ?w, wBase := 4\<rparr>"
    have "f_winv ?s1" "f_payload ?s1 = []"
      using assms(1) W by (auto simp: f_winv_def f_payload_def)
    moreover have "f_flush T s = (case t_flush T u of (r, u') \<Rightarrow> (r, ?s1\<lparr>f_trans := u'\<rparr>))"
      using False st n W u(1) frm assms(3)
      by (simp add: f_flush_def Let_def bindT_def ret_def modify_def f_under_def on_part_def
          split: prod.splits)
    moreover have "f_payload s \<noteq> []" using False n by auto
    ultimately show ?thesis using u by (intro exI [of _ u] exI [of _ ?s1]) simp
  qed
qed

end

section \<open>Sending and receiving over a memory buffer\<close>

interpretation fmem_source: byte_source "framed_transport mem_transport" "f_rinv mem_inv mem_pending"
  "f_pending mem_pending"
  by (rule mem_full.f_source)

interpretation fmem_sink: byte_sink "framed_transport mem_transport" f_winv f_wroom f_payload
  by (rule f_sink)

text \<open>A client that writes each message in pieces and flushes after it.\<close>

fun send_messages :: "'u ttransport \<Rightarrow> bytes list list \<Rightarrow> ('u framed, unit) tio" where
  "send_messages U [] = ret ()"
| "send_messages U (m # ms) =
     bindT (write_all (framed_transport U) m) (\<lambda>_. bindT (f_flush U) (\<lambda>_. send_messages U ms))"

definition msg_frame :: "bytes list \<Rightarrow> bytes" where
  "msg_frame m = (if concat m = [] then [] else frame (concat m))"

lemma write_all_framed:
  assumes "f_winv s" and "f_payload s = []" and "wBase s = 4" and "length (concat m) < 2 ^ 31 - 4"
  shows "\<exists>t. write_all (framed_transport U) m s = (Inr (), t) \<and> f_winv t \<and>
    f_payload t = concat m \<and> f_wroom t 0 \<and> f_trans t = f_trans s \<and> f_wBufSize s \<le> f_wBufSize t"
proof -
  have "\<exists>t. write_all (framed_transport U) m s = (Inr (), t) \<and> f_winv t \<and>
    f_payload t = f_payload s @ concat m \<and> f_wroom t 0 \<and> f_trans t = f_trans s \<and>
    f_wBufSize s \<le> f_wBufSize t"
    if "f_winv s" "wBase s + length (concat m) \<le> 2 ^ 31" for s :: "'a framed"
    using that
  proof (induction m arbitrary: s)
    case Nil
    then show ?case by (simp add: ret_def f_wroom_def)
  next
    case (Cons b m)
    then have "f_wroom s (length b + length (concat m))" by (simp add: f_wroom_def)
    from f_write_ok [OF Cons.prems(1) this] obtain u where u: "f_write b s = (Inr (), u)" "f_winv u"
        "f_payload u = f_payload s @ b" "wBase u = wBase s + length b" "f_trans u = f_trans s"
        "f_wBufSize s \<le> f_wBufSize u" by blast
    with Cons.IH [OF u(2)] u Cons.prems(2) show ?case
      by (auto simp: bindT_def framed_transport_def)
  qed
  from this [OF assms(1)] assms show ?thesis by simp
qed

lemma f_set_trans:
  "f_winv (s\<lparr>f_trans := u\<rparr>) = f_winv s" "f_payload (s\<lparr>f_trans := u\<rparr>) = f_payload s"
  "wBase (s\<lparr>f_trans := u\<rparr>) = wBase s" "f_wBufSize (s\<lparr>f_trans := u\<rparr>) = f_wBufSize s"
  "f_trans (s\<lparr>f_trans := u\<rparr>) = u"
  by (simp_all add: f_winv_def f_payload_def)

lemma send_messages_ok:
  assumes "f_winv s" and "f_payload s = []" and "wBase s = 4" and "4 < f_wBufSize s"
    and "mem_unread (f_trans s)" and "mem_room (f_trans s) (sum_list (map (\<lambda>m. 4 + length (concat m)) ms))"
    and "\<forall>m \<in> set ms. length (concat m) < 2 ^ 31 - 4"
  shows "\<exists>t. send_messages mem_transport ms s = (Inr (), t) \<and> mem_unread (f_trans t) \<and>
    mem_written (f_trans t) = mem_written (f_trans s) @ concat (map msg_frame ms)"
  using assms
proof (induction ms arbitrary: s)
  case Nil
  then show ?case by (simp add: ret_def)
next
  case (Cons m ms)
  let ?k = "sum_list (map (\<lambda>m. 4 + length (concat m)) ms)"
  obtain t where t: "write_all (framed_transport mem_transport) m s = (Inr (), t)" "f_winv t"
      "f_payload t = concat m" "f_wroom t 0" "f_trans t = f_trans s" "f_wBufSize s \<le> f_wBufSize t"
    using write_all_framed [OF Cons.prems(1-3), of m mem_transport] Cons.prems(7) by auto
  have "mem_room (f_trans t) (4 + length (f_payload t) + ?k)" "mem_unread (f_trans t)"
    using Cons.prems(5,6) t by (simp_all add: add.assoc)
  moreover have "4 < f_wBufSize t" using Cons.prems(4) t(6) by linarith
  ultimately obtain u s1 where u: "mem_unread u" "mem_room u ?k" "f_winv s1" "f_payload s1 = []" "wBase s1 = 4"
      "f_wBufSize s1 = f_wBufSize t" "mem_written u = mem_written (f_trans t) @ msg_frame m"
      "f_flush mem_transport t = (Inr (), s1\<lparr>f_trans := u\<rparr>)"
    using mem_unread_sink.f_flush_frame [OF t(2,4), of ?k] t(3)
    by (auto simp: mem_transport_def base_flush_def ret_def msg_frame_def split: if_splits)
  define s2 where "s2 = s1\<lparr>f_trans := u\<rparr>"
  have s2: "f_winv s2" "f_payload s2 = []" "wBase s2 = 4" "4 < f_wBufSize s2" "f_trans s2 = u"
    using u(3-6) \<open>4 < f_wBufSize t\<close> by (simp_all only: s2_def f_set_trans)
  have "\<exists>t. send_messages mem_transport ms s2 = (Inr (), t) \<and> mem_unread (f_trans t) \<and>
      mem_written (f_trans t) = mem_written (f_trans s2) @ concat (map msg_frame ms)"
    using s2 u(1,2) Cons.prems(7) by (intro Cons.IH) simp_all
  then show ?case using t(1,5) u(7,8) s2(5)
    by (auto simp: bindT_def s2_def [symmetric])
qed

lemma concat_msg_frames:
  "concat (map msg_frame ms) = concat (map frame (filter (\<lambda>f. f \<noteq> []) (map concat ms)))"
  "concat (filter (\<lambda>f. f \<noteq> []) (map concat ms)) = concat (map concat ms)"
  by (induction ms) (simp_all add: msg_frame_def)

lemma new_framed_rinv:
  assumes "new_TFramedTransport u sz = Inr s" and "sz \<le> 2 ^ 31" and "uinv u"
    and "p u = concat (map frame fs)" and "\<forall>f \<in> set fs. frame_ok f"
  shows "f_rinv uinv p s" and "f_pending p s = concat fs"
proof -
  obtain s' where "new_TFramedTransport u sz = Inr s'" "f_trans s' = u"
    "rBase s' = 0" "rBound s' = 0" "f_rBufSize s' = 0" "f_rBuf s' = []" "f_live s'"
    using new_framed_ok [OF assms(2), of u] by blast
  with assms(1) have s: "f_trans s = u" "rBase s = 0" "rBound s = 0" "f_rBufSize s = 0" "f_rBuf s = []" "f_live s"
    by simp_all
  then show "f_rinv uinv p s" using assms by (auto simp: f_rinv_def)
  have "\<forall>f \<in> set fs. length f < 2 ^ 32" using assms(5) by (auto simp: frame_ok_def)
  then show "f_pending p s = concat fs"
    using s assms(4) by (simp add: f_pending_def f_ahead_def unframe_frames)
qed

section \<open>Properties\<close>

text \<open>
  C1: what one TFramedTransport sends, another one receives. Messages are written in pieces of
  any size, flushed one by one into a memory buffer, and read back from it through a second
  framed transport: an exact read returns the next payload bytes, across frame boundaries, and
  fails with END_OF_FILE when too few were sent.
\<close>

theorem framed_round_trip:
  assumes "new_TFramedTransport new_TMemoryBuffer wsz = Inr s" and "4 < wsz" and "wsz \<le> 2 ^ 31"
    and "sum_list (map (\<lambda>m. 4 + length (concat m)) ms) < 2 ^ 31 - 4"
  shows "\<exists>t r. send_messages mem_transport ms s = (Inr (), t) \<and>
    new_TFramedTransport_default (f_trans t) = Inr r \<and>
    fst (f_readAll mem_transport n r) =
      (if n \<le> length (concat (map concat ms)) then Inr (take n (concat (map concat ms)))
       else Inl (TTransportException TE_END_OF_FILE))"
proof -
  obtain s0 where "new_TFramedTransport new_TMemoryBuffer wsz = Inr s0" "f_winv s0" "wBase s0 = 4"
      "f_trans s0 = new_TMemoryBuffer" "f_wBufSize s0 = wsz"
    using new_framed_ok [OF assms(3), of new_TMemoryBuffer] assms(2) by auto
  with assms(1) have s: "f_winv s" "wBase s = 4" "f_trans s = new_TMemoryBuffer" "f_wBufSize s = wsz"
    by simp_all
  have mem: "mem_unread (f_trans s)" "mem_written (f_trans s) = []"
    using new_sized_inv [of 1024] new_sized_fields [of 1024] s(3)
    by (simp_all add: new_TMemoryBuffer_def mem_unread_def mem_written_def)
  have room: "mem_room (f_trans s) (sum_list (map (\<lambda>m. 4 + length (concat m)) ms))"
    using assms(4) s(3) new_sized_fields [of 1024] by (simp add: mem_room_def new_TMemoryBuffer_def)
  have each: "\<forall>m \<in> set ms. length (concat m) < 2 ^ 31 - 4"
  proof
    fix m
    assume "m \<in> set ms"
    then have "4 + length (concat m) \<le> sum_list (map (\<lambda>m. 4 + length (concat m)) ms)"
      by (simp add: member_le_sum_list)
    with assms(4) show "length (concat m) < 2 ^ 31 - 4" by linarith
  qed
  have "f_payload s = []" using s(2) by (simp add: f_payload_def)
  from send_messages_ok [OF s(1) this s(2) _ mem(1) room each] assms(2) s(4) mem(2)
  obtain t where t: "send_messages mem_transport ms s = (Inr (), t)" "mem_unread (f_trans t)"
      "mem_written (f_trans t) = concat (map msg_frame ms)" by auto
  let ?fs = "filter (\<lambda>f. f \<noteq> []) (map concat ms)"
  obtain r where r: "new_TFramedTransport (f_trans t) 512 = Inr r"
    using new_framed_ok [of 512 "f_trans t"] by auto
  have "mem_pending (f_trans t) = concat (map frame ?fs)"
    using t mem_unread_pending concat_msg_frames(1) by simp
  moreover have "mem_inv (f_trans t)" using t(2) by (simp add: mem_unread_def)
  moreover have "\<forall>f \<in> set ?fs. frame_ok f" using each by (fastforce simp: frame_ok_def)
  ultimately have "f_rinv mem_inv mem_pending r" and "f_pending mem_pending r = concat (map concat ms)"
    using new_framed_rinv [OF r, of mem_inv mem_pending ?fs] concat_msg_frames(2) by simp_all
  then show ?thesis
    using mem_full.f_readAll_ok [of r n] mem_full.f_readAll_eof [of r n] t(1) r
    by (cases "n \<le> length (concat (map concat ms))") (auto simp: new_TFramedTransport_default_def)
qed

theorem framed_round_trip_witness:
  "\<exists>t r. send_messages mem_transport [[[1, 2], [3]], [], [[4]]]
       (projr (new_TFramedTransport new_TMemoryBuffer 8)) = (Inr (), t) \<and>
    new_TFramedTransport_default (f_trans t) = Inr r \<and>
    fst (f_readAll mem_transport 4 r) = Inr [1, 2, 3, 4]"
proof -
  have "\<exists>s. new_TFramedTransport new_TMemoryBuffer 8 = Inr s"
    using new_framed_ok [of 8 new_TMemoryBuffer] by auto
  then have "new_TFramedTransport new_TMemoryBuffer 8 =
      Inr (projr (new_TFramedTransport new_TMemoryBuffer 8))" by auto
  from framed_round_trip [OF this, of "[[[1, 2], [3]], [], [[4]]]" 4] show ?thesis by simp
qed

text \<open>
  The slow path of a read when the current frame has a rest and the stream below is at its end:
  the rest is copied into the caller's buffer, and the call returns 0 and consumes nothing.
\<close>

lemma f_readSlow_loses_count:
  assumes "rBase s \<le> rBound s" and "rBound s - rBase s < n" and "rBound s < 2 ^ 32"
    and "rBound s \<le> length (f_rmem s)" and "t_read T 4 (f_trans s) = (Inr [], u)"
  shows "f_readSlow T n s = (Inr [], s\<lparr>f_trans := u\<rparr>)"
proof -
  have "frame_size_loop T [] (f_trans s) = (Inr None, u)"
    using assms(5) by (simp add: frame_size_loop.simps)
  then have "readFrame T s = (Inr False, s\<lparr>f_trans := u\<rparr>)"
    by (simp add: readFrame_def tio_simps)
  moreover have "(if rBound s - rBase s > 0 then load f_rmem (rBase s) (rBound s - rBase s)
      else ret []) s = (Inr (f_ahead s'), s)"
    if "f_ahead s' = slice (rBase s) (rBound s - rBase s) (f_rmem s)" for s' :: "'a framed"
    using assms(1,4) that by (simp add: ret_def)
  ultimately show ?thesis using assms(1-4)
    by (simp add: f_readSlow_def Let_def bindT_def ret_def)
qed

text \<open>The doubling of the write buffer, for a need of more than \<open>2 ^ 31\<close> bytes.\<close>

lemma frame_grow_cycle:
  assumes "frame_grow need ns = Some r"
  shows "2 ^ 31 < need \<longrightarrow> ns \<in> insert 0 ((^) 2 ` {..31}) \<longrightarrow> False"
proof (rule frame_grow.raw_induct [where
      P = "\<lambda>need ns r. 2 ^ 31 < need \<longrightarrow> ns \<in> insert 0 ((^) 2 ` {..31}) \<longrightarrow> False", OF _ assms],
    intro impI)
  fix f need ns r
  assume IH: "\<And>need ns r. f need ns = Some r \<Longrightarrow> 2 ^ 31 < need \<longrightarrow>
      ns \<in> insert 0 ((^) 2 ` {..31}) \<longrightarrow> False"
    and eq: "(if ns < need then f need (if 0 < ns then u32 (ns * 2) else 1) else Some ns) = Some r"
    and big: "2 ^ 31 < need" and ns: "ns \<in> insert 0 ((^) 2 ` {..31})"
  have "ns \<le> 2 ^ 31"
  proof -
    have "(2::nat) ^ k \<le> 2 ^ 31" if "k \<le> 31" for k using that by (intro power_increasing) auto
    with ns show ?thesis by auto
  qed
  with big have "ns < need" by linarith
  moreover have "(if 0 < ns then u32 (ns * 2) else 1) \<in> insert 0 ((^) 2 ` {..31})"
  proof (cases "ns = 0")
    case True
    then show ?thesis by (auto intro!: image_eqI [of _ _ 0])
  next
    case False
    with ns obtain k where k: "k \<le> 31" "ns = 2 ^ k" by auto
    show ?thesis
    proof (cases "k = 31")
      case True
      with k show ?thesis by (simp add: u32_def)
    next
      case False
      with k have "k < 31" by simp
      then have "(2::nat) ^ Suc k < 2 ^ 32" by (intro power_strict_increasing) auto
      then have "u32 (ns * 2) = 2 ^ Suc k" using k by (simp add: mult.commute)
      then show ?thesis using k \<open>k < 31\<close> by (auto intro!: image_eqI [of _ _ "Suc k"])
    qed
  qed
  ultimately show False using eq IH big by metis
qed

lemma frame_grow_diverges: "2 ^ 31 < need \<Longrightarrow> frame_grow need 512 = None"
proof (rule ccontr)
  assume big: "2 ^ 31 < need" and "frame_grow need 512 \<noteq> None"
  then obtain r where "frame_grow need 512 = Some r" by auto
  moreover have "(512 :: nat) \<in> insert 0 ((^) 2 ` {..31})"
    by (auto intro!: image_eqI [of _ _ 9])
  ultimately show False using frame_grow_cycle big by blast
qed

text \<open>A default framed transport that has no room left never returns from such a write.\<close>

lemma framed_write_diverges:
  assumes "new_TFramedTransport_default u = Inr s" and "2 ^ 31 < length bs + 4"
    and "length bs + 4 < 2 ^ 32"
  shows "f_write bs s = (Inl Diverges, s)"
proof -
  obtain s' where "new_TFramedTransport u 512 = Inr s'" "f_winv s'" "wBase s' = 4" "f_wBufSize s' = 512"
    using new_framed_ok [of 512 u] by auto
  with assms(1) have s: "f_winv s" "wBase s = 4" "f_wBufSize s = 512"
    by (simp_all add: new_TFramedTransport_default_def)
  then have "\<not> wBase s + length bs \<le> wBound s" using assms(2) by (simp add: f_winv_def)
  then have "f_write bs s = f_writeSlow bs s" by (simp add: f_write_def tbuf_slow)
  moreover have "frame_grow (length bs + 4) 512 = None" using assms(2) by (rule frame_grow_diverges)
  ultimately show ?thesis using s assms(3) by (simp add: f_writeSlow_def)
qed

end
