(* ===== verification/PipedTransport.thy ===== *)
theory PipedTransport
  imports BufferedTransport
begin

text \<open>
  \<^verbatim>\<open>TPipedTransport\<close> and \<^verbatim>\<open>TNullTransport\<close> (\<^verbatim>\<open>transport/TTransportUtils.{h,cpp}\<close>). The piped
  transport reads ahead from a source and keeps what it hands over, so that \<^verbatim>\<open>readEnd\<close> can
  copy the whole message to a second transport; writes are collected until a flush, and
  \<^verbatim>\<open>writeEnd\<close> can copy them. The two transports below are distinct objects.
\<close>

record ('u, 'd) piped =
  p_src :: 'u
  p_dst :: 'd
  p_rBuf :: bytes
  p_rBufSize :: nat
  p_rPos :: nat
  p_rLen :: nat
  p_wBuf :: bytes
  p_wBufSize :: nat
  p_wLen :: nat
  pipeOnRead :: bool
  pipeOnWrite :: bool

section \<open>Operations\<close>

definition on_src :: "('u, 'a) tio \<Rightarrow> (('u, 'd) piped, 'a) tio" where
  [tio_simps]: "on_src = on_part p_src (\<lambda>u s. s\<lparr>p_src := u\<rparr>)"

definition on_dst :: "('d, 'a) tio \<Rightarrow> (('u, 'd) piped, 'a) tio" where
  [tio_simps]: "on_dst = on_part p_dst (\<lambda>u s. s\<lparr>p_dst := u\<rparr>)"

definition new_TPipedTransport :: "'u \<Rightarrow> 'd \<Rightarrow> ('u, 'd) piped" where
  "new_TPipedTransport src dst =
     \<lparr>p_src = src, p_dst = dst, p_rBuf = replicate 512 0, p_rBufSize = 512, p_rPos = 0, p_rLen = 0,
      p_wBuf = replicate 512 0, p_wBufSize = 512, p_wLen = 0,
      pipeOnRead = True, pipeOnWrite = False\<rparr>"

text \<open>
  The second constructor does not set \<^verbatim>\<open>pipeOnRead_\<close> and \<^verbatim>\<open>pipeOnWrite_\<close>: \<open>pr\<close> and
  \<open>pw\<close> are whatever the memory holds.
\<close>

definition new_TPipedTransport_sized :: "bool \<Rightarrow> bool \<Rightarrow> 'u \<Rightarrow> 'd \<Rightarrow> nat \<Rightarrow> ('u, 'd) piped" where
  "new_TPipedTransport_sized pr pw src dst sz =
     \<lparr>p_src = src, p_dst = dst, p_rBuf = replicate 512 0, p_rBufSize = 512, p_rPos = 0, p_rLen = 0,
      p_wBuf = replicate sz 0, p_wBufSize = sz, p_wLen = 0,
      pipeOnRead = pr, pipeOnWrite = pw\<rparr>"

definition setPipeOnRead :: "bool \<Rightarrow> ('u, 'd) piped \<Rightarrow> ('u, 'd) piped" where
  "setPipeOnRead v s = s\<lparr>pipeOnRead := v\<rparr>"

definition setPipeOnWrite :: "bool \<Rightarrow> ('u, 'd) piped \<Rightarrow> ('u, 'd) piped" where
  "setPipeOnWrite v s = s\<lparr>pipeOnWrite := v\<rparr>"

text \<open>Doubling a full read buffer, and one read from the source into it.\<close>

definition p_grow :: "('u, 'd) piped \<Rightarrow> ('u, 'd) piped" where
  "p_grow s =
     (if p_rLen s = p_rBufSize s
      then s\<lparr>p_rBufSize := u32 (p_rBufSize s * 2), p_rBuf := resize (u32 (p_rBufSize s * 2)) (p_rBuf s)\<rparr>
      else s)"

definition p_rstore :: "nat \<Rightarrow> bytes \<Rightarrow> (('u, 'd) piped, unit) tio" where
  "p_rstore = store p_rBuf (\<lambda>f s. s\<lparr>p_rBuf := f (p_rBuf s)\<rparr>)"

definition p_fill :: "'u ttransport \<Rightarrow> (('u, 'd) piped, unit) tio" where
  "p_fill U =
     bindT (modify p_grow) (\<lambda>_ s.
     bindT (on_src (t_read U (u32_diff (p_rBufSize s) (p_rPos s)))) (\<lambda>bs.
     bindT (p_rstore (p_rPos s) bs) (\<lambda>_.
     modify (\<lambda>s. s\<lparr>p_rLen := u32 (p_rLen s + length bs)\<rparr>))) s)"

definition p_read :: "'u ttransport \<Rightarrow> nat \<Rightarrow> (('u, 'd) piped, bytes) tio" where
  "p_read U len s =
     bindT
       (if u32_diff (p_rLen s) (p_rPos s) < len then
          bindT (if u32_diff (p_rLen s) (p_rPos s) > 0
                 then bindT (load p_rBuf (p_rPos s) (u32_diff (p_rLen s) (p_rPos s))) (\<lambda>front.
                      bindT (modify (\<lambda>s. s\<lparr>p_rPos := p_rLen s\<rparr>)) (\<lambda>_. ret front))
                 else ret []) (\<lambda>front.
          bindT (p_fill U) (\<lambda>_. ret front))
        else ret [])
     (\<lambda>front s.
        let need = len - length front;
            give = min need (u32_diff (p_rLen s) (p_rPos s)) in
        bindT (load p_rBuf (p_rPos s) give) (\<lambda>bs.
        bindT (modify (\<lambda>s. s\<lparr>p_rPos := p_rPos s + give\<rparr>)) (\<lambda>_. ret (front @ bs))) s) s"

definition p_peek :: "'u ttransport \<Rightarrow> (('u, 'd) piped, bool) tio" where
  "p_peek U s =
     bindT (if p_rPos s \<ge> p_rLen s then p_fill U else ret ()) (\<lambda>_. gets (\<lambda>s. p_rLen s > p_rPos s)) s"

text \<open>
  \<^verbatim>\<open>memcpy\<close> within the read buffer: the call is undefined when source and target overlap.
\<close>

definition p_copy_down :: "(('u, 'd) piped, nat) tio" where
  "p_copy_down s =
     (let read_ahead = p_rLen s - p_rPos s in
      if p_rPos s < read_ahead then (Inl UndefinedBehaviour, s)
      else (Inr (p_rPos s),
            s\<lparr>p_rBuf := splice 0 (slice (p_rPos s) read_ahead (p_rBuf s)) (p_rBuf s),
              p_rPos := 0, p_rLen := read_ahead\<rparr>))"

definition p_readEnd :: "'u ttransport \<Rightarrow> 'd ttransport \<Rightarrow> (('u, 'd) piped, nat) tio" where
  "p_readEnd U D s =
     bindT (if pipeOnRead s
            then bindT (load p_rBuf 0 (p_rPos s)) (\<lambda>bs.
                 bindT (on_dst (t_write D bs)) (\<lambda>_. on_dst (t_flush D)))
            else ret ()) (\<lambda>_.
     bindT (on_src (t_readEnd U)) (\<lambda>_. p_copy_down)) s"

partial_function (option) piped_grow :: "nat \<Rightarrow> nat \<Rightarrow> nat option" where
  "piped_grow need newBufSize =
     (if need \<ge> newBufSize then piped_grow need (u32 (newBufSize * 2)) else Some newBufSize)"

definition p_wstore :: "nat \<Rightarrow> bytes \<Rightarrow> (('u, 'd) piped, unit) tio" where
  "p_wstore = store p_wBuf (\<lambda>f s. s\<lparr>p_wBuf := f (p_wBuf s)\<rparr>)"

definition p_write :: "bytes \<Rightarrow> (('u, 'd) piped, unit) tio" where
  "p_write buf s =
     (if buf = [] then (Inr (), s)
      else
        bindT (\<lambda>s. if u32 (length buf + p_wLen s) \<ge> p_wBufSize s
               then (case piped_grow (u32 (length buf + p_wLen s)) (u32 (p_wBufSize s * 2)) of
                       None \<Rightarrow> (Inl Diverges, s)
                     | Some n \<Rightarrow> (Inr (), s\<lparr>p_wBuf := resize n (p_wBuf s), p_wBufSize := n\<rparr>))
               else (Inr (), s)) (\<lambda>_ s.
        bindT (p_wstore (p_wLen s) buf) (\<lambda>_.
        modify (\<lambda>s. s\<lparr>p_wLen := u32 (p_wLen s + length buf)\<rparr>)) s) s)"

definition p_writeEnd :: "'d ttransport \<Rightarrow> (('u, 'd) piped, nat) tio" where
  "p_writeEnd D s =
     bindT (if pipeOnWrite s
            then bindT (load p_wBuf 0 (p_wLen s)) (\<lambda>bs.
                 bindT (on_dst (t_write D bs)) (\<lambda>_. on_dst (t_flush D)))
            else ret ()) (\<lambda>_. gets p_wLen) s"

definition p_flush :: "'u ttransport \<Rightarrow> (('u, 'd) piped, unit) tio" where
  "p_flush U s =
     bindT (if p_wLen s > 0
            then bindT (load p_wBuf 0 (p_wLen s)) (\<lambda>bs.
                 bindT (on_src (t_write U bs)) (\<lambda>_. modify (\<lambda>s. s\<lparr>p_wLen := 0\<rparr>)))
            else ret ()) (\<lambda>_. on_src (t_flush U)) s"

definition piped_transport :: "'u ttransport \<Rightarrow> 'd ttransport \<Rightarrow> ('u, 'd) piped ttransport" where
  "piped_transport U D = \<lparr>
     t_isOpen = (\<lambda>s. t_isOpen U (p_src s)), t_peek = p_peek U,
     t_open = on_src (t_open U), t_close = on_src (t_close U),
     t_read = p_read U, t_readAll = readAll (p_read U), t_readEnd = p_readEnd U D,
     t_write = p_write, t_writeEnd = p_writeEnd D, t_flush = p_flush U,
     t_borrow = base_borrow, t_consume = base_consume\<rparr>"

text \<open>
  \<^verbatim>\<open>TPipedTransportFactory\<close> holds the target transport, which can be set once.
\<close>

definition initializeTargetTransport :: "'d \<Rightarrow> ('d option, unit) tio" where
  "initializeTargetTransport d t = (case t of None \<Rightarrow> (Inr (), Some d) | Some _ \<Rightarrow> (Inl TException, t))"

text \<open>\<^verbatim>\<open>TNullTransport\<close>: always open, accepts every write and has nothing to read.\<close>

definition null_transport :: "'s ttransport" where
  "null_transport = \<lparr>
     t_isOpen = (\<lambda>s. True), t_peek = base_peek (\<lambda>s. True), t_open = ret (), t_close = base_close,
     t_read = base_read, t_readAll = readAll base_read, t_readEnd = base_readEnd,
     t_write = (\<lambda>bs. ret ()), t_writeEnd = base_writeEnd, t_flush = base_flush,
     t_borrow = base_borrow, t_consume = base_consume\<rparr>"

section \<open>The read side\<close>

text \<open>
  What is still to be read, and what has been handed over since the last \<^verbatim>\<open>readEnd\<close>. The
  invariant bounds the data of one message, which the buffer holds until \<^verbatim>\<open>readEnd\<close>.
\<close>

definition p_pending :: "('u \<Rightarrow> bytes) \<Rightarrow> ('u, 'd) piped \<Rightarrow> bytes" where
  "p_pending p s = slice (p_rPos s) (p_rLen s - p_rPos s) (p_rBuf s) @ p (p_src s)"

definition p_consumed :: "('u, 'd) piped \<Rightarrow> bytes" where
  "p_consumed s = take (p_rPos s) (p_rBuf s)"

definition p_rinv :: "('u \<Rightarrow> bool) \<Rightarrow> ('u \<Rightarrow> bytes) \<Rightarrow> ('u, 'd) piped \<Rightarrow> bool" where
  "p_rinv uinv p s \<longleftrightarrow> p_rPos s \<le> p_rLen s \<and> p_rLen s \<le> p_rBufSize s \<and>
     length (p_rBuf s) = p_rBufSize s \<and> 0 < p_rBufSize s \<and> p_rBufSize s < 2 ^ 32 \<and>
     p_rLen s + length (p (p_src s)) < 2 ^ 31 \<and> uinv (p_src s)"

text \<open>A read touches neither the target nor the write side.\<close>

definition same_rest :: "('u, 'd) piped \<Rightarrow> ('u, 'd) piped \<Rightarrow> bool" where
  "same_rest s s' \<longleftrightarrow> p_dst s' = p_dst s \<and> pipeOnRead s' = pipeOnRead s \<and>
     pipeOnWrite s' = pipeOnWrite s \<and> p_wBuf s' = p_wBuf s \<and> p_wLen s' = p_wLen s \<and>
     p_wBufSize s' = p_wBufSize s"

lemma p_rinv_D:
  assumes "p_rinv uinv p s"
  shows "p_rPos s \<le> p_rLen s" "p_rLen s \<le> length (p_rBuf s)" "p_rLen s < 2 ^ 32"
    "u32_diff (p_rLen s) (p_rPos s) = p_rLen s - p_rPos s" "uinv (p_src s)"
  using assms by (auto simp: p_rinv_def)

lemma p_grow_ok:
  assumes "p_rinv uinv p s" and "p_rPos s = p_rLen s"
  shows "p_rinv uinv p (p_grow s)" and "p_consumed (p_grow s) = p_consumed s"
    and "p_rPos (p_grow s) < p_rBufSize (p_grow s)" and "same_rest s (p_grow s)"
    and "p_rPos (p_grow s) = p_rLen (p_grow s)" and "p_src (p_grow s) = p_src s"
proof -
  have "p_rBufSize s * 2 < 2 ^ 32" if "p_rLen s = p_rBufSize s"
    using that assms(1) by (simp add: p_rinv_def)
  then show "p_rinv uinv p (p_grow s)" "p_consumed (p_grow s) = p_consumed s"
    "p_rPos (p_grow s) < p_rBufSize (p_grow s)" "same_rest s (p_grow s)"
    "p_rPos (p_grow s) = p_rLen (p_grow s)" "p_src (p_grow s) = p_src s"
    using assms by (auto simp: p_rinv_def p_grow_def p_consumed_def same_rest_def)
qed

lemma p_advance:
  assumes "p_rinv uinv p s" and "p_rPos s + n \<le> p_rLen s"
  defines "s' \<equiv> s\<lparr>p_rPos := p_rPos s + n\<rparr>" and "bs \<equiv> slice (p_rPos s) n (p_rBuf s)"
  shows "p_rinv uinv p s'" and "p_consumed s' = p_consumed s @ bs" and "length bs = n"
    and "p_pending p s = bs @ p_pending p s'" and "same_rest s s'"
proof -
  show "p_rinv uinv p s'" "same_rest s s'" "length bs = n"
    using assms by (auto simp: p_rinv_def same_rest_def)
  show "p_consumed s' = p_consumed s @ bs"
    by (simp add: p_consumed_def s'_def bs_def slice_def take_add)
  have "p_rLen s - p_rPos s = n + (p_rLen s - (p_rPos s + n))" using assms(2) by simp
  then show "p_pending p s = bs @ p_pending p s'"
    by (metis (no_types, lifting) append_assoc bs_def p_pending_def s'_def slice_append
        piped.select_convs(1,3,5,6) piped.surjective piped.update_convs(5))
qed

lemma same_rest_trans: "same_rest s t \<Longrightarrow> same_rest t u \<Longrightarrow> same_rest s u"
  by (simp add: same_rest_def)


locale message_source = stream_source +
  assumes readEnd_ok: "inv s \<Longrightarrow> \<exists>n s'. t_readEnd T s = (Inr n, s') \<and> inv s' \<and> pending s' = pending s"

context stream_source
begin

lemma p_fill_ok:
  fixes s :: "('a, 'd) piped"
  assumes "p_rinv inv pending s" and "p_rPos s = p_rLen s"
  shows "\<exists>s'. p_fill T s = (Inr (), s') \<and> p_rinv inv pending s' \<and> p_pending pending s' = p_pending pending s \<and>
    p_consumed s' = p_consumed s \<and> same_rest s s' \<and>
    (p_rLen s' = p_rPos s' \<longrightarrow> p_pending pending s = [])"
proof -
  define t where "t = p_grow s"
  note g = p_grow_ok [OF assms, folded t_def]
  note I = p_rinv_D [OF g(1)]
  let ?n = "p_rBufSize t - p_rPos t"
  obtain bs u where rd: "t_read T ?n (p_src t) = (Inr bs, u)" and u: "inv u"
    and split: "pending (p_src t) = bs @ pending u" and le: "length bs \<le> ?n"
    and progress: "pending (p_src t) \<noteq> [] \<longrightarrow> bs \<noteq> []"
    using read_stream [OF I(5), of ?n] g(3) by auto
  define s' where "s' = t\<lparr>p_src := u, p_rBuf := splice (p_rPos t) bs (p_rBuf t), p_rLen := p_rLen t + length bs\<rparr>"
  have B: "p_rBufSize t < 2 ^ 32" "length (p_rBuf t) = p_rBufSize t"
      "p_rLen t + length (pending (p_src t)) < 2 ^ 31"
    using g(1) by (simp_all add: p_rinv_def)
  have "u32_diff (p_rBufSize t) (p_rPos t) = ?n" using g(3) B by simp
  moreover have "u32 (p_rLen t + length bs) = p_rLen t + length bs" using B(3) split by simp
  moreover have fits: "p_rPos t + length bs \<le> length (p_rBuf t)" using le B g(3) by simp
  ultimately have "p_fill T s = (Inr (), s')"
    using rd by (simp add: p_fill_def tio_simps t_def [symmetric] p_rstore_def s'_def)
  moreover have "p_rinv inv pending s'"
    using g(1,5) u split le fits by (auto simp: p_rinv_def s'_def)
  moreover have "p_pending pending s' = p_pending pending s"
  proof -
    have "p_pending pending s = pending (p_src t)" using assms(2) g(6) by (simp add: p_pending_def)
    moreover have "slice (p_rPos t) (length bs) (splice (p_rPos t) bs (p_rBuf t)) = bs"
      using fits by (simp add: slice_def splice_def)
    ultimately show ?thesis using g(5) split by (simp add: p_pending_def s'_def)
  qed
  moreover have "p_consumed s' = p_consumed s"
    using g(2) fits by (simp add: p_consumed_def s'_def take_splice_before)
  moreover have "same_rest s s'"
    using g(4) by (simp add: same_rest_def s'_def)
  moreover have "p_rLen s' = p_rPos s' \<longrightarrow> p_pending pending s = []"
    using g(5,6) progress assms(2) by (auto simp: s'_def p_pending_def)
  ultimately show ?thesis by blast
qed

definition p_read_post :: "nat \<Rightarrow> ('a, 'd) piped \<Rightarrow> bytes \<Rightarrow> ('a, 'd) piped \<Rightarrow> bool" where
  "p_read_post n s bs s' \<longleftrightarrow> p_rinv inv pending s' \<and> p_pending pending s = bs @ p_pending pending s' \<and>
     length bs \<le> n \<and> (0 < n \<longrightarrow> p_pending pending s \<noteq> [] \<longrightarrow> bs \<noteq> []) \<and>
     p_consumed s' = p_consumed s @ bs \<and> same_rest s s'"

lemma p_read_give:
  fixes s t :: "('a, 'd) piped"
  assumes t: "p_rinv inv pending t" "p_consumed t = p_consumed s @ front" "same_rest s t"
    and front: "p_pending pending s = front @ p_pending pending t" "length front \<le> n"
    and progress: "front = [] \<and> p_rLen t = p_rPos t \<longrightarrow> p_pending pending s = []"
    and n: "front = [] \<or> length front < n"
  defines "give \<equiv> min (n - length front) (p_rLen t - p_rPos t)"
  shows "p_read_post n s (front @ slice (p_rPos t) give (p_rBuf t)) (t\<lparr>p_rPos := p_rPos t + give\<rparr>)"
proof -
  have fits: "p_rPos t + give \<le> p_rLen t" using p_rinv_D [OF t(1)] by (simp add: give_def)
  note adv = p_advance [OF t(1) fits]
  let ?bs = "slice (p_rPos t) give (p_rBuf t)"
  have "?bs \<noteq> []" if "0 < n" "p_pending pending s \<noteq> []" "front = []"
    using that progress adv(3) p_rinv_D(1) [OF t(1)] by (auto simp: give_def)
  then show ?thesis
    using adv t front same_rest_trans [OF t(3) adv(5)] by (auto simp: p_read_post_def give_def)
qed

lemma p_read_ok:
  fixes s :: "('a, 'd) piped"
  assumes "p_rinv inv pending s"
  shows "\<exists>bs s'. p_read T n s = (Inr bs, s') \<and> p_read_post n s bs s'"
proof -
  note I = p_rinv_D [OF assms]
  have tail: "(\<lambda>front s. let need = n - length front; give = min need (u32_diff (p_rLen s) (p_rPos s)) in
        bindT (load p_rBuf (p_rPos s) give) (\<lambda>bs.
        bindT (modify (\<lambda>s. s\<lparr>p_rPos := p_rPos s + give\<rparr>)) (\<lambda>_. ret (front @ bs))) s) front t =
      (Inr (front @ slice (p_rPos t) g (p_rBuf t)), t\<lparr>p_rPos := p_rPos t + g\<rparr>)"
    if "p_rinv inv pending t" "g = min (n - length front) (p_rLen t - p_rPos t)"
    for front g and t :: "('a, 'd) piped"
    using that p_rinv_D [OF that(1)] by (simp add: tio_simps Let_def)
  show ?thesis
  proof (cases "p_rLen s - p_rPos s < n")
    case False
    then have "p_read_post n s (slice (p_rPos s) n (p_rBuf s)) (s\<lparr>p_rPos := p_rPos s + n\<rparr>)" if "n \<noteq> 0"
    proof -
      from False that I(1) have "p_rLen s \<noteq> p_rPos s" "min n (p_rLen s - p_rPos s) = n" by auto
      then show ?thesis using p_read_give [of s s "[]" n] assms by (simp add: same_rest_def)
    qed
    moreover have "p_read_post 0 s [] s" if "n = 0"
      using that assms by (simp add: p_read_post_def same_rest_def)
    ultimately show ?thesis
      using False I tail [OF assms refl, of "[]"] by (cases "n = 0") (auto simp: p_read_def tio_simps)
  next
    case True
    define front where "front = slice (p_rPos s) (p_rLen s - p_rPos s) (p_rBuf s)"
    define s1 where "s1 = s\<lparr>p_rPos := p_rLen s\<rparr>"
    have fit: "p_rPos s + (p_rLen s - p_rPos s) \<le> p_rLen s" using I(1) by simp
    have s1_eq: "s1 = s\<lparr>p_rPos := p_rPos s + (p_rLen s - p_rPos s)\<rparr>" using I(1) by (simp add: s1_def)
    note adv = p_advance [OF assms fit, folded s1_eq front_def]
    obtain t where t: "p_fill T s1 = (Inr (), t)" "p_rinv inv pending t" "p_pending pending t = p_pending pending s1"
      "p_consumed t = p_consumed s1" "same_rest s1 t" "p_rLen t = p_rPos t \<longrightarrow> p_pending pending s1 = []"
      using p_fill_ok [OF adv(1)] by (auto simp: s1_def)
    have "(if u32_diff (p_rLen s) (p_rPos s) > 0
           then bindT (load p_rBuf (p_rPos s) (u32_diff (p_rLen s) (p_rPos s))) (\<lambda>front.
                bindT (modify (\<lambda>s. s\<lparr>p_rPos := p_rLen s\<rparr>)) (\<lambda>_. ret front))
           else ret []) s = (Inr front, s1)"
      using I by (auto simp: tio_simps front_def s1_def)
    then have "p_read T n s = (Inr (front @ slice (p_rPos t) (min (n - length front) (p_rLen t - p_rPos t)) (p_rBuf t)),
        t\<lparr>p_rPos := p_rPos t + min (n - length front) (p_rLen t - p_rPos t)\<rparr>)"
      using True I(4) t(1) tail [OF t(2) refl, of front] by (simp add: p_read_def bindT_def ret_def)
    moreover have "p_read_post n s (front @ slice (p_rPos t) (min (n - length front) (p_rLen t - p_rPos t)) (p_rBuf t))
        (t\<lparr>p_rPos := p_rPos t + min (n - length front) (p_rLen t - p_rPos t)\<rparr>)"
      using True adv t same_rest_trans [OF adv(5) t(5)] by (intro p_read_give) auto
    ultimately show ?thesis by blast
  qed
qed

lemma p_stream: "stream_source (piped_transport T D) (p_rinv inv pending) (p_pending pending)"
proof (rule stream_sourceI)
  fix s :: "('a, 'b) piped" and n
  assume "p_rinv inv pending s"
  from p_read_ok [OF this, of n]
  show "\<exists>bs s'. t_read (piped_transport T D) n s = (Inr bs, s') \<and> p_rinv inv pending s' \<and>
      p_pending pending s = bs @ p_pending pending s' \<and> length bs \<le> n \<and>
      (0 < n \<longrightarrow> p_pending pending s \<noteq> [] \<longrightarrow> bs \<noteq> [])"
    by (auto simp: piped_transport_def p_read_post_def)
qed

lemma p_source: "byte_source (piped_transport T D) (p_rinv inv pending) (p_pending pending)"
proof
  fix s :: "('a, 'b) piped" and n
  assume "p_rinv inv pending s"
  then show "\<exists>r s'. t_borrow (piped_transport T D) n s = (Inr r, s') \<and> p_rinv inv pending s' \<and>
      p_pending pending s' = p_pending pending s \<and>
      (\<forall>bs. r = Some bs \<longrightarrow> n \<le> length bs \<and> take (length bs) (p_pending pending s) = bs \<and>
        (\<forall>m \<le> length bs. \<exists>s''. t_consume (piped_transport T D) m s' = (Inr (), s'') \<and>
           p_rinv inv pending s'' \<and> p_pending pending s'' = drop m (p_pending pending s)))"
    by (simp add: piped_transport_def base_borrow_def ret_def)
next
  fix s :: "('a, 'b) piped" and n
  assume "p_rinv inv pending s" "n \<le> length (p_pending pending s)"
  from stream_base.readAll_exact [OF stream_source.axioms(1) [OF p_stream] this, of D]
  show "\<exists>s'. t_readAll (piped_transport T D) n s = (Inr (take n (p_pending pending s)), s') \<and>
      p_rinv inv pending s' \<and> p_pending pending s' = drop n (p_pending pending s)"
    by (simp add: piped_transport_def)
next
  fix s :: "('a, 'b) piped" and n
  assume "p_rinv inv pending s" "length (p_pending pending s) < n"
  from stream_base.readAll_eof_base [OF stream_source.axioms(1) [OF p_stream] this, of D]
  show "\<exists>s'. t_readAll (piped_transport T D) n s = (Inl (TTransportException TE_END_OF_FILE), s') \<and>
      p_rinv inv pending s'"
    by (auto simp: piped_transport_def)
qed

end


section \<open>The end of a message\<close>

text \<open>A client reads the pieces of its message and then ends it.\<close>

fun readAll_each :: "'s ttransport \<Rightarrow> nat list \<Rightarrow> ('s, bytes list) tio" where
  "readAll_each T [] = ret []"
| "readAll_each T (n # ns) = bindT (t_readAll T n) (\<lambda>b. bindT (readAll_each T ns) (\<lambda>bs. ret (b # bs)))"

fun pieces :: "nat list \<Rightarrow> bytes \<Rightarrow> bytes list" where
  "pieces [] bs = []"
| "pieces (n # ns) bs = take n bs # pieces ns (drop n bs)"

context stream_source
begin

text \<open>Relative to a state \<open>s0\<close> in which a message starts: nothing is lost, and nothing else changes.\<close>

definition p_since :: "('a, 'd) piped \<Rightarrow> ('a, 'd) piped \<Rightarrow> bool" where
  "p_since s0 s \<longleftrightarrow> p_rinv inv pending s \<and> same_rest s0 s \<and>
     p_consumed s @ p_pending pending s = p_consumed s0 @ p_pending pending s0"

lemma p_since_base: "stream_base (piped_transport T D) (p_since s0) (p_pending pending)"
proof
  fix s :: "('a, 'b) piped" and n
  assume s: "p_since s0 s"
  then have "p_rinv inv pending s" by (simp add: p_since_def)
  from p_read_ok [OF this, of n] obtain bs s' where rd: "p_read T n s = (Inr bs, s')" "p_read_post n s bs s'" by blast
  then have post: "p_rinv inv pending s'" "p_pending pending s = bs @ p_pending pending s'" "length bs \<le> n"
      "0 < n \<longrightarrow> p_pending pending s \<noteq> [] \<longrightarrow> bs \<noteq> []" "p_consumed s' = p_consumed s @ bs" "same_rest s s'"
    unfolding p_read_post_def by blast+
  have "p_since s0 s'"
    unfolding p_since_def
  proof (intro conjI)
    show "p_rinv inv pending s'" by (rule post(1))
    show "same_rest s0 s'" using s post(6) same_rest_trans unfolding p_since_def by blast
    have "p_consumed s' @ p_pending pending s' = p_consumed s @ p_pending pending s"
      unfolding post(2,5) by (rule append_assoc)
    also have "\<dots> = p_consumed s0 @ p_pending pending s0" using s unfolding p_since_def by blast
    finally show "p_consumed s' @ p_pending pending s' = p_consumed s0 @ p_pending pending s0" .
  qed
  moreover have "0 < n \<longrightarrow> n \<le> length (p_pending pending s) \<longrightarrow> bs \<noteq> []" using post(4) by force
  ultimately show "\<exists>bs s'. t_read (piped_transport T D) n s = (Inr bs, s') \<and> p_since s0 s' \<and>
      p_pending pending s = bs @ p_pending pending s' \<and> length bs \<le> n \<and>
      (0 < n \<longrightarrow> n \<le> length (p_pending pending s) \<longrightarrow> bs \<noteq> [])"
    using rd(1) post(2,3) by (simp add: piped_transport_def)
qed

lemma readAll_each_ok:
  assumes "p_since s0 s" and "sum_list ns \<le> length (p_pending pending s)"
  shows "\<exists>t. readAll_each (piped_transport T D) ns s = (Inr (pieces ns (p_pending pending s)), t) \<and>
    p_since s0 t \<and> p_pending pending t = drop (sum_list ns) (p_pending pending s)"
  using assms
proof (induction ns arbitrary: s)
  case (Cons n ns)
  have "n \<le> length (p_pending pending s)" using Cons.prems(2) by simp
  from stream_base.readAll_exact [OF p_since_base Cons.prems(1) this, of D] obtain u where
    u: "t_readAll (piped_transport T D) n s = (Inr (take n (p_pending pending s)), u)" "p_since s0 u"
      "p_pending pending u = drop n (p_pending pending s)"
    by (auto simp: piped_transport_def)
  have "sum_list ns \<le> length (p_pending pending u)" using Cons.prems(2) u(3) by simp
  from Cons.IH [OF u(2) this] u show ?case by (auto simp: bindT_def ret_def add.commute)
qed (simp add: ret_def)

end

text \<open>
  \<^verbatim>\<open>readEnd\<close> keeps the read-ahead. It needs as many bytes handed over as are read ahead: the
  copy within the buffer must not overlap.
\<close>

lemma p_copy_down_ok:
  assumes "p_rinv uinv p s" and "p_rLen s - p_rPos s \<le> p_rPos s"
  shows "\<exists>t. p_copy_down s = (Inr (p_rPos s), t) \<and> p_rinv uinv p t \<and> p_pending p t = p_pending p s \<and>
    p_consumed t = [] \<and> same_rest s t"
proof -
  note I = p_rinv_D [OF assms(1)]
  let ?n = "p_rLen s - p_rPos s"
  let ?t = "s\<lparr>p_rBuf := splice 0 (slice (p_rPos s) ?n (p_rBuf s)) (p_rBuf s), p_rPos := 0, p_rLen := ?n\<rparr>"
  have len: "length (slice (p_rPos s) ?n (p_rBuf s)) = ?n" using I by simp
  have fits: "?n \<le> length (p_rBuf s)" using I by linarith
  have "p_rinv uinv p ?t" using assms(1) len fits by (auto simp: p_rinv_def)
  moreover have "p_pending p ?t = p_pending p s"
    using len fits by (simp add: p_pending_def splice_def)
  moreover have "p_copy_down s = (Inr (p_rPos s), ?t)"
    using assms(2) by (simp add: p_copy_down_def Let_def)
  ultimately show ?thesis by (auto simp: p_consumed_def same_rest_def)
qed

lemma p_copy_down_overlap:
  "p_rPos s < p_rLen s - p_rPos s \<Longrightarrow> p_copy_down s = (Inl UndefinedBehaviour, s)"
  by (simp add: p_copy_down_def)

context message_source
begin

lemma p_readEnd_copies:
  fixes s :: "('a, mem_buffer) piped"
  assumes "p_rinv inv pending s" and "pipeOnRead s"
    and "mem_unread (p_dst s)" and "mem_room (p_dst s) (p_rPos s)"
  shows "\<exists>u. p_readEnd T mem_transport s = p_copy_down u \<and> p_rinv inv pending u \<and>
    p_rPos u = p_rPos s \<and> p_rLen u = p_rLen s \<and> p_pending pending u = p_pending pending s \<and>
    mem_written (p_dst u) = mem_written (p_dst s) @ p_consumed s"
proof -
  note I = p_rinv_D [OF assms(1)]
  have len: "length (p_consumed s) = p_rPos s" using I by (simp add: p_consumed_def)
  then have "mem_room (p_dst s) (length (p_consumed s) + 0)" using assms(4) by simp
  from mem_unread_sink.write_ok [OF assms(3) this] obtain d where d: "mem_write (p_consumed s) (p_dst s) = (Inr (), d)"
      "mem_written d = mem_written (p_dst s) @ p_consumed s"
    by (auto simp: mem_transport_def)
  from readEnd_ok [OF I(5)] obtain n v where v: "t_readEnd T (p_src s) = (Inr n, v)" "inv v"
      "pending v = pending (p_src s)" by blast
  define u where "u = s\<lparr>p_dst := d, p_src := v\<rparr>"
  have "p_readEnd T mem_transport s = p_copy_down u"
    using assms(2) d(1) v(1) I
    by (simp add: p_readEnd_def tio_simps mem_transport_def base_flush_def p_consumed_def u_def)
  moreover have "p_rinv inv pending u" "p_pending pending u = p_pending pending s"
    using assms(1) v by (simp_all add: u_def p_rinv_def p_pending_def)
  ultimately show ?thesis using d by (intro exI [of _ u]) (simp add: u_def)
qed

end

lemma mem_readEnd_keeps:
  "mem_inv s \<Longrightarrow> \<exists>n s'. t_readEnd mem_transport s = (Inr n, s') \<and> mem_inv s' \<and> mem_pending s' = mem_pending s"
  using mem_resetBuffer_inv [of s] length_mem_pending [of s]
  by (auto simp: mem_transport_def mem_readEnd_def mem_resetBuffer_def mem_pending_def Let_def)

interpretation mem_message: message_source mem_transport mem_inv mem_pending
  by unfold_locales (rule mem_readEnd_keeps)


section \<open>The write side\<close>

lemma piped_grow_ok:
  assumes "need < 2 ^ 31" and "0 < n" and "n < 2 ^ 32"
  shows "\<exists>r. piped_grow need n = Some r \<and> need < r \<and> n \<le> r \<and> r < 2 ^ 32"
  using assms
proof (induction "2 ^ 32 - n" arbitrary: n rule: less_induct)
  case less
  show ?case
  proof (cases "need \<ge> n")
    case False
    with less.prems show ?thesis by (subst piped_grow.simps) auto
  next
    case True
    then have small: "u32 (n * 2) = n * 2" "n * 2 < 2 ^ 32" using less.prems by simp_all
    with True less.prems have "\<exists>r. piped_grow need (n * 2) = Some r \<and> need < r \<and> n * 2 \<le> r \<and> r < 2 ^ 32"
      by (intro less.hyps) auto
    then show ?thesis using True small by (subst piped_grow.simps) auto
  qed
qed

text \<open>A size of 0, which the second constructor allows, stays 0 when it is doubled.\<close>

lemma piped_grow_stuck:
  assumes "piped_grow need n = Some r"
  shows "n = 0 \<longrightarrow> False"
proof (rule piped_grow.raw_induct [where P = "\<lambda>need n r. n = 0 \<longrightarrow> False", OF _ assms], rule impI)
  fix f need and n r :: nat
  assume "\<And>need n r. f need n = Some r \<Longrightarrow> n = 0 \<longrightarrow> False"
    and "(if n \<le> need then f need (u32 (n * 2)) else Some n) = Some r" and "n = 0"
  then show False by (metis le0 mult_zero_left u32_def mod_0)
qed

lemma piped_grow_zero: "piped_grow need 0 = None"
  using piped_grow_stuck by (cases "piped_grow need 0") auto

lemma piped_write_zero_diverges:
  "p_wBufSize s = 0 \<Longrightarrow> bs \<noteq> [] \<Longrightarrow> p_write bs s = (Inl Diverges, s)"
  by (simp add: p_write_def bindT_def piped_grow_zero)

definition p_collected :: "('u, 'd) piped \<Rightarrow> bytes" where
  "p_collected s = take (p_wLen s) (p_wBuf s)"

definition p_winv :: "('u \<Rightarrow> bool) \<Rightarrow> ('u, 'd) piped \<Rightarrow> bool" where
  "p_winv uinv s \<longleftrightarrow> p_wLen s \<le> p_wBufSize s \<and> length (p_wBuf s) = p_wBufSize s \<and>
     0 < p_wBufSize s \<and> p_wBufSize s < 2 ^ 32 \<and> uinv (p_src s)"

definition p_room :: "('u \<Rightarrow> nat \<Rightarrow> bool) \<Rightarrow> ('u, 'd) piped \<Rightarrow> nat \<Rightarrow> bool" where
  "p_room uroom s n \<longleftrightarrow> p_wLen s + n < 2 ^ 31 \<and> uroom (p_src s) (p_wLen s + n)"

definition p_written :: "('u \<Rightarrow> bytes) \<Rightarrow> ('u, 'd) piped \<Rightarrow> bytes" where
  "p_written w s = w (p_src s) @ p_collected s"

lemma p_append:
  assumes "p_winv uinv s" and "p_wLen s + length bs \<le> p_wBufSize s" and "p_wLen s + length bs < 2 ^ 32"
  shows "\<exists>t. (bindT (p_wstore (p_wLen s) bs)
      (\<lambda>_. modify (\<lambda>s. s\<lparr>p_wLen := u32 (p_wLen s + length bs)\<rparr>))) s = (Inr (), t) \<and> p_winv uinv t \<and>
    p_collected t = p_collected s @ bs \<and> p_wLen t = p_wLen s + length bs \<and> p_src t = p_src s \<and>
    p_dst t = p_dst s \<and> pipeOnWrite t = pipeOnWrite s"
  using assms by (auto simp: p_wstore_def tio_simps p_winv_def p_collected_def take_splice)

lemma p_write_ok:
  assumes "p_winv uinv s" and "p_wLen s + length bs < 2 ^ 31"
  shows "\<exists>t. p_write bs s = (Inr (), t) \<and> p_winv uinv t \<and> p_collected t = p_collected s @ bs \<and>
    p_wLen t = p_wLen s + length bs \<and> p_src t = p_src s \<and> p_dst t = p_dst s \<and>
    pipeOnWrite t = pipeOnWrite s"
proof (cases "bs = []")
  case True
  with assms show ?thesis by (simp add: p_write_def)
next
  case False
  let ?need = "length bs + p_wLen s"
  have need: "u32 ?need = ?need" "?need < 2 ^ 31" using assms(2) by simp_all
  show ?thesis
  proof (cases "?need \<ge> p_wBufSize s")
    case small: False
    then have "p_write bs s = (bindT (p_wstore (p_wLen s) bs)
        (\<lambda>_. modify (\<lambda>s. s\<lparr>p_wLen := u32 (p_wLen s + length bs)\<rparr>))) s"
      using False need by (simp add: p_write_def bindT_def)
    with p_append [OF assms(1), of bs] small assms(2) show ?thesis by auto
  next
    case True
    have "p_wBufSize s < 2 ^ 31" "0 < p_wBufSize s" using True need assms(1) by (auto simp: p_winv_def)
    then have "0 < u32 (p_wBufSize s * 2)" "u32 (p_wBufSize s * 2) < 2 ^ 32" by simp_all
    from piped_grow_ok [OF need(2) this] obtain r where r: "piped_grow ?need (u32 (p_wBufSize s * 2)) = Some r"
        "?need < r" "r < 2 ^ 32" by blast
    let ?t = "s\<lparr>p_wBuf := resize r (p_wBuf s), p_wBufSize := r\<rparr>"
    have t: "p_winv uinv ?t" "p_collected ?t = p_collected s" "p_wLen ?t + length bs \<le> p_wBufSize ?t"
        "p_wLen ?t + length bs < 2 ^ 32"
      using assms r(2,3) by (auto simp: p_winv_def p_collected_def)
    have "p_write bs s = (bindT (p_wstore (p_wLen ?t) bs)
        (\<lambda>_. modify (\<lambda>s. s\<lparr>p_wLen := u32 (p_wLen s + length bs)\<rparr>))) ?t"
      using False need True r(1) by (simp add: p_write_def bindT_def)
    with p_append [OF t(1,3,4)] t(2) show ?thesis by auto
  qed
qed

context byte_sink
begin

lemma p_sink: "byte_sink (piped_transport T D) (p_winv inv) (p_room room) (p_written written)"
proof
  fix s :: "('s, 'a) piped" and n m
  assume "p_room room s n" and "m \<le> n"
  then show "p_room room s m" by (auto simp: p_room_def elim: room_le)
next
  fix s :: "('s, 'a) piped" and bs :: bytes and n
  assume "p_winv inv s" and "p_room room s (length bs + n)"
  with p_write_ok [OF \<open>p_winv inv s\<close>, of bs]
  show "\<exists>s'. t_write (piped_transport T D) bs s = (Inr (), s') \<and> p_winv inv s' \<and>
      p_written written s' = p_written written s @ bs \<and> p_room room s' n"
    by (auto simp: piped_transport_def p_room_def p_written_def add.assoc)
qed

lemma p_flush_ok:
  fixes s :: "('s, 'd) piped"
  assumes "p_winv inv s" and "p_room room s n"
  shows "\<exists>u. inv u \<and> written u = p_written written s \<and> room u n \<and>
    p_flush T s = (case t_flush T u of (r, u') \<Rightarrow> (r, s\<lparr>p_wLen := 0, p_src := u'\<rparr>))"
proof (cases "p_wLen s = 0")
  case True
  with assms show ?thesis
    by (intro exI [of _ "p_src s"])
      (auto simp: p_flush_def tio_simps p_written_def p_collected_def p_room_def p_winv_def split: prod.splits)
next
  case False
  have len: "length (p_collected s) = p_wLen s" using assms(1) by (simp add: p_winv_def p_collected_def)
  then have "room (p_src s) (length (p_collected s) + n)" "inv (p_src s)"
    using assms by (simp_all add: p_room_def p_winv_def)
  from write_ok [OF this(2,1)] obtain u where "t_write T (p_collected s) (p_src s) = (Inr (), u)"
    "inv u" "written u = written (p_src s) @ p_collected s" "room u n" by blast
  with False assms(1) show ?thesis
    by (intro exI [of _ u])
      (simp add: p_flush_def tio_simps p_written_def p_collected_def p_winv_def split: prod.splits)
qed

end

interpretation piped_mem_stream: stream_source "piped_transport mem_transport D" "p_rinv mem_inv mem_pending"
  "p_pending mem_pending"
  by (rule mem_stream.p_stream)

interpretation piped_mem_source: byte_source "piped_transport mem_transport D" "p_rinv mem_inv mem_pending"
  "p_pending mem_pending"
  by (rule mem_stream.p_source)

interpretation piped_mem_sink: byte_sink "piped_transport mem_transport D" "p_winv mem_inv" "p_room mem_room"
  "p_written mem_written"
  by (rule mem_sink.p_sink)

section \<open>Properties\<close>

text \<open>
  C20: TPipedTransport tees what is read. Over any source that delivers a stream in pieces, the
  \<^verbatim>\<open>readAll\<close> calls of a message return its bytes piece by piece, and the \<^verbatim>\<open>readEnd\<close> after them
  appends exactly these bytes to the target transport. If at most as many bytes as the message had
  were read ahead, \<^verbatim>\<open>readEnd\<close> returns its size, keeps the read-ahead for the next message and
  starts that with nothing handed over; if more were read ahead, its \<^verbatim>\<open>memcpy\<close> within the buffer
  overlaps and is undefined.
\<close>

theorem piped_transport_tees_reads:
  assumes "message_source U uinv pending" and "p_rinv uinv pending s" and "p_consumed s = []"
    and "pipeOnRead s" and "mem_unread (p_dst s)" and "mem_room (p_dst s) (sum_list ns)"
    and "sum_list ns \<le> length (p_pending pending s)"
  shows "\<exists>t r t'. readAll_each (piped_transport U mem_transport) ns s = (Inr (pieces ns (p_pending pending s)), t) \<and>
    p_rinv uinv pending t \<and> p_pending pending t = drop (sum_list ns) (p_pending pending s) \<and>
    p_readEnd U mem_transport t = (r, t') \<and>
    mem_written (p_dst t') = mem_written (p_dst s) @ take (sum_list ns) (p_pending pending s) \<and>
    (if p_rLen t - p_rPos t \<le> sum_list ns
     then r = Inr (sum_list ns) \<and> p_pending pending t' = p_pending pending t \<and> p_consumed t' = [] \<and>
       p_rinv uinv pending t'
     else r = Inl UndefinedBehaviour)"
proof -
  note src = message_source.axioms(1) [OF assms(1)]
  have "stream_source.p_since uinv pending s s"
    using assms(2) by (simp add: stream_source.p_since_def [OF src] same_rest_def)
  from stream_source.readAll_each_ok [OF src this assms(7), of mem_transport] obtain t where
    t: "readAll_each (piped_transport U mem_transport) ns s = (Inr (pieces ns (p_pending pending s)), t)"
      "p_rinv uinv pending t" "same_rest s t" "p_consumed t @ p_pending pending t = p_pending pending s"
      "p_pending pending t = drop (sum_list ns) (p_pending pending s)"
    using assms(3) by (auto simp: stream_source.p_since_def [OF src])
  have got: "p_consumed t = take (sum_list ns) (p_pending pending s)"
    using t(4,5) by (metis append_same_eq append_take_drop_id)
  moreover have "p_rPos t = length (p_consumed t)" using p_rinv_D [OF t(2)] by (simp add: p_consumed_def)
  ultimately have pos: "p_rPos t = sum_list ns" using assms(7) by simp
  have dst: "pipeOnRead t" "mem_unread (p_dst t)" "mem_room (p_dst t) (p_rPos t)" "p_dst t = p_dst s"
    using t(3) assms(4-6) pos by (simp_all add: same_rest_def)
  from message_source.p_readEnd_copies [OF assms(1) t(2) dst(1-3)] obtain u where
    u: "p_readEnd U mem_transport t = p_copy_down u" "p_rinv uinv pending u" "p_rPos u = p_rPos t" "p_rLen u = p_rLen t"
      "p_pending pending u = p_pending pending t" "mem_written (p_dst u) = mem_written (p_dst t) @ p_consumed t"
    by blast
  show ?thesis
  proof (cases "p_rLen t - p_rPos t \<le> sum_list ns")
    case True
    then have "p_rLen u - p_rPos u \<le> p_rPos u" using u pos by simp
    from p_copy_down_ok [OF u(2) this] t u dst(4) got pos True show ?thesis by (auto simp: same_rest_def)
  next
    case False
    then have "p_copy_down u = (Inl UndefinedBehaviour, u)" using u pos by (intro p_copy_down_overlap) simp
    with t u dst(4) got False show ?thesis by auto
  qed
qed

theorem piped_transport_tees_reads_witness:
  "\<exists>m t t'. new_TMemoryBuffer_from (Some [1, 2, 3, 4, 5]) 5 TAKE_OWNERSHIP = Inr m \<and>
    readAll_each (piped_transport mem_transport mem_transport) [2, 2]
      (new_TPipedTransport m new_TMemoryBuffer) = (Inr [[1, 2], [3, 4]], t) \<and>
    p_readEnd mem_transport mem_transport t = (Inr 4, t') \<and>
    mem_written (p_dst t') = [1, 2, 3, 4] \<and> p_pending mem_pending t' = [5] \<and> p_consumed t' = []"
proof -
  obtain m where m: "new_TMemoryBuffer_from (Some [1, 2, 3, 4, 5]) 5 TAKE_OWNERSHIP = Inr m"
      "mem_inv m" "mem_pending m = [1, 2, 3, 4, 5]"
    using new_from_ok [of "[1, 2, 3, 4, 5]" 5] by auto
  let ?s = "new_TPipedTransport m new_TMemoryBuffer"
  have s: "p_rinv mem_inv mem_pending ?s" "p_consumed ?s = []" "pipeOnRead ?s" "p_dst ?s = new_TMemoryBuffer"
      "p_pending mem_pending ?s = [1, 2, 3, 4, 5]"
    using m by (simp_all add: p_rinv_def p_consumed_def p_pending_def new_TPipedTransport_def)
  have d: "mem_unread new_TMemoryBuffer" "mem_room new_TMemoryBuffer 4" "mem_written new_TMemoryBuffer = []"
    using new_sized_inv [of 1024] new_sized_fields [of 1024]
    by (simp_all add: new_TMemoryBuffer_def mem_unread_def mem_written_def mem_room_def)
  from piped_transport_tees_reads [OF mem_message.message_source_axioms s(1-3), of "[2, 2]"] s(4,5) d
  obtain t r t' where t: "readAll_each (piped_transport mem_transport mem_transport) [2, 2] ?s = (Inr [[1, 2], [3, 4]], t)"
      "p_rinv mem_inv mem_pending t" "p_pending mem_pending t = [5]" "p_readEnd mem_transport mem_transport t = (r, t')"
      "mem_written (p_dst t') = [1, 2, 3, 4]"
      "if p_rLen t - p_rPos t \<le> 4 then r = Inr 4 \<and> p_pending mem_pending t' = p_pending mem_pending t \<and>
         p_consumed t' = [] \<and> p_rinv mem_inv mem_pending t' else r = Inl UndefinedBehaviour"
    by (auto simp: numeral_eq_Suc)
  have "p_rLen t - p_rPos t \<le> length (p_pending mem_pending t)"
    using p_rinv_D [OF t(2)] by (simp add: p_pending_def)
  then have "p_rLen t - p_rPos t \<le> 4" using t(3) by simp
  with t m(1) show ?thesis by auto
qed

end
