(* ===== verification/Protocol.thy ===== *)
theory Protocol
  imports Transport
begin

text \<open>
  The abstract protocol of \<^verbatim>\<open>lib/cpp/src/protocol/TProtocol.h\<close>: the wire types, the class as
  a table of its virtual functions over an object state \<open>'s\<close>, and the generic \<^verbatim>\<open>skip\<close>.

  Every function of a protocol returns the number of bytes it read or wrote next to its output
  parameters: \<open>('s, 'a) pio\<close>, with the accumulation \<^verbatim>\<open>result += f(...)\<close> as the sequencing
  \<open>bindC\<close>.
\<close>

section \<open>Types on the wire\<close>

text \<open>
  \<^verbatim>\<open>TType\<close> and \<^verbatim>\<open>TMessageType\<close>. A cast from a byte of the wire can give a value that the
  enumeration does not name.
\<close>

datatype ttype =
    T_STOP | T_VOID | T_BOOL | T_BYTE | T_DOUBLE | T_I16 | T_I32 | T_U64 | T_I64 | T_STRING
  | T_STRUCT | T_MAP | T_SET | T_LIST | T_UTF8 | T_UTF16 | T_OTHER u8

fun ttype_code :: "ttype \<Rightarrow> u8" where
  "ttype_code T_STOP = 0"
| "ttype_code T_VOID = 1"
| "ttype_code T_BOOL = 2"
| "ttype_code T_BYTE = 3"
| "ttype_code T_DOUBLE = 4"
| "ttype_code T_I16 = 6"
| "ttype_code T_I32 = 8"
| "ttype_code T_U64 = 9"
| "ttype_code T_I64 = 10"
| "ttype_code T_STRING = 11"
| "ttype_code T_STRUCT = 12"
| "ttype_code T_MAP = 13"
| "ttype_code T_SET = 14"
| "ttype_code T_LIST = 15"
| "ttype_code T_UTF8 = 16"
| "ttype_code T_UTF16 = 17"
| "ttype_code (T_OTHER b) = b"

definition named_ttypes :: "ttype list" where
  "named_ttypes =
     [T_STOP, T_VOID, T_BOOL, T_BYTE, T_DOUBLE, T_I16, T_I32, T_U64, T_I64, T_STRING, T_STRUCT,
      T_MAP, T_SET, T_LIST, T_UTF8, T_UTF16]"

definition ttype_of :: "u8 \<Rightarrow> ttype" where
  "ttype_of b =
     (case find (\<lambda>t. ttype_code t = b) named_ttypes of Some t \<Rightarrow> t | None \<Rightarrow> T_OTHER b)"

datatype tmessage_type = T_CALL | T_REPLY | T_EXCEPTION | T_ONEWAY | T_MESSAGE_OTHER i32

fun msg_code :: "tmessage_type \<Rightarrow> i32" where
  "msg_code T_CALL = 1"
| "msg_code T_REPLY = 2"
| "msg_code T_EXCEPTION = 3"
| "msg_code T_ONEWAY = 4"
| "msg_code (T_MESSAGE_OTHER w) = w"

definition msg_of :: "i32 \<Rightarrow> tmessage_type" where
  "msg_of w =
     (if w = 1 then T_CALL else if w = 2 then T_REPLY else if w = 3 then T_EXCEPTION
      else if w = 4 then T_ONEWAY else T_MESSAGE_OTHER w)"

text \<open>The types whose values carry data: those a writer can put in fields and containers.\<close>

fun data_type :: "ttype \<Rightarrow> bool" where
  "data_type T_STOP = False"
| "data_type T_VOID = False"
| "data_type T_U64 = False"
| "data_type T_UTF8 = False"
| "data_type T_UTF16 = False"
| "data_type (T_OTHER b) = False"
| "data_type t = True"

lemma ttype_of_code [simp]: "data_type t \<or> t = T_STOP \<Longrightarrow> ttype_of (ttype_code t) = t"
  by (cases t) (auto simp: ttype_of_def named_ttypes_def)

lemma ttype_code_0: "ttype_code t = 0 \<Longrightarrow> data_type t \<Longrightarrow> False"
  by (cases t) auto

definition named_message :: "tmessage_type \<Rightarrow> bool" where
  "named_message t \<longleftrightarrow> t \<in> {T_CALL, T_REPLY, T_EXCEPTION, T_ONEWAY}"

lemma msg_of_code [simp]: "named_message t \<Longrightarrow> msg_of (msg_code t) = t"
  by (auto simp: named_message_def msg_of_def)

section \<open>Counted results\<close>

type_synonym ('s, 'a) pio = "('s, nat \<times> 'a) tio"

definition retC :: "'a \<Rightarrow> ('s, 'a) pio" where
  [tio_simps]: "retC x = ret (0, x)"

definition bindC :: "('s, 'a) pio \<Rightarrow> ('a \<Rightarrow> ('s, 'b) pio) \<Rightarrow> ('s, 'b) pio" where
  "bindC m f = bindT m (\<lambda>(a, x). bindT (f x) (\<lambda>(b, y). ret (u32 (a + b), y)))"

text \<open>An action of the transport that counts \<open>n\<close> bytes.\<close>

definition countC :: "nat \<Rightarrow> ('s, 'a) tio \<Rightarrow> ('s, 'a) pio" where
  "countC n m = bindT m (\<lambda>x. ret (n, x))"

lemma u32_add: "u32 (u32 a + b) = u32 (a + b)" "u32 (a + u32 b) = u32 (a + b)"
  by (simp_all add: u32_def mod_simps)

lemma bindC_ok:
  assumes "m s = (Inr (a, x), s1)" and "f x s1 = (Inr (b, y), s2)"
  shows "bindC m f s = (Inr (u32 (a + b), y), s2)"
  using assms by (simp add: bindC_def bindT_def ret_def)

lemma bindC_exc: "m s = (Inl e, s1) \<Longrightarrow> bindC m f s = (Inl e, s1)"
  by (simp add: bindC_def bindT_def)

lemma bindC_exc2: "m s = (Inr (a, x), s1) \<Longrightarrow> f x s1 = (Inl e, s2) \<Longrightarrow> bindC m f s = (Inl e, s2)"
  by (simp add: bindC_def bindT_def)

lemma bindC_retC_left: "bindC (retC x) f s = (case f x s of (Inl e, s') \<Rightarrow> (Inl e, s')
    | (Inr (b, y), s') \<Rightarrow> (Inr (u32 b, y), s'))"
  by (simp add: bindC_def retC_def ret_def bindT_def split: prod.splits sum.splits)

section \<open>The virtual functions of TProtocol\<close>

text \<open>
  The bits of a \<^verbatim>\<open>double\<close> are its value (\<^verbatim>\<open>bitwise_cast\<close>). The begin-functions of the
  reader return their output parameters as a tuple.
\<close>

record 's tprotocol =
  writeMessageBegin_virt :: "bytes \<Rightarrow> tmessage_type \<Rightarrow> i32 \<Rightarrow> ('s, unit) pio"
  writeMessageEnd_virt :: "('s, unit) pio"
  writeStructBegin_virt :: "bytes \<Rightarrow> ('s, unit) pio"
  writeStructEnd_virt :: "('s, unit) pio"
  writeFieldBegin_virt :: "bytes \<Rightarrow> ttype \<Rightarrow> i16 \<Rightarrow> ('s, unit) pio"
  writeFieldEnd_virt :: "('s, unit) pio"
  writeFieldStop_virt :: "('s, unit) pio"
  writeMapBegin_virt :: "ttype \<Rightarrow> ttype \<Rightarrow> nat \<Rightarrow> ('s, unit) pio"
  writeMapEnd_virt :: "('s, unit) pio"
  writeListBegin_virt :: "ttype \<Rightarrow> nat \<Rightarrow> ('s, unit) pio"
  writeListEnd_virt :: "('s, unit) pio"
  writeSetBegin_virt :: "ttype \<Rightarrow> nat \<Rightarrow> ('s, unit) pio"
  writeSetEnd_virt :: "('s, unit) pio"
  writeBool_virt :: "bool \<Rightarrow> ('s, unit) pio"
  writeByte_virt :: "u8 \<Rightarrow> ('s, unit) pio"
  writeI16_virt :: "i16 \<Rightarrow> ('s, unit) pio"
  writeI32_virt :: "i32 \<Rightarrow> ('s, unit) pio"
  writeI64_virt :: "i64 \<Rightarrow> ('s, unit) pio"
  writeDouble_virt :: "i64 \<Rightarrow> ('s, unit) pio"
  writeString_virt :: "bytes \<Rightarrow> ('s, unit) pio"
  writeBinary_virt :: "bytes \<Rightarrow> ('s, unit) pio"
  readMessageBegin_virt :: "('s, bytes \<times> tmessage_type \<times> i32) pio"
  readMessageEnd_virt :: "('s, unit) pio"
  readStructBegin_virt :: "('s, bytes) pio"
  readStructEnd_virt :: "('s, unit) pio"
  readFieldBegin_virt :: "('s, bytes \<times> ttype \<times> i16) pio"
  readFieldEnd_virt :: "('s, unit) pio"
  readMapBegin_virt :: "('s, ttype \<times> ttype \<times> nat) pio"
  readMapEnd_virt :: "('s, unit) pio"
  readListBegin_virt :: "('s, ttype \<times> nat) pio"
  readListEnd_virt :: "('s, unit) pio"
  readSetBegin_virt :: "('s, ttype \<times> nat) pio"
  readSetEnd_virt :: "('s, unit) pio"
  readBool_virt :: "('s, bool) pio"
  readByte_virt :: "('s, u8) pio"
  readI16_virt :: "('s, i16) pio"
  readI32_virt :: "('s, i32) pio"
  readI64_virt :: "('s, i64) pio"
  readDouble_virt :: "('s, i64) pio"
  readString_virt :: "('s, bytes) pio"
  readBinary_virt :: "('s, bytes) pio"

section \<open>Skipping a value\<close>

text \<open>
  The generic \<^verbatim>\<open>skip\<close>, with its field loop and its element loops as functions of their own.
  The first argument is fuel, used up by each call and each turn of a loop; without any the
  result is \<open>Diverges\<close>.
\<close>

fun skip :: "nat \<Rightarrow> 's tprotocol \<Rightarrow> ttype \<Rightarrow> ('s, unit) pio"
  and skip_fields :: "nat \<Rightarrow> 's tprotocol \<Rightarrow> ('s, unit) pio"
  and skip_elems :: "nat \<Rightarrow> 's tprotocol \<Rightarrow> ttype \<Rightarrow> nat \<Rightarrow> ('s, unit) pio"
  and skip_pairs :: "nat \<Rightarrow> 's tprotocol \<Rightarrow> ttype \<Rightarrow> ttype \<Rightarrow> nat \<Rightarrow> ('s, unit) pio" where
  "skip 0 P type = throw Diverges"
| "skip (Suc k) P type =
     (case type of
        T_BOOL \<Rightarrow> bindC (readBool_virt P) (\<lambda>_. retC ())
      | T_BYTE \<Rightarrow> bindC (readByte_virt P) (\<lambda>_. retC ())
      | T_I16 \<Rightarrow> bindC (readI16_virt P) (\<lambda>_. retC ())
      | T_I32 \<Rightarrow> bindC (readI32_virt P) (\<lambda>_. retC ())
      | T_I64 \<Rightarrow> bindC (readI64_virt P) (\<lambda>_. retC ())
      | T_DOUBLE \<Rightarrow> bindC (readDouble_virt P) (\<lambda>_. retC ())
      | T_STRING \<Rightarrow> bindC (readBinary_virt P) (\<lambda>_. retC ())
      | T_STRUCT \<Rightarrow>
          bindC (readStructBegin_virt P) (\<lambda>name.
          bindC (skip_fields k P) (\<lambda>_. readStructEnd_virt P))
      | T_MAP \<Rightarrow>
          bindC (readMapBegin_virt P) (\<lambda>(keyType, valType, sz).
          bindC (skip_pairs k P keyType valType sz) (\<lambda>_. readMapEnd_virt P))
      | T_SET \<Rightarrow>
          bindC (readSetBegin_virt P) (\<lambda>(elemType, sz).
          bindC (skip_elems k P elemType sz) (\<lambda>_. readSetEnd_virt P))
      | T_LIST \<Rightarrow>
          bindC (readListBegin_virt P) (\<lambda>(elemType, sz).
          bindC (skip_elems k P elemType sz) (\<lambda>_. readListEnd_virt P))
      | _ \<Rightarrow> retC ())"
| "skip_fields 0 P = throw Diverges"
| "skip_fields (Suc k) P =
     bindC (readFieldBegin_virt P) (\<lambda>(name, ftype, fid).
     if ftype = T_STOP then retC ()
     else bindC (skip k P ftype) (\<lambda>_. bindC (readFieldEnd_virt P) (\<lambda>_. skip_fields k P)))"
| "skip_elems 0 P elemType n = throw Diverges"
| "skip_elems (Suc k) P elemType n =
     (if n = 0 then retC ()
      else bindC (skip k P elemType) (\<lambda>_. skip_elems k P elemType (n - 1)))"
| "skip_pairs 0 P keyType valType n = throw Diverges"
| "skip_pairs (Suc k) P keyType valType n =
     (if n = 0 then retC ()
      else bindC (skip k P keyType) (\<lambda>_. bindC (skip k P valType) (\<lambda>_.
           skip_pairs k P keyType valType (n - 1))))"

end
