(* ===== verification/ProtocolCodec.thy ===== *)
theory ProtocolCodec
  imports Protocol
begin

text \<open>
  What the protocols promise to the code above them. Values are written by the calls that a
  generated writer makes and read by the calls of a generated reader; a protocol is a codec when
  its writing and reading functions match one by one. From these laws follow, once for all
  protocols, that a value read back is the value written and that \<^verbatim>\<open>skip\<close> consumes exactly the
  bytes of one value.
\<close>

section \<open>Values, and the calls that write and read them\<close>

datatype tval =
    VBool bool
  | VByte u8
  | VI16 i16
  | VI32 i32
  | VI64 i64
  | VDouble i64
  | VString bytes
  | VStruct bytes "tfield list"
  | VMap ttype ttype "tpair list"
  | VSet ttype "tval list"
  | VList ttype "tval list"
  | VNothing
and tfield = Field bytes i16 tval
and tpair = Pair tval tval

fun type_of :: "tval \<Rightarrow> ttype" where
  "type_of (VBool b) = T_BOOL"
| "type_of (VByte b) = T_BYTE"
| "type_of (VI16 w) = T_I16"
| "type_of (VI32 w) = T_I32"
| "type_of (VI64 w) = T_I64"
| "type_of (VDouble d) = T_DOUBLE"
| "type_of (VString s) = T_STRING"
| "type_of (VStruct n fs) = T_STRUCT"
| "type_of (VMap k v ps) = T_MAP"
| "type_of (VSet e xs) = T_SET"
| "type_of (VList e xs) = T_LIST"
| "type_of VNothing = T_VOID"

fun write_val :: "'s tprotocol \<Rightarrow> tval \<Rightarrow> ('s, unit) pio"
  and write_fields :: "'s tprotocol \<Rightarrow> tfield list \<Rightarrow> ('s, unit) pio"
  and write_pairs :: "'s tprotocol \<Rightarrow> tpair list \<Rightarrow> ('s, unit) pio"
  and write_elems :: "'s tprotocol \<Rightarrow> tval list \<Rightarrow> ('s, unit) pio" where
  "write_val P (VBool b) = writeBool_virt P b"
| "write_val P (VByte b) = writeByte_virt P b"
| "write_val P (VI16 w) = writeI16_virt P w"
| "write_val P (VI32 w) = writeI32_virt P w"
| "write_val P (VI64 w) = writeI64_virt P w"
| "write_val P (VDouble d) = writeDouble_virt P d"
| "write_val P (VString s) = writeBinary_virt P s"
| "write_val P (VStruct n fs) =
     bindC (writeStructBegin_virt P n) (\<lambda>_.
     bindC (write_fields P fs) (\<lambda>_. writeStructEnd_virt P))"
| "write_val P (VMap k v ps) =
     bindC (writeMapBegin_virt P k v (length ps)) (\<lambda>_.
     bindC (write_pairs P ps) (\<lambda>_. writeMapEnd_virt P))"
| "write_val P (VSet e xs) =
     bindC (writeSetBegin_virt P e (length xs)) (\<lambda>_.
     bindC (write_elems P xs) (\<lambda>_. writeSetEnd_virt P))"
| "write_val P (VList e xs) =
     bindC (writeListBegin_virt P e (length xs)) (\<lambda>_.
     bindC (write_elems P xs) (\<lambda>_. writeListEnd_virt P))"
| "write_val P VNothing = retC ()"
| "write_fields P [] = writeFieldStop_virt P"
| "write_fields P (Field n i v # fs) =
     bindC (bindC (writeFieldBegin_virt P n (type_of v) i) (\<lambda>_. write_val P v)) (\<lambda>_.
     bindC (writeFieldEnd_virt P) (\<lambda>_. write_fields P fs))"
| "write_pairs P [] = retC ()"
| "write_pairs P (Pair k v # ps) =
     bindC (write_val P k) (\<lambda>_. bindC (write_val P v) (\<lambda>_. write_pairs P ps))"
| "write_elems P [] = retC ()"
| "write_elems P (x # xs) = bindC (write_val P x) (\<lambda>_. write_elems P xs)"

text \<open>Reading makes the calls of \<^verbatim>\<open>skip\<close> and keeps the values.\<close>

fun read_val :: "nat \<Rightarrow> 's tprotocol \<Rightarrow> ttype \<Rightarrow> ('s, tval) pio"
  and read_fields :: "nat \<Rightarrow> 's tprotocol \<Rightarrow> ('s, tfield list) pio"
  and read_elems :: "nat \<Rightarrow> 's tprotocol \<Rightarrow> ttype \<Rightarrow> nat \<Rightarrow> ('s, tval list) pio"
  and read_pairs :: "nat \<Rightarrow> 's tprotocol \<Rightarrow> ttype \<Rightarrow> ttype \<Rightarrow> nat \<Rightarrow> ('s, tpair list) pio" where
  "read_val 0 P type = throw Diverges"
| "read_val (Suc k) P type =
     (case type of
        T_BOOL \<Rightarrow> bindC (readBool_virt P) (\<lambda>x. retC (VBool x))
      | T_BYTE \<Rightarrow> bindC (readByte_virt P) (\<lambda>x. retC (VByte x))
      | T_I16 \<Rightarrow> bindC (readI16_virt P) (\<lambda>x. retC (VI16 x))
      | T_I32 \<Rightarrow> bindC (readI32_virt P) (\<lambda>x. retC (VI32 x))
      | T_I64 \<Rightarrow> bindC (readI64_virt P) (\<lambda>x. retC (VI64 x))
      | T_DOUBLE \<Rightarrow> bindC (readDouble_virt P) (\<lambda>x. retC (VDouble x))
      | T_STRING \<Rightarrow> bindC (readBinary_virt P) (\<lambda>x. retC (VString x))
      | T_STRUCT \<Rightarrow>
          bindC (readStructBegin_virt P) (\<lambda>name.
          bindC (read_fields k P) (\<lambda>fs.
          bindC (readStructEnd_virt P) (\<lambda>_. retC (VStruct [] fs))))
      | T_MAP \<Rightarrow>
          bindC (readMapBegin_virt P) (\<lambda>(keyType, valType, sz).
          bindC (read_pairs k P keyType valType sz) (\<lambda>ps.
          bindC (readMapEnd_virt P) (\<lambda>_.
          retC (if sz = 0 then VMap T_STOP T_STOP [] else VMap keyType valType ps))))
      | T_SET \<Rightarrow>
          bindC (readSetBegin_virt P) (\<lambda>(elemType, sz).
          bindC (read_elems k P elemType sz) (\<lambda>xs.
          bindC (readSetEnd_virt P) (\<lambda>_. retC (VSet elemType xs))))
      | T_LIST \<Rightarrow>
          bindC (readListBegin_virt P) (\<lambda>(elemType, sz).
          bindC (read_elems k P elemType sz) (\<lambda>xs.
          bindC (readListEnd_virt P) (\<lambda>_. retC (VList elemType xs))))
      | _ \<Rightarrow> retC VNothing)"
| "read_fields 0 P = throw Diverges"
| "read_fields (Suc k) P =
     bindC (readFieldBegin_virt P) (\<lambda>(name, ftype, fid).
     if ftype = T_STOP then retC []
     else bindC (read_val k P ftype) (\<lambda>v. bindC (readFieldEnd_virt P) (\<lambda>_.
          bindC (read_fields k P) (\<lambda>fs. retC (Field [] fid v # fs)))))"
| "read_elems 0 P elemType n = throw Diverges"
| "read_elems (Suc k) P elemType n =
     (if n = 0 then retC []
      else bindC (read_val k P elemType) (\<lambda>x.
           bindC (read_elems k P elemType (n - 1)) (\<lambda>xs. retC (x # xs))))"
| "read_pairs 0 P keyType valType n = throw Diverges"
| "read_pairs (Suc k) P keyType valType n =
     (if n = 0 then retC []
      else bindC (read_val k P keyType) (\<lambda>x. bindC (read_val k P valType) (\<lambda>y.
           bindC (read_pairs k P keyType valType (n - 1)) (\<lambda>ps. retC (Pair x y # ps)))))"

text \<open>What a reader can see of a value: not the names, and not the types of an empty map.\<close>

fun erase :: "tval \<Rightarrow> tval" and erase_field :: "tfield \<Rightarrow> tfield" and erase_pair :: "tpair \<Rightarrow> tpair" where
  "erase (VStruct n fs) = VStruct [] (map erase_field fs)"
| "erase (VMap k v ps) = (if ps = [] then VMap T_STOP T_STOP [] else VMap k v (map erase_pair ps))"
| "erase (VSet e xs) = VSet e (map erase xs)"
| "erase (VList e xs) = VList e (map erase xs)"
| "erase v = v"
| "erase_field (Field n i v) = Field [] i (erase v)"
| "erase_pair (Pair k v) = Pair (erase k) (erase v)"

text \<open>
  A value that can be written: element types as declared, sizes of strings and containers as
  the protocol allows.
\<close>

fun wt :: "(nat \<Rightarrow> bool) \<Rightarrow> (nat \<Rightarrow> bool) \<Rightarrow> tval \<Rightarrow> bool"
  and wt_field :: "(nat \<Rightarrow> bool) \<Rightarrow> (nat \<Rightarrow> bool) \<Rightarrow> tfield \<Rightarrow> bool"
  and wt_pair :: "(nat \<Rightarrow> bool) \<Rightarrow> (nat \<Rightarrow> bool) \<Rightarrow> ttype \<Rightarrow> ttype \<Rightarrow> tpair \<Rightarrow> bool" where
  "wt str con (VString s) = str (length s)"
| "wt str con (VStruct n fs) = (\<forall>f \<in> set fs. wt_field str con f)"
| "wt str con (VMap k v ps) =
     (con (length ps) \<and> data_type k \<and> data_type v \<and> (\<forall>p \<in> set ps. wt_pair str con k v p))"
| "wt str con (VSet e xs) =
     (con (length xs) \<and> data_type e \<and> (\<forall>x \<in> set xs. type_of x = e \<and> wt str con x))"
| "wt str con (VList e xs) =
     (con (length xs) \<and> data_type e \<and> (\<forall>x \<in> set xs. type_of x = e \<and> wt str con x))"
| "wt str con VNothing = False"
| "wt str con v = True"
| "wt_field str con (Field n i v) = wt str con v"
| "wt_pair str con kt vt (Pair k v) = (type_of k = kt \<and> type_of v = vt \<and> wt str con k \<and> wt str con v)"

text \<open>Fuel that is enough to read a value back.\<close>

fun fuel :: "tval \<Rightarrow> nat"
  and fuel_field :: "tfield \<Rightarrow> nat" and fuel_pair :: "tpair \<Rightarrow> nat" where
  "fuel (VStruct n fs) = 2 + sum_list (map fuel_field fs)"
| "fuel (VMap k v ps) = 2 + sum_list (map fuel_pair ps)"
| "fuel (VSet e xs) = 2 + sum_list (map (\<lambda>x. Suc (fuel x)) xs)"
| "fuel (VList e xs) = 2 + sum_list (map (\<lambda>x. Suc (fuel x)) xs)"
| "fuel v = 1"
| "fuel_field (Field n i v) = Suc (fuel v)"
| "fuel_pair (Pair k v) = 1 + fuel k + fuel v"

text \<open>
  A bound on the bytes of a value, when every call writes at most \<open>B\<close> bytes (a string its own
  bytes besides).
\<close>

fun weight :: "nat \<Rightarrow> tval \<Rightarrow> nat"
  and weight_field :: "nat \<Rightarrow> tfield \<Rightarrow> nat" and weight_pair :: "nat \<Rightarrow> tpair \<Rightarrow> nat" where
  "weight B (VString s) = B + length s"
| "weight B (VStruct n fs) = 3 * B + sum_list (map (weight_field B) fs)"
| "weight B (VMap k v ps) = 2 * B + sum_list (map (weight_pair B) ps)"
| "weight B (VSet e xs) = 2 * B + sum_list (map (weight B) xs)"
| "weight B (VList e xs) = 2 * B + sum_list (map (weight B) xs)"
| "weight B v = B"
| "weight_field B (Field n i v) = 2 * B + weight B v"
| "weight_pair B (Pair k v) = weight B k + weight B v"

lemma wt_data_type: "wt str con v \<Longrightarrow> data_type (type_of v)"
  by (cases v) simp_all

section \<open>Skipping is reading without keeping\<close>

definition dropC :: "('s, 'a) pio \<Rightarrow> ('s, unit) pio" where
  "dropC m s = (case m s of (Inl e, s') \<Rightarrow> (Inl e, s') | (Inr (a, x), s') \<Rightarrow> (Inr (a, ()), s'))"

lemma dropC_retC [simp]: "dropC (retC x) = retC ()"
  by (rule ext) (simp add: dropC_def retC_def ret_def)

lemma dropC_throw [simp]: "dropC (throw e) = throw e"
  by (rule ext) (simp add: dropC_def throw_def)

lemma dropC_bindC: "dropC (bindC m f) = bindC m (\<lambda>x. dropC (f x))"
  by (rule ext) (simp add: dropC_def bindC_def bindT_def ret_def split: prod.splits sum.splits)

lemma dropC_unit: "dropC m = m"
  by (rule ext) (simp add: dropC_def split: prod.splits sum.splits)

text \<open>Forgetting the result of \<open>m\<close> before going on without it.\<close>

lemma bindC_dropC: "bindC (dropC m) (\<lambda>_. k) = bindC m (\<lambda>_. k)"
  by (rule ext) (simp add: dropC_def bindC_def bindT_def split: prod.splits sum.splits)

lemma bindC_tail: "bindC m (\<lambda>x. bindC (f x) (\<lambda>_. retC ())) = bindC m (\<lambda>x. dropC (f x))"
  by (rule ext) (simp add: dropC_def bindC_def bindT_def ret_def retC_def u32_add
      split: prod.splits sum.splits)

lemma bindC_tail_retC: "bindC m (\<lambda>x. bindC (f x) retC) = bindC m f"
  by (rule ext) (simp add: bindC_def bindT_def ret_def retC_def u32_add split: prod.splits sum.splits)

lemma skip_reads_all:
  "(\<forall>t. skip k P t = dropC (read_val k P t)) \<and> skip_fields k P = dropC (read_fields k P) \<and>
   (\<forall>e n. skip_elems k P e n = dropC (read_elems k P e n)) \<and>
   (\<forall>kt vt n. skip_pairs k P kt vt n = dropC (read_pairs k P kt vt n))"
proof (induction k)
  case 0
  then show ?case by simp
next
  case (Suc k)
  note simps = dropC_bindC bindC_dropC bindC_tail bindC_tail_retC dropC_unit case_prod_beta' if_distrib [of dropC] Suc.IH
  have "skip (Suc k) P t = dropC (read_val (Suc k) P t)" for t
    by (cases t) (simp_all add: simps cong: if_cong)
  moreover have "skip_fields (Suc k) P = dropC (read_fields (Suc k) P)"
    by (simp add: simps cong: if_cong)
  moreover have "skip_elems (Suc k) P e n = dropC (read_elems (Suc k) P e n)" for e n
    by (simp add: simps cong: if_cong)
  moreover have "skip_pairs (Suc k) P kt vt n = dropC (read_pairs (Suc k) P kt vt n)" for kt vt n
    by (simp add: simps cong: if_cong)
  ultimately show ?case by blast
qed

lemma skip_reads: "skip k P t = dropC (read_val k P t)"
  using skip_reads_all by blast


section \<open>The contract of a protocol\<close>

text \<open>
  A protocol object is in a context \<open>'c\<close> (for instance the last field id), as a writer
  (\<open>W\<close>) or as a reader (\<open>R\<close>). \<open>emits c m bs x c'\<close>: the writing action \<open>m\<close> appends
  exactly \<open>bs\<close>, counts them, and leads from \<open>c\<close> to \<open>c'\<close>; \<open>takes\<close> is the same for a reading
  action in front of these bytes. Two actions match when some bytes are emitted by the first and
  taken by the second, at most \<open>k\<close> of them in \<open>transfers k\<close>.
\<close>

locale codec_base =
  fixes W :: "'c \<Rightarrow> 's \<Rightarrow> bool"
    and room :: "'s \<Rightarrow> nat \<Rightarrow> bool"
    and written :: "'s \<Rightarrow> bytes"
    and R :: "'c \<Rightarrow> 's \<Rightarrow> bool"
    and pending :: "'s \<Rightarrow> bytes"
begin

definition emits :: "'c \<Rightarrow> ('s, 'a) pio \<Rightarrow> bytes \<Rightarrow> 'a \<Rightarrow> 'c \<Rightarrow> bool" where
  "emits c m bs x c' \<longleftrightarrow> (\<forall>s n. W c s \<longrightarrow> room s (length bs + n) \<longrightarrow>
     (\<exists>s'. m s = (Inr (u32 (length bs), x), s') \<and> W c' s' \<and> written s' = written s @ bs \<and> room s' n))"

definition takes :: "'c \<Rightarrow> ('s, 'a) pio \<Rightarrow> bytes \<Rightarrow> 'a \<Rightarrow> 'c \<Rightarrow> bool" where
  "takes c m bs x c' \<longleftrightarrow> (\<forall>s rest. R c s \<longrightarrow> pending s = bs @ rest \<longrightarrow>
     (\<exists>s'. m s = (Inr (u32 (length bs), x), s') \<and> R c' s' \<and> pending s' = rest))"

definition transfers :: "nat \<Rightarrow> 'c \<Rightarrow> ('s, unit) pio \<Rightarrow> ('s, 'a) pio \<Rightarrow> 'a \<Rightarrow> 'c \<Rightarrow> bool" where
  "transfers k c m m' x c' \<longleftrightarrow> (\<exists>bs. length bs \<le> k \<and> emits c m bs () c' \<and> takes c m' bs x c')"

lemma emits_bind:
  assumes "emits c m bs x c1" and "emits c1 (f x) cs y c2"
  shows "emits c (bindC m f) (bs @ cs) y c2"
  unfolding emits_def
proof (intro allI impI)
  fix s n
  assume "W c s" and "room s (length (bs @ cs) + n)"
  with assms(1) obtain t where t: "m s = (Inr (u32 (length bs), x), t)" "W c1 t"
      "written t = written s @ bs" "room t (length cs + n)"
    unfolding emits_def by (metis add.assoc length_append)
  with assms(2) obtain u where "f x t = (Inr (u32 (length cs), y), u)" "W c2 u"
      "written u = written t @ cs" "room u n"
    unfolding emits_def by blast
  with t show "\<exists>s'. bindC m f s = (Inr (u32 (length (bs @ cs)), y), s') \<and> W c2 s' \<and>
      written s' = written s @ bs @ cs \<and> room s' n"
    by (simp add: bindC_ok u32_add)
qed

lemma takes_bind:
  assumes "takes c m bs x c1" and "takes c1 (f x) cs y c2"
  shows "takes c (bindC m f) (bs @ cs) y c2"
  unfolding takes_def
proof (intro allI impI)
  fix s rest
  assume "R c s" and "pending s = (bs @ cs) @ rest"
  then have "pending s = bs @ (cs @ rest)" by simp
  with assms(1) \<open>R c s\<close> obtain t where t: "m s = (Inr (u32 (length bs), x), t)" "R c1 t"
      "pending t = cs @ rest"
    unfolding takes_def by blast
  with assms(2) obtain u where "f x t = (Inr (u32 (length cs), y), u)" "R c2 u" "pending u = rest"
    unfolding takes_def by blast
  with t show "\<exists>s'. bindC m f s = (Inr (u32 (length (bs @ cs)), y), s') \<and> R c2 s' \<and> pending s' = rest"
    by (simp add: bindC_ok u32_add)
qed

lemma emits_retC: "emits c (retC x) [] x c"
  by (simp add: emits_def retC_def ret_def)

lemma takes_retC: "takes c (retC x) [] x c"
  by (simp add: takes_def retC_def ret_def)

lemma takes_map: "takes c m bs x c' \<Longrightarrow> takes c (bindC m (\<lambda>y. retC (g y))) bs (g x) c'"
  using takes_bind [of c m bs x c' "\<lambda>y. retC (g y)" "[]"] takes_retC by force

lemma transfers_le: "transfers j c m m' x c' \<Longrightarrow> j \<le> k \<Longrightarrow> transfers k c m m' x c'"
  unfolding transfers_def using le_trans by blast

lemma transfers_bind:
  assumes "transfers j c m m' x c1" and "transfers k c1 n (n' x) y c2"
  shows "transfers (j + k) c (bindC m (\<lambda>_. n)) (bindC m' n') y c2"
proof -
  obtain bs where bs: "length bs \<le> j" "emits c m bs () c1" "takes c m' bs x c1"
    using assms(1) by (auto simp: transfers_def)
  obtain cs where cs: "length cs \<le> k" "emits c1 n cs () c2" "takes c1 (n' x) cs y c2"
    using assms(2) by (auto simp: transfers_def)
  from emits_bind [OF bs(2) cs(2)] takes_bind [where f = n', OF bs(3) cs(3)] bs(1) cs(1) show ?thesis
    unfolding transfers_def by (intro exI [of _ "bs @ cs"]) simp
qed

lemma transfers_map:
  "transfers k c m m' x c' \<Longrightarrow> transfers k c m (bindC m' (\<lambda>y. retC (g y))) (g x) c'"
  unfolding transfers_def using takes_map by metis

lemma transfers_bind_map:
  assumes "transfers j c m m' x c1" and "transfers k c1 n n' y c2"
  shows "transfers (j + k) c (bindC m (\<lambda>_. n)) (bindC m' (\<lambda>x. bindC n' (\<lambda>y. retC (g x y)))) (g x y) c2"
  by (rule transfers_bind [where n' = "\<lambda>x. bindC n' (\<lambda>y. retC (g x y))", OF assms(1)])
    (rule transfers_map [OF assms(2)])

lemma takes_drop: "takes c m bs x c' \<Longrightarrow> takes c (dropC m) bs () c'"
  by (force simp: takes_def dropC_def)

end

locale protocol_codec = codec_base W room written R pending
  for W :: "'c \<Rightarrow> 's \<Rightarrow> bool" and room written R pending +
  fixes P :: "'s tprotocol"
    and clean :: "'c \<Rightarrow> bool"
    and push :: "'c \<Rightarrow> 'c"
    and fld :: "'c \<Rightarrow> ttype \<Rightarrow> i16 \<Rightarrow> 'c"
    and level :: "'c \<Rightarrow> 'c \<Rightarrow> bool"
    and B :: nat
    and str_ok :: "nat \<Rightarrow> bool"
    and con_ok :: "nat \<Rightarrow> bool"
  assumes level_clean: "level c d \<Longrightarrow> clean d"
    and level_push: "clean c \<Longrightarrow> level c (push c)"
    and level_fld: "level c d \<Longrightarrow> data_type t \<Longrightarrow> level c (fld d t i)"
    and bool_law: "clean c \<Longrightarrow> transfers B c (writeBool_virt P b) (readBool_virt P) b c"
    and byte_law: "clean c \<Longrightarrow> transfers B c (writeByte_virt P w8) (readByte_virt P) w8 c"
    and i16_law: "clean c \<Longrightarrow> transfers B c (writeI16_virt P w16) (readI16_virt P) w16 c"
    and i32_law: "clean c \<Longrightarrow> transfers B c (writeI32_virt P w32) (readI32_virt P) w32 c"
    and i64_law: "clean c \<Longrightarrow> transfers B c (writeI64_virt P w64) (readI64_virt P) w64 c"
    and double_law: "clean c \<Longrightarrow> transfers B c (writeDouble_virt P w64) (readDouble_virt P) w64 c"
    and binary_law: "clean c \<Longrightarrow> str_ok (length str) \<Longrightarrow>
      transfers (B + length str) c (writeBinary_virt P str) (readBinary_virt P) str c"
    and struct_begin_law: "clean c \<Longrightarrow>
      \<exists>m. transfers B c (writeStructBegin_virt P nm) (readStructBegin_virt P) m (push c)"
    and struct_end_law: "level c d \<Longrightarrow> transfers B d (writeStructEnd_virt P) (readStructEnd_virt P) () c"
    and field_law: "clean d \<Longrightarrow> data_type t \<Longrightarrow> t \<noteq> T_BOOL \<Longrightarrow>
      \<exists>m. transfers B d (writeFieldBegin_virt P nm t i) (readFieldBegin_virt P) (m, t, i) (fld d t i)"
    and bool_field_law: "clean d \<Longrightarrow>
      \<exists>m e bs cs. emits d (bindC (writeFieldBegin_virt P nm T_BOOL i) (\<lambda>_. writeBool_virt P b))
          (bs @ cs) () (fld d T_BOOL i) \<and> length (bs @ cs) \<le> 2 * B \<and>
        takes d (readFieldBegin_virt P) bs (m, T_BOOL, i) e \<and>
        takes e (readBool_virt P) cs b (fld d T_BOOL i)"
    and field_end_law: "clean d \<Longrightarrow> transfers B d (writeFieldEnd_virt P) (readFieldEnd_virt P) () d"
    and field_stop_law: "clean d \<Longrightarrow>
      \<exists>m i. transfers B d (writeFieldStop_virt P) (readFieldBegin_virt P) (m, T_STOP, i) d"
    and map_begin_law: "clean c \<Longrightarrow> con_ok n \<Longrightarrow> data_type kt \<Longrightarrow> data_type vt \<Longrightarrow>
      \<exists>kt' vt'. transfers B c (writeMapBegin_virt P kt vt n) (readMapBegin_virt P) (kt', vt', n) c \<and>
        (0 < n \<longrightarrow> kt' = kt \<and> vt' = vt)"
    and map_end_law: "clean c \<Longrightarrow> transfers B c (writeMapEnd_virt P) (readMapEnd_virt P) () c"
    and list_begin_law: "clean c \<Longrightarrow> con_ok n \<Longrightarrow> data_type et \<Longrightarrow>
      transfers B c (writeListBegin_virt P et n) (readListBegin_virt P) (et, n) c"
    and list_end_law: "clean c \<Longrightarrow> transfers B c (writeListEnd_virt P) (readListEnd_virt P) () c"
    and set_begin_law: "clean c \<Longrightarrow> con_ok n \<Longrightarrow> data_type et \<Longrightarrow>
      transfers B c (writeSetBegin_virt P et n) (readSetBegin_virt P) (et, n) c"
    and set_end_law: "clean c \<Longrightarrow> transfers B c (writeSetEnd_virt P) (readSetEnd_virt P) () c"
begin

definition val_ok :: "tval \<Rightarrow> bool" where
  "val_ok v \<longleftrightarrow> (\<forall>c k. wt str_ok con_ok v \<longrightarrow> clean c \<longrightarrow> fuel v \<le> k \<longrightarrow>
     transfers (weight B v) c (write_val P v) (read_val k P (type_of v)) (erase v) c)"

lemma scalars_ok:
  "val_ok (VBool b)" "val_ok (VByte w8)" "val_ok (VI16 w16)" "val_ok (VI32 w32)" "val_ok (VI64 w64)"
  "val_ok (VDouble w64)" "val_ok (VString str)"
  using transfers_map [OF bool_law] transfers_map [OF byte_law] transfers_map [OF i16_law]
    transfers_map [OF i32_law] transfers_map [OF i64_law] transfers_map [OF double_law]
    transfers_map [OF binary_law]
  by (auto simp: val_ok_def Suc_le_eq gr0_conv_Suc)

lemma val_okD: "val_ok v \<Longrightarrow> wt str_ok con_ok v \<Longrightarrow> clean c \<Longrightarrow> fuel v \<le> k \<Longrightarrow>
    transfers (weight B v) c (write_val P v) (read_val k P (type_of v)) (erase v) c"
  by (simp add: val_ok_def)

lemma field_ok:
  assumes "val_ok v" and "wt str_ok con_ok v" and "level c d" and "fuel v \<le> k"
  shows "\<exists>m e bs cs. emits d (bindC (writeFieldBegin_virt P nm (type_of v) i) (\<lambda>_. write_val P v))
      (bs @ cs) () (fld d (type_of v) i) \<and> length (bs @ cs) \<le> B + weight B v \<and>
    takes d (readFieldBegin_virt P) bs (m, type_of v, i) e \<and>
    takes e (read_val k P (type_of v)) cs (erase v) (fld d (type_of v) i)"
proof (cases "type_of v = T_BOOL")
  case True
  note clean = level_clean [OF assms(3)]
  from True obtain b where v: "v = VBool b" by (cases v) simp_all
  with assms(4) obtain k' where k: "k = Suc k'" by (cases k) simp_all
  from bool_field_law [OF clean, of nm i b] obtain m e bs cs where
    f: "emits d (bindC (writeFieldBegin_virt P nm T_BOOL i) (\<lambda>_. writeBool_virt P b)) (bs @ cs) ()
        (fld d T_BOOL i)" "length (bs @ cs) \<le> 2 * B"
      "takes d (readFieldBegin_virt P) bs (m, T_BOOL, i) e"
      "takes e (readBool_virt P) cs b (fld d T_BOOL i)" by blast
  from f(1-3) takes_map [OF f(4), of VBool] show ?thesis
    unfolding v k by (intro exI [of _ m] exI [of _ e] exI [of _ bs] exI [of _ cs]) simp
next
  case False
  note t = wt_data_type [OF assms(2)]
  let ?e = "fld d (type_of v) i"
  from field_law [OF level_clean [OF assms(3)] t False, of nm i] obtain m bs where
    f: "emits d (writeFieldBegin_virt P nm (type_of v) i) bs () ?e" "length bs \<le> B"
       "takes d (readFieldBegin_virt P) bs (m, type_of v, i) ?e"
    unfolding transfers_def by blast
  have "clean ?e" using level_clean [OF level_fld [OF assms(3) t]] .
  from val_okD [OF assms(1,2) this assms(4)] obtain cs where v: "emits ?e (write_val P v) cs () ?e" "length cs \<le> weight B v"
      "takes ?e (read_val k P (type_of v)) cs (erase v) ?e"
    unfolding transfers_def by blast
  from f(2,3) emits_bind [OF f(1) v(1)] v(2,3) show ?thesis
    by (intro exI [of _ m] exI [of _ ?e] exI [of _ bs] exI [of _ cs] conjI) simp_all
qed

definition fields_ok :: "tfield list \<Rightarrow> bool" where
  "fields_ok fs \<longleftrightarrow> (\<forall>c d k. (\<forall>f \<in> set fs. wt_field str_ok con_ok f) \<longrightarrow> level c d \<longrightarrow>
     sum_list (map fuel_field fs) < k \<longrightarrow>
     (\<exists>d'. transfers (B + sum_list (map (weight_field B) fs)) d (write_fields P fs) (read_fields k P) (map erase_field fs) d' \<and> level c d'))"

definition pairs_ok :: "tpair list \<Rightarrow> bool" where
  "pairs_ok ps \<longleftrightarrow> (\<forall>c k kt vt. (\<forall>p \<in> set ps. wt_pair str_ok con_ok kt vt p) \<longrightarrow> clean c \<longrightarrow>
     sum_list (map fuel_pair ps) < k \<longrightarrow>
     transfers (sum_list (map (weight_pair B) ps)) c (write_pairs P ps) (read_pairs k P kt vt (length ps)) (map erase_pair ps) c)"

definition elems_ok :: "tval list \<Rightarrow> bool" where
  "elems_ok xs \<longleftrightarrow> (\<forall>c k e. (\<forall>x \<in> set xs. type_of x = e \<and> wt str_ok con_ok x) \<longrightarrow> clean c \<longrightarrow>
     sum_list (map (\<lambda>x. Suc (fuel x)) xs) < k \<longrightarrow>
     transfers (sum_list (map (weight B) xs)) c (write_elems P xs) (read_elems k P e (length xs)) (map erase xs) c)"

lemma fields_Nil_ok: "fields_ok []"
  unfolding fields_ok_def
proof (intro allI impI)
  fix c d and k :: nat
  assume "level c d" and "sum_list (map fuel_field []) < k"
  then obtain k' where k: "k = Suc k'" by (cases k) auto
  obtain m i where "transfers B d (writeFieldStop_virt P) (readFieldBegin_virt P) (m, T_STOP, i) d"
    using field_stop_law [OF level_clean [OF \<open>level c d\<close>]] by blast
  then obtain bs where bs: "emits d (writeFieldStop_virt P) bs () d" "length bs \<le> B"
      "takes d (readFieldBegin_virt P) bs (m, T_STOP, i) d" by (auto simp: transfers_def)
  have "takes d (read_fields k P) (bs @ []) [] d"
    unfolding k read_fields.simps by (rule takes_bind [OF bs(3)]) (simp add: takes_retC)
  with bs(1,2) have "transfers B d (write_fields P []) (read_fields k P) [] d"
    by (auto simp: transfers_def)
  with \<open>level c d\<close> show "\<exists>d'. transfers (B + sum_list (map (weight_field B) [])) d (write_fields P [])
      (read_fields k P) (map erase_field []) d' \<and>
      level c d'" by auto
qed

lemma fields_Cons_ok:
  assumes "val_ok v" and "fields_ok fs"
  shows "fields_ok (Field nm i v # fs)"
  unfolding fields_ok_def
proof (intro allI impI)
  fix c d and k :: nat
  assume wt: "\<forall>f \<in> set (Field nm i v # fs). wt_field str_ok con_ok f" and lv: "level c d"
    and fuel: "sum_list (map fuel_field (Field nm i v # fs)) < k"
  then obtain j where k: "k = Suc j" and j: "fuel v \<le> j" "sum_list (map fuel_field fs) < j"
    by (cases k) auto
  let ?t = "type_of v" and ?e = "fld d (type_of v) i"
  have wtv: "wt str_ok con_ok v" using wt by simp
  then have t: "data_type ?t" by (rule wt_data_type)
  then have stop: "?t \<noteq> T_STOP" by auto
  have e: "level c ?e" using level_fld [OF lv t] .
  obtain m e1 bs cs where f: "emits d (bindC (writeFieldBegin_virt P nm ?t i) (\<lambda>_. write_val P v)) (bs @ cs) () ?e"
      "length (bs @ cs) \<le> B + weight B v" "takes d (readFieldBegin_virt P) bs (m, ?t, i) e1"
      "takes e1 (read_val j P ?t) cs (erase v) ?e"
    using field_ok [OF assms(1) wtv lv j(1)] by blast
  obtain es where fe: "emits ?e (writeFieldEnd_virt P) es () ?e" "length es \<le> B" "takes ?e (readFieldEnd_virt P) es () ?e"
    using field_end_law [OF level_clean [OF e]] by (auto simp: transfers_def)
  obtain d' ds where fs: "emits ?e (write_fields P fs) ds () d'" "level c d'"
      "length ds \<le> B + sum_list (map (weight_field B) fs)"
      "takes ?e (read_fields j P) ds (map erase_field fs) d'"
    using assms(2) wt e j(2) unfolding transfers_def fields_ok_def by fastforce
  have "takes ?e (bindC (readFieldEnd_virt P) (\<lambda>_. bindC (read_fields j P)
      (\<lambda>fs. retC (Field [] i (erase v) # fs)))) (es @ ds) (map erase_field (Field nm i v # fs)) d'"
    using takes_bind [OF fe(3) takes_map [OF fs(4)]] by simp
  then have "takes e1 (bindC (read_val j P ?t) (\<lambda>v. bindC (readFieldEnd_virt P) (\<lambda>_.
      bindC (read_fields j P) (\<lambda>fs. retC (Field [] i v # fs))))) (cs @ es @ ds)
      (map erase_field (Field nm i v # fs)) d'"
    using takes_bind [OF f(4)] by simp
  then have "takes d (read_fields k P) (bs @ cs @ es @ ds) (map erase_field (Field nm i v # fs)) d'"
    unfolding k read_fields.simps using stop by (intro takes_bind [OF f(3)]) simp
  moreover have "emits d (write_fields P (Field nm i v # fs)) ((bs @ cs) @ es @ ds) () d'"
    by (simp only: write_fields.simps) (intro emits_bind [OF f(1)] emits_bind [OF fe(1)] fs(1))
  moreover have "length (bs @ cs @ es @ ds) \<le> B + sum_list (map (weight_field B) (Field nm i v # fs))"
    using f(2) fe(2) fs(3) by simp
  ultimately have "transfers (B + sum_list (map (weight_field B) (Field nm i v # fs))) d
      (write_fields P (Field nm i v # fs)) (read_fields k P) (map erase_field (Field nm i v # fs)) d'"
    unfolding transfers_def by (intro exI [of _ "bs @ cs @ es @ ds"]) simp
  with fs(2) show "\<exists>d'. transfers (B + sum_list (map (weight_field B) (Field nm i v # fs))) d
      (write_fields P (Field nm i v # fs)) (read_fields k P) (map erase_field (Field nm i v # fs)) d' \<and>
      level c d'" by blast
qed

lemma pairs_ok_all:
  assumes "\<And>k v. Pair k v \<in> set ps \<Longrightarrow> val_ok k \<and> val_ok v"
  shows "pairs_ok ps"
  using assms
proof (induction ps)
  case Nil
  have "transfers 0 c (retC ()) (read_pairs k P kt vt 0) [] c" if "0 < k" for c k kt vt
    using that emits_retC takes_retC by (cases k) (auto simp: transfers_def intro!: exI [of _ "[]"])
  then show ?case by (simp add: pairs_ok_def)
next
  case (Cons p ps)
  obtain a b where p: "p = Pair a b" by (cases p)
  have ab: "val_ok a" "val_ok b" using Cons.prems [of a b] p by simp_all
  have IH: "pairs_ok ps" by (rule Cons.IH, rule Cons.prems) simp
  show ?case
    unfolding pairs_ok_def
  proof (intro allI impI)
    fix c and k :: nat and kt vt
    assume wt: "\<forall>q \<in> set (p # ps). wt_pair str_ok con_ok kt vt q" and c: "clean c"
      and "sum_list (map fuel_pair (p # ps)) < k"
    then obtain j where k: "k = Suc j" and j: "fuel a \<le> j" "fuel b \<le> j" "sum_list (map fuel_pair ps) < j"
      using p by (cases k) auto
    have t: "type_of a = kt" "type_of b = vt" "wt str_ok con_ok a" "wt str_ok con_ok b"
      using wt p by simp_all
    have rest: "transfers (sum_list (map (weight_pair B) ps)) c (write_pairs P ps) (read_pairs j P kt vt (length ps)) (map erase_pair ps) c"
      using IH wt c j(3) by (simp add: pairs_ok_def)
    have A: "transfers (weight B a) c (write_val P a) (read_val j P kt) (erase a) c"
      and V: "transfers (weight B b) c (write_val P b) (read_val j P vt) (erase b) c"
      using val_okD [OF ab(1) t(3) c j(1)] val_okD [OF ab(2) t(4) c j(2)] t(1,2) by simp_all
    from transfers_bind [OF A transfers_bind_map [OF V rest]]
    show "transfers (sum_list (map (weight_pair B) (p # ps))) c (write_pairs P (p # ps)) (read_pairs k P kt vt (length (p # ps)))
        (map erase_pair (p # ps)) c" by (simp add: p k add.assoc)
  qed
qed

lemma elems_ok_all:
  assumes "\<And>x. x \<in> set xs \<Longrightarrow> val_ok x"
  shows "elems_ok xs"
  using assms
proof (induction xs)
  case Nil
  have "transfers 0 c (retC ()) (read_elems k P e 0) [] c" if "0 < k" for c k e
    using that emits_retC takes_retC by (cases k) (auto simp: transfers_def intro!: exI [of _ "[]"])
  then show ?case by (simp add: elems_ok_def)
next
  case (Cons x xs)
  have x: "val_ok x" using Cons.prems by simp
  have IH: "elems_ok xs" by (rule Cons.IH, rule Cons.prems) simp
  show ?case
    unfolding elems_ok_def
  proof (intro allI impI)
    fix c and k :: nat and e
    assume wt: "\<forall>y \<in> set (x # xs). type_of y = e \<and> wt str_ok con_ok y" and c: "clean c"
      and "sum_list (map (\<lambda>x. Suc (fuel x)) (x # xs)) < k"
    then obtain j where k: "k = Suc j" and j: "fuel x \<le> j" "sum_list (map (\<lambda>x. Suc (fuel x)) xs) < j"
      by (cases k) auto
    have X: "transfers (weight B x) c (write_val P x) (read_val j P e) (erase x) c"
      using val_okD [OF x _ c j(1)] wt by simp
    have "transfers (sum_list (map (weight B) xs)) c (write_elems P xs) (read_elems j P e (length xs)) (map erase xs) c"
      using IH wt c j(2) by (simp add: elems_ok_def)
    from transfers_bind_map [OF X this]
    show "transfers (sum_list (map (weight B) (x # xs))) c (write_elems P (x # xs)) (read_elems k P e (length (x # xs))) (map erase (x # xs)) c"
      by (simp add: k)
  qed
qed

lemma fields_ok_all:
  assumes "\<And>n i v. Field n i v \<in> set fs \<Longrightarrow> val_ok v"
  shows "fields_ok fs"
  using assms
proof (induction fs)
  case Nil
  show ?case by (rule fields_Nil_ok)
next
  case (Cons f fs)
  obtain n i v where f: "f = Field n i v" by (cases f)
  have "val_ok v" using Cons.prems [of n i v] f by simp
  moreover have "fields_ok fs"
  proof (rule Cons.IH)
    fix n i v
    assume "Field n i v \<in> set fs"
    then have "Field n i v \<in> set (f # fs)" by simp
    then show "val_ok v" by (rule Cons.prems)
  qed
  ultimately show ?case unfolding f by (rule fields_Cons_ok)
qed

lemma struct_ok:
  assumes "fields_ok fs"
  shows "val_ok (VStruct nm fs)"
  unfolding val_ok_def
proof (intro allI impI)
  fix c k
  assume wt: "wt str_ok con_ok (VStruct nm fs)" and c: "clean c" and "fuel (VStruct nm fs) \<le> k"
  then obtain j where k: "k = Suc j" "sum_list (map fuel_field fs) < j" by (cases k) auto
  obtain m where b: "transfers B c (writeStructBegin_virt P nm) (readStructBegin_virt P) m (push c)"
    using struct_begin_law [OF c] by blast
  have "\<forall>f \<in> set fs. wt_field str_ok con_ok f" using wt by simp
  from assms [unfolded fields_ok_def, rule_format, OF this [rule_format] level_push [OF c] k(2)]
  obtain d where d: "transfers (B + sum_list (map (weight_field B) fs)) (push c) (write_fields P fs) (read_fields j P) (map erase_field fs) d"
      "level c d" by blast
  have "transfers (B + sum_list (map (weight_field B) fs) + B) (push c) (bindC (write_fields P fs) (\<lambda>_. writeStructEnd_virt P))
      (bindC (read_fields j P) (\<lambda>fs. bindC (readStructEnd_virt P) (\<lambda>_. retC (VStruct [] fs))))
      (VStruct [] (map erase_field fs)) c"
    by (rule transfers_bind_map [OF d(1) struct_end_law [OF d(2)]])
  then have "transfers (B + (B + sum_list (map (weight_field B) fs) + B)) c (write_val P (VStruct nm fs))
      (read_val k P (type_of (VStruct nm fs))) (erase (VStruct nm fs)) c"
    unfolding k(1) by (simp add: transfers_bind [OF b] del: add.assoc)
  then show "transfers (weight B (VStruct nm fs)) c (write_val P (VStruct nm fs))
      (read_val k P (type_of (VStruct nm fs))) (erase (VStruct nm fs)) c" by (rule transfers_le) simp
qed

lemma map_ok:
  assumes "pairs_ok ps"
  shows "val_ok (VMap kt vt ps)"
  unfolding val_ok_def
proof (intro allI impI)
  fix c k
  assume wt: "wt str_ok con_ok (VMap kt vt ps)" and c: "clean c" and "fuel (VMap kt vt ps) \<le> k"
  then obtain j where k: "k = Suc j" "sum_list (map fuel_pair ps) < j" by (cases k) auto
  obtain kt' vt' where b: "transfers B c (writeMapBegin_virt P kt vt (length ps)) (readMapBegin_virt P)
      (kt', vt', length ps) c" and same: "0 < length ps \<longrightarrow> kt' = kt \<and> vt' = vt"
    using map_begin_law [OF c, of "length ps" kt vt] wt by auto
  have ps: "transfers (sum_list (map (weight_pair B) ps)) c (write_pairs P ps) (read_pairs j P kt' vt' (length ps)) (map erase_pair ps) c"
    using assms wt c k(2) same unfolding pairs_ok_def by (cases ps) auto
  let ?g = "\<lambda>ps'. if length ps = 0 then VMap T_STOP T_STOP [] else VMap kt' vt' ps'"
  have rest: "transfers (sum_list (map (weight_pair B) ps) + B) c (bindC (write_pairs P ps) (\<lambda>_. writeMapEnd_virt P))
      (bindC (read_pairs j P kt' vt' (length ps)) (\<lambda>ps'. bindC (readMapEnd_virt P) (\<lambda>_. retC (?g ps'))))
      (?g (map erase_pair ps)) c"
    by (rule transfers_bind_map [OF ps map_end_law [OF c]])
  have g: "?g (map erase_pair ps) = erase (VMap kt vt ps)" using same by auto
  have "transfers (B + (sum_list (map (weight_pair B) ps) + B)) c (write_val P (VMap kt vt ps))
      (read_val k P (type_of (VMap kt vt ps))) (erase (VMap kt vt ps)) c"
    unfolding k(1) write_val.simps read_val.simps type_of.simps ttype.case
    by (rule transfers_bind [OF b]) (simp only: prod.case rest [unfolded g])
  then show "transfers (weight B (VMap kt vt ps)) c (write_val P (VMap kt vt ps))
      (read_val k P (type_of (VMap kt vt ps))) (erase (VMap kt vt ps)) c" by (rule transfers_le) simp
qed

lemma collections_ok:
  assumes "elems_ok xs"
  shows "val_ok (VList et xs)" and "val_ok (VSet et xs)"
proof -
  have *: "val_ok (C et xs)"
    if law: "\<And>c n. clean c \<Longrightarrow> con_ok n \<Longrightarrow> data_type et \<Longrightarrow> transfers B c (wb n) rb (et, n) c"
      and end_law: "\<And>c. clean c \<Longrightarrow> transfers B c we re () c"
      and w: "write_val P (C et xs) = bindC (wb (length xs)) (\<lambda>_. bindC (write_elems P xs) (\<lambda>_. we))"
      and r: "\<And>j. read_val (Suc j) P (type_of (C et xs)) = bindC rb (\<lambda>(et, n). bindC (read_elems j P et n)
        (\<lambda>xs. bindC re (\<lambda>_. retC (C et xs))))"
      and e: "erase (C et xs) = C et (map erase xs)"
      and wt: "wt str_ok con_ok (C et xs) = wt str_ok con_ok (VList et xs)"
      and fuel: "fuel (C et xs) = fuel (VList et xs)" and wg: "weight B (C et xs) = weight B (VList et xs)"
    for C :: "ttype \<Rightarrow> tval list \<Rightarrow> tval" and wb rb we re
    unfolding val_ok_def
  proof (intro allI impI)
    fix c k
    assume ok: "wt str_ok con_ok (C et xs)" and c: "clean c" and "fuel (C et xs) \<le> k"
    then obtain j where k: "k = Suc j" "sum_list (map (\<lambda>x. Suc (fuel x)) xs) < j"
      unfolding fuel by (cases k) auto
    have et: "con_ok (length xs)" "data_type et" "\<forall>x \<in> set xs. type_of x = et \<and> wt str_ok con_ok x"
      using ok unfolding wt by simp_all
    have xs: "transfers (sum_list (map (weight B) xs)) c (write_elems P xs) (read_elems j P et (length xs)) (map erase xs) c"
      using assms et(3) c k(2) by (simp add: elems_ok_def)
    have "transfers (sum_list (map (weight B) xs) + B) c (bindC (write_elems P xs) (\<lambda>_. we))
        (bindC (read_elems j P et (length xs)) (\<lambda>xs. bindC re (\<lambda>_. retC (C et xs)))) (C et (map erase xs)) c"
      by (rule transfers_bind_map [OF xs end_law [OF c]])
    then have "transfers (B + (sum_list (map (weight B) xs) + B)) c (write_val P (C et xs))
        (read_val k P (type_of (C et xs))) (erase (C et xs)) c"
      unfolding k(1) w r e by (intro transfers_bind [OF law [OF c et(1,2)]]) simp
    then show "transfers (weight B (C et xs)) c (write_val P (C et xs))
        (read_val k P (type_of (C et xs))) (erase (C et xs)) c" unfolding wg by (rule transfers_le) simp
  qed
  show "val_ok (VList et xs)" using list_begin_law list_end_law by (intro *) simp_all
  show "val_ok (VSet et xs)" using set_begin_law set_end_law by (intro *) simp_all
qed

lemma val_ok_all: "val_ok v"
proof -
  have "val_ok v" and "\<And>n i x. f = Field n i x \<Longrightarrow> val_ok x" and "\<And>x y. p = Pair x y \<Longrightarrow> val_ok x \<and> val_ok y"
    for f p
  proof (induction v and f and p)
    case (VStruct nm fs)
    then show ?case by (intro struct_ok fields_ok_all) blast
  next
    case (VMap kt vt ps)
    then show ?case by (intro map_ok pairs_ok_all) blast
  next
    case (VSet et xs)
    then show ?case by (intro collections_ok elems_ok_all)
  next
    case (VList et xs)
    then show ?case by (intro collections_ok elems_ok_all)
  next
    case VNothing
    show ?case by (simp add: val_ok_def)
  qed (simp_all add: scalars_ok)
  then show ?thesis by blast
qed

text \<open>A value is read back, and skipped, from exactly the bytes its writer emitted.\<close>

theorem read_back:
  assumes "wt str_ok con_ok v" and "clean c" and "fuel v \<le> k"
  obtains bs where "length bs \<le> weight B v" and "emits c (write_val P v) bs () c" and "takes c (read_val k P (type_of v)) bs (erase v) c"
    and "takes c (skip k P (type_of v)) bs () c"
proof -
  from val_okD [OF val_ok_all assms] obtain bs where bs: "emits c (write_val P v) bs () c" "length bs \<le> weight B v"
      "takes c (read_val k P (type_of v)) bs (erase v) c"
    unfolding transfers_def by blast
  with that takes_drop [OF bs(3)] show ?thesis by (simp add: skip_reads)
qed

end

section \<open>Sizes on the wire\<close>

text \<open>
  The reader's limits \<open>sl\<close> and \<open>cl\<close> say which strings and containers it accepts; a size must
  also be the non-negative part of a 32-bit integer.
\<close>

definition str_within :: "int \<Rightarrow> nat \<Rightarrow> bool" where
  "str_within sl n \<longleftrightarrow> n < 2 ^ 31 \<and> (0 < sl \<longrightarrow> int n \<le> sl)"

definition con_within :: "int \<Rightarrow> nat \<Rightarrow> bool" where
  "con_within cl n \<longleftrightarrow> n < 2 ^ 31 \<and> (cl \<noteq> 0 \<longrightarrow> int n \<le> cl)"

lemma of_nat_unat_be [simp]:
  "of_nat (be_nat (be_bytes 2 (unat w16))) = (w16 :: i16)"
  "of_nat (be_nat (be_bytes 4 (unat w32))) = (w32 :: i32)"
  "of_nat (be_nat (be_bytes 8 (unat w64))) = (w64 :: i64)"
  by simp_all

lemma of_nat_be_nat_byte [simp]: "of_nat (be_nat [w]) = (w :: u8)"
  using be_nat_snoc [of "[]" w] by simp

lemma be_nat_byte [simp]: "be_nat [w] = unat w"
  using be_nat_snoc [of "[]" w] by simp

lemma sint_of_nat_31: "n < 2 ^ 31 \<Longrightarrow> sint (of_nat n :: i32) = int n"
  by (simp add: sint_uint take_bit_nat_eq_self signed_take_bit_int_eq_self uint_nat unat_of_nat)

end
