(* ===== verification/SkipTermination.thy ===== *)
theory SkipTermination
  imports Protocol
begin

text \<open>
  Skipping ends on every input, well-formed or not: the header of a struct field or a container
  takes at least one byte off a finite input, and a container has fewer than \<open>2 ^ 32\<close> elements,
  even when the elements take no bytes at all.
\<close>

definition skip_fuel :: "nat \<Rightarrow> nat" where
  "skip_fuel n = (n + 1) * (2 ^ 32 + 2)"

lemma skip_fuel_step: "n < m \<Longrightarrow> skip_fuel n + 2 ^ 32 + 2 \<le> skip_fuel m"
proof -
  assume "n < m"
  then have "(n + 1 + 1) * (2 ^ 32 + 2) \<le> (m + 1) * (2 ^ 32 + 2 :: nat)" by (intro mult_le_mono1) simp
  then show ?thesis by (simp add: skip_fuel_def)
qed

lemma skip_fuel_mono: "n \<le> m \<Longrightarrow> skip_fuel n \<le> skip_fuel m"
  by (simp add: skip_fuel_def)

locale shrinking_reads =
  fixes I :: "'s \<Rightarrow> bool"
    and left :: "'s \<Rightarrow> nat"
begin

text \<open>
  \<open>shrinks j Q m\<close>: the action fails with an exception of the library, or takes at least \<open>j\<close>
  bytes and returns a value with \<open>Q\<close>.
\<close>

definition shrinks :: "nat \<Rightarrow> ('a \<Rightarrow> bool) \<Rightarrow> ('s, 'a) pio \<Rightarrow> bool" where
  "shrinks j Q m \<longleftrightarrow> (\<forall>s. I s \<longrightarrow> (case m s of
       (Inl e, s') \<Rightarrow> e \<noteq> Diverges
     | (Inr (n, x), s') \<Rightarrow> I s' \<and> left s' + j \<le> left s \<and> Q x))"

lemma shrinksD:
  assumes "shrinks j Q m" and "I s"
  obtains e s' where "m s = (Inl e, s')" and "e \<noteq> Diverges"
  | n x s' where "m s = (Inr (n, x), s')" and "I s'" and "left s' + j \<le> left s" and "Q x"
proof -
  have post: "case m s of (Inl e, s') \<Rightarrow> e \<noteq> Diverges
     | (Inr (n, x), s') \<Rightarrow> I s' \<and> left s' + j \<le> left s \<and> Q x"
    by (rule assms(1) [unfolded shrinks_def, rule_format, OF assms(2)])
  show ?thesis
  proof (cases "m s")
    case (Pair r t)
    show ?thesis
    proof (cases r)
      case (Inl e)
      with Pair post show ?thesis by (intro that(1) [of e t]) simp_all
    next
      case (Inr p)
      obtain n x where "p = (n, x)" by (cases p)
      with Inr Pair post show ?thesis by (intro that(2) [of n x t]) simp_all
    qed
  qed
qed

lemma shrinks_retC: "Q x \<Longrightarrow> shrinks 0 Q (retC x)"
  by (simp add: shrinks_def retC_def ret_def)

lemma shrinks_throw: "e \<noteq> Diverges \<Longrightarrow> shrinks j Q (throw e)"
  by (simp add: shrinks_def throw_def)

lemma shrinks_weaken: "shrinks j Q m \<Longrightarrow> i \<le> j \<Longrightarrow> (\<And>x. Q x \<Longrightarrow> Q' x) \<Longrightarrow> shrinks i Q' m"
  unfolding shrinks_def by (auto split: prod.splits sum.splits)

lemma shrinks_bind:
  assumes "shrinks i Q m" and "\<And>x. Q x \<Longrightarrow> shrinks j Q' (f x)"
  shows "shrinks (i + j) Q' (bindC m f)"
  unfolding shrinks_def
proof (intro allI impI)
  fix s
  assume "I s"
  with assms(1) show "case bindC m f s of (Inl e, s') \<Rightarrow> e \<noteq> Diverges
     | (Inr (n, x), s') \<Rightarrow> I s' \<and> left s' + (i + j) \<le> left s \<and> Q' x"
  proof (cases rule: shrinksD)
    case (2 n x t)
    with assms(2) have "shrinks j Q' (f x)" by simp
    then show ?thesis using \<open>I t\<close>
    proof (cases rule: shrinksD)
      case (2 k y u)
      with \<open>m s = (Inr (n, x), t)\<close> \<open>left t + i \<le> left s\<close> show ?thesis by (simp add: bindC_ok)
    next
      case (1 e u)
      with bindC_exc2 [of m s n x t f e u] \<open>m s = (Inr (n, x), t)\<close> show ?thesis by simp
    qed
  qed (simp add: bindC_exc)
qed

text \<open>The same for one state, where the fuel of the rest depends on what is left.\<close>

definition ends :: "('s, 'a) pio \<Rightarrow> 's \<Rightarrow> bool" where
  "ends m s \<longleftrightarrow> (case m s of
       (Inl e, s') \<Rightarrow> e \<noteq> Diverges
     | (Inr (n, x), s') \<Rightarrow> I s' \<and> left s' \<le> left s)"

lemma ends_bind:
  assumes "shrinks i Q m" and "I s"
    and "\<And>n x t. m s = (Inr (n, x), t) \<Longrightarrow> I t \<Longrightarrow> left t + i \<le> left s \<Longrightarrow> Q x \<Longrightarrow> ends (f x) t"
  shows "ends (bindC m f) s"
  using assms(1,2)
proof (cases rule: shrinksD)
  case (2 n x t)
  with assms(3) have "ends (f x) t" by blast
  with 2 show ?thesis
    by (auto simp: ends_def bindC_def bindT_def ret_def split: prod.splits sum.splits)
qed (simp add: ends_def bindC_exc)

lemma ends_bind_ends:
  assumes "ends m s" and "\<And>n x t. I t \<Longrightarrow> left t \<le> left s \<Longrightarrow> ends (f x) t"
  shows "ends (bindC m f) s"
proof (cases "m s")
  case (Pair r t)
  show ?thesis
  proof (cases r)
    case (Inl e)
    with Pair assms(1) show ?thesis by (simp add: ends_def bindC_exc)
  next
    case (Inr p)
    obtain n x where p: "p = (n, x)" by (cases p)
    with Pair Inr assms(1) have "I t" "left t \<le> left s" by (simp_all add: ends_def)
    moreover from this have "ends (f x) t" by (rule assms(2))
    ultimately show ?thesis using Pair Inr p
      by (auto simp: ends_def bindC_def bindT_def ret_def split: prod.splits sum.splits)
  qed
qed

lemma ends_shrinks:
  assumes "shrinks j Q m" and "I s"
  shows "ends m s"
  using assms by (cases rule: shrinksD) (simp_all add: ends_def)

lemma ends_retC: "I s \<Longrightarrow> ends (retC x) s"
  by (simp add: ends_def retC_def ret_def)

end

locale skippable = shrinking_reads I left for I :: "'s \<Rightarrow> bool" and left +
  fixes P :: "'s tprotocol"
  assumes sb: "shrinks 0 (\<lambda>_. True) (readBool_virt P)"
    and s8: "shrinks 0 (\<lambda>_. True) (readByte_virt P)"
    and s16: "shrinks 0 (\<lambda>_. True) (readI16_virt P)"
    and s32: "shrinks 0 (\<lambda>_. True) (readI32_virt P)"
    and s64: "shrinks 0 (\<lambda>_. True) (readI64_virt P)"
    and sd: "shrinks 0 (\<lambda>_. True) (readDouble_virt P)"
    and ss: "shrinks 0 (\<lambda>_. True) (readBinary_virt P)"
    and struct_begin: "shrinks 0 (\<lambda>_. True) (readStructBegin_virt P)"
    and struct_end: "shrinks 0 (\<lambda>_. True) (readStructEnd_virt P)"
    and field_begin: "shrinks 1 (\<lambda>_. True) (readFieldBegin_virt P)"
    and field_end: "shrinks 0 (\<lambda>_. True) (readFieldEnd_virt P)"
    and map_begin: "shrinks 1 (\<lambda>(k, v, n). n < 2 ^ 32) (readMapBegin_virt P)"
    and map_end: "shrinks 0 (\<lambda>_. True) (readMapEnd_virt P)"
    and set_begin: "shrinks 1 (\<lambda>(e, n). n < 2 ^ 32) (readSetBegin_virt P)"
    and set_end: "shrinks 0 (\<lambda>_. True) (readSetEnd_virt P)"
    and list_begin: "shrinks 1 (\<lambda>(e, n). n < 2 ^ 32) (readListBegin_virt P)"
    and list_end: "shrinks 0 (\<lambda>_. True) (readListEnd_virt P)"
begin

text \<open>
  A struct opens without a byte in most protocols, so the fuel of a struct also pays for the turn
  to its field loop.
\<close>

lemma skip_ends_all:
  "(\<forall>s t. I s \<longrightarrow> skip_fuel (left s) + 1 \<le> k \<longrightarrow> ends (skip k P t) s) \<and>
   (\<forall>s. I s \<longrightarrow> skip_fuel (left s) \<le> k \<longrightarrow> ends (skip_fields k P) s) \<and>
   (\<forall>s e n. I s \<longrightarrow> skip_fuel (left s) + n + 2 \<le> k \<longrightarrow> ends (skip_elems k P e n) s) \<and>
   (\<forall>s a b n. I s \<longrightarrow> skip_fuel (left s) + n + 2 \<le> k \<longrightarrow> ends (skip_pairs k P a b n) s)"
proof (induction k)
  case 0
  then show ?case by (auto simp: skip_fuel_def)
next
  case (Suc k)
  have val: "ends (skip k P t) s" if "I s" "skip_fuel (left s) + 1 \<le> k" for t s
    using Suc.IH that by blast
  have fields: "ends (skip_fields k P) s" if "I s" "skip_fuel (left s) \<le> k" for s
    using Suc.IH that by blast
  have elems: "ends (skip_elems k P e n) s" if "I s" "skip_fuel (left s) + n + 2 \<le> k" for e n s
    using Suc.IH that by blast
  have pairs: "ends (skip_pairs k P a b n) s" if "I s" "skip_fuel (left s) + n + 2 \<le> k" for a b n s
    using Suc.IH that by blast
  have mono: "skip_fuel (left t) \<le> skip_fuel (left s)" if "left t \<le> left s" for t s
    using that by (rule skip_fuel_mono)
  have "ends (skip (Suc k) P t) s" if s: "I s" "skip_fuel (left s) + 1 \<le> Suc k" for s t
  proof -
    have scalar: "ends (bindC m (\<lambda>_. retC ())) s" if "shrinks 0 (\<lambda>_. True) m" for m :: "('s, 'x) pio"
      by (rule ends_bind [OF that s(1)]) (rule ends_retC)
    show ?thesis
    proof (cases t)
      case T_STRUCT
      have "ends (bindC (skip_fields k P) (\<lambda>_. readStructEnd_virt P)) u" if "I u" "left u \<le> left s" for u
        using s that mono [OF that(2)]
        by (intro ends_bind_ends [OF fields] ends_shrinks [OF struct_end]) auto
      with s(1) T_STRUCT show ?thesis by (auto intro: ends_bind [OF struct_begin])
    next
      case T_MAP
      have "ends (bindC (skip_pairs k P a b n) (\<lambda>_. readMapEnd_virt P)) u"
        if "I u" "left u + 1 \<le> left s" "n < 2 ^ 32" for u a b n
        using s that skip_fuel_step [of "left u" "left s"]
        by (intro ends_bind_ends [OF pairs] ends_shrinks [OF map_end]) auto
      with s(1) T_MAP show ?thesis by (auto intro: ends_bind [OF map_begin])
    next
      case T_SET
      have "ends (bindC (skip_elems k P a n) (\<lambda>_. readSetEnd_virt P)) u"
        if "I u" "left u + 1 \<le> left s" "n < 2 ^ 32" for u a n
        using s that skip_fuel_step [of "left u" "left s"]
        by (intro ends_bind_ends [OF elems] ends_shrinks [OF set_end]) auto
      with s(1) T_SET show ?thesis by (auto intro: ends_bind [OF set_begin])
    next
      case T_LIST
      have "ends (bindC (skip_elems k P a n) (\<lambda>_. readListEnd_virt P)) u"
        if "I u" "left u + 1 \<le> left s" "n < 2 ^ 32" for u a n
        using s that skip_fuel_step [of "left u" "left s"]
        by (intro ends_bind_ends [OF elems] ends_shrinks [OF list_end]) auto
      with s(1) T_LIST show ?thesis by (auto intro: ends_bind [OF list_begin])
    qed (use s in \<open>simp_all add: scalar sb s8 s16 s32 s64 sd ss ends_retC\<close>)
  qed
  moreover have "ends (skip_fields (Suc k) P) s" if s: "I s" "skip_fuel (left s) \<le> Suc k" for s
  proof -
    have "ends (bindC (skip k P f) (\<lambda>_. bindC (readFieldEnd_virt P) (\<lambda>_. skip_fields k P))) u"
      if "I u" "left u + 1 \<le> left s" for u f
    proof (rule ends_bind_ends)
      have f: "skip_fuel (left u) + 1 \<le> k" using s that skip_fuel_step [of "left u" "left s"] by simp
      then show "ends (skip k P f) u" using that by (intro val)
      fix t
      assume t: "I t" "left t \<le> left u"
      show "ends (bindC (readFieldEnd_virt P) (\<lambda>_. skip_fields k P)) t"
        using ends_bind [OF field_end t(1)] fields f t(2) mono by (metis (no_types, lifting)
            add_leD1 add_0_right le_trans)
    qed
    with s(1) show ?thesis by (auto intro!: ends_bind [OF field_begin] ends_retC)
  qed
  moreover have "ends (skip_elems (Suc k) P e n) s" if s: "I s" "skip_fuel (left s) + n + 2 \<le> Suc k" for s e n
  proof (cases "n = 0")
    case False
    have "ends (bindC (skip k P e) (\<lambda>_. skip_elems k P e (n - 1))) s"
    proof (rule ends_bind_ends)
      show "ends (skip k P e) s" using s by (intro val) auto
      fix t
      assume "I t" "left t \<le> left s"
      then show "ends (skip_elems k P e (n - 1)) t" using s False mono [of t s] by (intro elems) auto
    qed
    with False show ?thesis by simp
  qed (simp add: ends_retC s(1))
  moreover have "ends (skip_pairs (Suc k) P a b n) s" if s: "I s" "skip_fuel (left s) + n + 2 \<le> Suc k" for s a b n
  proof (cases "n = 0")
    case False
    have "ends (bindC (skip k P a) (\<lambda>_. bindC (skip k P b) (\<lambda>_. skip_pairs k P a b (n - 1)))) s"
    proof (rule ends_bind_ends)
      show "ends (skip k P a) s" using s by (intro val) auto
      fix t
      assume t: "I t" "left t \<le> left s"
      show "ends (bindC (skip k P b) (\<lambda>_. skip_pairs k P a b (n - 1))) t"
      proof (rule ends_bind_ends)
        show "ends (skip k P b) t" using s t mono [of t s] False by (intro val) auto
        fix u
        assume "I u" "left u \<le> left t"
        then show "ends (skip_pairs k P a b (n - 1)) u"
          using s False mono [of t s] mono [of u t] t by (intro pairs) auto
      qed
    qed
    with False show ?thesis by simp
  qed (simp add: ends_retC s(1))
  ultimately show ?case by blast
qed

lemma skip_ends:
  assumes "I s" and "skip_fuel (left s) < k"
  shows "fst (skip k P t s) \<noteq> Inl Diverges"
proof -
  have "ends (skip k P t) s" using skip_ends_all [of k] assms by simp
  then show ?thesis by (cases "skip k P t s") (auto simp: ends_def)
qed

end

end
