(* ===== verification/BinaryProtocol.thy ===== *)
theory BinaryProtocol
  imports ProtocolCodec SkipTermination FramedTransport
begin

text \<open>
  \<^verbatim>\<open>TBinaryProtocolT\<close> (\<^verbatim>\<open>protocol/TBinaryProtocol.{h,tcc}\<close>) over an arbitrary transport:
  integers in network order, strings and containers with a four-byte size, no state between the
  calls but the limits and the buffer for strings.
\<close>

record 'u binary =
  bp_trans :: 'u
  string_limit :: int
  container_limit :: int
  strict_read :: bool
  strict_write :: bool
  string_buf :: "bytes option"
  string_buf_size :: int

definition new_TBinaryProtocol :: "'u \<Rightarrow> int \<Rightarrow> int \<Rightarrow> bool \<Rightarrow> bool \<Rightarrow> 'u binary" where
  "new_TBinaryProtocol transport slimit climit sread swrite =
     \<lparr>bp_trans = transport, string_limit = slimit, container_limit = climit, strict_read = sread,
      strict_write = swrite, string_buf = None, string_buf_size = 0\<rparr>"

definition new_TBinaryProtocol_default :: "'u \<Rightarrow> 'u binary" where
  "new_TBinaryProtocol_default transport =
     \<lparr>bp_trans = transport, string_limit = 0, container_limit = 0, strict_read = False,
      strict_write = True, string_buf = None, string_buf_size = 0\<rparr>"

definition setStringSizeLimit :: "int \<Rightarrow> 'u binary \<Rightarrow> 'u binary" where
  "setStringSizeLimit slimit s = s\<lparr>string_limit := slimit\<rparr>"

definition setContainerSizeLimit :: "int \<Rightarrow> 'u binary \<Rightarrow> 'u binary" where
  "setContainerSizeLimit climit s = s\<lparr>container_limit := climit\<rparr>"

definition setStrict :: "bool \<Rightarrow> bool \<Rightarrow> 'u binary \<Rightarrow> 'u binary" where
  "setStrict sread swrite s = s\<lparr>strict_read := sread, strict_write := swrite\<rparr>"

definition VERSION_MASK :: i32 where
  "VERSION_MASK = 0xffff0000"

definition VERSION_1 :: i32 where
  "VERSION_1 = 0x80010000"

definition bp_call :: "('u, 'a) tio \<Rightarrow> ('u binary, 'a) tio" where
  [tio_simps]: "bp_call = on_part bp_trans (\<lambda>u s. s\<lparr>bp_trans := u\<rparr>)"

unbundle bit_operations_syntax

section \<open>Writing\<close>

definition bin_write :: "'u ttransport \<Rightarrow> bytes \<Rightarrow> ('u binary, unit) pio" where
  "bin_write U bs = countC (length bs) (bp_call (t_write U bs))"

definition bin_writeBool :: "'u ttransport \<Rightarrow> bool \<Rightarrow> ('u binary, unit) pio" where
  "bin_writeBool U v = bin_write U [if v then 1 else 0]"

definition bin_writeByte :: "'u ttransport \<Rightarrow> u8 \<Rightarrow> ('u binary, unit) pio" where
  "bin_writeByte U w = bin_write U [w]"

definition bin_writeI16 :: "'u ttransport \<Rightarrow> i16 \<Rightarrow> ('u binary, unit) pio" where
  "bin_writeI16 U w = bin_write U (be_bytes 2 (unat w))"

definition bin_writeI32 :: "'u ttransport \<Rightarrow> i32 \<Rightarrow> ('u binary, unit) pio" where
  "bin_writeI32 U w = bin_write U (be_bytes 4 (unat w))"

definition bin_writeI64 :: "'u ttransport \<Rightarrow> i64 \<Rightarrow> ('u binary, unit) pio" where
  "bin_writeI64 U w = bin_write U (be_bytes 8 (unat w))"

definition bin_writeDouble :: "'u ttransport \<Rightarrow> i64 \<Rightarrow> ('u binary, unit) pio" where
  "bin_writeDouble U bits = bin_write U (be_bytes 8 (unat bits))"

definition bin_writeString :: "'u ttransport \<Rightarrow> bytes \<Rightarrow> ('u binary, unit) pio" where
  "bin_writeString U str =
     (let sz = u32 (length str) in
      bindC (bin_writeI32 U (of_nat sz)) (\<lambda>_.
      if sz > 0 then bin_write U (take sz str) else retC ()))"

definition bin_writeBinary :: "'u ttransport \<Rightarrow> bytes \<Rightarrow> ('u binary, unit) pio" where
  "bin_writeBinary U str = bin_writeString U str"

definition bin_writeMessageBegin ::
  "'u ttransport \<Rightarrow> bytes \<Rightarrow> tmessage_type \<Rightarrow> i32 \<Rightarrow> ('u binary, unit) pio" where
  "bin_writeMessageBegin U name messageType seqid s =
     (if strict_write s then
        bindC (bin_writeI32 U (VERSION_1 OR msg_code messageType)) (\<lambda>_.
        bindC (bin_writeString U name) (\<lambda>_. bin_writeI32 U seqid))
      else
        bindC (bin_writeString U name) (\<lambda>_.
        bindC (bin_writeByte U (ucast (msg_code messageType))) (\<lambda>_. bin_writeI32 U seqid))) s"

definition bin_writeMessageEnd :: "('u binary, unit) pio" where
  "bin_writeMessageEnd = retC ()"

definition bin_writeStructBegin :: "bytes \<Rightarrow> ('u binary, unit) pio" where
  "bin_writeStructBegin name = retC ()"

definition bin_writeStructEnd :: "('u binary, unit) pio" where
  "bin_writeStructEnd = retC ()"

definition bin_writeFieldBegin :: "'u ttransport \<Rightarrow> bytes \<Rightarrow> ttype \<Rightarrow> i16 \<Rightarrow> ('u binary, unit) pio" where
  "bin_writeFieldBegin U name fieldType fieldId =
     bindC (bin_writeByte U (ttype_code fieldType)) (\<lambda>_. bin_writeI16 U fieldId)"

definition bin_writeFieldEnd :: "('u binary, unit) pio" where
  "bin_writeFieldEnd = retC ()"

definition bin_writeFieldStop :: "'u ttransport \<Rightarrow> ('u binary, unit) pio" where
  "bin_writeFieldStop U = bin_writeByte U (ttype_code T_STOP)"

definition bin_writeMapBegin :: "'u ttransport \<Rightarrow> ttype \<Rightarrow> ttype \<Rightarrow> nat \<Rightarrow> ('u binary, unit) pio" where
  "bin_writeMapBegin U keyType valType sz =
     bindC (bin_writeByte U (ttype_code keyType)) (\<lambda>_.
     bindC (bin_writeByte U (ttype_code valType)) (\<lambda>_. bin_writeI32 U (of_nat sz)))"

definition bin_writeMapEnd :: "('u binary, unit) pio" where
  "bin_writeMapEnd = retC ()"

definition bin_writeListBegin :: "'u ttransport \<Rightarrow> ttype \<Rightarrow> nat \<Rightarrow> ('u binary, unit) pio" where
  "bin_writeListBegin U elemType sz =
     bindC (bin_writeByte U (ttype_code elemType)) (\<lambda>_. bin_writeI32 U (of_nat sz))"

definition bin_writeListEnd :: "('u binary, unit) pio" where
  "bin_writeListEnd = retC ()"

definition bin_writeSetBegin :: "'u ttransport \<Rightarrow> ttype \<Rightarrow> nat \<Rightarrow> ('u binary, unit) pio" where
  "bin_writeSetBegin U elemType sz =
     bindC (bin_writeByte U (ttype_code elemType)) (\<lambda>_. bin_writeI32 U (of_nat sz))"

definition bin_writeSetEnd :: "('u binary, unit) pio" where
  "bin_writeSetEnd = retC ()"

section \<open>Reading\<close>

text \<open>An exact read of \<open>n\<close> bytes, and what it makes of them.\<close>

definition bin_readAll :: "'u ttransport \<Rightarrow> nat \<Rightarrow> (bytes \<Rightarrow> 'a) \<Rightarrow> ('u binary, 'a) pio" where
  "bin_readAll U n f = countC n (bindT (bp_call (t_readAll U n)) (\<lambda>bs. ret (f bs)))"

definition bin_readBool :: "'u ttransport \<Rightarrow> ('u binary, bool) pio" where
  "bin_readBool U = bin_readAll U 1 (\<lambda>bs. be_nat bs \<noteq> 0)"

definition bin_readByte :: "'u ttransport \<Rightarrow> ('u binary, u8) pio" where
  "bin_readByte U = bin_readAll U 1 (\<lambda>bs. of_nat (be_nat bs))"

definition bin_readI16 :: "'u ttransport \<Rightarrow> ('u binary, i16) pio" where
  "bin_readI16 U = bin_readAll U 2 (\<lambda>bs. of_nat (be_nat bs))"

definition bin_readI32 :: "'u ttransport \<Rightarrow> ('u binary, i32) pio" where
  "bin_readI32 U = bin_readAll U 4 (\<lambda>bs. of_nat (be_nat bs))"

definition bin_readI64 :: "'u ttransport \<Rightarrow> ('u binary, i64) pio" where
  "bin_readI64 U = bin_readAll U 8 (\<lambda>bs. of_nat (be_nat bs))"

definition bin_readDouble :: "'u ttransport \<Rightarrow> ('u binary, i64) pio" where
  "bin_readDouble U = bin_readAll U 8 (\<lambda>bs. of_nat (be_nat bs))"

text \<open>The string buffer grows to the longest string read so far.\<close>

definition string_buf_grow :: "int \<Rightarrow> 'u binary \<Rightarrow> 'u binary" where
  "string_buf_grow sz s =
     (if sz > string_buf_size s \<or> string_buf s = None
      then s\<lparr>string_buf := Some (resize (nat sz) (case string_buf s of None \<Rightarrow> [] | Some b \<Rightarrow> b)),
             string_buf_size := sz\<rparr>
      else s)"

definition string_mem :: "'u binary \<Rightarrow> bytes" where
  "string_mem s = (case string_buf s of None \<Rightarrow> [] | Some b \<Rightarrow> b)"

definition bin_readStringBody :: "'u ttransport \<Rightarrow> int \<Rightarrow> ('u binary, bytes) pio" where
  "bin_readStringBody U sz s =
     (if sz < 0 then throw (TProtocolException PE_NEGATIVE_SIZE)
      else if string_limit s > 0 \<and> sz > string_limit s then throw (TProtocolException PE_SIZE_LIMIT)
      else if sz = 0 then retC []
      else
        bindT (bp_call (t_borrow U (nat sz))) (\<lambda>borrow_buf.
        case borrow_buf of
          Some b \<Rightarrow>
            if length b < nat sz then throw UndefinedBehaviour
            else countC (nat sz) (bindT (bp_call (t_consume U (nat sz))) (\<lambda>_. ret (take (nat sz) b)))
        | None \<Rightarrow>
            bindT (modify (string_buf_grow sz)) (\<lambda>_.
            bindT (bp_call (t_readAll U (nat sz))) (\<lambda>bs.
            bindT (store string_mem (\<lambda>f s. s\<lparr>string_buf := map_option f (string_buf s)\<rparr>) 0 bs) (\<lambda>_.
            countC (nat sz) (load string_mem 0 (nat sz))))))) s"

definition bin_readString :: "'u ttransport \<Rightarrow> ('u binary, bytes) pio" where
  "bin_readString U = bindC (bin_readI32 U) (\<lambda>sz. bin_readStringBody U (sint sz))"

definition bin_readBinary :: "'u ttransport \<Rightarrow> ('u binary, bytes) pio" where
  "bin_readBinary U = bin_readString U"

definition bin_readMessageBegin :: "'u ttransport \<Rightarrow> ('u binary, bytes \<times> tmessage_type \<times> i32) pio" where
  "bin_readMessageBegin U =
     bindC (bin_readI32 U) (\<lambda>sz s.
       (if sint sz < 0 then
          if sz AND VERSION_MASK \<noteq> VERSION_1 then throw (TProtocolException PE_BAD_VERSION)
          else
            bindC (bin_readString U) (\<lambda>name. bindC (bin_readI32 U) (\<lambda>seqid.
            retC (name, msg_of (sz AND 0xff), seqid)))
        else if strict_read s then throw (TProtocolException PE_BAD_VERSION)
        else
          bindC (bin_readStringBody U (sint sz)) (\<lambda>name.
          bindC (bin_readByte U) (\<lambda>type. bindC (bin_readI32 U) (\<lambda>seqid.
          retC (name, msg_of (scast type), seqid))))) s)"

definition bin_readMessageEnd :: "('u binary, unit) pio" where
  "bin_readMessageEnd = retC ()"

definition bin_readStructBegin :: "('u binary, bytes) pio" where
  "bin_readStructBegin = retC []"

definition bin_readStructEnd :: "('u binary, unit) pio" where
  "bin_readStructEnd = retC ()"

definition bin_readFieldBegin :: "'u ttransport \<Rightarrow> ('u binary, bytes \<times> ttype \<times> i16) pio" where
  "bin_readFieldBegin U =
     bindC (bin_readByte U) (\<lambda>type.
     let fieldType = ttype_of type in
     if fieldType = T_STOP then retC ([], T_STOP, 0)
     else bindC (bin_readI16 U) (\<lambda>fieldId. retC ([], fieldType, fieldId)))"

definition bin_readFieldEnd :: "('u binary, unit) pio" where
  "bin_readFieldEnd = retC ()"

text \<open>The check of a container size against 0 and the limit.\<close>

definition bin_checkSize :: "int \<Rightarrow> ('u binary, nat) pio" where
  "bin_checkSize sizei s =
     (if sizei < 0 then throw (TProtocolException PE_NEGATIVE_SIZE)
      else if container_limit s \<noteq> 0 \<and> sizei > container_limit s
      then throw (TProtocolException PE_SIZE_LIMIT)
      else retC (nat sizei)) s"

definition bin_readMapBegin :: "'u ttransport \<Rightarrow> ('u binary, ttype \<times> ttype \<times> nat) pio" where
  "bin_readMapBegin U =
     bindC (bin_readByte U) (\<lambda>k. bindC (bin_readByte U) (\<lambda>v. bindC (bin_readI32 U) (\<lambda>sizei.
     bindC (bin_checkSize (sint sizei)) (\<lambda>sz. retC (ttype_of k, ttype_of v, sz)))))"

definition bin_readMapEnd :: "('u binary, unit) pio" where
  "bin_readMapEnd = retC ()"

definition bin_readListBegin :: "'u ttransport \<Rightarrow> ('u binary, ttype \<times> nat) pio" where
  "bin_readListBegin U =
     bindC (bin_readByte U) (\<lambda>e. bindC (bin_readI32 U) (\<lambda>sizei.
     bindC (bin_checkSize (sint sizei)) (\<lambda>sz. retC (ttype_of e, sz))))"

definition bin_readListEnd :: "('u binary, unit) pio" where
  "bin_readListEnd = retC ()"

definition bin_readSetBegin :: "'u ttransport \<Rightarrow> ('u binary, ttype \<times> nat) pio" where
  "bin_readSetBegin U =
     bindC (bin_readByte U) (\<lambda>e. bindC (bin_readI32 U) (\<lambda>sizei.
     bindC (bin_checkSize (sint sizei)) (\<lambda>sz. retC (ttype_of e, sz))))"

definition bin_readSetEnd :: "('u binary, unit) pio" where
  "bin_readSetEnd = retC ()"

definition binary_protocol :: "'u ttransport \<Rightarrow> 'u binary tprotocol" where
  "binary_protocol U = \<lparr>
     writeMessageBegin_virt = bin_writeMessageBegin U, writeMessageEnd_virt = bin_writeMessageEnd,
     writeStructBegin_virt = bin_writeStructBegin, writeStructEnd_virt = bin_writeStructEnd,
     writeFieldBegin_virt = bin_writeFieldBegin U, writeFieldEnd_virt = bin_writeFieldEnd,
     writeFieldStop_virt = bin_writeFieldStop U, writeMapBegin_virt = bin_writeMapBegin U,
     writeMapEnd_virt = bin_writeMapEnd, writeListBegin_virt = bin_writeListBegin U,
     writeListEnd_virt = bin_writeListEnd, writeSetBegin_virt = bin_writeSetBegin U,
     writeSetEnd_virt = bin_writeSetEnd, writeBool_virt = bin_writeBool U,
     writeByte_virt = bin_writeByte U, writeI16_virt = bin_writeI16 U,
     writeI32_virt = bin_writeI32 U, writeI64_virt = bin_writeI64 U,
     writeDouble_virt = bin_writeDouble U, writeString_virt = bin_writeString U,
     writeBinary_virt = bin_writeBinary U,
     readMessageBegin_virt = bin_readMessageBegin U, readMessageEnd_virt = bin_readMessageEnd,
     readStructBegin_virt = bin_readStructBegin, readStructEnd_virt = bin_readStructEnd,
     readFieldBegin_virt = bin_readFieldBegin U, readFieldEnd_virt = bin_readFieldEnd,
     readMapBegin_virt = bin_readMapBegin U, readMapEnd_virt = bin_readMapEnd,
     readListBegin_virt = bin_readListBegin U, readListEnd_virt = bin_readListEnd,
     readSetBegin_virt = bin_readSetBegin U, readSetEnd_virt = bin_readSetEnd,
     readBool_virt = bin_readBool U, readByte_virt = bin_readByte U, readI16_virt = bin_readI16 U,
     readI32_virt = bin_readI32 U, readI64_virt = bin_readI64 U, readDouble_virt = bin_readDouble U,
     readString_virt = bin_readString U, readBinary_virt = bin_readBinary U\<rparr>"


section \<open>The binary protocol is a codec\<close>

definition string_buf_ok :: "'u binary \<Rightarrow> bool" where
  "string_buf_ok s \<longleftrightarrow> (\<forall>b. string_buf s = Some b \<longrightarrow> int (length b) = string_buf_size s)"

definition bin_W :: "('u \<Rightarrow> bool) \<Rightarrow> bool \<Rightarrow> unit \<Rightarrow> 'u binary \<Rightarrow> bool" where
  "bin_W winv sw c s \<longleftrightarrow> winv (bp_trans s) \<and> strict_write s = sw"

definition bin_R :: "('u \<Rightarrow> bool) \<Rightarrow> int \<Rightarrow> int \<Rightarrow> bool \<Rightarrow> unit \<Rightarrow> 'u binary \<Rightarrow> bool" where
  "bin_R rinv sl cl sr c s \<longleftrightarrow> rinv (bp_trans s) \<and> string_limit s = sl \<and> container_limit s = cl \<and>
     strict_read s = sr \<and> string_buf_ok s"

lemma bin_set_trans [simp]:
  "string_buf_ok (s\<lparr>bp_trans := u\<rparr>) = string_buf_ok s"
  "string_limit (s\<lparr>bp_trans := u\<rparr>) = string_limit s"
  "container_limit (s\<lparr>bp_trans := u\<rparr>) = container_limit s"
  "strict_read (s\<lparr>bp_trans := u\<rparr>) = strict_read s"
  "strict_write (s\<lparr>bp_trans := u\<rparr>) = strict_write s"
  "string_buf (s\<lparr>bp_trans := u\<rparr>) = string_buf s"
  "string_buf_size (s\<lparr>bp_trans := u\<rparr>) = string_buf_size s"
  "string_mem (s\<lparr>bp_trans := u\<rparr>) = string_mem s"
  "bp_trans (s\<lparr>bp_trans := u\<rparr>) = u"
  by (simp_all add: string_buf_ok_def string_mem_def)

lemma string_buf_grow_ok:
  assumes "string_buf_ok t"
  shows "\<exists>m. string_buf (string_buf_grow (int n) t) = Some m \<and> n \<le> length m \<and>
      int (length m) = string_buf_size (string_buf_grow (int n) t)"
    and "bp_trans (string_buf_grow (int n) t) = bp_trans t"
    and "string_limit (string_buf_grow (int n) t) = string_limit t"
    and "container_limit (string_buf_grow (int n) t) = container_limit t"
    and "strict_read (string_buf_grow (int n) t) = strict_read t"
  using assms by (auto simp: string_buf_grow_def string_buf_ok_def)

context byte_channel
begin

abbreviation bin_emits :: "bool \<Rightarrow> ('s binary, 'x) pio \<Rightarrow> bytes \<Rightarrow> 'x \<Rightarrow> bool" where
  "bin_emits sw m bs x \<equiv> codec_base.emits (bin_W winv sw) (\<lambda>s. room (bp_trans s))
     (\<lambda>s. written (bp_trans s)) () m bs x ()"

abbreviation bin_takes :: "int \<Rightarrow> int \<Rightarrow> bool \<Rightarrow> ('s binary, 'x) pio \<Rightarrow> bytes \<Rightarrow> 'x \<Rightarrow> bool" where
  "bin_takes sl cl sr m bs x \<equiv> codec_base.takes (bin_R rinv sl cl sr) (\<lambda>s. pending (bp_trans s)) () m bs x ()"

abbreviation bin_transfers :: "int \<Rightarrow> int \<Rightarrow> bool \<Rightarrow> bool \<Rightarrow> nat \<Rightarrow> ('s binary, unit) pio \<Rightarrow> ('s binary, 'x) pio \<Rightarrow> 'x \<Rightarrow> bool" where
  "bin_transfers sl cl sr sw k m m' x \<equiv> codec_base.transfers (bin_W winv sw) (\<lambda>s. room (bp_trans s))
     (\<lambda>s. written (bp_trans s)) (bin_R rinv sl cl sr) (\<lambda>s. pending (bp_trans s)) k () m m' x ()"

lemma bin_emits_write:
  assumes "length bs < 2 ^ 32"
  shows "bin_emits sw (bin_write T bs) bs ()"
  unfolding codec_base.emits_def
proof (intro allI impI)
  fix s n
  assume s: "bin_W winv sw () s" and "room (bp_trans s) (length bs + n)"
  then obtain u where "t_write T bs (bp_trans s) = (Inr (), u)" "winv u"
      "written u = written (bp_trans s) @ bs" "room u n"
    unfolding bin_W_def using write_whole by blast
  with assms s show "\<exists>s'. bin_write T bs s = (Inr (u32 (length bs), ()), s') \<and> bin_W winv sw () s' \<and>
      written (bp_trans s') = written (bp_trans s) @ bs \<and> room (bp_trans s') n"
    by (simp add: bin_write_def countC_def tio_simps bin_W_def)
qed

lemma bin_takes_readAll:
  assumes "length bs = n" and "n < 2 ^ 32"
  shows "bin_takes sl cl sr (bin_readAll T n f) bs (f bs)"
  unfolding codec_base.takes_def
proof (intro allI impI)
  fix s rest
  assume s: "bin_R rinv sl cl sr () s" and p: "pending (bp_trans s) = bs @ rest"
  then have "rinv (bp_trans s)" by (simp add: bin_R_def)
  from read_whole [OF this p] obtain u where "t_readAll T (length bs) (bp_trans s) = (Inr bs, u)"
      "rinv u" "pending u = rest" by blast
  with assms s show "\<exists>s'. bin_readAll T n f s = (Inr (u32 (length bs), f bs), s') \<and>
      bin_R rinv sl cl sr () s' \<and> pending (bp_trans s') = rest"
    by (simp add: bin_readAll_def countC_def tio_simps bin_R_def)
qed

lemma bin_transfers_bytes:
  assumes "length bs = n" and "n < 2 ^ 32" and "f bs = x"
  shows "bin_transfers sl cl sr sw n (bin_write T bs) (bin_readAll T n f) x"
  using bin_emits_write [of bs] bin_takes_readAll [of bs n] assms
  unfolding codec_base.transfers_def by (intro exI [of _ bs]) auto

lemma bin_scalars:
  "bin_transfers sl cl sr sw 1 (bin_writeBool T b) (bin_readBool T) b"
  "bin_transfers sl cl sr sw 1 (bin_writeByte T w8) (bin_readByte T) w8"
  "bin_transfers sl cl sr sw 2 (bin_writeI16 T w16) (bin_readI16 T) w16"
  "bin_transfers sl cl sr sw 4 (bin_writeI32 T w32) (bin_readI32 T) w32"
  "bin_transfers sl cl sr sw 8 (bin_writeI64 T w64) (bin_readI64 T) w64"
  "bin_transfers sl cl sr sw 8 (bin_writeDouble T w64) (bin_readDouble T) w64"
  unfolding bin_writeBool_def bin_readBool_def bin_writeByte_def bin_readByte_def bin_writeI16_def
    bin_readI16_def bin_writeI32_def bin_readI32_def bin_writeI64_def bin_readI64_def
    bin_writeDouble_def bin_readDouble_def
  by (rule bin_transfers_bytes; simp del: be_nat_be_bytes)+

lemma bin_readStringBody_takes:
  assumes "str_within sl (length bs)"
  shows "bin_takes sl cl sr (bin_readStringBody T (int (length bs))) bs bs"
  unfolding codec_base.takes_def
proof (intro allI impI)
  fix s rest
  assume s: "bin_R rinv sl cl sr () s" and p: "pending (bp_trans s) = bs @ rest"
  let ?n = "length bs"
  have n: "?n < 2 ^ 31" "0 < sl \<longrightarrow> int ?n \<le> sl" using assms by (simp_all add: str_within_def)
  have S: "rinv (bp_trans s)" "string_limit s = sl" "string_buf_ok s" using s by (simp_all add: bin_R_def)
  show "\<exists>s'. bin_readStringBody T (int ?n) s = (Inr (u32 ?n, bs), s') \<and> bin_R rinv sl cl sr () s' \<and>
      pending (bp_trans s') = rest"
  proof (cases "bs = []")
    case True
    with s p show ?thesis by (simp add: bin_readStringBody_def tio_simps S(2))
  next
    case False
    from src.borrow_ok [OF S(1), of ?n] obtain r u where b: "t_borrow T ?n (bp_trans s) = (Inr r, u)"
      "rinv u" "pending u = pending (bp_trans s)"
      "\<forall>bs'. r = Some bs' \<longrightarrow> ?n \<le> length bs' \<and> take (length bs') (pending (bp_trans s)) = bs' \<and>
          (\<forall>m \<le> length bs'. \<exists>s''. t_consume T m u = (Inr (), s'') \<and> rinv s'' \<and>
             pending s'' = drop m (pending (bp_trans s)))" by blast
    show ?thesis
    proof (cases r)
      case (Some b')
      with b(4) have b': "?n \<le> length b'" "take (length b') (pending (bp_trans s)) = b'" by auto
      from b(4) Some b'(1) obtain v where v: "t_consume T ?n u = (Inr (), v)" "rinv v" "pending v = rest"
        using p by auto
      have "take ?n b' = bs"
        using b' p by (metis append_eq_conv_conj min.absorb1 take_take)
      then show ?thesis using False S(2,3) n s b(1) Some v b'(1)
        by (auto simp: bin_readStringBody_def tio_simps countC_def bin_R_def)
    next
      case None
      let ?g = "string_buf_grow (int ?n) s"
      from read_whole [OF b(2)] b(3) p obtain v where v: "t_readAll T ?n u = (Inr bs, v)" "rinv v"
          "pending v = rest" by auto
      obtain t m where t: "string_buf_grow (int ?n) (s\<lparr>bp_trans := u\<rparr>) = t" "bp_trans t = u"
          "string_limit t = sl" "container_limit t = cl" "strict_read t = sr" "string_buf t = Some m" "?n \<le> length m"
          "int (length m) = string_buf_size t"
        using string_buf_grow_ok [of "s\<lparr>bp_trans := u\<rparr>" ?n] S s by (auto simp: bin_R_def)
      define t' where "t' = t\<lparr>bp_trans := v, string_buf := Some (splice 0 bs m)\<rparr>"
      have "bin_R rinv sl cl sr () t'" "pending (bp_trans t') = rest"
        using t v by (simp_all add: t'_def string_buf_ok_def bin_R_def)
      moreover have "take ?n (splice 0 bs m) = bs" by (simp add: splice_def)
      then have "bin_readStringBody T (int ?n) s = (Inr (u32 ?n, bs), t')"
        using False S(2) n b(1) None v(1) t
        by (auto simp: bin_readStringBody_def tio_simps countC_def t'_def string_mem_def)
      ultimately show ?thesis by blast
    qed
  qed
qed

lemmas codec_defs = codec_base.transfers_def

lemma bin_emits_bind:
  "bin_emits sw m bs x \<Longrightarrow> bin_emits sw (f x) cs y \<Longrightarrow> bin_emits sw (bindC m f) (bs @ cs) y"
  by (rule codec_base.emits_bind)

lemma bin_takes_bind:
  "bin_takes sl cl sr m bs x \<Longrightarrow> bin_takes sl cl sr (f x) cs y \<Longrightarrow> bin_takes sl cl sr (bindC m f) (bs @ cs) y"
  by (rule codec_base.takes_bind)

lemma bin_transfers_bind:
  "bin_transfers sl cl sr sw j m m' x \<Longrightarrow> bin_transfers sl cl sr sw k n (n' x) y \<Longrightarrow>
   bin_transfers sl cl sr sw (j + k) (bindC m (\<lambda>_. n)) (bindC m' n') y"
  by (rule codec_base.transfers_bind)

lemma bin_transfers_retC: "bin_transfers sl cl sr sw k (retC ()) (retC x) x"
  using codec_base.emits_retC codec_base.takes_retC
  unfolding codec_base.transfers_def by (intro exI [of _ "[]"]) auto

lemma bin_transfers_map:
  "bin_transfers sl cl sr sw k m m' x \<Longrightarrow> bin_transfers sl cl sr sw k m (bindC m' (\<lambda>y. retC (g y))) (g x)"
  by (rule codec_base.transfers_map)

lemma bin_string:
  assumes "str_within sl (length str)"
  shows "bin_transfers sl cl sr sw (4 + length str) (bin_writeString T str) (bin_readString T) str"
proof -
  have n: "length str < 2 ^ 31" using assms by (simp add: str_within_def)
  then have u: "u32 (length str) = length str" by simp
  have "bin_emits sw (if length str > 0 then bin_write T str else retC ()) str ()"
    using n bin_emits_write [of str] codec_base.emits_retC by (cases "str = []") auto
  moreover have "bin_takes sl cl sr (bin_readStringBody T (sint (of_nat (length str) :: i32))) str str"
    using bin_readStringBody_takes [OF assms] sint_of_nat_31 [OF n] by simp
  ultimately have "bin_transfers sl cl sr sw (length str) (if length str > 0 then bin_write T str else retC ())
      (bin_readStringBody T (sint (of_nat (length str) :: i32))) str"
    unfolding codec_base.transfers_def by blast
  then show ?thesis
    unfolding bin_writeString_def bin_readString_def Let_def u
    by (intro bin_transfers_bind [OF bin_scalars(4)]) (simp only: take_all order_refl)
qed

lemma bin_size:
  assumes "con_within cl n"
  shows "bin_takes sl cl sr (bin_checkSize (sint (of_nat n :: i32))) [] n"
  using assms sint_of_nat_31 [of n] unfolding codec_base.takes_def con_within_def
  by (auto simp: bin_checkSize_def tio_simps bin_R_def)

lemma bin_con_size:
  assumes "con_within cl n"
  shows "bin_transfers sl cl sr sw 4 (bin_writeI32 T (of_nat n))
    (bindC (bin_readI32 T) (\<lambda>sizei. bindC (bin_checkSize (sint sizei)) (\<lambda>sz. retC (g sz)))) (g n)"
proof -
  from bin_scalars(4) [of sw sl cl sr "of_nat n"] obtain bs where bs: "bin_emits sw (bin_writeI32 T (of_nat n)) bs ()" "length bs \<le> 4"
      "bin_takes sl cl sr (bin_readI32 T) bs (of_nat n)"
    unfolding codec_base.transfers_def by blast
  have "bin_takes sl cl sr (bindC (bin_readI32 T)
      (\<lambda>sizei. bindC (bin_checkSize (sint sizei)) (\<lambda>sz. retC (g sz)))) (bs @ []) (g n)"
    by (rule bin_takes_bind [OF bs(3)], rule codec_base.takes_map, rule bin_size [OF assms])
  with bs(1,2) show ?thesis unfolding codec_base.transfers_def by auto
qed

lemma bin_field:
  assumes "data_type t"
  shows "bin_transfers sl cl sr sw (1 + 2) (bin_writeFieldBegin T nm t i) (bin_readFieldBegin T) ([], t, i)"
proof -
  have "t \<noteq> T_STOP" using assms by auto
  then have "bin_transfers sl cl sr sw 2 (bin_writeI16 T i) ((\<lambda>type. let fieldType = ttype_of type in
     if fieldType = T_STOP then retC ([], T_STOP, 0)
     else bindC (bin_readI16 T) (\<lambda>fieldId. retC ([], fieldType, fieldId))) (ttype_code t)) ([], t, i)"
    using assms bin_transfers_map [OF bin_scalars(3), of sw sl cl sr i "\<lambda>i. ([], t, i)"] by simp
  then show ?thesis
    unfolding bin_writeFieldBegin_def bin_readFieldBegin_def
    by (intro bin_transfers_bind [OF bin_scalars(2)])
qed

lemma bin_stop: "bin_transfers sl cl sr sw 1 (bin_writeFieldStop T) (bin_readFieldBegin T) ([], T_STOP, 0)"
proof -
  have "bin_transfers sl cl sr sw 0 (retC ()) ((\<lambda>type. let fieldType = ttype_of type in
     if fieldType = T_STOP then retC ([], T_STOP, 0)
     else bindC (bin_readI16 T) (\<lambda>fieldId. retC ([], fieldType, fieldId))) (ttype_code T_STOP)) ([], T_STOP, 0)"
    using bin_transfers_retC ttype_of_code [of T_STOP] by simp
  then have "bin_transfers sl cl sr sw (1 + 0) (bindC (bin_writeByte T (ttype_code T_STOP)) (\<lambda>_. retC ()))
      (bin_readFieldBegin T) ([], T_STOP, 0)"
    unfolding bin_readFieldBegin_def by (intro bin_transfers_bind [OF bin_scalars(2)])
  moreover have "bindC (bin_writeByte T w) (\<lambda>_. retC ()) = bin_writeByte T w" for w
    by (rule ext) (simp add: bin_writeByte_def bin_write_def countC_def bindC_def tio_simps
        split: prod.splits sum.splits)
  ultimately show ?thesis by (simp add: bin_writeFieldStop_def)
qed

lemma bin_collection:
  assumes "con_within cl n" and "data_type t"
  shows "bin_transfers sl cl sr sw (1 + 4) (bindC (bin_writeByte T (ttype_code t)) (\<lambda>_. bin_writeI32 T (of_nat n)))
    (bindC (bin_readByte T) (\<lambda>e. bindC (bin_readI32 T) (\<lambda>sizei.
     bindC (bin_checkSize (sint sizei)) (\<lambda>sz. retC (ttype_of e, sz))))) (t, n)"
proof -
  have "bin_transfers sl cl sr sw 4 (bin_writeI32 T (of_nat n)) ((\<lambda>e. bindC (bin_readI32 T) (\<lambda>sizei.
     bindC (bin_checkSize (sint sizei)) (\<lambda>sz. retC (ttype_of e, sz)))) (ttype_code t)) (t, n)"
    using bin_con_size [OF assms(1), of sw sl sr "\<lambda>sz. (t, sz)"] assms(2) by simp
  then show ?thesis by (intro bin_transfers_bind [OF bin_scalars(2)])
qed

lemma bin_map:
  assumes "con_within cl n" and "data_type kt" and "data_type vt"
  shows "bin_transfers sl cl sr sw (1 + (1 + 4)) (bin_writeMapBegin T kt vt n) (bin_readMapBegin T) (kt, vt, n)"
proof -
  have "bin_transfers sl cl sr sw 4 (bin_writeI32 T (of_nat n)) (bindC (bin_readI32 T) (\<lambda>sizei.
     bindC (bin_checkSize (sint sizei)) (\<lambda>sz. retC (kt, vt, sz)))) (kt, vt, n)"
    using bin_con_size [OF assms(1), of sw sl sr "\<lambda>sz. (kt, vt, sz)"] by simp
  then show ?thesis unfolding bin_writeMapBegin_def bin_readMapBegin_def
    by (intro bin_transfers_bind [OF bin_scalars(2)]) (simp add: assms(2,3))
qed

lemma bin_bool_field:
  "\<exists>m bs cs. bin_emits sw (bindC (bin_writeFieldBegin T nm T_BOOL i) (\<lambda>_. bin_writeBool T b)) (bs @ cs) () \<and>
     length (bs @ cs) \<le> 16 \<and>
     bin_takes sl cl sr (bin_readFieldBegin T) bs (m, T_BOOL, i) \<and> bin_takes sl cl sr (bin_readBool T) cs b"
proof -
  obtain bs where bs: "bin_emits sw (bin_writeFieldBegin T nm T_BOOL i) bs ()" "length bs \<le> 3"
      "bin_takes sl cl sr (bin_readFieldBegin T) bs ([], T_BOOL, i)"
    using bin_field [of T_BOOL sw sl cl sr nm i] unfolding codec_base.transfers_def by auto
  obtain cs where cs: "bin_emits sw (bin_writeBool T b) cs ()" "length cs \<le> 1"
      "bin_takes sl cl sr (bin_readBool T) cs b"
    using bin_scalars(1) [of sw sl cl sr b] unfolding codec_base.transfers_def by auto
  from bin_emits_bind [OF bs(1) cs(1)] bs(2,3) cs(2,3) show ?thesis
    by (intro exI [of _ "[]"] exI [of _ bs] exI [of _ cs]) simp
qed

lemma bin_transfers_le: "bin_transfers sl cl sr sw j m m' x \<Longrightarrow> j \<le> k \<Longrightarrow> bin_transfers sl cl sr sw k m m' x"
  by (rule codec_base.transfers_le)

lemma bin_laws:
  "bin_transfers sl cl sr sw 8 (bin_writeBool T b) (bin_readBool T) b"
  "bin_transfers sl cl sr sw 8 (bin_writeByte T w8) (bin_readByte T) w8"
  "bin_transfers sl cl sr sw 8 (bin_writeI16 T w16) (bin_readI16 T) w16"
  "bin_transfers sl cl sr sw 8 (bin_writeI32 T w32) (bin_readI32 T) w32"
  "bin_transfers sl cl sr sw 8 (bin_writeI64 T w64) (bin_readI64 T) w64"
  "bin_transfers sl cl sr sw 8 (bin_writeDouble T w64) (bin_readDouble T) w64"
  "str_within sl (length str) \<Longrightarrow>
   bin_transfers sl cl sr sw (8 + length str) (bin_writeString T str) (bin_readString T) str"
  "data_type t \<Longrightarrow> bin_transfers sl cl sr sw 8 (bin_writeFieldBegin T nm t i) (bin_readFieldBegin T) ([], t, i)"
  "bin_transfers sl cl sr sw 8 (bin_writeFieldStop T) (bin_readFieldBegin T) ([], T_STOP, 0)"
  "con_within cl n \<Longrightarrow> data_type kt \<Longrightarrow> data_type vt \<Longrightarrow>
   bin_transfers sl cl sr sw 8 (bin_writeMapBegin T kt vt n) (bin_readMapBegin T) (kt, vt, n)"
  "con_within cl n \<Longrightarrow> data_type t \<Longrightarrow>
   bin_transfers sl cl sr sw 8 (bin_writeListBegin T t n) (bin_readListBegin T) (t, n)"
  "con_within cl n \<Longrightarrow> data_type t \<Longrightarrow>
   bin_transfers sl cl sr sw 8 (bin_writeSetBegin T t n) (bin_readSetBegin T) (t, n)"
  unfolding bin_writeListBegin_def bin_readListBegin_def bin_writeSetBegin_def bin_readSetBegin_def
  by (rule bin_transfers_le, (rule bin_scalars bin_string bin_field bin_stop bin_map bin_collection;
      assumption?), simp)+

lemma binary_codec:
  "protocol_codec (bin_W winv sw) (\<lambda>s. room (bp_trans s)) (\<lambda>s. written (bp_trans s)) (bin_R rinv sl cl sr)
     (\<lambda>s. pending (bp_trans s)) (binary_protocol T) (\<lambda>_. True) (\<lambda>c. c) (\<lambda>c t i. c) (\<lambda>c d. True) 8
     (str_within sl) (con_within cl)"
proof
  fix c d :: unit and nm :: bytes and i :: i16 and b
  show "\<exists>m e bs cs. codec_base.emits (bin_W winv sw) (\<lambda>s. room (bp_trans s)) (\<lambda>s. written (bp_trans s)) d
        (bindC (writeFieldBegin_virt (binary_protocol T) nm T_BOOL i)
          (\<lambda>_. writeBool_virt (binary_protocol T) b)) (bs @ cs) () d \<and> length (bs @ cs) \<le> 2 * 8 \<and>
      codec_base.takes (bin_R rinv sl cl sr) (\<lambda>s. pending (bp_trans s)) d
        (readFieldBegin_virt (binary_protocol T)) bs (m, T_BOOL, i) e \<and>
      codec_base.takes (bin_R rinv sl cl sr) (\<lambda>s. pending (bp_trans s)) e
        (readBool_virt (binary_protocol T)) cs b d"
    using bin_bool_field by (fastforce simp: binary_protocol_def)
qed (auto simp: binary_protocol_def bin_laws bin_writeBinary_def bin_readBinary_def bin_transfers_retC
      bin_writeStructBegin_def bin_readStructBegin_def bin_writeStructEnd_def bin_readStructEnd_def
      bin_writeFieldEnd_def bin_readFieldEnd_def bin_writeMapEnd_def bin_readMapEnd_def
      bin_writeListEnd_def bin_readListEnd_def bin_writeSetEnd_def bin_readSetEnd_def
      intro: bin_laws bin_transfers_retC)

end


section \<open>Skipping ends\<close>

definition bin_I :: "('u \<Rightarrow> bool) \<Rightarrow> 'u binary \<Rightarrow> bool" where
  "bin_I rinv s \<longleftrightarrow> rinv (bp_trans s) \<and> string_buf_ok s"

context byte_source
begin

abbreviation bin_shrinks :: "nat \<Rightarrow> ('x \<Rightarrow> bool) \<Rightarrow> ('s binary, 'x) pio \<Rightarrow> bool" where
  "bin_shrinks \<equiv> shrinking_reads.shrinks (bin_I inv) (\<lambda>s. length (pending (bp_trans s)))"

lemma bin_shrinks_readAll: "bin_shrinks n (\<lambda>_. True) (bin_readAll T n f)"
  unfolding shrinking_reads.shrinks_def
proof (intro allI impI)
  fix s
  assume s: "bin_I inv s"
  then have u: "inv (bp_trans s)" by (simp add: bin_I_def)
  show "case bin_readAll T n f s of (Inl e, s') \<Rightarrow> e \<noteq> Diverges
      | (Inr (k, x), s') \<Rightarrow> bin_I inv s' \<and>
          length (pending (bp_trans s')) + n \<le> length (pending (bp_trans s)) \<and> True"
  proof (cases "n \<le> length (pending (bp_trans s))")
    case True
    from readAll_ok [OF u True] obtain v where "t_readAll T n (bp_trans s) = (Inr (take n (pending (bp_trans s))), v)"
        "inv v" "pending v = drop n (pending (bp_trans s))" by blast
    with s True show ?thesis by (simp add: bin_readAll_def countC_def tio_simps bin_I_def)
  next
    case False
    then have "length (pending (bp_trans s)) < n" by simp
    from readAll_eof [OF u this] obtain v where
      "t_readAll T n (bp_trans s) = (Inl (TTransportException TE_END_OF_FILE), v)" by blast
    then show ?thesis by (simp add: bin_readAll_def countC_def tio_simps)
  qed
qed

lemma bin_shrinks_body: "bin_shrinks 0 (\<lambda>_. True) (bin_readStringBody T sz)"
  unfolding shrinking_reads.shrinks_def
proof (intro allI impI)
  fix s
  assume s: "bin_I inv s"
  let ?post = "\<lambda>r. case r of (Inl e, s') \<Rightarrow> e \<noteq> Diverges
      | (Inr (k, x), s') \<Rightarrow> bin_I inv s' \<and>
          length (pending (bp_trans s')) + 0 \<le> length (pending (bp_trans s)) \<and> True"
  have u: "inv (bp_trans s)" using s by (simp add: bin_I_def)
  show "?post (bin_readStringBody T sz s)"
  proof (cases "sz \<le> 0 \<or> string_limit s > 0 \<and> sz > string_limit s")
    case True
    with s show ?thesis by (auto simp: bin_readStringBody_def tio_simps)
  next
    case False
    define n where "n = nat sz"
    from False have sz: "sz = int n" "0 < n" by (auto simp: n_def)
    from borrow_ok [OF u, of n] obtain r v where b: "t_borrow T n (bp_trans s) = (Inr r, v)"
      "inv v" "pending v = pending (bp_trans s)"
      "\<forall>bs. r = Some bs \<longrightarrow> n \<le> length bs \<and> take (length bs) (pending (bp_trans s)) = bs \<and>
          (\<forall>m \<le> length bs. \<exists>s''. t_consume T m v = (Inr (), s'') \<and> inv s'' \<and>
             pending s'' = drop m (pending (bp_trans s)))" by blast
    show ?thesis
    proof (cases r)
      case (Some bs)
      with b(4) obtain w where "n \<le> length bs" "t_consume T n v = (Inr (), w)" "inv w"
          "pending w = drop n (pending (bp_trans s))" by auto
      with False sz s b(1) Some show ?thesis
        by (auto simp: bin_readStringBody_def tio_simps countC_def bin_I_def)
    next
      case None
      obtain t m where t: "string_buf_grow sz (s\<lparr>bp_trans := v\<rparr>) = t" "bp_trans t = v" "string_buf t = Some m"
          "n \<le> length m" "int (length m) = string_buf_size t"
        using string_buf_grow_ok [of "s\<lparr>bp_trans := v\<rparr>" n] s unfolding sz(1) by (auto simp: bin_I_def)
      show ?thesis
      proof (cases "n \<le> length (pending v)")
        case True
        from readAll_ok [OF b(2) True] obtain w where w: "t_readAll T n v = (Inr (take n (pending v)), w)"
            "inv w" "pending w = drop n (pending v)" by blast
        with False sz b(1,3) None t True show ?thesis
          by (auto simp: bin_readStringBody_def tio_simps countC_def bin_I_def string_mem_def string_buf_ok_def)
      next
        case short: False
        then have "length (pending v) < n" by simp
        from readAll_eof [OF b(2) this] obtain w where
          "t_readAll T n v = (Inl (TTransportException TE_END_OF_FILE), w)" by blast
        with False sz b(1,3) None t show ?thesis
          by (auto simp: bin_readStringBody_def tio_simps countC_def)
      qed
    qed
  qed
qed

lemmas bin_shrinks_bind = shrinking_reads.shrinks_bind [where I = "bin_I inv" and
    left = "\<lambda>s. length (pending (bp_trans s))"]

lemma bin_shrinks_retC: "bin_shrinks 0 (\<lambda>_. True) (retC x)"
  by (rule shrinking_reads.shrinks_retC) simp

lemma bin_shrinks_map: "bin_shrinks n (\<lambda>_. True) m \<Longrightarrow> bin_shrinks n (\<lambda>_. True) (bindC m (\<lambda>y. retC (g y)))"
  by (rule bin_shrinks_bind [where j = 0, simplified]) (simp_all add: bin_shrinks_retC)

lemma bin_shrinks_size:
  "bin_shrinks 0 (\<lambda>n. n < 2 ^ 32) (bin_checkSize (sint (w :: i32)))"
proof -
  have "sint w < 2147483648" using sint_less [of w] by simp
  then have "nat (sint w) < 4294967296" by linarith
  then show ?thesis
    unfolding shrinking_reads.shrinks_def by (auto simp: bin_checkSize_def tio_simps)
qed

lemma bin_shrinks_con:
  assumes "\<And>n. n < 2 ^ 32 \<Longrightarrow> Q (g n)"
  shows "bin_shrinks 0 Q (bindC (bin_readI32 T) (\<lambda>sizei.
     bindC (bin_checkSize (sint sizei)) (\<lambda>sz. retC (g sz))))"
proof -
  have "bin_shrinks (0 + 0) Q (bindC (bin_checkSize (sint w)) (\<lambda>sz. retC (g sz)))" for w :: i32
    by (rule bin_shrinks_bind [OF bin_shrinks_size shrinking_reads.shrinks_retC]) (rule assms)
  then have "bin_shrinks (4 + 0) Q (bindC (bin_readI32 T) (\<lambda>sizei.
     bindC (bin_checkSize (sint sizei)) (\<lambda>sz. retC (g sz))))"
    unfolding bin_readI32_def by (intro bin_shrinks_bind [OF bin_shrinks_readAll]) simp
  then show ?thesis by (rule shrinking_reads.shrinks_weaken) simp_all
qed

lemma bin_shrinks_byte:
  assumes "\<And>w. bin_shrinks 0 Q (f w)"
  shows "bin_shrinks 1 Q (bindC (bin_readByte T) f)"
  using bin_shrinks_bind [OF bin_shrinks_readAll assms, of 1] by (simp add: bin_readByte_def)

lemma bin_shrinks_0: "bin_shrinks n Q m \<Longrightarrow> bin_shrinks 0 Q m"
  by (erule shrinking_reads.shrinks_weaken) simp_all

lemma bin_shrinks_field: "bin_shrinks 1 (\<lambda>_. True) (bin_readFieldBegin T)"
  unfolding bin_readFieldBegin_def
proof (rule bin_shrinks_byte)
  fix w
  show "bin_shrinks 0 (\<lambda>_. True) (let fieldType = ttype_of w in
     if fieldType = T_STOP then retC ([], T_STOP, 0)
     else bindC (bin_readI16 T) (\<lambda>fieldId. retC ([], fieldType, fieldId)))"
    unfolding Let_def bin_readI16_def
    by (cases "ttype_of w = T_STOP")
      (simp_all add: bin_shrinks_retC bin_shrinks_0 [OF bin_shrinks_map [OF bin_shrinks_readAll]])
qed

lemma bin_shrinks_string: "bin_shrinks 0 (\<lambda>_. True) (bin_readString T)"
  unfolding bin_readString_def bin_readI32_def
  by (rule bin_shrinks_0, rule bin_shrinks_bind [OF bin_shrinks_readAll bin_shrinks_body])

lemma bin_skippable: "skippable (bin_I inv) (\<lambda>s. length (pending (bp_trans s))) (binary_protocol T)"
proof
  have con: "bin_shrinks 1 (\<lambda>(e, n). n < 2 ^ 32) (bindC (bin_readByte T) (\<lambda>e.
      bindC (bin_readI32 T) (\<lambda>sizei. bindC (bin_checkSize (sint sizei)) (\<lambda>sz. retC (ttype_of e, sz)))))"
    by (intro bin_shrinks_byte bin_shrinks_con) simp
  then show "bin_shrinks 1 (\<lambda>(e, n). n < 2 ^ 32) (readSetBegin_virt (binary_protocol T))"
    and "bin_shrinks 1 (\<lambda>(e, n). n < 2 ^ 32) (readListBegin_virt (binary_protocol T))"
    by (simp_all add: binary_protocol_def bin_readSetBegin_def bin_readListBegin_def)
  have "bin_shrinks 0 (\<lambda>(k, v, n). n < 2 ^ 32) (bindC (bin_readByte T) (\<lambda>v. bindC (bin_readI32 T) (\<lambda>sizei.
     bindC (bin_checkSize (sint sizei)) (\<lambda>sz. retC (ttype_of k, ttype_of v, sz)))))" for k
    by (rule bin_shrinks_0 [OF bin_shrinks_byte [OF bin_shrinks_con]]) simp
  then show "bin_shrinks 1 (\<lambda>(k, v, n). n < 2 ^ 32) (readMapBegin_virt (binary_protocol T))"
    by (simp only: binary_protocol_def tprotocol.simps bin_readMapBegin_def) (rule bin_shrinks_byte)
qed (use bin_shrinks_readAll in \<open>auto simp: binary_protocol_def bin_readBool_def bin_readByte_def bin_readI16_def
      bin_readI32_def bin_readI64_def bin_readDouble_def bin_readBinary_def bin_shrinks_string bin_shrinks_field [unfolded One_nat_def]
      bin_readStructBegin_def bin_readStructEnd_def bin_readFieldEnd_def bin_readMapEnd_def bin_readSetEnd_def
      bin_readListEnd_def bin_shrinks_retC intro: bin_shrinks_0\<close>)

end


section \<open>Over a memory buffer\<close>

interpretation bin_mem: protocol_codec "bin_W mem_unread sw" "\<lambda>s. mem_room (bp_trans s)"
  "\<lambda>s. mem_written (bp_trans s)" "bin_R mem_inv sl cl sr" "\<lambda>s. mem_pending (bp_trans s)"
  "binary_protocol mem_transport" "\<lambda>_. True" "\<lambda>c. c" "\<lambda>c t i. c" "\<lambda>c d. True" 8
  "str_within sl" "con_within cl" for sl cl sr sw
  by (rule mem_channel.binary_codec)

interpretation bin_mem_skip: skippable "bin_I mem_inv" "\<lambda>s. length (mem_pending (bp_trans s))"
  "binary_protocol mem_transport"
  by (rule mem_source.bin_skippable)

section \<open>Messages\<close>

text \<open>The header of a message, as a strict and as an old writer puts it.\<close>

lemma version_word:
  assumes "named_message mt"
  shows "sint (VERSION_1 OR msg_code mt) < 0"
    and "(VERSION_1 OR msg_code mt) AND VERSION_MASK = VERSION_1"
    and "(VERSION_1 OR msg_code mt) AND 0xff = msg_code mt"
    and "scast (ucast (msg_code mt) :: u8) = msg_code mt"
  using assms by (auto simp: named_message_def VERSION_1_def VERSION_MASK_def)

definition header_tail :: "'u ttransport \<Rightarrow> i32 \<Rightarrow> ('u binary, bytes \<times> tmessage_type \<times> i32) pio" where
  "header_tail U sz s =
     (if sint sz < 0 then
        if sz AND VERSION_MASK \<noteq> VERSION_1 then throw (TProtocolException PE_BAD_VERSION)
        else
          bindC (bin_readString U) (\<lambda>name. bindC (bin_readI32 U) (\<lambda>seqid.
          retC (name, msg_of (sz AND 0xff), seqid)))
      else if strict_read s then throw (TProtocolException PE_BAD_VERSION)
      else
        bindC (bin_readStringBody U (sint sz)) (\<lambda>name.
        bindC (bin_readByte U) (\<lambda>type. bindC (bin_readI32 U) (\<lambda>seqid.
        retC (name, msg_of (scast type), seqid))))) s"

lemma readMessageBegin_tail: "bin_readMessageBegin U = bindC (bin_readI32 U) (header_tail U)"
  unfolding bin_readMessageBegin_def header_tail_def [abs_def] by (rule refl)

lemma header_tail_strict:
  assumes "named_message mt"
  shows "header_tail U (VERSION_1 OR msg_code mt) =
    bindC (bin_readString U) (\<lambda>name. bindC (bin_readI32 U) (\<lambda>seqid. retC (name, mt, seqid)))"
  using version_word [OF assms] assms by (intro ext) (simp add: header_tail_def)

context byte_channel
begin

lemma bin_strict_message:
  assumes "str_within sl (length name)" and "named_message mt"
  shows "bin_transfers sl cl sr sw (4 + (4 + length name + 4))
    (bindC (bin_writeI32 T (VERSION_1 OR msg_code mt)) (\<lambda>_.
     bindC (bin_writeString T name) (\<lambda>_. bin_writeI32 T seqid)))
    (bin_readMessageBegin T) (name, mt, seqid)"
  unfolding readMessageBegin_tail
proof (rule bin_transfers_bind [OF bin_scalars(4)])
  show "bin_transfers sl cl sr sw (4 + length name + 4)
      (bindC (bin_writeString T name) (\<lambda>_. bin_writeI32 T seqid))
      (header_tail T (VERSION_1 OR msg_code mt)) (name, mt, seqid)"
    unfolding header_tail_strict [OF assms(2)]
    by (rule bin_transfers_bind [OF bin_string [OF assms(1)]], rule bin_transfers_map, rule bin_scalars(4))
qed

lemma bin_old_tail:
  assumes "str_within sl (length name)" and "named_message mt"
    and "bin_takes sl cl False (bin_readStringBody T (int (length name))) ns name"
    and "bin_takes sl cl False (bin_readByte T) ts (ucast (msg_code mt))"
    and "bin_takes sl cl False (bin_readI32 T) is seqid"
  shows "bin_takes sl cl False (header_tail T (of_nat (length name))) (ns @ ts @ is) (name, mt, seqid)"
proof -
  have n: "length name < 2 ^ 31" using assms(1) by (simp add: str_within_def)
  have "bin_takes sl cl False (bindC (bin_readStringBody T (int (length name))) (\<lambda>name.
      bindC (bin_readByte T) (\<lambda>type. bindC (bin_readI32 T) (\<lambda>seqid.
      retC (name, msg_of (scast type), seqid))))) (ns @ ts @ is) (name, mt, seqid)"
  proof (rule bin_takes_bind [OF assms(3)], rule bin_takes_bind [OF assms(4)])
    show "bin_takes sl cl False (bindC (bin_readI32 T)
        (\<lambda>seqid. retC (name, msg_of (scast (ucast (msg_code mt) :: u8)), seqid))) is (name, mt, seqid)"
      using codec_base.takes_map [OF assms(5), of "\<lambda>seqid. (name, mt, seqid)"]
        version_word(4) [OF assms(2)] assms(2) by simp
  qed
  then show ?thesis
    unfolding codec_base.takes_def
    by (auto simp: header_tail_def bin_R_def sint_of_nat_31 [OF n])
qed

lemma bin_old_message:
  assumes "str_within sl (length name)" and "named_message mt"
  obtains zs ys where "length (zs @ ys) \<le> 9 + length name"
    and "bin_emits sw (bindC (bin_writeString T name) (\<lambda>_.
      bindC (bin_writeByte T (ucast (msg_code mt))) (\<lambda>_. bin_writeI32 T seqid))) (zs @ ys) ()"
    and "bin_takes sl cl True (bin_readI32 T) zs (of_nat (length name))"
    and "bin_takes sl cl False (bin_readMessageBegin T) (zs @ ys) (name, mt, seqid)"
proof -
  have n: "length name < 2 ^ 31" using assms(1) by (simp add: str_within_def)
  then have u: "u32 (length name) = length name" by simp
  define zs where "zs = be_bytes 4 (unat (of_nat (length name) :: i32))"
  have zs: "bin_emits sw (bin_writeI32 T (of_nat (length name))) zs ()" "length zs \<le> 4"
      "bin_takes sl cl sr (bin_readI32 T) zs (of_nat (length name))" for sr
    using bin_emits_write [of zs] bin_takes_readAll [of zs 4 sl cl sr "\<lambda>bs. of_nat (be_nat bs) :: i32"]
    unfolding bin_writeI32_def bin_readI32_def zs_def by (simp_all del: be_nat_be_bytes)
  obtain ts where ts: "bin_emits sw (bin_writeByte T (ucast (msg_code mt))) ts ()" "length ts \<le> 1"
      "bin_takes sl cl False (bin_readByte T) ts (ucast (msg_code mt))"
    using bin_scalars(2) unfolding codec_base.transfers_def by blast
  obtain xs where xs: "bin_emits sw (bin_writeI32 T seqid) xs ()" "length xs \<le> 4"
      "bin_takes sl cl False (bin_readI32 T) xs seqid"
    using bin_scalars(4) unfolding codec_base.transfers_def by blast
  have body: "bin_emits sw (if length name > 0 then bin_write T (take (length name) name) else retC ()) name ()"
    using n bin_emits_write [of name] codec_base.emits_retC by (cases "name = []") auto
  have str: "bin_emits sw (bin_writeString T name) (zs @ name) ()"
    unfolding bin_writeString_def Let_def u by (rule bin_emits_bind [OF zs(1)]) (use body in simp)
  have w: "bin_emits sw (bindC (bin_writeString T name) (\<lambda>_.
      bindC (bin_writeByte T (ucast (msg_code mt))) (\<lambda>_. bin_writeI32 T seqid))) ((zs @ name) @ ts @ xs) ()"
    by (rule bin_emits_bind [OF str], rule bin_emits_bind [OF ts(1) xs(1)])
  have "bin_takes sl cl False (bin_readMessageBegin T) (zs @ (name @ ts @ xs)) (name, mt, seqid)"
    unfolding readMessageBegin_tail
    by (rule bin_takes_bind [OF zs(3)])
      (rule bin_old_tail [OF assms bin_readStringBody_takes [OF assms(1)] ts(3) xs(3)])
  with w zs(2,3) ts(2) xs(2) show ?thesis by (intro that [of zs "name @ ts @ xs"]) simp_all
qed

end

section \<open>Properties\<close>

text \<open>
  C3: a value written by TBinaryProtocol is read back, and skipped, from exactly the bytes it was
  written to. Over any transport, the writer appends some bytes, at most \<open>weight 8 v\<close> of them,
  and returns their number; in front of any other input, the reader returns the value (up to
  names and the types of empty maps) and \<^verbatim>\<open>skip\<close> nothing, and both leave just the rest.
\<close>

theorem binary_round_trip:
  assumes "byte_channel T winv room written rinv pending"
    and "wt (str_within sl) (con_within cl) v" and "fuel v \<le> k"
  shows "\<exists>bs. length bs \<le> weight 8 v \<and>
    (\<forall>s n. bin_W winv sw () s \<longrightarrow> room (bp_trans s) (length bs + n) \<longrightarrow>
      (\<exists>s'. write_val (binary_protocol T) v s = (Inr (u32 (length bs), ()), s') \<and>
        written (bp_trans s') = written (bp_trans s) @ bs \<and> room (bp_trans s') n \<and>
        bin_W winv sw () s')) \<and>
    (\<forall>s rest. bin_R rinv sl cl sr () s \<longrightarrow> pending (bp_trans s) = bs @ rest \<longrightarrow>
      (\<exists>s'. read_val k (binary_protocol T) (type_of v) s = (Inr (u32 (length bs), erase v), s') \<and>
        pending (bp_trans s') = rest \<and> bin_R rinv sl cl sr () s') \<and>
      (\<exists>s'. skip k (binary_protocol T) (type_of v) s = (Inr (u32 (length bs), ()), s') \<and>
        pending (bp_trans s') = rest \<and> bin_R rinv sl cl sr () s'))"
proof -
  note codec = byte_channel.binary_codec [OF assms(1), of sw sl cl sr]
  obtain bs where bs: "length bs \<le> weight 8 v"
    "codec_base.emits (bin_W winv sw) (\<lambda>s. room (bp_trans s)) (\<lambda>s. written (bp_trans s)) ()
        (write_val (binary_protocol T) v) bs () ()"
    "codec_base.takes (bin_R rinv sl cl sr) (\<lambda>s. pending (bp_trans s)) ()
        (read_val k (binary_protocol T) (type_of v)) bs (erase v) ()"
    "codec_base.takes (bin_R rinv sl cl sr) (\<lambda>s. pending (bp_trans s)) ()
        (skip k (binary_protocol T) (type_of v)) bs () ()"
    by (rule protocol_codec.read_back [OF codec assms(2) TrueI assms(3)])
  then show ?thesis
    unfolding codec_base.emits_def codec_base.takes_def by blast
qed

theorem binary_round_trip_witness:
  "\<exists>bs s'. write_val (binary_protocol mem_transport)
      (VStruct [] [Field [] 1 (VI32 7), Field [] 2 (VList T_BOOL [VBool True, VBool False])])
      (new_TBinaryProtocol_default new_TMemoryBuffer) = (Inr (u32 (length bs), ()), s') \<and>
    mem_written (bp_trans s') = bs \<and>
    fst (read_val 20 (binary_protocol mem_transport) T_STRUCT
      (new_TBinaryProtocol_default (bp_trans s'))) = Inr (u32 (length bs),
      VStruct [] [Field [] 1 (VI32 7), Field [] 2 (VList T_BOOL [VBool True, VBool False])])"
proof -
  let ?v = "VStruct [] [Field [] 1 (VI32 7), Field [] 2 (VList T_BOOL [VBool True, VBool False])]"
  let ?s = "new_TBinaryProtocol_default new_TMemoryBuffer"
  have wt: "wt (str_within 0) (con_within 0) ?v" and fuel: "fuel ?v \<le> 20"
    by (simp_all add: con_within_def)
  from binary_round_trip [OF mem_channel.byte_channel_axioms wt fuel, of True False] obtain bs where
    bs: "length bs \<le> weight 8 ?v"
    and W: "\<And>s n. bin_W mem_unread True () s \<Longrightarrow> mem_room (bp_trans s) (length bs + n) \<Longrightarrow>
      \<exists>s'. write_val (binary_protocol mem_transport) ?v s = (Inr (u32 (length bs), ()), s') \<and>
        mem_written (bp_trans s') = mem_written (bp_trans s) @ bs \<and> mem_room (bp_trans s') n \<and>
        bin_W mem_unread True () s'"
    and R: "\<And>s rest. bin_R mem_inv 0 0 False () s \<Longrightarrow> mem_pending (bp_trans s) = bs @ rest \<Longrightarrow>
      \<exists>s'. read_val 20 (binary_protocol mem_transport) (type_of ?v) s = (Inr (u32 (length bs), erase ?v), s')"
    by blast
  have "bin_W mem_unread True () ?s" "mem_written (bp_trans ?s) = []" "mem_room (bp_trans ?s) (length bs + 0)"
    using bs new_sized_inv [of 1024] new_sized_fields [of 1024]
    by (simp_all add: bin_W_def new_TBinaryProtocol_default_def new_TMemoryBuffer_def mem_unread_def
        mem_written_def mem_room_def)
  with W [of ?s 0] obtain s' where s': "write_val (binary_protocol mem_transport) ?v ?s = (Inr (u32 (length bs), ()), s')"
      "mem_written (bp_trans s') = bs" "bin_W mem_unread True () s'" by auto
  have "bin_R mem_inv 0 0 False () (new_TBinaryProtocol_default (bp_trans s'))"
    "mem_pending (bp_trans (new_TBinaryProtocol_default (bp_trans s'))) = bs @ []"
    using s' mem_unread_pending
    by (auto simp: bin_R_def bin_W_def new_TBinaryProtocol_default_def string_buf_ok_def mem_unread_def)
  from R [OF this] obtain r where "read_val 20 (binary_protocol mem_transport) (type_of ?v)
      (new_TBinaryProtocol_default (bp_trans s')) = (Inr (u32 (length bs), erase ?v), r)" by blast
  with s' show ?thesis by (auto simp del: read_val.simps)
qed

text \<open>
  The header of a message is read back as it was written, by a strict or an old writer, and
  read by a reader that accepts it: an old header is refused by a strict reader, with BAD_VERSION.
\<close>

lemma binary_message_round_trip:
  assumes "byte_channel T winv room written rinv pending"
    and "str_within sl (length name)" and "named_message mt"
  shows "\<exists>bs. length bs \<le> 13 + length name \<and>
    (\<forall>s n. bin_W winv sw () s \<longrightarrow> room (bp_trans s) (length bs + n) \<longrightarrow>
      (\<exists>s'. bin_writeMessageBegin T name mt seqid s = (Inr (u32 (length bs), ()), s') \<and>
        written (bp_trans s') = written (bp_trans s) @ bs)) \<and>
    (\<forall>s rest. bin_R rinv sl cl sr () s \<longrightarrow> pending (bp_trans s) = bs @ rest \<longrightarrow>
      (\<exists>s'. bin_readMessageBegin T s =
        (if sr \<and> \<not> sw then Inl (TProtocolException PE_BAD_VERSION)
         else Inr (u32 (length bs), (name, mt, seqid)), s') \<and>
        (\<not> sr \<or> sw \<longrightarrow> pending (bp_trans s') = rest)))"
proof -
  have "\<exists>bs. length bs \<le> 13 + length name \<and> codec_base.emits (bin_W winv sw) (\<lambda>s. room (bp_trans s))
      (\<lambda>s. written (bp_trans s)) () (bin_writeMessageBegin T name mt seqid) bs () () \<and>
    (\<forall>s rest. bin_R rinv sl cl sr () s \<longrightarrow> pending (bp_trans s) = bs @ rest \<longrightarrow>
      (\<exists>s'. bin_readMessageBegin T s =
        (if sr \<and> \<not> sw then Inl (TProtocolException PE_BAD_VERSION)
         else Inr (u32 (length bs), (name, mt, seqid)), s') \<and>
        (\<not> sr \<or> sw \<longrightarrow> pending (bp_trans s') = rest)))"
  proof (cases sw)
    case True
    obtain bs where bs: "length bs \<le> 4 + (4 + length name + 4)"
      "codec_base.emits (bin_W winv True) (\<lambda>s. room (bp_trans s)) (\<lambda>s. written (bp_trans s)) ()
        (bindC (bin_writeI32 T (VERSION_1 OR msg_code mt)) (\<lambda>_.
         bindC (bin_writeString T name) (\<lambda>_. bin_writeI32 T seqid))) bs () ()"
      "codec_base.takes (bin_R rinv sl cl sr) (\<lambda>s. pending (bp_trans s)) () (bin_readMessageBegin T) bs
        (name, mt, seqid) ()"
      using byte_channel.bin_strict_message [OF assms] unfolding codec_base.transfers_def by blast
    have "codec_base.emits (bin_W winv True) (\<lambda>s. room (bp_trans s)) (\<lambda>s. written (bp_trans s)) ()
        (bin_writeMessageBegin T name mt seqid) bs () ()"
      using bs(2) unfolding codec_base.emits_def by (simp add: bin_writeMessageBegin_def bin_W_def)
    with bs(1,3) True show ?thesis
      unfolding codec_base.takes_def by (intro exI [of _ bs]) auto
  next
    case False
    obtain zs ys where ys: "length (zs @ ys) \<le> 9 + length name"
      "codec_base.emits (bin_W winv False) (\<lambda>s. room (bp_trans s)) (\<lambda>s. written (bp_trans s)) ()
        (bindC (bin_writeString T name) (\<lambda>_.
         bindC (bin_writeByte T (ucast (msg_code mt))) (\<lambda>_. bin_writeI32 T seqid))) (zs @ ys) () ()"
      "codec_base.takes (bin_R rinv sl cl True) (\<lambda>s. pending (bp_trans s)) () (bin_readI32 T) zs
        (of_nat (length name)) ()"
      "codec_base.takes (bin_R rinv sl cl False) (\<lambda>s. pending (bp_trans s)) () (bin_readMessageBegin T)
        (zs @ ys) (name, mt, seqid) ()"
      by (rule byte_channel.bin_old_message [OF assms])
    have n: "length name < 2 ^ 31" using assms(2) by (simp add: str_within_def)
    have "codec_base.emits (bin_W winv False) (\<lambda>s. room (bp_trans s)) (\<lambda>s. written (bp_trans s)) ()
        (bin_writeMessageBegin T name mt seqid) (zs @ ys) () ()"
      using ys(2) unfolding codec_base.emits_def by (simp add: bin_writeMessageBegin_def bin_W_def)
    moreover have "\<exists>s'. bin_readMessageBegin T s = (Inl (TProtocolException PE_BAD_VERSION), s')"
      if "sr" and s: "bin_R rinv sl cl sr () s" "pending (bp_trans s) = (zs @ ys) @ rest" for s rest
    proof -
      obtain k t where "bin_readI32 T s = (Inr (k, of_nat (length name)), t)" "bin_R rinv sl cl True () t"
        using ys(3) s \<open>sr\<close> unfolding codec_base.takes_def by fastforce
      then show ?thesis
        by (simp add: readMessageBegin_tail bindC_def bindT_def header_tail_def throw_def bin_R_def
            sint_of_nat_31 [OF n])
    qed
    ultimately show ?thesis using ys(1,4) False
      unfolding codec_base.takes_def by (intro exI [of _ "zs @ ys"], cases sr) (simp, fastforce)
  qed
  then show ?thesis unfolding codec_base.emits_def by blast
qed


lemma binary_message_round_trip_witness:
  "\<exists>bs s'. bin_writeMessageBegin mem_transport [112, 105] T_CALL 5
      (new_TBinaryProtocol_default new_TMemoryBuffer) = (Inr (u32 (length bs), ()), s') \<and>
    mem_written (bp_trans s') = bs"
proof -
  let ?s = "new_TBinaryProtocol_default new_TMemoryBuffer"
  have "str_within 0 (length [112 :: u8, 105])" "named_message T_CALL"
    by (simp_all add: str_within_def named_message_def)
  from binary_message_round_trip [OF mem_channel.byte_channel_axioms this, of True 5] obtain bs where
    bs: "length bs \<le> 13 + length [112 :: u8, 105]" and W: "\<forall>s n. bin_W mem_unread True () s \<longrightarrow>
      mem_room (bp_trans s) (length bs + n) \<longrightarrow>
      (\<exists>s'. bin_writeMessageBegin mem_transport [112, 105] T_CALL 5 s = (Inr (u32 (length bs), ()), s') \<and>
        mem_written (bp_trans s') = mem_written (bp_trans s) @ bs)" by blast
  have "bin_W mem_unread True () ?s" "mem_written (bp_trans ?s) = []" "mem_room (bp_trans ?s) (length bs + 0)"
    using bs new_sized_inv [of 1024] new_sized_fields [of 1024]
    by (simp_all add: bin_W_def new_TBinaryProtocol_default_def new_TMemoryBuffer_def mem_unread_def
        mem_written_def mem_room_def)
  with W [rule_format, of ?s 0] show ?thesis by (metis append_Nil)
qed

text \<open>
  The size of a list from the wire is checked before it is used: a negative size and one above
  the container limit are refused, each with its exception, and the five bytes of the header are
  what the call has taken.
\<close>

lemma binary_list_size_checked:
  assumes "byte_source T rinv pending" and "bin_R rinv sl cl sr () s"
    and "pending (bp_trans s) = e # be_bytes 4 (unat (w :: i32)) @ rest"
  shows "\<exists>s'. bin_readListBegin T s =
      (if sint w < 0 then Inl (TProtocolException PE_NEGATIVE_SIZE)
       else if cl \<noteq> 0 \<and> cl < sint w then Inl (TProtocolException PE_SIZE_LIMIT)
       else Inr (5, (ttype_of e, nat (sint w))), s') \<and>
    pending (bp_trans s') = rest \<and> bin_R rinv sl cl sr () s'"
proof -
  have "rinv (bp_trans s)" using assms(2) by (simp add: bin_R_def)
  moreover have "pending (bp_trans s) = [e] @ (be_bytes 4 (unat w) @ rest)" using assms(3) by simp
  ultimately obtain u where u: "t_readAll T (length [e]) (bp_trans s) = (Inr [e], u)" "rinv u"
      "pending u = be_bytes 4 (unat w) @ rest"
    by (rule byte_source.readAll_append [OF assms(1)])
  obtain v where v: "t_readAll T (length (be_bytes 4 (unat w))) u = (Inr (be_bytes 4 (unat w)), v)" "rinv v"
      "pending v = rest"
    by (rule byte_source.readAll_append [OF assms(1) u(2,3)])
  define t where "t = s\<lparr>bp_trans := v\<rparr>"
  have t: "bin_R rinv sl cl sr () t" "pending (bp_trans t) = rest"
    using assms(2) v by (simp_all add: t_def bin_R_def)
  have hd: "bin_readByte T s = (Inr (1, e), s\<lparr>bp_trans := u\<rparr>)"
    using u(1) by (simp add: bin_readByte_def bin_readAll_def countC_def tio_simps)
  have sz: "bin_readI32 T (s\<lparr>bp_trans := u\<rparr>) = (Inr (4, w), t)"
    using v(1) by (simp add: bin_readI32_def bin_readAll_def countC_def tio_simps t_def del: be_nat_be_bytes)
  have "container_limit t = cl" using t(1) by (simp add: bin_R_def)
  with hd sz t show ?thesis
    by (auto simp: bin_readListBegin_def bindC_def bindT_def ret_def bin_checkSize_def throw_def retC_def)
qed

lemma binary_list_size_checked_witness:
  "\<exists>m s'. new_TMemoryBuffer_from (Some [8, 128, 0, 0, 0]) 5 TAKE_OWNERSHIP = Inr m \<and>
    bin_readListBegin mem_transport (new_TBinaryProtocol_default m) =
      (Inl (TProtocolException PE_NEGATIVE_SIZE), s')"
proof -
  obtain m where m: "new_TMemoryBuffer_from (Some [8, 128, 0, 0, 0]) 5 TAKE_OWNERSHIP = Inr m"
      "mem_inv m" "mem_pending m = [8, 128, 0, 0, 0]"
    using new_from_ok [of "[8, 128, 0, 0, 0]" 5] by auto
  have r: "bin_R mem_inv 0 0 False () (new_TBinaryProtocol_default m)"
    using m by (simp add: bin_R_def new_TBinaryProtocol_default_def string_buf_ok_def)
  have p: "mem_pending (bp_trans (new_TBinaryProtocol_default m)) =
      8 # be_bytes 4 (unat (2147483648 :: i32)) @ []"
    using m by (simp add: new_TBinaryProtocol_default_def be_bytes_4)
  from binary_list_size_checked [OF mem_source.byte_source_axioms r p]
  show ?thesis using m(1) by auto
qed

text \<open>
  C21: \<^verbatim>\<open>skip\<close> over TBinaryProtocol ends on every input, for every type that the wire may
  name, with an exception or with a result: with fuel above \<open>skip_fuel\<close> of the number of pending
  bytes it is never cut off.
\<close>

theorem binary_skip_ends:
  assumes "byte_source T rinv pending" and "bin_I rinv s"
    and "skip_fuel (length (pending (bp_trans s))) < k"
  shows "fst (skip k (binary_protocol T) t s) \<noteq> Inl Diverges"
  by (rule skippable.skip_ends [OF byte_source.bin_skippable [OF assms(1)] assms(2,3)])

theorem binary_skip_ends_witness:
  "\<exists>m. new_TMemoryBuffer_from (Some [12, 15, 15]) 3 TAKE_OWNERSHIP = Inr m \<and>
    fst (skip (skip_fuel 3 + 1) (binary_protocol mem_transport) T_STRUCT (new_TBinaryProtocol_default m)) \<noteq>
      Inl Diverges"
proof -
  obtain m where m: "new_TMemoryBuffer_from (Some [12, 15, 15]) 3 TAKE_OWNERSHIP = Inr m"
      "mem_inv m" "mem_pending m = [12, 15, 15]"
    using new_from_ok [of "[12, 15, 15]" 3] by auto
  then have "bin_I mem_inv (new_TBinaryProtocol_default m)"
    by (simp add: bin_I_def new_TBinaryProtocol_default_def string_buf_ok_def)
  moreover have "skip_fuel (length (mem_pending (bp_trans (new_TBinaryProtocol_default m)))) < skip_fuel 3 + 1"
    using m by (simp add: new_TBinaryProtocol_default_def numeral_3_eq_3)
  ultimately show ?thesis using binary_skip_ends [OF mem_source.byte_source_axioms] m(1) by blast
qed

end
