(* ===== verification/Varint.thy ===== *)
theory Varint
  imports ThriftPrelude
begin

text \<open>
  The variable-length integers of TCompactProtocol: the zigzag map that makes small negative
  numbers small, and the varint bytes, seven bits each with the top bit set on all but the last.
\<close>

unbundle bit_operations_syntax

section \<open>Zigzag\<close>

definition i32ToZigzag :: "i32 \<Rightarrow> i32" where
  "i32ToZigzag n = push_bit 1 n XOR signed_drop_bit 31 n"

definition i64ToZigzag :: "i64 \<Rightarrow> i64" where
  "i64ToZigzag l = push_bit 1 l XOR signed_drop_bit 63 l"

definition zigzagToI32 :: "i32 \<Rightarrow> i32" where
  "zigzagToI32 n = drop_bit 1 n XOR - (n AND 1)"

definition zigzagToI64 :: "i64 \<Rightarrow> i64" where
  "zigzagToI64 n = drop_bit 1 n XOR - (n AND 1)"

lemma neg_and_1: "- (w AND 1) = (if bit w 0 then - 1 else (0 :: 'a::len word))"
  by (simp add: and_one_eq mod2_eq_if bit_0)

lemma bit_zigzag32: "i < 32 \<Longrightarrow> bit (i32ToZigzag n) i \<longleftrightarrow> (0 < i \<and> bit n (i - 1)) \<noteq> bit n 31"
  unfolding i32ToZigzag_def bit_xor_iff
  by (cases "i = 0") (simp_all add: bit_push_bit_iff bit_signed_drop_bit_iff del: push_bit_Suc)

lemma bit_zigzag64: "i < 64 \<Longrightarrow> bit (i64ToZigzag n) i \<longleftrightarrow> (0 < i \<and> bit n (i - 1)) \<noteq> bit n 63"
  unfolding i64ToZigzag_def bit_xor_iff
  by (cases "i = 0") (simp_all add: bit_push_bit_iff bit_signed_drop_bit_iff del: push_bit_Suc)

lemma zigzag32 [simp]: "zigzagToI32 (i32ToZigzag n) = n"
proof (rule bit_word_eqI)
  fix i
  assume "i < LENGTH(32)"
  then show "bit (zigzagToI32 (i32ToZigzag n)) i = bit n i"
    unfolding zigzagToI32_def neg_and_1
    by (cases "i = 31") (auto simp: bit_xor_iff bit_drop_bit_eq bit_zigzag32 dest: bit_imp_le_length)
qed

lemma zigzag64 [simp]: "zigzagToI64 (i64ToZigzag n) = n"
proof (rule bit_word_eqI)
  fix i
  assume "i < LENGTH(64)"
  then show "bit (zigzagToI64 (i64ToZigzag n)) i = bit n i"
    unfolding zigzagToI64_def neg_and_1
    by (cases "i = 63") (auto simp: bit_xor_iff bit_drop_bit_eq bit_zigzag64 dest: bit_imp_le_length)
qed

text \<open>The arithmetic meaning: twice the number, or one less than twice its opposite.\<close>

lemma zigzag_uint:
  fixes n :: "'a::len word"
  assumes w: "LENGTH('a) = Suc k"
  shows "uint (push_bit 1 n XOR signed_drop_bit k n) = (if 0 \<le> sint n then 2 * sint n else - 2 * sint n - 1)"
proof -
  have l: "bit n k \<longleftrightarrow> sint n < 0" using bit_last_iff [of n] w by simp
  have b: "- (2 ^ k) \<le> sint n" "sint n < 2 ^ k" using sint_ge [of n] sint_less [of n] w by simp_all
  have s: "signed_drop_bit k n = (if bit n k then - 1 else 0)"
  proof (rule bit_word_eqI)
    fix i
    assume "i < LENGTH('a)"
    then show "bit (signed_drop_bit k n) i = bit (if bit n k then - 1 else 0 :: 'a word) i"
      using w by (cases "i = 0") (auto simp: bit_signed_drop_bit_iff min_def)
  qed
  have p: "push_bit 1 n = word_of_int (2 * sint n)" by (simp add: push_bit_eq_mult)
  show ?thesis
  proof (cases "sint n < 0")
    case True
    then have "push_bit 1 n XOR signed_drop_bit k n = NOT (word_of_int (2 * sint n))"
      unfolding s p l by simp
    also have "\<dots> = word_of_int (- 2 * sint n - 1)" by (simp add: not_eq_complement)
    finally have "uint (push_bit 1 n XOR signed_drop_bit k n) = (- 2 * sint n - 1) mod 2 ^ Suc k"
      by (simp only: uint_word_of_int w)
    with True b show ?thesis by simp
  next
    case False
    then have "push_bit 1 n XOR signed_drop_bit k n = word_of_int (2 * sint n)"
      unfolding s p l by simp
    then have "uint (push_bit 1 n XOR signed_drop_bit k n) = (2 * sint n) mod 2 ^ Suc k"
      by (simp only: uint_word_of_int w)
    with False b show ?thesis by simp
  qed
qed

lemma uint_zigzag:
  "uint (i32ToZigzag n) = (if 0 \<le> sint n then 2 * sint n else - 2 * sint n - 1)"
  "uint (i64ToZigzag l) = (if 0 \<le> sint l then 2 * sint l else - 2 * sint l - 1)"
  unfolding i32ToZigzag_def i64ToZigzag_def by (rule zigzag_uint, simp)+

section \<open>Varints\<close>

text \<open>The test of the loop: no bit above the lowest seven is left.\<close>

lemma and_not_7F: "n AND NOT 0x7F = 0 \<longleftrightarrow> drop_bit 7 n = (0 :: 'a::len word)"
proof -
  have m: "(0x7F :: 'a word) = mask 7" by (simp add: mask_eq_exp_minus_1)
  show ?thesis
  proof
    assume "n AND NOT 0x7F = 0"
    then have *: "bit n i \<longrightarrow> i < 7" if "i < LENGTH('a)" for i
      using that unfolding m by (auto simp: bit_eq_iff bit_and_iff bit_not_iff bit_mask_iff)
    show "drop_bit 7 n = 0"
      by (rule bit_word_eqI) (use * bit_imp_le_length in \<open>fastforce simp: bit_drop_bit_eq\<close>)
  next
    assume "drop_bit 7 n = 0"
    then have *: "\<not> bit n (7 + i)" for i by (metis bit_0_eq bit_drop_bit_eq bot_apply bot_bool_def comp_apply)
    have "\<not> bit n i" if "7 \<le> i" for i using * [of "i - 7"] that by simp
    then show "n AND NOT 0x7F = 0"
      unfolding m by (intro bit_word_eqI) (force simp: bit_and_iff bit_not_iff bit_mask_iff not_less)
  qed
qed

lemma unat_drop_7: "unat (drop_bit 7 n) = unat (n :: 'a::len word) div 128"
  unfolding unat_drop_bit_eq by (simp add: drop_bit_eq_div)

lemma drop_7_less: "drop_bit 7 n \<noteq> 0 \<Longrightarrow> unat (drop_bit 7 n) < unat (n :: 'a::len word)"
proof -
  assume "drop_bit 7 n \<noteq> 0"
  then have "unat (drop_bit 7 n) \<noteq> 0" unfolding unat_eq_0 .
  then show ?thesis unfolding unat_drop_7 by simp
qed

text \<open>The loop that fills the buffer, for both widths.\<close>

function varint_bytes :: "'a::len word \<Rightarrow> bytes" where
  "varint_bytes n =
     (if n AND NOT 0x7F = 0 then [ucast n]
      else ucast ((n AND 0x7F) OR 0x80) # varint_bytes (drop_bit 7 n))"
  by pat_completeness auto
termination
proof (relation "measure unat")
  fix n :: "'a word"
  assume "n AND NOT 0x7F \<noteq> 0"
  then show "(drop_bit 7 n, n) \<in> measure unat"
    unfolding and_not_7F in_measure by (rule drop_7_less)
qed simp

declare varint_bytes.simps [simp del]

text \<open>A width of \<open>7 * k\<close> bits takes at most \<open>k\<close> bytes.\<close>

lemma length_varint:
  assumes "unat n < 2 ^ (7 * k)" and "0 < k"
  shows "length (varint_bytes n) \<le> k"
  using assms
proof (induction n arbitrary: k rule: varint_bytes.induct)
  case (1 n)
  show ?case
  proof (cases "n AND NOT 0x7F = 0")
    case True
    with 1 show ?thesis by (subst varint_bytes.simps) simp
  next
    case False
    then have "drop_bit 7 n \<noteq> 0" unfolding and_not_7F .
    have k: "1 < k"
    proof (rule ccontr)
      assume "\<not> 1 < k"
      with 1 have "unat n < 128" by (cases k) auto
      then have "unat (drop_bit 7 n) = 0" unfolding unat_drop_7 by simp
      with \<open>drop_bit 7 n \<noteq> 0\<close> show False using unat_eq_0 by blast
    qed
    then obtain j where j: "k = Suc j" "0 < j" by (cases k) auto
    have "unat (drop_bit 7 n) < 2 ^ (7 * j)"
      using 1(2) unfolding j(1) unat_drop_7
      by (simp add: power_add less_mult_imp_div_less mult.commute)
    from 1(1) [OF False this j(2)] False show ?thesis by (subst varint_bytes.simps) (simp add: j(1))
  qed
qed

lemma length_varint_32: "length (varint_bytes (n :: i32)) \<le> 5"
  by (rule length_varint, rule less_trans [OF unat_bounds(2)]) simp_all

lemma length_varint_64: "length (varint_bytes (n :: i64)) \<le> 10"
  by (rule length_varint, rule less_trans [OF unat_bounds(3)]) simp_all


section \<open>Reading varints\<close>

text \<open>
  One step of the reading loop: the accumulator and the shift after a byte, and the loop of the
  fast path over the borrowed bytes. \<open>None\<close> stands for reading past them, an empty result for
  a varint of more than ten bytes.
\<close>

definition varint_step :: "i64 \<Rightarrow> nat \<Rightarrow> u8 \<Rightarrow> i64" where
  "varint_step val shift b = val OR push_bit shift (ucast (b AND 0x7F))"

fun varint_borrowed :: "bytes \<Rightarrow> nat \<Rightarrow> i64 \<Rightarrow> nat \<Rightarrow> (exc + nat \<times> i64)" where
  "varint_borrowed [] rsize val shift = Inl UndefinedBehaviour"
| "varint_borrowed (b # bs) rsize val shift =
     (if b AND 0x80 = 0 then Inr (rsize + 1, varint_step val shift b)
      else if rsize + 1 = 10 then Inl (TProtocolException PE_INVALID_DATA)
      else varint_borrowed bs (rsize + 1) (varint_step val shift b) (shift + 7))"

lemma bit_127: "bit (0x7F :: 'a::len word) i \<longleftrightarrow> i < 7 \<and> i < LENGTH('a)"
proof -
  have "(0x7F :: 'a word) = mask 7" by (simp add: mask_eq_exp_minus_1)
  then show ?thesis by (simp only: bit_mask_iff possible_bit_word) auto
qed

lemma bit_128: "bit (0x80 :: 'a::len word) i \<longleftrightarrow> i = 7 \<and> 7 < LENGTH('a)"
proof -
  have "(0x80 :: 'a word) = 2 ^ 7" by simp
  then show ?thesis by (simp only: bit_exp_iff possible_bit_word) auto
qed

lemmas byte_bits = bit_127 bit_128 bit_and_iff bit_or_iff bit_unsigned_iff bit_push_bit_iff bit_drop_bit_eq possible_bit_word

lemma last_byte:
  fixes n :: "'a::len word"
  assumes "n AND NOT 0x7F = 0" and "8 \<le> LENGTH('a)" and "LENGTH('a) \<le> 64"
  shows "(ucast n :: u8) AND 0x80 = 0" and "varint_step val sh (ucast n) = val OR push_bit sh (ucast n)"
proof -
  have d: "drop_bit 7 n = 0" using assms(1) unfolding and_not_7F .
  have n: "\<not> bit n i" if "7 \<le> i" for i
  proof -
    have "bit (drop_bit 7 n) (i - 7) = bit n i" using that by (simp only: bit_drop_bit_eq comp_apply le_add_diff_inverse)
    then show ?thesis unfolding d by simp
  qed
  show "(ucast n :: u8) AND 0x80 = 0"
    by (rule bit_word_eqI) (simp only: byte_bits, use n [of 7] in auto)
  have "ucast ((ucast n :: u8) AND 0x7F) = (ucast n :: i64)"
  proof (rule bit_word_eqI)
    fix i
    show "bit (ucast ((ucast n :: u8) AND 0x7F) :: i64) i = bit (ucast n :: i64) i"
      using n [of i] by (cases "i < 7") (simp_all only: byte_bits, auto)
  qed
  then show "varint_step val sh (ucast n) = val OR push_bit sh (ucast n)" by (simp add: varint_step_def)
qed

lemma more_byte:
  fixes n :: "'a::len word"
  assumes "8 \<le> LENGTH('a)" and "LENGTH('a) \<le> 64"
  shows "(ucast ((n AND 0x7F) OR 0x80) :: u8) AND 0x80 \<noteq> 0"
    and "varint_step val sh (ucast ((n AND 0x7F) OR 0x80)) OR push_bit (sh + 7) (ucast (drop_bit 7 n)) =
      val OR push_bit sh (ucast n)"
proof -
  have "bit ((ucast ((n AND 0x7F) OR 0x80) :: u8) AND 0x80) 7"
    using assms by (simp add: byte_bits)
  then show "(ucast ((n AND 0x7F) OR 0x80) :: u8) AND 0x80 \<noteq> 0" by (metis bit_0_eq bot_apply bot_bool_def)
  have *: "ucast ((ucast ((n AND 0x7F) OR 0x80) :: u8) AND 0x7F) OR push_bit 7 (ucast (drop_bit 7 n)) =
      (ucast n :: i64)"
  proof (rule bit_word_eqI)
    fix i
    assume i: "i < LENGTH(64)"
    have "bit n j \<longrightarrow> j < LENGTH('a)" for j by (simp add: bit_imp_le_length)
    then show "bit (ucast ((ucast ((n AND 0x7F) OR 0x80) :: u8) AND 0x7F) OR
        push_bit 7 (ucast (drop_bit 7 n)) :: i64) i = bit (ucast n :: i64) i"
      using i assms by (cases "i < 7") (simp_all only: byte_bits comp_apply le_add_diff_inverse not_less, auto)
  qed
  show "varint_step val sh (ucast ((n AND 0x7F) OR 0x80)) OR push_bit (sh + 7) (ucast (drop_bit 7 n)) =
      val OR push_bit sh (ucast n)"
    by (simp only: varint_step_def * [symmetric] push_bit_or push_bit_push_bit or.assoc)
qed


text \<open>The loop inverts the writer on any input that starts with the bytes of \<open>n\<close>.\<close>

lemma varint_borrowed_ok:
  fixes n :: "'a::len word"
  assumes "8 \<le> LENGTH('a)" and "LENGTH('a) \<le> 64" and "r + length (varint_bytes n) \<le> 10"
  shows "varint_borrowed (varint_bytes n @ rest) r val sh =
    Inr (r + length (varint_bytes n), val OR push_bit sh (ucast n))"
  using assms(3)
proof (induction n arbitrary: r val sh rule: varint_bytes.induct)
  case (1 n)
  show ?case
  proof (cases "n AND NOT 0x7F = 0")
    case True
    then have "varint_bytes n = [ucast n]" by (subst varint_bytes.simps) simp
    then show ?thesis using last_byte [OF True assms(1,2)] by simp
  next
    case False
    let ?b = "ucast ((n AND 0x7F) OR 0x80) :: u8"
    have v: "varint_bytes n = ?b # varint_bytes (drop_bit 7 n)"
      using False by (subst varint_bytes.simps) (simp only: if_False)
    have pos: "varint_bytes m \<noteq> []" for m :: "'a word" by (subst varint_bytes.simps) simp
    have len: "r + 1 + length (varint_bytes (drop_bit 7 n)) \<le> 10" using 1(2) unfolding v by simp
    then have "r + 1 \<noteq> 10" using pos [of "drop_bit 7 n"] by (cases "varint_bytes (drop_bit 7 n)") auto
    then show ?thesis
      using 1(1) [OF False len, of "varint_step val sh ?b" "sh + 7"] more_byte [OF assms(1,2), where n = n]
      unfolding v by (simp only: append_Cons varint_borrowed.simps if_False list.size) simp
  qed
qed

end
