(* ===== verification/CompactProtocol.thy ===== *)
theory CompactProtocol
  imports ProtocolCodec SkipTermination Varint MemoryBuffer
begin

text \<open>
  \<^verbatim>\<open>TCompactProtocolT\<close> (\<^verbatim>\<open>protocol/TCompactProtocol.{h,tcc}\<close>) over an arbitrary transport:
  variable-length integers, field ids as deltas to the last one of the struct, and booleans of
  fields inside the field header. The object keeps the last field id of every open struct and,
  between two calls, the boolean field whose header waits for its value (writing) or the value
  that came with the header (reading).
\<close>

unbundle bit_operations_syntax

record 'u compact =
  cp_trans :: 'u
  booleanField :: "(bytes \<times> ttype \<times> i16) option"
  boolValue :: "bool option"
  lastField :: "i16 list"
  lastFieldId :: i16
  c_string_limit :: int
  c_string_buf :: "bytes option"
  c_string_buf_size :: int
  c_container_limit :: int

definition new_TCompactProtocol :: "'u \<Rightarrow> 'u compact" where
  "new_TCompactProtocol transport =
     \<lparr>cp_trans = transport, booleanField = None, boolValue = None, lastField = [], lastFieldId = 0,
      c_string_limit = 0, c_string_buf = None, c_string_buf_size = 0, c_container_limit = 0\<rparr>"

definition new_TCompactProtocol_limits :: "'u \<Rightarrow> int \<Rightarrow> int \<Rightarrow> 'u compact" where
  "new_TCompactProtocol_limits transport slimit climit =
     \<lparr>cp_trans = transport, booleanField = None, boolValue = None, lastField = [], lastFieldId = 0,
      c_string_limit = slimit, c_string_buf = None, c_string_buf_size = 0,
      c_container_limit = climit\<rparr>"

section \<open>Types on the wire\<close>

datatype ctype =
    CT_STOP | CT_BOOLEAN_TRUE | CT_BOOLEAN_FALSE | CT_BYTE | CT_I16 | CT_I32 | CT_I64 | CT_DOUBLE
  | CT_BINARY | CT_LIST | CT_SET | CT_MAP | CT_STRUCT

fun ctype_code :: "ctype \<Rightarrow> u8" where
  "ctype_code CT_STOP = 0x00"
| "ctype_code CT_BOOLEAN_TRUE = 0x01"
| "ctype_code CT_BOOLEAN_FALSE = 0x02"
| "ctype_code CT_BYTE = 0x03"
| "ctype_code CT_I16 = 0x04"
| "ctype_code CT_I32 = 0x05"
| "ctype_code CT_I64 = 0x06"
| "ctype_code CT_DOUBLE = 0x07"
| "ctype_code CT_BINARY = 0x08"
| "ctype_code CT_LIST = 0x09"
| "ctype_code CT_SET = 0x0A"
| "ctype_code CT_MAP = 0x0B"
| "ctype_code CT_STRUCT = 0x0C"

definition TTypeToCType :: "u8 list" where
  "TTypeToCType =
     [ctype_code CT_STOP, 0, ctype_code CT_BOOLEAN_TRUE, ctype_code CT_BYTE, ctype_code CT_DOUBLE, 0,
      ctype_code CT_I16, 0, ctype_code CT_I32, 0, ctype_code CT_I64, ctype_code CT_BINARY,
      ctype_code CT_STRUCT, ctype_code CT_MAP, ctype_code CT_SET, ctype_code CT_LIST]"

text \<open>The table is indexed without a check: beyond its 16 entries the access is undefined.\<close>

definition getCompactType :: "u8 \<Rightarrow> exc + u8" where
  "getCompactType ttype =
     (if unat ttype < length TTypeToCType then Inr (TTypeToCType ! unat ttype)
      else Inl UndefinedBehaviour)"

definition getTType :: "u8 \<Rightarrow> exc + ttype" where
  "getTType type =
     (if type = ttype_code T_STOP then Inr T_STOP
      else if type = ctype_code CT_BOOLEAN_FALSE \<or> type = ctype_code CT_BOOLEAN_TRUE then Inr T_BOOL
      else if type = ctype_code CT_BYTE then Inr T_BYTE
      else if type = ctype_code CT_I16 then Inr T_I16
      else if type = ctype_code CT_I32 then Inr T_I32
      else if type = ctype_code CT_I64 then Inr T_I64
      else if type = ctype_code CT_DOUBLE then Inr T_DOUBLE
      else if type = ctype_code CT_BINARY then Inr T_STRING
      else if type = ctype_code CT_LIST then Inr T_LIST
      else if type = ctype_code CT_SET then Inr T_SET
      else if type = ctype_code CT_MAP then Inr T_MAP
      else if type = ctype_code CT_STRUCT then Inr T_STRUCT
      else Inl TException)"

definition PROTOCOL_ID :: u8 where
  "PROTOCOL_ID = 0x82"

definition VERSION_N :: u8 where
  "VERSION_N = 1"

definition C_VERSION_MASK :: u8 where
  "C_VERSION_MASK = 0x1f"

definition TYPE_MASK :: i32 where
  "TYPE_MASK = 0xFFFFFFE0"

definition TYPE_SHIFT_AMOUNT :: nat where
  "TYPE_SHIFT_AMOUNT = 5"

text \<open>Calls on the transport, results that are no transport calls, and changes of the object.\<close>

definition cp_call :: "('u, 'a) tio \<Rightarrow> ('u compact, 'a) tio" where
  [tio_simps]: "cp_call = on_part cp_trans (\<lambda>u s. s\<lparr>cp_trans := u\<rparr>)"

definition resultC :: "exc + 'a \<Rightarrow> ('s, 'a) pio" where
  "resultC r = (case r of Inl e \<Rightarrow> throw e | Inr x \<Rightarrow> retC x)"

definition modifyC :: "('s \<Rightarrow> 's) \<Rightarrow> ('s, unit) pio" where
  "modifyC f = countC 0 (modify f)"

section \<open>Writing\<close>

definition cp_write :: "'u ttransport \<Rightarrow> bytes \<Rightarrow> ('u compact, unit) pio" where
  "cp_write U bs = countC (length bs) (cp_call (t_write U bs))"

definition cp_writeByte :: "'u ttransport \<Rightarrow> u8 \<Rightarrow> ('u compact, unit) pio" where
  "cp_writeByte U w = cp_write U [w]"

text \<open>The buffers on the stack hold five and ten bytes.\<close>

definition cp_writeVarint32 :: "'u ttransport \<Rightarrow> i32 \<Rightarrow> ('u compact, unit) pio" where
  "cp_writeVarint32 U n =
     (if 5 < length (varint_bytes n) then throw UndefinedBehaviour else cp_write U (varint_bytes n))"

definition cp_writeVarint64 :: "'u ttransport \<Rightarrow> i64 \<Rightarrow> ('u compact, unit) pio" where
  "cp_writeVarint64 U n =
     (if 10 < length (varint_bytes n) then throw UndefinedBehaviour else cp_write U (varint_bytes n))"

definition cp_writeI16 :: "'u ttransport \<Rightarrow> i16 \<Rightarrow> ('u compact, unit) pio" where
  "cp_writeI16 U w = cp_writeVarint32 U (i32ToZigzag (scast w))"

definition cp_writeI32 :: "'u ttransport \<Rightarrow> i32 \<Rightarrow> ('u compact, unit) pio" where
  "cp_writeI32 U w = cp_writeVarint32 U (i32ToZigzag w)"

definition cp_writeI64 :: "'u ttransport \<Rightarrow> i64 \<Rightarrow> ('u compact, unit) pio" where
  "cp_writeI64 U w = cp_writeVarint64 U (i64ToZigzag w)"

definition cp_writeDouble :: "'u ttransport \<Rightarrow> i64 \<Rightarrow> ('u compact, unit) pio" where
  "cp_writeDouble U bits = cp_write U (le_bytes 8 (unat bits))"

definition cp_writeBinary :: "'u ttransport \<Rightarrow> bytes \<Rightarrow> ('u compact, unit) pio" where
  "cp_writeBinary U str =
     (let ssize = u32 (length str) in
      bindC (cp_writeVarint32 U (of_nat ssize)) (\<lambda>_. cp_write U (take ssize str)))"

definition cp_writeString :: "'u ttransport \<Rightarrow> bytes \<Rightarrow> ('u compact, unit) pio" where
  "cp_writeString U str = cp_writeBinary U str"

definition cp_writeMessageBegin ::
  "'u ttransport \<Rightarrow> bytes \<Rightarrow> tmessage_type \<Rightarrow> i32 \<Rightarrow> ('u compact, unit) pio" where
  "cp_writeMessageBegin U name messageType seqid =
     bindC (cp_writeByte U PROTOCOL_ID) (\<lambda>_.
     bindC (cp_writeByte U (ucast (ucast (VERSION_N AND C_VERSION_MASK) OR
       (push_bit TYPE_SHIFT_AMOUNT (msg_code messageType) AND TYPE_MASK)))) (\<lambda>_.
     bindC (cp_writeVarint32 U seqid) (\<lambda>_. cp_writeString U name)))"

definition cp_writeMessageEnd :: "('u compact, unit) pio" where
  "cp_writeMessageEnd = retC ()"

definition cp_writeStructBegin :: "bytes \<Rightarrow> ('u compact, unit) pio" where
  "cp_writeStructBegin name =
     modifyC (\<lambda>s. s\<lparr>lastField := lastFieldId s # lastField s, lastFieldId := 0\<rparr>)"

definition cp_pop_struct :: "('u compact, unit) pio" where
  "cp_pop_struct s =
     (case lastField s of
        [] \<Rightarrow> throw UndefinedBehaviour
      | i # is \<Rightarrow> modifyC (\<lambda>s. s\<lparr>lastFieldId := i, lastField := is\<rparr>)) s"

definition cp_writeStructEnd :: "('u compact, unit) pio" where
  "cp_writeStructEnd = cp_pop_struct"

text \<open>
  The type to write is the override when there is one. The id goes with it as a delta when it is
  above the last one by at most 15.
\<close>

definition cp_writeFieldBeginInternal ::
  "'u ttransport \<Rightarrow> bytes \<Rightarrow> ttype \<Rightarrow> i16 \<Rightarrow> u8 option \<Rightarrow> ('u compact, unit) pio" where
  "cp_writeFieldBeginInternal U name fieldType fieldId typeOverride =
     bindC (resultC (case typeOverride of
       None \<Rightarrow> getCompactType (ttype_code fieldType) | Some t \<Rightarrow> Inr t)) (\<lambda>typeToWrite.
     bindC (\<lambda>s.
       (if sint (lastFieldId s) < sint fieldId \<and> sint fieldId - sint (lastFieldId s) \<le> 15
        then cp_writeByte U (push_bit 4 (of_int (sint fieldId - sint (lastFieldId s))) OR typeToWrite)
        else bindC (cp_writeByte U typeToWrite) (\<lambda>_. cp_writeI16 U fieldId)) s) (\<lambda>_.
     modifyC (\<lambda>s. s\<lparr>lastFieldId := fieldId\<rparr>)))"

definition cp_writeFieldBegin :: "'u ttransport \<Rightarrow> bytes \<Rightarrow> ttype \<Rightarrow> i16 \<Rightarrow> ('u compact, unit) pio" where
  "cp_writeFieldBegin U name fieldType fieldId =
     (if fieldType = T_BOOL
      then modifyC (\<lambda>s. s\<lparr>booleanField := Some (name, fieldType, fieldId)\<rparr>)
      else cp_writeFieldBeginInternal U name fieldType fieldId None)"

definition cp_writeFieldEnd :: "('u compact, unit) pio" where
  "cp_writeFieldEnd = retC ()"

definition cp_writeFieldStop :: "'u ttransport \<Rightarrow> ('u compact, unit) pio" where
  "cp_writeFieldStop U = cp_writeByte U (ttype_code T_STOP)"

definition cp_writeBool :: "'u ttransport \<Rightarrow> bool \<Rightarrow> ('u compact, unit) pio" where
  "cp_writeBool U v s =
     (let ct = ctype_code (if v then CT_BOOLEAN_TRUE else CT_BOOLEAN_FALSE) in
      case booleanField s of
        Some (name, fieldType, fieldId) \<Rightarrow>
          bindC (cp_writeFieldBeginInternal U name fieldType fieldId (Some ct)) (\<lambda>_.
          modifyC (\<lambda>s. s\<lparr>booleanField := None\<rparr>))
      | None \<Rightarrow> cp_writeByte U ct) s"

text \<open>The size of a collection arrives as a signed integer.\<close>

definition cp_writeCollectionBegin :: "'u ttransport \<Rightarrow> ttype \<Rightarrow> i32 \<Rightarrow> ('u compact, unit) pio" where
  "cp_writeCollectionBegin U elemType sz =
     bindC (resultC (getCompactType (ttype_code elemType))) (\<lambda>ct.
     if sint sz \<le> 14 then cp_writeByte U (push_bit 4 (ucast sz) OR ct)
     else bindC (cp_writeByte U (0xf0 OR ct)) (\<lambda>_. cp_writeVarint32 U sz))"

definition cp_writeListBegin :: "'u ttransport \<Rightarrow> ttype \<Rightarrow> nat \<Rightarrow> ('u compact, unit) pio" where
  "cp_writeListBegin U elemType sz = cp_writeCollectionBegin U elemType (of_nat sz)"

definition cp_writeListEnd :: "('u compact, unit) pio" where
  "cp_writeListEnd = retC ()"

definition cp_writeSetBegin :: "'u ttransport \<Rightarrow> ttype \<Rightarrow> nat \<Rightarrow> ('u compact, unit) pio" where
  "cp_writeSetBegin U elemType sz = cp_writeCollectionBegin U elemType (of_nat sz)"

definition cp_writeSetEnd :: "('u compact, unit) pio" where
  "cp_writeSetEnd = retC ()"

definition cp_writeMapBegin :: "'u ttransport \<Rightarrow> ttype \<Rightarrow> ttype \<Rightarrow> nat \<Rightarrow> ('u compact, unit) pio" where
  "cp_writeMapBegin U keyType valType sz =
     (if sz = 0 then cp_writeByte U 0
      else
        bindC (cp_writeVarint32 U (of_nat sz)) (\<lambda>_.
        bindC (resultC (getCompactType (ttype_code keyType))) (\<lambda>k.
        bindC (resultC (getCompactType (ttype_code valType))) (\<lambda>v.
        cp_writeByte U (push_bit 4 k OR v)))))"

definition cp_writeMapEnd :: "('u compact, unit) pio" where
  "cp_writeMapEnd = retC ()"

section \<open>Reading\<close>

definition cp_readAll :: "'u ttransport \<Rightarrow> nat \<Rightarrow> (bytes \<Rightarrow> 'a) \<Rightarrow> ('u compact, 'a) pio" where
  "cp_readAll U n f = countC n (bindT (cp_call (t_readAll U n)) (\<lambda>bs. ret (f bs)))"

definition cp_readByte :: "'u ttransport \<Rightarrow> ('u compact, u8) pio" where
  "cp_readByte U = cp_readAll U 1 (\<lambda>bs. of_nat (be_nat bs))"

text \<open>The slow path of a varint reads byte after byte; it gives up after ten.\<close>

function varint_slow :: "'u ttransport \<Rightarrow> nat \<Rightarrow> i64 \<Rightarrow> nat \<Rightarrow> ('u compact, nat \<times> i64) tio" where
  "varint_slow U rsize val shift =
     bindT (cp_readByte U) (\<lambda>(n, b).
     if b AND 0x80 = 0 then ret (rsize + 1, varint_step val shift b)
     else if 10 \<le> rsize + 1 then throw (TProtocolException PE_INVALID_DATA)
     else varint_slow U (rsize + 1) (varint_step val shift b) (shift + 7))"
  by pat_completeness auto
termination by (relation "measure (\<lambda>(U, rsize, val, shift). 10 - rsize)") auto

declare varint_slow.simps [simp del]

definition cp_readVarint64 :: "'u ttransport \<Rightarrow> ('u compact, i64) pio" where
  "cp_readVarint64 U =
     bindT (cp_call (t_borrow U 10)) (\<lambda>borrowed.
     case borrowed of
       Some bs \<Rightarrow>
         (case varint_borrowed bs 0 0 0 of
            Inl e \<Rightarrow> throw e
          | Inr (rsize, val) \<Rightarrow> countC rsize (bindT (cp_call (t_consume U rsize)) (\<lambda>_. ret val)))
     | None \<Rightarrow> varint_slow U 0 0 0)"

definition cp_readVarint32 :: "'u ttransport \<Rightarrow> ('u compact, i32) pio" where
  "cp_readVarint32 U = bindC (cp_readVarint64 U) (\<lambda>val. retC (ucast val))"

definition cp_readI16 :: "'u ttransport \<Rightarrow> ('u compact, i16) pio" where
  "cp_readI16 U = bindC (cp_readVarint32 U) (\<lambda>value. retC (ucast (zigzagToI32 value)))"

definition cp_readI32 :: "'u ttransport \<Rightarrow> ('u compact, i32) pio" where
  "cp_readI32 U = bindC (cp_readVarint32 U) (\<lambda>value. retC (zigzagToI32 value))"

definition cp_readI64 :: "'u ttransport \<Rightarrow> ('u compact, i64) pio" where
  "cp_readI64 U = bindC (cp_readVarint64 U) (\<lambda>value. retC (zigzagToI64 value))"

definition cp_readDouble :: "'u ttransport \<Rightarrow> ('u compact, i64) pio" where
  "cp_readDouble U = cp_readAll U 8 (\<lambda>bs. of_nat (le_nat bs))"

definition cp_readBool :: "'u ttransport \<Rightarrow> ('u compact, bool) pio" where
  "cp_readBool U s =
     (case boolValue s of
        Some v \<Rightarrow> bindC (modifyC (\<lambda>s. s\<lparr>boolValue := None\<rparr>)) (\<lambda>_. retC v)
      | None \<Rightarrow> bindC (cp_readByte U) (\<lambda>val. retC (val = ctype_code CT_BOOLEAN_TRUE))) s"

definition c_string_buf_grow :: "int \<Rightarrow> 'u compact \<Rightarrow> 'u compact" where
  "c_string_buf_grow sz s =
     (if sz > c_string_buf_size s \<or> c_string_buf s = None
      then s\<lparr>c_string_buf := Some (resize (nat sz) (case c_string_buf s of None \<Rightarrow> [] | Some b \<Rightarrow> b)),
             c_string_buf_size := sz\<rparr>
      else s)"

definition c_string_mem :: "'u compact \<Rightarrow> bytes" where
  "c_string_mem s = (case c_string_buf s of None \<Rightarrow> [] | Some b \<Rightarrow> b)"

definition cp_readBinary :: "'u ttransport \<Rightarrow> ('u compact, bytes) pio" where
  "cp_readBinary U =
     bindC (cp_readVarint32 U) (\<lambda>w s.
       (let sz = sint w in
        if sz = 0 then retC []
        else if sz < 0 then throw (TProtocolException PE_NEGATIVE_SIZE)
        else if c_string_limit s > 0 \<and> sz > c_string_limit s
        then throw (TProtocolException PE_SIZE_LIMIT)
        else
          bindT (modify (c_string_buf_grow sz)) (\<lambda>_.
          bindT (cp_call (t_readAll U (nat sz))) (\<lambda>bs.
          bindT (store c_string_mem (\<lambda>f s. s\<lparr>c_string_buf := map_option f (c_string_buf s)\<rparr>) 0 bs) (\<lambda>_.
          countC (nat sz) (load c_string_mem 0 (nat sz)))))) s)"

definition cp_readString :: "'u ttransport \<Rightarrow> ('u compact, bytes) pio" where
  "cp_readString U = cp_readBinary U"

text \<open>The message type is what is left of the signed byte after the shift, masked with 3.\<close>

definition cp_readMessageBegin :: "'u ttransport \<Rightarrow> ('u compact, bytes \<times> tmessage_type \<times> i32) pio" where
  "cp_readMessageBegin U =
     bindC (cp_readByte U) (\<lambda>protocolId.
     if protocolId \<noteq> PROTOCOL_ID then throw (TProtocolException PE_BAD_VERSION)
     else bindC (cp_readByte U) (\<lambda>versionAndType.
       if versionAndType AND C_VERSION_MASK \<noteq> VERSION_N then throw (TProtocolException PE_BAD_VERSION)
       else
         bindC (cp_readVarint32 U) (\<lambda>seqid.
         bindC (cp_readString U) (\<lambda>name.
         retC (name, msg_of (signed_drop_bit TYPE_SHIFT_AMOUNT (scast versionAndType) AND 3), seqid)))))"

definition cp_readMessageEnd :: "('u compact, unit) pio" where
  "cp_readMessageEnd = retC ()"

definition cp_readStructBegin :: "('u compact, bytes) pio" where
  "cp_readStructBegin =
     bindC (modifyC (\<lambda>s. s\<lparr>lastField := lastFieldId s # lastField s, lastFieldId := 0\<rparr>))
       (\<lambda>_. retC [])"

definition cp_readStructEnd :: "('u compact, unit) pio" where
  "cp_readStructEnd = cp_pop_struct"

definition cp_readFieldBegin :: "'u ttransport \<Rightarrow> ('u compact, bytes \<times> ttype \<times> i16) pio" where
  "cp_readFieldBegin U =
     bindC (cp_readByte U) (\<lambda>byte.
     let type = byte AND 0x0f; modifier = ucast (drop_bit 4 (byte AND 0xf0)) in
     if type = ttype_code T_STOP then retC ([], T_STOP, 0)
     else
       bindC (if modifier = 0 then cp_readI16 U
              else countC 0 (gets (\<lambda>s. lastFieldId s + modifier))) (\<lambda>fieldId.
       bindC (resultC (getTType type)) (\<lambda>fieldType.
       bindC (modifyC (\<lambda>s.
         if type = ctype_code CT_BOOLEAN_TRUE \<or> type = ctype_code CT_BOOLEAN_FALSE
         then s\<lparr>boolValue := Some (type = ctype_code CT_BOOLEAN_TRUE)\<rparr> else s)) (\<lambda>_.
       bindC (modifyC (\<lambda>s. s\<lparr>lastFieldId := fieldId\<rparr>)) (\<lambda>_.
       retC ([], fieldType, fieldId))))))"

definition cp_readFieldEnd :: "('u compact, unit) pio" where
  "cp_readFieldEnd = retC ()"

definition cp_checkSize :: "int \<Rightarrow> ('u compact, nat) pio" where
  "cp_checkSize sz s =
     (if sz < 0 then throw (TProtocolException PE_NEGATIVE_SIZE)
      else if c_container_limit s \<noteq> 0 \<and> sz > c_container_limit s
      then throw (TProtocolException PE_SIZE_LIMIT)
      else retC (nat sz)) s"

definition cp_readMapBegin :: "'u ttransport \<Rightarrow> ('u compact, ttype \<times> ttype \<times> nat) pio" where
  "cp_readMapBegin U =
     bindC (cp_readVarint32 U) (\<lambda>msize.
     bindC (if msize \<noteq> 0 then cp_readByte U else retC 0) (\<lambda>kvType.
     bindC (cp_checkSize (sint msize)) (\<lambda>sz.
     bindC (resultC (getTType (drop_bit 4 kvType))) (\<lambda>keyType.
     bindC (resultC (getTType (kvType AND 0xf))) (\<lambda>valType.
     retC (keyType, valType, sz))))))"

definition cp_readMapEnd :: "('u compact, unit) pio" where
  "cp_readMapEnd = retC ()"

definition cp_readListBegin :: "'u ttransport \<Rightarrow> ('u compact, ttype \<times> nat) pio" where
  "cp_readListBegin U =
     bindC (cp_readByte U) (\<lambda>size_and_type.
     bindC (if drop_bit 4 size_and_type AND 0x0f = 15 then cp_readVarint32 U
            else retC (ucast (drop_bit 4 size_and_type AND 0x0f))) (\<lambda>lsize.
     bindC (cp_checkSize (sint lsize)) (\<lambda>sz.
     bindC (resultC (getTType (size_and_type AND 0x0f))) (\<lambda>elemType.
     retC (elemType, sz)))))"

definition cp_readListEnd :: "('u compact, unit) pio" where
  "cp_readListEnd = retC ()"

definition cp_readSetBegin :: "'u ttransport \<Rightarrow> ('u compact, ttype \<times> nat) pio" where
  "cp_readSetBegin U = cp_readListBegin U"

definition cp_readSetEnd :: "('u compact, unit) pio" where
  "cp_readSetEnd = retC ()"

definition compact_protocol :: "'u ttransport \<Rightarrow> 'u compact tprotocol" where
  "compact_protocol U = \<lparr>
     writeMessageBegin_virt = cp_writeMessageBegin U, writeMessageEnd_virt = cp_writeMessageEnd,
     writeStructBegin_virt = cp_writeStructBegin, writeStructEnd_virt = cp_writeStructEnd,
     writeFieldBegin_virt = cp_writeFieldBegin U, writeFieldEnd_virt = cp_writeFieldEnd,
     writeFieldStop_virt = cp_writeFieldStop U, writeMapBegin_virt = cp_writeMapBegin U,
     writeMapEnd_virt = cp_writeMapEnd, writeListBegin_virt = cp_writeListBegin U,
     writeListEnd_virt = cp_writeListEnd, writeSetBegin_virt = cp_writeSetBegin U,
     writeSetEnd_virt = cp_writeSetEnd, writeBool_virt = cp_writeBool U,
     writeByte_virt = cp_writeByte U, writeI16_virt = cp_writeI16 U,
     writeI32_virt = cp_writeI32 U, writeI64_virt = cp_writeI64 U,
     writeDouble_virt = cp_writeDouble U, writeString_virt = cp_writeString U,
     writeBinary_virt = cp_writeBinary U,
     readMessageBegin_virt = cp_readMessageBegin U, readMessageEnd_virt = cp_readMessageEnd,
     readStructBegin_virt = cp_readStructBegin, readStructEnd_virt = cp_readStructEnd,
     readFieldBegin_virt = cp_readFieldBegin U, readFieldEnd_virt = cp_readFieldEnd,
     readMapBegin_virt = cp_readMapBegin U, readMapEnd_virt = cp_readMapEnd,
     readListBegin_virt = cp_readListBegin U, readListEnd_virt = cp_readListEnd,
     readSetBegin_virt = cp_readSetBegin U, readSetEnd_virt = cp_readSetEnd,
     readBool_virt = cp_readBool U, readByte_virt = cp_readByte U, readI16_virt = cp_readI16 U,
     readI32_virt = cp_readI32 U, readI64_virt = cp_readI64 U, readDouble_virt = cp_readDouble U,
     readString_virt = cp_readString U, readBinary_virt = cp_readBinary U\<rparr>"

end
