(* ===== verification/CompactCodec.thy ===== *)
theory CompactCodec
  imports CompactProtocol
begin

text \<open>
  TCompactProtocol keeps the promises of a protocol: its writer and its reader are a codec over any
  transport, and skipping ends on every input.
\<close>

unbundle bit_operations_syntax


section \<open>The context of the object\<close>

text \<open>
  The context of an object: the last field id, those of the enclosing structs, the value of a
  boolean field whose header has been read, and the boolean field whose header is to be written.
\<close>

type_synonym cp_ctx = "i16 \<times> i16 list \<times> bool option \<times> (bytes \<times> ttype \<times> i16) option"

definition c_string_buf_ok :: "'u compact \<Rightarrow> bool" where
  "c_string_buf_ok s \<longleftrightarrow> (\<forall>b. c_string_buf s = Some b \<longrightarrow> int (length b) = c_string_buf_size s)"

definition cp_W :: "('u \<Rightarrow> bool) \<Rightarrow> cp_ctx \<Rightarrow> 'u compact \<Rightarrow> bool" where
  "cp_W winv c s \<longleftrightarrow> winv (cp_trans s) \<and> c = (lastFieldId s, lastField s, None, booleanField s)"

definition cp_R :: "('u \<Rightarrow> bool) \<Rightarrow> int \<Rightarrow> int \<Rightarrow> cp_ctx \<Rightarrow> 'u compact \<Rightarrow> bool" where
  "cp_R rinv sl cl c s \<longleftrightarrow> rinv (cp_trans s) \<and> c_string_limit s = sl \<and> c_container_limit s = cl \<and>
     c_string_buf_ok s \<and> c = (lastFieldId s, lastField s, boolValue s, None)"

definition cp_clean :: "cp_ctx \<Rightarrow> bool" where
  "cp_clean c \<longleftrightarrow> snd (snd c) = (None, None)"

definition cp_push :: "cp_ctx \<Rightarrow> cp_ctx" where
  "cp_push c = (0, fst c # fst (snd c), None, None)"

definition cp_fld :: "cp_ctx \<Rightarrow> ttype \<Rightarrow> i16 \<Rightarrow> cp_ctx" where
  "cp_fld c t i = (i, snd c)"

definition cp_level :: "cp_ctx \<Rightarrow> cp_ctx \<Rightarrow> bool" where
  "cp_level c d \<longleftrightarrow> cp_clean c \<and> cp_clean d \<and> fst (snd d) = fst c # fst (snd c)"

lemma c_string_buf_grow_ok:
  assumes "c_string_buf_ok t"
  shows "\<exists>m. c_string_buf (c_string_buf_grow (int n) t) = Some m \<and> n \<le> length m \<and>
      int (length m) = c_string_buf_size (c_string_buf_grow (int n) t)"
    and "cp_trans (c_string_buf_grow sz t) = cp_trans t"
    and "c_string_limit (c_string_buf_grow sz t) = c_string_limit t"
    and "c_container_limit (c_string_buf_grow sz t) = c_container_limit t"
    and "lastFieldId (c_string_buf_grow sz t) = lastFieldId t"
    and "lastField (c_string_buf_grow sz t) = lastField t"
    and "boolValue (c_string_buf_grow sz t) = boolValue t"
  using assms by (auto simp: c_string_buf_grow_def c_string_buf_ok_def)

lemma nibble_bits: "unat (w :: u8) < 16 \<Longrightarrow> bit w i \<Longrightarrow> i < 4"
proof (rule ccontr)
  assume "unat w < 16" and b: "bit w i" and "\<not> i < 4"
  then have "drop_bit 4 (unat w) = 0" by (simp add: drop_bit_eq_div)
  moreover have "bit (drop_bit 4 (unat w)) (i - 4)"
    using b \<open>\<not> i < 4\<close> by (simp add: bit_drop_bit_eq bit_unsigned_iff)
  ultimately show False by simp
qed

lemma bit_0F: "bit (0x0F :: u8) i \<longleftrightarrow> i < 4"
proof -
  have "(0x0F :: u8) = mask 4" by (simp add: mask_eq_exp_minus_1)
  then show ?thesis by (simp only: bit_mask_iff possible_bit_word) auto
qed

lemma bit_F0: "bit (0xF0 :: u8) i \<longleftrightarrow> 4 \<le> i \<and> i < 8"
proof -
  have "(0xF0 :: u8) = push_bit 4 (mask 4)" by (simp add: mask_eq_exp_minus_1)
  then show ?thesis by (simp only: bit_push_bit_iff bit_mask_iff possible_bit_word) auto
qed

lemma nibbles:
  assumes "unat (hi :: u8) < 16" and "unat lo < 16"
  shows "(push_bit 4 hi OR lo) AND 0x0F = lo"
    and "drop_bit 4 (push_bit 4 hi OR lo) = hi"
    and "drop_bit 4 ((push_bit 4 hi OR lo) AND 0xF0) = hi"
    and "drop_bit 4 (push_bit 4 hi OR lo) AND 0x0F = hi"
    and "lo AND 0x0F = lo" and "drop_bit 4 (lo AND 0xF0) = 0"
    and "0xF0 OR lo = push_bit 4 15 OR lo"
proof -
  note hi = nibble_bits [OF assms(1)] and lo = nibble_bits [OF assms(2)]
  have 8: "bit hi i \<longrightarrow> i < 8" "bit lo i \<longrightarrow> i < 8" for i by (auto dest: bit_imp_le_length)
  show "(push_bit 4 hi OR lo) AND 0x0F = lo"
    by (rule bit_word_eqI) (simp only: byte_bits bit_0F, use lo 8 in auto)
  show "drop_bit 4 (push_bit 4 hi OR lo) = hi"
    by (rule bit_word_eqI) (simp only: byte_bits comp_apply, use hi lo 8 in fastforce)
  show "drop_bit 4 ((push_bit 4 hi OR lo) AND 0xF0) = hi"
    by (rule bit_word_eqI) (simp only: byte_bits comp_apply bit_F0, use hi lo 8 in fastforce)
  show "drop_bit 4 (push_bit 4 hi OR lo) AND 0x0F = hi"
    by (rule bit_word_eqI) (simp only: byte_bits comp_apply bit_0F, use hi lo 8 in fastforce)
  show "lo AND 0x0F = lo"
    by (rule bit_word_eqI) (simp only: byte_bits bit_0F, use lo in auto)
  show "drop_bit 4 (lo AND 0xF0) = 0"
    by (rule bit_word_eqI) (simp only: byte_bits bit_F0 comp_apply, use lo in fastforce)
  show "0xF0 OR lo = push_bit 4 15 OR lo" by simp
qed

lemma getCompactType_data:
  assumes "data_type t"
  obtains c where "getCompactType (ttype_code t) = Inr c" and "0 < unat c" and "unat c < 13"
    and "getTType c = Inr t" and "c = ctype_code CT_BOOLEAN_FALSE \<or> c = ctype_code CT_BOOLEAN_TRUE \<longleftrightarrow> t = T_BOOL"
  using assms by (cases t) (auto simp: getCompactType_def TTypeToCType_def getTType_def)


lemma cp_set_trans [simp]:
  "c_string_buf_ok (s\<lparr>cp_trans := u\<rparr>) = c_string_buf_ok s"
  "c_string_mem (s\<lparr>cp_trans := u\<rparr>) = c_string_mem s"
  by (simp_all add: c_string_buf_ok_def c_string_mem_def)

context byte_channel
begin

abbreviation cp_emits :: "cp_ctx \<Rightarrow> ('s compact, 'x) pio \<Rightarrow> bytes \<Rightarrow> 'x \<Rightarrow> cp_ctx \<Rightarrow> bool" where
  "cp_emits \<equiv> codec_base.emits (cp_W winv) (\<lambda>s. room (cp_trans s)) (\<lambda>s. written (cp_trans s))"

abbreviation cp_takes :: "int \<Rightarrow> int \<Rightarrow> cp_ctx \<Rightarrow> ('s compact, 'x) pio \<Rightarrow> bytes \<Rightarrow> 'x \<Rightarrow> cp_ctx \<Rightarrow> bool" where
  "cp_takes sl cl \<equiv> codec_base.takes (cp_R rinv sl cl) (\<lambda>s. pending (cp_trans s))"

abbreviation cp_transfers :: "int \<Rightarrow> int \<Rightarrow> nat \<Rightarrow> cp_ctx \<Rightarrow> ('s compact, unit) pio \<Rightarrow> ('s compact, 'x) pio \<Rightarrow>
    'x \<Rightarrow> cp_ctx \<Rightarrow> bool" where
  "cp_transfers sl cl \<equiv> codec_base.transfers (cp_W winv) (\<lambda>s. room (cp_trans s)) (\<lambda>s. written (cp_trans s))
     (cp_R rinv sl cl) (\<lambda>s. pending (cp_trans s))"

lemma cp_emits_write:
  assumes "length bs < 2 ^ 32"
  shows "cp_emits c (cp_write T bs) bs () c"
  unfolding codec_base.emits_def
proof (intro allI impI)
  fix s n
  assume s: "cp_W winv c s" and "room (cp_trans s) (length bs + n)"
  then obtain u where "t_write T bs (cp_trans s) = (Inr (), u)" "winv u"
      "written u = written (cp_trans s) @ bs" "room u n"
    unfolding cp_W_def using write_whole by blast
  with assms s show "\<exists>s'. cp_write T bs s = (Inr (u32 (length bs), ()), s') \<and> cp_W winv c s' \<and>
      written (cp_trans s') = written (cp_trans s) @ bs \<and> room (cp_trans s') n"
    by (simp add: cp_write_def countC_def tio_simps cp_W_def)
qed

lemma cp_takes_readAll:
  assumes "length bs = n" and "n < 2 ^ 32"
  shows "cp_takes sl cl c (cp_readAll T n f) bs (f bs) c"
  unfolding codec_base.takes_def
proof (intro allI impI)
  fix s rest
  assume s: "cp_R rinv sl cl c s" and p: "pending (cp_trans s) = bs @ rest"
  then have "rinv (cp_trans s)" by (simp add: cp_R_def)
  from read_whole [OF this p] obtain u where "t_readAll T (length bs) (cp_trans s) = (Inr bs, u)"
      "rinv u" "pending u = rest" by blast
  with assms s show "\<exists>s'. cp_readAll T n f s = (Inr (u32 (length bs), f bs), s') \<and>
      cp_R rinv sl cl c s' \<and> pending (cp_trans s') = rest"
    by (simp add: cp_readAll_def countC_def tio_simps cp_R_def)
qed

lemma cp_takes_byte: "cp_takes sl cl c (cp_readByte T) [w] w c"
  using cp_takes_readAll [of "[w]" 1 sl cl c "\<lambda>bs. of_nat (be_nat bs) :: u8"] by (simp add: cp_readByte_def)

lemma cp_emits_byte: "cp_emits c (cp_writeByte T w) [w] () c"
  using cp_emits_write [of "[w]" c] by (simp add: cp_writeByte_def)

lemmas cp_emits_bind = codec_base.emits_bind [where W = "cp_W winv" and room = "\<lambda>s. room (cp_trans s)"
    and written = "\<lambda>s. written (cp_trans s)"]

lemmas cp_takes_bind = codec_base.takes_bind [where R = "cp_R rinv sl cl" and
    pending = "\<lambda>s. pending (cp_trans s)" for sl cl]

lemma cp_takes_bind0:
  "cp_takes sl cl c m bs x c1 \<Longrightarrow> cp_takes sl cl c1 (f x) [] y c2 \<Longrightarrow> cp_takes sl cl c (bindC m f) bs y c2"
  using cp_takes_bind [of sl cl c m bs x c1 f "[]" y c2] by simp

lemma cp_takes_0bind:
  "cp_takes sl cl c m [] x c1 \<Longrightarrow> cp_takes sl cl c1 (f x) bs y c2 \<Longrightarrow> cp_takes sl cl c (bindC m f) bs y c2"
  using cp_takes_bind [of sl cl c m "[]" x c1 f bs y c2] by simp

lemma cp_emits_0bind:
  "cp_emits c m [] x c1 \<Longrightarrow> cp_emits c1 (f x) bs y c2 \<Longrightarrow> cp_emits c (bindC m f) bs y c2"
  using cp_emits_bind [of c m "[]" x c1 f bs y c2] by simp

lemma cp_emits_bind0:
  "cp_emits c m bs x c1 \<Longrightarrow> cp_emits c1 (f x) [] y c2 \<Longrightarrow> cp_emits c (bindC m f) bs y c2"
  using cp_emits_bind [of c m bs x c1 f "[]" y c2] by simp

lemma cp_takes_retC: "cp_takes sl cl c (retC x) [] x c"
  by (rule codec_base.takes_retC)

lemma cp_emits_retC: "cp_emits c (retC x) [] x c"
  by (rule codec_base.emits_retC)

lemma cp_resultC: "r = Inr x \<Longrightarrow> cp_takes sl cl c (resultC r) [] x c"
  "r = Inr x \<Longrightarrow> cp_emits c (resultC r) [] x c"
  by (simp_all add: resultC_def cp_takes_retC cp_emits_retC)

lemma cp_takes_map: "cp_takes sl cl c m bs x c' \<Longrightarrow> cp_takes sl cl c (bindC m (\<lambda>y. retC (g y))) bs (g x) c'"
  by (rule codec_base.takes_map)

lemma cp_transfersI:
  "cp_emits c m bs () c' \<Longrightarrow> cp_takes sl cl c m' bs x c' \<Longrightarrow> length bs \<le> k \<Longrightarrow> cp_transfers sl cl k c m m' x c'"
  unfolding codec_base.transfers_def by blast

section \<open>Varints over a transport\<close>

lemma cp_slow_takes:
  fixes n :: "'n::len word"
  assumes "8 \<le> LENGTH('n)" and "LENGTH('n) \<le> 64" and "r + length (varint_bytes n) \<le> 10"
    and "cp_R rinv sl cl c s" and "pending (cp_trans s) = varint_bytes n @ rest"
  shows "\<exists>s'. varint_slow T r val sh s = (Inr (r + length (varint_bytes n), val OR push_bit sh (ucast n)), s') \<and>
    cp_R rinv sl cl c s' \<and> pending (cp_trans s') = rest"
  using assms(3-5)
proof (induction n arbitrary: r val sh s rule: varint_bytes.induct)
  case (1 n)
  have step: "\<exists>t. cp_readByte T s = (Inr (1, b), t) \<and> cp_R rinv sl cl c t \<and> pending (cp_trans t) = bs"
    if "pending (cp_trans s) = b # bs" for b bs
    using cp_takes_byte [of sl cl c b] 1(3) that unfolding codec_base.takes_def by fastforce
  show ?case
  proof (cases "n AND NOT 0x7F = 0")
    case True
    then have "varint_bytes n = [ucast n]" by (subst varint_bytes.simps) simp
    with step [of "ucast n" rest] 1(4) last_byte [OF True assms(1,2)] show ?thesis
      by (subst varint_slow.simps) (auto simp: bindT_def ret_def)
  next
    case False
    let ?b = "ucast ((n AND 0x7F) OR 0x80) :: u8"
    have v: "varint_bytes n = ?b # varint_bytes (drop_bit 7 n)"
      using False by (subst varint_bytes.simps) (simp only: if_False)
    have pos: "varint_bytes m \<noteq> []" for m :: "'n word" by (subst varint_bytes.simps) simp
    have len: "r + 1 + length (varint_bytes (drop_bit 7 n)) \<le> 10" using 1(2) unfolding v by simp
    moreover have "0 < length (varint_bytes (drop_bit 7 n))" using pos by simp
    ultimately have r: "\<not> 10 \<le> r + 1" by linarith
    obtain t where t: "cp_readByte T s = (Inr (1, ?b), t)" "cp_R rinv sl cl c t"
        "pending (cp_trans t) = varint_bytes (drop_bit 7 n) @ rest"
      using step 1(4) unfolding v by (metis append_Cons)
    note more = more_byte [OF assms(1,2), where n = n]
    have "varint_slow T r val sh s = varint_slow T (r + 1) (varint_step val sh ?b) (sh + 7) t"
      by (subst varint_slow.simps) (simp only: bindT_def t(1) sum.case prod.case more(1) r if_False)
    with 1(1) [OF False len t(2,3), of "varint_step val sh ?b" "sh + 7"] more(2) [of val sh] show ?thesis
      unfolding v by (simp only:) (simp add: add.commute)
  qed
qed

lemma cp_varint_takes:
  fixes n :: "'n::len word"
  assumes "8 \<le> LENGTH('n)" and "LENGTH('n) \<le> 64" and "length (varint_bytes n) \<le> 10"
  shows "cp_takes sl cl c (cp_readVarint64 T) (varint_bytes n) (ucast n) c"
  unfolding codec_base.takes_def
proof (intro allI impI)
  fix s rest
  assume s: "cp_R rinv sl cl c s" and p: "pending (cp_trans s) = varint_bytes n @ rest"
  let ?n = "length (varint_bytes n)"
  have u: "rinv (cp_trans s)" using s by (simp add: cp_R_def)
  from src.borrow_ok [OF u, of 10] obtain r u where b: "t_borrow T 10 (cp_trans s) = (Inr r, u)"
      "rinv u" "pending u = pending (cp_trans s)"
      "\<forall>bs'. r = Some bs' \<longrightarrow> 10 \<le> length bs' \<and> take (length bs') (pending (cp_trans s)) = bs' \<and>
          (\<forall>m \<le> length bs'. \<exists>s''. t_consume T m u = (Inr (), s'') \<and> rinv s'' \<and>
             pending s'' = drop m (pending (cp_trans s)))" by blast
  show "\<exists>s'. cp_readVarint64 T s = (Inr (u32 ?n, ucast n), s') \<and> cp_R rinv sl cl c s' \<and>
      pending (cp_trans s') = rest"
  proof (cases r)
    case None
    have "cp_R rinv sl cl c (s\<lparr>cp_trans := u\<rparr>)" "pending (cp_trans (s\<lparr>cp_trans := u\<rparr>)) = varint_bytes n @ rest"
      using s b p by (simp_all add: cp_R_def)
    from cp_slow_takes [OF assms(1,2) _ this, of 0 0 0] assms(3) None b(1) show ?thesis
      by (auto simp: cp_readVarint64_def tio_simps)
  next
    case (Some bs)
    with b(4) have bs: "10 \<le> length bs" "take (length bs) (pending (cp_trans s)) = bs" by auto
    have "take ?n bs = varint_bytes n"
      using bs p assms(3) by (metis append_eq_conv_conj le_trans min.absorb1 take_take)
    then have split: "bs = varint_bytes n @ drop ?n bs" by (metis append_take_drop_id)
    have f: "varint_borrowed bs 0 0 0 = Inr (?n, ucast n)"
      using varint_borrowed_ok [OF assms(1,2), of 0 n "drop ?n bs" 0 0] assms(3) split by simp
    have "?n \<le> length bs" using bs(1) assms(3) by simp
    with b(4) Some obtain v where "t_consume T ?n u = (Inr (), v)" "rinv v"
        "pending v = drop ?n (pending (cp_trans s))" by blast
    then have "t_consume T ?n u = (Inr (), v)" "rinv v" "pending v = rest" using p by simp_all
    with f s b(1) Some assms(3) show ?thesis
      by (auto simp: cp_readVarint64_def tio_simps countC_def cp_R_def)
  qed
qed

lemma cp_varint64: "cp_transfers sl cl 10 c (cp_writeVarint64 T n) (cp_readVarint64 T) n c"
  using cp_varint_takes [of n sl cl c] length_varint_64 [of n] cp_emits_write [of "varint_bytes n" c]
  by (intro cp_transfersI [of c _ "varint_bytes n"]) (simp_all add: cp_writeVarint64_def)

lemma cp_varint32_takes: "cp_takes sl cl c (cp_readVarint32 T) (varint_bytes n) n c"
proof -
  have "ucast (ucast n :: i64) = n" by (rule bit_word_eqI) (simp add: bit_unsigned_iff)
  then show ?thesis
    using cp_takes_map [OF cp_varint_takes [of n sl cl c], of "ucast :: i64 \<Rightarrow> i32"] length_varint_32 [of n]
    by (simp only: cp_readVarint32_def) simp
qed

lemma cp_varint32_emits: "cp_emits c (cp_writeVarint32 T n) (varint_bytes n) () c"
  using length_varint_32 [of n] cp_emits_write [of "varint_bytes n" c] by (simp add: cp_writeVarint32_def)


lemma cp_map_varint32:
  "cp_transfers sl cl 5 c (cp_writeVarint32 T n) (bindC (cp_readVarint32 T) (\<lambda>v. retC (g v))) (g n) c"
  by (rule cp_transfersI [OF cp_varint32_emits cp_takes_map [OF cp_varint32_takes] length_varint_32])

lemma cp_transfers_le: "cp_transfers sl cl j c m m' x c' \<Longrightarrow> j \<le> k \<Longrightarrow> cp_transfers sl cl k c m m' x c'"
  by (rule codec_base.transfers_le)

lemma cp_i16_takes: "cp_takes sl cl c (cp_readI16 T) (varint_bytes (i32ToZigzag (scast w))) w c"
proof -
  have "ucast (scast w :: i32) = w"
  proof (rule bit_word_eqI)
    fix i
    assume "i < LENGTH(16)"
    then show "bit (ucast (scast w :: i32) :: i16) i = bit w i"
      by (cases "i = 15") (auto simp: bit_unsigned_iff bit_signed_iff min_def)
  qed
  then show ?thesis
    using cp_takes_map [OF cp_varint32_takes, of sl cl c "\<lambda>v. ucast (zigzagToI32 v) :: i16" "i32ToZigzag (scast w)"]
    by (simp add: cp_readI16_def)
qed

lemma cp_i16: "cp_transfers sl cl 5 c (cp_writeI16 T w) (cp_readI16 T) w c"
  unfolding cp_writeI16_def by (rule cp_transfersI [OF cp_varint32_emits cp_i16_takes length_varint_32])

lemma cp_i32: "cp_transfers sl cl 5 c (cp_writeI32 T w) (cp_readI32 T) w c"
  using cp_map_varint32 [of sl cl c "i32ToZigzag w" zigzagToI32]
  by (simp add: cp_writeI32_def cp_readI32_def)

lemma cp_i64: "cp_transfers sl cl 10 c (cp_writeI64 T w) (cp_readI64 T) w c"
  using codec_base.transfers_map [OF cp_varint64 [of sl cl c "i64ToZigzag w"], of zigzagToI64]
  by (simp add: cp_writeI64_def cp_readI64_def)

lemma cp_byte: "cp_transfers sl cl 1 c (cp_writeByte T w) (cp_readByte T) w c"
  by (rule cp_transfersI [OF cp_emits_byte cp_takes_byte]) simp

lemma cp_double: "cp_transfers sl cl 8 c (cp_writeDouble T w) (cp_readDouble T) w c"
proof -
  have "of_nat (le_nat (le_bytes 8 (unat w))) = w" by simp
  then show ?thesis
    using cp_emits_write [of "le_bytes 8 (unat w)" c]
      cp_takes_readAll [of "le_bytes 8 (unat w)" 8 sl cl c "\<lambda>bs. of_nat (le_nat bs) :: i64"]
    unfolding cp_writeDouble_def cp_readDouble_def
    by (intro cp_transfersI [of c _ "le_bytes 8 (unat w)"]) (simp_all del: le_nat_le_bytes)
qed

lemma cp_bool:
  assumes "cp_clean c"
  shows "cp_transfers sl cl 1 c (cp_writeBool T b) (cp_readBool T) b c"
proof (rule cp_transfersI)
  let ?w = "ctype_code (if b then CT_BOOLEAN_TRUE else CT_BOOLEAN_FALSE)"
  show "cp_emits c (cp_writeBool T b) [?w] () c"
    using cp_emits_byte [of c ?w] assms unfolding codec_base.emits_def
    by (auto simp: cp_writeBool_def cp_W_def cp_clean_def)
  have "cp_takes sl cl c (bindC (cp_readByte T) (\<lambda>val. retC (val = ctype_code CT_BOOLEAN_TRUE))) [?w] b c"
    using cp_takes_map [OF cp_takes_byte, of sl cl c "\<lambda>val. val = ctype_code CT_BOOLEAN_TRUE" ?w] by (cases b) simp_all
  then show "cp_takes sl cl c (cp_readBool T) [?w] b c"
    using assms unfolding codec_base.takes_def by (auto simp: cp_readBool_def cp_R_def cp_clean_def)
qed simp

section \<open>Strings\<close>

lemma cp_string_body:
  assumes "str_within sl (length bs)" and "bs \<noteq> []" and s: "cp_R rinv sl cl c s" "pending (cp_trans s) = bs @ rest"
  shows "\<exists>s'. bindT (modify (c_string_buf_grow (int (length bs)))) (\<lambda>_.
      bindT (cp_call (t_readAll T (length bs))) (\<lambda>bs'.
      bindT (store c_string_mem (\<lambda>f s. s\<lparr>c_string_buf := map_option f (c_string_buf s)\<rparr>) 0 bs') (\<lambda>_.
      countC (length bs) (load c_string_mem 0 (length bs))))) s = (Inr (length bs, bs), s') \<and>
    cp_R rinv sl cl c s' \<and> pending (cp_trans s') = rest"
proof -
  let ?n = "length bs"
  have S: "rinv (cp_trans s)" "c_string_buf_ok s" using s by (simp_all add: cp_R_def)
  from read_whole [OF S(1) s(2)] obtain v where v: "t_readAll T ?n (cp_trans s) = (Inr bs, v)" "rinv v"
      "pending v = rest" by blast
  note grow = c_string_buf_grow_ok [OF S(2)]
  obtain t m where t: "c_string_buf_grow (int ?n) s = t" "c_string_buf t = Some m" "?n \<le> length m"
      "int (length m) = c_string_buf_size t"
    using grow(1) [of ?n] by blast
  note same = grow(2-) [of "int ?n", unfolded t(1)]
  define t' where "t' = t\<lparr>cp_trans := v, c_string_buf := Some (splice 0 bs m)\<rparr>"
  have "cp_R rinv sl cl c t'" "pending (cp_trans t') = rest"
    using t v s same by (simp_all add: t'_def c_string_buf_ok_def cp_R_def)
  moreover have "take ?n (splice 0 bs m) = bs" by (simp add: splice_def)
  ultimately show ?thesis using v(1) t same
    by (intro exI [of _ t']) (simp add: tio_simps countC_def t'_def c_string_mem_def)
qed

lemma cp_binary:
  assumes "str_within sl (length str)"
  shows "cp_transfers sl cl (5 + length str) c (cp_writeBinary T str) (cp_readBinary T) str c"
proof (rule cp_transfersI)
  have n: "length str < 2 ^ 31" and lim: "0 < sl \<longrightarrow> int (length str) \<le> sl"
    using assms by (simp_all add: str_within_def)
  then have u: "u32 (length str) = length str" by simp
  let ?w = "of_nat (length str) :: i32"
  show "cp_emits c (cp_writeBinary T str) (varint_bytes ?w @ str) () c"
    unfolding cp_writeBinary_def Let_def u take_all [OF order_refl]
    using n by (intro cp_emits_bind [OF cp_varint32_emits] cp_emits_write) simp
  show "cp_takes sl cl c (cp_readBinary T) (varint_bytes ?w @ str) str c"
    unfolding cp_readBinary_def
  proof (rule cp_takes_bind [OF cp_varint32_takes], unfold Let_def sint_of_nat_31 [OF n] codec_base.takes_def, intro allI impI)
    fix s rest
    assume s: "cp_R rinv sl cl c s" "pending (cp_trans s) = str @ rest"
    then have "c_string_limit s = sl" by (simp add: cp_R_def)
    then show "\<exists>s'. (if int (length str) = 0 then retC []
        else if int (length str) < 0 then throw (TProtocolException PE_NEGATIVE_SIZE)
        else if c_string_limit s > 0 \<and> int (length str) > c_string_limit s
        then throw (TProtocolException PE_SIZE_LIMIT)
        else
          bindT (modify (c_string_buf_grow (int (length str)))) (\<lambda>_.
          bindT (cp_call (t_readAll T (nat (int (length str))))) (\<lambda>bs.
          bindT (store c_string_mem (\<lambda>f s. s\<lparr>c_string_buf := map_option f (c_string_buf s)\<rparr>) 0 bs) (\<lambda>_.
          countC (nat (int (length str))) (load c_string_mem 0 (nat (int (length str)))))))) s =
        (Inr (u32 (length str), str), s') \<and> cp_R rinv sl cl c s' \<and> pending (cp_trans s') = rest"
      using cp_string_body [OF assms _ s] s lim n by (cases "str = []") (auto simp: retC_def ret_def)
  qed
  show "length (varint_bytes ?w @ str) \<le> 5 + length str" using length_varint_32 [of ?w] by simp
qed


section \<open>Fields and containers\<close>

text \<open>The header of a field with the type \<open>ct\<close>, after a field with id \<open>l\<close>.\<close>

definition field_header :: "i16 \<Rightarrow> u8 \<Rightarrow> i16 \<Rightarrow> bytes" where
  "field_header l ct i =
     (if sint l < sint i \<and> sint i - sint l \<le> 15 then [push_bit 4 (of_int (sint i - sint l)) OR ct]
      else ct # varint_bytes (i32ToZigzag (scast i)))"

lemma length_field_header: "length (field_header l ct i) \<le> 6"
  using length_varint_32 [of "i32ToZigzag (scast i)"] by (simp add: field_header_def)

lemma cp_modifyC_emits:
  assumes "\<And>s. cp_W winv c s \<Longrightarrow> cp_W winv c' (f s) \<and> cp_trans (f s) = cp_trans s"
  shows "cp_emits c (modifyC f) [] () c'"
  using assms unfolding codec_base.emits_def by (auto simp: modifyC_def countC_def tio_simps)

lemma cp_modifyC_takes:
  assumes "\<And>s. cp_R rinv sl cl c s \<Longrightarrow> cp_R rinv sl cl c' (f s) \<and> cp_trans (f s) = cp_trans s"
  shows "cp_takes sl cl c (modifyC f) [] () c'"
  using assms unfolding codec_base.takes_def by (auto simp: modifyC_def countC_def tio_simps)

lemma cp_header_emits:
  assumes "(case ov of None \<Rightarrow> getCompactType (ttype_code t) | Some ct \<Rightarrow> Inr ct) = Inr ct"
  shows "cp_emits (l, st, None, p) (cp_writeFieldBeginInternal T nm t i ov) (field_header l ct i) () (i, st, None, p)"
  unfolding cp_writeFieldBeginInternal_def
proof (rule cp_emits_0bind [OF cp_resultC(2) [OF assms]], rule cp_emits_bind0)
  let ?m = "if sint l < sint i \<and> sint i - sint l \<le> 15
      then cp_writeByte T (push_bit 4 (of_int (sint i - sint l)) OR ct)
      else bindC (cp_writeByte T ct) (\<lambda>_. cp_writeI16 T i)"
  have far: "cp_emits c (bindC (cp_writeByte T ct) (\<lambda>_. cp_writeI16 T i))
      ([ct] @ varint_bytes (i32ToZigzag (scast i))) () c" for c
    by (rule cp_emits_bind [OF cp_emits_byte]) (simp add: cp_writeI16_def cp_varint32_emits)
  have "cp_emits (l, st, None, p) ?m (field_header l ct i) () (l, st, None, p)"
    using far cp_emits_byte by (simp add: field_header_def)
  then show "cp_emits (l, st, None, p) (\<lambda>s.
       (if sint (lastFieldId s) < sint i \<and> sint i - sint (lastFieldId s) \<le> 15
        then cp_writeByte T (push_bit 4 (of_int (sint i - sint (lastFieldId s))) OR ct)
        else bindC (cp_writeByte T ct) (\<lambda>_. cp_writeI16 T i)) s) (field_header l ct i) () (l, st, None, p)"
    unfolding codec_base.emits_def by (auto simp: cp_W_def)
  show "cp_emits (l, st, None, p) (modifyC (\<lambda>s. s\<lparr>lastFieldId := i\<rparr>)) [] () (i, st, None, p)"
    by (rule cp_modifyC_emits) (simp add: cp_W_def)
qed

text \<open>The part of \<^verbatim>\<open>readFieldBegin\<close> after the id.\<close>

definition field_rest :: "u8 \<Rightarrow> i16 \<Rightarrow> ('s compact, bytes \<times> ttype \<times> i16) pio" where
  "field_rest ct i =
     bindC (resultC (getTType ct)) (\<lambda>fieldType.
     bindC (modifyC (\<lambda>s.
       if ct = ctype_code CT_BOOLEAN_TRUE \<or> ct = ctype_code CT_BOOLEAN_FALSE
       then s\<lparr>boolValue := Some (ct = ctype_code CT_BOOLEAN_TRUE)\<rparr> else s)) (\<lambda>_.
     bindC (modifyC (\<lambda>s. s\<lparr>lastFieldId := i\<rparr>)) (\<lambda>_. retC ([], fieldType, i))))"

definition bool_of :: "u8 \<Rightarrow> bool option" where
  "bool_of ct = (if ct = ctype_code CT_BOOLEAN_TRUE then Some True
     else if ct = ctype_code CT_BOOLEAN_FALSE then Some False else None)"

lemma cp_field_rest:
  assumes "getTType ct = Inr t"
  shows "cp_takes sl cl (l, st, None, None) (field_rest ct i) [] ([], t, i) (i, st, bool_of ct, None)"
  unfolding field_rest_def
proof (rule cp_takes_0bind [OF cp_resultC(1) [OF assms]], rule cp_takes_0bind, rule cp_modifyC_takes)
  show "cp_takes sl cl (l, st, bool_of ct, None) (bindC (modifyC (\<lambda>s. s\<lparr>lastFieldId := i\<rparr>)) (\<lambda>_. retC ([], t, i)))
      [] ([], t, i) (i, st, bool_of ct, None)"
    by (rule cp_takes_map, rule cp_modifyC_takes) (simp add: cp_R_def c_string_buf_ok_def)
qed (auto simp: cp_R_def c_string_buf_ok_def bool_of_def)

lemma cp_header_takes:
  assumes ct: "0 < unat ct" "unat ct < 13" and t: "getTType ct = Inr t"
  shows "cp_takes sl cl (l, st, None, None) (cp_readFieldBegin T) (field_header l ct i) ([], t, i) (i, st, bool_of ct, None)"
proof -
  have nz: "ct \<noteq> ttype_code T_STOP" and lo: "unat ct < 16" using ct by auto
  note rest = cp_field_rest [OF t, of sl cl l st i]
  show ?thesis
  proof (cases "sint l < sint i \<and> sint i - sint l \<le> 15")
    case True
    define d where "d = nat (sint i - sint l)"
    have d: "0 < d" "d < 16" "sint i - sint l = int d" using True by (auto simp: d_def)
    have hi: "unat (of_nat d :: u8) < 16" "(of_nat d :: u8) \<noteq> 0"
      using d by (auto simp add: unat_of_nat word_of_nat_eq_0_iff dest: dvd_imp_le)
    let ?b = "push_bit 4 (of_nat d) OR ct :: u8"
    have m: "ucast (of_nat d :: u8) = (of_nat d :: i16)" using d by (simp add: unsigned_of_nat take_bit_nat_eq_self)
    have mz: "(of_nat d :: i16) \<noteq> 0" using d by (auto simp: word_of_nat_eq_0_iff dest: dvd_imp_le)
    have i: "l + of_nat d = i"
    proof -
      have "l + of_nat d = of_int (sint l + int d)" by simp
      also have "\<dots> = of_int (sint i)" using d(3) by (simp add: algebra_simps)
      finally show ?thesis by simp
    qed
    have "cp_takes sl cl (l, st, None, None) (countC 0 (gets (\<lambda>s. lastFieldId s + of_nat d))) [] i (l, st, None, None)"
      unfolding codec_base.takes_def by (auto simp: countC_def tio_simps cp_R_def i [symmetric])
    from cp_takes_0bind [where f = "field_rest ct", OF this rest]
    have r: "cp_takes sl cl (l, st, None, None) (bindC (countC 0 (gets (\<lambda>s. lastFieldId s + of_nat d))) (field_rest ct)) []
        ([], t, i) (i, st, bool_of ct, None)" .
    have "cp_takes sl cl (l, st, None, None) (cp_readFieldBegin T) [?b] ([], t, i) (i, st, bool_of ct, None)"
      unfolding cp_readFieldBegin_def
      by (rule cp_takes_bind0 [OF cp_takes_byte])
        (simp only: Let_def nibbles(1,3) [OF hi(1) lo] m mz nz if_False field_rest_def [symmetric] r)
    with True d(3) show ?thesis by (simp add: field_header_def)
  next
    case False
    have zero: "unat (0 :: u8) < 16" by simp
    from cp_takes_bind0 [where f = "field_rest ct", OF cp_i16_takes rest]
    have r: "cp_takes sl cl (l, st, None, None) (bindC (cp_readI16 T) (field_rest ct)) (varint_bytes (i32ToZigzag (scast i)))
        ([], t, i) (i, st, bool_of ct, None)" .
    have "cp_takes sl cl (l, st, None, None) (cp_readFieldBegin T) ([ct] @ varint_bytes (i32ToZigzag (scast i)))
        ([], t, i) (i, st, bool_of ct, None)"
      unfolding cp_readFieldBegin_def
      by (rule cp_takes_bind [OF cp_takes_byte])
        (simp only: Let_def nibbles(5,6) [OF zero lo] unsigned_0 nz if_False if_True refl field_rest_def [symmetric] r)
    then show ?thesis by (simp only: field_header_def False if_False append_Cons append_Nil)
  qed
qed


lemma cp_field:
  assumes "data_type t" and "t \<noteq> T_BOOL" and "cp_clean c"
  shows "cp_transfers sl cl 6 c (cp_writeFieldBegin T nm t i) (cp_readFieldBegin T) ([], t, i) (cp_fld c t i)"
proof -
  obtain l st where c: "c = (l, st, None, None)" using assms(3) by (cases c) (simp add: cp_clean_def)
  obtain ct where ct: "getCompactType (ttype_code t) = Inr ct" "0 < unat ct" "unat ct < 13" "getTType ct = Inr t"
      "ct \<noteq> ctype_code CT_BOOLEAN_FALSE" "ct \<noteq> ctype_code CT_BOOLEAN_TRUE"
    using getCompactType_data [OF assms(1)] assms(2) by metis
  have "cp_emits c (cp_writeFieldBegin T nm t i) (field_header l ct i) () (i, st, None, None)"
    unfolding c using assms(2) ct(1) by (simp add: cp_writeFieldBegin_def cp_header_emits)
  moreover have "cp_takes sl cl c (cp_readFieldBegin T) (field_header l ct i) ([], t, i) (i, st, None, None)"
    using cp_header_takes [OF ct(2-4), of sl cl l st i] ct(5,6) unfolding c bool_of_def by simp
  ultimately show ?thesis
    unfolding cp_fld_def c snd_conv by (rule cp_transfersI) (rule length_field_header)
qed

lemma cp_writeBool_pending:
  "cp_emits (l, st, None, Some (nm, T_BOOL, i)) (cp_writeBool T b)
     (field_header l (ctype_code (if b then CT_BOOLEAN_TRUE else CT_BOOLEAN_FALSE)) i) () (i, st, None, None)"
proof -
  let ?ct = "ctype_code (if b then CT_BOOLEAN_TRUE else CT_BOOLEAN_FALSE)" and ?p = "Some (nm, T_BOOL, i)"
  have "cp_emits (l, st, None, ?p) (bindC (cp_writeFieldBeginInternal T nm T_BOOL i (Some ?ct)) (\<lambda>_.
          modifyC (\<lambda>s. s\<lparr>booleanField := None\<rparr>))) (field_header l ?ct i) () (i, st, None, None)"
    by (rule cp_emits_bind0, rule cp_header_emits, simp, rule cp_modifyC_emits) (simp add: cp_W_def)
  then show ?thesis unfolding codec_base.emits_def by (auto simp: cp_writeBool_def cp_W_def Let_def split: option.splits)
qed

lemma cp_bool_field:
  assumes "cp_clean c"
  shows "\<exists>m e bs cs. cp_emits c (bindC (cp_writeFieldBegin T nm T_BOOL i) (\<lambda>_. cp_writeBool T b))
      (bs @ cs) () (cp_fld c T_BOOL i) \<and> length (bs @ cs) \<le> 2 * 10 \<and>
    cp_takes sl cl c (cp_readFieldBegin T) bs (m, T_BOOL, i) e \<and>
    cp_takes sl cl e (cp_readBool T) cs b (cp_fld c T_BOOL i)"
proof -
  obtain l st where c: "c = (l, st, None, None)" using assms by (cases c) (simp add: cp_clean_def)
  define ct where "ct = ctype_code (if b then CT_BOOLEAN_TRUE else CT_BOOLEAN_FALSE)"
  have ct: "0 < unat ct" "unat ct < 13" "getTType ct = Inr T_BOOL" "bool_of ct = Some b"
    by (cases b; simp add: ct_def getTType_def bool_of_def)+
  have "cp_emits c (cp_writeFieldBegin T nm T_BOOL i) [] () (l, st, None, Some (nm, T_BOOL, i))"
    unfolding c cp_writeFieldBegin_def by (simp, rule cp_modifyC_emits) (simp add: cp_W_def)
  then have "cp_emits c (bindC (cp_writeFieldBegin T nm T_BOOL i) (\<lambda>_. cp_writeBool T b)) (field_header l ct i) ()
      (i, st, None, None)"
    unfolding ct_def by (rule cp_emits_0bind) (rule cp_writeBool_pending)
  moreover have "cp_takes sl cl c (cp_readFieldBegin T) (field_header l ct i) ([], T_BOOL, i) (i, st, Some b, None)"
    using cp_header_takes [OF ct(1-3), of sl cl l st i] unfolding c ct(4) .
  moreover have "cp_takes sl cl (i, st, Some b, None) (cp_readBool T) [] b (i, st, None, None)"
    unfolding codec_base.takes_def
    by (auto simp: cp_readBool_def cp_R_def bindC_def modifyC_def countC_def tio_simps c_string_buf_ok_def
        split: option.splits)
  ultimately show ?thesis
    unfolding cp_fld_def c using length_field_header [of l ct i]
    by (intro exI [of _ "[]"] exI [of _ "(i, st, Some b, None)"] exI [of _ "field_header l ct i"] exI [of _ "[] :: bytes"]) simp
qed

lemma cp_stop: "cp_transfers sl cl 1 c (cp_writeFieldStop T) (cp_readFieldBegin T) ([], T_STOP, 0) c"
proof (rule cp_transfersI)
  show "cp_emits c (cp_writeFieldStop T) [ttype_code T_STOP] () c"
    unfolding cp_writeFieldStop_def by (rule cp_emits_byte)
  show "cp_takes sl cl c (cp_readFieldBegin T) [ttype_code T_STOP] ([], T_STOP, 0) c"
    unfolding cp_readFieldBegin_def by (rule cp_takes_bind0 [OF cp_takes_byte]) (simp add: cp_takes_retC)
qed simp

lemma cp_size:
  assumes "con_within cl n"
  shows "cp_takes sl cl c (cp_checkSize (sint (of_nat n :: i32))) [] n c"
  using assms sint_of_nat_31 [of n] unfolding codec_base.takes_def con_within_def
  by (auto simp: cp_checkSize_def tio_simps cp_R_def)

lemma cp_size_rest:
  assumes "con_within cl n" and "getTType ct = Inr t"
  shows "cp_takes sl cl c (bindC (cp_checkSize (sint (of_nat n :: i32))) (\<lambda>sz.
     bindC (resultC (getTType ct)) (\<lambda>elemType. retC (elemType, sz)))) [] (t, n) c"
  by (rule cp_takes_0bind [OF cp_size [OF assms(1)]], rule cp_takes_map, rule cp_resultC(1) [OF assms(2)])

lemma cp_collection:
  assumes n: "con_within cl n" and t: "data_type t"
  shows "cp_transfers sl cl 6 c (cp_writeListBegin T t n) (cp_readListBegin T) (t, n) c"
proof -
  obtain ct where ct: "getCompactType (ttype_code t) = Inr ct" "unat ct < 13" "getTType ct = Inr t"
    using getCompactType_data [OF t] by metis
  then have lo: "unat ct < 16" by simp
  let ?w = "of_nat n :: i32"
  have w: "sint ?w = int n" using n by (simp add: con_within_def sint_of_nat_31)
  show ?thesis
  proof (cases "n \<le> 14")
    case True
    have hi: "unat (of_nat n :: u8) < 16" using True by (simp add: unat_of_nat)
    have u: "ucast ?w = (of_nat n :: u8)" using True by (simp add: unsigned_of_nat take_bit_nat_eq_self)
    have not_15: "(of_nat n :: u8) \<noteq> 15"
    proof
      assume "(of_nat n :: u8) = 15"
      then have "unat (of_nat n :: u8) = unat (15 :: u8)" by (rule arg_cong)
      with True show False by (simp add: unat_of_nat)
    qed
    have wide: "ucast (of_nat n :: u8) = ?w" using True by (simp add: unsigned_of_nat take_bit_nat_eq_self)
    let ?b = "push_bit 4 (of_nat n) OR ct :: u8"
    have "cp_emits c (cp_writeListBegin T t n) [?b] () c"
      unfolding cp_writeListBegin_def cp_writeCollectionBegin_def
      by (rule cp_emits_0bind [OF cp_resultC(2) [OF ct(1)]]) (use True w u cp_emits_byte in simp)
    moreover have "cp_takes sl cl c (cp_readListBegin T) [?b] (t, n) c"
      unfolding cp_readListBegin_def
    proof (rule cp_takes_bind0 [OF cp_takes_byte], unfold nibbles(1,4) [OF hi lo], rule cp_takes_0bind)
      show "cp_takes sl cl c (if (of_nat n :: u8) = 15 then cp_readVarint32 T else retC (ucast (of_nat n :: u8))) [] ?w c"
        using not_15 wide cp_takes_retC by simp
      show "cp_takes sl cl c (bindC (cp_checkSize (sint ?w)) (\<lambda>sz.
          bindC (resultC (getTType ct)) (\<lambda>elemType. retC (elemType, sz)))) [] (t, n) c"
        by (rule cp_size_rest [OF n ct(3)])
    qed
    ultimately show ?thesis by (rule cp_transfersI) simp
  next
    case False
    let ?b = "0xf0 OR ct :: u8"
    have hi: "unat (15 :: u8) < 16" by simp
    have "cp_emits c (cp_writeListBegin T t n) ([?b] @ varint_bytes ?w) () c"
      unfolding cp_writeListBegin_def cp_writeCollectionBegin_def
    proof (rule cp_emits_0bind [OF cp_resultC(2) [OF ct(1)]])
      have "cp_emits c (bindC (cp_writeByte T (0xf0 OR ct)) (\<lambda>_. cp_writeVarint32 T ?w)) ([?b] @ varint_bytes ?w) () c"
        by (rule cp_emits_bind [OF cp_emits_byte cp_varint32_emits])
      then show "cp_emits c (if sint ?w \<le> 14 then cp_writeByte T (push_bit 4 (ucast ?w) OR ct)
          else bindC (cp_writeByte T (0xf0 OR ct)) (\<lambda>_. cp_writeVarint32 T ?w)) ([?b] @ varint_bytes ?w) () c"
        using False w by simp
    qed
    moreover have "cp_takes sl cl c (cp_readListBegin T) ([?b] @ varint_bytes ?w) (t, n) c"
      unfolding cp_readListBegin_def
      by (rule cp_takes_bind [OF cp_takes_byte], unfold nibbles(7) [OF hi lo] nibbles(1,4) [OF hi lo] if_P [OF refl])
        (rule cp_takes_bind0 [OF cp_varint32_takes], rule cp_size_rest [OF n ct(3)])
    ultimately show ?thesis by (rule cp_transfersI) (use length_varint_32 [of ?w] in simp)
  qed
qed


lemma cp_map:
  assumes n: "con_within cl n" and t: "data_type kt" "data_type vt"
  shows "\<exists>kt' vt'. cp_transfers sl cl 6 c (cp_writeMapBegin T kt vt n) (cp_readMapBegin T) (kt', vt', n) c \<and>
    (0 < n \<longrightarrow> kt' = kt \<and> vt' = vt)"
proof -
  let ?w = "of_nat n :: i32"
  have rest: "cp_takes sl cl c (bindC (cp_checkSize (sint ?w)) (\<lambda>sz.
      bindC (resultC (getTType k)) (\<lambda>keyType. bindC (resultC (getTType v)) (\<lambda>valType.
      retC (keyType, valType, sz))))) [] (kt', vt', n) c"
    if "getTType k = Inr kt'" and "getTType v = Inr vt'" for k v kt' vt'
    by (rule cp_takes_0bind [OF cp_size [OF n]], rule cp_takes_0bind [OF cp_resultC(1) [OF that(1)]],
        rule cp_takes_map, rule cp_resultC(1) [OF that(2)])
  show ?thesis
  proof (cases "n = 0")
    case True
    have v: "varint_bytes (0 :: i32) = [0]" by (subst varint_bytes.simps) simp
    have t0: "getTType 0 = Inr T_STOP" by (simp add: getTType_def)
    have "cp_takes sl cl c (cp_readMapBegin T) [0] (T_STOP, T_STOP, n) c"
      unfolding cp_readMapBegin_def
    proof (rule cp_takes_bind0)
      show "cp_takes sl cl c (cp_readVarint32 T) [0] 0 c"
        using cp_varint32_takes [of sl cl c 0] unfolding v .
      show "cp_takes sl cl c (bindC (if (0 :: i32) \<noteq> 0 then cp_readByte T else retC 0) (\<lambda>kvType.
          bindC (cp_checkSize (sint (0 :: i32))) (\<lambda>sz. bindC (resultC (getTType (drop_bit 4 kvType))) (\<lambda>keyType.
          bindC (resultC (getTType (kvType AND 0xf))) (\<lambda>valType. retC (keyType, valType, sz))))))
        [] (T_STOP, T_STOP, n) c"
        by (rule cp_takes_0bind [of sl cl c _ 0 c], simp add: cp_takes_retC) (use rest [of 0 T_STOP 0 T_STOP] t0 True in simp)
    qed
    then have "cp_transfers sl cl 6 c (cp_writeMapBegin T kt vt n) (cp_readMapBegin T) (T_STOP, T_STOP, n) c"
      using True cp_emits_byte [of c 0] by (intro cp_transfersI [of c _ "[0]"]) (simp_all add: cp_writeMapBegin_def)
    with True show ?thesis by blast
  next
    case False
    obtain k v where k: "getCompactType (ttype_code kt) = Inr k" "unat k < 13" "getTType k = Inr kt"
        and v: "getCompactType (ttype_code vt) = Inr v" "unat v < 13" "getTType v = Inr vt"
      using getCompactType_data [OF t(1)] getCompactType_data [OF t(2)] by metis
    let ?b = "push_bit 4 k OR v"
    have kv: "unat k < 16" "unat v < 16" using k(2) v(2) by simp_all
    have w: "?w \<noteq> 0"
    proof
      assume "?w = 0"
      moreover have "sint ?w = int n" using n by (simp add: con_within_def sint_of_nat_31)
      ultimately show False using False by simp
    qed
    have "cp_emits c (cp_writeMapBegin T kt vt n) (varint_bytes ?w @ [?b]) () c"
      unfolding cp_writeMapBegin_def if_not_P [OF False]
      by (rule cp_emits_bind [OF cp_varint32_emits], rule cp_emits_0bind [OF cp_resultC(2) [OF k(1)]],
          rule cp_emits_0bind [OF cp_resultC(2) [OF v(1)]], rule cp_emits_byte)
    moreover have "cp_takes sl cl c (cp_readMapBegin T) (varint_bytes ?w @ [?b]) (kt, vt, n) c"
      unfolding cp_readMapBegin_def
    proof (rule cp_takes_bind [OF cp_varint32_takes], unfold if_P [OF w], rule cp_takes_bind0 [OF cp_takes_byte])
      show "cp_takes sl cl c (bindC (cp_checkSize (sint ?w)) (\<lambda>sz. bindC (resultC (getTType (drop_bit 4 ?b))) (\<lambda>keyType.
          bindC (resultC (getTType (?b AND 0xf))) (\<lambda>valType. retC (keyType, valType, sz))))) [] (kt, vt, n) c"
        unfolding nibbles(1,2) [OF kv] by (rule rest [OF k(3) v(3)])
    qed
    ultimately have "cp_transfers sl cl 6 c (cp_writeMapBegin T kt vt n) (cp_readMapBegin T) (kt, vt, n) c"
      by (rule cp_transfersI) (use length_varint_32 [of ?w] in simp)
    then show ?thesis by blast
  qed
qed

lemma cp_struct_begin: "cp_clean c \<Longrightarrow> cp_transfers sl cl 0 c (cp_writeStructBegin nm) cp_readStructBegin [] (cp_push c)"
  unfolding cp_writeStructBegin_def cp_readStructBegin_def
  by (rule cp_transfersI, rule cp_modifyC_emits, simp add: cp_W_def cp_push_def cp_clean_def,
      rule cp_takes_map, rule cp_modifyC_takes)
    (simp_all add: cp_R_def cp_push_def cp_clean_def c_string_buf_ok_def)

lemma cp_struct_end:
  assumes "cp_level c d"
  shows "cp_transfers sl cl 0 d cp_writeStructEnd cp_readStructEnd () c"
proof -
  obtain l st i where c: "c = (l, st, None, None)" and d: "d = (i, l # st, None, None)"
    using assms by (cases c; cases d) (auto simp: cp_level_def cp_clean_def)
  have "cp_emits d cp_writeStructEnd [] () c"
    unfolding codec_base.emits_def c d
    by (auto simp: cp_writeStructEnd_def cp_pop_struct_def cp_W_def modifyC_def countC_def tio_simps split: list.splits)
  moreover have "cp_takes sl cl d cp_readStructEnd [] () c"
    unfolding codec_base.takes_def c d
    by (auto simp: cp_readStructEnd_def cp_pop_struct_def cp_R_def modifyC_def countC_def tio_simps c_string_buf_ok_def
        split: list.splits)
  ultimately show ?thesis by (rule cp_transfersI) simp
qed

lemma cp_transfers_retC: "cp_transfers sl cl k c (retC ()) (retC x) x c"
  by (rule cp_transfersI [OF cp_emits_retC cp_takes_retC]) simp

lemma compact_codec:
  "protocol_codec (cp_W winv) (\<lambda>s. room (cp_trans s)) (\<lambda>s. written (cp_trans s)) (cp_R rinv sl cl)
     (\<lambda>s. pending (cp_trans s)) (compact_protocol T) cp_clean cp_push cp_fld cp_level 10
     (str_within sl) (con_within cl)"
proof
  fix c d t i
  show "cp_level c d \<Longrightarrow> cp_clean d" by (simp add: cp_level_def)
  show "cp_clean c \<Longrightarrow> cp_level c (cp_push c)" by (simp add: cp_level_def cp_clean_def cp_push_def)
  show "cp_level c d \<Longrightarrow> data_type t \<Longrightarrow> cp_level c (cp_fld d t i)" by (simp add: cp_level_def cp_clean_def cp_fld_def)
next
  fix d :: cp_ctx and nm i b
  assume "cp_clean d"
  then show "\<exists>m e bs cs. codec_base.emits (cp_W winv) (\<lambda>s. room (cp_trans s)) (\<lambda>s. written (cp_trans s)) d
        (bindC (writeFieldBegin_virt (compact_protocol T) nm T_BOOL i)
          (\<lambda>_. writeBool_virt (compact_protocol T) b)) (bs @ cs) () (cp_fld d T_BOOL i) \<and> length (bs @ cs) \<le> 2 * 10 \<and>
      codec_base.takes (cp_R rinv sl cl) (\<lambda>s. pending (cp_trans s)) d
        (readFieldBegin_virt (compact_protocol T)) bs (m, T_BOOL, i) e \<and>
      codec_base.takes (cp_R rinv sl cl) (\<lambda>s. pending (cp_trans s)) e
        (readBool_virt (compact_protocol T)) cs b (cp_fld d T_BOOL i)"
    by (simp only: compact_protocol_def tprotocol.simps) (rule cp_bool_field)
next
  fix c :: cp_ctx and nm
  assume "cp_clean c"
  then show "\<exists>m. cp_transfers sl cl 10 c (writeStructBegin_virt (compact_protocol T) nm)
      (readStructBegin_virt (compact_protocol T)) m (cp_push c)"
    using cp_transfers_le [OF cp_struct_begin [of c sl cl nm], of 10] by (auto simp: compact_protocol_def)
next
  fix d :: cp_ctx and t nm i
  assume "cp_clean d" "data_type t" "t \<noteq> T_BOOL"
  then show "\<exists>m. cp_transfers sl cl 10 d (writeFieldBegin_virt (compact_protocol T) nm t i)
      (readFieldBegin_virt (compact_protocol T)) (m, t, i) (cp_fld d t i)"
    using cp_transfers_le [OF cp_field [of t d sl cl nm i], of 10] by (auto simp: compact_protocol_def)
next
  fix d :: cp_ctx
  show "\<exists>m i. cp_transfers sl cl 10 d (writeFieldStop_virt (compact_protocol T))
      (readFieldBegin_virt (compact_protocol T)) (m, T_STOP, i) d"
    using cp_transfers_le [OF cp_stop [of sl cl d], of 10] by (auto simp: compact_protocol_def)
next
  fix c :: cp_ctx and n kt vt
  assume "con_within cl n" "data_type kt" "data_type vt"
  from cp_map [OF this, of sl c] show "\<exists>kt' vt'. cp_transfers sl cl 10 c (writeMapBegin_virt (compact_protocol T) kt vt n)
      (readMapBegin_virt (compact_protocol T)) (kt', vt', n) c \<and> (0 < n \<longrightarrow> kt' = kt \<and> vt' = vt)"
    using cp_transfers_le [of sl cl 6 _ _ _ _ _ 10] by (fastforce simp: compact_protocol_def)
next
  fix c :: cp_ctx and str :: bytes
  assume "str_within sl (length str)"
  then show "cp_transfers sl cl (10 + length str) c (writeBinary_virt (compact_protocol T) str)
      (readBinary_virt (compact_protocol T)) str c"
    using cp_transfers_le [OF cp_binary] by (auto simp: compact_protocol_def)
qed (auto simp: compact_protocol_def cp_writeFieldEnd_def cp_readFieldEnd_def cp_writeMapEnd_def
      cp_readMapEnd_def cp_writeListEnd_def cp_readListEnd_def cp_writeSetEnd_def cp_readSetEnd_def
      cp_writeSetBegin_def [folded cp_writeListBegin_def] cp_readSetBegin_def cp_transfers_retC
      intro: cp_transfers_le [OF cp_bool] cp_transfers_le [OF cp_byte] cp_transfers_le [OF cp_i16]
        cp_transfers_le [OF cp_i32] cp_transfers_le [OF cp_i64] cp_transfers_le [OF cp_double]
        cp_transfers_le [OF cp_struct_end] cp_transfers_le [OF cp_field] cp_transfers_le [OF cp_stop]
        cp_transfers_le [OF cp_collection])

end


section \<open>Skipping ends\<close>

definition cp_I :: "('u \<Rightarrow> bool) \<Rightarrow> 'u compact \<Rightarrow> bool" where
  "cp_I rinv s \<longleftrightarrow> rinv (cp_trans s) \<and> c_string_buf_ok s"

lemma varint_borrowed_bounds:
  assumes "varint_borrowed bs r val sh = Inr (k, x)"
  shows "r < k" and "k \<le> r + length bs"
  using assms by (induction bs r val sh rule: varint_borrowed.induct) (auto split: if_splits)

lemma varint_borrowed_not_diverges:
  "varint_borrowed bs r val sh = Inl e \<Longrightarrow> e \<noteq> Diverges"
  by (induction bs r val sh rule: varint_borrowed.induct) (auto split: if_splits)

context byte_source
begin

abbreviation cp_shrinks :: "nat \<Rightarrow> ('x \<Rightarrow> bool) \<Rightarrow> ('s compact, 'x) pio \<Rightarrow> bool" where
  "cp_shrinks \<equiv> shrinking_reads.shrinks (cp_I inv) (\<lambda>s. length (pending (cp_trans s)))"

lemma cp_shrinks_readAll: "cp_shrinks n (\<lambda>_. True) (cp_readAll T n f)"
  unfolding shrinking_reads.shrinks_def
proof (intro allI impI)
  fix s
  assume s: "cp_I inv s"
  then have u: "inv (cp_trans s)" by (simp add: cp_I_def)
  show "case cp_readAll T n f s of (Inl e, s') \<Rightarrow> e \<noteq> Diverges
      | (Inr (k, x), s') \<Rightarrow> cp_I inv s' \<and>
          length (pending (cp_trans s')) + n \<le> length (pending (cp_trans s)) \<and> True"
  proof (cases "n \<le> length (pending (cp_trans s))")
    case True
    from readAll_ok [OF u True] obtain v where "t_readAll T n (cp_trans s) = (Inr (take n (pending (cp_trans s))), v)"
        "inv v" "pending v = drop n (pending (cp_trans s))" by blast
    with s True show ?thesis by (simp add: cp_readAll_def countC_def tio_simps cp_I_def)
  next
    case False
    then have "length (pending (cp_trans s)) < n" by simp
    from readAll_eof [OF u this] obtain v where
      "t_readAll T n (cp_trans s) = (Inl (TTransportException TE_END_OF_FILE), v)" by blast
    then show ?thesis by (simp add: cp_readAll_def countC_def tio_simps)
  qed
qed

lemmas cp_shrinks_bind = shrinking_reads.shrinks_bind [where I = "cp_I inv" and
    left = "\<lambda>s. length (pending (cp_trans s))"]

lemmas cp_shrinksE = shrinking_reads.shrinksD [where I = "cp_I inv" and
    left = "\<lambda>s. length (pending (cp_trans s))", consumes 2, case_names 1 2]

lemma cp_shrinks_retC: "Q x \<Longrightarrow> cp_shrinks 0 Q (retC x)"
  by (rule shrinking_reads.shrinks_retC)

lemma cp_shrinks_throw: "e \<noteq> Diverges \<Longrightarrow> cp_shrinks j Q (throw e)"
  by (rule shrinking_reads.shrinks_throw)

lemma cp_shrinks_0: "cp_shrinks n (\<lambda>_. True) m \<Longrightarrow> cp_shrinks 0 (\<lambda>_. True) m"
  by (erule shrinking_reads.shrinks_weaken) simp_all

lemma cp_shrinks_first:
  "cp_shrinks n (\<lambda>_. True) m \<Longrightarrow> (\<And>x. cp_shrinks 0 Q (f x)) \<Longrightarrow> cp_shrinks n Q (bindC m f)"
  using cp_shrinks_bind [of n "\<lambda>_. True" m 0 Q f] by simp

lemma cp_shrinks_result: "r \<noteq> Inl Diverges \<Longrightarrow> cp_shrinks 0 (\<lambda>_. True) (resultC r)"
  by (cases r) (auto simp: resultC_def intro: cp_shrinks_retC cp_shrinks_throw)

lemma cp_shrinks_modify:
  "(\<And>s. cp_I inv s \<Longrightarrow> cp_I inv (f s) \<and> cp_trans (f s) = cp_trans s) \<Longrightarrow> cp_shrinks 0 (\<lambda>_. True) (modifyC f)"
  unfolding shrinking_reads.shrinks_def by (simp add: modifyC_def countC_def tio_simps)

lemma cp_shrinks_byte: "cp_shrinks 1 (\<lambda>_. True) (cp_readByte T)"
  unfolding cp_readByte_def by (rule cp_shrinks_readAll)

lemma cp_shrinks_slow: "cp_shrinks 1 (\<lambda>_. True) (varint_slow T r val sh)"
proof (induction "10 - r" arbitrary: r val sh rule: less_induct)
  case less
  show ?case
    unfolding shrinking_reads.shrinks_def
  proof (intro allI impI)
    fix s
    assume s: "cp_I inv s"
    from cp_shrinks_byte s
    show "case varint_slow T r val sh s of (Inl e, s') \<Rightarrow> e \<noteq> Diverges
        | (Inr (n, x), s') \<Rightarrow> cp_I inv s' \<and> length (pending (cp_trans s')) + 1 \<le> length (pending (cp_trans s)) \<and> True"
    proof (cases rule: cp_shrinksE)
      case (1 e t)
      then show ?thesis by (subst varint_slow.simps) (simp add: bindT_def)
    next
      case (2 n b t)
      show ?thesis
      proof (cases "b AND 0x80 = 0 \<or> 10 \<le> r + 1")
        case True
        with 2 show ?thesis by (subst varint_slow.simps) (auto simp: bindT_def ret_def throw_def)
      next
        case False
        then have "10 - (r + 1) < 10 - r" by linarith
        from less [OF this, of "varint_step val sh b" "sh + 7"] 2(2)
        show ?thesis
        proof (cases rule: cp_shrinksE)
          case (1 e u)
          with 2(1) False show ?thesis by (subst varint_slow.simps) (simp add: bindT_def)
        next
          case rec: (2 m x u)
          with 2 False show ?thesis by (subst varint_slow.simps) (simp add: bindT_def)
        qed
      qed
    qed
  qed
qed

lemma cp_shrinks_varint64: "cp_shrinks 1 (\<lambda>_. True) (cp_readVarint64 T)"
  unfolding shrinking_reads.shrinks_def
proof (intro allI impI)
  fix s
  assume s: "cp_I inv s"
  let ?post = "\<lambda>r. case r of (Inl e, s') \<Rightarrow> e \<noteq> Diverges
      | (Inr (n, x), s') \<Rightarrow> cp_I inv s' \<and> length (pending (cp_trans s')) + 1 \<le> length (pending (cp_trans s)) \<and> True"
  have u: "inv (cp_trans s)" using s by (simp add: cp_I_def)
  from borrow_ok [OF u, of 10] obtain r v where b: "t_borrow T 10 (cp_trans s) = (Inr r, v)"
      "inv v" "pending v = pending (cp_trans s)"
      "\<forall>bs. r = Some bs \<longrightarrow> 10 \<le> length bs \<and> take (length bs) (pending (cp_trans s)) = bs \<and>
          (\<forall>m \<le> length bs. \<exists>s''. t_consume T m v = (Inr (), s'') \<and> inv s'' \<and>
             pending s'' = drop m (pending (cp_trans s)))" by blast
  show "?post (cp_readVarint64 T s)"
  proof (cases r)
    case None
    have "cp_I inv (s\<lparr>cp_trans := v\<rparr>)" using s b by (simp add: cp_I_def)
    from cp_shrinks_slow [of 0 0 0] this show ?thesis
      by (cases rule: cp_shrinksE) (use b None in \<open>simp_all add: cp_readVarint64_def tio_simps\<close>)
  next
    case (Some bs)
    show ?thesis
    proof (cases "varint_borrowed bs 0 0 0")
      case (Inl e)
      with varint_borrowed_not_diverges [OF Inl] b(1) Some show ?thesis
        by (simp add: cp_readVarint64_def tio_simps)
    next
      case (Inr p)
      obtain k x where p: "p = (k, x)" by (cases p)
      from varint_borrowed_bounds [OF Inr [unfolded p]] have k: "0 < k" "k \<le> length bs" by simp_all
      with b(4) Some obtain w where w: "t_consume T k v = (Inr (), w)" "inv w"
          "pending w = drop k (pending (cp_trans s))" by blast
      have "length bs \<le> length (pending (cp_trans s))"
        using b(4) Some by (metis length_take min.cobounded1)
      with w k s b(1) Some Inr p show ?thesis
        by (simp add: cp_readVarint64_def tio_simps countC_def cp_I_def)
    qed
  qed
qed

lemma cp_shrinks_varint32: "cp_shrinks 1 (\<lambda>_. True) (cp_readVarint32 T)"
  unfolding cp_readVarint32_def by (rule cp_shrinks_first [OF cp_shrinks_varint64 cp_shrinks_retC]) simp

lemma cp_shrinks_ints:
  "cp_shrinks 1 (\<lambda>_. True) (cp_readI16 T)" "cp_shrinks 1 (\<lambda>_. True) (cp_readI32 T)"
  "cp_shrinks 1 (\<lambda>_. True) (cp_readI64 T)"
  unfolding cp_readI16_def cp_readI32_def cp_readI64_def
  by (rule cp_shrinks_first [OF cp_shrinks_varint32 cp_shrinks_retC]
      cp_shrinks_first [OF cp_shrinks_varint64 cp_shrinks_retC], simp)+

lemma cp_shrinks_state:
  assumes "\<And>s. cp_shrinks j Q (f s)"
  shows "cp_shrinks j Q (\<lambda>s. f s s)"
  unfolding shrinking_reads.shrinks_def
proof (intro allI impI)
  fix s
  assume "cp_I inv s"
  then show "case f s s of (Inl e, s') \<Rightarrow> e \<noteq> Diverges
      | (Inr (n, x), s') \<Rightarrow> cp_I inv s' \<and> length (pending (cp_trans s')) + j \<le> length (pending (cp_trans s)) \<and> Q x"
    by (rule assms [unfolded shrinking_reads.shrinks_def, THEN spec, THEN mp])
qed

lemma cp_shrinks_bool: "cp_shrinks 0 (\<lambda>_. True) (cp_readBool T)"
proof -
  have "cp_shrinks 0 (\<lambda>_. True) (case b of
        Some v \<Rightarrow> bindC (modifyC (\<lambda>s. s\<lparr>boolValue := None\<rparr>)) (\<lambda>_. retC v)
      | None \<Rightarrow> bindC (cp_readByte T) (\<lambda>val. retC (val = ctype_code CT_BOOLEAN_TRUE)))" for b
  proof (cases b)
    case None
    have "cp_shrinks 0 (\<lambda>_. True) (bindC (cp_readByte T) (\<lambda>val. retC (val = ctype_code CT_BOOLEAN_TRUE)))"
      by (rule cp_shrinks_first [OF cp_shrinks_0 [OF cp_shrinks_byte] cp_shrinks_retC]) simp
    with None show ?thesis by simp
  next
    case (Some v)
    have "cp_shrinks 0 (\<lambda>_. True) (bindC (modifyC (\<lambda>s. s\<lparr>boolValue := None\<rparr>)) (\<lambda>_. retC v))"
      by (rule cp_shrinks_first [OF cp_shrinks_modify cp_shrinks_retC]) (simp_all add: cp_I_def c_string_buf_ok_def)
    with Some show ?thesis by simp
  qed
  then show ?thesis unfolding cp_readBool_def [abs_def] by (rule cp_shrinks_state)
qed

lemma cp_shrinks_pop: "cp_shrinks 0 (\<lambda>_. True) cp_pop_struct"
proof -
  have "cp_shrinks 0 (\<lambda>_. True) (case l of
        [] \<Rightarrow> throw UndefinedBehaviour
      | i # is \<Rightarrow> modifyC (\<lambda>s. s\<lparr>lastFieldId := i, lastField := is\<rparr>))" for l
    by (cases l) (auto intro!: cp_shrinks_throw cp_shrinks_modify simp: cp_I_def c_string_buf_ok_def)
  then show ?thesis unfolding cp_pop_struct_def [abs_def] by (rule cp_shrinks_state)
qed

lemma getTType_not_diverges: "getTType ct \<noteq> Inl Diverges"
  by (simp add: getTType_def)

lemma cp_shrinks_field: "cp_shrinks 1 (\<lambda>_. True) (cp_readFieldBegin T)"
  unfolding cp_readFieldBegin_def
proof (rule cp_shrinks_first [OF cp_shrinks_byte])
  fix byte
  have id: "cp_shrinks 0 (\<lambda>_. True) (if m = 0 then cp_readI16 T else countC 0 (gets (\<lambda>s. lastFieldId s + m)))" for m
    using cp_shrinks_0 [OF cp_shrinks_ints(1)]
    by (auto simp: shrinking_reads.shrinks_def countC_def tio_simps)
  show "cp_shrinks 0 (\<lambda>_. True) (let type = byte AND 0x0f; modifier = ucast (drop_bit 4 (byte AND 0xf0)) in
     if type = ttype_code T_STOP then retC ([], T_STOP, 0)
     else
       bindC (if modifier = 0 then cp_readI16 T
              else countC 0 (gets (\<lambda>s. lastFieldId s + modifier))) (\<lambda>fieldId.
       bindC (resultC (getTType type)) (\<lambda>fieldType.
       bindC (modifyC (\<lambda>s.
         if type = ctype_code CT_BOOLEAN_TRUE \<or> type = ctype_code CT_BOOLEAN_FALSE
         then s\<lparr>boolValue := Some (type = ctype_code CT_BOOLEAN_TRUE)\<rparr> else s)) (\<lambda>_.
       bindC (modifyC (\<lambda>s. s\<lparr>lastFieldId := fieldId\<rparr>)) (\<lambda>_.
       retC ([], fieldType, fieldId))))))"
    unfolding Let_def
  proof (split if_split, intro conjI impI)
    show "cp_shrinks 0 (\<lambda>_. True) (retC ([], T_STOP, 0))" by (rule cp_shrinks_retC) simp
  qed (intro cp_shrinks_first [OF id] cp_shrinks_first [OF cp_shrinks_result] cp_shrinks_first [OF cp_shrinks_modify]
      cp_shrinks_retC getTType_not_diverges; simp add: cp_I_def c_string_buf_ok_def)
qed

lemma cp_shrinks_size: "cp_shrinks 0 (\<lambda>n. n < 2 ^ 32) (cp_checkSize (sint (w :: i32)))"
proof -
  have "sint w < 2147483648" using sint_less [of w] by simp
  then have "nat (sint w) < 4294967296" by linarith
  then show ?thesis
    unfolding shrinking_reads.shrinks_def by (auto simp: cp_checkSize_def tio_simps)
qed

lemma cp_shrinks_sized:
  "(\<And>n. n < 2 ^ 32 \<Longrightarrow> cp_shrinks 0 Q (f n)) \<Longrightarrow> cp_shrinks 0 Q (bindC (cp_checkSize (sint (w :: i32))) f)"
  using cp_shrinks_bind [OF cp_shrinks_size, of 0 Q f w] by simp

lemma cp_shrinks_list: "cp_shrinks 1 (\<lambda>(e, n). n < 2 ^ 32) (cp_readListBegin T)"
  unfolding cp_readListBegin_def
proof (rule cp_shrinks_first [OF cp_shrinks_byte])
  fix b :: u8
  have size: "cp_shrinks 0 (\<lambda>_. True) (if drop_bit 4 b AND 0x0f = 15 then cp_readVarint32 T
            else retC (ucast (drop_bit 4 b AND 0x0f)))"
    using cp_shrinks_0 [OF cp_shrinks_varint32] by (auto intro: cp_shrinks_retC)
  show "cp_shrinks 0 (\<lambda>(e, n). n < 2 ^ 32) (bindC (if drop_bit 4 b AND 0x0f = 15 then cp_readVarint32 T
            else retC (ucast (drop_bit 4 b AND 0x0f))) (\<lambda>lsize.
     bindC (cp_checkSize (sint lsize)) (\<lambda>sz.
     bindC (resultC (getTType (b AND 0x0f))) (\<lambda>elemType. retC (elemType, sz)))))"
    by (intro cp_shrinks_first [OF size] cp_shrinks_sized cp_shrinks_first [OF cp_shrinks_result] cp_shrinks_retC
        getTType_not_diverges) simp
qed

lemma cp_shrinks_map: "cp_shrinks 1 (\<lambda>(k, v, n). n < 2 ^ 32) (cp_readMapBegin T)"
  unfolding cp_readMapBegin_def
proof (rule cp_shrinks_first [OF cp_shrinks_varint32])
  fix w :: i32
  have kv: "cp_shrinks 0 (\<lambda>_. True) (if w \<noteq> 0 then cp_readByte T else retC 0)"
    using cp_shrinks_0 [OF cp_shrinks_byte] by (auto intro: cp_shrinks_retC)
  show "cp_shrinks 0 (\<lambda>(k, v, n). n < 2 ^ 32) (bindC (if w \<noteq> 0 then cp_readByte T else retC 0) (\<lambda>kvType.
     bindC (cp_checkSize (sint w)) (\<lambda>sz.
     bindC (resultC (getTType (drop_bit 4 kvType))) (\<lambda>keyType.
     bindC (resultC (getTType (kvType AND 0xf))) (\<lambda>valType.
     retC (keyType, valType, sz))))))"
    by (intro cp_shrinks_first [OF kv] cp_shrinks_sized cp_shrinks_first [OF cp_shrinks_result] cp_shrinks_retC
        getTType_not_diverges) simp
qed

lemma cp_shrinks_binary: "cp_shrinks 0 (\<lambda>_. True) (cp_readBinary T)"
  unfolding cp_readBinary_def
proof (rule cp_shrinks_0, rule cp_shrinks_first [OF cp_shrinks_varint32])
  fix w :: i32
  show "cp_shrinks 0 (\<lambda>_. True) (\<lambda>s. (let sz = sint w in
        if sz = 0 then retC []
        else if sz < 0 then throw (TProtocolException PE_NEGATIVE_SIZE)
        else if c_string_limit s > 0 \<and> sz > c_string_limit s
        then throw (TProtocolException PE_SIZE_LIMIT)
        else
          bindT (modify (c_string_buf_grow sz)) (\<lambda>_.
          bindT (cp_call (t_readAll T (nat sz))) (\<lambda>bs.
          bindT (store c_string_mem (\<lambda>f s. s\<lparr>c_string_buf := map_option f (c_string_buf s)\<rparr>) 0 bs) (\<lambda>_.
          countC (nat sz) (load c_string_mem 0 (nat sz)))))) s)"
    unfolding shrinking_reads.shrinks_def Let_def
  proof (intro allI impI)
    fix s
    assume s: "cp_I inv s"
    show "case (if sint w = 0 then retC []
        else if sint w < 0 then throw (TProtocolException PE_NEGATIVE_SIZE)
        else if c_string_limit s > 0 \<and> sint w > c_string_limit s
        then throw (TProtocolException PE_SIZE_LIMIT)
        else
          bindT (modify (c_string_buf_grow (sint w))) (\<lambda>_.
          bindT (cp_call (t_readAll T (nat (sint w)))) (\<lambda>bs.
          bindT (store c_string_mem (\<lambda>f s. s\<lparr>c_string_buf := map_option f (c_string_buf s)\<rparr>) 0 bs) (\<lambda>_.
          countC (nat (sint w)) (load c_string_mem 0 (nat (sint w))))))) s of (Inl e, s') \<Rightarrow> e \<noteq> Diverges
      | (Inr (n, x), s') \<Rightarrow> cp_I inv s' \<and> length (pending (cp_trans s')) + 0 \<le> length (pending (cp_trans s)) \<and> True"
    proof (cases "sint w \<le> 0 \<or> c_string_limit s > 0 \<and> sint w > c_string_limit s")
      case True
      with s show ?thesis by (auto simp: tio_simps)
    next
      case False
      define n where "n = nat (sint w)"
      from False have n: "sint w = int n" "0 < n" by (auto simp: n_def)
      have S: "inv (cp_trans s)" "c_string_buf_ok s" using s by (simp_all add: cp_I_def)
      note grow = c_string_buf_grow_ok [OF S(2)]
      obtain t m where t: "c_string_buf_grow (int n) s = t" "c_string_buf t = Some m" "n \<le> length m"
          "int (length m) = c_string_buf_size t"
        using grow(1) [of n] by blast
      have same: "cp_trans t = cp_trans s" using grow(2) [of "int n"] t(1) by simp
      show ?thesis
      proof (cases "n \<le> length (pending (cp_trans s))")
        case True
        from readAll_ok [OF S(1) True] obtain v where "t_readAll T n (cp_trans s) = (Inr (take n (pending (cp_trans s))), v)"
            "inv v" "pending v = drop n (pending (cp_trans s))" by blast
        with False n t same True show ?thesis
          by (simp add: tio_simps countC_def cp_I_def c_string_mem_def c_string_buf_ok_def)
      next
        case short: False
        then have "length (pending (cp_trans s)) < n" by simp
        from readAll_eof [OF S(1) this] obtain v where
          "t_readAll T n (cp_trans s) = (Inl (TTransportException TE_END_OF_FILE), v)" by blast
        with False n t same show ?thesis by (simp add: tio_simps)
      qed
    qed
  qed
qed

lemma cp_skippable: "skippable (cp_I inv) (\<lambda>s. length (pending (cp_trans s))) (compact_protocol T)"
proof
  have "cp_shrinks 0 (\<lambda>_. True) cp_readStructBegin"
    unfolding cp_readStructBegin_def
    by (rule cp_shrinks_first [OF cp_shrinks_modify cp_shrinks_retC]) (simp_all add: cp_I_def c_string_buf_ok_def)
  then show "cp_shrinks 0 (\<lambda>_. True) (readStructBegin_virt (compact_protocol T))"
    by (simp add: compact_protocol_def)
  show "cp_shrinks 0 (\<lambda>_. True) (readByte_virt (compact_protocol T))"
    using cp_shrinks_0 [OF cp_shrinks_byte] by (simp add: compact_protocol_def)
  show "cp_shrinks 0 (\<lambda>_. True) (readDouble_virt (compact_protocol T))"
    using cp_shrinks_0 [OF cp_shrinks_readAll] by (simp add: compact_protocol_def cp_readDouble_def)
qed (use cp_shrinks_field cp_shrinks_list cp_shrinks_map in
    \<open>simp_all add: compact_protocol_def cp_shrinks_bool cp_shrinks_0 [OF cp_shrinks_ints(1)]
      cp_shrinks_0 [OF cp_shrinks_ints(2)] cp_shrinks_0 [OF cp_shrinks_ints(3)] cp_shrinks_binary
      cp_readStructEnd_def cp_shrinks_pop cp_readFieldEnd_def cp_readMapEnd_def cp_readListEnd_def cp_readSetEnd_def
      cp_readSetBegin_def cp_shrinks_retC\<close>)

end


section \<open>Messages\<close>

text \<open>
  The type of a message takes three bits, of which the reader keeps two: the type \<^verbatim>\<open>T_ONEWAY\<close>
  comes back as 0, which names no message type.
\<close>

definition c_type_read_back :: "tmessage_type \<Rightarrow> tmessage_type" where
  "c_type_read_back mt = (if mt = T_ONEWAY then T_MESSAGE_OTHER 0 else mt)"

lemma type_byte:
  assumes "named_message mt"
  defines "b \<equiv> ucast (ucast (VERSION_N AND C_VERSION_MASK) OR
       (push_bit TYPE_SHIFT_AMOUNT (msg_code mt) AND TYPE_MASK)) :: u8"
  shows "b AND C_VERSION_MASK = VERSION_N"
    and "msg_of (signed_drop_bit TYPE_SHIFT_AMOUNT (scast b) AND 3) = c_type_read_back mt"
  using assms(1) unfolding b_def
  by (auto simp: named_message_def C_VERSION_MASK_def VERSION_N_def TYPE_SHIFT_AMOUNT_def TYPE_MASK_def
      c_type_read_back_def msg_of_def)

context byte_channel
begin

lemma cp_message:
  assumes "str_within sl (length name)" and "named_message mt"
  shows "cp_transfers sl cl (12 + length name) c (cp_writeMessageBegin T name mt seqid)
    (cp_readMessageBegin T) (name, c_type_read_back mt, seqid) c"
proof -
  let ?b = "ucast (ucast (VERSION_N AND C_VERSION_MASK) OR
       (push_bit TYPE_SHIFT_AMOUNT (msg_code mt) AND TYPE_MASK)) :: u8"
  obtain bs where bs: "cp_emits c (cp_writeBinary T name) bs () c" "cp_takes sl cl c (cp_readBinary T) bs name c"
      "length bs \<le> 5 + length name"
    using cp_binary [OF assms(1), of cl c] unfolding codec_base.transfers_def by blast
  have "cp_emits c (cp_writeMessageBegin T name mt seqid) ([PROTOCOL_ID] @ [?b] @ varint_bytes seqid @ bs) () c"
    unfolding cp_writeMessageBegin_def cp_writeString_def
    by (rule cp_emits_bind [OF cp_emits_byte], rule cp_emits_bind [OF cp_emits_byte],
        rule cp_emits_bind [OF cp_varint32_emits bs(1)])
  moreover have "cp_takes sl cl c (cp_readMessageBegin T) ([PROTOCOL_ID] @ [?b] @ varint_bytes seqid @ bs)
      (name, c_type_read_back mt, seqid) c"
    unfolding cp_readMessageBegin_def cp_readString_def
  proof (rule cp_takes_bind [OF cp_takes_byte], unfold simp_thms if_False, rule cp_takes_bind [OF cp_takes_byte],
      unfold type_byte [OF assms(2)] simp_thms if_False, rule cp_takes_bind [OF cp_varint32_takes])
    show "cp_takes sl cl c (bindC (cp_readBinary T) (\<lambda>name. retC (name, c_type_read_back mt, seqid))) bs
        (name, c_type_read_back mt, seqid) c"
      by (rule cp_takes_map [OF bs(2)])
  qed
  ultimately show ?thesis
    by (rule cp_transfersI) (use bs(3) length_varint_32 [of seqid] in simp)
qed

end

section \<open>Over a memory buffer\<close>

interpretation cp_mem: protocol_codec "cp_W mem_unread" "\<lambda>s. mem_room (cp_trans s)"
  "\<lambda>s. mem_written (cp_trans s)" "cp_R mem_inv sl cl" "\<lambda>s. mem_pending (cp_trans s)"
  "compact_protocol mem_transport" cp_clean cp_push cp_fld cp_level 10 "str_within sl" "con_within cl" for sl cl
  by (rule mem_channel.compact_codec)

interpretation cp_mem_skip: skippable "cp_I mem_inv" "\<lambda>s. length (mem_pending (cp_trans s))"
  "compact_protocol mem_transport"
  by (rule mem_source.cp_skippable)

lemma cp_fresh_reader:
  assumes "mem_inv m"
  shows "cp_R mem_inv 0 0 (0, [], None, None) (new_TCompactProtocol m)" and "cp_I mem_inv (new_TCompactProtocol m)"
    and "cp_trans (new_TCompactProtocol m) = m"
  using assms by (simp_all add: cp_R_def cp_I_def new_TCompactProtocol_def c_string_buf_ok_def)

lemma cp_fresh_writer:
  "cp_W mem_unread (0, [], None, None) (new_TCompactProtocol new_TMemoryBuffer)"
  "mem_written (cp_trans (new_TCompactProtocol new_TMemoryBuffer)) = []"
  "n < 2 ^ 30 \<Longrightarrow> mem_room (cp_trans (new_TCompactProtocol new_TMemoryBuffer)) n"
  using new_sized_inv [of 1024] new_sized_fields [of 1024]
  by (simp_all add: cp_W_def new_TCompactProtocol_def new_TMemoryBuffer_def mem_unread_def mem_written_def mem_room_def)

section \<open>Properties\<close>

text \<open>
  C2: a value written by TCompactProtocol is read back, and skipped, from exactly the bytes it was
  written to, inside any number of open structs: over any transport, from a state in \<open>c\<close> with no
  boolean field pending, the writer appends at most \<open>weight 10 v\<close> bytes, and the reader, in front
  of them in the same state, returns the value (up to names and the types of empty maps). Both
  are back in \<open>c\<close>: the last field ids of the enclosing structs are restored.
\<close>

theorem compact_round_trip:
  assumes "byte_channel T winv room written rinv pending" and "cp_clean c"
    and "wt (str_within sl) (con_within cl) v" and "fuel v \<le> k"
  shows "\<exists>bs. length bs \<le> weight 10 v \<and>
    (\<forall>s n. cp_W winv c s \<longrightarrow> room (cp_trans s) (length bs + n) \<longrightarrow>
      (\<exists>s'. write_val (compact_protocol T) v s = (Inr (u32 (length bs), ()), s') \<and>
        written (cp_trans s') = written (cp_trans s) @ bs \<and> room (cp_trans s') n \<and> cp_W winv c s')) \<and>
    (\<forall>s rest. cp_R rinv sl cl c s \<longrightarrow> pending (cp_trans s) = bs @ rest \<longrightarrow>
      (\<exists>s'. read_val k (compact_protocol T) (type_of v) s = (Inr (u32 (length bs), erase v), s') \<and>
        pending (cp_trans s') = rest \<and> cp_R rinv sl cl c s') \<and>
      (\<exists>s'. skip k (compact_protocol T) (type_of v) s = (Inr (u32 (length bs), ()), s') \<and>
        pending (cp_trans s') = rest \<and> cp_R rinv sl cl c s'))"
proof -
  note codec = byte_channel.compact_codec [OF assms(1), of sl cl]
  obtain bs where bs: "length bs \<le> weight 10 v"
    "codec_base.emits (cp_W winv) (\<lambda>s. room (cp_trans s)) (\<lambda>s. written (cp_trans s)) c
        (write_val (compact_protocol T) v) bs () c"
    "codec_base.takes (cp_R rinv sl cl) (\<lambda>s. pending (cp_trans s)) c
        (read_val k (compact_protocol T) (type_of v)) bs (erase v) c"
    "codec_base.takes (cp_R rinv sl cl) (\<lambda>s. pending (cp_trans s)) c
        (skip k (compact_protocol T) (type_of v)) bs () c"
    by (rule protocol_codec.read_back [OF codec assms(3,2,4)])
  then show ?thesis
    unfolding codec_base.emits_def codec_base.takes_def by blast
qed

theorem compact_round_trip_witness:
  "\<exists>bs s'. write_val (compact_protocol mem_transport)
      (VStruct [] [Field [] 1 (VBool True), Field [] 300 (VList T_I32 [VI32 7, VI32 (- 1)])])
      (new_TCompactProtocol new_TMemoryBuffer) = (Inr (u32 (length bs), ()), s') \<and>
    mem_written (cp_trans s') = bs \<and>
    fst (read_val 20 (compact_protocol mem_transport) T_STRUCT
      (new_TCompactProtocol (cp_trans s'))) = Inr (u32 (length bs),
      VStruct [] [Field [] 1 (VBool True), Field [] 300 (VList T_I32 [VI32 7, VI32 (- 1)])])"
proof -
  let ?v = "VStruct [] [Field [] 1 (VBool True), Field [] 300 (VList T_I32 [VI32 7, VI32 (- 1)])]"
  let ?s = "new_TCompactProtocol new_TMemoryBuffer" and ?c = "(0, [], None, None) :: cp_ctx"
  have c: "cp_clean ?c" by (simp add: cp_clean_def)
  have wt: "wt (str_within 0) (con_within 0) ?v" and fuel: "fuel ?v \<le> 20"
    by (simp_all add: con_within_def)
  from compact_round_trip [OF mem_channel.byte_channel_axioms c wt fuel] obtain bs where
    bs: "length bs \<le> weight 10 ?v"
    and W: "\<And>s n. cp_W mem_unread ?c s \<Longrightarrow> mem_room (cp_trans s) (length bs + n) \<Longrightarrow>
      \<exists>s'. write_val (compact_protocol mem_transport) ?v s = (Inr (u32 (length bs), ()), s') \<and>
        mem_written (cp_trans s') = mem_written (cp_trans s) @ bs \<and> mem_room (cp_trans s') n \<and>
        cp_W mem_unread ?c s'"
    and R: "\<And>s rest. cp_R mem_inv 0 0 ?c s \<Longrightarrow> mem_pending (cp_trans s) = bs @ rest \<Longrightarrow>
      \<exists>s'. read_val 20 (compact_protocol mem_transport) (type_of ?v) s = (Inr (u32 (length bs), erase ?v), s')"
    by blast
  have "mem_room (cp_trans ?s) (length bs + 0)" using bs by (intro cp_fresh_writer(3)) simp
  with W [OF cp_fresh_writer(1), of 0] obtain s' where s': "write_val (compact_protocol mem_transport) ?v ?s = (Inr (u32 (length bs), ()), s')"
      "mem_written (cp_trans s') = bs" "cp_W mem_unread ?c s'" using cp_fresh_writer(2) by auto
  then have m: "mem_inv (cp_trans s')" "mem_pending (cp_trans s') = bs @ []"
    using mem_unread_pending by (auto simp: cp_W_def mem_unread_def)
  from R [OF cp_fresh_reader(1) [OF m(1)], of "[]"] m(2) obtain r where
    "read_val 20 (compact_protocol mem_transport) (type_of ?v) (new_TCompactProtocol (cp_trans s')) =
      (Inr (u32 (length bs), erase ?v), r)" by (auto simp: cp_fresh_reader(3) [OF m(1)])
  with s' show ?thesis by (auto simp del: read_val.simps)
qed

text \<open>
  The header of a message of TCompactProtocol is read back from the bytes it was written to,
  name and sequence id as they were; the type too, unless it is \<^verbatim>\<open>T_ONEWAY\<close>, which is read as
  the type 0, since the reader masks the type with two bits and the writer with three.
\<close>

lemma compact_message_round_trip:
  assumes "byte_channel T winv room written rinv pending"
    and "str_within sl (length name)" and "named_message mt"
  shows "\<exists>bs. length bs \<le> 12 + length name \<and>
    (\<forall>s n. cp_W winv c s \<longrightarrow> room (cp_trans s) (length bs + n) \<longrightarrow>
      (\<exists>s'. cp_writeMessageBegin T name mt seqid s = (Inr (u32 (length bs), ()), s') \<and>
        written (cp_trans s') = written (cp_trans s) @ bs)) \<and>
    (\<forall>s rest. cp_R rinv sl cl c s \<longrightarrow> pending (cp_trans s) = bs @ rest \<longrightarrow>
      (\<exists>s'. cp_readMessageBegin T s =
        (Inr (u32 (length bs), (name, if mt = T_ONEWAY then T_MESSAGE_OTHER 0 else mt, seqid)), s') \<and>
        pending (cp_trans s') = rest))"
proof -
  obtain bs where "length bs \<le> 12 + length name"
    "codec_base.emits (cp_W winv) (\<lambda>s. room (cp_trans s)) (\<lambda>s. written (cp_trans s)) c
        (cp_writeMessageBegin T name mt seqid) bs () c"
    "codec_base.takes (cp_R rinv sl cl) (\<lambda>s. pending (cp_trans s)) c
        (cp_readMessageBegin T) bs (name, c_type_read_back mt, seqid) c"
    using byte_channel.cp_message [OF assms, of cl c seqid] unfolding codec_base.transfers_def by blast
  then show ?thesis unfolding codec_base.emits_def codec_base.takes_def c_type_read_back_def by blast
qed

lemma compact_message_round_trip_witness:
  "\<exists>bs s'. cp_writeMessageBegin mem_transport [112, 105] T_ONEWAY 5
      (new_TCompactProtocol new_TMemoryBuffer) = (Inr (u32 (length bs), ()), s') \<and>
    mem_written (cp_trans s') = bs"
proof -
  let ?c = "(0, [], None, None) :: cp_ctx"
  have "str_within 0 (length [112 :: u8, 105])" "named_message T_ONEWAY"
    by (simp_all add: str_within_def named_message_def)
  from compact_message_round_trip [OF mem_channel.byte_channel_axioms this, of ?c 5] obtain bs where
    bs: "length bs \<le> 12 + length [112 :: u8, 105]" and W: "\<forall>s n. cp_W mem_unread ?c s \<longrightarrow>
      mem_room (cp_trans s) (length bs + n) \<longrightarrow>
      (\<exists>s'. cp_writeMessageBegin mem_transport [112, 105] T_ONEWAY 5 s = (Inr (u32 (length bs), ()), s') \<and>
        mem_written (cp_trans s') = mem_written (cp_trans s) @ bs)" by blast
  have "mem_room (cp_trans (new_TCompactProtocol new_TMemoryBuffer)) (length bs + 0)"
    using bs by (intro cp_fresh_writer(3)) simp
  from W [rule_format, OF cp_fresh_writer(1) this] show ?thesis using cp_fresh_writer(2) by auto
qed

text \<open>
  C22: the varint writers never run over their buffers of five and ten bytes, so they just write the
  varint, and the loop of the reader inverts it in front of any other bytes.
\<close>

theorem varint_fits:
  "cp_writeVarint32 U m = cp_write U (varint_bytes m) \<and> length (varint_bytes m) \<le> 5 \<and>
   cp_writeVarint64 U n = cp_write U (varint_bytes n) \<and> length (varint_bytes n) \<le> 10 \<and>
   varint_borrowed (varint_bytes n @ rest) 0 0 0 = Inr (length (varint_bytes n), n)"
  using length_varint_32 [of m] length_varint_64 [of n] varint_borrowed_ok [of 0 n rest 0 0]
  by (simp add: cp_writeVarint32_def cp_writeVarint64_def)

text \<open>
  C11: zigzag is the map of the specification: a number \<open>n\<close> that is not negative to \<open>2 n\<close>, a
  negative one to \<open>- 2 n - 1\<close>, in both widths, without an overflow at the ends of the range.
\<close>

theorem zigzag_matches_arithmetic:
  "uint (i32ToZigzag n) = (if 0 \<le> sint n then 2 * sint n else - 2 * sint n - 1) \<and>
   uint (i64ToZigzag l) = (if 0 \<le> sint l then 2 * sint l else - 2 * sint l - 1) \<and>
   zigzagToI32 (i32ToZigzag n) = n \<and> zigzagToI64 (i64ToZigzag l) = l"
  by (simp only: uint_zigzag zigzag32 zigzag64 simp_thms)

text \<open>
  C23: \<^verbatim>\<open>skip\<close> over TCompactProtocol ends on every input for every type, with a result or an
  exception, when the fuel is above \<open>skip_fuel\<close> of the number of pending bytes.
\<close>

theorem compact_skip_ends:
  assumes "byte_source T rinv pending" and "cp_I rinv s"
    and "skip_fuel (length (pending (cp_trans s))) < k"
  shows "fst (skip k (compact_protocol T) t s) \<noteq> Inl Diverges"
  by (rule skippable.skip_ends [OF byte_source.cp_skippable [OF assms(1)] assms(2,3)])

theorem compact_skip_ends_witness:
  "\<exists>m. new_TMemoryBuffer_from (Some [0x1C, 0x1C, 0xFF]) 3 TAKE_OWNERSHIP = Inr m \<and>
    fst (skip (skip_fuel 3 + 1) (compact_protocol mem_transport) T_STRUCT (new_TCompactProtocol m)) \<noteq>
      Inl Diverges"
proof -
  obtain m where m: "new_TMemoryBuffer_from (Some [0x1C, 0x1C, 0xFF]) 3 TAKE_OWNERSHIP = Inr m"
      "mem_inv m" "mem_pending m = [0x1C, 0x1C, 0xFF]"
    using new_from_ok [of "[0x1C, 0x1C, 0xFF]" 3] by auto
  have "skip_fuel (length (mem_pending (cp_trans (new_TCompactProtocol m)))) < skip_fuel 3 + 1"
    using m by (simp add: new_TCompactProtocol_def numeral_3_eq_3)
  with compact_skip_ends [OF mem_source.byte_source_axioms cp_fresh_reader(2) [OF m(2)]] m(1) show ?thesis by blast
qed

end
