(* ===== verification/StepSystem.thy ===== *)
theory StepSystem
  imports Main
begin

text \<open>
  Systems of threads as labelled step relations: the runs of a step relation with the events they
  produce, and the interface by which a component gives an invariant of its steps. Also the
  exceptions of \<^verbatim>\<open>concurrency/Exception.h\<close>.
\<close>

datatype conc_exc =
    InvalidArgumentException | IllegalStateException | TimedOutException
  | TooManyPendingTasksException | NoSuchTaskException

inductive runs :: "('s \<Rightarrow> 'e list \<Rightarrow> 's \<Rightarrow> bool) \<Rightarrow> 's \<Rightarrow> 'e list \<Rightarrow> 's \<Rightarrow> bool"
  for step where
  runs_none: "runs step s [] s"
| runs_step: "runs step s es t \<Longrightarrow> step t fs u \<Longrightarrow> runs step s (es @ fs) u"

lemma runs_snoc: "runs step s es t \<Longrightarrow> step t fs u \<Longrightarrow> gs = es @ fs \<Longrightarrow> runs step s gs u"
  using runs_step by metis

lemma runs_one: "step s es t \<Longrightarrow> runs step s es t"
  using runs_step [OF runs_none, of step s es t] by simp

lemma runs_quiet: "runs step s es t \<Longrightarrow> step t [] u \<Longrightarrow> runs step s es u"
  by (rule runs_snoc [where fs = "[]"]) simp_all

lemma runs_append: "runs step t fs u \<Longrightarrow> runs step s es t \<Longrightarrow> runs step s (es @ fs) u"
proof (induction rule: runs.induct)
  case (runs_step a fs b gs c)
  then show ?case using runs.runs_step [of step s "es @ fs" b gs c] by simp
qed simp

text \<open>
  An invariant that relates a state to the events that led to it: it holds at the start, where
  nothing has happened, and every step keeps it.
\<close>

locale step_invariant =
  fixes step :: "'s \<Rightarrow> 'e list \<Rightarrow> 's \<Rightarrow> bool"
    and init :: "'s \<Rightarrow> bool"
    and inv :: "'e list \<Rightarrow> 's \<Rightarrow> bool"
  assumes start: "init s \<Longrightarrow> inv [] s"
    and kept: "inv es s \<Longrightarrow> step s fs t \<Longrightarrow> inv (es @ fs) t"
begin

lemma holds: "runs step s es t \<Longrightarrow> init s \<Longrightarrow> inv es t"
  by (induction rule: runs.induct) (auto intro: start kept)

end

end
