(* ===== verification/ThreadManager.thy ===== *)
theory ThreadManager
  imports StepSystem
begin

text \<open>
  \<^verbatim>\<open>ThreadManager::Impl\<close> (\<^verbatim>\<open>concurrency/ThreadManager.cpp\<close>): the pool of worker threads, its
  queue of tasks and the calls of its clients, as steps of threads that interleave at the critical
  sections of the code. A section under \<^verbatim>\<open>mutex_\<close> is one function of the shared state; between
  two of them a thread is at one of the program points of \<open>wpc\<close> (workers) or \<open>cpc\<close> (clients).

  The monitor of the queue and \<^verbatim>\<open>maxMonitor_\<close> are modelled with their waiting threads: a
  notification marks one of them, and a waiting thread that is marked can go on; so can one that is
  not, as the condition variables may wake up for no reason. Counts are numbers of threads or tasks
  and are not bounded by the width of \<^verbatim>\<open>size_t\<close>. Clients that wait on \<^verbatim>\<open>workerMonitor_\<close> go on
  when their condition holds.
\<close>

section \<open>State\<close>

datatype tm_status =
    TM_UNINITIALIZED | TM_STARTING | TM_STARTED | TM_JOINING | TM_STOPPING | TM_STOPPED

datatype task_status = WAITING | EXECUTING | CANCELLED | COMPLETE

record 'r task =
  runnable :: 'r
  task_state :: task_status
  expireTime :: int

text \<open>
  The time of expiry is an integer without bound, where the code adds in \<^verbatim>\<open>int64_t\<close>: expirations
  that overflow it are outside the model.
\<close>

definition new_Task :: "int \<Rightarrow> 'r \<Rightarrow> int \<Rightarrow> 'r task" where
  "new_Task now value expiration =
     \<lparr>runnable = value, task_state = WAITING, expireTime = (if expiration \<noteq> 0 then now + expiration else 0)\<rparr>"

text \<open>
  A worker: its thread is created, started and before its first section, in its loop before the
  next section, waiting for a task (marked or not), outside the sections with the task it took, or
  out of the loop before it enters itself among the dead ones.
\<close>

datatype 'r wpc =
    W_None | W_Created | W_Entry | W_Loop | W_Waiting bool | W_Run "'r task option" | W_Leaving | W_Dead

text \<open>
  A client: not in a call, waiting in \<^verbatim>\<open>add\<close> (marked or not) with the arguments of the call,
  starting the threads of \<^verbatim>\<open>addWorker\<close>, entering a started one in the map, waiting for all of
  them, about to read the number of workers to remove in
  \<^verbatim>\<open>stopImpl\<close> and with that number, waiting in \<^verbatim>\<open>removeWorker\<close> (called by
  \<^verbatim>\<open>stopImpl\<close> or not), before the last section of \<^verbatim>\<open>stopImpl\<close>.
\<close>

datatype 'r cpc =
    C_Idle | C_AddWait bool 'r int int | C_StartThreads "nat list" | C_Register nat "nat list"
  | C_AddWorkerWait | C_StopRemove | C_StopRemoveOf nat | C_RemoveWait bool | C_StopEnd

record 'r tm =
  workerCount :: nat
  workerMaxCount :: nat
  idleCount :: nat
  pendingTaskCountMax :: nat
  expiredCount :: nat
  expireCallback :: bool
  tm_state :: tm_status
  threadFactory :: bool
  tasks :: "'r task list"
  workers :: "nat set"
  deadWorkers :: "nat set"
  idMap :: "nat set"
  pc :: "nat \<Rightarrow> 'r wpc"
  client :: "nat \<Rightarrow> 'r cpc"

definition new_Impl :: "'r tm" where
  "new_Impl =
     \<lparr>workerCount = 0, workerMaxCount = 0, idleCount = 0, pendingTaskCountMax = 0, expiredCount = 0,
      expireCallback = False, tm_state = TM_UNINITIALIZED, threadFactory = False, tasks = [],
      workers = {}, deadWorkers = {}, idMap = {}, pc = (\<lambda>_. W_None), client = (\<lambda>_. C_Idle)\<rparr>"

text \<open>
  What can be seen of a run: tasks entering the queue and leaving it (expired, taken by a worker,
  or handed out by \<^verbatim>\<open>removeNextPending\<close>), calls of the expire callback, tasks run to the end,
  and exceptions of calls.
\<close>

datatype 'r event =
    Pushed "'r task" | Expired "'r task" | Callback 'r | Taken nat "'r task" | Removed "'r task"
  | Ran nat "'r task" | Threw nat conc_exc

section \<open>The functions of Impl that only read or set a member\<close>

definition setThreadFactory :: "'r tm \<Rightarrow> 'r tm" where
  "setThreadFactory s = s\<lparr>threadFactory := True\<rparr>"

definition pendingTaskCount :: "'r tm \<Rightarrow> nat" where
  "pendingTaskCount s = length (tasks s)"

definition totalTaskCount :: "'r tm \<Rightarrow> nat" where
  "totalTaskCount s = length (tasks s) + workerCount s - idleCount s"

definition expiredTaskCount :: "'r tm \<Rightarrow> nat \<times> 'r tm" where
  "expiredTaskCount s = (expiredCount s, s\<lparr>expiredCount := 0\<rparr>)"

definition setPendingTaskCountMax :: "nat \<Rightarrow> 'r tm \<Rightarrow> 'r tm" where
  "setPendingTaskCountMax value s = s\<lparr>pendingTaskCountMax := value\<rparr>"

definition setExpireCallback :: "bool \<Rightarrow> 'r tm \<Rightarrow> 'r tm" where
  "setExpireCallback cb s = s\<lparr>expireCallback := cb\<rparr>"

definition canSleep :: "nat \<Rightarrow> 'r tm \<Rightarrow> bool" where
  "canSleep tid s \<longleftrightarrow> tid \<notin> idMap s"

section \<open>Tasks\<close>

text \<open>The loop of \<^verbatim>\<open>removeExpiredTasks\<close>: the tasks it drops and those it leaves.\<close>

fun split_expired :: "int \<Rightarrow> 'r task list \<Rightarrow> 'r task list \<times> 'r task list" where
  "split_expired now [] = ([], [])"
| "split_expired now (t # ts) =
     (if expireTime t = 0 then ([], t # ts)
      else if expireTime t > now then ([], t # ts)
      else (case split_expired now ts of (es, rest) \<Rightarrow> (t # es, rest)))"

definition removeExpiredTasks :: "int \<Rightarrow> 'r tm \<Rightarrow> 'r tm \<times> 'r event list" where
  "removeExpiredTasks now s =
     (case split_expired now (tasks s) of (es, rest) \<Rightarrow>
       (s\<lparr>tasks := rest, expiredCount := expiredCount s + length es\<rparr>,
        concat (map (\<lambda>t. (if expireCallback s then [Callback (runnable t)] else []) @ [Expired t]) es)))"

text \<open>\<^verbatim>\<open>Task::run\<close> of a task taken by a worker, when the runnable returns.\<close>

definition task_run :: "'r task \<Rightarrow> 'r task" where
  "task_run t = (if task_state t = EXECUTING then t\<lparr>task_state := COMPLETE\<rparr> else t)"

section \<open>Workers\<close>

definition isActive :: "'r tm \<Rightarrow> bool" where
  "isActive s \<longleftrightarrow> workerCount s \<le> workerMaxCount s \<or> (tm_state s = TM_JOINING \<and> tasks s \<noteq> [])"

text \<open>The first section of \<^verbatim>\<open>Worker::run\<close>.\<close>

definition worker_entry :: "nat \<Rightarrow> 'r tm \<Rightarrow> 'r tm" where
  "worker_entry w s =
     (if workerCount s < workerMaxCount s
      then s\<lparr>workerCount := workerCount s + 1, pc := (pc s)(w := W_Loop)\<rparr>
      else s\<lparr>pc := (pc s)(w := W_Leaving)\<rparr>)"

text \<open>
  The section of the loop: wait, or take a task, or leave. \<open>room_made\<close> says whether the threads
  blocked in \<^verbatim>\<open>add\<close> are notified.
\<close>

definition worker_take :: "int \<Rightarrow> nat \<Rightarrow> 'r tm \<Rightarrow> 'r tm \<times> 'r event list \<times> bool" where
  "worker_take now w s =
     (case removeExpiredTasks now s of (s1, evs) \<Rightarrow>
       (case tasks s1 of
          [] \<Rightarrow> (s1\<lparr>pc := (pc s1)(w := W_Run None)\<rparr>, evs, False)
        | t # ts \<Rightarrow>
            let t' = (if task_state t = WAITING then t\<lparr>task_state := EXECUTING\<rparr> else t);
                s2 = s1\<lparr>tasks := ts, pc := (pc s1)(w := W_Run (Some t'))\<rparr> in
            (s2, evs @ [Taken w t],
             pendingTaskCountMax s2 \<noteq> 0 \<and> length (tasks s2) \<le> pendingTaskCountMax s2 - 1)))"

definition worker_section :: "int \<Rightarrow> nat \<Rightarrow> 'r tm \<Rightarrow> 'r tm \<times> 'r event list \<times> bool" where
  "worker_section now w s =
     (if isActive s then
        if tasks s = []
        then (s\<lparr>idleCount := idleCount s + 1, pc := (pc s)(w := W_Waiting False)\<rparr>, [], False)
        else worker_take now w s
      else (s\<lparr>workerCount := workerCount s - 1, pc := (pc s)(w := W_Leaving)\<rparr>, [], False))"

text \<open>A worker that wakes up from \<^verbatim>\<open>wait\<close> goes on with the condition of the inner loop.\<close>

definition worker_wake :: "int \<Rightarrow> nat \<Rightarrow> 'r tm \<Rightarrow> 'r tm \<times> 'r event list \<times> bool" where
  "worker_wake now w s = worker_section now w (s\<lparr>idleCount := idleCount s - 1\<rparr>)"

text \<open>Running the task, outside the sections.\<close>

definition worker_execute :: "nat \<Rightarrow> 'r tm \<Rightarrow> 'r tm \<times> 'r event list" where
  "worker_execute w s =
     (s\<lparr>pc := (pc s)(w := W_Loop)\<rparr>,
      case pc s w of
        W_Run (Some t) \<Rightarrow> if task_state t = EXECUTING then [Ran w (task_run t)] else []
      | _ \<Rightarrow> [])"

definition worker_dead :: "nat \<Rightarrow> 'r tm \<Rightarrow> 'r tm" where
  "worker_dead w s = s\<lparr>deadWorkers := insert w (deadWorkers s), pc := (pc s)(w := W_Dead)\<rparr>"

section \<open>Notifications\<close>

text \<open>
  A notification of \<^verbatim>\<open>monitor_\<close> marks one worker that waits unmarked, if there is one; one of
  \<^verbatim>\<open>maxMonitor_\<close> a client blocked in \<^verbatim>\<open>add\<close>.
\<close>

inductive notify_worker :: "'r tm \<Rightarrow> 'r tm \<Rightarrow> bool" where
  notify_none: "(\<And>w. pc s w \<noteq> W_Waiting False) \<Longrightarrow> notify_worker s s"
| notify_some: "pc s w = W_Waiting False \<Longrightarrow> notify_worker s (s\<lparr>pc := (pc s)(w := W_Waiting True)\<rparr>)"

definition notify_all_workers :: "'r tm \<Rightarrow> 'r tm" where
  "notify_all_workers s =
     s\<lparr>pc := (\<lambda>w. if pc s w = W_Waiting False then W_Waiting True else pc s w)\<rparr>"

inductive notify_adder :: "'r tm \<Rightarrow> 'r tm \<Rightarrow> bool" where
  adder_none: "(\<And>c r i e. client s c \<noteq> C_AddWait False r i e) \<Longrightarrow> notify_adder s s"
| adder_some: "client s c = C_AddWait False r i e \<Longrightarrow>
    notify_adder s (s\<lparr>client := (client s)(c := C_AddWait True r i e)\<rparr>)"

definition notify_adder_if :: "bool \<Rightarrow> 'r tm \<Rightarrow> 'r tm \<Rightarrow> bool" where
  "notify_adder_if b s t \<longleftrightarrow> (if b then notify_adder s t else t = s)"

definition notify_worker_if :: "bool \<Rightarrow> 'r tm \<Rightarrow> 'r tm \<Rightarrow> bool" where
  "notify_worker_if b s t \<longleftrightarrow> (if b then notify_worker s t else t = s)"

section \<open>Clients\<close>

text \<open>\<^verbatim>\<open>addWorker\<close>: the section that counts the new threads, then one start after another.\<close>

definition addWorker_section :: "nat \<Rightarrow> nat list \<Rightarrow> 'r tm \<Rightarrow> 'r tm" where
  "addWorker_section c ws s =
     s\<lparr>workerMaxCount := workerMaxCount s + length ws, workers := workers s \<union> set ws,
       pc := (\<lambda>w. if w \<in> set ws then W_Created else pc s w),
       client := (client s)(c := C_StartThreads ws)\<rparr>"

definition addWorker_start :: "nat \<Rightarrow> 'r tm \<Rightarrow> 'r tm" where
  "addWorker_start c s =
     (case client s c of
        C_StartThreads [] \<Rightarrow> s\<lparr>client := (client s)(c := C_AddWorkerWait)\<rparr>
      | C_StartThreads (w # ws) \<Rightarrow>
          s\<lparr>pc := (pc s)(w := W_Entry), client := (client s)(c := C_Register w ws)\<rparr>
      | C_Register w ws \<Rightarrow>
          s\<lparr>idMap := insert w (idMap s), client := (client s)(c := C_StartThreads ws)\<rparr>
      | _ \<Rightarrow> s)"

definition tm_start :: "'r tm \<Rightarrow> (conc_exc + unit) \<times> 'r tm" where
  "tm_start s =
     (if tm_state s = TM_STOPPED then (Inr (), s)
      else if tm_state s = TM_UNINITIALIZED then
        if \<not> threadFactory s then (Inl InvalidArgumentException, s)
        else (Inr (), notify_all_workers (s\<lparr>tm_state := TM_STARTED\<rparr>))
      else (Inr (), s))"

text \<open>\<^verbatim>\<open>stopImpl\<close>: the first section, and the last.\<close>

definition stop_section :: "nat \<Rightarrow> bool \<Rightarrow> 'r tm \<Rightarrow> 'r tm" where
  "stop_section c join s =
     (if tm_state s = TM_STOPPED then s
      else if tm_state s \<noteq> TM_STOPPING \<and> tm_state s \<noteq> TM_JOINING
      then s\<lparr>tm_state := (if join then TM_JOINING else TM_STOPPING),
             client := (client s)(c := C_StopRemove)\<rparr>
      else s\<lparr>client := (client s)(c := C_StopEnd)\<rparr>)"

definition stop_end :: "nat \<Rightarrow> 'r tm \<Rightarrow> 'r tm" where
  "stop_end c s = s\<lparr>tm_state := TM_STOPPED, client := (client s)(c := C_Idle)\<rparr>"

text \<open>
  \<^verbatim>\<open>removeWorker\<close>: the section that lowers the maximum and the notifications it gives, and the
  section after the wait that forgets the dead threads.
\<close>

definition removeWorker_section :: "nat \<Rightarrow> 'r tm \<Rightarrow> conc_exc + 'r tm" where
  "removeWorker_section value s =
     (if value > workerMaxCount s then Inl InvalidArgumentException
      else Inr (s\<lparr>workerMaxCount := workerMaxCount s - value\<rparr>))"

definition removeWorker_notifies :: "nat \<Rightarrow> 'r tm \<Rightarrow> 'r tm \<Rightarrow> bool" where
  "removeWorker_notifies value s t \<longleftrightarrow>
     (if idleCount s < value then (notify_worker ^^ idleCount s) s t else t = notify_all_workers s)"

definition removeWorker_end :: "nat \<Rightarrow> 'r tm \<Rightarrow> 'r tm" where
  "removeWorker_end c s =
     s\<lparr>workers := workers s - deadWorkers s, idMap := idMap s - deadWorkers s, deadWorkers := {},
       client := (client s)(c := (if client s c = C_RemoveWait True then C_StopEnd else C_Idle))\<rparr>"

text \<open>
  \<^verbatim>\<open>add\<close> up to the wait on \<^verbatim>\<open>maxMonitor_\<close>, and the push after it. The second result says
  whether the call has to wait.
\<close>

definition add_push :: "int \<Rightarrow> nat \<Rightarrow> 'r \<Rightarrow> int \<Rightarrow> 'r tm \<Rightarrow> 'r tm \<times> 'r event list" where
  "add_push now c value expiration s =
     (s\<lparr>tasks := tasks s @ [new_Task now value expiration], client := (client s)(c := C_Idle)\<rparr>,
      [Pushed (new_Task now value expiration)])"

definition queue_full :: "'r tm \<Rightarrow> bool" where
  "queue_full s \<longleftrightarrow> pendingTaskCountMax s > 0 \<and> length (tasks s) \<ge> pendingTaskCountMax s"

datatype add_result = Add_Push | Add_Wait | Add_Throw conc_exc

definition add_section :: "bool \<Rightarrow> int \<Rightarrow> nat \<Rightarrow> int \<Rightarrow> 'r tm \<Rightarrow> add_result \<times> 'r tm \<times> 'r event list" where
  "add_section locked now c timeout s =
     (if \<not> locked then (Add_Throw TimedOutException, s, [])
      else if tm_state s \<noteq> TM_STARTED then (Add_Throw IllegalStateException, s, [])
      else
        case removeExpiredTasks now s of (s1, evs) \<Rightarrow>
          if queue_full s1 then
            if canSleep c s1 \<and> timeout \<ge> 0 then (Add_Wait, s1, evs)
            else (Add_Throw TooManyPendingTasksException, s1, evs)
          else (Add_Push, s1, evs))"

definition tm_remove :: "'r tm \<Rightarrow> conc_exc + unit" where
  "tm_remove s = (if tm_state s \<noteq> TM_STARTED then Inl IllegalStateException else Inr ())"

definition removeNextPending :: "'r tm \<Rightarrow> (conc_exc + 'r option) \<times> 'r tm \<times> 'r event list" where
  "removeNextPending s =
     (if tm_state s \<noteq> TM_STARTED then (Inl IllegalStateException, s, [])
      else
        case tasks s of
          [] \<Rightarrow> (Inr None, s, [])
        | t # ts \<Rightarrow> (Inr (Some (runnable t)), s\<lparr>tasks := ts\<rparr>, [Removed t]))"

section \<open>Steps\<close>

inductive tm_step :: "'r tm \<Rightarrow> 'r event list \<Rightarrow> 'r tm \<Rightarrow> bool" where
  step_entry: "pc s w = W_Entry \<Longrightarrow> tm_step s [] (worker_entry w s)"
| step_loop: "pc s w = W_Loop \<Longrightarrow> worker_section now w s = (t, es, room) \<Longrightarrow>
    notify_adder_if room t u \<Longrightarrow> tm_step s es u"
| step_wake: "pc s w = W_Waiting b \<Longrightarrow> worker_wake now w s = (t, es, room) \<Longrightarrow>
    notify_adder_if room t u \<Longrightarrow> tm_step s es u"
| step_execute: "pc s w = W_Run r \<Longrightarrow> worker_execute w s = (t, es) \<Longrightarrow> tm_step s es t"
| step_dead: "pc s w = W_Leaving \<Longrightarrow> tm_step s [] (worker_dead w s)"
| step_factory: "tm_step s [] (setThreadFactory s)"
| step_max: "tm_step s [] (setPendingTaskCountMax n s)"
| step_callback: "tm_step s [] (setExpireCallback cb s)"
| step_expired: "tm_step s [] (snd (expiredTaskCount s))"
| step_start: "tm_start s = (Inr (), t) \<Longrightarrow> tm_step s [] t"
| step_start_fails: "tm_start s = (Inl e, t) \<Longrightarrow> tm_step s [Threw c e] t"
| step_addWorker: "client s c = C_Idle \<Longrightarrow> distinct ws \<Longrightarrow> (\<And>w. w \<in> set ws \<Longrightarrow> pc s w = W_None) \<Longrightarrow>
    threadFactory s \<Longrightarrow> tm_step s [] (addWorker_section c ws s)"
| step_addWorker_start: "tm_step s [] (addWorker_start c s)"
| step_addWorker_end: "client s c = C_AddWorkerWait \<Longrightarrow> workerCount s = workerMaxCount s \<Longrightarrow>
    tm_step s [] (s\<lparr>client := (client s)(c := C_Idle)\<rparr>)"
| step_stop: "client s c = C_Idle \<Longrightarrow> tm_step s [] (stop_section c join s)"
| step_stop_read: "client s c = C_StopRemove \<Longrightarrow>
    tm_step s [] (s\<lparr>client := (client s)(c := C_StopRemoveOf (workerCount s))\<rparr>)"
| step_stop_remove: "client s c = C_StopRemoveOf n \<Longrightarrow> removeWorker_section n s = Inr t \<Longrightarrow>
    removeWorker_notifies n t u \<Longrightarrow> tm_step s [] (u\<lparr>client := (client u)(c := C_RemoveWait True)\<rparr>)"
| step_stop_remove_fails: "client s c = C_StopRemoveOf n \<Longrightarrow> removeWorker_section n s = Inl e \<Longrightarrow>
    tm_step s [Threw c e] (s\<lparr>client := (client s)(c := C_Idle)\<rparr>)"
| step_stop_end: "client s c = C_StopEnd \<Longrightarrow> tm_step s [] (stop_end c s)"
| step_remove_worker: "client s c = C_Idle \<Longrightarrow> removeWorker_section n s = Inr t \<Longrightarrow>
    removeWorker_notifies n t u \<Longrightarrow> tm_step s [] (u\<lparr>client := (client u)(c := C_RemoveWait False)\<rparr>)"
| step_remove_worker_fails: "client s c = C_Idle \<Longrightarrow> removeWorker_section n s = Inl e \<Longrightarrow>
    tm_step s [Threw c e] s"
| step_remove_end: "client s c = C_RemoveWait b \<Longrightarrow> workerCount s = workerMaxCount s \<Longrightarrow>
    tm_step s [] (removeWorker_end c s)"
| step_add_push: "client s c = C_Idle \<Longrightarrow> add_section l now c timeout s = (Add_Push, t, es) \<Longrightarrow>
    add_push now c value expiration t = (u, fs) \<Longrightarrow> notify_worker_if (idleCount u > 0) u v \<Longrightarrow>
    tm_step s (es @ fs) v"
| step_add_wait: "client s c = C_Idle \<Longrightarrow> add_section l now c timeout s = (Add_Wait, t, es) \<Longrightarrow>
    tm_step s es (t\<lparr>client := (client t)(c := C_AddWait False value timeout expiration)\<rparr>)"
| step_add_throw: "client s c = C_Idle \<Longrightarrow> add_section l now c timeout s = (Add_Throw e, t, es) \<Longrightarrow>
    tm_step s (es @ [Threw c e]) t"
| step_add_again: "client s c = C_AddWait b value timeout expiration \<Longrightarrow> queue_full s \<Longrightarrow>
    tm_step s [] (s\<lparr>client := (client s)(c := C_AddWait False value timeout expiration)\<rparr>)"
| step_add_resume: "client s c = C_AddWait b value timeout expiration \<Longrightarrow> \<not> queue_full s \<Longrightarrow>
    add_push now c value expiration s = (u, fs) \<Longrightarrow> notify_worker_if (idleCount u > 0) u v \<Longrightarrow>
    tm_step s fs v"
| step_add_timeout: "client s c = C_AddWait b value timeout expiration \<Longrightarrow> timeout > 0 \<Longrightarrow>
    tm_step s [Threw c TimedOutException] (s\<lparr>client := (client s)(c := C_Idle)\<rparr>)"
| step_remove: "tm_remove s = Inl e \<Longrightarrow> tm_step s [Threw c e] s"
| step_next: "removeNextPending s = (r, t, es) \<Longrightarrow> tm_step s es t"

end
