(* ===== verification/ThreadManagerInv.thy ===== *)
theory ThreadManagerInv
  imports ThreadManager
begin

text \<open>
  What holds in every run of a thread manager, under any interleaving of its workers and clients:
  the counters are numbers of workers at program points, no wake-up of a worker is lost, and the
  queue hands out the tasks in the order in which they came, each of them once.
\<close>

section \<open>Counting the workers at program points\<close>


fun counted :: "'r wpc \<Rightarrow> bool" where
  "counted W_Loop = True"
| "counted (W_Waiting b) = True"
| "counted (W_Run t) = True"
| "counted p = False"

fun waiting :: "'r wpc \<Rightarrow> bool" where
  "waiting (W_Waiting b) = True"
| "waiting p = False"

definition acc :: "(nat \<Rightarrow> 'r wpc) \<Rightarrow> nat \<Rightarrow> nat \<Rightarrow> bool" where
  "acc f n i \<longleftrightarrow> finite {w. counted (f w)} \<and> n = card {w. counted (f w)} \<and> i = card {w. waiting (f w)}"

lemma waiting_counted: "waiting p \<Longrightarrow> counted p"
  by (cases p) simp_all

lemma card_upd:
  fixes f :: "nat \<Rightarrow> 'b"
  assumes "finite {v. P (f v)}"
  shows "\<not> P (f w) \<Longrightarrow> P x \<Longrightarrow> card {v. P ((f(w := x)) v)} = card {v. P (f v)} + 1"
    and "P (f w) \<Longrightarrow> \<not> P x \<Longrightarrow> card {v. P ((f(w := x)) v)} + 1 = card {v. P (f v)}"
    and "P (f w) = P x \<Longrightarrow> {v. P ((f(w := x)) v)} = {v. P (f v)}"
    and "finite {v. P ((f(w := x)) v)}"
proof -
  show "card {v. P ((f(w := x)) v)} = card {v. P (f v)} + 1" if "\<not> P (f w)" "P x"
  proof -
    have "{v. P ((f(w := x)) v)} = insert w {v. P (f v)}" using that by auto
    with that assms show ?thesis by simp
  qed
  show "card {v. P ((f(w := x)) v)} + 1 = card {v. P (f v)}" if "P (f w)" "\<not> P x"
  proof -
    have "{v. P (f v)} = insert w {v. P ((f(w := x)) v)}" using that by auto
    moreover have "finite {v. P ((f(w := x)) v)}" using that assms by (auto elim: rev_finite_subset)
    ultimately show ?thesis using that by simp
  qed
  show "{v. P ((f(w := x)) v)} = {v. P (f v)}" if "P (f w) = P x" using that by auto
  show "finite {v. P ((f(w := x)) v)}"
    by (rule finite_subset [of _ "insert w {v. P (f v)}"]) (use assms in auto)
qed

lemma acc_finite: "acc f n i \<Longrightarrow> finite {w. counted (f w)} \<and> finite {w. waiting (f w)}"
  unfolding acc_def by (auto elim: rev_finite_subset intro: waiting_counted)

lemma acc_upd:
  assumes "acc f n i"
  shows "counted (f w) = counted x \<Longrightarrow> waiting (f w) = waiting x \<Longrightarrow> acc (f(w := x)) n i"
    and "\<not> counted (f w) \<Longrightarrow> counted x \<Longrightarrow> \<not> waiting x \<Longrightarrow> acc (f(w := x)) (n + 1) i"
    and "counted (f w) \<Longrightarrow> \<not> waiting (f w) \<Longrightarrow> \<not> counted x \<Longrightarrow> acc (f(w := x)) (n - 1) i"
    and "counted (f w) \<Longrightarrow> \<not> waiting (f w) \<Longrightarrow> waiting x \<Longrightarrow> acc (f(w := x)) n (i + 1)"
    and "waiting (f w) \<Longrightarrow> counted x \<Longrightarrow> \<not> waiting x \<Longrightarrow> acc (f(w := x)) n (i - 1)"
    and "counted (f w) \<Longrightarrow> 0 < n" and "waiting (f w) \<Longrightarrow> 0 < i"
proof -
  note fin = acc_finite [OF assms, THEN conjunct1] acc_finite [OF assms, THEN conjunct2]
  note C = card_upd [where P = counted, OF fin(1), of w x] and W = card_upd [where P = waiting, OF fin(2), of w x]
  note nw = waiting_counted [of x] waiting_counted [of "f w"]
  show "counted (f w) = counted x \<Longrightarrow> waiting (f w) = waiting x \<Longrightarrow> acc (f(w := x)) n i"
    using assms C(3,4) W(3) unfolding acc_def by (simp del: fun_upd_apply)
  show "acc (f(w := x)) (n + 1) i" if "\<not> counted (f w)" "counted x" "\<not> waiting x"
  proof -
    have "waiting (f w) = waiting x" using nw(2) that by blast
    from W(3) [OF this] that show ?thesis using assms C(1,4) unfolding acc_def by (simp del: fun_upd_apply)
  qed
  show "acc (f(w := x)) (n - 1) i" if "counted (f w)" "\<not> waiting (f w)" "\<not> counted x"
  proof -
    have "waiting (f w) = waiting x" using nw(1) that by blast
    from W(3) [OF this] C(2) that show ?thesis using assms C(4) unfolding acc_def by (simp del: fun_upd_apply)
  qed
  show "counted (f w) \<Longrightarrow> \<not> waiting (f w) \<Longrightarrow> waiting x \<Longrightarrow> acc (f(w := x)) n (i + 1)"
    using assms C(3,4) W(1) nw unfolding acc_def by (simp del: fun_upd_apply)
  show "waiting (f w) \<Longrightarrow> counted x \<Longrightarrow> \<not> waiting x \<Longrightarrow> acc (f(w := x)) n (i - 1)"
    using assms C(3,4) W(2) nw unfolding acc_def by (auto simp del: fun_upd_apply)
  show "counted (f w) \<Longrightarrow> 0 < n" using assms fin(1) unfolding acc_def by (auto simp: card_gt_0_iff)
  show "waiting (f w) \<Longrightarrow> 0 < i" using assms fin(2) unfolding acc_def by (auto simp: card_gt_0_iff)
qed

text \<open>Two assignments of program points with the same counted and waiting workers.\<close>

lemma acc_same: "acc f n i \<Longrightarrow> (\<And>w. counted (g w) = counted (f w) \<and> waiting (g w) = waiting (f w)) \<Longrightarrow> acc g n i"
  by (simp add: acc_def)

definition accounted :: "'r tm \<Rightarrow> bool" where
  "accounted s \<longleftrightarrow> acc (pc s) (workerCount s) (idleCount s)"

fun to_start :: "'r cpc \<Rightarrow> nat list" where
  "to_start (C_StartThreads ws) = ws"
| "to_start (C_Register w ws) = ws"
| "to_start p = []"

definition starts_ok :: "'r tm \<Rightarrow> bool" where
  "starts_ok s \<longleftrightarrow>
     (\<forall>c. distinct (to_start (client s c))) \<and>
     (\<forall>c. \<forall>w \<in> set (to_start (client s c)). pc s w = W_Created) \<and>
     (\<forall>c d. c \<noteq> d \<longrightarrow> set (to_start (client s c)) \<inter> set (to_start (client s d)) = {})"

text \<open>
  No wake-up is lost: while there are more workers than wanted, none of them sleeps unmarked; and
  while there are tasks and a worker sleeps unmarked, some other worker is going to look at them.
\<close>

definition marked_when_over :: "'r tm \<Rightarrow> bool" where
  "marked_when_over s \<longleftrightarrow> (workerMaxCount s < workerCount s \<longrightarrow> (\<forall>w. pc s w \<noteq> W_Waiting False))"

definition someone_awake :: "'r tm \<Rightarrow> bool" where
  "someone_awake s \<longleftrightarrow> (tasks s \<noteq> [] \<longrightarrow> (\<exists>w. pc s w = W_Waiting False) \<longrightarrow>
     (\<exists>w. counted (pc s w) \<and> pc s w \<noteq> W_Waiting False))"

definition tm_inv :: "'r tm \<Rightarrow> bool" where
  "tm_inv s \<longleftrightarrow> accounted s \<and> starts_ok s \<and> marked_when_over s \<and> someone_awake s"

lemma starts_okD:
  assumes "starts_ok s"
  shows "distinct (to_start (client s c))" and "w \<in> set (to_start (client s c)) \<Longrightarrow> pc s w = W_Created"
    and "c \<noteq> d \<Longrightarrow> w \<in> set (to_start (client s c)) \<Longrightarrow> w \<notin> set (to_start (client s d))"
  using assms unfolding starts_ok_def by blast+

lemma starts_okI:
  assumes "\<And>c. distinct (to_start (client s c))" and "\<And>c w. w \<in> set (to_start (client s c)) \<Longrightarrow> pc s w = W_Created"
    and "\<And>c d w. c \<noteq> d \<Longrightarrow> w \<in> set (to_start (client s c)) \<Longrightarrow> w \<notin> set (to_start (client s d))"
  shows "starts_ok s"
  using assms unfolding starts_ok_def by blast

lemma starts_ok_pc:
  assumes "starts_ok s" and "\<And>c. to_start (client t c) = to_start (client s c)"
    and "\<And>w. pc s w = W_Created \<Longrightarrow> pc t w = W_Created"
  shows "starts_ok t"
  using assms unfolding starts_ok_def by (auto simp del: to_start.simps)

lemma removeExpired_fields:
  assumes "removeExpiredTasks now s = (t, es)"
  shows "pc t = pc s" "client t = client s" "workerCount t = workerCount s" "idleCount t = idleCount s"
    "workerMaxCount t = workerMaxCount s" "pendingTaskCountMax t = pendingTaskCountMax s" "tm_state t = tm_state s"
    "idMap t = idMap s" "length (tasks t) \<le> length (tasks s)"
proof -
  have "length r \<le> length ts" if "split_expired now ts = (e, r)" for ts e and r :: "'a task list"
    using that by (induction ts arbitrary: e r) (auto split: if_splits prod.splits)
  then show "length (tasks t) \<le> length (tasks s)"
    using assms by (auto simp: removeExpiredTasks_def split: prod.splits)
qed (use assms in \<open>auto simp: removeExpiredTasks_def split: prod.splits\<close>)

text \<open>The outcome of a worker's section.\<close>

lemma worker_section_pc:
  assumes "worker_section now w s = (t, es, room)"
  obtains x where "pc t = (pc s)(w := x)" and "client t = client s" and "workerMaxCount t = workerMaxCount s"
    and "waiting x \<and> workerCount t = workerCount s \<and> idleCount t = idleCount s + 1 \<and> tasks t = [] \<and> isActive s \<and> tasks s = [] \<or>
      counted x \<and> \<not> waiting x \<and> workerCount t = workerCount s \<and> idleCount t = idleCount s \<or>
      x = W_Leaving \<and> workerCount t = workerCount s - 1 \<and> idleCount t = idleCount s \<and> \<not> isActive s"
proof -
  obtain s1 evs where r: "removeExpiredTasks now s = (s1, evs)" by fastforce
  note f = removeExpired_fields [OF r]
  show ?thesis
  proof (cases "isActive s \<and> tasks s \<noteq> []")
    case True
    then have "worker_take now w s = (t, es, room)" using assms by (simp add: worker_section_def)
    then have "pc t = (pc s)(w := pc t w) \<and> counted (pc t w) \<and> \<not> waiting (pc t w) \<and> client t = client s \<and>
        workerMaxCount t = workerMaxCount s \<and> workerCount t = workerCount s \<and> idleCount t = idleCount s"
      using f(1-5) by (auto simp: worker_take_def Let_def r split: list.splits)
    with that show ?thesis by blast
  next
    case False
    then show ?thesis
      using assms that [of "W_Waiting False"] that [of W_Leaving]
      by (auto simp: worker_section_def split: if_splits)
  qed
qed

lemma notify_adder_if_fields:
  assumes "notify_adder_if b s t"
  shows "pc t = pc s" "workerCount t = workerCount s" "idleCount t = idleCount s" "tasks t = tasks s"
    "workerMaxCount t = workerMaxCount s" "tm_state t = tm_state s" "pendingTaskCountMax t = pendingTaskCountMax s"
    "to_start (client t c) = to_start (client s c)"
  using assms by (auto simp: notify_adder_if_def notify_adder.simps split: if_splits)

lemma notify_worker_fields:
  assumes "notify_worker s t"
  shows "client t = client s" "workerCount t = workerCount s" "idleCount t = idleCount s" "tasks t = tasks s"
    "workerMaxCount t = workerMaxCount s" "tm_state t = tm_state s" "pendingTaskCountMax t = pendingTaskCountMax s"
    "counted (pc t w) = counted (pc s w) \<and> waiting (pc t w) = waiting (pc s w)"
    "pc s w = W_Created \<Longrightarrow> pc t w = W_Created"
  using assms by (auto simp: notify_worker.simps split: if_splits)

lemma notify_worker_if_fields:
  assumes "notify_worker_if b s t"
  shows "client t = client s" "workerCount t = workerCount s" "idleCount t = idleCount s" "tasks t = tasks s"
    "workerMaxCount t = workerMaxCount s" "tm_state t = tm_state s" "pendingTaskCountMax t = pendingTaskCountMax s"
    "counted (pc t w) = counted (pc s w) \<and> waiting (pc t w) = waiting (pc s w)"
    "pc s w = W_Created \<Longrightarrow> pc t w = W_Created"
  using assms notify_worker_fields [of s t] by (auto simp: notify_worker_if_def split: if_splits)


lemma tm_inv_frame:
  assumes "tm_inv s" and "pc t = pc s" and "workerCount t = workerCount s" and "idleCount t = idleCount s"
    and "workerMaxCount s \<le> workerMaxCount t" and "tasks s = [] \<Longrightarrow> tasks t = []"
    and "\<And>c. to_start (client t c) = to_start (client s c)"
  shows "tm_inv t"
proof -
  have "starts_ok t" using assms starts_ok_pc [of s t] by (simp add: tm_inv_def)
  with assms show ?thesis
    by (auto simp: tm_inv_def accounted_def marked_when_over_def someone_awake_def)
qed

lemma tm_invD:
  assumes "tm_inv s"
  shows "acc (pc s) (workerCount s) (idleCount s)" and "starts_ok s"
    and "workerMaxCount s < workerCount s \<Longrightarrow> pc s w \<noteq> W_Waiting False"
    and "tasks s \<noteq> [] \<Longrightarrow> pc s w = W_Waiting False \<Longrightarrow> \<exists>v. counted (pc s v) \<and> pc s v \<noteq> W_Waiting False"
  using assms by (auto simp: tm_inv_def accounted_def marked_when_over_def someone_awake_def)

lemma not_created_counted: "counted p \<Longrightarrow> p \<noteq> W_Created"
  by (cases p) simp_all

text \<open>One worker moves.\<close>

lemma tm_inv_move:
  assumes s: "tm_inv s" and pc: "pc t = (pc s)(w := x)" "pc s w \<noteq> W_Created"
    and c: "\<And>c. to_start (client t c) = to_start (client s c)"
    and acc: "acc (pc t) (workerCount t) (idleCount t)"
    and over: "workerMaxCount t < workerCount t \<Longrightarrow> x \<noteq> W_Waiting False \<and> workerMaxCount s < workerCount s"
    and awake: "tasks t \<noteq> [] \<Longrightarrow> counted x \<and> x \<noteq> W_Waiting False \<or> workerMaxCount s < workerCount s \<and> x \<noteq> W_Waiting False \<or>
      \<not> counted (pc s w) \<and> x \<noteq> W_Waiting False \<and> tasks s \<noteq> []"
  shows "tm_inv t"
proof -
  have "starts_ok t"
    using tm_invD(2) [OF s] c pc by (intro starts_ok_pc [of s t]) auto
  moreover have "marked_when_over t"
    using over tm_invD(3) [OF s] pc unfolding marked_when_over_def by (auto split: if_splits)
  moreover have "someone_awake t"
    unfolding someone_awake_def
  proof (intro impI, elim exE)
    fix v
    assume ne: "tasks t \<noteq> []" and v: "pc t v = W_Waiting False"
    from awake [OF ne] show "\<exists>w. counted (pc t w) \<and> pc t w \<noteq> W_Waiting False"
    proof (elim disjE)
      assume "counted x \<and> x \<noteq> W_Waiting False"
      then show ?thesis using pc by (intro exI [of _ w]) simp
    next
      assume "workerMaxCount s < workerCount s \<and> x \<noteq> W_Waiting False"
      then show ?thesis using v pc tm_invD(3) [OF s, of v] by (auto split: if_splits)
    next
      assume q: "\<not> counted (pc s w) \<and> x \<noteq> W_Waiting False \<and> tasks s \<noteq> []"
      then have "pc s v = W_Waiting False" using v pc by (auto split: if_splits)
      from tm_invD(4) [OF s _ this] q obtain u where "counted (pc s u)" "pc s u \<noteq> W_Waiting False" by blast
      with q pc show ?thesis by (intro exI [of _ u]) auto
    qed
  qed
  ultimately show ?thesis using acc by (simp add: tm_inv_def accounted_def)
qed

lemma tm_inv_section:
  assumes s: "tm_inv s" and w: "counted (pc s w)" and m: "acc ((pc s)(w := W_Loop)) (workerCount s) j"
    and sec: "worker_section now w (s\<lparr>idleCount := j\<rparr>) = (t, es, room)"
  shows "tm_inv t"
  using sec
proof (rule worker_section_pc)
  fix x
  assume pc: "pc t = (pc (s\<lparr>idleCount := j\<rparr>))(w := x)" and c: "client t = client (s\<lparr>idleCount := j\<rparr>)"
    and mx: "workerMaxCount t = workerMaxCount (s\<lparr>idleCount := j\<rparr>)"
    and x: "waiting x \<and> workerCount t = workerCount (s\<lparr>idleCount := j\<rparr>) \<and> idleCount t = idleCount (s\<lparr>idleCount := j\<rparr>) + 1 \<and>
        tasks t = [] \<and> isActive (s\<lparr>idleCount := j\<rparr>) \<and> tasks (s\<lparr>idleCount := j\<rparr>) = [] \<or>
      counted x \<and> \<not> waiting x \<and> workerCount t = workerCount (s\<lparr>idleCount := j\<rparr>) \<and> idleCount t = idleCount (s\<lparr>idleCount := j\<rparr>) \<or>
      x = W_Leaving \<and> workerCount t = workerCount (s\<lparr>idleCount := j\<rparr>) - 1 \<and> idleCount t = idleCount (s\<lparr>idleCount := j\<rparr>) \<and>
        \<not> isActive (s\<lparr>idleCount := j\<rparr>)"
  have pc': "pc t = (pc s)(w := x)" "pc t = ((pc s)(w := W_Loop))(w := x)" using pc by simp_all
  have c': "\<And>c. to_start (client t c) = to_start (client s c)" using c by simp
  show ?thesis
  proof (rule tm_inv_move [OF s pc'(1) not_created_counted [OF w] c'])
    show "acc (pc t) (workerCount t) (idleCount t)"
      unfolding pc'(2) using x acc_upd(1,3,4) [OF m, of w x] waiting_counted [of x] by auto
  qed (use x mx in \<open>auto simp: isActive_def\<close>)
qed

lemma notify_worker_inv:
  assumes "notify_worker s t" and "acc (pc s) (workerCount s) (idleCount s)" and "starts_ok s" and "marked_when_over s"
  shows "acc (pc t) (workerCount t) (idleCount t)" and "starts_ok t" and "marked_when_over t" and "someone_awake t"
proof -
  note f = notify_worker_fields [OF assms(1)]
  show "acc (pc t) (workerCount t) (idleCount t)" using assms(2) f by (auto intro: acc_same)
  show "starts_ok t" using assms(3) f by (auto intro: starts_ok_pc)
  show "marked_when_over t" using assms(1,4) by (auto simp: notify_worker.simps marked_when_over_def split: if_splits)
  show "someone_awake t" using assms(1) by (auto simp: notify_worker.simps someone_awake_def)
qed

lemma notify_times_inv:
  assumes "(notify_worker ^^ n) s t"
  shows "(\<forall>c. client t c = client s c) \<and> workerCount t = workerCount s \<and> idleCount t = idleCount s \<and> tasks t = tasks s \<and>
    workerMaxCount t = workerMaxCount s \<and> tm_state t = tm_state s \<and> pendingTaskCountMax t = pendingTaskCountMax s \<and>
    (\<forall>w. counted (pc t w) = counted (pc s w) \<and> waiting (pc t w) = waiting (pc s w)) \<and>
    (\<forall>w. pc s w = W_Created \<longrightarrow> pc t w = W_Created)"
  using assms
proof (induction n arbitrary: s)
  case (Suc n)
  then obtain u where "notify_worker s u" "(notify_worker ^^ n) u t" by (meson relpowp_Suc_D2)
  with Suc.IH [of u] notify_worker_fields [of s u] show ?case by simp
qed simp

lemma notify_times_marks:
  assumes "(notify_worker ^^ n) s t" and "finite {w. pc s w = W_Waiting False}"
    and "card {w. pc s w = W_Waiting False} \<le> n"
  shows "pc t w \<noteq> W_Waiting False"
  using assms
proof (induction n arbitrary: s)
  case 0
  then show ?case by auto
next
  case (Suc n)
  then obtain u where u: "notify_worker s u" "(notify_worker ^^ n) u t" by (meson relpowp_Suc_D2)
  have "finite {w. pc u w = W_Waiting False} \<and> card {w. pc u w = W_Waiting False} \<le> n"
    using u(1)
  proof cases
    case notify_none
    then have e: "{w. pc u w = W_Waiting False} = {}" by auto
    show ?thesis unfolding e by simp
  next
    case (notify_some v)
    then have e: "{w. pc u w = W_Waiting False} = {w. pc s w = W_Waiting False} - {v}" by auto
    show ?thesis unfolding e using Suc.prems(2,3) notify_some by simp
  qed
  with Suc.IH [OF u(2)] show ?case by simp
qed

lemma removeWorker_inv:
  assumes s: "tm_inv s" and sec: "removeWorker_section n s = Inr t" and ntf: "removeWorker_notifies n t u"
    and c: "to_start (client s c) = []" "to_start p = []"
  shows "tm_inv (u\<lparr>client := (client u)(c := p)\<rparr>)"
proof -
  note acc = tm_invD(1) [OF s]
  have t: "pc t = pc s" "client t = client s" "workerCount t = workerCount s" "idleCount t = idleCount s" "tasks t = tasks s"
    using sec by (auto simp: removeWorker_section_def split: if_splits)
  have fin: "finite {w. waiting (pc s w)}" and i: "idleCount s = card {w. waiting (pc s w)}"
    using acc_finite [OF acc] acc by (simp_all add: acc_def)
  have sub: "{w. pc s w = W_Waiting False} \<subseteq> {w. waiting (pc s w)}" by auto
  have marks: "pc u w \<noteq> W_Waiting False" for w
    using ntf notify_times_marks [of "idleCount t" t u w] finite_subset [OF sub fin] card_mono [OF fin sub] i t
    by (auto simp: removeWorker_notifies_def notify_all_workers_def split: if_splits)
  have u: "(\<forall>c. client u c = client s c) \<and> workerCount u = workerCount s \<and> idleCount u = idleCount s \<and>
      (\<forall>w. counted (pc u w) = counted (pc s w) \<and> waiting (pc u w) = waiting (pc s w)) \<and>
      (\<forall>w. pc s w = W_Created \<longrightarrow> pc u w = W_Created)"
    using ntf notify_times_inv [of "idleCount t" t u] t
    by (auto simp: removeWorker_notifies_def notify_all_workers_def split: if_splits)
  have "acc (pc u) (workerCount u) (idleCount u)" using u acc by (auto intro: acc_same)
  moreover have "starts_ok (u\<lparr>client := (client u)(c := p)\<rparr>)"
    using u c by (intro starts_ok_pc [OF tm_invD(2) [OF s]]) auto
  ultimately show ?thesis using marks
    by (simp add: tm_inv_def accounted_def marked_when_over_def someone_awake_def)
qed


lemma tm_inv_push:
  assumes s: "tm_inv s" and p: "add_push now c value expiration s = (u, fs)"
    and c: "to_start (client s c) = []" and n: "notify_worker_if (idleCount u > 0) u v"
  shows "tm_inv v"
proof -
  have u: "pc u = pc s" "workerCount u = workerCount s" "idleCount u = idleCount s" "workerMaxCount u = workerMaxCount s"
      "client u = (client s)(c := C_Idle)"
    using p by (auto simp: add_push_def)
  have acc: "acc (pc u) (workerCount u) (idleCount u)" using tm_invD(1) [OF s] u by simp
  have st: "starts_ok u" using u c by (intro starts_ok_pc [OF tm_invD(2) [OF s]]) auto
  have mk: "marked_when_over u" using s u by (simp add: tm_inv_def marked_when_over_def)
  show ?thesis
  proof (cases "idleCount u > 0")
    case True
    with n have "notify_worker u v" by (simp add: notify_worker_if_def)
    from notify_worker_inv [OF this acc st mk] show ?thesis by (simp add: tm_inv_def accounted_def)
  next
    case False
    have "pc u w \<noteq> W_Waiting False" for w
      using acc_upd(7) [OF acc, of w] False by (cases "pc u w") auto
    with False n acc st mk show ?thesis
      by (simp add: notify_worker_if_def tm_inv_def accounted_def someone_awake_def)
  qed
qed

lemma someone_awake_keep:
  assumes "tm_inv s" and "tasks t = tasks s" and "\<And>w. pc t w = W_Waiting False \<Longrightarrow> pc s w = W_Waiting False"
    and "\<And>w. counted (pc s w) \<Longrightarrow> pc t w = pc s w"
  shows "someone_awake t"
  unfolding someone_awake_def
proof (intro impI, elim exE)
  fix v
  assume "tasks t \<noteq> []" "pc t v = W_Waiting False"
  with assms(2,3) tm_invD(4) [OF assms(1), of v] obtain u where "counted (pc s u)" "pc s u \<noteq> W_Waiting False" by auto
  with assms(4) show "\<exists>w. counted (pc t w) \<and> pc t w \<noteq> W_Waiting False" by (intro exI [of _ u]) simp
qed

lemma tm_inv_addWorker:
  assumes s: "tm_inv s" and c: "client s c = C_Idle" and ws: "distinct ws" "\<And>w. w \<in> set ws \<Longrightarrow> pc s w = W_None"
  shows "tm_inv (addWorker_section c ws s)"
proof -
  let ?t = "addWorker_section c ws s"
  have pc: "pc ?t w = (if w \<in> set ws then W_Created else pc s w)" for w by (simp add: addWorker_section_def)
  have "acc (pc ?t) (workerCount s) (idleCount s)"
    using tm_invD(1) [OF s] by (rule acc_same) (simp add: pc ws(2))
  moreover have "starts_ok ?t"
  proof -
    note st = starts_okD [OF tm_invD(2) [OF s]]
    have L: "to_start (client ?t d) = (if d = c then ws else to_start (client s d))" for d
      by (simp add: addWorker_section_def)
    have new: "w \<notin> set ws" if "w \<in> set (to_start (client s d))" for w d
      using st(2) [OF that] ws(2) [of w] by auto
    show ?thesis
    proof (rule starts_okI, unfold L pc)
      show "distinct (if d = c then ws else to_start (client s d))" for d using st(1) ws(1) by simp
      show "(if v \<in> set ws then W_Created else pc s v) = W_Created"
        if "v \<in> set (if d = c then ws else to_start (client s d))" for d v
        using that st(2) by (auto split: if_splits)
      show "v \<notin> set (if e = c then ws else to_start (client s e))"
        if "d \<noteq> e" "v \<in> set (if d = c then ws else to_start (client s d))" for d e v
        using that new st(3) by (cases "d = c"; cases "e = c") auto
    qed
  qed
  moreover have "marked_when_over ?t"
    using tm_invD(3) [OF s] unfolding marked_when_over_def pc by (auto simp: addWorker_section_def)
  moreover have "someone_awake ?t"
  proof (rule someone_awake_keep [OF s])
    show "tasks ?t = tasks s" by (simp add: addWorker_section_def)
    show "pc ?t w = W_Waiting False \<Longrightarrow> pc s w = W_Waiting False" for w by (auto simp: pc split: if_splits)
    show "counted (pc s w) \<Longrightarrow> pc ?t w = pc s w" for w using ws(2) [of w] by (auto simp: pc)
  qed
  ultimately show ?thesis by (simp add: tm_inv_def accounted_def addWorker_section_def)
qed

lemma tm_inv_start_thread:
  assumes s: "tm_inv s"
  shows "tm_inv (addWorker_start c s)"
proof (cases "client s c")
  case (C_StartThreads l)
  show ?thesis
  proof (cases l)
    case Nil
    show ?thesis
      by (rule tm_inv_frame [OF s]) (use C_StartThreads Nil in \<open>simp_all add: addWorker_start_def\<close>)
  next
    case (Cons w ws)
    let ?t = "addWorker_start c s"
    have t: "?t = s\<lparr>pc := (pc s)(w := W_Entry), client := (client s)(c := C_Register w ws)\<rparr>"
      using C_StartThreads Cons by (simp add: addWorker_start_def)
    note st = starts_okD [OF tm_invD(2) [OF s]]
    have l: "to_start (client s c) = w # ws" using C_StartThreads Cons by simp
    have w: "pc s w = W_Created" "w \<notin> set ws" "distinct ws" using st(1) [of c] st(2) [of w c] unfolding l by simp_all
    have L: "to_start (client ?t d) = (if d = c then ws else to_start (client s d))" for d by (simp add: t)
    have P: "pc ?t v = (if v = w then W_Entry else pc s v)" for v by (simp add: t)
    have other: "w \<notin> set (to_start (client s d))" if "d \<noteq> c" for d
      using st(3) [of c d w] that unfolding l by simp
    have "starts_ok ?t"
    proof (rule starts_okI, unfold L P)
      show "distinct (if d = c then ws else to_start (client s d))" for d using st(1) w(3) by simp
      show "(if v = w then W_Entry else pc s v) = W_Created"
        if "v \<in> set (if d = c then ws else to_start (client s d))" for d v
        using that st(2) [of v d] other [of d] w(2) l by (cases "d = c") auto
      show "v \<notin> set (if e = c then ws else to_start (client s e))"
        if "d \<noteq> e" "v \<in> set (if d = c then ws else to_start (client s d))" for d e v
        using that st(3) [of d e v] l by (cases "d = c"; cases "e = c") auto
    qed
    moreover have "acc (pc ?t) (workerCount s) (idleCount s)"
      using acc_upd(1) [OF tm_invD(1) [OF s], of w W_Entry] w by (simp add: t)
    moreover have "marked_when_over ?t"
      using tm_invD(3) [OF s] unfolding marked_when_over_def t by auto
    moreover have "someone_awake ?t"
      by (rule someone_awake_keep [OF s]) (use w(1) in \<open>auto simp: t split: if_splits\<close>)
    ultimately show ?thesis by (simp add: tm_inv_def accounted_def t)
  qed
next
  case (C_Register w ws)
  show ?thesis
    by (rule tm_inv_frame [OF s]) (use C_Register in \<open>simp_all add: addWorker_start_def\<close>)
qed (use s in \<open>simp_all add: addWorker_start_def\<close>)

lemma tm_inv_expired: "tm_inv s \<Longrightarrow> removeExpiredTasks now s = (t, es) \<Longrightarrow> tm_inv t"
  using removeExpired_fields [of now s t es] by (auto intro: tm_inv_frame)

lemma add_section_cases:
  assumes "add_section l now c timeout s = (r, t, es)"
  obtains "t = s" and "es = []" and "r = Add_Throw TimedOutException \<or> r = Add_Throw IllegalStateException"
  | "removeExpiredTasks now s = (t, es)" and "l" and "tm_state s = TM_STARTED"
      and "r = (if \<not> queue_full t then Add_Push else if canSleep c t \<and> timeout \<ge> 0 then Add_Wait
        else Add_Throw TooManyPendingTasksException)"
  using assms by (auto simp: add_section_def split: if_splits prod.splits)

lemma tm_inv_step: "tm_step s es t \<Longrightarrow> tm_inv s \<Longrightarrow> tm_inv t"
proof (induction rule: tm_step.induct)
  case (step_entry s w)
  note acc = tm_invD(1) [OF step_entry(2)]
  show ?case
    by (rule tm_inv_move [OF step_entry(2), of _ w "if workerCount s < workerMaxCount s then W_Loop else W_Leaving"])
      (use step_entry acc_upd(1,2) [OF acc, of w] in \<open>auto simp: worker_entry_def\<close>)
next
  case (step_loop s w now t es room u)
  note acc = tm_invD(1) [OF step_loop(4)]
  have "tm_inv t"
    by (rule tm_inv_section [OF step_loop(4), of w "idleCount s"])
      (use step_loop acc_upd(1) [OF acc, of w W_Loop] in simp_all)
  with notify_adder_if_fields [OF step_loop(3)] show ?case by (intro tm_inv_frame [of t u]) simp_all
next
  case (step_wake s w b now t es room u)
  note acc = tm_invD(1) [OF step_wake(4)]
  have "tm_inv t"
    by (rule tm_inv_section [OF step_wake(4), of w "idleCount s - 1"])
      (use step_wake acc_upd(5) [OF acc, of w W_Loop] in \<open>simp_all add: worker_wake_def\<close>)
  with notify_adder_if_fields [OF step_wake(3)] show ?case by (intro tm_inv_frame [of t u]) simp_all
next
  case (step_execute s w r t es)
  note acc = tm_invD(1) [OF step_execute(3)]
  show ?case
    by (rule tm_inv_move [OF step_execute(3), of t w W_Loop])
      (use step_execute acc_upd(1) [OF acc, of w W_Loop] tm_invD(3) [OF step_execute(3)] in
        \<open>auto simp: worker_execute_def\<close>)
next
  case (step_dead s w)
  note acc = tm_invD(1) [OF step_dead(2)]
  show ?case
    by (rule tm_inv_move [OF step_dead(2), of _ w W_Dead])
      (use step_dead acc_upd(1) [OF acc, of w W_Dead] in \<open>auto simp: worker_dead_def\<close>)
next
  case (step_factory s)
  then show ?case by (rule tm_inv_frame) (simp_all add: setThreadFactory_def)
next
  case (step_max n s)
  then show ?case by (rule tm_inv_frame) (simp_all add: setPendingTaskCountMax_def)
next
  case (step_callback cb s)
  then show ?case by (rule tm_inv_frame) (simp_all add: setExpireCallback_def)
next
  case (step_expired s)
  then show ?case by (rule tm_inv_frame) (simp_all add: expiredTaskCount_def)
next
  case (step_start s t)
  let ?u = "notify_all_workers (s\<lparr>tm_state := TM_STARTED\<rparr>)"
  have "acc (pc ?u) (workerCount s) (idleCount s)"
    using tm_invD(1) [OF step_start(2)] by (rule acc_same) (simp add: notify_all_workers_def)
  moreover have "starts_ok ?u"
    by (rule starts_ok_pc [OF tm_invD(2) [OF step_start(2)]]) (simp_all add: notify_all_workers_def)
  ultimately have "tm_inv ?u"
    unfolding tm_inv_def accounted_def marked_when_over_def someone_awake_def
    by (auto simp: notify_all_workers_def)
  with step_start show ?case by (auto simp: tm_start_def split: if_splits)
next
  case (step_start_fails s e t)
  then show ?case by (auto simp: tm_start_def split: if_splits)
next
  case (step_addWorker s c ws)
  then show ?case by (intro tm_inv_addWorker) auto
next
  case (step_addWorker_start s c)
  then show ?case by (rule tm_inv_start_thread)
next
  case (step_addWorker_end s c)
  from step_addWorker_end(3) show ?case by (rule tm_inv_frame) (simp_all add: step_addWorker_end)
next
  case (step_stop s c j)
  from step_stop(2) show ?case by (rule tm_inv_frame) (simp_all add: step_stop stop_section_def)
next
  case (step_stop_read s c)
  from step_stop_read(2) show ?case by (rule tm_inv_frame) (simp_all add: step_stop_read)
next
  case (step_stop_remove s c n t u)
  then show ?case by (intro removeWorker_inv [of s n t u]) auto
next
  case (step_stop_remove_fails s c n e)
  from step_stop_remove_fails(3) show ?case by (rule tm_inv_frame) (simp_all add: step_stop_remove_fails)
next
  case (step_stop_end s c)
  from step_stop_end(2) show ?case by (rule tm_inv_frame) (simp_all add: step_stop_end stop_end_def)
next
  case (step_remove_worker s c n t u)
  then show ?case by (intro removeWorker_inv [of s n t u]) auto
next
  case (step_remove_worker_fails s c n e)
  then show ?case by simp
next
  case (step_remove_end s c b)
  from step_remove_end(3) show ?case by (rule tm_inv_frame) (simp_all add: step_remove_end removeWorker_end_def)
next
  case (step_add_push s c l now timeout t es "value" expiration u fs v)
  from step_add_push(2) obtain r: "removeExpiredTasks now s = (t, es)"
    by (rule add_section_cases) (simp_all split: if_splits)
  with step_add_push show ?case
    using tm_inv_push [OF tm_inv_expired [OF _ r] step_add_push(3) _ step_add_push(4)] removeExpired_fields(2) [OF r] by simp
next
  case (step_add_wait s c l now timeout t es "value" expiration)
  from step_add_wait(2) obtain r: "removeExpiredTasks now s = (t, es)"
    by (rule add_section_cases) (simp_all split: if_splits)
  from tm_inv_expired [OF step_add_wait(3) r] show ?case
    by (rule tm_inv_frame) (use step_add_wait removeExpired_fields(2) [OF r] in simp_all)
next
  case (step_add_throw s c l now timeout e t es)
  from step_add_throw(2) show ?case
    by (rule add_section_cases) (use step_add_throw(3) tm_inv_expired in auto)
next
  case (step_add_again s c b "value" timeout expiration)
  from step_add_again(3) show ?case by (rule tm_inv_frame) (simp_all add: step_add_again)
next
  case (step_add_resume s c b "value" timeout expiration now u fs v)
  then show ?case by (intro tm_inv_push [of s now c "value" expiration u fs v]) simp_all
next
  case (step_add_timeout s c b "value" timeout expiration)
  from step_add_timeout(3) show ?case by (rule tm_inv_frame) (simp_all add: step_add_timeout)
next
  case (step_remove s e c)
  then show ?case by simp
next
  case (step_next s r t es)
  from step_next(2) show ?case
    by (rule tm_inv_frame) (use step_next(1) in \<open>auto simp: removeNextPending_def split: if_splits list.splits\<close>)
qed


section \<open>The tasks of a run\<close>

fun entered :: "'r event list \<Rightarrow> 'r task list" where
  "entered [] = []"
| "entered (Pushed t # es) = t # entered es"
| "entered (e # es) = entered es"

fun left_queue :: "'r event list \<Rightarrow> 'r task list" where
  "left_queue [] = []"
| "left_queue (Expired t # es) = t # left_queue es"
| "left_queue (Taken w t # es) = t # left_queue es"
| "left_queue (Removed t # es) = t # left_queue es"
| "left_queue (e # es) = left_queue es"

text \<open>The runnables that worker \<open>w\<close> has taken, that it has run, and the one it has in hand.\<close>

fun taken_by :: "nat \<Rightarrow> 'r event list \<Rightarrow> 'r list" where
  "taken_by w [] = []"
| "taken_by w (Taken v t # es) = (if v = w then runnable t # taken_by w es else taken_by w es)"
| "taken_by w (e # es) = taken_by w es"

fun ran_by :: "nat \<Rightarrow> 'r event list \<Rightarrow> 'r list" where
  "ran_by w [] = []"
| "ran_by w (Ran v t # es) = (if v = w then runnable t # ran_by w es else ran_by w es)"
| "ran_by w (e # es) = ran_by w es"

fun in_hand :: "'r wpc \<Rightarrow> 'r list" where
  "in_hand (W_Run (Some t)) = [runnable t]"
| "in_hand p = []"

lemma entered_append [simp]: "entered (es @ fs) = entered es @ entered fs"
  by (induction es rule: entered.induct) simp_all

lemma left_queue_append [simp]: "left_queue (es @ fs) = left_queue es @ left_queue fs"
  by (induction es rule: left_queue.induct) simp_all

lemma taken_by_append [simp]: "taken_by w (es @ fs) = taken_by w es @ taken_by w fs"
  by (induction w es rule: taken_by.induct) simp_all

lemma ran_by_append [simp]: "ran_by w (es @ fs) = ran_by w es @ ran_by w fs"
  by (induction w es rule: ran_by.induct) simp_all

definition tasks_ok :: "'r tm \<Rightarrow> bool" where
  "tasks_ok s \<longleftrightarrow> (\<forall>t \<in> set (tasks s). task_state t = WAITING) \<and>
     (\<forall>w t. pc s w = W_Run (Some t) \<longrightarrow> task_state t = EXECUTING)"

text \<open>What one step does to the queue and to the tasks in the hands of the workers.\<close>

definition task_flow :: "'r tm \<Rightarrow> 'r event list \<Rightarrow> 'r tm \<Rightarrow> bool" where
  "task_flow s es t \<longleftrightarrow> tasks s @ entered es = left_queue es @ tasks t \<and> tasks_ok t \<and>
     (\<forall>w. in_hand (pc s w) @ taken_by w es = ran_by w es @ in_hand (pc t w))"

lemma task_flow_same:
  "tasks_ok s \<Longrightarrow> tasks t = tasks s \<Longrightarrow>
   (\<And>w. in_hand (pc t w) = in_hand (pc s w)) \<Longrightarrow>
   (\<And>w r. pc t w = W_Run (Some r) \<Longrightarrow> pc s w = W_Run (Some r)) \<Longrightarrow>
   entered es = [] \<Longrightarrow> left_queue es = [] \<Longrightarrow> (\<And>w. taken_by w es = []) \<Longrightarrow> (\<And>w. ran_by w es = []) \<Longrightarrow> task_flow s es t"
  unfolding task_flow_def tasks_ok_def by (simp, blast)

lemma expired_flow:
  assumes "tasks_ok s" and "removeExpiredTasks now s = (t, es)"
  shows "entered es = []" and "tasks s = left_queue es @ tasks t" and "tasks_ok t" and "taken_by w es = []"
    and "ran_by w es = []"
proof -
  obtain d r where d: "split_expired now (tasks s) = (d, r)" by fastforce
  have split: "ts = e @ q" if "split_expired now ts = (e, q)" for ts e and q :: "'a task list"
    using that by (induction ts arbitrary: e q) (auto split: if_splits prod.splits)
  let ?f = "\<lambda>t. (if expireCallback s then [Callback (runnable t)] else []) @ [Expired t]"
  have ev: "entered (concat (map ?f xs)) = []" "left_queue (concat (map ?f xs)) = xs" "taken_by w (concat (map ?f xs)) = []"
    "ran_by w (concat (map ?f xs)) = []" for xs
    by (induction xs) auto
  show "entered es = []" "taken_by w es = []" "ran_by w es = []"
    using assms(2) d ev by (auto simp: removeExpiredTasks_def)
  show "tasks s = left_queue es @ tasks t"
  proof -
    have "es = concat (map ?f d)" "tasks t = r" using assms(2) d by (auto simp: removeExpiredTasks_def)
    then show ?thesis using split [OF d] by (simp only: ev(2))
  qed
  then show "tasks_ok t"
    using assms(1) removeExpired_fields [OF assms(2)] by (auto simp: tasks_ok_def)
qed

lemma section_flow:
  assumes s: "tasks_ok s" and w: "in_hand (pc s w) = []" and sec: "worker_section now w s = (t, es, room)"
  shows "task_flow s es t"
proof (cases "isActive s \<and> tasks s \<noteq> []")
  case False
  with sec s w show ?thesis
    by (auto simp: worker_section_def task_flow_def tasks_ok_def split: if_splits)
next
  case True
  then have take: "worker_take now w s = (t, es, room)" using sec by (simp add: worker_section_def)
  obtain s1 evs where r: "removeExpiredTasks now s = (s1, evs)" by fastforce
  note f = expired_flow [OF s r] and pc = removeExpired_fields(1) [OF r]
  show ?thesis
  proof (cases "tasks s1")
    case Nil
    with take r have "t = s1\<lparr>pc := (pc s1)(w := W_Run None)\<rparr>" "es = evs" by (simp_all add: worker_take_def)
    with f pc w Nil show ?thesis by (auto simp: task_flow_def tasks_ok_def)
  next
    case (Cons q ts)
    then have "task_state q = WAITING" using f(3) by (simp add: tasks_ok_def)
    with take r Cons have "t = s1\<lparr>tasks := ts, pc := (pc s1)(w := W_Run (Some (q\<lparr>task_state := EXECUTING\<rparr>)))\<rparr>"
        "es = evs @ [Taken w q]" by (simp_all add: worker_take_def Let_def)
    with f pc w Cons show ?thesis by (auto simp: task_flow_def tasks_ok_def)
  qed
qed

lemma notify_adder_if_flow: "notify_adder_if b t u \<Longrightarrow> task_flow s es t \<Longrightarrow> task_flow s es u"
  using notify_adder_if_fields [of b t u] by (simp add: task_flow_def tasks_ok_def)

lemma notify_worker_hands: "notify_worker s t \<Longrightarrow> in_hand (pc t w) = in_hand (pc s w) \<and>
    (pc t w = W_Run (Some r) \<longleftrightarrow> pc s w = W_Run (Some r))"
  by (auto simp: notify_worker.simps split: if_splits)

lemma notify_worker_if_flow: "notify_worker_if b t u \<Longrightarrow> task_flow s es t \<Longrightarrow> task_flow s es u"
  using notify_worker_hands [of t u] notify_worker_fields [of t u]
  by (auto simp: notify_worker_if_def task_flow_def tasks_ok_def split: if_splits)

lemma notify_times_hands: "(notify_worker ^^ n) s t \<Longrightarrow> in_hand (pc t w) = in_hand (pc s w) \<and>
    (pc t w = W_Run (Some r) \<longleftrightarrow> pc s w = W_Run (Some r))"
proof (induction n arbitrary: s)
  case (Suc n)
  then obtain u where "notify_worker s u" "(notify_worker ^^ n) u t" by (meson relpowp_Suc_D2)
  with Suc.IH [of u] notify_worker_hands [of s u w r] show ?case by simp
qed simp

lemma removeWorker_flow:
  assumes "tasks_ok s" and "removeWorker_section n s = Inr t" and "removeWorker_notifies n t u"
  shows "task_flow s [] (u\<lparr>client := f\<rparr>)"
proof -
  have t: "pc t = pc s" "tasks t = tasks s" using assms(2) by (auto simp: removeWorker_section_def split: if_splits)
  have "tasks u = tasks s \<and> (\<forall>w. in_hand (pc u w) = in_hand (pc s w)) \<and>
      (\<forall>w r. pc u w = W_Run (Some r) \<longrightarrow> pc s w = W_Run (Some r))"
    using assms(3) t notify_times_hands [of "idleCount t" t u] notify_times_inv [of "idleCount t" t u]
    by (auto simp: removeWorker_notifies_def notify_all_workers_def split: if_splits)
  with assms(1) show ?thesis by (intro task_flow_same) auto
qed

lemma push_flow:
  assumes "tasks_ok s" and "add_push now c value expiration s = (u, fs)"
  shows "task_flow s fs u"
  using assms by (auto simp: add_push_def task_flow_def tasks_ok_def new_Task_def)

lemma task_flow_trans: "task_flow s es t \<Longrightarrow> task_flow t fs u \<Longrightarrow> task_flow s (es @ fs) u"
  unfolding task_flow_def by (auto simp: append_assoc [symmetric] simp del: append_assoc) (metis append.assoc)+

lemma expired_task_flow: "tasks_ok s \<Longrightarrow> removeExpiredTasks now s = (t, es) \<Longrightarrow> task_flow s es t"
  using expired_flow [of s now t es] removeExpired_fields(1) [of now s t es] by (simp add: task_flow_def)

lemma tm_step_flow: "tm_step s es t \<Longrightarrow> tasks_ok s \<Longrightarrow> starts_ok s \<Longrightarrow> task_flow s es t"
proof (induction rule: tm_step.induct)
  case (step_loop s w now t es room u)
  then show ?case by (intro notify_adder_if_flow [OF step_loop(3)] section_flow) auto
next
  case (step_wake s w b now t es room u)
  then have "task_flow (s\<lparr>idleCount := idleCount s - 1\<rparr>) es t"
    by (intro section_flow [of _ w now t es room]) (auto simp: worker_wake_def tasks_ok_def)
  with step_wake show ?case by (intro notify_adder_if_flow [OF step_wake(3)]) (simp add: task_flow_def)
next
  case (step_execute s w r t es)
  then show ?case
    by (cases r) (auto simp: worker_execute_def task_flow_def tasks_ok_def task_run_def split: if_splits)
next
  case (step_start s t)
  then show ?case
    by (auto simp: tm_start_def notify_all_workers_def split: if_splits intro!: task_flow_same)
next
  case (step_addWorker s c ws)
  then show ?case
    by (intro task_flow_same) (auto simp: addWorker_section_def split: if_splits)
next
  case (step_addWorker_start s c)
  show ?case
  proof (cases "\<exists>w ws. client s c = C_StartThreads (w # ws)")
    case True
    then obtain w ws where c: "client s c = C_StartThreads (w # ws)" by blast
    then have "pc s w = W_Created" using starts_okD(2) [OF step_addWorker_start(2), of w c] by simp
    with c step_addWorker_start(1) show ?thesis
      by (intro task_flow_same) (auto simp: addWorker_start_def split: if_splits)
  next
    case False
    then show ?thesis
      using step_addWorker_start(1)
      by (intro task_flow_same) (auto simp: addWorker_start_def split: cpc.splits list.splits)
  qed
next
  case (step_stop_remove s c n t u)
  then show ?case by (intro removeWorker_flow)
next
  case (step_remove_worker s c n t u)
  then show ?case by (intro removeWorker_flow)
next
  case (step_add_push s c l now timeout t es "value" expiration u fs v)
  from step_add_push(2) obtain r: "removeExpiredTasks now s = (t, es)"
    by (rule add_section_cases) (simp_all split: if_splits)
  from expired_flow(3) [OF step_add_push(5) r] step_add_push(3) have "task_flow t fs u" by (rule push_flow)
  with step_add_push(4) have "task_flow t fs v" by (rule notify_worker_if_flow)
  with expired_task_flow [OF step_add_push(5) r] show ?case by (rule task_flow_trans)
next
  case (step_add_wait s c l now timeout t es "value" expiration)
  from step_add_wait(2) obtain r: "removeExpiredTasks now s = (t, es)"
    by (rule add_section_cases) (simp_all split: if_splits)
  from expired_task_flow [OF step_add_wait(3) r] show ?case by (simp add: task_flow_def tasks_ok_def)
next
  case (step_add_throw s c l now timeout e t es)
  have "task_flow s es t"
    using step_add_throw(2)
    by (rule add_section_cases) (use step_add_throw(3) expired_task_flow in \<open>auto intro: task_flow_same\<close>)
  then show ?case by (simp add: task_flow_def)
next
  case (step_add_resume s c b "value" timeout expiration now u fs v)
  then show ?case by (intro notify_worker_if_flow [OF step_add_resume(4)] push_flow)
next
  case (step_next s r t es)
  then show ?case
    by (auto simp: removeNextPending_def task_flow_def tasks_ok_def split: if_splits list.splits)
qed (auto intro!: task_flow_same simp: worker_entry_def worker_dead_def setThreadFactory_def setPendingTaskCountMax_def
    setExpireCallback_def expiredTaskCount_def stop_section_def stop_end_def removeWorker_end_def tm_start_def
    split: if_splits)


section \<open>Runs\<close>

lemma tm_inv_new: "tm_inv new_Impl" and tasks_ok_new: "tasks_ok new_Impl"
  by (simp_all add: tm_inv_def accounted_def acc_def starts_ok_def marked_when_over_def someone_awake_def
      tasks_ok_def new_Impl_def)

definition flow_inv :: "'r event list \<Rightarrow> 'r tm \<Rightarrow> bool" where
  "flow_inv es s \<longleftrightarrow> tm_inv s \<and> tasks_ok s \<and> entered es = left_queue es @ tasks s \<and>
     (\<forall>w. taken_by w es = ran_by w es @ in_hand (pc s w))"

interpretation tm_runs: step_invariant tm_step "\<lambda>s. s = new_Impl" flow_inv
proof
  fix s :: "'r tm"
  assume "s = new_Impl"
  then show "flow_inv [] s" using tm_inv_new tasks_ok_new by (simp add: flow_inv_def new_Impl_def)
next
  fix es fs and s t :: "'r tm"
  assume s: "flow_inv es s" and st: "tm_step s fs t"
  then have "task_flow s fs t" by (intro tm_step_flow) (auto simp: flow_inv_def tm_inv_def)
  moreover have "tm_inv t" using tm_inv_step [OF st] s by (simp add: flow_inv_def)
  ultimately show "flow_inv (es @ fs) t"
    using s by (auto simp: flow_inv_def task_flow_def)
qed

lemmas tm_runs_snoc = runs_snoc [where step = tm_step]

text \<open>
  A pool with one worker about to look at an empty queue of at most one task; then a task that
  expires at 15 and a client that waits for room.
\<close>

definition ex_pool :: "nat tm" where
  "ex_pool = new_Impl\<lparr>threadFactory := True, tm_state := TM_STARTED, pendingTaskCountMax := 1, workerMaxCount := 1,
     workerCount := 1, workers := {1}, idMap := {1}, pc := (\<lambda>_. W_None)(1 := W_Loop)\<rparr>"

lemma ex_pool_run: "runs tm_step new_Impl [] ex_pool"
proof -
  have 1: "runs tm_step new_Impl [] (setThreadFactory new_Impl :: nat tm)"
    by (rule runs_one) (rule step_factory)
  let ?s2 = "setThreadFactory (new_Impl :: nat tm)\<lparr>tm_state := TM_STARTED\<rparr>"
  have start: "tm_start (setThreadFactory (new_Impl :: nat tm)) = (Inr (), ?s2)"
    by (simp add: tm_start_def setThreadFactory_def new_Impl_def notify_all_workers_def)
  have 2: "runs tm_step new_Impl [] ?s2"
    by (rule tm_runs_snoc [OF 1 step_start [OF start]]) simp
  let ?s3 = "setPendingTaskCountMax 1 ?s2"
  have 3: "runs tm_step new_Impl [] ?s3"
    by (rule tm_runs_snoc [OF 2 step_max]) simp
  let ?s4 = "addWorker_section 0 [1] ?s3"
  have t1: "tm_step ?s3 [] ?s4"
    by (rule step_addWorker) (simp_all add: setPendingTaskCountMax_def setThreadFactory_def new_Impl_def)
  have 4: "runs tm_step new_Impl [] ?s4"
    by (rule tm_runs_snoc [OF 3 t1]) simp
  let ?s5 = "addWorker_start 0 ?s4"
  have 5: "runs tm_step new_Impl [] ?s5"
    by (rule tm_runs_snoc [OF 4 step_addWorker_start]) simp
  let ?s6 = "addWorker_start 0 ?s5"
  have 6: "runs tm_step new_Impl [] ?s6"
    by (rule tm_runs_snoc [OF 5 step_addWorker_start]) simp
  let ?s7 = "addWorker_start 0 (worker_entry 1 ?s6)"
  note defs = worker_entry_def addWorker_start_def addWorker_section_def setPendingTaskCountMax_def setThreadFactory_def
    new_Impl_def
  have t2: "tm_step ?s6 [] (worker_entry 1 ?s6)" by (rule step_entry) (simp add: defs)
  have 7: "runs tm_step new_Impl [] ?s7"
    by (rule tm_runs_snoc [OF tm_runs_snoc [OF 6 t2 refl] step_addWorker_start]) simp
  have t3: "tm_step ?s7 [] (?s7\<lparr>client := (client ?s7)(0 := C_Idle)\<rparr>)"
    by (rule step_addWorker_end) (simp_all add: defs)
  moreover have "?s7\<lparr>client := (client ?s7)(0 := C_Idle)\<rparr> = ex_pool"
    by (simp add: defs ex_pool_def fun_eq_iff)
  ultimately have t4: "tm_step ?s7 [] ex_pool" by simp
  show ?thesis by (rule tm_runs_snoc [OF 7 t4]) simp
qed

definition ex_task :: "nat task" where
  "ex_task = new_Task 10 7 5"

definition ex_queued :: "nat tm" where
  "ex_queued = ex_pool\<lparr>tasks := [ex_task]\<rparr>"

lemma ex_push_step: "tm_step ex_pool [Pushed ex_task] ex_queued"
proof -
  have a: "add_section True 10 2 0 ex_pool = (Add_Push, ex_pool, [])"
    by (simp add: add_section_def removeExpiredTasks_def queue_full_def ex_pool_def new_Impl_def)
  have b: "add_push 10 2 7 5 ex_pool = (ex_queued, [Pushed ex_task])"
    by (simp add: add_push_def ex_queued_def ex_pool_def new_Impl_def ex_task_def fun_eq_iff)
  have "tm_step ex_pool ([] @ [Pushed ex_task]) ex_queued"
    by (rule step_add_push [OF _ a b])
      (simp_all add: notify_worker_if_def ex_queued_def ex_pool_def new_Impl_def)
  then show ?thesis by simp
qed

lemma ex_queued_run: "runs tm_step new_Impl [Pushed ex_task] ex_queued"
  by (rule tm_runs_snoc [OF ex_pool_run ex_push_step]) simp

text \<open>The client that waits, and the worker that drops the expired task and waits too.\<close>

definition ex_waiting :: "nat tm" where
  "ex_waiting = ex_queued\<lparr>client := (\<lambda>_. C_Idle)(3 := C_AddWait False 8 0 5)\<rparr>"

definition ex_dropped :: "nat tm" where
  "ex_dropped = ex_waiting\<lparr>tasks := [], expiredCount := 1, pc := (\<lambda>_. W_None)(1 := W_Run None)\<rparr>"

definition ex_stuck :: "nat tm" where
  "ex_stuck = ex_dropped\<lparr>idleCount := 1, pc := (\<lambda>_. W_None)(1 := W_Waiting False)\<rparr>"

lemmas ex_defs = ex_stuck_def ex_dropped_def ex_waiting_def ex_queued_def ex_pool_def new_Impl_def ex_task_def new_Task_def

lemma ex_waiting_run: "runs tm_step new_Impl [Pushed ex_task] ex_waiting"
proof -
  have a: "add_section True 12 3 0 ex_queued = (Add_Wait, ex_queued, [])"
    by (simp add: add_section_def removeExpiredTasks_def queue_full_def canSleep_def ex_defs)
  have "tm_step ex_queued [] (ex_queued\<lparr>client := (client ex_queued)(3 := C_AddWait False 8 0 5)\<rparr>)"
    by (rule step_add_wait [OF _ a]) (simp add: ex_defs)
  then have "tm_step ex_queued [] ex_waiting" by (simp add: ex_defs)
  from tm_runs_snoc [OF ex_queued_run this] show ?thesis by simp
qed

lemma ex_steps:
  "worker_section 20 1 ex_waiting = (ex_dropped, [Expired ex_task], False)"
  "worker_execute 1 ex_dropped = (ex_dropped\<lparr>pc := (pc ex_dropped)(1 := W_Loop)\<rparr>, [])"
  "worker_section 21 1 (ex_dropped\<lparr>pc := (pc ex_dropped)(1 := W_Loop)\<rparr>) = (ex_stuck, [], False)"
  by (simp_all add: worker_section_def isActive_def worker_take_def removeExpiredTasks_def worker_execute_def
      ex_defs fun_eq_iff)

lemma ex_stuck_run: "runs tm_step new_Impl [Pushed ex_task, Expired ex_task] ex_stuck"
proof -
  have t2: "tm_step ex_waiting [Expired ex_task] ex_dropped"
    by (rule step_loop [OF _ ex_steps(1)]) (simp_all add: ex_defs notify_adder_if_def)
  have t3: "tm_step ex_dropped [] (ex_dropped\<lparr>pc := (pc ex_dropped)(1 := W_Loop)\<rparr>)"
    by (rule step_execute [OF _ ex_steps(2), of None]) (simp add: ex_defs)
  have t4: "tm_step (ex_dropped\<lparr>pc := (pc ex_dropped)(1 := W_Loop)\<rparr>) [] ex_stuck"
    by (rule step_loop [OF _ ex_steps(3)]) (simp_all add: notify_adder_if_def)
  show ?thesis by (rule tm_runs_snoc [OF tm_runs_snoc [OF tm_runs_snoc [OF ex_waiting_run t2 refl] t3 refl] t4]) simp
qed

text \<open>Sections that push nothing.\<close>

lemma expired_entered: "removeExpiredTasks now s = (t, es) \<Longrightarrow> entered es = []"
proof -
  have "entered (concat (map (\<lambda>t. (if b then [Callback (runnable t)] else []) @ [Expired t]) xs)) = []" for b and xs :: "'a task list"
    by (induction xs) auto
  then show "removeExpiredTasks now s = (t, es) \<Longrightarrow> entered es = []"
    by (auto simp: removeExpiredTasks_def split: prod.splits)
qed

lemma section_entered: "worker_section now w s = (t, es, room) \<Longrightarrow> entered es = []"
  using expired_entered [of now s]
  by (auto simp: worker_section_def worker_take_def Let_def split: if_splits list.splits prod.splits)

lemma add_section_entered: "add_section l now c timeout s = (r, t, es) \<Longrightarrow> entered es = []"
  by (erule add_section_cases) (simp_all add: expired_entered)

lemma section_count:
  assumes "worker_section now w s = (t, es, room)"
  shows "workerCount t = workerCount s \<or> \<not> isActive s"
  using assms by (rule worker_section_pc) auto

section \<open>Properties\<close>

text \<open>
  C9: the counters of the manager are true in every reachable state: \<^verbatim>\<open>workerCount_\<close> is the number
  of workers between the first section of \<^verbatim>\<open>run\<close> and the section in which they leave,
  \<^verbatim>\<open>idleCount_\<close> the number of those that wait for a task. So the decrements never go below zero,
  and neither does \<^verbatim>\<open>totalTaskCount\<close>.
\<close>

theorem worker_counts_exact:
  assumes "runs tm_step new_Impl es s"
  shows "workerCount s = card {w. counted (pc s w)} \<and> idleCount s = card {w. waiting (pc s w)} \<and>
    finite {w. counted (pc s w)} \<and> idleCount s \<le> workerCount s \<and>
    int (totalTaskCount s) = int (length (tasks s)) + int (workerCount s) - int (idleCount s)"
proof -
  have a: "acc (pc s) (workerCount s) (idleCount s)"
    using tm_runs.holds [OF assms refl] by (simp add: flow_inv_def tm_inv_def accounted_def)
  then have "card {w. waiting (pc s w)} \<le> card {w. counted (pc s w)}"
    by (intro card_mono) (auto simp: acc_def intro: waiting_counted)
  with a show ?thesis by (simp add: acc_def totalTaskCount_def)
qed

theorem worker_counts_exact_witness:
  "workerCount ex_stuck = card {w. counted (pc ex_stuck w)} \<and> idleCount ex_stuck = 1"
  using worker_counts_exact [OF ex_stuck_run] by (simp add: ex_stuck_def)

text \<open>
  C5: the queue is first in, first out, and loses nothing: in every run, the tasks that entered the
  queue are those that left it (expired, handed to a worker or removed), in this order, followed by
  those still in it. And every worker runs exactly the runnables it took, each once, in the order
  of taking, but for the one in its hands.
\<close>

theorem tasks_flow_in_order:
  assumes "runs tm_step new_Impl es s"
  shows "entered es = left_queue es @ tasks s \<and> (\<forall>w. taken_by w es = ran_by w es @ in_hand (pc s w))"
  using tm_runs.holds [OF assms refl] by (simp add: flow_inv_def)

theorem tasks_flow_in_order_witness:
  "entered [Pushed ex_task] = left_queue [Pushed ex_task] @ tasks ex_queued \<and> tasks ex_queued = [ex_task]"
  using tasks_flow_in_order [OF ex_queued_run] by (simp add: ex_queued_def)

text \<open>
  C24: no wake-up of a worker is lost. In every reachable state with a task in the queue and a worker
  in the pool, some worker is not asleep: it is about to look at the queue, has a task in hand after
  which it looks again, or waits but has been notified. This holds through any mixture of \<^verbatim>\<open>add\<close>,
  \<^verbatim>\<open>addWorker\<close>, \<^verbatim>\<open>removeWorker\<close> and \<^verbatim>\<open>stop\<close>, and needs no spurious wake-up.
\<close>

theorem some_worker_awake:
  assumes "runs tm_step new_Impl es s" and "tasks s \<noteq> []" and "0 < workerCount s"
  shows "\<exists>w. pc s w = W_Loop \<or> (\<exists>t. pc s w = W_Run t) \<or> pc s w = W_Waiting True"
proof -
  have s: "tm_inv s" using tm_runs.holds [OF assms(1) refl] by (simp add: flow_inv_def)
  from tm_invD(1) [OF s] assms(3) have "{w. counted (pc s w)} \<noteq> {}" unfolding acc_def by (metis card.empty less_irrefl)
  then obtain v where v: "counted (pc s v)" by blast
  have "\<exists>w. counted (pc s w) \<and> pc s w \<noteq> W_Waiting False"
    using v tm_invD(4) [OF s assms(2), of v] by blast
  then obtain w where "counted (pc s w)" "pc s w \<noteq> W_Waiting False" by blast
  then show ?thesis by (intro exI [of _ w]) (cases "pc s w"; auto)
qed

theorem some_worker_awake_witness:
  "\<exists>w. pc ex_queued w = W_Loop \<or> (\<exists>t. pc ex_queued w = W_Run t) \<or> pc ex_queued w = W_Waiting True"
  using some_worker_awake [OF ex_queued_run] by (simp add: ex_queued_def ex_pool_def)

text \<open>
  A task only enters a queue that has room: after every step that pushes a task while a maximum
  is set, the queue holds at most that many tasks, also when the push comes after a wait.
\<close>

lemma push_respects_maximum:
  assumes "tm_step s es t" and "entered es \<noteq> []" and "0 < pendingTaskCountMax t"
  shows "length (tasks t) \<le> pendingTaskCountMax t"
proof -
  have push: "length (tasks v) \<le> pendingTaskCountMax v"
    if "\<not> queue_full u'" "add_push now c val e u' = (u, fs)" "notify_worker_if b u v" "0 < pendingTaskCountMax v"
    for u' u v now c val e fs b
    using that notify_worker_if_fields [OF that(3)] by (auto simp: add_push_def queue_full_def)
  from assms show ?thesis
  proof (induction rule: tm_step.induct)
    case (step_add_push s c l now timeout t es "value" expiration u fs v)
    from step_add_push(2) have "\<not> queue_full t" by (rule add_section_cases) (simp_all split: if_splits)
    from push [OF this step_add_push(3,4,6)] show ?case .
  next
    case (step_add_resume s c b "value" timeout expiration now u fs v)
    from push [OF step_add_resume(2,3,4,6)] show ?case .
  next
    case (step_loop s w now t es room u)
    with section_entered [OF step_loop(2)] show ?case by simp
  next
    case (step_wake s w b now t es room u)
    with section_entered [OF step_wake(2) [unfolded worker_wake_def]] show ?case by simp
  next
    case (step_execute s w r t es)
    then show ?case by (auto simp: worker_execute_def split: wpc.splits option.splits if_splits)
  next
    case (step_add_wait s c l now timeout t es "value" expiration)
    with add_section_entered [OF step_add_wait(2)] show ?case by simp
  next
    case (step_add_throw s c l now timeout e t es)
    with add_section_entered [OF step_add_throw(2)] show ?case by simp
  next
    case (step_next s r t es)
    then show ?case by (auto simp: removeNextPending_def split: if_splits list.splits)
  qed simp_all
qed

lemma push_respects_maximum_witness:
  "length (tasks ex_queued) \<le> pendingTaskCountMax ex_queued \<and> pendingTaskCountMax ex_queued = 1"
  using push_respects_maximum [OF ex_push_step] by (simp add: ex_queued_def ex_pool_def)

text \<open>
  C25: a joining manager gives up no task: while the state is \<^verbatim>\<open>JOINING\<close>, a step in which a worker
  gives up its place finds the queue empty.
\<close>

theorem join_drains_queue:
  assumes "tm_step s es t" and "tm_state s = TM_JOINING" and "workerCount t < workerCount s"
  shows "tasks s = []"
  using assms
proof (induction rule: tm_step.induct)
  case (step_loop s w now t es room u)
  with section_count [OF step_loop(2)] notify_adder_if_fields(2) [OF step_loop(3)]
  show ?case by (simp add: isActive_def)
next
  case (step_wake s w b now t es room u)
  with section_count [OF step_wake(2) [unfolded worker_wake_def]] notify_adder_if_fields(2) [OF step_wake(3)]
  show ?case by (simp add: isActive_def)
next
  case (step_stop_remove s c n t u)
  then have "workerCount u = workerCount s"
    using notify_times_inv [of "idleCount t" t u]
    by (auto simp: removeWorker_section_def removeWorker_notifies_def notify_all_workers_def split: if_splits)
  with step_stop_remove show ?case by simp
next
  case (step_remove_worker s c n t u)
  then have "workerCount u = workerCount s"
    using notify_times_inv [of "idleCount t" t u]
    by (auto simp: removeWorker_section_def removeWorker_notifies_def notify_all_workers_def split: if_splits)
  with step_remove_worker show ?case by simp
next
  case (step_add_push s c l now timeout t es "value" expiration u fs v)
  from step_add_push(2) show ?case by (rule add_section_cases) (use step_add_push(5) in \<open>auto split: if_splits\<close>)
next
  case (step_add_wait s c l now timeout t es "value" expiration)
  from step_add_wait(2) show ?case by (rule add_section_cases) (use step_add_wait(3) in \<open>auto split: if_splits\<close>)
next
  case (step_add_throw s c l now timeout e t es)
  from step_add_throw(2) show ?case
    by (rule add_section_cases) (use step_add_throw(3,4) in \<open>auto split: if_splits\<close>)
next
  case (step_add_resume s c b "value" timeout expiration now u fs v)
  with notify_worker_if_fields(2) [OF step_add_resume(4)] show ?case by (auto simp: add_push_def)
next
  case (step_addWorker_start s c)
  then show ?case by (auto simp: addWorker_start_def split: cpc.splits list.splits)
qed (auto simp: worker_entry_def worker_execute_def worker_dead_def setThreadFactory_def setPendingTaskCountMax_def
    setExpireCallback_def expiredTaskCount_def tm_start_def notify_all_workers_def addWorker_section_def stop_section_def
    stop_end_def removeWorker_end_def removeNextPending_def split: if_splits list.splits)

text \<open>The witness: a pool that is joining and has lost its last place.\<close>

definition ex_joining :: "nat tm" where
  "ex_joining = ex_pool\<lparr>tm_state := TM_JOINING, workerMaxCount := 0\<rparr>"

theorem join_drains_queue_witness:
  "\<exists>t. tm_step ex_joining [] t \<and> workerCount t < workerCount ex_joining \<and> tasks ex_joining = []"
proof -
  let ?t = "ex_joining\<lparr>workerCount := 0, pc := (pc ex_joining)(1 := W_Leaving)\<rparr>"
  have w: "worker_section 0 1 ex_joining = (?t, [], False)"
    by (simp add: worker_section_def isActive_def ex_joining_def ex_pool_def new_Impl_def)
  have st: "tm_step ex_joining [] ?t"
    by (rule step_loop [OF _ w]) (simp_all add: notify_adder_if_def ex_joining_def ex_pool_def)
  have "tasks ex_joining = []"
    by (rule join_drains_queue [OF st]) (simp_all add: ex_joining_def ex_pool_def)
  with st show ?thesis by (intro exI [of _ ?t]) (simp add: ex_joining_def ex_pool_def)
qed

text \<open>
  C26: a wake-up of a client blocked in \<^verbatim>\<open>add\<close> can be lost. A run leads to a full queue with a
  client that waits for room without a time limit. The next section of the only worker drops the
  one task, which has expired: the queue is below its maximum, but the section gives no
  notification, as \<^verbatim>\<open>maxMonitor_\<close> is notified only when a task is taken. In its next section the
  worker finds nothing to do and waits as well, so that everybody sleeps, unnotified, at an empty
  queue. The run has no event but the push of the task and its expiry.
\<close>

theorem expired_tasks_lose_adder:
  "\<exists>s t u v. runs tm_step (new_Impl :: nat tm) [Pushed (new_Task 10 7 5)] s \<and> queue_full s \<and> pc s 1 = W_Loop \<and>
     client s 3 = C_AddWait False 8 0 5 \<and>
     worker_section 20 1 s = (t, [Expired (new_Task 10 7 5)], False) \<and> \<not> queue_full t \<and>
     worker_execute 1 t = (u, []) \<and> worker_section 21 1 u = (v, [], False) \<and>
     runs tm_step new_Impl [Pushed (new_Task 10 7 5), Expired (new_Task 10 7 5)] v \<and>
     tm_state v = TM_STARTED \<and> tasks v = [] \<and> \<not> queue_full v \<and> client v = (\<lambda>_. C_Idle)(3 := C_AddWait False 8 0 5) \<and>
     workerCount v = 1 \<and> pc v = (\<lambda>_. W_None)(1 := W_Waiting False)"
proof -
  have "queue_full ex_waiting" "pc ex_waiting 1 = W_Loop" "client ex_waiting 3 = C_AddWait False 8 0 5"
    "\<not> queue_full ex_dropped" "tm_state ex_stuck = TM_STARTED" "tasks ex_stuck = []" "\<not> queue_full ex_stuck"
    "client ex_stuck = (\<lambda>_. C_Idle)(3 := C_AddWait False 8 0 5)" "workerCount ex_stuck = 1"
    "pc ex_stuck = (\<lambda>_. W_None)(1 := W_Waiting False)"
    by (simp_all add: queue_full_def ex_defs)
  with ex_waiting_run ex_stuck_run ex_steps show ?thesis unfolding ex_task_def by blast
qed

end
