(* ===== verification/TimerManager.thy ===== *)
theory TimerManager
  imports StepSystem
begin

text \<open>
  \<^verbatim>\<open>TimerManager\<close> (\<^verbatim>\<open>concurrency/TimerManager.cpp\<close>): tasks ordered by the time at which they are
  due, the dispatcher thread that runs them, and the calls of the clients, as steps that interleave
  at the sections under the monitor. Times are milliseconds of the clock. The waiting threads of the
  monitor are modelled as in the thread manager: a notification marks one of them.
  Times are integers without bound, where the code adds in \<^verbatim>\<open>int64_t\<close>: delays that overflow it
  are outside the model.
\<close>

section \<open>State\<close>

datatype timer_status =
    TI_UNINITIALIZED | TI_STARTING | TI_STARTED | TI_STOPPING | TI_STOPPED

datatype timer_task_status = TI_WAITING | TI_EXECUTING | TI_CANCELLED | TI_COMPLETE

record 'r timer_task =
  ti_runnable :: 'r
  ti_state :: timer_task_status

definition new_timer_task :: "'r \<Rightarrow> 'r timer_task" where
  "new_timer_task value = \<lparr>ti_runnable = value, ti_state = TI_WAITING\<rparr>"

definition timer_task_run :: "'r timer_task \<Rightarrow> 'r timer_task" where
  "timer_task_run t = (if ti_state t = TI_EXECUTING then t\<lparr>ti_state := TI_COMPLETE\<rparr> else t)"

text \<open>
  The dispatcher: no thread yet, before its first section, before the section of its loop, waiting
  (marked or not, until a time or for ever), running the tasks it took out, after the last of them,
  returned.
\<close>

datatype 'r dpc =
    D_None | D_Entry | D_Check | D_Waiting bool "int option" | D_Run "'r timer_task list" | D_End | D_Done

text \<open>
  A client: not in a call, about to create the thread of the dispatcher in \<^verbatim>\<open>start\<close>, before the
  last section of \<^verbatim>\<open>start\<close>, waiting in it, or waiting in \<^verbatim>\<open>stop\<close> (marked or not, with \<^verbatim>\<open>doStop\<close>).
\<close>

datatype tcpc = TC_Idle | TC_StartThread | TC_StartCheck | TC_StartWait bool | TC_StopWait bool bool

text \<open>The multimap is the list of its entries in the order of iteration.\<close>

record 'r timer =
  taskMap :: "(int \<times> 'r timer_task) list"
  taskCount :: nat
  ti_status :: timer_status
  ti_factory :: bool
  dispatcher :: "'r dpc"
  managerRef :: bool
  caller :: "nat \<Rightarrow> tcpc"

definition new_TimerManager :: "'r timer" where
  "new_TimerManager =
     \<lparr>taskMap = [], taskCount = 0, ti_status = TI_UNINITIALIZED, ti_factory = False, dispatcher = D_None,
      managerRef = True, caller = (\<lambda>_. TC_Idle)\<rparr>"

text \<open>
  Events: a task enters the map with the time it is due, is taken out at some time, is run, is
  dropped by \<^verbatim>\<open>stop\<close>; a failed assertion; an exception of a call.
\<close>

datatype 'r timer_event =
    TE_Added int 'r | TE_Dispatched int int 'r | TE_Ran "'r timer_task" | TE_Dropped int 'r | TE_AssertFailed
  | TE_Threw nat conc_exc

section \<open>The multimap\<close>

fun map_insert :: "int \<Rightarrow> 'a \<Rightarrow> (int \<times> 'a) list \<Rightarrow> (int \<times> 'a) list" where
  "map_insert k v [] = [(k, v)]"
| "map_insert k v ((j, w) # xs) = (if j \<le> k then (j, w) # map_insert k v xs else (k, v) # (j, w) # xs)"

text \<open>The entries before \<^verbatim>\<open>upper_bound(k)\<close>, and those from there on.\<close>

definition before_bound :: "int \<Rightarrow> (int \<times> 'a) list \<Rightarrow> (int \<times> 'a) list" where
  "before_bound k xs = takeWhile (\<lambda>(j, v). j \<le> k) xs"

definition from_bound :: "int \<Rightarrow> (int \<times> 'a) list \<Rightarrow> (int \<times> 'a) list" where
  "from_bound k xs = dropWhile (\<lambda>(j, v). j \<le> k) xs"

section \<open>The dispatcher\<close>

text \<open>A notification marks one thread that waits unmarked; \<open>ti_notify_all\<close> marks all.\<close>

inductive ti_notify :: "'r timer \<Rightarrow> 'r timer \<Rightarrow> bool" where
  ti_notify_none: "(\<And>d. dispatcher s \<noteq> D_Waiting False d) \<Longrightarrow> (\<And>c. caller s c \<noteq> TC_StartWait False) \<Longrightarrow>
    (\<And>c b. caller s c \<noteq> TC_StopWait False b) \<Longrightarrow> ti_notify s s"
| ti_notify_dispatcher: "dispatcher s = D_Waiting False d \<Longrightarrow> ti_notify s (s\<lparr>dispatcher := D_Waiting True d\<rparr>)"
| ti_notify_start: "caller s c = TC_StartWait False \<Longrightarrow>
    ti_notify s (s\<lparr>caller := (caller s)(c := TC_StartWait True)\<rparr>)"
| ti_notify_stop: "caller s c = TC_StopWait False b \<Longrightarrow>
    ti_notify s (s\<lparr>caller := (caller s)(c := TC_StopWait True b)\<rparr>)"

fun mark_dispatcher :: "'r dpc \<Rightarrow> 'r dpc" where
  "mark_dispatcher (D_Waiting b d) = D_Waiting True d"
| "mark_dispatcher p = p"

fun mark_caller :: "tcpc \<Rightarrow> tcpc" where
  "mark_caller (TC_StartWait b) = TC_StartWait True"
| "mark_caller (TC_StopWait b d) = TC_StopWait True d"
| "mark_caller p = p"

definition ti_notify_all :: "'r timer \<Rightarrow> 'r timer" where
  "ti_notify_all s = s\<lparr>dispatcher := mark_dispatcher (dispatcher s), caller := mark_caller \<circ> caller s\<rparr>"

text \<open>The first section of \<^verbatim>\<open>Dispatcher::run\<close>.\<close>

definition dispatcher_entry :: "'r timer \<Rightarrow> 'r timer" where
  "dispatcher_entry s =
     (if ti_status s = TI_STARTING
      then ti_notify_all (s\<lparr>ti_status := TI_STARTED, dispatcher := D_Check\<rparr>)
      else s\<lparr>dispatcher := D_Check\<rparr>)"

text \<open>
  One turn of the loop with the clock at \<open>now\<close>: wait for the first task (without a limit if there
  is none), or take out the tasks that are due. \<open>None\<close> is the failed assertion.
\<close>

definition dispatcher_wait :: "int \<Rightarrow> 'r timer \<Rightarrow> 'r timer option" where
  "dispatcher_wait now s =
     (let timeout = (if taskMap s \<noteq> [] then fst (hd (taskMap s)) - now else 0) in
      if timeout \<noteq> 0 \<and> taskCount s > 0 \<or> timeout = 0 \<and> taskCount s = 0
      then Some (s\<lparr>dispatcher := D_Waiting False (if timeout = 0 then None else Some (now + timeout))\<rparr>)
      else None)"

definition dispatcher_take :: "int \<Rightarrow> 'r timer \<Rightarrow> 'r timer \<times> 'r timer_event list" where
  "dispatcher_take now s =
     (let due = before_bound now (taskMap s) in
      (s\<lparr>taskMap := from_bound now (taskMap s), taskCount := taskCount s - length due,
         dispatcher := D_Run (map (\<lambda>(k, t). if ti_state t = TI_WAITING then t\<lparr>ti_state := TI_EXECUTING\<rparr> else t) due)\<rparr>,
       map (\<lambda>(k, t). TE_Dispatched now k (ti_runnable t)) due))"

definition dispatcher_section :: "int \<Rightarrow> 'r timer \<Rightarrow> ('r timer \<times> 'r timer_event list) option" where
  "dispatcher_section now s =
     (if ti_status s = TI_STARTED then
        if before_bound now (taskMap s) = [] then map_option (\<lambda>t. (t, [])) (dispatcher_wait now s)
        else Some (dispatcher_take now s)
      else Some (s\<lparr>dispatcher := D_Run []\<rparr>, []))"

text \<open>
  The tasks taken out are in a \<^verbatim>\<open>std::set\<close> of pointers: they run in the order of their addresses,
  which is any order.
\<close>

definition dispatcher_run_one :: "'r timer_task \<Rightarrow> 'r timer_task list \<Rightarrow> 'r timer \<Rightarrow> 'r timer \<times> 'r timer_event list" where
  "dispatcher_run_one t ts s =
     (s\<lparr>dispatcher := D_Run (remove1 t ts)\<rparr>, if ti_state t = TI_EXECUTING then [TE_Ran (timer_task_run t)] else [])"

definition dispatcher_again :: "'r timer \<Rightarrow> 'r timer" where
  "dispatcher_again s = s\<lparr>dispatcher := (if ti_status s = TI_STARTED then D_Check else D_End)\<rparr>"

text \<open>The last section, before its notification.\<close>

definition dispatcher_end :: "'r timer \<Rightarrow> 'r timer" where
  "dispatcher_end s =
     (if ti_status s = TI_STOPPING then s\<lparr>ti_status := TI_STOPPED, dispatcher := D_Done\<rparr>
      else s\<lparr>dispatcher := D_Done\<rparr>)"

section \<open>Clients\<close>

definition ti_setThreadFactory :: "'r timer \<Rightarrow> 'r timer" where
  "ti_setThreadFactory s = s\<lparr>ti_factory := True\<rparr>"

definition ti_start :: "nat \<Rightarrow> 'r timer \<Rightarrow> conc_exc + 'r timer" where
  "ti_start c s =
     (if \<not> ti_factory s then Inl InvalidArgumentException
      else if ti_status s = TI_UNINITIALIZED
      then Inr (s\<lparr>ti_status := TI_STARTING, caller := (caller s)(c := TC_StartThread)\<rparr>)
      else Inr (s\<lparr>caller := (caller s)(c := TC_StartCheck)\<rparr>))"

definition ti_start_thread :: "nat \<Rightarrow> 'r timer \<Rightarrow> 'r timer" where
  "ti_start_thread c s = s\<lparr>dispatcher := D_Entry, caller := (caller s)(c := TC_StartCheck)\<rparr>"

definition ti_start_check :: "nat \<Rightarrow> 'r timer \<Rightarrow> 'r timer" where
  "ti_start_check c s =
     s\<lparr>caller := (caller s)(c := (if ti_status s = TI_STARTING then TC_StartWait False else TC_Idle))\<rparr>"

text \<open>The loop at the end of the section of \<^verbatim>\<open>stop\<close>, and what follows the section.\<close>

definition ti_stop_check :: "nat \<Rightarrow> bool \<Rightarrow> 'r timer \<Rightarrow> 'r timer \<times> 'r timer_event list" where
  "ti_stop_check c doStop s =
     (if ti_status s \<noteq> TI_STOPPED then (s\<lparr>caller := (caller s)(c := TC_StopWait False doStop)\<rparr>, [])
      else if doStop
      then (s\<lparr>taskMap := [], managerRef := False, caller := (caller s)(c := TC_Idle)\<rparr>,
            map (\<lambda>(k, t). TE_Dropped k (ti_runnable t)) (taskMap s))
      else (s\<lparr>caller := (caller s)(c := TC_Idle)\<rparr>, []))"

definition ti_stop :: "nat \<Rightarrow> 'r timer \<Rightarrow> 'r timer \<times> 'r timer_event list" where
  "ti_stop c s =
     (if ti_status s = TI_UNINITIALIZED then ti_stop_check c False (s\<lparr>ti_status := TI_STOPPED\<rparr>)
      else if ti_status s \<noteq> TI_STOPPING \<and> ti_status s \<noteq> TI_STOPPED
      then ti_stop_check c True (ti_notify_all (s\<lparr>ti_status := TI_STOPPING\<rparr>))
      else ti_stop_check c False s)"

text \<open>\<^verbatim>\<open>add\<close> with a delay, at time \<open>now\<close>; the second result asks for a notification.\<close>

definition ti_add :: "int \<Rightarrow> 'r \<Rightarrow> int \<Rightarrow> 'r timer \<Rightarrow> conc_exc + ('r timer \<times> bool \<times> 'r timer_event list)" where
  "ti_add now task timeout s =
     (let due = timeout + now in
      if ti_status s \<noteq> TI_STARTED then Inl IllegalStateException
      else
        let notifyRequired = (if taskCount s = 0 then True else due < fst (hd (taskMap s))) in
        Inr (s\<lparr>taskCount := taskCount s + 1, taskMap := map_insert due (new_timer_task task) (taskMap s)\<rparr>,
             notifyRequired, [TE_Added due task]))"

text \<open>\<^verbatim>\<open>add\<close> with an absolute time reads the clock first, and once more in the other \<^verbatim>\<open>add\<close>.\<close>

definition ti_add_at :: "int \<Rightarrow> int \<Rightarrow> 'r \<Rightarrow> int \<Rightarrow> 'r timer \<Rightarrow> conc_exc + ('r timer \<times> bool \<times> 'r timer_event list)" where
  "ti_add_at now now' task expiration s =
     (if expiration < now then Inl InvalidArgumentException else ti_add now' task (expiration - now) s)"

definition ti_remove :: "'r timer \<Rightarrow> conc_exc + unit" where
  "ti_remove s = (if ti_status s \<noteq> TI_STARTED then Inl IllegalStateException else Inr ())"

section \<open>Steps\<close>

definition ti_notify_if :: "bool \<Rightarrow> 'r timer \<Rightarrow> 'r timer \<Rightarrow> bool" where
  "ti_notify_if b s t \<longleftrightarrow> (if b then ti_notify s t else t = s)"

inductive ti_step :: "'r timer \<Rightarrow> 'r timer_event list \<Rightarrow> 'r timer \<Rightarrow> bool" where
  ti_entry: "dispatcher s = D_Entry \<Longrightarrow> ti_step s [] (dispatcher_entry s)"
| ti_loop: "dispatcher s = D_Check \<Longrightarrow> dispatcher_section now s = Some (t, es) \<Longrightarrow> ti_step s es t"
| ti_wake: "dispatcher s = D_Waiting b d \<Longrightarrow> dispatcher_section now s = Some (t, es) \<Longrightarrow> ti_step s es t"
| ti_assert: "dispatcher s = D_Check \<or> dispatcher s = D_Waiting b d \<Longrightarrow> dispatcher_section now s = None \<Longrightarrow>
    ti_step s [TE_AssertFailed] s"
| ti_run_one: "dispatcher s = D_Run ts \<Longrightarrow> t \<in> set ts \<Longrightarrow> dispatcher_run_one t ts s = (u, es) \<Longrightarrow> ti_step s es u"
| ti_again: "dispatcher s = D_Run [] \<Longrightarrow> ti_step s [] (dispatcher_again s)"
| ti_end: "dispatcher s = D_End \<Longrightarrow> ti_notify_if (ti_status s = TI_STOPPING) (dispatcher_end s) t \<Longrightarrow> ti_step s [] t"
| ti_factory_set: "ti_step s [] (ti_setThreadFactory s)"
| ti_start_ok: "caller s c = TC_Idle \<Longrightarrow> ti_start c s = Inr t \<Longrightarrow> ti_step s [] t"
| ti_start_fails: "caller s c = TC_Idle \<Longrightarrow> ti_start c s = Inl e \<Longrightarrow> ti_step s [TE_Threw c e] s"
| ti_thread: "caller s c = TC_StartThread \<Longrightarrow> ti_step s [] (ti_start_thread c s)"
| ti_check: "caller s c = TC_StartCheck \<Longrightarrow> ti_step s [] (ti_start_check c s)"
| ti_start_wake: "caller s c = TC_StartWait b \<Longrightarrow> ti_step s [] (ti_start_check c s)"
| ti_stop_call: "caller s c = TC_Idle \<Longrightarrow> ti_stop c s = (t, es) \<Longrightarrow> ti_step s es t"
| ti_stop_wake: "caller s c = TC_StopWait b d \<Longrightarrow> ti_stop_check c d s = (t, es) \<Longrightarrow> ti_step s es t"
| ti_add_ok: "ti_add now task timeout s = Inr (t, b, es) \<Longrightarrow> ti_notify_if b t u \<Longrightarrow> ti_step s es u"
| ti_add_fails: "ti_add now task timeout s = Inl e \<Longrightarrow> ti_step s [TE_Threw c e] s"
| ti_add_at_ok: "ti_add_at now now' task expiration s = Inr (t, b, es) \<Longrightarrow> ti_notify_if b t u \<Longrightarrow> ti_step s es u"
| ti_add_at_fails: "ti_add_at now now' task expiration s = Inl e \<Longrightarrow> ti_step s [TE_Threw c e] s"
| ti_remove_fails: "ti_remove s = Inl e \<Longrightarrow> ti_step s [TE_Threw c e] s"

end
