(* ===== verification/TimerManagerInv.thy ===== *)
theory TimerManagerInv
  imports TimerManager "HOL-Library.Multiset"
begin

text \<open>
  What holds in every run of a timer manager: the count of tasks and the order of the map, the
  assertion of the dispatcher, the deadline of its sleep, and what becomes of the tasks.
\<close>


section \<open>The multimap\<close>

lemma map_insert_set: "set (map_insert k v xs) = insert (k, v) (set xs)"
  by (induction k v xs rule: map_insert.induct) auto

lemma map_insert_mset: "mset (map_insert k v xs) = add_mset (k, v) (mset xs)"
  by (induction k v xs rule: map_insert.induct) auto

lemma map_insert_length [simp]: "length (map_insert k v xs) = Suc (length xs)"
  by (induction xs) auto

lemma map_insert_sorted: "sorted (map fst xs) \<Longrightarrow> sorted (map fst (map_insert k v xs))"
  by (induction xs) (force simp: map_insert_set)+

lemma map_insert_hd: "xs \<noteq> [] \<Longrightarrow> \<not> k < fst (hd xs) \<Longrightarrow> fst (hd (map_insert k v xs)) = fst (hd xs)"
  by (cases xs) auto

lemma bound_split: "before_bound k xs @ from_bound k xs = xs"
  by (simp add: before_bound_def from_bound_def)

lemma before_bound_le: "(j, v) \<in> set (before_bound k xs) \<Longrightarrow> j \<le> k"
  by (auto simp: before_bound_def dest: set_takeWhileD)

lemma before_bound_Nil: "before_bound k xs = [] \<Longrightarrow> xs \<noteq> [] \<Longrightarrow> k < fst (hd xs)"
  by (cases xs) (auto simp: before_bound_def split: if_splits)

lemma from_bound_sorted: "sorted (map fst xs) \<Longrightarrow> sorted (map fst (from_bound k xs))"
  by (metis bound_split map_append sorted_append)

section \<open>The invariant\<close>

fun phase_ok :: "'r dpc \<Rightarrow> timer_status \<Rightarrow> bool" where
  "phase_ok D_None st = (st \<noteq> TI_STARTED)"
| "phase_ok D_Entry st = (st = TI_STARTING \<or> st = TI_STOPPING)"
| "phase_ok D_Check st = (st = TI_STARTED \<or> st = TI_STOPPING)"
| "phase_ok (D_Waiting b d) st = (st = TI_STARTED \<or> st = TI_STOPPING \<and> b)"
| "phase_ok (D_Run ts) st = (st = TI_STARTED \<or> st = TI_STOPPING)"
| "phase_ok D_End st = (st = TI_STOPPING)"
| "phase_ok D_Done st = (st = TI_STOPPED)"

fun caller_ok :: "tcpc \<Rightarrow> timer_status \<Rightarrow> bool" where
  "caller_ok TC_StartThread st = (st = TI_STARTING \<or> st = TI_STOPPING)"
| "caller_ok (TC_StartWait b) st = (b \<or> st = TI_STARTING)"
| "caller_ok (TC_StopWait b d) st = (st = TI_STOPPING \<or> st = TI_STOPPED)"
| "caller_ok p st = True"

definition deadline_ok :: "'r timer \<Rightarrow> bool" where
  "deadline_ok s \<longleftrightarrow> (\<forall>d. dispatcher s = D_Waiting False d \<longrightarrow>
     d = (if taskMap s = [] then None else Some (fst (hd (taskMap s)))))"

definition ti_inv :: "'r timer \<Rightarrow> bool" where
  "ti_inv s \<longleftrightarrow> sorted (map fst (taskMap s)) \<and> (ti_status s \<noteq> TI_STOPPED \<longrightarrow> taskCount s = length (taskMap s)) \<and>
     phase_ok (dispatcher s) (ti_status s) \<and> (\<forall>c. caller_ok (caller s c) (ti_status s)) \<and>
     (\<forall>c. caller s c = TC_StartThread \<longrightarrow> dispatcher s = D_None) \<and>
     (\<forall>c d. caller s c = TC_StartThread \<longrightarrow> caller s d = TC_StartThread \<longrightarrow> c = d) \<and> deadline_ok s"

lemma ti_invD:
  assumes "ti_inv s"
  shows "sorted (map fst (taskMap s))" and "ti_status s \<noteq> TI_STOPPED \<Longrightarrow> taskCount s = length (taskMap s)"
    and "phase_ok (dispatcher s) (ti_status s)" and "caller_ok (caller s c) (ti_status s)"
    and "caller s c = TC_StartThread \<Longrightarrow> dispatcher s = D_None"
    and "caller s c = TC_StartThread \<Longrightarrow> caller s d = TC_StartThread \<Longrightarrow> c = d" and "deadline_ok s"
  using assms unfolding ti_inv_def by blast+

lemma ti_invI:
  assumes "sorted (map fst (taskMap s))" and "ti_status s \<noteq> TI_STOPPED \<Longrightarrow> taskCount s = length (taskMap s)"
    and "phase_ok (dispatcher s) (ti_status s)" and "\<And>c. caller_ok (caller s c) (ti_status s)"
    and "\<And>c. caller s c = TC_StartThread \<Longrightarrow> dispatcher s = D_None"
    and "\<And>c d. caller s c = TC_StartThread \<Longrightarrow> caller s d = TC_StartThread \<Longrightarrow> c = d" and "deadline_ok s"
  shows "ti_inv s"
  using assms unfolding ti_inv_def by blast

lemma mark_simps [simp]:
  "mark_dispatcher p \<noteq> D_Waiting False d" "mark_dispatcher p = D_None \<longleftrightarrow> p = D_None"
  "mark_caller q = TC_StartThread \<longleftrightarrow> q = TC_StartThread"
  "phase_ok p st \<Longrightarrow> phase_ok (mark_dispatcher p) st"
  by (cases p; cases q; auto)+

text \<open>A notification changes marks only.\<close>

lemma ti_notify_fields:
  assumes "ti_notify s t"
  shows "taskMap t = taskMap s" "taskCount t = taskCount s" "ti_status t = ti_status s"
    "dispatcher t = D_None \<longleftrightarrow> dispatcher s = D_None" "caller t c = TC_StartThread \<longleftrightarrow> caller s c = TC_StartThread"
    "phase_ok (dispatcher s) st \<Longrightarrow> phase_ok (dispatcher t) st" "caller_ok (caller s c) st \<Longrightarrow> caller_ok (caller t c) st"
    "dispatcher t = D_Waiting False d \<Longrightarrow> dispatcher s = D_Waiting False d"
    "dispatcher t = D_Run ts \<longleftrightarrow> dispatcher s = D_Run ts"
  using assms by (auto simp: ti_notify.simps split: if_splits)

lemma ti_inv_notify: "ti_notify s t \<Longrightarrow> ti_inv s \<Longrightarrow> ti_inv t"
proof -
  assume n: "ti_notify s t" and s: "ti_inv s"
  note I = ti_invD [OF s] and f = ti_notify_fields [OF n]
  show ?thesis
  proof (rule ti_invI)
    show "deadline_ok t" using I(7) f(1) f(8) unfolding deadline_ok_def by metis
  qed (use I f in auto)
qed

lemma ti_inv_notify_if: "ti_notify_if b s t \<Longrightarrow> ti_inv s \<Longrightarrow> ti_inv t"
  by (auto simp: ti_notify_if_def intro: ti_inv_notify split: if_splits)

lemma ti_inv_section:
  assumes s: "ti_inv s" and d: "dispatcher s = D_Check \<or> (\<exists>b d. dispatcher s = D_Waiting b d)"
    and sec: "dispatcher_section now s = Some (t, es)"
  shows "ti_inv t"
proof -
  note I = ti_invD [OF s]
  have noStart: "caller s c \<noteq> TC_StartThread" for c using I(5) [of c] d by auto
  have st: "ti_status s = TI_STARTED \<or> ti_status s = TI_STOPPING" using I(3) d by auto
  consider "ti_status s = TI_STARTED" "before_bound now (taskMap s) = []" "dispatcher_wait now s = Some t"
    | "ti_status s = TI_STARTED" "(t, es) = dispatcher_take now s"
    | "ti_status s = TI_STOPPING" "t = s\<lparr>dispatcher := D_Run []\<rparr>"
    using sec st by (auto simp: dispatcher_section_def split: if_splits)
  then show ?thesis
  proof cases
    case 1
    then show ?thesis
      using I noStart by (intro ti_invI)
        (auto simp: dispatcher_wait_def Let_def deadline_ok_def split: if_splits)
  next
    case 2
    have "length (taskMap s) - length (before_bound now (taskMap s)) = length (from_bound now (taskMap s))"
      by (metis bound_split diff_add_inverse length_append)
    with 2 show ?thesis
      using I noStart from_bound_sorted [OF I(1)]
      by (intro ti_invI) (auto simp: dispatcher_take_def Let_def deadline_ok_def)
  next
    case 3
    then show ?thesis using I noStart by (intro ti_invI) (auto simp: deadline_ok_def)
  qed
qed

lemma ti_section_some:
  assumes s: "ti_inv s" and d: "dispatcher s = D_Check \<or> (\<exists>b d. dispatcher s = D_Waiting b d)"
  shows "dispatcher_section now s \<noteq> None"
proof -
  note I = ti_invD [OF s]
  have "ti_status s \<noteq> TI_STOPPED" using I(3) d by auto
  then show ?thesis
    using I(2) before_bound_Nil [of now "taskMap s"]
    by (auto simp: dispatcher_section_def dispatcher_wait_def Let_def)
qed

lemma ti_inv_add:
  assumes s: "ti_inv s" and a: "ti_add now task timeout s = Inr (t, b, es)" and n: "ti_notify_if b t u"
  shows "ti_inv u"
proof -
  note I = ti_invD [OF s]
  have st: "ti_status s = TI_STARTED" using a by (auto simp: ti_add_def Let_def split: if_splits)
  have t: "t = s\<lparr>taskCount := taskCount s + 1, taskMap := map_insert (timeout + now) (new_timer_task task) (taskMap s)\<rparr>"
    "b = (if taskCount s = 0 then True else timeout + now < fst (hd (taskMap s)))"
    using a st by (auto simp: ti_add_def Let_def)
  have base: "sorted (map fst (taskMap t))" "taskCount t = length (taskMap t)" "phase_ok (dispatcher t) (ti_status t)"
      "\<And>c. caller_ok (caller t c) (ti_status t)" "\<And>c. caller t c = TC_StartThread \<Longrightarrow> dispatcher t = D_None"
      "\<And>c d. caller t c = TC_StartThread \<Longrightarrow> caller t d = TC_StartThread \<Longrightarrow> c = d"
    using I st by (auto simp: t(1) map_insert_sorted)
  show ?thesis
  proof (cases b)
    case True
    with n have ntf: "ti_notify t u" by (simp add: ti_notify_if_def)
    have "dispatcher u \<noteq> D_Waiting False d" for d
    proof
      assume w: "dispatcher u = D_Waiting False d"
      have idle: "caller t c \<noteq> TC_StartWait False" "caller t c \<noteq> TC_StopWait False e" for c e
        using base(4) [of c] st by (auto simp: t(1))
      from ntf show False
      proof cases
        case ti_notify_none
        with w show False by auto
      next
        case (ti_notify_dispatcher e)
        with w show False by simp
      qed (use idle in auto)
    qed
    then have "deadline_ok u" by (simp add: deadline_ok_def)
    then show ?thesis
      using base ti_notify_fields [OF ntf] by (intro ti_invI) auto
  next
    case False
    then have "taskMap s \<noteq> []" "\<not> timeout + now < fst (hd (taskMap s))" using t(2) I(2) st by (auto split: if_splits)
    moreover have "map_insert (timeout + now) (new_timer_task task) (taskMap s) \<noteq> []"
      by (metis map_insert_length list.size(3) nat.distinct(1))
    ultimately have "deadline_ok t" using I(7) map_insert_hd [of "taskMap s" "timeout + now" "new_timer_task task"]
      by (simp add: deadline_ok_def t(1))
    with False n base show ?thesis by (intro ti_invI) (auto simp: ti_notify_if_def)
  qed
qed

lemma ti_inv_stop_check:
  assumes s: "ti_inv s" and c: "d = False \<or> caller s c \<noteq> TC_StartThread" and st: "ti_status s = TI_STOPPING \<or> ti_status s = TI_STOPPED"
    and k: "ti_stop_check c d s = (t, es)"
  shows "ti_inv t"
  using ti_invD [OF s] k st
  by (intro ti_invI) (auto simp: ti_stop_check_def deadline_ok_def split: if_splits)

lemma ti_inv_step: "ti_step s es t \<Longrightarrow> ti_inv s \<Longrightarrow> ti_inv t"
proof (induction rule: ti_step.induct)
  case (ti_entry s)
  note I = ti_invD [OF ti_entry(2)]
  have "caller s c \<noteq> TC_StartThread" for c using I(5) [of c] ti_entry by auto
  moreover have "caller_ok (mark_caller (caller s c)) TI_STARTED" if "ti_status s = TI_STARTING" for c
    using I(4) [of c] that calculation [of c] by (cases "caller s c") auto
  ultimately show ?case using I ti_entry(1)
    by (intro ti_invI) (auto simp: dispatcher_entry_def ti_notify_all_def deadline_ok_def split: if_splits)
next
  case (ti_loop s now t es)
  then show ?case by (intro ti_inv_section [of s now t es]) auto
next
  case (ti_wake s b d now t es)
  then show ?case by (intro ti_inv_section [of s now t es]) auto
next
  case (ti_run_one s ts t u es)
  with ti_invD [OF ti_run_one(4)] show ?case
    by (intro ti_invI) (auto simp: dispatcher_run_one_def deadline_ok_def)
next
  case (ti_again s)
  with ti_invD [OF ti_again(2)] show ?case
    by (intro ti_invI) (auto simp: dispatcher_again_def deadline_ok_def)
next
  case (ti_end s t)
  note I = ti_invD [OF ti_end(3)]
  have st: "ti_status s = TI_STOPPING" using I(3) ti_end(1) by simp
  have "caller s c \<noteq> TC_StartThread" for c using I(5) [of c] ti_end(1) by auto
  moreover have "caller_ok (caller s c) TI_STOPPED" if "caller s c \<noteq> TC_StartThread" for c
    using I(4) [of c] that st by (cases "caller s c") auto
  ultimately have "ti_inv (dispatcher_end s)"
    using I ti_end(1) st by (intro ti_invI) (auto simp: dispatcher_end_def deadline_ok_def)
  with ti_end(2) show ?case by (rule ti_inv_notify_if)
next
  case (ti_factory_set s)
  with ti_invD [OF ti_factory_set] show ?case
    by (intro ti_invI) (auto simp: ti_setThreadFactory_def deadline_ok_def)
next
  case (ti_start_ok s c t)
  note I = ti_invD [OF ti_start_ok(3)]
  show ?case
  proof (cases "ti_status s = TI_UNINITIALIZED")
    case True
    have "dispatcher s = D_None" using I(3) True by (cases "dispatcher s") auto
    moreover have "caller s d \<noteq> TC_StartThread" "caller_ok (caller s d) TI_STARTING" for d
      using I(4) [of d] True by (cases "caller s d"; simp)+
    ultimately show ?thesis using I ti_start_ok(1,2) True
      by (intro ti_invI) (auto simp: ti_start_def deadline_ok_def split: if_splits)
  next
    case False
    with I ti_start_ok(1,2) show ?thesis
      by (intro ti_invI) (auto simp: ti_start_def deadline_ok_def split: if_splits)
  qed
next
  case (ti_thread s c)
  note I = ti_invD [OF ti_thread(2)]
  have "caller s d \<noteq> TC_StartThread" if "d \<noteq> c" for d using I(6) [of c d] ti_thread(1) that by auto
  moreover have "ti_status s = TI_STARTING \<or> ti_status s = TI_STOPPING" using I(4) [of c] ti_thread(1) by simp
  ultimately show ?case using I
    by (intro ti_invI) (auto simp: ti_start_thread_def deadline_ok_def split: if_splits)
next
  case (ti_check s c)
  with ti_invD [OF ti_check(2)] show ?case
    by (intro ti_invI) (auto simp: ti_start_check_def deadline_ok_def split: if_splits)
next
  case (ti_start_wake s c b)
  with ti_invD [OF ti_start_wake(2)] show ?case
    by (intro ti_invI) (auto simp: ti_start_check_def deadline_ok_def split: if_splits)
next
  case (ti_stop_call s c t es)
  note I = ti_invD [OF ti_stop_call(3)]
  consider "ti_status s = TI_UNINITIALIZED" | "ti_status s = TI_STARTING \<or> ti_status s = TI_STARTED"
    | "ti_status s = TI_STOPPING \<or> ti_status s = TI_STOPPED" by (cases "ti_status s") auto
  then show ?case
  proof cases
    case 1
    have "dispatcher s = D_None" using I(3) 1 by (cases "dispatcher s") auto
    moreover have "caller_ok (caller s d) TI_STOPPED" "caller s d \<noteq> TC_StartThread" for d
      using I(4) [of d] 1 by (cases "caller s d"; simp)+
    ultimately have "ti_inv (s\<lparr>ti_status := TI_STOPPED\<rparr>)" using I
      by (intro ti_invI) (auto simp: deadline_ok_def)
    with 1 ti_stop_call(1,2) show ?thesis
      by (intro ti_inv_stop_check [of "s\<lparr>ti_status := TI_STOPPED\<rparr>" False c t es]) (auto simp: ti_stop_def)
  next
    case 2
    let ?s = "ti_notify_all (s\<lparr>ti_status := TI_STOPPING\<rparr>)"
    have "phase_ok (mark_dispatcher (dispatcher s)) TI_STOPPING" using I(3) 2 by (cases "dispatcher s") auto
    moreover have "caller_ok (mark_caller (caller s d)) TI_STOPPING" for d using I(4) [of d] 2 by (cases "caller s d") auto
    ultimately have "ti_inv ?s" using I 2
      by (intro ti_invI) (auto simp: ti_notify_all_def deadline_ok_def)
    moreover have "ti_status ?s = TI_STOPPING" "caller ?s c = TC_Idle" using ti_stop_call(1) by (simp_all add: ti_notify_all_def)
    ultimately show ?thesis
      using 2 ti_stop_call(2) by (intro ti_inv_stop_check [of ?s True c t es]) (auto simp: ti_stop_def)
  next
    case 3
    with ti_stop_call show ?thesis
      by (intro ti_inv_stop_check [of s False c t es]) (auto simp: ti_stop_def)
  qed
next
  case (ti_stop_wake s c b d t es)
  have "ti_status s = TI_STOPPING \<or> ti_status s = TI_STOPPED"
    using ti_invD(4) [OF ti_stop_wake(3), of c] ti_stop_wake(1) by simp
  with ti_stop_wake show ?case by (intro ti_inv_stop_check [of s d c t es]) auto
next
  case (ti_add_ok now task timeout s t b es u)
  from ti_inv_add [OF ti_add_ok(3,1,2)] show ?case .
next
  case (ti_add_at_ok now now' task expiration s t b es u)
  then have "ti_add now' task (expiration - now) s = Inr (t, b, es)" by (simp add: ti_add_at_def split: if_splits)
  from ti_inv_add [OF ti_add_at_ok(3) this ti_add_at_ok(2)] show ?case .
qed simp_all


section \<open>The tasks of a run\<close>

fun ti_added :: "'r timer_event list \<Rightarrow> (int \<times> 'r) multiset" where
  "ti_added [] = {#}"
| "ti_added (TE_Added k r # es) = add_mset (k, r) (ti_added es)"
| "ti_added (e # es) = ti_added es"

fun ti_dispatched :: "'r timer_event list \<Rightarrow> (int \<times> 'r) multiset" where
  "ti_dispatched [] = {#}"
| "ti_dispatched (TE_Dispatched now k r # es) = add_mset (k, r) (ti_dispatched es)"
| "ti_dispatched (e # es) = ti_dispatched es"

fun ti_dropped :: "'r timer_event list \<Rightarrow> (int \<times> 'r) multiset" where
  "ti_dropped [] = {#}"
| "ti_dropped (TE_Dropped k r # es) = add_mset (k, r) (ti_dropped es)"
| "ti_dropped (e # es) = ti_dropped es"

fun ti_ran :: "'r timer_event list \<Rightarrow> 'r multiset" where
  "ti_ran [] = {#}"
| "ti_ran (TE_Ran t # es) = add_mset (ti_runnable t) (ti_ran es)"
| "ti_ran (e # es) = ti_ran es"

text \<open>No task is taken out before it is due, and no assertion fails.\<close>

fun on_time :: "'r timer_event \<Rightarrow> bool" where
  "on_time (TE_Dispatched now k r) = (k \<le> now)"
| "on_time TE_AssertFailed = False"
| "on_time e = True"

lemma ti_append [simp]:
  "ti_added (es @ fs) = ti_added es + ti_added fs"
  "ti_dispatched (es @ fs) = ti_dispatched es + ti_dispatched fs"
  "ti_dropped (es @ fs) = ti_dropped es + ti_dropped fs"
  "ti_ran (es @ fs) = ti_ran es + ti_ran fs"
proof -
  show "ti_added (es @ fs) = ti_added es + ti_added fs" by (induction es rule: ti_added.induct) simp_all
  show "ti_dispatched (es @ fs) = ti_dispatched es + ti_dispatched fs" by (induction es rule: ti_dispatched.induct) simp_all
  show "ti_dropped (es @ fs) = ti_dropped es + ti_dropped fs" by (induction es rule: ti_dropped.induct) simp_all
  show "ti_ran (es @ fs) = ti_ran es + ti_ran fs" by (induction es rule: ti_ran.induct) simp_all
qed

definition entries :: "(int \<times> 'r timer_task) list \<Rightarrow> (int \<times> 'r) multiset" where
  "entries xs = mset (map (\<lambda>(k, t). (k, ti_runnable t)) xs)"

fun to_run :: "'r dpc \<Rightarrow> 'r multiset" where
  "to_run (D_Run ts) = mset (map ti_runnable ts)"
| "to_run p = {#}"

definition ti_tasks_ok :: "'r timer \<Rightarrow> bool" where
  "ti_tasks_ok s \<longleftrightarrow> (\<forall>e \<in> set (taskMap s). ti_state (snd e) = TI_WAITING) \<and>
     (\<forall>ts. dispatcher s = D_Run ts \<longrightarrow> (\<forall>t \<in> set ts. ti_state t = TI_EXECUTING))"

definition ti_flow :: "'r timer \<Rightarrow> 'r timer_event list \<Rightarrow> 'r timer \<Rightarrow> bool" where
  "ti_flow s es t \<longleftrightarrow> entries (taskMap s) + ti_added es = ti_dispatched es + ti_dropped es + entries (taskMap t) \<and>
     to_run (dispatcher s) + image_mset snd (ti_dispatched es) = ti_ran es + to_run (dispatcher t) \<and>
     ti_tasks_ok t \<and> (\<forall>e \<in> set es. on_time e)"

lemma entries_simps [simp]: "entries [] = {#}" "entries (xs @ ys) = entries xs + entries ys"
  by (simp_all add: entries_def)

lemma entries_insert [simp]: "entries (map_insert k (new_timer_task r) xs) = add_mset (k, r) (entries xs)"
  by (induction k "new_timer_task r" xs rule: map_insert.induct) (auto simp: entries_def new_timer_task_def)

lemma new_timer_task_state [simp]: "ti_state (new_timer_task r) = TI_WAITING"
  by (simp add: new_timer_task_def)

lemma mset_map_remove1: "t \<in> set ts \<Longrightarrow> add_mset (f t) (mset (map f (remove1 t ts))) = mset (map f ts)"
  by (induction ts) auto

lemma dispatched_events:
  "ti_dispatched (map (\<lambda>(k, t). TE_Dispatched now k (ti_runnable t)) xs) = entries xs"
  "ti_added (map (\<lambda>(k, t). TE_Dispatched now k (ti_runnable t)) xs) = {#}"
  "ti_dropped (map (\<lambda>(k, t). TE_Dispatched now k (ti_runnable t)) xs) = {#}"
  "ti_ran (map (\<lambda>(k, t). TE_Dispatched now k (ti_runnable t)) xs) = {#}"
  by (induction xs) (auto simp: entries_def)

lemma dropped_events:
  "ti_dropped (map (\<lambda>(k, t). TE_Dropped k (ti_runnable t)) xs) = entries xs"
  "ti_added (map (\<lambda>(k, t). TE_Dropped k (ti_runnable t)) xs) = {#}"
  "ti_dispatched (map (\<lambda>(k, t). TE_Dropped k (ti_runnable t)) xs) = {#}"
  "ti_ran (map (\<lambda>(k, t). TE_Dropped k (ti_runnable t)) xs) = {#}"
  by (induction xs) (auto simp: entries_def)

text \<open>Steps that leave the tasks alone.\<close>

lemma ti_flow_same:
  assumes "ti_tasks_ok s" and "taskMap t = taskMap s" and "to_run (dispatcher t) = to_run (dispatcher s)"
    and "\<And>ts. dispatcher t = D_Run ts \<Longrightarrow> dispatcher s = D_Run ts \<or> ts = []"
    and "ti_added es = {#}" "ti_dispatched es = {#}" "ti_dropped es = {#}" "ti_ran es = {#}" "\<And>e. e \<in> set es \<Longrightarrow> on_time e"
  shows "ti_flow s es t"
  using assms unfolding ti_flow_def ti_tasks_ok_def by fastforce

lemma to_run_marked [simp]: "to_run (mark_dispatcher p) = to_run p" "mark_dispatcher p = D_Run ts \<longleftrightarrow> p = D_Run ts"
  by (cases p; simp)+

lemma ti_notify_run: "ti_notify s t \<Longrightarrow> to_run (dispatcher t) = to_run (dispatcher s)"
  by (auto simp: ti_notify.simps)

lemma ti_flow_notify: "ti_notify_if b t u \<Longrightarrow> ti_flow s es t \<Longrightarrow> ti_flow s es u"
  using ti_notify_fields(1,9) [of t u] ti_notify_run [of t u]
  by (auto simp: ti_notify_if_def ti_flow_def ti_tasks_ok_def split: if_splits)

lemma ti_section_flow:
  assumes s: "ti_tasks_ok s" and d: "to_run (dispatcher s) = {#}" and sec: "dispatcher_section now s = Some (t, es)"
  shows "ti_flow s es t"
proof (cases "ti_status s = TI_STARTED \<and> before_bound now (taskMap s) \<noteq> []")
  case False
  have "ti_flow s [] (s\<lparr>dispatcher := x\<rparr>)" if "to_run x = {#}" "\<And>ts. x = D_Run ts \<Longrightarrow> ts = []" for x
    by (rule ti_flow_same [OF s]) (use d that in simp_all)
  from this [of "D_Run []"] this [of "D_Waiting False e" for e] False sec show ?thesis
    by (auto simp: dispatcher_section_def dispatcher_wait_def Let_def split: if_splits)
next
  case True
  let ?due = "before_bound now (taskMap s)"
  let ?run = "map (\<lambda>(k, t). if ti_state t = TI_WAITING then t\<lparr>ti_state := TI_EXECUTING\<rparr> else t) ?due"
  have t: "t = s\<lparr>taskMap := from_bound now (taskMap s), taskCount := taskCount s - length ?due, dispatcher := D_Run ?run\<rparr>"
      "es = map (\<lambda>(k, t). TE_Dispatched now k (ti_runnable t)) ?due"
    using True sec by (auto simp: dispatcher_section_def dispatcher_take_def Let_def)
  have in_map: "set ?due \<subseteq> set (taskMap s)" "set (from_bound now (taskMap s)) \<subseteq> set (taskMap s)"
    using bound_split [of now "taskMap s"] by (metis set_append Un_upper1 Un_upper2)+
  have "mset (map ti_runnable ?run) = image_mset snd (entries ?due)"
    by (simp add: entries_def multiset.map_comp comp_def case_prod_beta' if_distrib [of ti_runnable] cong: if_cong)
  moreover have "entries (taskMap s) = entries ?due + entries (from_bound now (taskMap s))"
    by (metis bound_split entries_simps(2))
  moreover have "ti_tasks_ok t"
  proof -
    have "ti_state b = TI_WAITING" if "(a, b) \<in> set (taskMap s)" for a b
      using s that by (force simp: ti_tasks_ok_def)
    then show ?thesis using in_map by (fastforce simp: t ti_tasks_ok_def)
  qed
  ultimately show ?thesis
    using d before_bound_le [of _ _ now "taskMap s"] by (auto simp: ti_flow_def t dispatched_events)
qed

lemma ti_add_flow:
  assumes s: "ti_tasks_ok s" and a: "ti_add now task timeout s = Inr (t, b, es)" and n: "ti_notify_if b t u"
  shows "ti_flow s es u"
proof (rule ti_flow_notify [OF n])
  show "ti_flow s es t"
    using a s by (auto simp: ti_add_def Let_def ti_flow_def ti_tasks_ok_def map_insert_set split: if_splits)
qed

lemma ti_stop_flow:
  assumes "ti_tasks_ok s" and "ti_stop_check c d s = (t, es)"
  shows "ti_flow s es t"
  using assms by (auto simp: ti_stop_check_def ti_flow_def ti_tasks_ok_def dropped_events split: if_splits)

lemma ti_step_flow: "ti_step s es t \<Longrightarrow> ti_tasks_ok s \<Longrightarrow> ti_inv s \<Longrightarrow> ti_flow s es t"
proof (induction rule: ti_step.induct)
  case (ti_loop s now t es)
  then show ?case by (intro ti_section_flow [of s now t es]) auto
next
  case (ti_wake s b d now t es)
  then show ?case by (intro ti_section_flow [of s now t es]) auto
next
  case (ti_assert s b d now)
  then show ?case using ti_section_some [of s now] by auto
next
  case (ti_run_one s ts t u es)
  then have ex: "\<forall>t \<in> set ts. ti_state t = TI_EXECUTING" by (simp add: ti_tasks_ok_def)
  have u: "u = s\<lparr>dispatcher := D_Run (remove1 t ts)\<rparr>" "es = [TE_Ran (timer_task_run t)]" "ti_runnable (timer_task_run t) = ti_runnable t"
    using ti_run_one(2,3) ex by (auto simp: dispatcher_run_one_def timer_task_run_def)
  have "ti_tasks_ok u" using ti_run_one(4) ex set_remove1_subset [of t ts] unfolding u ti_tasks_ok_def by auto
  then show ?case
    using ti_run_one(1) mset_map_remove1 [OF ti_run_one(2), of ti_runnable] by (simp add: ti_flow_def u del: mset_map mset_remove1)
next
  case (ti_end s t)
  have "ti_flow s [] (dispatcher_end s)"
    by (rule ti_flow_same [OF ti_end(3)]) (use ti_end(1) in \<open>auto simp: dispatcher_end_def split: if_splits\<close>)
  then show ?case by (rule ti_flow_notify [OF ti_end(2)])
next
  case (ti_thread s c)
  from ti_invD(5) [OF ti_thread(3,1)] ti_thread(2) show ?case
    by (intro ti_flow_same) (simp_all add: ti_start_thread_def)
next
  case (ti_stop_call s c t es)
  have k: "ti_flow s es t"
    if "ti_tasks_ok s'" "ti_stop_check c d s' = (t, es)" "taskMap s' = taskMap s" "to_run (dispatcher s') = to_run (dispatcher s)" for s' d
    using ti_stop_flow [OF that(1,2)] that(3,4) by (simp add: ti_flow_def)
  show ?case
    using ti_stop_call k [of s False] k [of "s\<lparr>ti_status := TI_STOPPED\<rparr>" False] k [of "ti_notify_all (s\<lparr>ti_status := TI_STOPPING\<rparr>)" True]
    by (auto simp: ti_stop_def ti_tasks_ok_def ti_notify_all_def split: if_splits)
next
  case (ti_stop_wake s c b d t es)
  then show ?case by (intro ti_stop_flow)
next
  case (ti_add_ok now task timeout s t b es u)
  from ti_add_flow [OF ti_add_ok(3,1,2)] show ?case .
next
  case (ti_add_at_ok now now' task expiration s t b es u)
  then have "ti_add now' task (expiration - now) s = Inr (t, b, es)" by (simp add: ti_add_at_def split: if_splits)
  from ti_add_flow [OF ti_add_at_ok(3) this ti_add_at_ok(2)] show ?case .
qed (auto intro!: ti_flow_same simp: dispatcher_entry_def ti_notify_all_def dispatcher_again_def ti_setThreadFactory_def
    ti_start_def ti_start_check_def split: if_splits)

definition timer_inv :: "'r timer_event list \<Rightarrow> 'r timer \<Rightarrow> bool" where
  "timer_inv es s \<longleftrightarrow> ti_inv s \<and> ti_tasks_ok s \<and>
     ti_added es = ti_dispatched es + ti_dropped es + entries (taskMap s) \<and>
     image_mset snd (ti_dispatched es) = ti_ran es + to_run (dispatcher s) \<and> (\<forall>e \<in> set es. on_time e)"

interpretation ti_runs: step_invariant ti_step "\<lambda>s. s = new_TimerManager" timer_inv
proof
  fix s :: "'r timer"
  assume "s = new_TimerManager"
  then show "timer_inv [] s" by (simp add: timer_inv_def ti_inv_def ti_tasks_ok_def new_TimerManager_def deadline_ok_def)
next
  fix es fs and s t :: "'r timer"
  assume s: "timer_inv es s" and st: "ti_step s fs t"
  from ti_step_flow [OF st] s have f: "ti_flow s fs t" by (simp add: timer_inv_def)
  from s have A: "ti_added es = ti_dispatched es + ti_dropped es + entries (taskMap s)"
    and B: "image_mset snd (ti_dispatched es) = ti_ran es + to_run (dispatcher s)" by (simp_all add: timer_inv_def)
  have "ti_added (es @ fs) = ti_dispatched (es @ fs) + ti_dropped (es @ fs) + entries (taskMap t)"
    using f unfolding ti_flow_def by (simp add: A ac_simps)
  moreover have "image_mset snd (ti_dispatched (es @ fs)) = ti_ran (es @ fs) + to_run (dispatcher t)"
    using f unfolding ti_flow_def by (simp add: B ac_simps)
  moreover have "ti_inv t" using ti_inv_step [OF st] s by (simp add: timer_inv_def)
  ultimately show "timer_inv (es @ fs) t" using f s by (auto simp: timer_inv_def ti_flow_def)
qed


section \<open>A run with two clients that stop the manager\<close>

lemmas ti_runs_snoc = runs_snoc [where step = ti_step]

definition tx_started :: "nat timer" where
  "tx_started = new_TimerManager\<lparr>ti_factory := True, ti_status := TI_STARTED, dispatcher := D_Check\<rparr>"

lemma tx_started_run: "runs ti_step new_TimerManager [] tx_started"
proof -
  have 1: "runs ti_step new_TimerManager [] (ti_setThreadFactory new_TimerManager :: nat timer)"
    by (rule runs_one) (rule ti_factory_set)
  let ?s1 = "ti_setThreadFactory new_TimerManager :: nat timer"
  let ?s2 = "?s1\<lparr>ti_status := TI_STARTING, caller := (caller ?s1)(0 := TC_StartThread)\<rparr>"
  note defs = ti_setThreadFactory_def new_TimerManager_def
  have t2: "ti_step ?s1 [] ?s2" by (rule ti_start_ok [of _ 0]) (simp_all add: ti_start_def defs)
  have 2: "runs ti_step new_TimerManager [] ?s2" by (rule ti_runs_snoc [OF 1 t2]) simp
  let ?s3 = "ti_start_thread 0 ?s2"
  have t3: "ti_step ?s2 [] ?s3" by (rule ti_thread) simp
  have 3: "runs ti_step new_TimerManager [] ?s3" by (rule ti_runs_snoc [OF 2 t3]) simp
  let ?s4 = "dispatcher_entry ?s3"
  have t4: "ti_step ?s3 [] ?s4" by (rule ti_entry) (simp add: ti_start_thread_def)
  have 4: "runs ti_step new_TimerManager [] ?s4" by (rule ti_runs_snoc [OF 3 t4]) simp
  have "ti_step ?s4 [] (ti_start_check 0 ?s4)"
    by (rule ti_check) (simp add: dispatcher_entry_def ti_notify_all_def ti_start_thread_def defs)
  moreover have "ti_start_check 0 ?s4 = tx_started"
    by (simp add: ti_start_check_def dispatcher_entry_def ti_notify_all_def ti_start_thread_def defs tx_started_def fun_eq_iff)
  ultimately have t5: "ti_step ?s4 [] tx_started" by simp
  show ?thesis by (rule ti_runs_snoc [OF 4 t5]) simp
qed

text \<open>A task due at 25 is added, and the dispatcher goes to sleep.\<close>

definition tx_asleep :: "nat timer" where
  "tx_asleep = tx_started\<lparr>taskMap := [(25, new_timer_task 7)], taskCount := 1, dispatcher := D_Waiting False (Some 25)\<rparr>"

lemma tx_asleep_run: "runs ti_step new_TimerManager [TE_Added 25 7] tx_asleep"
proof -
  let ?s = "tx_started\<lparr>taskCount := 1, taskMap := [(25, new_timer_task 7)]\<rparr>"
  note defs = tx_started_def new_TimerManager_def
  have a: "ti_add 20 7 5 tx_started = Inr (?s, True, [TE_Added 25 7])" by (simp add: ti_add_def defs)
  have n: "ti_notify_if True ?s ?s" by (simp add: ti_notify_if_def) (rule ti_notify_none, simp_all add: defs)
  have 1: "runs ti_step new_TimerManager [TE_Added 25 7] ?s"
    by (rule ti_runs_snoc [OF tx_started_run ti_add_ok [OF a n]]) simp
  have d: "dispatcher_section 20 ?s = Some (tx_asleep, [])"
    by (simp add: dispatcher_section_def dispatcher_wait_def before_bound_def tx_asleep_def defs)
  have t: "ti_step ?s [] tx_asleep" by (rule ti_loop [OF _ d]) (simp add: defs)
  show ?thesis by (rule ti_runs_snoc [OF 1 t]) simp
qed

text \<open>
  Both clients wait for the dispatcher to end; it notifies one of them, which returns, and the other
  one sleeps on.
\<close>

definition tx_stuck :: "nat timer" where
  "tx_stuck = tx_started\<lparr>ti_status := TI_STOPPED, dispatcher := D_Done, managerRef := False,
     caller := (\<lambda>_. TC_Idle)(2 := TC_StopWait False False)\<rparr>"

lemma tx_stuck_run: "runs ti_step new_TimerManager [] tx_stuck"
proof -
  note defs = tx_started_def new_TimerManager_def
  let ?s1 = "tx_started\<lparr>ti_status := TI_STOPPING, caller := (caller tx_started)(1 := TC_StopWait False True)\<rparr>"
  have s1: "ti_stop 1 tx_started = (?s1, [])"
    by (simp add: ti_stop_def ti_stop_check_def ti_notify_all_def defs fun_eq_iff)
  have t1: "ti_step tx_started [] ?s1" by (rule ti_stop_call [OF _ s1]) (simp add: defs)
  have 1: "runs ti_step new_TimerManager [] ?s1" by (rule ti_runs_snoc [OF tx_started_run t1]) simp
  let ?s2 = "?s1\<lparr>caller := (caller ?s1)(2 := TC_StopWait False False)\<rparr>"
  have s2: "ti_stop 2 ?s1 = (?s2, [])" by (simp add: ti_stop_def ti_stop_check_def)
  have t2: "ti_step ?s1 [] ?s2" by (rule ti_stop_call [OF _ s2]) (simp add: defs)
  have 2: "runs ti_step new_TimerManager [] ?s2" by (rule ti_runs_snoc [OF 1 t2]) simp
  let ?s3 = "?s2\<lparr>dispatcher := D_Run []\<rparr>"
  have s3: "dispatcher_section 0 ?s2 = Some (?s3, [])" by (simp add: dispatcher_section_def)
  have t3: "ti_step ?s2 [] ?s3" by (rule ti_loop [OF _ s3]) (simp add: defs)
  have 3: "runs ti_step new_TimerManager [] ?s3" by (rule ti_runs_snoc [OF 2 t3]) simp
  have t4: "ti_step ?s3 [] (dispatcher_again ?s3)" by (rule ti_again) simp
  let ?s4 = "dispatcher_again ?s3"
  have 4: "runs ti_step new_TimerManager [] ?s4" by (rule ti_runs_snoc [OF 3 t4]) simp
  let ?e = "dispatcher_end ?s4"
  let ?s5 = "?e\<lparr>caller := (caller ?e)(1 := TC_StopWait True True)\<rparr>"
  have n: "ti_notify_if (ti_status ?s4 = TI_STOPPING) ?e ?s5"
    using ti_notify_stop [of ?e 1 True] by (simp add: ti_notify_if_def dispatcher_again_def dispatcher_end_def)
  have t5: "ti_step ?s4 [] ?s5" by (rule ti_end [OF _ n]) (simp add: dispatcher_again_def)
  have 5: "runs ti_step new_TimerManager [] ?s5" by (rule ti_runs_snoc [OF 4 t5]) simp
  have s6: "ti_stop_check 1 True ?s5 = (tx_stuck, [])"
    by (simp add: ti_stop_check_def dispatcher_end_def dispatcher_again_def tx_stuck_def defs fun_eq_iff)
  have t6: "ti_step ?s5 [] tx_stuck" by (rule ti_stop_wake [OF _ s6, of True]) simp
  show ?thesis by (rule ti_runs_snoc [OF 5 t6]) simp
qed

section \<open>Properties\<close>

text \<open>
  C6: a timer manager runs its tasks on time and once: in every run no task is taken out before it is
  due, the assertion of the dispatcher never fails, the tasks that were added are those taken out,
  dropped by \<^verbatim>\<open>stop\<close> and still in the map, and those taken out have been run, each once, but for
  the ones in the hands of the dispatcher.
\<close>

theorem timer_tasks_on_time:
  assumes "runs ti_step new_TimerManager es s"
  shows "(\<forall>e \<in> set es. on_time e) \<and> ti_added es = ti_dispatched es + ti_dropped es + entries (taskMap s) \<and>
    image_mset snd (ti_dispatched es) = ti_ran es + to_run (dispatcher s)"
  using ti_runs.holds [OF assms refl] by (simp add: timer_inv_def)

theorem timer_tasks_on_time_witness:
  "ti_added [TE_Added 25 (7 :: nat)] = entries (taskMap tx_asleep)"
  using timer_tasks_on_time [OF tx_asleep_run] by simp

text \<open>
  C27: the dispatcher never sleeps past a task. In every reachable state in which it sleeps and has not
  been notified, it sleeps until the first task of the map is due, and without a limit only if there is
  none; the first task is due before all others, and \<^verbatim>\<open>taskCount_\<close> is the number of tasks.
\<close>

theorem timer_sleeps_until_first:
  assumes "runs ti_step new_TimerManager es s" and "dispatcher s = D_Waiting False d"
  shows "d = (if taskMap s = [] then None else Some (fst (hd (taskMap s)))) \<and>
    (\<forall>e \<in> set (taskMap s). fst (hd (taskMap s)) \<le> fst e) \<and> taskCount s = length (taskMap s)"
proof -
  have s: "ti_inv s" using ti_runs.holds [OF assms(1) refl] by (simp add: timer_inv_def)
  have "ti_status s = TI_STARTED" using ti_invD(3) [OF s] assms(2) by simp
  moreover have "fst (hd (taskMap s)) \<le> fst e" if "e \<in> set (taskMap s)" for e
    using ti_invD(1) [OF s] that by (cases "taskMap s") auto
  ultimately show ?thesis
    using ti_invD(2,7) [OF s] assms(2) by (auto simp: deadline_ok_def)
qed

theorem timer_sleeps_until_first_witness:
  "dispatcher tx_asleep = D_Waiting False (Some 25) \<and> Some (25 :: int) = Some (fst (hd (taskMap tx_asleep)))"
  using timer_sleeps_until_first [OF tx_asleep_run, of "Some 25"] by (simp add: tx_asleep_def)

text \<open>
  C28: two clients that stop the manager at the same time can block one of them for ever. In some run
  the manager is stopped and the dispatcher has returned, with one client still waiting for just
  that, not notified: the dispatcher wakes up one thread where all that wait have to go on.
\<close>

theorem timer_stop_loses_client:
  "\<exists>s. runs ti_step (new_TimerManager :: nat timer) [] s \<and> ti_status s = TI_STOPPED \<and> dispatcher s = D_Done \<and>
     caller s = (\<lambda>_. TC_Idle)(2 := TC_StopWait False False)"
  by (intro exI conjI, rule tx_stuck_run) (auto simp: tx_stuck_def)

end
