(* ===== verification/CText.thy ===== *)
theory CText
  imports ThriftPrelude
begin

text \<open>
  What the text-based parts of the library use of the C and C++ languages and their standard
  libraries: loops with an exit, zero-terminated strings and their searches, and numbers as
  text. Characters are their ASCII codes, and a C string is the list of its characters without
  the terminator.
\<close>

section \<open>Loops with an exit\<close>

text \<open>
  \<open>loopT body l\<close> runs the body of a \<^verbatim>\<open>while (true)\<close> loop over the object and the local
  variables \<open>l\<close>. The body continues with new locals (\<open>Inl\<close>), leaves the loop with a result
  (\<open>Inr\<close>) or throws. A loop that is never left is the outcome \<open>Diverges\<close>.
\<close>

partial_function (option) loop_opt ::
  "('l \<Rightarrow> ('s, 'l + 'a) tio) \<Rightarrow> 'l \<Rightarrow> 's \<Rightarrow> ((exc + 'a) \<times> 's) option" where
  "loop_opt body l s =
     (case body l s of
        (Inl e, s') \<Rightarrow> Some (Inl e, s')
      | (Inr (Inr x), s') \<Rightarrow> Some (Inr x, s')
      | (Inr (Inl l'), s') \<Rightarrow> loop_opt body l' s')"

declare loop_opt.simps [code]

definition loopT :: "('l \<Rightarrow> ('s, 'l + 'a) tio) \<Rightarrow> 'l \<Rightarrow> ('s, 'a) tio" where
  "loopT body l s = (case loop_opt body l s of None \<Rightarrow> (Inl Diverges, s) | Some r \<Rightarrow> r)"

definition continue_with :: "'l \<Rightarrow> ('s, 'l + 'a) tio" where
  [tio_simps]: "continue_with l s = (Inr (Inl l), s)"

definition leave_with :: "'a \<Rightarrow> ('s, 'l + 'a) tio" where
  [tio_simps]: "leave_with x s = (Inr (Inr x), s)"

lemma loopT_exc: "body l s = (Inl e, s') \<Longrightarrow> loopT body l s = (Inl e, s')"
  by (simp add: loopT_def loop_opt.simps)

lemma loopT_leave: "body l s = (Inr (Inr x), s') \<Longrightarrow> loopT body l s = (Inr x, s')"
  by (simp add: loopT_def loop_opt.simps)

lemma loopT_step:
  assumes "body l s = (Inr (Inl l'), s')" and "loopT body l' s' = (r, t)" and "r \<noteq> Inl Diverges"
  shows "loopT body l s = (r, t)"
proof -
  have "loop_opt body l s = loop_opt body l' s'"
    by (subst loop_opt.simps) (simp add: assms(1))
  with assms(2,3) show ?thesis by (auto simp: loopT_def split: option.splits)
qed

text \<open>A bounded run of a loop, by which a loop is computed on a concrete input.\<close>

fun loop_fuel :: "nat \<Rightarrow> ('l \<Rightarrow> ('s, 'l + 'a) tio) \<Rightarrow> 'l \<Rightarrow> 's \<Rightarrow> ((exc + 'a) \<times> 's) option" where
  "loop_fuel 0 body l s = None"
| "loop_fuel (Suc n) body l s = (case body l s of
     (Inl e, s') \<Rightarrow> Some (Inl e, s')
   | (Inr (Inr x), s') \<Rightarrow> Some (Inr x, s')
   | (Inr (Inl l'), s') \<Rightarrow> loop_fuel n body l' s')"

lemma loop_fuel: "loop_fuel n body l s = Some r \<Longrightarrow> loopT body l s = r"
proof -
  assume "loop_fuel n body l s = Some r"
  then have "loop_opt body l s = Some r"
  proof (induction n arbitrary: l s)
    case (Suc n)
    then show ?case by (subst loop_opt.simps) (auto split: prod.splits sum.splits)
  qed simp
  then show ?thesis by (simp add: loopT_def)
qed

text \<open>Runs of a loop that get from one configuration to another without leaving it.\<close>

definition loop_reaches :: "('l \<Rightarrow> ('s, 'l + 'a) tio) \<Rightarrow> 'l \<times> 's \<Rightarrow> 'l \<times> 's \<Rightarrow> bool" where
  "loop_reaches body c c' \<longleftrightarrow> (\<forall>r t. loopT body (fst c') (snd c') = (r, t) \<longrightarrow> r \<noteq> Inl Diverges \<longrightarrow>
     loopT body (fst c) (snd c) = (r, t))"

lemma loop_reaches_refl: "loop_reaches body c c"
  by (simp add: loop_reaches_def)

lemma loop_reaches_trans:
  "loop_reaches body c d \<Longrightarrow> loop_reaches body d e \<Longrightarrow> loop_reaches body c e"
  by (simp add: loop_reaches_def)

lemma loop_reaches_step: "body l s = (Inr (Inl l'), s') \<Longrightarrow> loop_reaches body (l, s) (l', s')"
  by (auto simp: loop_reaches_def intro: loopT_step)

lemma loop_reaches_leave:
  "loop_reaches body (l, s) (l', s') \<Longrightarrow> body l' s' = (Inr (Inr x), t) \<Longrightarrow> loopT body l s = (Inr x, t)"
  by (simp add: loop_reaches_def loopT_leave)

text \<open>
  Total correctness of a loop: an invariant that the body keeps while a measure decreases, and
  that gives the postcondition where the loop is left or throws.
\<close>

lemma loopT_total:
  assumes inv: "I l s"
    and body: "\<And>l s. I l s \<Longrightarrow> \<exists>r s'. body l s = (r, s') \<and>
      (case r of Inl e \<Rightarrow> e \<noteq> Diverges \<and> Q (Inl e) s'
       | Inr (Inr x) \<Rightarrow> Q (Inr x) s'
       | Inr (Inl l') \<Rightarrow> I l' s' \<and> m l' s' < (m l s :: nat))"
  shows "\<exists>r t. loopT body l s = (r, t) \<and> r \<noteq> Inl Diverges \<and> Q r t"
  using inv
proof (induction "m l s" arbitrary: l s rule: less_induct)
  case less
  obtain r s' where b: "body l s = (r, s')" and
    post: "case r of Inl e \<Rightarrow> e \<noteq> Diverges \<and> Q (Inl e) s' | Inr (Inr x) \<Rightarrow> Q (Inr x) s'
       | Inr (Inl l') \<Rightarrow> I l' s' \<and> m l' s' < m l s"
    using body [OF less.prems] by blast
  show ?case
  proof (cases r)
    case (Inl e)
    with b post show ?thesis by (auto simp: loopT_exc)
  next
    case (Inr c)
    show ?thesis
    proof (cases c)
      case (Inr x)
      with b post \<open>r = Inr c\<close> show ?thesis by (auto simp: loopT_leave)
    next
      case (Inl l')
      with post \<open>r = Inr c\<close> have "I l' s'" "m l' s' < m l s" by simp_all
      from less.hyps [OF this(2,1)] obtain r' t where
        "loopT body l' s' = (r', t)" "r' \<noteq> Inl Diverges" "Q r' t" by blast
      with loopT_step [of body l s l' s'] b \<open>r = Inr c\<close> Inl show ?thesis by blast
    qed
  qed
qed

section \<open>Characters\<close>

text \<open>The bytes of a string literal.\<close>

definition str :: "string \<Rightarrow> bytes" where
  "str cs = map (\<lambda>c. of_nat (of_char c)) cs"

definition CR :: u8 where "CR = 13"
definition LF :: u8 where "LF = 10"
definition SP :: u8 where "SP = 32"
definition CRLF :: bytes where "CRLF = [CR, LF]"

lemma str_append: "str (a @ b) = str a @ str b"
  by (simp add: str_def)

text \<open>\<^verbatim>\<open>isspace\<close>, \<^verbatim>\<open>isdigit\<close>, \<^verbatim>\<open>isxdigit\<close> and case folding in the C locale.\<close>

definition isspace :: "u8 \<Rightarrow> bool" where
  "isspace b \<longleftrightarrow> b = 32 \<or> (9 \<le> b \<and> b \<le> 13)"

definition isdigit :: "u8 \<Rightarrow> bool" where
  "isdigit b \<longleftrightarrow> 48 \<le> b \<and> b \<le> 57"

definition isxdigit :: "u8 \<Rightarrow> bool" where
  "isxdigit b \<longleftrightarrow> isdigit b \<or> (65 \<le> b \<and> b \<le> 70) \<or> (97 \<le> b \<and> b \<le> 102)"

definition xdigit_val :: "u8 \<Rightarrow> nat" where
  "xdigit_val b = (if isdigit b then unat b - 48 else if b \<le> 70 then unat b - 55 else unat b - 87)"

definition toupper :: "u8 \<Rightarrow> u8" where
  "toupper b = (if 97 \<le> b \<and> b \<le> 122 then b - 32 else b)"

section \<open>Searches\<close>

text \<open>
  \<^verbatim>\<open>strchr\<close> and \<^verbatim>\<open>strstr\<close> give the offset of the first match; \<^verbatim>\<open>strncmp(a, b, n) == 0\<close>
  compares with the terminators.
\<close>

fun strchr :: "bytes \<Rightarrow> u8 \<Rightarrow> nat option" where
  "strchr [] c = None"
| "strchr (b # bs) c = (if b = c then Some 0 else map_option Suc (strchr bs c))"

fun strstr :: "bytes \<Rightarrow> bytes \<Rightarrow> nat option" where
  "strstr [] pat = (if pat = [] then Some 0 else None)"
| "strstr (b # bs) pat =
     (if take (length pat) (b # bs) = pat then Some 0 else map_option Suc (strstr bs pat))"

definition strncmp_eq :: "bytes \<Rightarrow> bytes \<Rightarrow> nat \<Rightarrow> bool" where
  "strncmp_eq a b n \<longleftrightarrow> take n (a @ [0]) = take n (b @ [0])"

text \<open>\<^verbatim>\<open>boost::istarts_with\<close> and \<^verbatim>\<open>boost::iends_with\<close>.\<close>

definition istarts_with :: "bytes \<Rightarrow> bytes \<Rightarrow> bool" where
  "istarts_with s pat \<longleftrightarrow> map toupper (take (length pat) s) = map toupper pat"

definition iends_with :: "bytes \<Rightarrow> bytes \<Rightarrow> bool" where
  "iends_with s pat \<longleftrightarrow> istarts_with (rev s) (rev pat)"

lemma strchr_SomeD: "strchr s c = Some k \<Longrightarrow> k < length s \<and> s ! k = c \<and> c \<notin> set (take k s)"
proof (induction s arbitrary: k)
  case (Cons b bs)
  then show ?case by (cases k) (auto split: if_splits)
qed simp

lemma strchr_append: "c \<notin> set s \<Longrightarrow> strchr (s @ c # t) c = Some (length s)"
  by (induction s) auto

lemma strchr_None_iff: "strchr s c = None \<longleftrightarrow> c \<notin> set s"
  by (induction s) auto

lemma strstr_SomeD:
  "strstr s pat = Some k \<Longrightarrow> k + length pat \<le> length s \<and> take (length pat) (drop k s) = pat"
proof (induction s arbitrary: k)
  case Nil
  then show ?case by (simp split: if_splits)
next
  case (Cons b bs)
  then show ?case
  proof (cases "take (length pat) (b # bs) = pat")
    case True
    then have "length pat \<le> length (b # bs)" by (metis length_take min.cobounded1)
    with True Cons.prems show ?thesis by simp
  next
    case False
    with Cons show ?thesis by (auto split: if_splits)
  qed
qed

text \<open>The first CRLF of a text, where the part before it has no CR.\<close>

lemma strstr_CRLF: "CR \<notin> set l \<Longrightarrow> strstr (l @ CRLF @ t) CRLF = Some (length l)"
  by (induction l) (auto simp: CRLF_def)

lemma strstr_CRLF_partial:
  "CR \<notin> set l \<Longrightarrow> strstr l CRLF = None" "CR \<notin> set l \<Longrightarrow> strstr (l @ [CR]) CRLF = None"
  by (induction l) (auto simp: CRLF_def)

section \<open>Numbers as text\<close>

text \<open>\<open>dec n\<close> is what \<^verbatim>\<open>ostream << n\<close> and \<^verbatim>\<open>printf("%d")\<close> print for \<open>n \<ge> 0\<close>.\<close>

fun dec :: "nat \<Rightarrow> bytes" where
  "dec n = (if n < 10 then [48 + of_nat n] else dec (n div 10) @ [48 + of_nat (n mod 10)])"

declare dec.simps [simp del]

text \<open>\<open>digits b ds\<close> is the value of a run of digits in base \<open>b\<close>.\<close>

definition digits :: "nat \<Rightarrow> bytes \<Rightarrow> nat" where
  "digits base ds = foldl (\<lambda>a d. a * base + xdigit_val d) 0 ds"

definition read_sign :: "bytes \<Rightarrow> bool \<times> bytes" where
  "read_sign t =
     (if t \<noteq> [] \<and> hd t = 45 then (True, tl t)
      else if t \<noteq> [] \<and> hd t = 43 then (False, tl t) else (False, t))"

text \<open>
  \<^verbatim>\<open>atoi\<close> and \<^verbatim>\<open>sscanf(s, "%x", &size)\<close> with \<^verbatim>\<open>size\<close> 0 before. The standard leaves a
  number out of range undefined (\<open>None\<close>); \<^verbatim>\<open>%x\<close> takes a sign and a \<open>0x\<close> prefix.
\<close>

definition atoi :: "bytes \<Rightarrow> int option" where
  "atoi s =
     (let (neg, t) = read_sign (dropWhile isspace s);
          n = int (digits 10 (takeWhile isdigit t));
          v = (if neg then - n else n) in
      if - (2 ^ 31) \<le> v \<and> v < 2 ^ 31 then Some v else None)"

definition scan_hex :: "bytes \<Rightarrow> nat option" where
  "scan_hex s =
     (let (neg, t) = read_sign (dropWhile isspace s);
          t' = (if take 2 t = str ''0x'' \<or> take 2 t = str ''0X'' then drop 2 t else t);
          n = digits 16 (takeWhile isxdigit t') in
      if n < 2 ^ 32 then Some (if neg then u32_diff 0 n else n) else None)"

lemma digits_Nil [simp]: "digits b [] = 0"
  by (simp add: digits_def)

lemma digits_snoc [simp]: "digits b (ds @ [d]) = digits b ds * b + xdigit_val d"
  by (simp add: digits_def)

lemma dec_digit:
  assumes "n < 10"
  shows "isdigit (48 + of_nat n)" and "xdigit_val (48 + of_nat n) = n"
proof -
  have "unat (48 + of_nat n :: u8) = 48 + n"
    using assms by (simp add: unat_word_ariths unat_of_nat)
  then show "isdigit (48 + of_nat n)" and "xdigit_val (48 + of_nat n) = n"
    using assms by (simp_all add: isdigit_def xdigit_val_def word_le_nat_alt)
qed

lemma dec_isdigit: "\<forall>d \<in> set (dec n). isdigit d"
proof (induction n rule: dec.induct)
  case (1 n)
  then show ?case by (subst dec.simps) (auto simp: dec_digit)
qed

lemma digits_dec [simp]: "digits 10 (dec n) = n"
proof (induction n rule: dec.induct)
  case (1 n)
  then show ?case by (subst dec.simps) (auto simp: dec_digit digits_def)
qed

lemma dec_not_Nil [simp]: "dec n \<noteq> []"
  by (subst dec.simps) simp

lemma isdigit_no_space: "isdigit b \<Longrightarrow> \<not> isspace b \<and> b \<noteq> 45 \<and> b \<noteq> 43 \<and> b \<noteq> 0 \<and> b \<noteq> 13"
  by (auto simp: isdigit_def isspace_def word_le_nat_alt)

lemma dec_hd: "isdigit (hd (dec n))"
  using dec_isdigit [of n] by simp

text \<open>A decimal number is read back, after any white space and up to a character that is no digit.\<close>

lemma atoi_dec:
  assumes "n < 2 ^ 31" and "\<forall>b \<in> set sp. isspace b" and "rest = [] \<or> \<not> isdigit (hd rest)"
  shows "atoi (sp @ dec n @ rest) = Some (int n)"
proof -
  have "dropWhile isspace (sp @ dec n @ rest) = dec n @ rest"
    using assms(2) dec_hd [of n] isdigit_no_space
    by (cases "dec n") (auto simp: dropWhile_append2)
  moreover have "read_sign (dec n @ rest) = (False, dec n @ rest)"
    using isdigit_no_space [OF dec_hd [of n]] by (cases "dec n") (auto simp: read_sign_def)
  moreover have "takeWhile isdigit (dec n @ rest) = dec n"
    using dec_isdigit [of n] assms(3) by (cases rest) (auto simp: takeWhile_append2)
  ultimately show ?thesis using assms(1) by (simp add: atoi_def)
qed

end
