(* ===== verification/HttpTransport.thy ===== *)
theory HttpTransport
  imports CText MemoryBuffer "HOL-Library.Sublist"
begin

text \<open>
  \<^verbatim>\<open>THttpTransport\<close> (\<^verbatim>\<open>transport/THttpTransport.{h,cpp}\<close>): HTTP messages over another
  transport. \<open>httpBuf\<close> is the block that the bytes from below are read into, always with a
  zero byte after the \<open>httpBufLen\<close> bytes in use, so that the C string functions find its end;
  \<open>readBuffer\<close> holds the body for the reader, \<open>writeBuffer\<close> the body being written.
  The two virtual parsers of the subclasses are an argument of the operations.
\<close>

record 'u http =
  h_trans :: 'u
  writeBuffer :: mem_buffer
  readBuffer :: mem_buffer
  readHeaders :: bool
  chunked :: bool
  chunkedDone :: bool
  chunkSize :: nat
  contentLength :: nat
  httpBuf :: bytes
  httpPos :: nat
  httpBufLen :: nat
  httpBufSize :: nat

record 'u http_parsers =
  v_parseHeader :: "bytes \<Rightarrow> ('u http, unit) tio"
  v_parseStatusLine :: "bytes \<Rightarrow> exc + bool"

definition lift_result :: "exc + 'a \<Rightarrow> ('s, 'a) tio" where
  [tio_simps]: "lift_result r s = (r, s)"

section \<open>Operations\<close>

definition on_h_trans :: "('u, 'a) tio \<Rightarrow> ('u http, 'a) tio" where
  "on_h_trans = on_part h_trans (\<lambda>t s. s\<lparr>h_trans := t\<rparr>)"

definition on_readBuffer :: "(mem_buffer, 'a) tio \<Rightarrow> ('u http, 'a) tio" where
  "on_readBuffer = on_part readBuffer (\<lambda>t s. s\<lparr>readBuffer := t\<rparr>)"

definition on_writeBuffer :: "(mem_buffer, 'a) tio \<Rightarrow> ('u http, 'a) tio" where
  "on_writeBuffer = on_part writeBuffer (\<lambda>t s. s\<lparr>writeBuffer := t\<rparr>)"

definition new_THttpTransport :: "'u \<Rightarrow> 'u http" where
  "new_THttpTransport t =
     \<lparr>h_trans = t, writeBuffer = new_TMemoryBuffer, readBuffer = new_TMemoryBuffer,
      readHeaders = True, chunked = False, chunkedDone = False, chunkSize = 0, contentLength = 0,
      httpBuf = replicate (1024 + 1) 0, httpPos = 0, httpBufLen = 0, httpBufSize = 1024\<rparr>"

text \<open>\<^verbatim>\<open>httpBuf_[httpBufLen_] = '\0'\<close>.\<close>

definition http_terminate :: "('u http, unit) tio" where
  "http_terminate s = store httpBuf httpBuf_update (httpBufLen s) [0] s"

definition http_refill :: "'u ttransport \<Rightarrow> ('u http, unit) tio" where
  "http_refill T s =
     (let avail = u32_diff (httpBufSize s) (httpBufLen s);
          s1 = (if avail \<le> httpBufSize s div 4 then
                  (let sz = u32 (httpBufSize s * 2) in
                   s\<lparr>httpBufSize := sz, httpBuf := resize (u32 (sz + 1)) (httpBuf s)\<rparr>)
                else s) in
      bindT (on_h_trans (t_read T (u32_diff (httpBufSize s1) (httpBufLen s1)))) (\<lambda>got.
      bindT (store httpBuf httpBuf_update (httpBufLen s1) got) (\<lambda>_.
      bindT (modify (\<lambda>s. s\<lparr>httpBufLen := u32 (httpBufLen s + length got)\<rparr>)) (\<lambda>_.
      bindT http_terminate (\<lambda>_.
      if got = [] then throw (TTransportException TE_UNKNOWN) else ret ())))) s1)"

definition http_shift :: "('u http, unit) tio" where
  "http_shift s =
     bindT (if httpPos s < httpBufLen s then
              (let len = httpBufLen s - httpPos s in
               bindT (load httpBuf (httpPos s) len) (\<lambda>bs.
               bindT (store httpBuf httpBuf_update 0 bs) (\<lambda>_.
               modify (\<lambda>s. s\<lparr>httpBufLen := len\<rparr>))))
            else modify (\<lambda>s. s\<lparr>httpBufLen := 0\<rparr>)) (\<lambda>_.
     bindT (modify (\<lambda>s. s\<lparr>httpPos := 0\<rparr>)) (\<lambda>_. http_terminate)) s"

text \<open>
  The C string at an offset of the block; without a zero byte the search would run past it.
  The line that \<^verbatim>\<open>readLine\<close> returns is a pointer into the block. It lies before
  \<open>httpPos\<close>, where nothing is read again, so it is returned as a value.
\<close>

definition cstr :: "bytes \<Rightarrow> bytes" where
  "cstr bs = takeWhile (\<lambda>b. b \<noteq> 0) bs"

definition readLine_body :: "'u ttransport \<Rightarrow> unit \<Rightarrow> ('u http, unit + bytes) tio" where
  "readLine_body T u s =
     (let rest = drop (httpPos s) (httpBuf s) in
      if 0 \<notin> set rest then (Inl UndefinedBehaviour, s)
      else case strstr (cstr rest) CRLF of
        None \<Rightarrow> bindT http_shift (\<lambda>_. bindT (http_refill T) continue_with) s
      | Some k \<Rightarrow>
          leave_with (take k rest)
            (s\<lparr>httpBuf := (httpBuf s)[httpPos s + k := 0], httpPos := httpPos s + k + length CRLF\<rparr>))"

definition http_readLine :: "'u ttransport \<Rightarrow> ('u http, bytes) tio" where
  "http_readLine T = loopT (readLine_body T) ()"

definition readContent_avail :: "'u ttransport \<Rightarrow> ('u http, nat) tio" where
  "readContent_avail T s =
     (let avail = u32_diff (httpBufLen s) (httpPos s) in
      if avail = 0 then
        bindT (modify (\<lambda>s. s\<lparr>httpPos := 0, httpBufLen := 0\<rparr>)) (\<lambda>_.
        bindT (http_refill T) (\<lambda>_. gets httpBufLen)) s
      else (Inr avail, s))"

definition readContent_body :: "'u ttransport \<Rightarrow> nat \<Rightarrow> nat \<Rightarrow> ('u http, nat + nat) tio" where
  "readContent_body T sz need s =
     (if need = 0 then leave_with sz s
      else bindT (readContent_avail T) (\<lambda>avail s.
        let give = (if need < avail then need else avail) in
        bindT (load httpBuf (httpPos s) give) (\<lambda>bs.
        bindT (on_readBuffer (mem_write bs)) (\<lambda>_.
        bindT (modify (\<lambda>s. s\<lparr>httpPos := u32 (httpPos s + give)\<rparr>)) (\<lambda>_.
        continue_with (need - give)))) s) s)"

definition http_readContent :: "'u ttransport \<Rightarrow> nat \<Rightarrow> ('u http, nat) tio" where
  "http_readContent T sz = loopT (readContent_body T sz) sz"

definition parseChunkSize :: "bytes \<Rightarrow> exc + nat" where
  "parseChunkSize line =
     (let line' = (case strchr line 59 of Some semi \<Rightarrow> take semi line | None \<Rightarrow> line) in
      case scan_hex line' of None \<Rightarrow> Inl UndefinedBehaviour | Some n \<Rightarrow> Inr n)"

definition readChunkedFooters :: "'u ttransport \<Rightarrow> ('u http, unit) tio" where
  "readChunkedFooters T = loopT (\<lambda>_.
     bindT (http_readLine T) (\<lambda>line.
     if line = [] then bindT (modify (\<lambda>s. s\<lparr>chunkedDone := True\<rparr>)) leave_with
     else continue_with ())) ()"

definition readChunked :: "'u ttransport \<Rightarrow> ('u http, nat) tio" where
  "readChunked T =
     bindT (http_readLine T) (\<lambda>line.
     bindT (lift_result (parseChunkSize line)) (\<lambda>size.
     if size = 0 then bindT (readChunkedFooters T) (\<lambda>_. ret 0)
     else bindT (http_readContent T size) (\<lambda>n.
          bindT (http_readLine T) (\<lambda>_. ret n))))"

text \<open>The locals of the header loop are \<^verbatim>\<open>statusLine\<close> and \<^verbatim>\<open>finished\<close>.\<close>

definition readHeaders_body ::
  "'u http_parsers \<Rightarrow> 'u ttransport \<Rightarrow> bool \<times> bool \<Rightarrow> ('u http, (bool \<times> bool) + unit) tio" where
  "readHeaders_body V T = (\<lambda>(statusLine, finished).
     bindT (http_readLine T) (\<lambda>line.
     if line = [] then
       (if finished then bindT (modify (\<lambda>s. s\<lparr>readHeaders := False\<rparr>)) leave_with
        else continue_with (True, finished))
     else if statusLine then
       bindT (lift_result (v_parseStatusLine V line)) (\<lambda>fin. continue_with (False, fin))
     else bindT (v_parseHeader V line) (\<lambda>_. continue_with (False, finished))))"

definition http_readHeaders :: "'u http_parsers \<Rightarrow> 'u ttransport \<Rightarrow> ('u http, unit) tio" where
  "http_readHeaders V T =
     bindT (modify (\<lambda>s. s\<lparr>contentLength := 0, chunked := False, chunkedDone := False, chunkSize := 0\<rparr>))
     (\<lambda>_. loopT (readHeaders_body V T) (True, False))"

definition readMoreData :: "'u http_parsers \<Rightarrow> 'u ttransport \<Rightarrow> ('u http, nat) tio" where
  "readMoreData V T =
     bindT (http_refill T) (\<lambda>_ s.
     bindT (if readHeaders s then http_readHeaders V T else ret ()) (\<lambda>_ s.
     bindT (if chunked s then readChunked T else http_readContent T (contentLength s)) (\<lambda>size.
     bindT (modify (\<lambda>s. s\<lparr>readHeaders := True\<rparr>)) (\<lambda>_. ret size)) s) s)"

definition http_read :: "'u http_parsers \<Rightarrow> 'u ttransport \<Rightarrow> nat \<Rightarrow> ('u http, bytes) tio" where
  "http_read V T len s =
     (if available_read (readBuffer s) = 0 then
        bindT (modify (\<lambda>s. s\<lparr>readBuffer := mem_resetBuffer (readBuffer s)\<rparr>)) (\<lambda>_.
        bindT (readMoreData V T) (\<lambda>got.
        if got = 0 then ret [] else on_readBuffer (mem_read len))) s
      else on_readBuffer (mem_read len) s)"

definition http_readEnd :: "'u ttransport \<Rightarrow> ('u http, nat) tio" where
  "http_readEnd T s =
     (if chunked s then
        loopT (\<lambda>_ s. if chunkedDone s then leave_with 0 s
                     else bindT (readChunked T) (\<lambda>_. continue_with ()) s) () s
      else (Inr 0, s))"

definition http_write :: "bytes \<Rightarrow> ('u http, unit) tio" where
  "http_write buf = on_writeBuffer (mem_write buf)"

text \<open>
  The common part of the two \<^verbatim>\<open>flush\<close> functions: a header made from the length of the body,
  the body, then the flush below and the reset of the state.
\<close>

definition flush_with :: "'u ttransport \<Rightarrow> (nat \<Rightarrow> bytes) \<Rightarrow> ('u http, unit) tio" where
  "flush_with T header s =
     (let body = getBuffer (writeBuffer s) in
      bindT (on_h_trans (t_write T (header (length body)))) (\<lambda>_.
      bindT (on_h_trans (t_write T body)) (\<lambda>_.
      bindT (on_h_trans (t_flush T)) (\<lambda>_.
      modify (\<lambda>s. s\<lparr>writeBuffer := mem_resetBuffer (writeBuffer s), readHeaders := True\<rparr>)))) s)"

definition http_transport ::
  "'u http_parsers \<Rightarrow> ('u http, unit) tio \<Rightarrow> 'u ttransport \<Rightarrow> 'u http ttransport" where
  "http_transport V flush T = \<lparr>
     t_isOpen = (\<lambda>s. t_isOpen T (h_trans s)), t_peek = on_h_trans (t_peek T),
     t_open = on_h_trans (t_open T), t_close = on_h_trans (t_close T),
     t_read = http_read V T, t_readAll = readAll (http_read V T), t_readEnd = http_readEnd T,
     t_write = http_write, t_writeEnd = base_writeEnd, t_flush = flush,
     t_borrow = base_borrow, t_consume = base_consume\<rparr>"

section \<open>The invariant\<close>

text \<open>
  \<open>unread\<close> are the bytes in the block or below that were not given yet; \<open>http_inv\<close> also
  bounds them, so that the block cannot outgrow \<open>2 ^ 30\<close> bytes and the sizes cannot wrap.
\<close>

definition buffered_part :: "'u http \<Rightarrow> bytes" where
  "buffered_part s = slice (httpPos s) (httpBufLen s - httpPos s) (httpBuf s)"

definition unread :: "('u \<Rightarrow> bytes) \<Rightarrow> 'u http \<Rightarrow> bytes" where
  "unread pending s = buffered_part s @ pending (h_trans s)"

definition http_max :: nat where "http_max = 2 ^ 28"

definition http_shape :: "('u \<Rightarrow> bool) \<Rightarrow> ('u \<Rightarrow> bytes) \<Rightarrow> 'u http \<Rightarrow> bool" where
  "http_shape ok pending s \<longleftrightarrow> ok (h_trans s) \<and> mem_inv (readBuffer s) \<and> owner (readBuffer s) \<and>
     httpPos s \<le> httpBufLen s \<and> httpBufLen s \<le> httpBufSize s \<and> 1024 \<le> httpBufSize s \<and>
     httpBufSize s \<le> 2 ^ 30 \<and> length (httpBuf s) = httpBufSize s + 1 \<and>
     httpBufLen s + length (pending (h_trans s)) \<le> http_max \<and>
     wBase (readBuffer s) + length (unread pending s) \<le> http_max"

definition http_inv :: "('u \<Rightarrow> bool) \<Rightarrow> ('u \<Rightarrow> bytes) \<Rightarrow> 'u http \<Rightarrow> bool" where
  "http_inv ok pending s \<longleftrightarrow> http_shape ok pending s \<and> httpBuf s ! httpBufLen s = 0"

text \<open>Everything that filling and shifting the block leaves alone.\<close>

definition http_rest :: "'u http \<Rightarrow> mem_buffer \<times> mem_buffer \<times> bool \<times> bool \<times> bool \<times> nat \<times> nat" where
  "http_rest s = (writeBuffer s, readBuffer s, readHeaders s, chunked s, chunkedDone s, chunkSize s,
     contentLength s)"

definition http_flags :: "'u http \<Rightarrow> mem_buffer \<times> bool \<times> bool \<times> bool \<times> nat \<times> nat" where
  "http_flags s = (writeBuffer s, readHeaders s, chunked s, chunkedDone s, chunkSize s, contentLength s)"

lemma http_rest_flags: "http_rest s' = http_rest s \<Longrightarrow> http_flags s' = http_flags s"
  and http_rest_readBuffer: "http_rest s' = http_rest s \<Longrightarrow> readBuffer s' = readBuffer s"
  by (simp_all add: http_rest_def http_flags_def)

lemma http_shape_D:
  assumes "http_shape ok pending s"
  shows "ok (h_trans s)" "mem_inv (readBuffer s)" "owner (readBuffer s)" "httpPos s \<le> httpBufLen s"
    "httpBufLen s \<le> httpBufSize s" "1024 \<le> httpBufSize s" "httpBufSize s \<le> 1073741824"
    "length (httpBuf s) = httpBufSize s + 1"
    "httpBufLen s + length (pending (h_trans s)) \<le> 268435456"
    "wBase (readBuffer s) + length (unread pending s) \<le> 268435456"
  using assms by (simp_all add: http_shape_def http_max_def)

lemma http_inv_shape: "http_inv ok pending s \<Longrightarrow> http_shape ok pending s"
  by (simp add: http_inv_def)

lemma http_inv_D:
  assumes "http_inv ok pending s"
  shows "ok (h_trans s)" "mem_inv (readBuffer s)" "owner (readBuffer s)" "httpPos s \<le> httpBufLen s"
    "httpBufLen s \<le> httpBufSize s" "1024 \<le> httpBufSize s" "httpBufSize s \<le> 1073741824"
    "length (httpBuf s) = httpBufSize s + 1" "httpBuf s ! httpBufLen s = 0"
    "httpBufLen s + length (pending (h_trans s)) \<le> 268435456"
    "wBase (readBuffer s) + length (unread pending s) \<le> 268435456"
  using assms by (simp_all add: http_inv_def http_shape_def http_max_def)

lemma http_inv_I:
  assumes "ok (h_trans s)" "mem_inv (readBuffer s)" "owner (readBuffer s)" "httpPos s \<le> httpBufLen s"
    "httpBufLen s \<le> httpBufSize s" "1024 \<le> httpBufSize s" "httpBufSize s \<le> 1073741824"
    "length (httpBuf s) = httpBufSize s + 1" "httpBuf s ! httpBufLen s = 0"
    "httpBufLen s + length (pending (h_trans s)) \<le> 268435456"
    "wBase (readBuffer s) + length (unread pending s) \<le> 268435456"
  shows "http_inv ok pending s"
  using assms by (simp add: http_inv_def http_shape_def http_max_def)

lemma http_inv_flags [simp]:
  "http_inv ok pending (s\<lparr>readHeaders := a\<rparr>) = http_inv ok pending s"
  "http_inv ok pending (s\<lparr>chunked := a\<rparr>) = http_inv ok pending s"
  "http_inv ok pending (s\<lparr>chunkedDone := a\<rparr>) = http_inv ok pending s"
  "http_inv ok pending (s\<lparr>chunkSize := n\<rparr>) = http_inv ok pending s"
  "http_inv ok pending (s\<lparr>contentLength := n\<rparr>) = http_inv ok pending s"
  "http_inv ok pending (s\<lparr>writeBuffer := w\<rparr>) = http_inv ok pending s"
  by (simp_all add: http_inv_def http_shape_def unread_def buffered_part_def)

lemma unread_flags [simp]:
  "unread pending (s\<lparr>readHeaders := a\<rparr>) = unread pending s"
  "unread pending (s\<lparr>chunked := a\<rparr>) = unread pending s"
  "unread pending (s\<lparr>chunkedDone := a\<rparr>) = unread pending s"
  "unread pending (s\<lparr>chunkSize := n\<rparr>) = unread pending s"
  "unread pending (s\<lparr>contentLength := n\<rparr>) = unread pending s"
  "unread pending (s\<lparr>writeBuffer := w\<rparr>) = unread pending s"
  "unread pending (s\<lparr>readBuffer := w\<rparr>) = unread pending s"
  by (simp_all add: unread_def buffered_part_def)

lemma length_buffered_part: "http_inv ok pending s \<Longrightarrow> length (buffered_part s) = httpBufLen s - httpPos s"
  using http_inv_D [of ok pending s] by (simp add: buffered_part_def)

text \<open>The rest of the block: the bytes in use, the terminator, and what was there before.\<close>

lemma block_split:
  assumes "http_inv ok pending s"
  obtains junk where "drop (httpPos s) (httpBuf s) = buffered_part s @ 0 # junk"
proof -
  note inv = http_inv_D [OF assms]
  have "drop (httpPos s) (httpBuf s) =
      buffered_part s @ drop (httpBufLen s - httpPos s) (drop (httpPos s) (httpBuf s))"
    by (simp only: buffered_part_def slice_def append_take_drop_id)
  also have "drop (httpBufLen s - httpPos s) (drop (httpPos s) (httpBuf s)) = drop (httpBufLen s) (httpBuf s)"
    using inv by simp
  also have "\<dots> = 0 # drop (Suc (httpBufLen s)) (httpBuf s)"
    using inv by (metis Cons_nth_drop_Suc Suc_eq_plus1 le_imp_less_Suc)
  finally show ?thesis by (rule that)
qed

lemma nth_splice_one: "i \<le> length xs \<Longrightarrow> splice i [x] xs ! i = x"
  by (simp add: splice_def nth_append)

lemma cstr_0 [simp]: "cstr (xs @ 0 # ys) = cstr xs"
  by (induction xs) (auto simp: cstr_def)

lemma cstr_append: "cstr (xs @ ys) = (if 0 \<in> set xs then cstr xs else xs @ cstr ys)"
  by (induction xs) (auto simp: cstr_def)

lemma cstr_prefix: "\<exists>zs. cstr (xs @ ys) = cstr xs @ zs"
  by (induction xs) (auto simp: cstr_def)

lemma cstr_take: "take (length (cstr xs)) xs = cstr xs"
  by (simp add: cstr_def takeWhile_eq_take [symmetric])

lemma strstr_prefix: "strstr s pat = Some k \<Longrightarrow> strstr (s @ t) pat = Some k"
proof (induction s arbitrary: k)
  case Nil
  then show ?case by (cases t) (auto split: if_splits)
next
  case (Cons b bs)
  show ?case
  proof (cases "take (length pat) (b # bs) = pat")
    case True
    then have "length pat \<le> length (b # bs)" by (metis length_take min.cobounded1)
    then have "take (length pat) ((b # bs) @ t) = take (length pat) (b # bs)"
      by (simp only: take_append) simp
    with True have "take (length pat) ((b # bs) @ t) = pat" by simp
    with Cons.prems True show ?thesis by simp
  next
    case False
    with Cons.prems obtain j where j: "strstr bs pat = Some j" "k = Suc j" by (auto split: if_splits)
    then have "length pat \<le> length (b # bs)" using strstr_SomeD [OF j(1)] by simp
    then have "take (length pat) ((b # bs) @ t) = take (length pat) (b # bs)"
      by (simp only: take_append) simp
    with False have "take (length pat) ((b # bs) @ t) \<noteq> pat" by simp
    with Cons.IH [OF j(1)] j(2) show ?thesis by simp
  qed
qed

lemma cstr_block:
  assumes "http_inv ok pending s"
  shows "cstr (drop (httpPos s) (httpBuf s)) = cstr (buffered_part s)"
    and "0 \<in> set (drop (httpPos s) (httpBuf s))"
proof -
  obtain junk where "drop (httpPos s) (httpBuf s) = buffered_part s @ 0 # junk"
    using assms by (rule block_split)
  then show "cstr (drop (httpPos s) (httpBuf s)) = cstr (buffered_part s)"
    and "0 \<in> set (drop (httpPos s) (httpBuf s))"
    by simp_all
qed

text \<open>A line of the unread bytes, as far as it is in the block.\<close>

definition first_line :: "('u \<Rightarrow> bytes) \<Rightarrow> 'u http \<Rightarrow> nat option" where
  "first_line pending s = strstr (cstr (unread pending s)) CRLF"

lemma first_line_buffered:
  assumes "strstr (cstr (buffered_part s)) CRLF = Some k"
  shows "first_line pending s = Some k"
proof -
  obtain zs where "cstr (unread pending s) = cstr (buffered_part s) @ zs"
    using cstr_prefix unfolding unread_def by blast
  then show ?thesis using strstr_prefix [OF assms] by (simp add: first_line_def)
qed

section \<open>Filling and shifting the block\<close>

context stream_source
begin

abbreviation "h_inv \<equiv> http_inv inv pending"
abbreviation "h_unread \<equiv> unread pending"

lemma refill_spec:
  assumes "http_shape inv pending s"
  shows "\<exists>s'. http_refill T s =
      (if pending (h_trans s) = [] then Inl (TTransportException TE_UNKNOWN) else Inr (), s') \<and>
    h_inv s' \<and> h_unread s' = h_unread s \<and> http_rest s' = http_rest s \<and> httpPos s' = httpPos s \<and>
    httpBufLen s + length (pending (h_trans s)) = httpBufLen s' + length (pending (h_trans s')) \<and>
    (pending (h_trans s) \<noteq> [] \<longrightarrow> httpBufLen s < httpBufLen s')"
proof -
  note inv = http_shape_D [OF assms]
  define s1 where "s1 = (if u32_diff (httpBufSize s) (httpBufLen s) \<le> httpBufSize s div 4 then
      (let sz = u32 (httpBufSize s * 2) in
       s\<lparr>httpBufSize := sz, httpBuf := resize (u32 (sz + 1)) (httpBuf s)\<rparr>) else s)"
  have s1: "httpBufLen s1 = httpBufLen s" "httpPos s1 = httpPos s" "h_trans s1 = h_trans s"
      "http_rest s1 = http_rest s" "readBuffer s1 = readBuffer s" "httpBufLen s1 < httpBufSize s1" "httpBufSize s1 \<le> 2 ^ 30"
      "1024 \<le> httpBufSize s1" "length (httpBuf s1) = httpBufSize s1 + 1"
      "take (httpBufLen s) (httpBuf s1) = take (httpBufLen s) (httpBuf s)"
    using inv by (auto simp: s1_def Let_def http_rest_def)
  let ?room = "httpBufSize s1 - httpBufLen s1"
  obtain bs t where rd: "t_read T ?room (h_trans s) = (Inr bs, t)" "inv t"
      "pending (h_trans s) = bs @ pending t" "length bs \<le> ?room"
      "pending (h_trans s) \<noteq> [] \<longrightarrow> bs \<noteq> []"
    using read_stream [OF inv(1), of ?room] s1(6) by auto
  let ?n = "httpBufLen s" and ?m = "httpBufLen s + length bs"
  let ?buf = "splice ?m [0] (splice ?n bs (httpBuf s1))"
  let ?s' = "s1\<lparr>h_trans := t, httpBuf := ?buf, httpBufLen := ?m\<rparr>"
  have m: "?m \<le> httpBufSize s1" using rd(4) s1(1,6) by simp
  have "http_refill T s = (if bs = [] then Inl (TTransportException TE_UNKNOWN) else Inr (), ?s')"
    using m s1 rd by (simp add: http_refill_def Let_def s1_def [symmetric] http_terminate_def
        on_h_trans_def tio_simps)
  moreover have take_buf: "take ?m ?buf = take ?n (httpBuf s) @ bs"
    using m s1 by (simp add: take_splice_before take_splice)
  have "buffered_part ?s' @ pending t = buffered_part s @ pending (h_trans s)"
  proof -
    have "buffered_part ?s' = drop (httpPos s) (take ?m ?buf)"
      using inv s1 by (simp add: buffered_part_def drop_take_slice)
    also have "\<dots> = buffered_part s @ bs"
      using inv by (simp add: take_buf buffered_part_def drop_take_slice)
    finally show ?thesis using rd(3) by simp
  qed
  then have un: "h_unread ?s' = h_unread s" by (simp add: unread_def)
  have nth: "?buf ! ?m = 0" using m s1 by (intro nth_splice_one) simp
  have "h_inv ?s'"
  proof (rule http_inv_I)
    show "wBase (readBuffer ?s') + length (h_unread ?s') \<le> 268435456"
      unfolding un using inv(10) s1(5) by simp
    show "httpBuf ?s' ! httpBufLen ?s' = 0" using nth by simp
    show "httpBufLen ?s' + length (pending (h_trans ?s')) \<le> 268435456" using inv(9) rd(3) by simp
    show "length (httpBuf ?s') = httpBufSize ?s' + 1" using m s1(1,9) by simp
  qed (use inv(2-4) rd(2) m s1(1-3,5-8) in simp_all)
  moreover have "http_rest ?s' = http_rest s" using s1(4) by (simp add: http_rest_def)
  moreover have "bs = [] \<longleftrightarrow> pending (h_trans s) = []" using rd(3,5) by auto
  moreover have "httpPos ?s' = httpPos s"
    "httpBufLen s + length (pending (h_trans s)) = httpBufLen ?s' + length (pending (h_trans ?s'))"
    "bs \<noteq> [] \<longrightarrow> httpBufLen s < httpBufLen ?s'"
    using rd(3) s1(2) by simp_all
  ultimately show ?thesis using un by (intro exI [of _ ?s'] conjI) simp_all
qed

lemma shift_spec:
  assumes "h_inv s"
  shows "\<exists>s'. http_shift s = (Inr (), s') \<and> h_inv s' \<and> h_unread s' = h_unread s \<and>
    http_rest s' = http_rest s \<and> h_trans s' = h_trans s \<and> httpPos s' = 0 \<and> httpBufLen s' \<le> httpBufLen s"
proof -
  note inv = http_inv_D [OF assms]
  let ?n = "httpBufLen s - httpPos s"
  let ?buf = "splice ?n [0] (splice 0 (buffered_part s) (httpBuf s))"
  let ?s' = "s\<lparr>httpBuf := ?buf, httpBufLen := ?n, httpPos := 0\<rparr>"
  have len: "length (buffered_part s) = ?n" by (rule length_buffered_part [OF assms])
  have "http_shift s = (Inr (), ?s')"
    using inv len by (cases "httpPos s < httpBufLen s")
      (auto simp: http_shift_def http_terminate_def tio_simps buffered_part_def Let_def)
  moreover have "buffered_part ?s' = buffered_part s"
  proof -
    have "buffered_part ?s' = take ?n ?buf" by (simp add: buffered_part_def)
    also have "\<dots> = buffered_part s"
      using inv len take_splice [of 0 "buffered_part s" "httpBuf s"]
      by (simp add: take_splice_before)
    finally show ?thesis .
  qed
  then have un: "h_unread ?s' = h_unread s" by (simp add: unread_def)
  have nth: "?buf ! ?n = 0" using inv len by (intro nth_splice_one) simp
  have "h_inv ?s'"
    by (rule http_inv_I) (use inv un len nth in simp_all)
  ultimately show ?thesis using un by (auto simp: http_rest_def)
qed

text \<open>Taking a line that is in the block, with the zero byte written over its CR.\<close>

lemma take_line_spec:
  assumes "h_inv s" and "k + 2 \<le> length (buffered_part s)"
  defines "s' \<equiv> s\<lparr>httpBuf := (httpBuf s)[httpPos s + k := 0], httpPos := httpPos s + k + length CRLF\<rparr>"
  shows "h_inv s'" and "h_unread s' = drop (k + 2) (h_unread s)" and "http_rest s' = http_rest s"
    and "httpPos s < httpPos s'" and "httpBufLen s' = httpBufLen s" and "h_trans s' = h_trans s"
proof -
  note inv = http_inv_D [OF assms(1)]
  have k: "httpPos s + k + 2 \<le> httpBufLen s"
    using assms(2) length_buffered_part [OF assms(1)] inv by simp
  have "buffered_part s' = drop (httpPos s + (k + 2)) (take (httpBufLen s) (httpBuf s'))"
    using k by (simp add: s'_def buffered_part_def drop_take_slice CRLF_def)
  also have "\<dots> = drop (k + 2) (buffered_part s)"
    using k by (simp add: s'_def buffered_part_def drop_take_slice [symmetric] drop_update_cancel
        take_update_swap add.commute)
  finally show un: "h_unread s' = drop (k + 2) (h_unread s)"
    using assms(2) by (simp add: unread_def s'_def)
  show rest: "http_rest s' = http_rest s" "httpPos s < httpPos s'"
    "httpBufLen s' = httpBufLen s" "h_trans s' = h_trans s"
    by (simp_all add: http_rest_def s'_def CRLF_def)
  show "h_inv s'"
  proof (rule http_inv_I)
    show "wBase (readBuffer s') + length (h_unread s') \<le> 268435456"
      using inv(11) un by (simp add: s'_def)
  qed (use inv k in \<open>simp_all add: s'_def CRLF_def\<close>)
qed

lemma readLine_found:
  assumes "h_inv s" and "strstr (cstr (buffered_part s)) CRLF = Some k"
  shows "\<exists>s'. readLine_body T l s = (Inr (Inr (take k (h_unread s))), s') \<and> h_inv s' \<and>
    h_unread s' = drop (k + 2) (h_unread s) \<and> http_rest s' = http_rest s \<and>
    first_line pending s = Some k \<and> k + 2 \<le> length (h_unread s)"
proof -
  have "k + 2 \<le> length (cstr (buffered_part s))"
    using strstr_SomeD [OF assms(2)] by (simp add: CRLF_def)
  also have "\<dots> \<le> length (buffered_part s)" by (simp add: cstr_def length_takeWhile_le)
  finally have k: "k + 2 \<le> length (buffered_part s)" .
  obtain junk where "drop (httpPos s) (httpBuf s) = buffered_part s @ 0 # junk"
    using assms(1) by (rule block_split)
  then have line: "take k (drop (httpPos s) (httpBuf s)) = take k (h_unread s)"
    using k by (simp add: unread_def)
  show ?thesis
    using take_line_spec [OF assms(1) k] first_line_buffered [OF assms(2)] k line
    by (auto simp: readLine_body_def Let_def cstr_block [OF assms(1)] assms(2) leave_with_def unread_def)
qed

lemma readLine_more:
  assumes "h_inv s" and "strstr (cstr (buffered_part s)) CRLF = None"
  shows "\<exists>s'. readLine_body T l s =
      (if pending (h_trans s) = [] then Inl (TTransportException TE_UNKNOWN) else Inr (Inl ()), s') \<and>
    h_inv s' \<and> h_unread s' = h_unread s \<and> http_rest s' = http_rest s \<and>
    (pending (h_trans s) = [] \<longrightarrow> first_line pending s = None) \<and>
    (pending (h_trans s) \<noteq> [] \<longrightarrow> length (pending (h_trans s')) < length (pending (h_trans s)))"
proof -
  obtain v where v: "http_shift s = (Inr (), v)" "h_inv v" "h_unread v = h_unread s"
      "http_rest v = http_rest s" "h_trans v = h_trans s"
    using shift_spec [OF assms(1)] by blast
  obtain w where w: "http_refill T v = (if pending (h_trans v) = []
        then Inl (TTransportException TE_UNKNOWN) else Inr (), w)" "h_inv w"
      "h_unread w = h_unread v" "http_rest w = http_rest v"
      "httpBufLen v + length (pending (h_trans v)) = httpBufLen w + length (pending (h_trans w))"
      "pending (h_trans v) \<noteq> [] \<longrightarrow> httpBufLen v < httpBufLen w"
    using refill_spec [OF http_inv_shape [OF v(2)]] by blast
  have "readLine_body T l s = bindT (http_refill T) continue_with v"
    using v(1) cstr_block [OF assms(1)] by (simp add: readLine_body_def Let_def assms(2) bindT_def)
  also have "\<dots> = (if pending (h_trans s) = [] then Inl (TTransportException TE_UNKNOWN)
      else Inr (Inl ()), w)"
    using w(1) v(5) by (simp add: bindT_def continue_with_def)
  finally show ?thesis
    using w v assms(2) by (intro exI [of _ w]) (auto simp: first_line_def unread_def)
qed

text \<open>
  \<^verbatim>\<open>readLine\<close> gives the unread bytes up to the first CRLF (before any zero byte), wherever
  the reads below split them; when there is none it reads to the end and throws.
\<close>

lemma readLine_spec:
  assumes "h_inv s"
  shows "\<exists>r s'. http_readLine T s = (r, s') \<and> h_inv s' \<and> http_rest s' = http_rest s \<and>
    (case first_line pending s of
       Some k \<Rightarrow> r = Inr (take k (h_unread s)) \<and> h_unread s' = drop (k + 2) (h_unread s) \<and>
         k + 2 \<le> length (h_unread s)
     | None \<Rightarrow> r = Inl (TTransportException TE_UNKNOWN) \<and> h_unread s' = h_unread s)"
proof -
  let ?I = "\<lambda>(_ :: unit) u. h_inv u \<and> h_unread u = h_unread s \<and> http_rest u = http_rest s"
  let ?Q = "\<lambda>r u. h_inv u \<and> http_rest u = http_rest s \<and> (case first_line pending s of
       Some k \<Rightarrow> r = Inr (take k (h_unread s)) \<and> h_unread u = drop (k + 2) (h_unread s) \<and>
         k + 2 \<le> length (h_unread s)
     | None \<Rightarrow> r = Inl (TTransportException TE_UNKNOWN) \<and> h_unread u = h_unread s)"
  have "\<exists>r t. http_readLine T s = (r, t) \<and> r \<noteq> Inl Diverges \<and> ?Q r t"
    unfolding http_readLine_def
  proof (rule loopT_total [where I = ?I and m = "\<lambda>_ u. length (pending (h_trans u))"])
    show "?I () s" using assms by simp
  next
    fix l u
    assume I: "?I l u"
    then have inv: "h_inv u" and un: "h_unread u = h_unread s" by simp_all
    have fl: "first_line pending u = first_line pending s" using un by (simp add: first_line_def)
    show "\<exists>r s'. readLine_body T l u = (r, s') \<and>
      (case r of Inl e \<Rightarrow> e \<noteq> Diverges \<and> ?Q (Inl e) s'
       | Inr (Inr x) \<Rightarrow> ?Q (Inr x) s'
       | Inr (Inl l') \<Rightarrow> ?I l' s' \<and> length (pending (h_trans s')) < length (pending (h_trans u)))"
    proof (cases "strstr (cstr (buffered_part u)) CRLF")
      case (Some k)
      from readLine_found [OF inv this, of l] I fl show ?thesis by auto
    next
      case None
      from readLine_more [OF inv this, of l] I fl show ?thesis by fastforce
    qed
  qed
  then show ?thesis by blast
qed

text \<open>
  \<^verbatim>\<open>readContent\<close> moves the asked number of unread bytes to the read buffer, across the
  reads below; when there are fewer it moves them all and throws.
\<close>

lemma give_spec:
  assumes "h_inv s" and "n \<le> length (buffered_part s)"
  shows "\<exists>s'. bindT (load httpBuf (httpPos s) n) (\<lambda>bs.
         bindT (on_readBuffer (mem_write bs)) (\<lambda>_.
         bindT (modify (\<lambda>s. s\<lparr>httpPos := u32 (httpPos s + n)\<rparr>)) (\<lambda>_. f))) s = f s' \<and> h_inv s' \<and>
    h_unread s' = drop n (h_unread s) \<and> http_flags s' = http_flags s \<and>
    mem_pending (readBuffer s') = mem_pending (readBuffer s) @ take n (h_unread s)"
proof -
  note inv = http_inv_D [OF assms(1)]
  have n: "httpPos s + n \<le> httpBufLen s"
    using assms(2) length_buffered_part [OF assms(1)] inv by simp
  let ?bs = "slice (httpPos s) n (httpBuf s)"
  have bs: "?bs = take n (h_unread s)"
    using assms(2) n by (simp add: unread_def buffered_part_def slice_split)
  have len: "length ?bs = n" using n inv by simp
  have le: "length (buffered_part s) \<le> length (h_unread s)" by (simp add: unread_def)
  have "mem_room (readBuffer s) (length ?bs + 0)"
    using inv(3,11) assms(2) len le by (simp add: mem_room_def)
  from mem_write_ok [OF inv(2) this] obtain m where
    m: "mem_write ?bs (readBuffer s) = (Inr (), m)" "mem_inv m"
      "mem_pending m = mem_pending (readBuffer s) @ ?bs" "wBase m = wBase (readBuffer s) + n"
      "owner m = owner (readBuffer s)"
    using len by auto
  let ?s' = "s\<lparr>readBuffer := m, httpPos := httpPos s + n\<rparr>"
  have "u32 (httpPos s + n) = httpPos s + n" using n inv by simp
  then have "bindT (load httpBuf (httpPos s) n) (\<lambda>bs.
         bindT (on_readBuffer (mem_write bs)) (\<lambda>_.
         bindT (modify (\<lambda>s. s\<lparr>httpPos := u32 (httpPos s + n)\<rparr>)) (\<lambda>_. f))) s = f ?s'"
    using n inv m(1) by (simp add: tio_simps on_readBuffer_def)
  moreover have "buffered_part ?s' = drop n (buffered_part s)"
    using n by (simp add: buffered_part_def slice_split)
  then have un: "h_unread ?s' = drop n (h_unread s)"
    using assms(2) by (simp add: unread_def)
  have "h_inv ?s'"
    by (rule http_inv_I) (use inv m n un assms(2) le in simp_all)
  ultimately show ?thesis
    using un m(3) bs by (intro exI [of _ ?s']) (simp add: http_flags_def)
qed

text \<open>The bytes at hand, after a refill where there are none.\<close>

lemma avail_spec:
  assumes "h_inv s"
  shows "\<exists>s'. readContent_avail T s =
      (if h_unread s = [] then Inl (TTransportException TE_UNKNOWN)
       else Inr (length (buffered_part s')), s') \<and>
    h_inv s' \<and> h_unread s' = h_unread s \<and> http_rest s' = http_rest s \<and>
    (h_unread s \<noteq> [] \<longrightarrow> buffered_part s' \<noteq> [])"
proof (cases "httpPos s = httpBufLen s")
  case False
  note inv = http_inv_D [OF assms]
  have len: "length (buffered_part s) = httpBufLen s - httpPos s"
    by (rule length_buffered_part [OF assms])
  then have "buffered_part s \<noteq> []" using False inv by auto
  then show ?thesis using assms False inv len
    by (intro exI [of _ s]) (simp add: unread_def readContent_avail_def)
next
  case True
  note inv = http_inv_D [OF assms]
  let ?u = "s\<lparr>httpPos := 0, httpBufLen := 0\<rparr>"
  have empty: "buffered_part s = []" using True by (simp add: buffered_part_def)
  have un: "h_unread ?u = h_unread s" by (simp add: unread_def empty) (simp add: buffered_part_def)
  have "http_shape inv pending ?u"
    using inv un by (simp add: http_shape_def http_max_def)
  from refill_spec [OF this] obtain s' where r: "http_refill T ?u =
      (if pending (h_trans s) = [] then Inl (TTransportException TE_UNKNOWN) else Inr (), s')"
    "h_inv s'" "h_unread s' = h_unread s" "http_rest s' = http_rest ?u" "httpPos s' = 0"
    "pending (h_trans s) \<noteq> [] \<longrightarrow> 0 < httpBufLen s'"
    unfolding un by auto
  have "length (buffered_part s') = httpBufLen s'"
    using length_buffered_part [OF r(2)] r(5) by simp
  moreover have "h_unread s = pending (h_trans s)" by (simp add: unread_def empty)
  moreover have "readContent_avail T s = bindT (http_refill T) (\<lambda>_. gets httpBufLen) ?u"
    using True inv by (simp add: readContent_avail_def Let_def bindT_def modify_def)
  moreover have "http_rest s' = http_rest s" using r(4) by (simp add: http_rest_def)
  ultimately show ?thesis using r(1-3,6)
    by (intro exI [of _ s']) (auto simp: bindT_def gets_def)
qed

lemma readContent_body_spec:
  assumes "h_inv s" and "0 < need"
  shows "\<exists>r s'. readContent_body T sz need s = (r, s') \<and> h_inv s' \<and> http_flags s' = http_flags s \<and>
    (if h_unread s = [] then r = Inl (TTransportException TE_UNKNOWN) \<and> h_unread s' = [] \<and>
         mem_pending (readBuffer s') = mem_pending (readBuffer s)
     else \<exists>g. 0 < g \<and> g \<le> need \<and> g \<le> length (h_unread s) \<and> r = Inr (Inl (need - g)) \<and>
         h_unread s' = drop g (h_unread s) \<and>
         mem_pending (readBuffer s') = mem_pending (readBuffer s) @ take g (h_unread s))"
proof -
  obtain u where u: "readContent_avail T s =
      (if h_unread s = [] then Inl (TTransportException TE_UNKNOWN)
       else Inr (length (buffered_part u)), u)"
    "h_inv u" "h_unread u = h_unread s" "http_rest u = http_rest s"
    "h_unread s \<noteq> [] \<longrightarrow> buffered_part u \<noteq> []"
    using avail_spec [OF assms(1)] by blast
  note same = http_rest_flags [OF u(4)] http_rest_readBuffer [OF u(4)]
  show ?thesis
  proof (cases "h_unread s = []")
    case True
    with u same assms(2) show ?thesis by (simp add: readContent_body_def bindT_def)
  next
    case False
    define g where "g = (if need < length (buffered_part u) then need else length (buffered_part u))"
    have g: "0 < g" "g \<le> need" "g \<le> length (buffered_part u)"
      using assms(2) u(5) False by (auto simp: g_def)
    moreover have "length (buffered_part u) \<le> length (h_unread u)"
      by (simp add: unread_def)
    moreover from give_spec [OF u(2) g(3), of "continue_with (need - g) :: ('a http, nat + nat) tio"] obtain v where
      v: "bindT (load httpBuf (httpPos u) g) (\<lambda>bs.
         bindT (on_readBuffer (mem_write bs)) (\<lambda>_.
         bindT (modify (\<lambda>s. s\<lparr>httpPos := u32 (httpPos s + g)\<rparr>)) (\<lambda>_. continue_with (need - g)))) u =
         (continue_with (need - g) :: ('a http, nat + nat) tio) v" "h_inv v" "h_unread v = drop g (h_unread u)"
        "http_flags v = http_flags u"
        "mem_pending (readBuffer v) = mem_pending (readBuffer u) @ take g (h_unread u)" by blast
    moreover have "readContent_body T sz need s = continue_with (need - g) v"
      using u(1) v(1) False assms(2)
      by (simp add: readContent_body_def bindT_ok Let_def g_def [symmetric])
    ultimately show ?thesis using False u(3) same
      by (intro exI [of _ "Inr (Inl (need - g))"] exI [of _ v]) (auto simp: continue_with_def)
  qed
qed

lemma readContent_spec:
  assumes "h_inv s"
  shows "\<exists>s'. http_readContent T n s =
      (if n \<le> length (h_unread s) then Inr n else Inl (TTransportException TE_UNKNOWN), s') \<and>
    h_inv s' \<and> http_flags s' = http_flags s \<and> h_unread s' = drop n (h_unread s) \<and>
    mem_pending (readBuffer s') = mem_pending (readBuffer s) @ take n (h_unread s)"
proof -
  let ?I = "\<lambda>need u. h_inv u \<and> http_flags u = http_flags s \<and> need \<le> n \<and>
     n - need \<le> length (h_unread s) \<and> h_unread u = drop (n - need) (h_unread s) \<and>
     mem_pending (readBuffer u) = mem_pending (readBuffer s) @ take (n - need) (h_unread s)"
  let ?Q = "\<lambda>r u. r = (if n \<le> length (h_unread s) then Inr n else Inl (TTransportException TE_UNKNOWN)) \<and>
    h_inv u \<and> http_flags u = http_flags s \<and> h_unread u = drop n (h_unread s) \<and>
    mem_pending (readBuffer u) = mem_pending (readBuffer s) @ take n (h_unread s)"
  have "\<exists>r t. http_readContent T n s = (r, t) \<and> r \<noteq> Inl Diverges \<and> ?Q r t"
    unfolding http_readContent_def
  proof (rule loopT_total [where I = ?I and m = "\<lambda>need u. need"])
    show "?I n s" using assms by simp
  next
    fix need u
    assume I: "?I need u"
    show "\<exists>r s'. readContent_body T n need u = (r, s') \<and>
      (case r of Inl e \<Rightarrow> e \<noteq> Diverges \<and> ?Q (Inl e) s'
       | Inr (Inr x) \<Rightarrow> ?Q (Inr x) s'
       | Inr (Inl l') \<Rightarrow> ?I l' s' \<and> l' < need)"
    proof (cases "need = 0")
      case True
      with I show ?thesis by (simp add: readContent_body_def leave_with_def)
    next
      case False
      then obtain r v where v: "readContent_body T n need u = (r, v)" "h_inv v" "http_flags v = http_flags u"
        "if h_unread u = [] then r = Inl (TTransportException TE_UNKNOWN) \<and> h_unread v = [] \<and>
           mem_pending (readBuffer v) = mem_pending (readBuffer u)
         else \<exists>g. 0 < g \<and> g \<le> need \<and> g \<le> length (h_unread u) \<and> r = Inr (Inl (need - g)) \<and>
           h_unread v = drop g (h_unread u) \<and>
           mem_pending (readBuffer v) = mem_pending (readBuffer u) @ take g (h_unread u)"
        using readContent_body_spec [of u need n] I by blast
      show ?thesis
      proof (cases "h_unread u = []")
        case True
        then have "n - need = length (h_unread s)" using I by simp
        with v True I False show ?thesis by auto
      next
        case more: False
        with v(4) obtain g where g: "0 < g" "g \<le> need" "g \<le> length (h_unread u)" "r = Inr (Inl (need - g))"
           "h_unread v = drop g (h_unread u)"
           "mem_pending (readBuffer v) = mem_pending (readBuffer u) @ take g (h_unread u)" by auto
        then have eq: "n - (need - g) = n - need + g" using I by simp
        have "take (n - (need - g)) (h_unread s) =
            take (n - need) (h_unread s) @ take g (h_unread u)"
          using I by (simp only: eq take_add)
        moreover have "drop (n - (need - g)) (h_unread s) = drop g (h_unread u)"
          using I by (simp add: eq add.commute)
        moreover have "n - (need - g) \<le> length (h_unread s)"
        proof -
          have "n - need \<le> length (h_unread s)" and "length (h_unread u) = length (h_unread s) - (n - need)"
            using I by simp_all
          then show ?thesis using g(3) eq by linarith
        qed
        moreover have "need - g \<le> n" using I by (auto intro: le_trans [OF diff_le_self])
        ultimately have "?I (need - g) v" using g(2,5,6) v(2,3) I by simp
        with g(1,2,4) v(1) show ?thesis by simp
      qed
    qed
  qed
  then show ?thesis by auto
qed

text \<open>A line without CR and zero bytes, as the peer writes it.\<close>

lemma readLine_line:
  assumes "h_inv s" and "h_unread s = line @ CRLF @ rest" and "CR \<notin> set line" and "0 \<notin> set line"
  obtains s' where "http_readLine T s = (Inr line, s')" and "h_inv s'" and "h_unread s' = rest"
    and "http_rest s' = http_rest s"
proof -
  have "cstr (h_unread s) = line @ CRLF @ cstr rest"
    using assms(2,4) by (simp add: cstr_append CRLF_def CR_def LF_def) (simp add: cstr_def)
  then have "first_line pending s = Some (length line)"
    using strstr_CRLF [OF assms(3)] by (simp add: first_line_def)
  then show ?thesis
    using readLine_spec [OF assms(1)] assms(2) that by (auto simp: CRLF_def)
qed

end

section \<open>Any input at all\<close>

text \<open>
  What the operations do on any bytes: they return, keep the invariant, and go forward in the
  input; they throw the transport's exception, or stop at a line whose number is out of range of
  the C conversion, which the standard leaves undefined.
\<close>

definition out_of_range :: "'u http_parsers \<Rightarrow> bytes \<Rightarrow> bool" where
  "out_of_range V line \<longleftrightarrow> parseChunkSize line = Inl UndefinedBehaviour \<or>
     (\<exists>s. fst (v_parseHeader V line s) = Inl UndefinedBehaviour)"

text \<open>
  A message as the peer writes it: a status line, header lines of which one gives the length, an
  empty line and the body.
\<close>

definition plain_line :: "bytes \<Rightarrow> bool" where
  "plain_line line \<longleftrightarrow> line \<noteq> [] \<and> CR \<notin> set line \<and> 0 \<notin> set line"

definition ignored_header :: "'u http_parsers \<Rightarrow> bytes \<Rightarrow> bool" where
  "ignored_header V line \<longleftrightarrow> plain_line line \<and> (\<forall>s. v_parseHeader V line s = (Inr (), s))"

definition length_header :: "'u http_parsers \<Rightarrow> nat \<Rightarrow> bytes \<Rightarrow> bool" where
  "length_header V n line \<longleftrightarrow> plain_line line \<and>
     (\<forall>s. v_parseHeader V line s = (Inr (), s\<lparr>chunked := False, contentLength := n\<rparr>))"

definition message :: "bytes \<Rightarrow> bytes list \<Rightarrow> bytes \<Rightarrow> bytes" where
  "message status hs body = status @ CRLF @ concat (map (\<lambda>h. h @ CRLF) hs) @ CRLF @ body"

locale http_parsing = stream_source T inv pending
  for T :: "'s ttransport" and inv :: "'s \<Rightarrow> bool" and pending :: "'s \<Rightarrow> bytes" +
  fixes V :: "'s http_parsers"
  assumes parseHeader_frame:
    "\<exists>r c n. v_parseHeader V line s = (r, s\<lparr>chunked := c, contentLength := n\<rparr>) \<and>
       (r = Inr () \<or> r = Inl UndefinedBehaviour)"
    and parseStatusLine_result:
    "(\<exists>b. v_parseStatusLine V line = Inr b) \<or> v_parseStatusLine V line = Inl (TTransportException TE_UNKNOWN)"
begin

definition safe_exc :: "bytes \<Rightarrow> exc \<Rightarrow> bool" where
  "safe_exc input e \<longleftrightarrow> e = TTransportException TE_UNKNOWN \<or>
     (e = UndefinedBehaviour \<and> (\<exists>line. sublist line input \<and> out_of_range V line))"

text \<open>
  \<open>safe U m s\<close>: run on a state whose input is the end of \<open>U\<close>, the action returns with the
  invariant, further on in the input, and what it throws is justified by \<open>U\<close>.
\<close>

definition safe :: "bytes \<Rightarrow> ('s http, 'a) tio \<Rightarrow> 's http \<Rightarrow> bool" where
  "safe U m s \<longleftrightarrow> (\<exists>r s'. m s = (r, s') \<and> h_inv s' \<and> suffix (h_unread s') (h_unread s) \<and>
     (\<forall>e. r = Inl e \<longrightarrow> safe_exc U e))"

lemma safeI:
  "m s = (r, s') \<Longrightarrow> h_inv s' \<Longrightarrow> suffix (h_unread s') (h_unread s) \<Longrightarrow>
   (\<And>e. r = Inl e \<Longrightarrow> safe_exc U e) \<Longrightarrow> safe U m s"
  by (auto simp: safe_def)

lemma safe_throw [simp]: "safe_exc U (TTransportException TE_UNKNOWN)"
  by (simp add: safe_exc_def)

lemma safe_bind:
  assumes "safe U m s" and "\<And>x s'. m s = (Inr x, s') \<Longrightarrow> h_inv s' \<Longrightarrow> suffix (h_unread s') (h_unread s) \<Longrightarrow>
    safe U (f x) s'"
  shows "safe U (bindT m f) s"
proof -
  obtain r s' where m: "m s = (r, s')" "h_inv s'" "suffix (h_unread s') (h_unread s)"
    "\<forall>e. r = Inl e \<longrightarrow> safe_exc U e"
    using assms(1) unfolding safe_def by blast
  show ?thesis
  proof (cases r)
    case (Inl e)
    with m show ?thesis by (simp add: safe_def bindT_exc)
  next
    case (Inr x)
    then have "safe U (f x) s'" using assms(2) m by blast
    then obtain q t where "f x s' = (q, t)" "h_inv t" "suffix (h_unread t) (h_unread s')"
      "\<forall>e. q = Inl e \<longrightarrow> safe_exc U e"
      unfolding safe_def by blast
    with m Inr show ?thesis
      by (intro safeI [of _ s q t]) (auto simp: bindT_ok suffix_def)
  qed
qed

lemma safe_ret: "h_inv s \<Longrightarrow> safe U (ret x) s"
  and safe_leave: "h_inv s \<Longrightarrow> safe U (leave_with y) s"
  and safe_continue: "h_inv s \<Longrightarrow> safe U (continue_with l) s"
  by (simp_all add: safe_def tio_simps)

lemma safe_modify: "h_inv (f s) \<Longrightarrow> h_unread (f s) = h_unread s \<Longrightarrow> safe U (modify f) s"
  by (simp add: safe_def modify_def)

lemma safe_readContent: "h_inv s \<Longrightarrow> safe U (http_readContent T n) s"
  using readContent_spec [of s n] by (auto simp: safe_def suffix_drop)

lemma safe_refill: "h_inv s \<Longrightarrow> safe U (http_refill T) s"
  using refill_spec [OF http_inv_shape, of s] by (auto simp: safe_def)

text \<open>A line that is read is a part of the input, and reading it goes forward.\<close>

lemma readLine_Inr:
  assumes "h_inv s" and "http_readLine T s = (Inr line, s')"
  shows "sublist line (h_unread s)" and "length (h_unread s') < length (h_unread s)" and "h_inv s'"
proof -
  obtain k where k: "line = take k (h_unread s)" "h_unread s' = drop (k + 2) (h_unread s)"
    "k + 2 \<le> length (h_unread s)" "h_inv s'"
    using readLine_spec [OF assms(1)] assms(2) by (auto split: option.splits)
  then show "sublist line (h_unread s)" "length (h_unread s') < length (h_unread s)" "h_inv s'"
    by (simp_all add: sublist_take)
qed

lemma safe_readLine: "h_inv s \<Longrightarrow> safe U (http_readLine T) s"
  using readLine_spec [of s] by (auto simp: safe_def suffix_drop split: option.splits)

lemma safe_line:
  assumes "h_inv s" and "suffix (h_unread s) U"
    and "\<And>line s'. h_inv s' \<Longrightarrow> suffix (h_unread s') U \<Longrightarrow> sublist line U \<Longrightarrow> safe U (f line) s'"
  shows "safe U (bindT (http_readLine T) f) s"
proof (rule safe_bind [OF safe_readLine [OF assms(1)]])
  fix line s'
  assume r: "http_readLine T s = (Inr line, s')" "h_inv s'" "suffix (h_unread s') (h_unread s)"
  then have "sublist line U"
    using readLine_Inr(1) [OF assms(1) r(1)] assms(2)
    by (meson sublist_order.order_trans suffix_imp_sublist)
  moreover have "suffix (h_unread s') U" using r(3) assms(2) by (auto simp: suffix_def)
  ultimately show "safe U (f line) s'" using assms(3) r(2) by blast
qed

lemma line_goes_forward:
  assumes "h_inv s" and "bindT (http_readLine T) f s = (Inr x, t)"
    and "\<And>line s'. h_inv s' \<Longrightarrow> suffix (h_unread s') (h_unread s) \<Longrightarrow> sublist line (h_unread s) \<Longrightarrow>
      safe (h_unread s) (f line) s'"
  shows "length (h_unread t) < length (h_unread s)"
proof -
  obtain line s' where l: "http_readLine T s = (Inr line, s')" "f line s' = (Inr x, t)"
    using assms(2) by (rule bindT_Inr_elim)
  moreover have "suffix (h_unread s') (h_unread s)"
    using safe_readLine [OF assms(1), of "[]"] l(1) by (simp add: safe_def)
  ultimately have "safe (h_unread s) (f line) s'"
    using readLine_Inr [OF assms(1)] assms(3) by blast
  then have "length (h_unread t) \<le> length (h_unread s')"
    using l(2) by (auto simp: safe_def suffix_length_le)
  with readLine_Inr(2) [OF assms(1) l(1)] show ?thesis by simp
qed

text \<open>Loops whose body goes forward in the input end.\<close>

lemma safe_loop:
  assumes "h_inv s" and "suffix (h_unread s) U"
    and body: "\<And>l s U. h_inv s \<Longrightarrow> suffix (h_unread s) U \<Longrightarrow> safe U (body l) s"
    and less: "\<And>l s l' s'. h_inv s \<Longrightarrow> body l s = (Inr (Inl l'), s') \<Longrightarrow>
      length (h_unread s') < length (h_unread s)"
  shows "safe U (loopT body l) s"
proof -
  let ?Q = "\<lambda>r t. h_inv t \<and> suffix (h_unread t) (h_unread s) \<and> (\<forall>e. r = Inl e \<longrightarrow> safe_exc U e)"
  have "\<exists>r t. loopT body l s = (r, t) \<and> r \<noteq> Inl Diverges \<and> ?Q r t"
  proof (rule loopT_total [where I = "\<lambda>_ u. h_inv u \<and> suffix (h_unread u) (h_unread s)"
        and m = "\<lambda>_ u. length (h_unread u)"])
    fix l u
    assume u: "h_inv u \<and> suffix (h_unread u) (h_unread s)"
    then have "safe U (body l) u" using body assms(2) suffix_order.order_trans by blast
    then obtain r v where v: "body l u = (r, v)" "h_inv v" "suffix (h_unread v) (h_unread u)"
      "\<forall>e. r = Inl e \<longrightarrow> safe_exc U e"
      unfolding safe_def by blast
    moreover have "suffix (h_unread v) (h_unread s)" using u v suffix_order.order_trans by blast
    moreover have "e \<noteq> Diverges" if "safe_exc U e" for e using that by (auto simp: safe_exc_def)
    ultimately show "\<exists>r t. body l u = (r, t) \<and>
      (case r of Inl e \<Rightarrow> e \<noteq> Diverges \<and> ?Q (Inl e) t | Inr (Inr x) \<Rightarrow> ?Q (Inr x) t
       | Inr (Inl l') \<Rightarrow> (h_inv t \<and> suffix (h_unread t) (h_unread s)) \<and>
           length (h_unread t) < length (h_unread u))"
      using less u by (auto split: sum.splits)
  qed (use assms(1) in simp)
  then show ?thesis unfolding safe_def by blast
qed

lemma safe_footers: "h_inv s \<Longrightarrow> suffix (h_unread s) U \<Longrightarrow> safe U (readChunkedFooters T) s"
  unfolding readChunkedFooters_def
proof (rule safe_loop)
  fix l :: unit and s U
  let ?f = "\<lambda>line. if line = [] then bindT (modify (\<lambda>s. s\<lparr>chunkedDone := True\<rparr>)) leave_with
      else continue_with () :: ('s http, unit + unit) tio"
  have f: "safe U (?f line) s" if "h_inv s" for line s U
    using that by (auto simp: safe_def tio_simps)
  assume "h_inv s"
  show "safe U (bindT (http_readLine T) ?f) s" if "suffix (h_unread s) U"
    using \<open>h_inv s\<close> that f by (rule safe_line)
  fix l' s'
  assume "bindT (http_readLine T) ?f s = (Inr (Inl l'), s')"
  then show "length (h_unread s') < length (h_unread s)"
    by (rule line_goes_forward [OF \<open>h_inv s\<close> _ f])
qed

lemma safe_chunk_size:
  "h_inv s \<Longrightarrow> sublist line U \<Longrightarrow> safe U (lift_result (parseChunkSize line)) s"
  by (auto simp: safe_def lift_result_def parseChunkSize_def Let_def safe_exc_def out_of_range_def
      split: option.splits)

lemma safe_chunk_rest:
  assumes "h_inv s" and "suffix (h_unread s) U" and "sublist line U"
  shows "safe U (bindT (lift_result (parseChunkSize line)) (\<lambda>size.
     if size = 0 then bindT (readChunkedFooters T) (\<lambda>_. ret 0)
     else bindT (http_readContent T size) (\<lambda>n. bindT (http_readLine T) (\<lambda>_. ret n)))) s"
proof (rule safe_bind [OF safe_chunk_size [OF assms(1,3)]])
  fix n s'
  assume "h_inv s'" and "suffix (h_unread s') (h_unread s)"
  moreover from this assms(2) have "suffix (h_unread s') U" using suffix_order.order_trans by blast
  ultimately show "safe U (if n = 0 then bindT (readChunkedFooters T) (\<lambda>_. ret 0)
     else bindT (http_readContent T n) (\<lambda>n. bindT (http_readLine T) (\<lambda>_. ret n))) s'"
    by (auto intro: safe_bind safe_footers safe_readContent safe_readLine safe_ret)
qed

lemma safe_readChunked:
  assumes "h_inv s" and "suffix (h_unread s) U"
  shows "safe U (readChunked T) s"
  unfolding readChunked_def using assms by (rule safe_line) (rule safe_chunk_rest)

lemma readChunked_goes_forward:
  assumes "h_inv s" and "readChunked T s = (Inr n, s')"
  shows "length (h_unread s') < length (h_unread s)"
  using assms unfolding readChunked_def by (rule line_goes_forward) (rule safe_chunk_rest)

lemma safe_parseHeader:
  assumes "h_inv s" and "sublist line U"
  shows "safe U (v_parseHeader V line) s"
proof -
  obtain r c n where r: "v_parseHeader V line s = (r, s\<lparr>chunked := c, contentLength := n\<rparr>)"
    "r = Inr () \<or> r = Inl UndefinedBehaviour"
    using parseHeader_frame by blast
  have "out_of_range V line" if "r = Inl UndefinedBehaviour"
    using r(1) that unfolding out_of_range_def by (metis fst_conv)
  with r assms show ?thesis by (auto simp: safe_def safe_exc_def)
qed

lemma safe_parseStatusLine: "h_inv s \<Longrightarrow> safe U (lift_result (v_parseStatusLine V line)) s"
  using parseStatusLine_result [of line] by (auto simp: safe_def lift_result_def)

lemma safe_header_line:
  assumes "h_inv s" and "sublist line U"
  shows "safe U (if line = [] then
       (if finished then bindT (modify (\<lambda>s. s\<lparr>readHeaders := False\<rparr>)) leave_with
        else continue_with (True, finished))
     else if statusLine then
       bindT (lift_result (v_parseStatusLine V line)) (\<lambda>fin. continue_with (False, fin))
     else bindT (v_parseHeader V line) (\<lambda>_. continue_with (False, finished))) s"
  using assms by (auto intro!: safe_bind safe_modify safe_leave safe_continue safe_parseStatusLine
      safe_parseHeader)

lemma safe_readHeaders:
  assumes "h_inv s" and "suffix (h_unread s) U"
  shows "safe U (http_readHeaders V T) s"
  unfolding http_readHeaders_def
proof (rule safe_bind [OF safe_modify])
  fix x :: unit and s'
  assume s': "h_inv s'" "suffix (h_unread s')
      (h_unread s)"
  then have "suffix (h_unread s') U" using assms(2) suffix_order.order_trans by blast
  with s'(1) show "safe U (loopT (readHeaders_body V T) (True, False)) s'"
  proof (rule safe_loop)
    fix l s U
    assume "h_inv s" "suffix (h_unread s) U"
    then show "safe U (readHeaders_body V T l) s"
      unfolding readHeaders_body_def case_prod_beta by (rule safe_line) (rule safe_header_line)
  next
    fix l s l' s'
    assume "h_inv s" "readHeaders_body V T l s = (Inr (Inl l'), s')"
    then show "length (h_unread s') < length (h_unread s)"
      unfolding readHeaders_body_def case_prod_beta
      by (rule line_goes_forward) (rule safe_header_line)
  qed
qed (use assms(1) in simp_all)

lemma safe_readMoreData:
  assumes "h_inv s" and "suffix (h_unread s) U"
  shows "safe U (readMoreData V T) s"
  unfolding readMoreData_def
proof (rule safe_bind [OF safe_refill [OF assms(1)]])
  fix x :: unit and s1
  assume s1: "h_inv s1" "suffix (h_unread s1) (h_unread s)"
  then have U1: "suffix (h_unread s1) U" using assms(2) suffix_order.order_trans by blast
  let ?fin = "\<lambda>sz. bindT (modify (\<lambda>s. s\<lparr>readHeaders := True\<rparr>)) (\<lambda>_. ret sz)"
  have "safe U (bindT (if readHeaders s1 then http_readHeaders V T else ret ()) (\<lambda>_ s.
     bindT (if chunked s then readChunked T else http_readContent T (contentLength s)) ?fin s)) s1"
  proof (rule safe_bind)
    show "safe U (if readHeaders s1 then http_readHeaders V T else ret ()) s1"
      by (simp add: s1(1) U1 safe_readHeaders safe_ret)
  next
    fix y :: unit and s2
    assume s2: "h_inv s2" "suffix (h_unread s2) (h_unread s1)"
    then have U2: "suffix (h_unread s2) U" using U1 suffix_order.order_trans by blast
    have "safe U (bindT (if chunked s2 then readChunked T else http_readContent T (contentLength s2)) ?fin) s2"
      using s2(1) U2 by (auto intro!: safe_bind safe_readChunked safe_readContent safe_modify safe_ret)
    then show "safe U (\<lambda>s. bindT (if chunked s then readChunked T else
        http_readContent T (contentLength s)) ?fin s) s2"
      by (simp add: safe_def)
  qed
  then show "safe U (\<lambda>s. bindT (if readHeaders s then http_readHeaders V T else ret ()) (\<lambda>_ s.
     bindT (if chunked s then readChunked T else http_readContent T (contentLength s)) ?fin s) s) s1"
    by (simp add: safe_def)
qed

lemma h_inv_readBuffer:
  assumes "h_inv s" and "mem_inv m" and "owner m" and "wBase m \<le> wBase (readBuffer s)"
  shows "h_inv (s\<lparr>readBuffer := m\<rparr>)"
  by (rule http_inv_I) (use http_inv_D [OF assms(1)] assms(2-4) in simp_all)

lemma safe_readBuffer_read:
  assumes "h_inv s"
  shows "safe U (on_readBuffer (mem_read n)) s"
proof -
  obtain m where "mem_read n (readBuffer s) = (Inr (take n (mem_pending (readBuffer s))), m)" "mem_inv m"
    "same_writes (readBuffer s) m"
    using mem_read_eq [OF http_inv_D(2) [OF assms]] by blast
  with h_inv_readBuffer [OF assms, of m] http_inv_D [OF assms] show ?thesis
    by (auto simp: safe_def on_readBuffer_def tio_simps same_writes_def)
qed

lemma reset_inv:
  assumes "h_inv s"
  shows "h_inv (s\<lparr>readBuffer := mem_resetBuffer (readBuffer s)\<rparr>)"
proof (rule h_inv_readBuffer [OF assms])
  show "mem_inv (mem_resetBuffer (readBuffer s))"
    using mem_resetBuffer_inv [OF http_inv_D(2) [OF assms]] by simp
qed (use http_inv_D(3) [OF assms] in \<open>simp_all add: mem_resetBuffer_def Let_def\<close>)

lemma safe_http_read:
  assumes "h_inv s" and "suffix (h_unread s) U"
  shows "safe U (http_read V T n) s"
proof (cases "available_read (readBuffer s) = 0")
  case False
  then show ?thesis using safe_readBuffer_read [OF assms(1), of U n] by (simp add: safe_def http_read_def)
next
  case True
  have "safe U (bindT (modify (\<lambda>s. s\<lparr>readBuffer := mem_resetBuffer (readBuffer s)\<rparr>)) (\<lambda>_.
        bindT (readMoreData V T) (\<lambda>got. if got = 0 then ret [] else on_readBuffer (mem_read n)))) s"
    using reset_inv [OF assms(1)]
    by (intro safe_bind safe_modify safe_readMoreData)
      (auto intro: suffix_order.order_trans [OF _ assms(2)] safe_ret safe_readBuffer_read)
  then show ?thesis using True by (simp add: safe_def http_read_def)
qed

lemma safe_http_readEnd:
  assumes "h_inv s" and "suffix (h_unread s) U"
  shows "safe U (http_readEnd T) s"
proof (cases "chunked s")
  case False
  then show ?thesis using assms(1) by (simp add: safe_def http_readEnd_def)
next
  case True
  let ?body = "\<lambda>(_ :: unit) s. (if chunkedDone s then leave_with 0 s
      else bindT (readChunked T) (\<lambda>_. continue_with ()) s) :: (exc + (unit + nat)) \<times> 's http"
  have "safe U (loopT ?body ()) s"
    using assms
  proof (rule safe_loop)
    fix l :: unit and s U
    assume "h_inv s" "suffix (h_unread s) U"
    then have "safe U (bindT (readChunked T) (\<lambda>_. continue_with () :: ('s http, unit + nat) tio)) s"
      by (auto intro: safe_bind safe_readChunked safe_continue)
    with \<open>h_inv s\<close> show "safe U (?body l) s" by (simp add: safe_def leave_with_def)
  next
    fix l l' :: unit and s s'
    assume "h_inv s" "?body l s = (Inr (Inl l'), s')"
    then obtain n where "readChunked T s = (Inr n, s')"
      by (auto simp: tio_simps split: if_splits prod.splits sum.splits)
    with \<open>h_inv s\<close> show "length (h_unread s') < length (h_unread s)"
      by (rule readChunked_goes_forward)
  qed
  then show ?thesis using True by (simp add: safe_def http_readEnd_def)
qed

lemma headers_ignored:
  assumes "h_inv s" and "h_unread s = concat (map (\<lambda>h. h @ CRLF) hs) @ rest"
    and "\<forall>h \<in> set hs. ignored_header V h"
  shows "\<exists>s'. loop_reaches (readHeaders_body V T) ((False, True), s) ((False, True), s') \<and>
    h_inv s' \<and> h_unread s' = rest \<and> http_rest s' = http_rest s"
  using assms
proof (induction hs arbitrary: s)
  case Nil
  then show ?case by (auto intro!: exI [of _ s] loop_reaches_refl)
next
  case (Cons h hs)
  then have h: "h \<noteq> []" "CR \<notin> set h" "0 \<notin> set h" "v_parseHeader V h u = (Inr (), u)" for u
    by (simp_all add: ignored_header_def plain_line_def)
  have "h_unread s = h @ CRLF @ (concat (map (\<lambda>h. h @ CRLF) hs) @ rest)"
    using Cons.prems(2) by simp
  from readLine_line [OF Cons.prems(1) this h(2,3)] obtain s1 where
    s1: "http_readLine T s = (Inr h, s1)" "h_inv s1"
      "h_unread s1 = concat (map (\<lambda>h. h @ CRLF) hs) @ rest" "http_rest s1 = http_rest s" by blast
  have "readHeaders_body V T (False, True) s = (Inr (Inl (False, True)), s1)"
    using s1(1) h by (simp add: readHeaders_body_def bindT_ok continue_with_def)
  then have "loop_reaches (readHeaders_body V T) ((False, True), s) ((False, True), s1)"
    by (rule loop_reaches_step)
  moreover obtain s' where "loop_reaches (readHeaders_body V T) ((False, True), s1) ((False, True), s')"
    "h_inv s'" "h_unread s' = rest" "http_rest s' = http_rest s1"
    using Cons.IH [OF s1(2,3)] Cons.prems(3) by auto
  ultimately show ?case using s1(4) loop_reaches_trans by fastforce
qed

lemma readHeaders_message:
  assumes "h_inv s" and "h_unread s = message status (hs @ len # hs') body @ rest"
    and "plain_line status" and "v_parseStatusLine V status = Inr True"
    and "\<forall>h \<in> set hs \<union> set hs'. ignored_header V h" and "length_header V n len"
  shows "\<exists>s'. http_readHeaders V T s = (Inr (), s') \<and> h_inv s' \<and> h_unread s' = body @ rest \<and>
    readBuffer s' = readBuffer s \<and> \<not> chunked s' \<and> contentLength s' = n"
proof -
  let ?body = "readHeaders_body V T"
  let ?s0 = "s\<lparr>contentLength := 0, chunked := False, chunkedDone := False, chunkSize := 0\<rparr>"
  let ?tail = "CRLF @ body @ rest"
  let ?hs' = "concat (map (\<lambda>h. h @ CRLF) hs') @ ?tail"
  let ?hs = "concat (map (\<lambda>h. h @ CRLF) hs) @ len @ CRLF @ ?hs'"
  have "h_inv ?s0" "h_unread ?s0 = status @ CRLF @ ?hs" using assms(1,2) by (simp_all add: message_def)
  then obtain s1 where s1: "http_readLine T ?s0 = (Inr status, s1)" "h_inv s1" "h_unread s1 = ?hs"
      "http_rest s1 = http_rest ?s0"
    using readLine_line [of ?s0 status ?hs] assms(3) by (auto simp: plain_line_def)
  have "?body (True, False) ?s0 = (Inr (Inl (False, True)), s1)"
    using s1(1) assms(3,4)
    by (simp add: readHeaders_body_def bindT_ok continue_with_def lift_result_def plain_line_def bindT_def)
  note r1 = loop_reaches_step [of ?body, OF this]
  obtain s2 where s2: "loop_reaches ?body ((False, True), s1) ((False, True), s2)" "h_inv s2"
      "h_unread s2 = len @ CRLF @ ?hs'" "http_rest s2 = http_rest s1"
    using headers_ignored [OF s1(2,3)] assms(5) by auto
  obtain s3 where s3: "http_readLine T s2 = (Inr len, s3)" "h_inv s3" "h_unread s3 = ?hs'"
      "http_rest s3 = http_rest s2"
    using readLine_line [OF s2(2,3)] assms(6) by (auto simp: length_header_def plain_line_def)
  let ?s3 = "s3\<lparr>chunked := False, contentLength := n\<rparr>"
  have "?body (False, True) s2 = (Inr (Inl (False, True)), ?s3)"
    using s3(1) assms(6)
    by (simp add: readHeaders_body_def bindT_ok continue_with_def length_header_def plain_line_def)
  note r3 = loop_reaches_step [of ?body, OF this]
  obtain s4 where s4: "loop_reaches ?body ((False, True), ?s3) ((False, True), s4)" "h_inv s4"
      "h_unread s4 = ?tail" "http_rest s4 = http_rest ?s3"
    using headers_ignored [of ?s3 hs' ?tail] s3(2,3) assms(5) by auto
  obtain s5 where s5: "http_readLine T s4 = (Inr [], s5)" "h_inv s5" "h_unread s5 = body @ rest"
      "http_rest s5 = http_rest s4"
    using readLine_line [OF s4(2), of "[]" "body @ rest"] s4(3) by auto
  have "?body (False, True) s4 = (Inr (Inr ()), s5\<lparr>readHeaders := False\<rparr>)"
    using s5(1) by (simp add: readHeaders_body_def bindT_ok leave_with_def bindT_def modify_def)
  then have "loopT ?body (True, False) ?s0 = (Inr (), s5\<lparr>readHeaders := False\<rparr>)"
    using r1 s2(1) r3 s4(1) loop_reaches_trans by (blast intro: loop_reaches_leave)
  then have "http_readHeaders V T s = (Inr (), s5\<lparr>readHeaders := False\<rparr>)"
    by (simp add: http_readHeaders_def bindT_def modify_def)
  moreover have "readBuffer s5 = readBuffer s" "\<not> chunked s5" "contentLength s5 = n"
    using s1(4) s2(4) s3(4) s4(4) s5(4) by (simp_all add: http_rest_def)
  ultimately show ?thesis using s5 by auto
qed

text \<open>
  Reading a message: at the start of a message, with some of its bytes still below, a read gives
  the beginning of the body and leaves the rest of it in the read buffer.
\<close>

lemma read_message:
  assumes "h_inv s" and "h_unread s = message status (hs @ len # hs') body @ rest"
    and "plain_line status" and "v_parseStatusLine V status = Inr True"
    and "\<forall>h \<in> set hs \<union> set hs'. ignored_header V h" and "length_header V (length body) len"
    and "readHeaders s" and "pending (h_trans s) \<noteq> []" and "mem_pending (readBuffer s) = []"
  shows "\<exists>s'. http_read V T n s = (Inr (take n body), s') \<and> h_inv s' \<and> h_unread s' = rest \<and>
    readHeaders s' \<and> mem_pending (readBuffer s') = drop n body"
proof -
  note inv = http_inv_D [OF assms(1)]
  let ?s0 = "s\<lparr>readBuffer := mem_resetBuffer (readBuffer s)\<rparr>"
  have s0: "h_inv ?s0" by (rule reset_inv [OF assms(1)])
  have empty: "available_read (readBuffer s) = 0"
    using length_mem_pending [OF inv(2)] inv(2) assms(9) by simp
  have reset: "mem_pending (mem_resetBuffer (readBuffer s)) = []"
    using mem_resetBuffer_inv [OF inv(2)] by simp
  obtain s1 where s1: "http_refill T ?s0 = (Inr (), s1)" "h_inv s1" "h_unread s1 = h_unread s"
      "http_rest s1 = http_rest ?s0"
    using refill_spec [OF http_inv_shape [OF s0]] assms(8) by auto
  obtain s2 where s2: "http_readHeaders V T s1 = (Inr (), s2)" "h_inv s2" "h_unread s2 = body @ rest"
      "readBuffer s2 = readBuffer s1" "\<not> chunked s2" "contentLength s2 = length body"
    using readHeaders_message [OF s1(2) _ assms(3-6)] s1(3) assms(2) by auto
  obtain s3 where s3: "http_readContent T (length body) s2 = (Inr (length body), s3)" "h_inv s3"
      "h_unread s3 = rest" "http_flags s3 = http_flags s2"
      "mem_pending (readBuffer s3) = mem_pending (readBuffer s2) @ body"
    using readContent_spec [OF s2(2), of "length body"] s2(3) by auto
  let ?s4 = "s3\<lparr>readHeaders := True\<rparr>"
  have "readHeaders s1" "readBuffer s1 = mem_resetBuffer (readBuffer s)"
    using s1(4) assms(7) by (simp_all add: http_rest_def)
  then have more: "readMoreData V T ?s0 = (Inr (length body), ?s4)" and body: "mem_pending (readBuffer s3) = body"
    using s1(1) s2 s3(1,5) reset by (simp_all add: readMoreData_def bindT_def modify_def ret_def)
  obtain m where m: "mem_read n (readBuffer s3) = (Inr (take n body), m)" "mem_inv m"
      "mem_pending m = drop n body" "same_writes (readBuffer s3) m"
    using mem_read_eq [OF http_inv_D(2) [OF s3(2)], of n] body by auto
  have "h_inv (?s4\<lparr>readBuffer := m\<rparr>)"
    using s3(2) m(2,4) http_inv_D(3) [OF s3(2)]
    by (intro h_inv_readBuffer) (simp_all add: same_writes_def)
  moreover have "http_read V T n s = (if body = [] then (Inr [], ?s4) else (Inr (take n body), ?s4\<lparr>readBuffer := m\<rparr>))"
    using empty more m(1)
    by (simp add: http_read_def bindT_def modify_def ret_def on_readBuffer_def on_part_def)
  ultimately show ?thesis using s3(2,3) m(3) body
    by (cases "body = []") (auto intro!: exI [of _ ?s4] exI [of _ "?s4\<lparr>readBuffer := m\<rparr>"])
qed

end

end
