(* ===== verification/HttpClientServer.thy ===== *)
theory HttpClientServer
  imports HttpTransport
begin

text \<open>
  The two ends of the HTTP transport: \<^verbatim>\<open>THttpClient\<close> and \<^verbatim>\<open>THttpServer\<close>
  (\<^verbatim>\<open>transport/THttpClient.{h,cpp}\<close>, \<^verbatim>\<open>transport/THttpServer.{h,cpp}\<close>), with the
  headers they write and the lines they accept, and the proof that what one of them flushes is
  read back by the other over any stream.
\<close>

section \<open>The client\<close>

text \<open>\<^verbatim>\<open>contentLength_ = atoi(value)\<close>, with the conversion from \<^verbatim>\<open>int\<close> to \<^verbatim>\<open>uint32_t\<close>.\<close>

definition set_contentLength :: "bytes \<Rightarrow> ('u http, unit) tio" where
  "set_contentLength val s =
     (case atoi val of
        None \<Rightarrow> (Inl UndefinedBehaviour, s\<lparr>chunked := False\<rparr>)
      | Some n \<Rightarrow> (Inr (), s\<lparr>chunked := False, contentLength := nat (n mod 2 ^ 32)\<rparr>))"

definition client_parseHeader :: "bytes \<Rightarrow> ('u http, unit) tio" where
  "client_parseHeader header s =
     (case strchr header 58 of
        None \<Rightarrow> (Inr (), s)
      | Some colon \<Rightarrow>
          (let val = drop (colon + 1) header in
           if istarts_with header (str ''Transfer-Encoding'') then
             (Inr (), if iends_with val (str ''chunked'') then s\<lparr>chunked := True\<rparr> else s)
           else if istarts_with header (str ''Content-Length'') then set_contentLength val s
           else (Inr (), s)))"

text \<open>
  The status lines are cut in place by zero bytes. \<open>skip_spaces_post\<close> is the client's
  \<^verbatim>\<open>while (*(code++) == ' ')\<close>, \<open>skip_spaces_pre\<close> the server's
  \<^verbatim>\<open>while (*(++path) == ' ')\<close>.
\<close>

definition skip_spaces_post :: "bytes \<Rightarrow> nat \<Rightarrow> nat" where
  "skip_spaces_post line i = i + length (takeWhile (\<lambda>b. b = SP) (drop i line)) + 1"

definition skip_spaces_pre :: "bytes \<Rightarrow> nat \<Rightarrow> nat" where
  "skip_spaces_pre line i = i + 1 + length (takeWhile (\<lambda>b. b = SP) (drop (i + 1) line))"

definition client_parseStatusLine :: "bytes \<Rightarrow> exc + bool" where
  "client_parseStatusLine status =
     (case strchr status SP of
        None \<Rightarrow> Inl (TTransportException TE_UNKNOWN)
      | Some i \<Rightarrow>
          (let status' = status[i := 0];
               code = drop (skip_spaces_post status' i) status' in
           case strchr code SP of
             None \<Rightarrow> Inl (TTransportException TE_UNKNOWN)
           | Some msg \<Rightarrow>
               (let code' = take msg code in
                if code' = str ''200'' then Inr True
                else if code' = str ''100'' then Inr False
                else Inl (TTransportException TE_UNKNOWN))))"

definition client_header :: "bytes \<Rightarrow> bytes \<Rightarrow> bytes \<Rightarrow> nat \<Rightarrow> bytes" where
  "client_header path host version len =
     str ''POST '' @ path @ str '' HTTP/1.1'' @ CRLF @
     str ''Host: '' @ host @ CRLF @
     str ''Content-Type: application/x-thrift'' @ CRLF @
     str ''Content-Length: '' @ dec len @ CRLF @
     str ''Accept: application/x-thrift'' @ CRLF @
     str ''User-Agent: Thrift/'' @ version @ str '' (C++/THttpClient)'' @ CRLF @
     CRLF"

definition client_flush ::
  "bytes \<Rightarrow> bytes \<Rightarrow> bytes \<Rightarrow> 'u ttransport \<Rightarrow> ('u http, unit) tio" where
  "client_flush path host version T = flush_with T (client_header path host version)"

definition client_parsers :: "'u http_parsers" where
  "client_parsers = \<lparr>v_parseHeader = client_parseHeader, v_parseStatusLine = client_parseStatusLine\<rparr>"

definition http_client :: "bytes \<Rightarrow> bytes \<Rightarrow> bytes \<Rightarrow> 'u ttransport \<Rightarrow> 'u http ttransport" where
  "http_client path host version T =
     http_transport client_parsers (client_flush path host version T) T"

section \<open>The server\<close>

definition server_parseHeader :: "bytes \<Rightarrow> ('u http, unit) tio" where
  "server_parseHeader header s =
     (case strchr header 58 of
        None \<Rightarrow> (Inr (), s)
      | Some sz \<Rightarrow>
          (let val = drop (sz + 1) header in
           if strncmp_eq header (str ''Transfer-Encoding'') sz then
             (Inr (), if strstr val (str ''chunked'') \<noteq> None then s\<lparr>chunked := True\<rparr> else s)
           else if strncmp_eq header (str ''Content-Length'') sz then set_contentLength val s
           else (Inr (), s)))"

definition server_parseStatusLine :: "bytes \<Rightarrow> exc + bool" where
  "server_parseStatusLine status =
     (case strchr status SP of
        None \<Rightarrow> Inl (TTransportException TE_UNKNOWN)
      | Some i \<Rightarrow>
          (let status' = status[i := 0] in
           case strchr (drop (skip_spaces_pre status' i) status') SP of
             None \<Rightarrow> Inl (TTransportException TE_UNKNOWN)
           | Some http \<Rightarrow>
               (if take i status = str ''POST'' then Inr True
                else Inl (TTransportException TE_UNKNOWN))))"

text \<open>The broken-down time that \<^verbatim>\<open>gmtime\<close> returns is an argument.\<close>

record broken_time =
  tm_wday :: nat
  tm_mday :: nat
  tm_mon :: nat
  tm_year :: nat
  tm_hour :: nat
  tm_min :: nat
  tm_sec :: nat

definition Days :: "bytes list" where
  "Days = [str ''Sun'', str ''Mon'', str ''Tue'', str ''Wed'', str ''Thu'', str ''Fri'', str ''Sat'']"

definition Months :: "bytes list" where
  "Months = [str ''Jan'', str ''Feb'', str ''Mar'', str ''Apr'', str ''May'', str ''Jun'', str ''Jul'',
     str ''Aug'', str ''Sep'', str ''Oct'', str ''Nov'', str ''Dec'']"

definition getTimeRFC1123 :: "broken_time \<Rightarrow> bytes" where
  "getTimeRFC1123 t =
     Days ! tm_wday t @ str '', '' @ dec (tm_mday t) @ str '' '' @ Months ! tm_mon t @ str '' '' @
     dec (tm_year t + 1900) @ str '' '' @ dec (tm_hour t) @ str '':'' @ dec (tm_min t) @ str '':'' @
     dec (tm_sec t) @ str '' GMT''"

definition server_header :: "bytes \<Rightarrow> bytes \<Rightarrow> nat \<Rightarrow> bytes" where
  "server_header date version len =
     str ''HTTP/1.1 200 OK'' @ CRLF @
     str ''Date: '' @ date @ CRLF @
     str ''Server: Thrift/'' @ version @ CRLF @
     str ''Content-Type: application/x-thrift'' @ CRLF @
     str ''Content-Length: '' @ dec len @ CRLF @
     str ''Connection: Keep-Alive'' @ CRLF @
     CRLF"

definition server_flush :: "broken_time \<Rightarrow> bytes \<Rightarrow> 'u ttransport \<Rightarrow> ('u http, unit) tio" where
  "server_flush now version T = flush_with T (server_header (getTimeRFC1123 now) version)"

definition server_parsers :: "'u http_parsers" where
  "server_parsers = \<lparr>v_parseHeader = server_parseHeader, v_parseStatusLine = server_parseStatusLine\<rparr>"

definition http_server :: "broken_time \<Rightarrow> bytes \<Rightarrow> 'u ttransport \<Rightarrow> 'u http ttransport" where
  "http_server now version T = http_transport server_parsers (server_flush now version T) T"

section \<open>The parsers keep to their contract\<close>

lemma set_contentLength_frame:
  "\<exists>r c n. set_contentLength val s = (r, s\<lparr>chunked := c, contentLength := n\<rparr>) \<and>
     (r = Inr () \<or> r = Inl UndefinedBehaviour)"
proof (cases "atoi val")
  case None
  have "s\<lparr>chunked := False\<rparr> = s\<lparr>chunked := False, contentLength := contentLength s\<rparr>" by simp
  with None show ?thesis unfolding set_contentLength_def by (metis option.simps(4))
next
  case (Some n)
  then show ?thesis by (auto simp: set_contentLength_def)
qed

lemma no_change: "\<exists>c n. s = s\<lparr>chunked := c, contentLength := n\<rparr>" for s :: "'u http"
  by (intro exI [of _ "chunked s"] exI [of _ "contentLength s"]) simp

lemma chunked_change: "\<exists>c n. s\<lparr>chunked := b\<rparr> = s\<lparr>chunked := c, contentLength := n\<rparr>" for s :: "'u http"
  by (intro exI [of _ b] exI [of _ "contentLength s"]) simp

lemma client_parsing:
  assumes "stream_source T ok pending"
  shows "http_parsing T ok pending client_parsers"
proof (intro http_parsing.intro http_parsing_axioms.intro assms)
  fix line and s :: "'a http"
  show "\<exists>r c n. v_parseHeader client_parsers line s = (r, s\<lparr>chunked := c, contentLength := n\<rparr>) \<and>
      (r = Inr () \<or> r = Inl UndefinedBehaviour)"
    using no_change [where s = s] chunked_change [where s = s] set_contentLength_frame [where s = s]
    by (simp add: client_parsers_def client_parseHeader_def Let_def split: option.splits)
qed (auto simp: client_parsers_def client_parseStatusLine_def Let_def split: option.splits)

lemma server_parsing:
  assumes "stream_source T ok pending"
  shows "http_parsing T ok pending server_parsers"
proof (intro http_parsing.intro http_parsing_axioms.intro assms)
  fix line and s :: "'a http"
  show "\<exists>r c n. v_parseHeader server_parsers line s = (r, s\<lparr>chunked := c, contentLength := n\<rparr>) \<and>
      (r = Inr () \<or> r = Inl UndefinedBehaviour)"
    using no_change [where s = s] chunked_change [where s = s] set_contentLength_frame [where s = s]
    by (simp add: server_parsers_def server_parseHeader_def Let_def split: option.splits)
qed (auto simp: server_parsers_def server_parseStatusLine_def Let_def split: option.splits)

interpretation client_mem: http_parsing mem_transport mem_inv mem_pending client_parsers
  by (rule client_parsing [OF mem_stream.stream_source_axioms])

interpretation server_mem: http_parsing mem_transport mem_inv mem_pending server_parsers
  by (rule server_parsing [OF mem_stream.stream_source_axioms])

section \<open>The lines they write\<close>

lemmas literal = str_def CRLF_def CR_def LF_def SP_def

definition plain_text :: "bytes \<Rightarrow> bool" where
  "plain_text t \<longleftrightarrow> CR \<notin> set t \<and> 0 \<notin> set t"

lemma plain_text_append [simp]: "plain_text (a @ b) \<longleftrightarrow> plain_text a \<and> plain_text b"
  by (auto simp: plain_text_def)

lemma plain_dec [simp]: "plain_text (dec n)"
  using dec_isdigit [of n] isdigit_no_space by (auto simp: plain_text_def CR_def)

lemma plain_lit:
  "plain_text (str cs) \<longleftrightarrow> list_all (\<lambda>c. (of_nat (of_char c) :: u8) \<noteq> 13 \<and> (of_nat (of_char c) :: u8) \<noteq> 0) cs"
  by (induction cs) (auto simp: plain_text_def str_def CR_def)

lemma plain_lineI: "plain_text line \<Longrightarrow> line \<noteq> [] \<Longrightarrow> plain_line line"
  by (simp add: plain_line_def plain_text_def)

text \<open>The name of a header ends at the first colon.\<close>

lemma strchr_str: "list_all (\<lambda>c. (of_nat (of_char c) :: u8) \<noteq> 58) cs \<Longrightarrow>
   strchr (str cs @ str '':'' @ t) 58 = Some (length cs)"
proof -
  assume "list_all (\<lambda>c. (of_nat (of_char c) :: u8) \<noteq> 58) cs"
  then have "58 \<notin> set (str cs)" by (induction cs) (auto simp: str_def)
  from strchr_append [OF this, of t] show ?thesis by (simp add: str_def)
qed

lemma server_ignores:
  assumes "list_all (\<lambda>c. (of_nat (of_char c) :: u8) \<noteq> 58) cs"
    and "\<not> strncmp_eq (str cs @ str '':'' @ t) (str ''Transfer-Encoding'') (length cs)"
    and "\<not> strncmp_eq (str cs @ str '':'' @ t) (str ''Content-Length'') (length cs)"
    and "plain_text (str cs @ str '':'' @ t)"
  shows "ignored_header server_parsers (str cs @ str '':'' @ t)"
  using assms
  by (simp add: ignored_header_def server_parsers_def server_parseHeader_def strchr_str plain_line_def
      plain_text_def) (simp add: str_def)

lemma client_ignores:
  assumes "list_all (\<lambda>c. (of_nat (of_char c) :: u8) \<noteq> 58) cs"
    and "\<not> istarts_with (str cs @ str '':'' @ t) (str ''Transfer-Encoding'')"
    and "\<not> istarts_with (str cs @ str '':'' @ t) (str ''Content-Length'')"
    and "plain_text (str cs @ str '':'' @ t)"
  shows "ignored_header client_parsers (str cs @ str '':'' @ t)"
  using assms
  by (simp add: ignored_header_def client_parsers_def client_parseHeader_def strchr_str plain_line_def
      plain_text_def) (simp add: str_def)

lemma set_contentLength_dec:
  "n < 2 ^ 31 \<Longrightarrow> set_contentLength (str '' '' @ dec n) s = (Inr (), s\<lparr>chunked := False, contentLength := n\<rparr>)"
  using atoi_dec [of n "str '' ''" "[]"] by (simp add: set_contentLength_def str_def isspace_def)

lemma content_length_line: "str ''Content-Length: '' @ t = str ''Content-Length'' @ str '':'' @ str '' '' @ t"
  by (simp add: str_def)

lemma drop_name: "drop (length cs + 1) (str cs @ str '':'' @ t) = t"
  by (simp add: str_def)

lemma server_length_header:
  assumes "n < 2 ^ 31"
  shows "length_header server_parsers n (str ''Content-Length: '' @ dec n)"
proof -
  let ?line = "str ''Content-Length'' @ str '':'' @ str '' '' @ dec n"
  have colon: "strchr ?line 58 = Some (length ''Content-Length'')"
    by (rule strchr_str) simp
  have "\<not> strncmp_eq ?line (str ''Transfer-Encoding'') (length ''Content-Length'')"
    and "strncmp_eq ?line (str ''Content-Length'') (length ''Content-Length'')"
    by (simp_all add: strncmp_eq_def str_def)
  then have "server_parseHeader ?line s = (Inr (), s\<lparr>chunked := False, contentLength := n\<rparr>)" for s :: "'a http"
    using set_contentLength_dec [OF assms, of s] drop_name [of "''Content-Length''" "str '' '' @ dec n"]
    by (simp only: server_parseHeader_def colon option.case Let_def if_False if_True)
  moreover have "plain_line ?line"
    by (rule plain_lineI, simp add: plain_lit) (simp add: str_def)
  ultimately show ?thesis by (simp add: length_header_def server_parsers_def content_length_line)
qed

lemma client_length_header:
  assumes "n < 2 ^ 31"
  shows "length_header client_parsers n (str ''Content-Length: '' @ dec n)"
proof -
  let ?line = "str ''Content-Length'' @ str '':'' @ str '' '' @ dec n"
  have colon: "strchr ?line 58 = Some (length ''Content-Length'')"
    by (rule strchr_str) simp
  have "\<not> istarts_with ?line (str ''Transfer-Encoding'')" and "istarts_with ?line (str ''Content-Length'')"
    by (simp_all add: istarts_with_def str_def toupper_def)
  then have "client_parseHeader ?line s = (Inr (), s\<lparr>chunked := False, contentLength := n\<rparr>)" for s :: "'a http"
    using set_contentLength_dec [OF assms, of s] drop_name [of "''Content-Length''" "str '' '' @ dec n"]
    by (simp only: client_parseHeader_def colon option.case Let_def if_False if_True)
  moreover have "plain_line ?line"
    by (rule plain_lineI, simp add: plain_lit) (simp add: str_def)
  ultimately show ?thesis by (simp add: length_header_def client_parsers_def content_length_line)
qed

section \<open>Requests and responses\<close>

lemma request_message:
  "client_header path host version len @ body =
     message (str ''POST '' @ path @ str '' HTTP/1.1'')
       ([str ''Host'' @ str '':'' @ str '' '' @ host,
         str ''Content-Type'' @ str '':'' @ str '' application/x-thrift''] @
        (str ''Content-Length: '' @ dec len) #
        [str ''Accept'' @ str '':'' @ str '' application/x-thrift'',
         str ''User-Agent'' @ str '':'' @ str '' Thrift/'' @ version @ str '' (C++/THttpClient)'']) body"
  by (simp add: client_header_def message_def str_def)

lemma request_ignored:
  assumes "plain_text host" and "plain_text version"
  shows "ignored_header server_parsers (str ''Host'' @ str '':'' @ str '' '' @ host)"
    and "ignored_header server_parsers (str ''Content-Type'' @ str '':'' @ str '' application/x-thrift'')"
    and "ignored_header server_parsers (str ''Accept'' @ str '':'' @ str '' application/x-thrift'')"
    and "ignored_header server_parsers (str ''User-Agent'' @ str '':'' @ str '' Thrift/'' @ version @
           str '' (C++/THttpClient)'')"
  by - (rule server_ignores;
      ((simp add: assms plain_lit; fail) | simp add: strncmp_eq_def str_def))+

lemma request_status:
  assumes "plain_text path" and "path \<noteq> []" and "SP \<notin> set path"
  shows "server_parseStatusLine (str ''POST '' @ path @ str '' HTTP/1.1'') = Inr True"
    and "plain_line (str ''POST '' @ path @ str '' HTTP/1.1'')"
proof -
  let ?line = "str ''POST '' @ path @ str '' HTTP/1.1''"
  have i: "strchr ?line SP = Some 4" by (simp add: literal)
  let ?line' = "?line[4 := 0]"
  have drop: "drop 5 ?line' = path @ str '' HTTP/1.1''" by (simp add: str_def)
  have "hd path \<noteq> SP" using assms(2,3) by (cases path) auto
  then have skip: "skip_spaces_pre ?line' 4 = 5"
    using assms(2) drop by (cases path) (simp_all add: skip_spaces_pre_def)
  have "strchr (path @ str '' HTTP/1.1'') SP = Some (length path)"
    using strchr_append [OF assms(3), of "str ''HTTP/1.1''"] by (simp add: str_def SP_def)
  then show "server_parseStatusLine ?line = Inr True"
    by (simp add: server_parseStatusLine_def i skip drop Let_def) (simp add: str_def)
  show "plain_line ?line"
    by (rule plain_lineI, simp add: plain_lit assms) (simp add: str_def)
qed

lemma response_message:
  "server_header date version len @ body =
     message (str ''HTTP/1.1 200 OK'')
       ([str ''Date'' @ str '':'' @ str '' '' @ date,
         str ''Server'' @ str '':'' @ str '' Thrift/'' @ version,
         str ''Content-Type'' @ str '':'' @ str '' application/x-thrift''] @
        (str ''Content-Length: '' @ dec len) #
        [str ''Connection'' @ str '':'' @ str '' Keep-Alive'']) body"
  by (simp add: server_header_def message_def str_def)

lemma response_ignored:
  assumes "plain_text date" and "plain_text version"
  shows "ignored_header client_parsers (str ''Date'' @ str '':'' @ str '' '' @ date)"
    and "ignored_header client_parsers (str ''Server'' @ str '':'' @ str '' Thrift/'' @ version)"
    and "ignored_header client_parsers (str ''Content-Type'' @ str '':'' @ str '' application/x-thrift'')"
    and "ignored_header client_parsers (str ''Connection'' @ str '':'' @ str '' Keep-Alive'')"
  by - (rule client_ignores;
      ((simp add: assms plain_lit; fail) | simp add: istarts_with_def str_def toupper_def))+

lemma response_status:
  "client_parseStatusLine (str ''HTTP/1.1 200 OK'') = Inr True" "plain_line (str ''HTTP/1.1 200 OK'')"
  by (simp_all add: client_parseStatusLine_def skip_spaces_post_def plain_line_def literal)

lemma plain_time:
  assumes "tm_wday t < 7" and "tm_mon t < 12"
  shows "plain_text (getTimeRFC1123 t)"
proof -
  have "\<forall>d \<in> set Days. plain_text d" "\<forall>d \<in> set Months. plain_text d"
    by (simp_all add: Days_def Months_def plain_lit)
  moreover have "tm_wday t < length Days" "tm_mon t < length Months"
    using assms by (simp_all add: Days_def Months_def)
  ultimately have "plain_text (Days ! tm_wday t)" "plain_text (Months ! tm_mon t)"
    using nth_mem by blast+
  then show ?thesis by (simp add: getTimeRFC1123_def plain_lit)
qed

section \<open>Writing a message\<close>

text \<open>A body written in pieces, and the two ends writing one message to a memory buffer.\<close>

fun write_pieces :: "bytes list \<Rightarrow> ('u http, unit) tio" where
  "write_pieces [] = ret ()"
| "write_pieces (p # ps) = bindT (http_write p) (\<lambda>_. write_pieces ps)"

definition client_run ::
  "bytes \<Rightarrow> bytes \<Rightarrow> bytes \<Rightarrow> bytes list \<Rightarrow> (exc + unit) \<times> mem_buffer http" where
  "client_run path host version pieces =
     bindT (write_pieces pieces) (\<lambda>_. client_flush path host version mem_transport)
       (new_THttpTransport new_TMemoryBuffer)"

definition server_run :: "broken_time \<Rightarrow> bytes \<Rightarrow> bytes list \<Rightarrow> (exc + unit) \<times> mem_buffer http" where
  "server_run now version pieces =
     bindT (write_pieces pieces) (\<lambda>_. server_flush now version mem_transport)
       (new_THttpTransport new_TMemoryBuffer)"

lemma write_pieces_ok:
  assumes "mem_inv (writeBuffer s)" and "mem_room (writeBuffer s) (length (concat ps))"
  shows "\<exists>m. write_pieces ps s = (Inr (), s\<lparr>writeBuffer := m\<rparr>) \<and> mem_inv m \<and>
    mem_pending m = mem_pending (writeBuffer s) @ concat ps"
  using assms
proof (induction ps arbitrary: s)
  case Nil
  then show ?case by (intro exI [of _ "writeBuffer s"]) (simp add: ret_def)
next
  case (Cons p ps)
  have "mem_room (writeBuffer s) (length p + length (concat ps))" using Cons.prems(2) by simp
  from mem_write_ok [OF Cons.prems(1) this] obtain m where
    m: "mem_write p (writeBuffer s) = (Inr (), m)" "mem_inv m" "mem_room m (length (concat ps))"
      "mem_pending m = mem_pending (writeBuffer s) @ p" by blast
  from Cons.IH [of "s\<lparr>writeBuffer := m\<rparr>"] m show ?case
    by (auto simp: bindT_def http_write_def on_writeBuffer_def on_part_def)
qed

lemma getBuffer_eq: "mem_inv s \<Longrightarrow> getBuffer s = mem_pending s"
  using mem_inv_D [of s] by (simp add: getBuffer_def mem_pending_def)

lemma flush_mem:
  assumes "mem_inv (h_trans s)" and "mem_inv (writeBuffer s)"
    and "mem_room (h_trans s) (length (hdr (length body)) + length body)"
    and "body = mem_pending (writeBuffer s)"
  shows "\<exists>s'. flush_with mem_transport hdr s = (Inr (), s') \<and> mem_inv (h_trans s') \<and>
    getBufferAsString (h_trans s') = getBufferAsString (h_trans s) @ hdr (length body) @ body"
proof -
  obtain t where t: "mem_write (hdr (length body)) (h_trans s) = (Inr (), t)" "mem_inv t"
      "mem_room t (length body + 0)" "mem_pending t = mem_pending (h_trans s) @ hdr (length body)"
    using mem_write_ok [OF assms(1,3)] by auto
  obtain u where u: "mem_write body t = (Inr (), u)" "mem_inv u" "mem_pending u = mem_pending t @ body"
    using mem_write_ok [OF t(2,3)] by auto
  have body: "getBuffer (writeBuffer s) = body" using getBuffer_eq [OF assms(2)] assms(4) by simp
  have sel: "t_write mem_transport = mem_write" "t_flush mem_transport = base_flush"
    by (simp_all add: mem_transport_def)
  have "flush_with mem_transport hdr s =
      (Inr (), s\<lparr>h_trans := u, writeBuffer := mem_resetBuffer (writeBuffer s), readHeaders := True\<rparr>)"
    using t(1) u(1)
    by (simp add: flush_with_def Let_def body sel on_h_trans_def on_part_def bindT_def modify_def
        base_flush_def ret_def)
  moreover have "getBufferAsString u = getBufferAsString (h_trans s) @ hdr (length body) @ body"
    using t(4) u(2,3) assms(1) by (simp add: getBuffer_pending)
  ultimately show ?thesis using u(2) by simp
qed

lemma new_buffer:
  "mem_inv new_TMemoryBuffer" "mem_pending new_TMemoryBuffer = []"
  "n \<le> 2 ^ 31 \<Longrightarrow> mem_room new_TMemoryBuffer n"
  using new_sized_inv [of 1024] new_sized_fields [of 1024]
  by (simp_all add: new_TMemoryBuffer_def mem_room_def)

lemma run_with:
  assumes "length (hdr (length (concat ps))) + length (concat ps) \<le> 2 ^ 28"
  shows "\<exists>s'. bindT (write_pieces ps) (\<lambda>_. flush_with mem_transport hdr)
      (new_THttpTransport new_TMemoryBuffer) = (Inr (), s') \<and> mem_inv (h_trans s') \<and>
    getBufferAsString (h_trans s') = hdr (length (concat ps)) @ concat ps"
proof -
  let ?s = "new_THttpTransport new_TMemoryBuffer"
  have fields: "writeBuffer ?s = new_TMemoryBuffer" "h_trans ?s = new_TMemoryBuffer"
    by (simp_all add: new_THttpTransport_def)
  have room: "mem_room new_TMemoryBuffer (length (concat ps))"
    using assms by (intro new_buffer) simp
  obtain m where m: "write_pieces ps ?s = (Inr (), ?s\<lparr>writeBuffer := m\<rparr>)" "mem_inv m"
      "mem_pending m = concat ps"
    using write_pieces_ok [of ?s ps] new_buffer(1,2) room fields by auto
  have room2: "mem_room new_TMemoryBuffer (length (hdr (length (concat ps))) + length (concat ps))"
    using assms by (intro new_buffer) simp
  have "\<exists>s'. flush_with mem_transport hdr (?s\<lparr>writeBuffer := m\<rparr>) = (Inr (), s') \<and> mem_inv (h_trans s') \<and>
      getBufferAsString (h_trans s') =
        getBufferAsString (h_trans (?s\<lparr>writeBuffer := m\<rparr>)) @ hdr (length (concat ps)) @ concat ps"
  proof (rule flush_mem)
    show "mem_inv (h_trans (?s\<lparr>writeBuffer := m\<rparr>))" using new_buffer(1) by (simp add: fields(2))
    show "mem_room (h_trans (?s\<lparr>writeBuffer := m\<rparr>)) (length (hdr (length (concat ps))) + length (concat ps))"
      using room2 by (simp add: fields(2))
  qed (simp_all add: m(2,3))
  then obtain s' where s': "flush_with mem_transport hdr (?s\<lparr>writeBuffer := m\<rparr>) = (Inr (), s')"
    "mem_inv (h_trans s')"
    "getBufferAsString (h_trans s') =
        getBufferAsString (h_trans (?s\<lparr>writeBuffer := m\<rparr>)) @ hdr (length (concat ps)) @ concat ps"
    by (elim exE conjE) (rule that)
  have "getBufferAsString (h_trans (?s\<lparr>writeBuffer := m\<rparr>)) = []"
    using getBuffer_pending [OF new_buffer(1)] new_buffer(2) by (simp add: fields(2))
  moreover have "bindT (write_pieces ps) (\<lambda>_. flush_with mem_transport hdr) ?s = (Inr (), s')"
    unfolding bindT_def m(1) using s'(1) by simp
  ultimately show ?thesis using s'(2,3) by (intro exI [of _ s']) simp
qed

text \<open>A fresh transport over a stream, ready to read.\<close>

lemma new_http_inv:
  assumes "ok t" and "length (pending t) \<le> 2 ^ 28"
  shows "http_inv ok pending (new_THttpTransport t)" "unread pending (new_THttpTransport t) = pending t"
    "readHeaders (new_THttpTransport t)" "mem_pending (readBuffer (new_THttpTransport t)) = []"
    "h_trans (new_THttpTransport t) = t"
proof -
  show un: "unread pending (new_THttpTransport t) = pending t"
    by (simp add: unread_def buffered_part_def new_THttpTransport_def)
  have "owner new_TMemoryBuffer" "wBase new_TMemoryBuffer = 0"
    using new_sized_fields [of 1024] by (simp_all add: new_TMemoryBuffer_def)
  with un show "http_inv ok pending (new_THttpTransport t)"
    using assms new_buffer(1) by (intro http_inv_I) (simp_all add: new_THttpTransport_def)
qed (use new_buffer in \<open>simp_all add: new_THttpTransport_def\<close>)

section \<open>Properties\<close>

text \<open>
  C7: a request that a THttpClient flushes, its body written in any pieces, is read by a
  THttpServer over any stream, however the stream splits it: the server's read gives the
  beginning of the body and keeps the rest of it for the next reads, and what follows on the
  stream is left there.
\<close>

theorem http_request_round_trip:
  assumes "stream_source T ok pending"
    and "plain_text path" and "path \<noteq> []" and "SP \<notin> set path"
    and "plain_text host" and "plain_text version"
    and "length (client_header path host version (length (concat pieces))) + length (concat pieces) \<le> 2 ^ 28"
    and "http_inv ok pending s" and "readHeaders s" and "pending (h_trans s) \<noteq> []"
    and "mem_pending (readBuffer s) = []"
    and "unread pending s = getBufferAsString (h_trans (snd (client_run path host version pieces))) @ rest"
  shows "fst (client_run path host version pieces) = Inr () \<and>
    (\<exists>s'. http_read server_parsers T n s = (Inr (take n (concat pieces)), s') \<and>
       http_inv ok pending s' \<and> unread pending s' = rest \<and> readHeaders s' \<and>
       mem_pending (readBuffer s') = drop n (concat pieces))"
proof -
  let ?body = "concat pieces"
  have wire: "fst (client_run path host version pieces) = Inr ()"
    "getBufferAsString (h_trans (snd (client_run path host version pieces))) =
       client_header path host version (length ?body) @ ?body"
    using run_with [where ps = pieces and hdr = "client_header path host version"] assms(7)
    by (auto simp: client_run_def client_flush_def)
  have "length ?body < 2 ^ 31" using assms(7) by simp
  note len = server_length_header [OF this]
  have "v_parseStatusLine server_parsers (str ''POST '' @ path @ str '' HTTP/1.1'') = Inr True"
    using request_status(1) [OF assms(2-4)] by (simp add: server_parsers_def)
  from http_parsing.read_message [OF server_parsing [OF assms(1)] assms(8)
      assms(12) [unfolded wire(2) append_assoc request_message] _ this _ len assms(9-11), of n]
  show ?thesis
    using request_status(2) [OF assms(2-4)] request_ignored [OF assms(5,6)] wire(1) by auto
qed

text \<open>
  A server over the memory buffer the client wrote to reads a body of three bytes back.
\<close>

lemma client_wire:
  assumes "length (client_header path host version (length (concat pieces))) + length (concat pieces) \<le> 2 ^ 28"
  shows "mem_inv (h_trans (snd (client_run path host version pieces)))"
    and "mem_pending (h_trans (snd (client_run path host version pieces))) =
      client_header path host version (length (concat pieces)) @ concat pieces"
proof -
  obtain s' where "client_run path host version pieces = (Inr (), s')" "mem_inv (h_trans s')"
    "getBufferAsString (h_trans s') = client_header path host version (length (concat pieces)) @ concat pieces"
    using run_with [where ps = pieces and hdr = "client_header path host version"] assms
    by (auto simp: client_run_def client_flush_def)
  then show "mem_inv (h_trans (snd (client_run path host version pieces)))"
    and "mem_pending (h_trans (snd (client_run path host version pieces))) =
      client_header path host version (length (concat pieces)) @ concat pieces"
    by (simp_all add: getBuffer_pending)
qed

lemma server_wire:
  assumes "length (server_header (getTimeRFC1123 now) version (length (concat pieces))) +
      length (concat pieces) \<le> 2 ^ 28"
  shows "mem_inv (h_trans (snd (server_run now version pieces)))"
    and "mem_pending (h_trans (snd (server_run now version pieces))) =
      server_header (getTimeRFC1123 now) version (length (concat pieces)) @ concat pieces"
    and "fst (server_run now version pieces) = Inr ()"
proof -
  obtain s' where "server_run now version pieces = (Inr (), s')" "mem_inv (h_trans s')"
    "getBufferAsString (h_trans s') =
       server_header (getTimeRFC1123 now) version (length (concat pieces)) @ concat pieces"
    using run_with [where ps = pieces and hdr = "server_header (getTimeRFC1123 now) version"] assms
    by (auto simp: server_run_def server_flush_def)
  then show "mem_inv (h_trans (snd (server_run now version pieces)))"
    and "mem_pending (h_trans (snd (server_run now version pieces))) =
      server_header (getTimeRFC1123 now) version (length (concat pieces)) @ concat pieces"
    and "fst (server_run now version pieces) = Inr ()"
    by (simp_all add: getBuffer_pending)
qed

theorem http_request_round_trip_witness:
  "\<exists>s'. http_read server_parsers mem_transport 2 (new_THttpTransport
      (h_trans (snd (client_run (str ''/x'') (str ''h'') (str ''0.9.0'') [[1, 2], [3]])))) = (Inr [1, 2], s')"
proof -
  let ?run = "client_run (str ''/x'') (str ''h'') (str ''0.9.0'') [[1, 2], [3]]"
  have small: "length (client_header (str ''/x'') (str ''h'') (str ''0.9.0'') (length (concat [[1, 2], [3 :: u8]]))) +
      length (concat [[1, 2], [3 :: u8]]) \<le> 2 ^ 28"
    by (simp add: client_header_def str_def CRLF_def dec.simps)
  note wire = client_wire [OF small]
  have len: "length (mem_pending (h_trans (snd ?run))) \<le> 2 ^ 28" "mem_pending (h_trans (snd ?run)) \<noteq> []"
    using small unfolding wire(2) by (simp, simp add: client_header_def str_def)
  note start = new_http_inv [of mem_inv "h_trans (snd ?run)" mem_pending, OF wire(1) len(1)]
  have un: "unread mem_pending (new_THttpTransport (h_trans (snd ?run))) =
      getBufferAsString (h_trans (snd ?run)) @ []"
    using getBuffer_pending [OF wire(1)] start(2) by simp
  have lits: "plain_text (str ''/x'')" "str ''/x'' \<noteq> []" "SP \<notin> set (str ''/x'')"
      "plain_text (str ''h'')" "plain_text (str ''0.9.0'')"
    by (simp_all add: plain_lit) (simp_all add: literal)
  from http_request_round_trip [OF mem_stream.stream_source_axioms lits small start(1,3) _ start(4) un, of 2]
  show ?thesis using start(5) len(2) by auto
qed

text \<open>
  A response that a THttpServer flushes is read by a THttpClient over any stream in the same
  way, whatever the time of day in its Date header.
\<close>

lemma http_response_round_trip:
  assumes "stream_source T ok pending"
    and "tm_wday now < 7" and "tm_mon now < 12" and "plain_text version"
    and "length (server_header (getTimeRFC1123 now) version (length (concat pieces))) +
       length (concat pieces) \<le> 2 ^ 28"
    and "http_inv ok pending s" and "readHeaders s" and "pending (h_trans s) \<noteq> []"
    and "mem_pending (readBuffer s) = []"
    and "unread pending s = getBufferAsString (h_trans (snd (server_run now version pieces))) @ rest"
  shows "fst (server_run now version pieces) = Inr () \<and>
    (\<exists>s'. http_read client_parsers T n s = (Inr (take n (concat pieces)), s') \<and>
       http_inv ok pending s' \<and> unread pending s' = rest \<and> readHeaders s' \<and>
       mem_pending (readBuffer s') = drop n (concat pieces))"
proof -
  let ?body = "concat pieces"
  note wire = server_wire [OF assms(5)]
  have msg: "unread pending s = (server_header (getTimeRFC1123 now) version (length ?body) @ ?body) @ rest"
    using assms(10) getBuffer_pending [OF wire(1)] wire(2) by simp
  have "length ?body < 2 ^ 31" using assms(5) by simp
  note len = client_length_header [OF this]
  have "v_parseStatusLine client_parsers (str ''HTTP/1.1 200 OK'') = Inr True"
    using response_status(1) by (simp add: client_parsers_def)
  from http_parsing.read_message [OF client_parsing [OF assms(1)] assms(6)
      msg [unfolded response_message] response_status(2) this _ len assms(7-9), of n]
  show ?thesis
    using response_ignored [OF plain_time [OF assms(2,3)] assms(4)] wire(3) by auto
qed

lemma http_response_round_trip_witness:
  "\<exists>s'. http_read client_parsers mem_transport 5 (new_THttpTransport
      (h_trans (snd (server_run \<lparr>tm_wday = 4, tm_mday = 1, tm_mon = 0, tm_year = 70, tm_hour = 0,
         tm_min = 0, tm_sec = 0\<rparr> (str ''0.9.0'') [[7], [8, 9]])))) = (Inr [7, 8, 9], s')"
proof -
  let ?now = "\<lparr>tm_wday = 4, tm_mday = 1, tm_mon = 0, tm_year = 70, tm_hour = 0, tm_min = 0, tm_sec = 0\<rparr>"
  let ?run = "server_run ?now (str ''0.9.0'') [[7], [8, 9]]"
  have small: "length (server_header (getTimeRFC1123 ?now) (str ''0.9.0'') (length (concat [[7], [8, 9 :: u8]]))) +
      length (concat [[7], [8, 9 :: u8]]) \<le> 2 ^ 28"
    by (simp add: server_header_def getTimeRFC1123_def Days_def Months_def str_def CRLF_def dec.simps)
  note wire = server_wire [OF small]
  have len: "length (mem_pending (h_trans (snd ?run))) \<le> 2 ^ 28" "mem_pending (h_trans (snd ?run)) \<noteq> []"
    using small unfolding wire(2) by (simp, simp add: server_header_def str_def)
  note start = new_http_inv [of mem_inv "h_trans (snd ?run)" mem_pending, OF wire(1) len(1)]
  have un: "unread mem_pending (new_THttpTransport (h_trans (snd ?run))) =
      getBufferAsString (h_trans (snd ?run)) @ []"
    using getBuffer_pending [OF wire(1)] start(2) by simp
  have days: "tm_wday ?now < 7" "tm_mon ?now < 12" by simp_all
  have "plain_text (str ''0.9.0'')" by (simp add: plain_lit)
  from http_response_round_trip [OF mem_stream.stream_source_axioms days this small start(1,3) _ start(4) un, of 5]
  show ?thesis using start(5) len(2) by auto
qed

text \<open>An outcome that the theorem below allows on an input.\<close>

definition accounted :: "'u http_parsers \<Rightarrow> bytes \<Rightarrow> exc + 'a \<Rightarrow> bool" where
  "accounted V input r \<longleftrightarrow> (\<forall>e. r = Inl e \<longrightarrow> e = TTransportException TE_UNKNOWN \<or>
     (e = UndefinedBehaviour \<and> (\<exists>line. sublist line input \<and> out_of_range V line)))"

text \<open>
  C29: whatever bytes arrive, a read and a readEnd of the client and of the server return: with a
  value, with the transport's exception, or, at a line whose number is out of range of the C
  conversion, with what the standard leaves undefined. The invariant holds after each of them, so
  the block is never accessed outside its bounds, and the input only goes forward.
\<close>

theorem http_total:
  assumes "stream_source T ok pending" and "http_inv ok pending s"
    and "V = client_parsers \<or> V = server_parsers"
  shows "(\<exists>r s'. http_read V T n s = (r, s') \<and> accounted V (unread pending s) r \<and>
      http_inv ok pending s' \<and> suffix (unread pending s') (unread pending s)) \<and>
    (\<exists>r s'. http_readEnd T s = (r, s') \<and> accounted V (unread pending s) r \<and>
      http_inv ok pending s' \<and> suffix (unread pending s') (unread pending s))"
proof -
  have V: "http_parsing T ok pending V"
    using assms(3) client_parsing [OF assms(1)] server_parsing [OF assms(1)] by auto
  note def = http_parsing.safe_def [OF V] http_parsing.safe_exc_def [OF V]
  show ?thesis
    using http_parsing.safe_http_read [OF V assms(2) suffix_order.order_refl, of n]
      http_parsing.safe_http_readEnd [OF V assms(2) suffix_order.order_refl]
    by (simp add: def accounted_def) blast
qed

text \<open>On an empty stream: no hang, and the exception of the refill.\<close>

theorem http_total_witness:
  "\<exists>r s'. http_read client_parsers mem_transport 4 (new_THttpTransport new_TMemoryBuffer) = (r, s') \<and>
     accounted (client_parsers :: mem_buffer http_parsers) [] r"
proof -
  have "length (mem_pending new_TMemoryBuffer) \<le> 2 ^ 28" by (simp add: new_buffer)
  note start = new_http_inv [of mem_inv new_TMemoryBuffer mem_pending, OF new_buffer(1) this]
  from http_total [OF mem_stream.stream_source_axioms start(1), of client_parsers 4]
  show ?thesis using start(2) new_buffer(2) by auto
qed

end
