(* ===== verification/Base64.thy ===== *)
theory Base64
  imports CText
begin

text \<open>
  \<^verbatim>\<open>base64_encode\<close> and \<^verbatim>\<open>base64_decode\<close> (\<^verbatim>\<open>protocol/TBase64Utils.cpp\<close>) on one group of
  at most three bytes, with the tables of the code. The arithmetic is that of \<^verbatim>\<open>int\<close>, whose
  values here are never negative; a result stored in the buffer is cut to a byte.
\<close>

unbundle bit_operations_syntax

definition kBase64EncodeTable :: bytes where
  "kBase64EncodeTable = str ''ABCDEFGHIJKLMNOPQRSTUVWXYZabcdefghijklmnopqrstuvwxyz0123456789+/''"

text \<open>The 256 entries, with \<^verbatim>\<open>-1\<close> as a \<^verbatim>\<open>uint8_t\<close>.\<close>

definition kBase64DecodeTable :: bytes where
  "kBase64DecodeTable =
     replicate 43 255 @ [62, 255, 255, 255, 63,
      52, 53, 54, 55, 56, 57, 58, 59, 60, 61, 255, 255, 255, 255, 255, 255,
      255, 0, 1, 2, 3, 4, 5, 6, 7, 8, 9, 10, 11, 12, 13, 14,
      15, 16, 17, 18, 19, 20, 21, 22, 23, 24, 25, 255, 255, 255, 255, 255,
      255, 26, 27, 28, 29, 30, 31, 32, 33, 34, 35, 36, 37, 38, 39, 40,
      41, 42, 43, 44, 45, 46, 47, 48, 49, 50, 51, 255, 255, 255, 255, 255] @ replicate 128 255"

definition enc64 :: "nat \<Rightarrow> u8" where
  "enc64 n = kBase64EncodeTable ! (n AND 0x3F)"

definition dec64 :: "u8 \<Rightarrow> nat" where
  "dec64 b = unat (kBase64DecodeTable ! unat b)"

definition base64_encode :: "bytes \<Rightarrow> nat \<Rightarrow> bytes \<Rightarrow> bytes" where
  "base64_encode inp len buf =
     (let i = (\<lambda>k. unat (inp ! k)); buf = buf[0 := enc64 (drop_bit 2 (i 0))] in
      if len = 3 then
        buf[1 := enc64 (push_bit 4 (i 0) + drop_bit 4 (i 1)),
            2 := enc64 (push_bit 2 (i 1) + drop_bit 6 (i 2)), 3 := enc64 (i 2)]
      else if len = 2 then
        buf[1 := enc64 (push_bit 4 (i 0) + drop_bit 4 (i 1)), 2 := enc64 (push_bit 2 (i 1))]
      else buf[1 := enc64 (push_bit 4 (i 0))])"

definition base64_decode :: "bytes \<Rightarrow> nat \<Rightarrow> bytes" where
  "base64_decode buf len =
     (let buf = buf[0 := of_nat (push_bit 2 (dec64 (buf ! 0)) OR drop_bit 4 (dec64 (buf ! 1)))] in
      if len > 2 then
        (let buf = buf[1 := of_nat ((push_bit 4 (dec64 (buf ! 1)) AND 0xF0) OR
                                    drop_bit 2 (dec64 (buf ! 2)))] in
         if len > 3 then
           buf[2 := of_nat ((push_bit 6 (dec64 (buf ! 2)) AND 0xC0) OR dec64 (buf ! 3))]
         else buf)
      else buf)"

section \<open>The tables match\<close>

lemma encode_table:
  "kBase64EncodeTable =
     [65, 66, 67, 68, 69, 70, 71, 72, 73, 74, 75, 76, 77, 78, 79, 80, 81, 82, 83, 84, 85, 86, 87, 88, 89, 90,
      97, 98, 99, 100, 101, 102, 103, 104, 105, 106, 107, 108, 109, 110, 111, 112, 113, 114, 115, 116, 117,
      118, 119, 120, 121, 122, 48, 49, 50, 51, 52, 53, 54, 55, 56, 57, 43, 47]"
  by (simp add: kBase64EncodeTable_def str_def)

lemma length_encode_table: "length kBase64EncodeTable = 64"
  by (simp add: encode_table)

lemma decode_table: "map (\<lambda>b. kBase64DecodeTable ! unat b) kBase64EncodeTable = map of_nat [0..<64]"
  by (simp add: encode_table kBase64DecodeTable_def nth_append upt_rec)

lemma and_3F: "n AND 0x3F = n mod 64" for n :: nat
  using take_bit_eq_mask [of 6 n] by (simp add: take_bit_eq_mod mask_eq_exp_minus_1)

lemma dec64_enc64 [simp]: "dec64 (enc64 n) = n mod 64"
proof -
  have "map (\<lambda>b. kBase64DecodeTable ! unat b) kBase64EncodeTable ! (n mod 64) =
      map of_nat [0..<64] ! (n mod 64)"
    by (simp only: decode_table)
  then have "kBase64DecodeTable ! unat (kBase64EncodeTable ! (n mod 64)) = of_nat (n mod 64)"
    by (simp add: length_encode_table)
  then show ?thesis by (simp add: dec64_def enc64_def and_3F unat_of_nat mod_mod_cancel)
qed

text \<open>Every character it writes is a letter, a digit, \<open>+\<close> or \<open>/\<close>.\<close>

lemma encode_table_chars: "\<forall>b \<in> set kBase64EncodeTable. 0x2B \<le> b \<and> b \<noteq> 0x5C"
  by (simp add: encode_table)

lemma enc64_char: "0x2B \<le> enc64 n" "enc64 n \<noteq> 0x5C" "enc64 n \<noteq> 0x22"
proof -
  have "enc64 n \<in> set kBase64EncodeTable"
    by (simp add: enc64_def and_3F length_encode_table)
  then have "0x2B \<le> enc64 n \<and> enc64 n \<noteq> 0x5C" using encode_table_chars by blast
  then show "0x2B \<le> enc64 n" "enc64 n \<noteq> 0x5C" "enc64 n \<noteq> 0x22" by auto
qed

section \<open>Groups of bits\<close>

lemma push_or: "y < 2 ^ n \<Longrightarrow> push_bit n x OR y = x * 2 ^ n + y" for x y :: nat
proof -
  assume "y < 2 ^ n"
  then have y: "take_bit n y = y" by (simp add: take_bit_nat_eq_self)
  have "push_bit n x + y = push_bit n x OR y"
  proof (rule disjunctive_add)
    fix k
    show "\<not> bit (push_bit n x) k \<or> \<not> bit y k"
      using bit_take_bit_iff [of n y k] by (auto simp: y bit_push_bit_iff)
  qed
  then show ?thesis by (simp add: push_bit_eq_mult)
qed

lemma push_and:
  "push_bit 4 x AND 0xF0 = push_bit 4 (x mod 16)" "push_bit 6 x AND 0xC0 = push_bit 6 (x mod 4)" for x :: nat
proof -
  have "push_bit 4 x AND push_bit 4 15 = push_bit 4 (x AND 15)"
    by (simp only: push_bit_and)
  moreover have "x AND 15 = x mod 16"
    using take_bit_eq_mask [of 4 x] by (simp add: take_bit_eq_mod mask_eq_exp_minus_1)
  ultimately show "push_bit 4 x AND 0xF0 = push_bit 4 (x mod 16)" by simp
  have "push_bit 6 x AND push_bit 6 3 = push_bit 6 (x AND 3)"
    by (simp only: push_bit_and)
  moreover have "x AND 3 = x mod 4"
    using take_bit_eq_mask [of 2 x] by (simp add: take_bit_eq_mod mask_eq_exp_minus_1)
  ultimately show "push_bit 6 x AND 0xC0 = push_bit 6 (x mod 4)" by simp
qed

text \<open>Two neighbouring digits of a sextet, in base \<open>m\<close> and below it.\<close>

lemma sextet:
  fixes x q m k :: nat
  assumes "q < m"
  shows "(x * m + q) mod (m * k) div m = x mod k" and "(x * m + q) mod (m * k) mod m = q"
proof -
  have "(x * m + q) mod (m * k) = m * (x mod k) + q"
    using assms by (simp add: mod_mult2_eq)
  then show "(x * m + q) mod (m * k) div m = x mod k" and "(x * m + q) mod (m * k) mod m = q"
    using assms by simp_all
qed

lemma first_byte:
  fixes a b :: nat
  assumes "a < 256" and "b < 256"
  shows "push_bit 2 (drop_bit 2 a mod 64) OR drop_bit 4 ((push_bit 4 a + drop_bit 4 b) mod 64) = a"
    and "push_bit 2 (drop_bit 2 a mod 64) OR drop_bit 4 (push_bit 4 a mod 64) = a"
proof -
  have "push_bit 2 (a div 4) OR a mod 4 = a" using push_or [of "a mod 4" 2 "a div 4"] by simp
  moreover have "a div 4 mod 64 = a div 4" "b div 16 < 16" using assms by simp_all
  ultimately show "push_bit 2 (drop_bit 2 a mod 64) OR drop_bit 4 ((push_bit 4 a + drop_bit 4 b) mod 64) = a"
    and "push_bit 2 (drop_bit 2 a mod 64) OR drop_bit 4 (push_bit 4 a mod 64) = a"
    using sextet(1) [of "b div 16" 16 a 4] sextet(1) [of 0 16 a 4]
    by (simp_all add: drop_bit_eq_div push_bit_eq_mult [of 4])
qed

lemma second_byte:
  fixes a b c :: nat
  assumes "a < 256" and "b < 256" and "c < 256"
  shows "(push_bit 4 ((push_bit 4 a + drop_bit 4 b) mod 64) AND 0xF0) OR
      drop_bit 2 ((push_bit 2 b + drop_bit 6 c) mod 64) = b"
    and "(push_bit 4 ((push_bit 4 a + drop_bit 4 b) mod 64) AND 0xF0) OR
      drop_bit 2 (push_bit 2 b mod 64) = b"
proof -
  have "push_bit 4 (b div 16) OR b mod 16 = b" using push_or [of "b mod 16" 4 "b div 16"] by simp
  moreover have "b div 16 < 16" "c div 64 < 4" using assms by simp_all
  ultimately show "(push_bit 4 ((push_bit 4 a + drop_bit 4 b) mod 64) AND 0xF0) OR
      drop_bit 2 ((push_bit 2 b + drop_bit 6 c) mod 64) = b"
    and "(push_bit 4 ((push_bit 4 a + drop_bit 4 b) mod 64) AND 0xF0) OR
      drop_bit 2 (push_bit 2 b mod 64) = b"
    using sextet(2) [of "b div 16" 16 a 4] sextet(1) [of "c div 64" 4 b 16] sextet(1) [of 0 4 b 16]
    unfolding push_and by (simp_all add: drop_bit_eq_div push_bit_eq_mult)
qed

lemma third_byte:
  fixes b c :: nat
  assumes "b < 256" and "c < 256"
  shows "(push_bit 6 ((push_bit 2 b + drop_bit 6 c) mod 64) AND 0xC0) OR c mod 64 = c"
proof -
  have "push_bit 6 (c div 64) OR c mod 64 = c" using push_or [of "c mod 64" 6 "c div 64"] by simp
  moreover have "c div 64 < 4" using assms by simp
  ultimately show ?thesis
    using sextet(2) [of "c div 64" 4 b 16]
    unfolding push_and by (simp add: drop_bit_eq_div push_bit_eq_mult)
qed

section \<open>Groups of bytes\<close>

text \<open>What is written for a group, and what is read back from it.\<close>

lemma encode_group:
  "base64_encode (a # b # c # bs) 3 [w, x, y, z] =
     [enc64 (drop_bit 2 (unat a)), enc64 (push_bit 4 (unat a) + drop_bit 4 (unat b)),
      enc64 (push_bit 2 (unat b) + drop_bit 6 (unat c)), enc64 (unat c)]"
  "base64_encode [a, b] 2 [w, x, y, z] =
     [enc64 (drop_bit 2 (unat a)), enc64 (push_bit 4 (unat a) + drop_bit 4 (unat b)),
      enc64 (push_bit 2 (unat b)), z]"
  "base64_encode [a] 1 [w, x, y, z] = [enc64 (drop_bit 2 (unat a)), enc64 (push_bit 4 (unat a)), y, z]"
  by (simp_all add: base64_encode_def Let_def numeral_3_eq_3 numeral_2_eq_2)

lemma decode_group:
  "base64_decode (enc64 (drop_bit 2 (unat a)) # enc64 (push_bit 4 (unat a) + drop_bit 4 (unat b)) #
      enc64 (push_bit 2 (unat b) + drop_bit 6 (unat c)) # enc64 (unat c) # rest) 4 =
     a # b # c # enc64 (unat c) # rest"
  "base64_decode [enc64 (drop_bit 2 (unat a)), enc64 (push_bit 4 (unat a) + drop_bit 4 (unat b)),
      enc64 (push_bit 2 (unat b))] 3 = [a, b, enc64 (push_bit 2 (unat b))]"
  "base64_decode [enc64 (drop_bit 2 (unat a)), enc64 (push_bit 4 (unat a))] 2 =
     [a, enc64 (push_bit 4 (unat a))]"
  using first_byte [of "unat a" "unat b"] second_byte [of "unat a" "unat b" "unat c"]
    third_byte [of "unat b" "unat c"]
  by (simp_all add: base64_decode_def Let_def numeral_3_eq_3 numeral_2_eq_2)

end
