(* ===== verification/JsonProtocol.thy ===== *)
theory JsonProtocol
  imports Base64 Protocol
begin

text \<open>
  \<^verbatim>\<open>TJSONProtocol\<close> (\<^verbatim>\<open>protocol/TJSONProtocol.{h,cpp}\<close>): values as JSON text. The object
  keeps a stack of contexts, which say what separates the next value from the one before it, and
  a reader that can look one character ahead. The conversions of \<^verbatim>\<open>boost::lexical_cast\<close> between
  numbers and text are an argument of the model.
\<close>

unbundle bit_operations_syntax

section \<open>The state\<close>

text \<open>
  \<^verbatim>\<open>TJSONContext\<close>, \<^verbatim>\<open>JSONPairContext\<close> with \<^verbatim>\<open>first_\<close> and \<^verbatim>\<open>colon_\<close>, and
  \<^verbatim>\<open>JSONListContext\<close> with \<^verbatim>\<open>first_\<close>. A context on the stack has no other owner, so
  it is kept as a value.
\<close>

datatype json_context = BaseContext | PairContext bool bool | ListContext bool

record 'u json =
  js_trans :: 'u
  contexts :: "json_context list"
  context_top :: json_context
  hasData :: bool
  data :: u8

text \<open>The conversions of \<^verbatim>\<open>boost::lexical_cast\<close>, and the value of \<^verbatim>\<open>HUGE_VAL/HUGE_VAL\<close>.\<close>

record lexical =
  lc_show :: "int \<Rightarrow> bytes"
  lc_read_bool :: "bytes \<Rightarrow> bool option"
  lc_read_i16 :: "bytes \<Rightarrow> i16 option"
  lc_read_i32 :: "bytes \<Rightarrow> i32 option"
  lc_read_i64 :: "bytes \<Rightarrow> i64 option"
  lc_read_u64 :: "bytes \<Rightarrow> i64 option"
  lc_show_double :: "i64 \<Rightarrow> bytes"
  lc_read_double :: "bytes \<Rightarrow> i64 option"
  lc_nan :: i64

definition new_TJSONProtocol :: "'u \<Rightarrow> 'u json" where
  "new_TJSONProtocol t =
     \<lparr>js_trans = t, contexts = [], context_top = BaseContext, hasData = False, data = 0\<rparr>"

definition on_js_trans :: "('u, 'a) tio \<Rightarrow> ('u json, 'a) tio" where
  "on_js_trans = on_part js_trans (\<lambda>t s. s\<lparr>js_trans := t\<rparr>)"

section \<open>Characters and names\<close>

definition kJSONObjectStart :: u8 where "kJSONObjectStart = 0x7B"
definition kJSONObjectEnd :: u8 where "kJSONObjectEnd = 0x7D"
definition kJSONArrayStart :: u8 where "kJSONArrayStart = 0x5B"
definition kJSONArrayEnd :: u8 where "kJSONArrayEnd = 0x5D"
definition kJSONPairSeparator :: u8 where "kJSONPairSeparator = 0x3A"
definition kJSONElemSeparator :: u8 where "kJSONElemSeparator = 0x2C"
definition kJSONBackslash :: u8 where "kJSONBackslash = 0x5C"
definition kJSONStringDelimiter :: u8 where "kJSONStringDelimiter = 0x22"
definition kJSONZeroChar :: u8 where "kJSONZeroChar = 0x30"
definition kJSONEscapeChar :: u8 where "kJSONEscapeChar = 0x75"

lemmas json_chars = kJSONObjectStart_def kJSONObjectEnd_def kJSONArrayStart_def kJSONArrayEnd_def
  kJSONPairSeparator_def kJSONElemSeparator_def kJSONBackslash_def kJSONStringDelimiter_def
  kJSONZeroChar_def kJSONEscapeChar_def

definition kJSONEscapePrefix :: bytes where "kJSONEscapePrefix = [0x5C, 0x75, 0x30, 0x30]"

definition kThriftVersion1 :: int where "kThriftVersion1 = 1"

definition kThriftNan :: bytes where "kThriftNan = str ''NaN''"
definition kThriftInfinity :: bytes where "kThriftInfinity = str ''Infinity''"
definition kThriftNegativeInfinity :: bytes where "kThriftNegativeInfinity = str ''-Infinity''"

fun getTypeNameForTypeID :: "ttype \<Rightarrow> exc + bytes" where
  "getTypeNameForTypeID T_BOOL = Inr (str ''tf'')"
| "getTypeNameForTypeID T_BYTE = Inr (str ''i8'')"
| "getTypeNameForTypeID T_I16 = Inr (str ''i16'')"
| "getTypeNameForTypeID T_I32 = Inr (str ''i32'')"
| "getTypeNameForTypeID T_I64 = Inr (str ''i64'')"
| "getTypeNameForTypeID T_DOUBLE = Inr (str ''dbl'')"
| "getTypeNameForTypeID T_STRING = Inr (str ''str'')"
| "getTypeNameForTypeID T_STRUCT = Inr (str ''rec'')"
| "getTypeNameForTypeID T_MAP = Inr (str ''map'')"
| "getTypeNameForTypeID T_SET = Inr (str ''set'')"
| "getTypeNameForTypeID T_LIST = Inr (str ''lst'')"
| "getTypeNameForTypeID t = Inl (TProtocolException PE_NOT_IMPLEMENTED)"

text \<open>The switch looks at the first two characters; the letters are given by their codes.\<close>

definition getTypeIDForTypeName :: "bytes \<Rightarrow> exc + ttype" where
  "getTypeIDForTypeName name =
     (let result =
        (if length name > 1 then
           (let c = name ! 0; d = name ! 1 in
            if c = 0x64 then T_DOUBLE
            else if c = 0x69 then
              (if d = 0x38 then T_BYTE else if d = 0x31 then T_I16
               else if d = 0x33 then T_I32 else if d = 0x36 then T_I64 else T_STOP)
            else if c = 0x6C then T_LIST
            else if c = 0x6D then T_MAP
            else if c = 0x72 then T_STRUCT
            else if c = 0x73 then
              (if d = 0x74 then T_STRING else if d = 0x65 then T_SET else T_STOP)
            else if c = 0x74 then T_BOOL
            else T_STOP)
         else T_STOP) in
      if result = T_STOP then Inl (TProtocolException PE_NOT_IMPLEMENTED) else Inr result)"

definition kJSONCharTable :: bytes where
  "kJSONCharTable =
     [0, 0, 0, 0, 0, 0, 0, 0, 0x62, 0x74, 0x6E, 0, 0x66, 0x72, 0, 0,
      0, 0, 0, 0, 0, 0, 0, 0, 0, 0, 0, 0, 0, 0, 0, 0,
      1, 1, 0x22, 1, 1, 1, 1, 1, 1, 1, 1, 1, 1, 1, 1, 1]"

definition kEscapeChars :: bytes where
  "kEscapeChars = [0x22, 0x5C, 0x62, 0x66, 0x6E, 0x72, 0x74]"

definition kEscapeCharVals :: bytes where
  "kEscapeCharVals = [0x22, 0x5C, 0x08, 0x0C, 0x0A, 0x0D, 0x09]"

definition hexVal :: "u8 \<Rightarrow> exc + u8" where
  "hexVal ch =
     (if 0x30 \<le> ch \<and> ch \<le> 0x39 then Inr (ch - 0x30)
      else if 0x61 \<le> ch \<and> ch \<le> 0x66 then Inr (ch - 0x61 + 10)
      else Inl (TProtocolException PE_INVALID_DATA))"

definition hexChar :: "u8 \<Rightarrow> u8" where
  "hexChar v =
     (let v' = v AND 0x0F in if v' < 10 then v' + 0x30 else v' - 10 + 0x61)"

definition isJSONNumeric :: "u8 \<Rightarrow> bool" where
  "isJSONNumeric ch \<longleftrightarrow>
     ch = 0x2B \<or> ch = 0x2D \<or> ch = 0x2E \<or> (0x30 \<le> ch \<and> ch \<le> 0x39) \<or> ch = 0x45 \<or> ch = 0x65"

section \<open>The look-ahead reader\<close>

definition fetch :: "'u ttransport \<Rightarrow> ('u json, unit) tio" where
  "fetch T = bindT (on_js_trans (t_readAll T 1)) (\<lambda>bs.
     case bs of [b] \<Rightarrow> modify (\<lambda>s. s\<lparr>data := b\<rparr>) | _ \<Rightarrow> throw UndefinedBehaviour)"

definition reader_read :: "'u ttransport \<Rightarrow> ('u json, u8) tio" where
  "reader_read T s =
     bindT (if hasData s then modify (\<lambda>s. s\<lparr>hasData := False\<rparr>) else fetch T) (\<lambda>_. gets data) s"

definition reader_peek :: "'u ttransport \<Rightarrow> ('u json, u8) tio" where
  "reader_peek T s =
     bindT (if \<not> hasData s then fetch T else ret ()) (\<lambda>_.
     bindT (modify (\<lambda>s. s\<lparr>hasData := True\<rparr>)) (\<lambda>_. gets data)) s"

definition readSyntaxChar :: "'u ttransport \<Rightarrow> u8 \<Rightarrow> ('u json, unit) pio" where
  "readSyntaxChar T ch =
     bindT (reader_read T) (\<lambda>ch2.
     if ch2 \<noteq> ch then throw (TProtocolException PE_INVALID_DATA) else ret (1, ()))"

section \<open>Contexts\<close>

definition js_put :: "'u ttransport \<Rightarrow> bytes \<Rightarrow> ('u json, unit) tio" where
  "js_put T bs = on_js_trans (t_write T bs)"

definition set_context :: "json_context \<Rightarrow> ('u json, unit) tio" where
  "set_context c = modify (\<lambda>s. s\<lparr>context_top := c\<rparr>)"

definition context_write :: "'u ttransport \<Rightarrow> ('u json, unit) pio" where
  "context_write T s =
     (case context_top s of
        BaseContext \<Rightarrow> retC ()
      | PairContext first colon \<Rightarrow>
          if first then countC 0 (set_context (PairContext False True))
          else countC 1
            (bindT (js_put T [if colon then kJSONPairSeparator else kJSONElemSeparator]) (\<lambda>_.
             set_context (PairContext first (\<not> colon))))
      | ListContext first \<Rightarrow>
          if first then countC 0 (set_context (ListContext False))
          else countC 1 (js_put T [kJSONElemSeparator])) s"

definition context_read :: "'u ttransport \<Rightarrow> ('u json, unit) pio" where
  "context_read T s =
     (case context_top s of
        BaseContext \<Rightarrow> retC ()
      | PairContext first colon \<Rightarrow>
          if first then countC 0 (set_context (PairContext False True))
          else bindT (set_context (PairContext first (\<not> colon))) (\<lambda>_.
               readSyntaxChar T (if colon then kJSONPairSeparator else kJSONElemSeparator))
      | ListContext first \<Rightarrow>
          if first then countC 0 (set_context (ListContext False))
          else readSyntaxChar T kJSONElemSeparator) s"

fun escapeNum :: "json_context \<Rightarrow> bool" where
  "escapeNum (PairContext first colon) = colon"
| "escapeNum c = False"

definition pushContext :: "json_context \<Rightarrow> ('u json, unit) tio" where
  "pushContext c = modify (\<lambda>s. s\<lparr>contexts := context_top s # contexts s, context_top := c\<rparr>)"

text \<open>\<^verbatim>\<open>contexts_.top()\<close> of an empty stack is undefined.\<close>

definition popContext :: "('u json, unit) tio" where
  "popContext s =
     (case contexts s of
        [] \<Rightarrow> (Inl UndefinedBehaviour, s)
      | c # cs \<Rightarrow> (Inr (), s\<lparr>context_top := c, contexts := cs\<rparr>))"

section \<open>Writing JSON\<close>

definition writeJSONEscapeChar :: "'u ttransport \<Rightarrow> u8 \<Rightarrow> ('u json, unit) pio" where
  "writeJSONEscapeChar T ch = countC 6
     (bindT (js_put T kJSONEscapePrefix) (\<lambda>_.
      bindT (js_put T [hexChar (drop_bit 4 ch)]) (\<lambda>_. js_put T [hexChar ch])))"

definition writeJSONChar :: "'u ttransport \<Rightarrow> u8 \<Rightarrow> ('u json, unit) pio" where
  "writeJSONChar T ch =
     (if 0x30 \<le> ch then
        (if ch = kJSONBackslash then
           countC 2 (bindT (js_put T [kJSONBackslash]) (\<lambda>_. js_put T [kJSONBackslash]))
         else countC 1 (js_put T [ch]))
      else
        (let outCh = kJSONCharTable ! unat ch in
         if outCh = 1 then countC 1 (js_put T [ch])
         else if outCh > 1 then
           countC 2 (bindT (js_put T [kJSONBackslash]) (\<lambda>_. js_put T [outCh]))
         else writeJSONEscapeChar T ch))"

fun writeJSONChars :: "'u ttransport \<Rightarrow> bytes \<Rightarrow> ('u json, unit) pio" where
  "writeJSONChars T [] = retC ()"
| "writeJSONChars T (ch # cs) = bindC (writeJSONChar T ch) (\<lambda>_. writeJSONChars T cs)"

definition writeJSONString :: "'u ttransport \<Rightarrow> bytes \<Rightarrow> ('u json, unit) pio" where
  "writeJSONString T cs =
     bindC (context_write T) (\<lambda>_.
     bindC (countC 1 (js_put T [kJSONStringDelimiter])) (\<lambda>_.
     bindC (writeJSONChars T cs) (\<lambda>_.
     countC 1 (js_put T [kJSONStringDelimiter]))))"

text \<open>The buffer \<^verbatim>\<open>b\<close> is written before it is read, so its first contents do not matter.\<close>

function writeBase64_loop :: "'u ttransport \<Rightarrow> bytes \<Rightarrow> nat \<Rightarrow> ('u json, unit) pio" where
  "writeBase64_loop T bs len =
     (if 3 \<le> len then
        bindC (countC 4 (js_put T (base64_encode bs 3 [0, 0, 0, 0]))) (\<lambda>_.
        writeBase64_loop T (drop 3 bs) (len - 3))
      else if len \<noteq> 0 then
        countC (len + 1) (js_put T (take (len + 1) (base64_encode bs len [0, 0, 0, 0])))
      else retC ())"
  by pat_completeness auto
termination by (relation "measure (\<lambda>(T, bs, len). len)") auto

declare writeBase64_loop.simps [simp del]

definition writeJSONBase64 :: "'u ttransport \<Rightarrow> bytes \<Rightarrow> ('u json, unit) pio" where
  "writeJSONBase64 T bs =
     bindC (context_write T) (\<lambda>_.
     bindC (countC 1 (js_put T [kJSONStringDelimiter])) (\<lambda>_.
     bindC (writeBase64_loop T bs (u32 (length bs))) (\<lambda>_.
     countC 1 (js_put T [kJSONStringDelimiter]))))"

text \<open>The common end of the number writers: the text, in quotes where asked for.\<close>

definition put_number :: "'u ttransport \<Rightarrow> bool \<Rightarrow> bytes \<Rightarrow> ('u json, unit) pio" where
  "put_number T quote val =
     bindC (if quote then countC 1 (js_put T [kJSONStringDelimiter]) else retC ()) (\<lambda>_.
     bindC (countC (u32 (length val)) (js_put T val)) (\<lambda>_.
     if quote then countC 1 (js_put T [kJSONStringDelimiter]) else retC ()))"

definition writeJSONInteger :: "lexical \<Rightarrow> 'u ttransport \<Rightarrow> int \<Rightarrow> ('u json, unit) pio" where
  "writeJSONInteger L T num =
     bindC (context_write T) (\<lambda>_ s. put_number T (escapeNum (context_top s)) (lc_show L num) s)"

definition char_at :: "bytes \<Rightarrow> nat \<Rightarrow> u8" where
  "char_at val i = (if i < length val then val ! i else 0)"

text \<open>The normalised text of a double, and whether it is one of the special names.\<close>

definition double_text :: "bytes \<Rightarrow> bytes \<times> bool" where
  "double_text val =
     (let c = char_at val 0 in
      if c = 0x4E \<or> c = 0x6E then (kThriftNan, True)
      else if c = 0x49 \<or> c = 0x69 then (kThriftInfinity, True)
      else if c = 0x2D \<and> (char_at val 1 = 0x49 \<or> char_at val 1 = 0x69) then
        (kThriftNegativeInfinity, True)
      else (val, False))"

definition writeJSONDouble :: "lexical \<Rightarrow> 'u ttransport \<Rightarrow> i64 \<Rightarrow> ('u json, unit) pio" where
  "writeJSONDouble L T num =
     bindC (context_write T) (\<lambda>_ s.
     case double_text (lc_show_double L num) of
       (val, special) \<Rightarrow> put_number T (special \<or> escapeNum (context_top s)) val s)"

definition writeJSONObjectStart :: "'u ttransport \<Rightarrow> ('u json, unit) pio" where
  "writeJSONObjectStart T =
     bindC (context_write T) (\<lambda>_.
     countC 1 (bindT (js_put T [kJSONObjectStart]) (\<lambda>_. pushContext (PairContext True True))))"

definition writeJSONObjectEnd :: "'u ttransport \<Rightarrow> ('u json, unit) pio" where
  "writeJSONObjectEnd T = countC 1 (bindT popContext (\<lambda>_. js_put T [kJSONObjectEnd]))"

definition writeJSONArrayStart :: "'u ttransport \<Rightarrow> ('u json, unit) pio" where
  "writeJSONArrayStart T =
     bindC (context_write T) (\<lambda>_.
     countC 1 (bindT (js_put T [kJSONArrayStart]) (\<lambda>_. pushContext (ListContext True))))"

definition writeJSONArrayEnd :: "'u ttransport \<Rightarrow> ('u json, unit) pio" where
  "writeJSONArrayEnd T = countC 1 (bindT popContext (\<lambda>_. js_put T [kJSONArrayEnd]))"

section \<open>The writing functions\<close>

definition writeJSONTypeName :: "'u ttransport \<Rightarrow> ttype \<Rightarrow> ('u json, unit) pio" where
  "writeJSONTypeName T t s =
     (case getTypeNameForTypeID t of Inl e \<Rightarrow> (Inl e, s) | Inr name \<Rightarrow> writeJSONString T name s)"

definition js_writeMessageBegin ::
  "lexical \<Rightarrow> 'u ttransport \<Rightarrow> bytes \<Rightarrow> tmessage_type \<Rightarrow> i32 \<Rightarrow> ('u json, unit) pio" where
  "js_writeMessageBegin L T name messageType seqid =
     bindC (writeJSONArrayStart T) (\<lambda>_.
     bindC (writeJSONInteger L T kThriftVersion1) (\<lambda>_.
     bindC (writeJSONString T name) (\<lambda>_.
     bindC (writeJSONInteger L T (sint (msg_code messageType))) (\<lambda>_.
     writeJSONInteger L T (sint seqid)))))"

definition js_writeMessageEnd :: "'u ttransport \<Rightarrow> ('u json, unit) pio" where
  "js_writeMessageEnd T = writeJSONArrayEnd T"

definition js_writeStructBegin :: "'u ttransport \<Rightarrow> bytes \<Rightarrow> ('u json, unit) pio" where
  "js_writeStructBegin T name = writeJSONObjectStart T"

definition js_writeStructEnd :: "'u ttransport \<Rightarrow> ('u json, unit) pio" where
  "js_writeStructEnd T = writeJSONObjectEnd T"

definition js_writeFieldBegin ::
  "lexical \<Rightarrow> 'u ttransport \<Rightarrow> bytes \<Rightarrow> ttype \<Rightarrow> i16 \<Rightarrow> ('u json, unit) pio" where
  "js_writeFieldBegin L T name fieldType fieldId =
     bindC (writeJSONInteger L T (sint fieldId)) (\<lambda>_.
     bindC (writeJSONObjectStart T) (\<lambda>_. writeJSONTypeName T fieldType))"

definition js_writeFieldEnd :: "'u ttransport \<Rightarrow> ('u json, unit) pio" where
  "js_writeFieldEnd T = writeJSONObjectEnd T"

definition js_writeFieldStop :: "('u json, unit) pio" where
  "js_writeFieldStop = retC ()"

definition js_writeMapBegin ::
  "lexical \<Rightarrow> 'u ttransport \<Rightarrow> ttype \<Rightarrow> ttype \<Rightarrow> nat \<Rightarrow> ('u json, unit) pio" where
  "js_writeMapBegin L T keyType valType sz =
     bindC (writeJSONArrayStart T) (\<lambda>_.
     bindC (writeJSONTypeName T keyType) (\<lambda>_.
     bindC (writeJSONTypeName T valType) (\<lambda>_.
     bindC (writeJSONInteger L T (int sz)) (\<lambda>_. writeJSONObjectStart T))))"

text \<open>
  C++ leaves open which operand of \<^verbatim>\<open>writeJSONObjectEnd() + writeJSONArrayEnd()\<close> is evaluated
  first; the model takes them from left to right.
\<close>

definition js_writeMapEnd :: "'u ttransport \<Rightarrow> ('u json, unit) pio" where
  "js_writeMapEnd T = bindC (writeJSONObjectEnd T) (\<lambda>_. writeJSONArrayEnd T)"

definition js_writeListBegin :: "lexical \<Rightarrow> 'u ttransport \<Rightarrow> ttype \<Rightarrow> nat \<Rightarrow> ('u json, unit) pio" where
  "js_writeListBegin L T elemType sz =
     bindC (writeJSONArrayStart T) (\<lambda>_.
     bindC (writeJSONTypeName T elemType) (\<lambda>_. writeJSONInteger L T (int sz)))"

definition js_writeListEnd :: "'u ttransport \<Rightarrow> ('u json, unit) pio" where
  "js_writeListEnd T = writeJSONArrayEnd T"

definition js_writeSetBegin :: "lexical \<Rightarrow> 'u ttransport \<Rightarrow> ttype \<Rightarrow> nat \<Rightarrow> ('u json, unit) pio" where
  "js_writeSetBegin L T elemType sz =
     bindC (writeJSONArrayStart T) (\<lambda>_.
     bindC (writeJSONTypeName T elemType) (\<lambda>_. writeJSONInteger L T (int sz)))"

definition js_writeSetEnd :: "'u ttransport \<Rightarrow> ('u json, unit) pio" where
  "js_writeSetEnd T = writeJSONArrayEnd T"

definition js_writeBool :: "lexical \<Rightarrow> 'u ttransport \<Rightarrow> bool \<Rightarrow> ('u json, unit) pio" where
  "js_writeBool L T b = writeJSONInteger L T (of_bool b)"

definition js_writeByte :: "lexical \<Rightarrow> 'u ttransport \<Rightarrow> u8 \<Rightarrow> ('u json, unit) pio" where
  "js_writeByte L T byte = writeJSONInteger L T (sint byte)"

definition js_writeI16 :: "lexical \<Rightarrow> 'u ttransport \<Rightarrow> i16 \<Rightarrow> ('u json, unit) pio" where
  "js_writeI16 L T w = writeJSONInteger L T (sint w)"

definition js_writeI32 :: "lexical \<Rightarrow> 'u ttransport \<Rightarrow> i32 \<Rightarrow> ('u json, unit) pio" where
  "js_writeI32 L T w = writeJSONInteger L T (sint w)"

definition js_writeI64 :: "lexical \<Rightarrow> 'u ttransport \<Rightarrow> i64 \<Rightarrow> ('u json, unit) pio" where
  "js_writeI64 L T w = writeJSONInteger L T (sint w)"

definition js_writeDouble :: "lexical \<Rightarrow> 'u ttransport \<Rightarrow> i64 \<Rightarrow> ('u json, unit) pio" where
  "js_writeDouble L T dub = writeJSONDouble L T dub"

definition js_writeString :: "'u ttransport \<Rightarrow> bytes \<Rightarrow> ('u json, unit) pio" where
  "js_writeString T cs = writeJSONString T cs"

definition js_writeBinary :: "'u ttransport \<Rightarrow> bytes \<Rightarrow> ('u json, unit) pio" where
  "js_writeBinary T cs = writeJSONBase64 T cs"

section \<open>Reading JSON\<close>

definition readJSONSyntaxChar :: "'u ttransport \<Rightarrow> u8 \<Rightarrow> ('u json, unit) pio" where
  "readJSONSyntaxChar T ch = readSyntaxChar T ch"

definition readJSONEscapeChar :: "'u ttransport \<Rightarrow> ('u json, u8) pio" where
  "readJSONEscapeChar T =
     bindT (readJSONSyntaxChar T kJSONZeroChar) (\<lambda>_.
     bindT (readJSONSyntaxChar T kJSONZeroChar) (\<lambda>_.
     bindT (reader_read T) (\<lambda>b0.
     bindT (reader_read T) (\<lambda>b1.
     case hexVal b0 of Inl e \<Rightarrow> throw e
     | Inr h \<Rightarrow> (case hexVal b1 of Inl e \<Rightarrow> throw e
       | Inr l \<Rightarrow> ret (4, push_bit 4 h + l))))))"

text \<open>One turn of the loop of \<^verbatim>\<open>readJSONString\<close>, over the count and the string so far.\<close>

definition readJSONString_body ::
  "'u ttransport \<Rightarrow> nat \<times> bytes \<Rightarrow> ('u json, (nat \<times> bytes) + (nat \<times> bytes)) tio" where
  "readJSONString_body T = (\<lambda>(result, cs).
     bindT (reader_read T) (\<lambda>ch.
     if ch = kJSONStringDelimiter then leave_with (u32 (result + 1), cs)
     else if ch = kJSONBackslash then
       bindT (reader_read T) (\<lambda>ch.
       if ch = kJSONEscapeChar then
         bindT (readJSONEscapeChar T) (\<lambda>(n, ch). continue_with (u32 (result + 2 + n), cs @ [ch]))
       else case strchr kEscapeChars ch of
         None \<Rightarrow> throw (TProtocolException PE_INVALID_DATA)
       | Some pos \<Rightarrow> continue_with (u32 (result + 2), cs @ [kEscapeCharVals ! pos]))
     else continue_with (u32 (result + 1), cs @ [ch])))"

definition readJSONString :: "'u ttransport \<Rightarrow> bool \<Rightarrow> ('u json, bytes) pio" where
  "readJSONString T skipContext =
     bindC (if skipContext then retC () else context_read T) (\<lambda>_.
     bindC (readJSONSyntaxChar T kJSONStringDelimiter) (\<lambda>_.
     loopT (readJSONString_body T) (0, [])))"

function readBase64_loop :: "bytes \<Rightarrow> nat \<Rightarrow> bytes \<Rightarrow> bytes" where
  "readBase64_loop b len cs =
     (if 4 \<le> len then readBase64_loop (drop 4 b) (len - 4) (cs @ take 3 (base64_decode b 4))
      else if len > 1 then cs @ take (len - 1) (base64_decode b len)
      else cs)"
  by pat_completeness auto
termination by (relation "measure (\<lambda>(b, len, cs). len)") auto

declare readBase64_loop.simps [simp del]

definition readJSONBase64 :: "'u ttransport \<Rightarrow> ('u json, bytes) pio" where
  "readJSONBase64 T = bindC (readJSONString T False) (\<lambda>tmp.
     retC (readBase64_loop tmp (u32 (length tmp)) []))"

definition readNumericChars_body ::
  "'u ttransport \<Rightarrow> nat \<times> bytes \<Rightarrow> ('u json, (nat \<times> bytes) + (nat \<times> bytes)) tio" where
  "readNumericChars_body T = (\<lambda>(result, cs).
     bindT (reader_peek T) (\<lambda>ch.
     if \<not> isJSONNumeric ch then leave_with (result, cs)
     else bindT (reader_read T) (\<lambda>_. continue_with (u32 (result + 1), cs @ [ch]))))"

definition readJSONNumericChars :: "'u ttransport \<Rightarrow> ('u json, bytes) pio" where
  "readJSONNumericChars T = loopT (readNumericChars_body T) (0, [])"

text \<open>
  \<^verbatim>\<open>boost::lexical_cast\<close> of what was read; the code throws a pointer when it fails.
\<close>

definition cast_text :: "(bytes \<Rightarrow> 'n option) \<Rightarrow> bytes \<Rightarrow> ('u json, 'n) pio" where
  "cast_text conv cs =
     (case conv cs of None \<Rightarrow> throw (ThrownPointer PE_INVALID_DATA) | Some n \<Rightarrow> retC n)"

definition readJSONInteger :: "(bytes \<Rightarrow> 'n option) \<Rightarrow> 'u ttransport \<Rightarrow> ('u json, 'n) pio" where
  "readJSONInteger conv T =
     bindC (context_read T) (\<lambda>_ s.
     bindC (if escapeNum (context_top s) then readJSONSyntaxChar T kJSONStringDelimiter else retC ()) (\<lambda>_.
     bindC (readJSONNumericChars T) (\<lambda>cs.
     bindC (cast_text conv cs) (\<lambda>num s.
     bindC (if escapeNum (context_top s) then readJSONSyntaxChar T kJSONStringDelimiter else retC ())
       (\<lambda>_. retC num) s))) s)"

definition HUGE_VAL :: i64 where "HUGE_VAL = 0x7FF0000000000000"
definition minus_HUGE_VAL :: i64 where "minus_HUGE_VAL = 0xFFF0000000000000"

definition readJSONDouble :: "lexical \<Rightarrow> 'u ttransport \<Rightarrow> ('u json, i64) pio" where
  "readJSONDouble L T =
     bindC (context_read T) (\<lambda>_.
     bindC (countC 0 (reader_peek T)) (\<lambda>ch.
     if ch = kJSONStringDelimiter then
       bindC (readJSONString T True) (\<lambda>cs s.
       if cs = kThriftNan then retC (lc_nan L) s
       else if cs = kThriftInfinity then retC HUGE_VAL s
       else if cs = kThriftNegativeInfinity then retC minus_HUGE_VAL s
       else if \<not> escapeNum (context_top s) then throw (ThrownPointer PE_INVALID_DATA) s
       else cast_text (lc_read_double L) cs s)
     else (\<lambda>s.
       bindC (if escapeNum (context_top s) then countC 0 (readJSONSyntaxChar T kJSONStringDelimiter) else retC (0, ())) (\<lambda>_.
       bindC (readJSONNumericChars T) (cast_text (lc_read_double L))) s)))"

definition readJSONObjectStart :: "'u ttransport \<Rightarrow> ('u json, unit) pio" where
  "readJSONObjectStart T =
     bindC (context_read T) (\<lambda>_.
     bindC (readJSONSyntaxChar T kJSONObjectStart) (\<lambda>_.
     countC 0 (pushContext (PairContext True True))))"

definition readJSONObjectEnd :: "'u ttransport \<Rightarrow> ('u json, unit) pio" where
  "readJSONObjectEnd T = bindC (readJSONSyntaxChar T kJSONObjectEnd) (\<lambda>_. countC 0 popContext)"

definition readJSONArrayStart :: "'u ttransport \<Rightarrow> ('u json, unit) pio" where
  "readJSONArrayStart T =
     bindC (context_read T) (\<lambda>_.
     bindC (readJSONSyntaxChar T kJSONArrayStart) (\<lambda>_.
     countC 0 (pushContext (ListContext True))))"

definition readJSONArrayEnd :: "'u ttransport \<Rightarrow> ('u json, unit) pio" where
  "readJSONArrayEnd T = bindC (readJSONSyntaxChar T kJSONArrayEnd) (\<lambda>_. countC 0 popContext)"

section \<open>The reading functions\<close>

text \<open>The numbers that are read as \<^verbatim>\<open>uint64_t\<close> and then cut to the type of the result.\<close>

definition readJSONTypeName :: "'u ttransport \<Rightarrow> ('u json, ttype) pio" where
  "readJSONTypeName T = bindC (readJSONString T False) (\<lambda>name.
     case getTypeIDForTypeName name of Inl e \<Rightarrow> throw e | Inr t \<Rightarrow> retC t)"

definition js_readMessageBegin ::
  "lexical \<Rightarrow> 'u ttransport \<Rightarrow> ('u json, bytes \<times> tmessage_type \<times> i32) pio" where
  "js_readMessageBegin L T =
     bindC (readJSONArrayStart T) (\<lambda>_.
     bindC (readJSONInteger (lc_read_u64 L) T) (\<lambda>version.
     if version \<noteq> of_int kThriftVersion1 then throw (TProtocolException PE_BAD_VERSION)
     else
       bindC (readJSONString T False) (\<lambda>name.
       bindC (readJSONInteger (lc_read_u64 L) T) (\<lambda>messageType.
       bindC (readJSONInteger (lc_read_u64 L) T) (\<lambda>seqid.
       retC (name, msg_of (ucast messageType), ucast seqid))))))"

definition js_readMessageEnd :: "'u ttransport \<Rightarrow> ('u json, unit) pio" where
  "js_readMessageEnd T = readJSONArrayEnd T"

definition js_readStructBegin :: "'u ttransport \<Rightarrow> ('u json, bytes) pio" where
  "js_readStructBegin T = bindC (readJSONObjectStart T) (\<lambda>_. retC [])"

definition js_readStructEnd :: "'u ttransport \<Rightarrow> ('u json, unit) pio" where
  "js_readStructEnd T = readJSONObjectEnd T"

text \<open>At the end of the fields the id is left as the caller had it; here it is 0.\<close>

definition js_readFieldBegin :: "lexical \<Rightarrow> 'u ttransport \<Rightarrow> ('u json, bytes \<times> ttype \<times> i16) pio" where
  "js_readFieldBegin L T =
     bindC (countC 0 (reader_peek T)) (\<lambda>ch.
     if ch = kJSONObjectEnd then retC ([], T_STOP, 0)
     else
       bindC (readJSONInteger (lc_read_u64 L) T) (\<lambda>fieldId.
       bindC (readJSONObjectStart T) (\<lambda>_.
       bindC (readJSONTypeName T) (\<lambda>fieldType. retC ([], fieldType, ucast fieldId)))))"

definition js_readFieldEnd :: "'u ttransport \<Rightarrow> ('u json, unit) pio" where
  "js_readFieldEnd T = readJSONObjectEnd T"

definition js_readMapBegin :: "lexical \<Rightarrow> 'u ttransport \<Rightarrow> ('u json, ttype \<times> ttype \<times> nat) pio" where
  "js_readMapBegin L T =
     bindC (readJSONArrayStart T) (\<lambda>_.
     bindC (readJSONTypeName T) (\<lambda>keyType.
     bindC (readJSONTypeName T) (\<lambda>valType.
     bindC (readJSONInteger (lc_read_u64 L) T) (\<lambda>sz.
     bindC (readJSONObjectStart T) (\<lambda>_. retC (keyType, valType, u32 (unat sz)))))))"

definition js_readMapEnd :: "'u ttransport \<Rightarrow> ('u json, unit) pio" where
  "js_readMapEnd T = bindC (readJSONObjectEnd T) (\<lambda>_. readJSONArrayEnd T)"

definition js_readListBegin :: "lexical \<Rightarrow> 'u ttransport \<Rightarrow> ('u json, ttype \<times> nat) pio" where
  "js_readListBegin L T =
     bindC (readJSONArrayStart T) (\<lambda>_.
     bindC (readJSONTypeName T) (\<lambda>elemType.
     bindC (readJSONInteger (lc_read_u64 L) T) (\<lambda>sz. retC (elemType, u32 (unat sz)))))"

definition js_readListEnd :: "'u ttransport \<Rightarrow> ('u json, unit) pio" where
  "js_readListEnd T = readJSONArrayEnd T"

definition js_readSetBegin :: "lexical \<Rightarrow> 'u ttransport \<Rightarrow> ('u json, ttype \<times> nat) pio" where
  "js_readSetBegin L T =
     bindC (readJSONArrayStart T) (\<lambda>_.
     bindC (readJSONTypeName T) (\<lambda>elemType.
     bindC (readJSONInteger (lc_read_u64 L) T) (\<lambda>sz. retC (elemType, u32 (unat sz)))))"

definition js_readSetEnd :: "'u ttransport \<Rightarrow> ('u json, unit) pio" where
  "js_readSetEnd T = readJSONArrayEnd T"

definition js_readBool :: "lexical \<Rightarrow> 'u ttransport \<Rightarrow> ('u json, bool) pio" where
  "js_readBool L T = readJSONInteger (lc_read_bool L) T"

definition js_readByte :: "lexical \<Rightarrow> 'u ttransport \<Rightarrow> ('u json, u8) pio" where
  "js_readByte L T = bindC (readJSONInteger (lc_read_i16 L) T) (\<lambda>tmp.
     if sint tmp < 256 then retC (ucast tmp) else throw AssertFail)"

definition js_readI16 :: "lexical \<Rightarrow> 'u ttransport \<Rightarrow> ('u json, i16) pio" where
  "js_readI16 L T = readJSONInteger (lc_read_i16 L) T"

definition js_readI32 :: "lexical \<Rightarrow> 'u ttransport \<Rightarrow> ('u json, i32) pio" where
  "js_readI32 L T = readJSONInteger (lc_read_i32 L) T"

definition js_readI64 :: "lexical \<Rightarrow> 'u ttransport \<Rightarrow> ('u json, i64) pio" where
  "js_readI64 L T = readJSONInteger (lc_read_i64 L) T"

definition js_readDouble :: "lexical \<Rightarrow> 'u ttransport \<Rightarrow> ('u json, i64) pio" where
  "js_readDouble L T = readJSONDouble L T"

definition js_readString :: "'u ttransport \<Rightarrow> ('u json, bytes) pio" where
  "js_readString T = readJSONString T False"

definition js_readBinary :: "'u ttransport \<Rightarrow> ('u json, bytes) pio" where
  "js_readBinary T = readJSONBase64 T"

section \<open>The protocol\<close>

definition json_protocol :: "lexical \<Rightarrow> 'u ttransport \<Rightarrow> 'u json tprotocol" where
  "json_protocol L T = \<lparr>
     writeMessageBegin_virt = js_writeMessageBegin L T,
     writeMessageEnd_virt = js_writeMessageEnd T,
     writeStructBegin_virt = js_writeStructBegin T,
     writeStructEnd_virt = js_writeStructEnd T,
     writeFieldBegin_virt = js_writeFieldBegin L T,
     writeFieldEnd_virt = js_writeFieldEnd T,
     writeFieldStop_virt = js_writeFieldStop,
     writeMapBegin_virt = js_writeMapBegin L T,
     writeMapEnd_virt = js_writeMapEnd T,
     writeListBegin_virt = js_writeListBegin L T,
     writeListEnd_virt = js_writeListEnd T,
     writeSetBegin_virt = js_writeSetBegin L T,
     writeSetEnd_virt = js_writeSetEnd T,
     writeBool_virt = js_writeBool L T,
     writeByte_virt = js_writeByte L T,
     writeI16_virt = js_writeI16 L T,
     writeI32_virt = js_writeI32 L T,
     writeI64_virt = js_writeI64 L T,
     writeDouble_virt = js_writeDouble L T,
     writeString_virt = js_writeString T,
     writeBinary_virt = js_writeBinary T,
     readMessageBegin_virt = js_readMessageBegin L T,
     readMessageEnd_virt = js_readMessageEnd T,
     readStructBegin_virt = js_readStructBegin T,
     readStructEnd_virt = js_readStructEnd T,
     readFieldBegin_virt = js_readFieldBegin L T,
     readFieldEnd_virt = js_readFieldEnd T,
     readMapBegin_virt = js_readMapBegin L T,
     readMapEnd_virt = js_readMapEnd T,
     readListBegin_virt = js_readListBegin L T,
     readListEnd_virt = js_readListEnd T,
     readSetBegin_virt = js_readSetBegin L T,
     readSetEnd_virt = js_readSetEnd T,
     readBool_virt = js_readBool L T,
     readByte_virt = js_readByte L T,
     readI16_virt = js_readI16 L T,
     readI32_virt = js_readI32 L T,
     readI64_virt = js_readI64 L T,
     readDouble_virt = js_readDouble L T,
     readString_virt = js_readString T,
     readBinary_virt = js_readBinary T\<rparr>"

end
