(* ===== verification/JsonCodec.thy ===== *)
theory JsonCodec
  imports JsonProtocol ProtocolCodec MemoryBuffer
begin

text \<open>
  The text that TJSONProtocol writes for a value, as a function of the value and the context it is
  written in, and the proof that the writer appends exactly this text and the reader takes the
  value back from it.
\<close>

section \<open>Actions in front of a guarded rest\<close>

text \<open>
  Numbers in JSON end where the next character is not part of a number, so what a reading action
  does depends on what follows its own bytes. \<open>takesT G\<close> is the promise of a reading action in
  front of bytes whose rest satisfies \<open>G\<close>; \<open>emitsT\<close> that of a writing action without the count.
\<close>

context codec_base
begin

definition emitsT :: "'c \<Rightarrow> ('s, 'a) tio \<Rightarrow> bytes \<Rightarrow> 'a \<Rightarrow> 'c \<Rightarrow> bool" where
  "emitsT c m bs x c' \<longleftrightarrow> (\<forall>s n. W c s \<longrightarrow> room s (length bs + n) \<longrightarrow>
     (\<exists>s'. m s = (Inr x, s') \<and> W c' s' \<and> written s' = written s @ bs \<and> room s' n))"

definition takesT :: "(bytes \<Rightarrow> bool) \<Rightarrow> 'c \<Rightarrow> ('s, 'a) tio \<Rightarrow> bytes \<Rightarrow> 'a \<Rightarrow> 'c \<Rightarrow> bool" where
  "takesT G c m bs x c' \<longleftrightarrow> (\<forall>s rest. R c s \<longrightarrow> pending s = bs @ rest \<longrightarrow> G rest \<longrightarrow>
     (\<exists>s'. m s = (Inr x, s') \<and> R c' s' \<and> pending s' = rest))"

definition takesG :: "(bytes \<Rightarrow> bool) \<Rightarrow> 'c \<Rightarrow> ('s, 'a) pio \<Rightarrow> bytes \<Rightarrow> 'a \<Rightarrow> 'c \<Rightarrow> bool" where
  "takesG G c m bs x c' \<longleftrightarrow> takesT G c m bs (u32 (length bs), x) c'"

lemma emits_iff: "emits c m bs x c' \<longleftrightarrow> emitsT c m bs (u32 (length bs), x) c'"
  by (simp add: emits_def emitsT_def)

lemma emitsT_bind:
  assumes "emitsT c m bs x c1" and "emitsT c1 (f x) cs y c2"
  shows "emitsT c (bindT m f) (bs @ cs) y c2"
  unfolding emitsT_def
proof (intro allI impI)
  fix s n
  assume "W c s" and "room s (length (bs @ cs) + n)"
  with assms(1) obtain t where t: "m s = (Inr x, t)" "W c1 t" "written t = written s @ bs"
      "room t (length cs + n)"
    unfolding emitsT_def by (metis add.assoc length_append)
  with assms(2) obtain u where "f x t = (Inr y, u)" "W c2 u" "written u = written t @ cs" "room u n"
    unfolding emitsT_def by blast
  with t show "\<exists>s'. bindT m f s = (Inr y, s') \<and> W c2 s' \<and> written s' = written s @ bs @ cs \<and> room s' n"
    by (simp add: bindT_ok)
qed

lemma takesT_bind:
  assumes "takesT G1 c m bs x c1" and "takesT G c1 (f x) cs y c2"
    and "\<And>rest. G rest \<Longrightarrow> G1 (cs @ rest)"
  shows "takesT G c (bindT m f) (bs @ cs) y c2"
  unfolding takesT_def
proof (intro allI impI)
  fix s rest
  assume "R c s" and "pending s = (bs @ cs) @ rest" and g: "G rest"
  then have "pending s = bs @ (cs @ rest)" by simp
  with assms(1,3) \<open>R c s\<close> g obtain t where t: "m s = (Inr x, t)" "R c1 t" "pending t = cs @ rest"
    unfolding takesT_def by blast
  with assms(2) g obtain u where "f x t = (Inr y, u)" "R c2 u" "pending u = rest"
    unfolding takesT_def by blast
  with t show "\<exists>s'. bindT m f s = (Inr y, s') \<and> R c2 s' \<and> pending s' = rest"
    by (simp add: bindT_ok)
qed

lemma emitsT_ret: "emitsT c (ret x) [] x c"
  by (simp add: emitsT_def ret_def)

lemma takesT_ret: "takesT G c (ret x) [] x c"
  by (simp add: takesT_def ret_def)

lemma takesT_state:
  "(\<And>s. R c s \<Longrightarrow> m s = m' s) \<Longrightarrow> takesT G c m' bs x c' \<Longrightarrow> takesT G c m bs x c'"
  unfolding takesT_def by (intro allI impI) simp

lemma emits_state:
  "(\<And>s. W c s \<Longrightarrow> m s = m' s) \<Longrightarrow> emits c m' bs x c' \<Longrightarrow> emits c m bs x c'"
  unfolding emits_def by (intro allI impI) simp

lemma takesG_state:
  "(\<And>s. R c s \<Longrightarrow> m s = m' s) \<Longrightarrow> takesG G c m' bs x c' \<Longrightarrow> takesG G c m bs x c'"
  unfolding takesG_def by (rule takesT_state)

lemma emits_count: "emitsT c m bs x c' \<Longrightarrow> n = u32 (length bs) \<Longrightarrow> emits c (countC n m) bs x c'"
  unfolding emits_def emitsT_def countC_def by (fastforce simp: bindT_def ret_def)

lemma takesG_count: "takesT G c m bs x c' \<Longrightarrow> n = u32 (length bs) \<Longrightarrow> takesG G c (countC n m) bs x c'"
  unfolding takesG_def takesT_def countC_def by (fastforce simp: bindT_def ret_def)

lemma takesG_bind:
  assumes "takesG G1 c m bs x c1" and "takesG G c1 (f x) cs y c2"
    and "\<And>rest. G rest \<Longrightarrow> G1 (cs @ rest)"
  shows "takesG G c (bindC m f) (bs @ cs) y c2"
proof -
  have "takesT G c1 (bindT (f x) (\<lambda>(b, y). ret (u32 (u32 (length bs) + b), y))) (cs @ [])
      (u32 (length (bs @ cs)), y) c2"
    by (rule takesT_bind [OF assms(2) [unfolded takesG_def]]) (simp_all add: takesT_ret u32_add)
  from takesT_bind [OF assms(1) [unfolded takesG_def], of _ "\<lambda>(a, x). bindT (f x) (\<lambda>(b, y). ret (u32 (a + b), y))",
      OF _ assms(3)] this
  show ?thesis unfolding takesG_def bindC_def by simp
qed

lemma takesG_retC: "takesG G c (retC x) [] x c"
  using takesT_ret by (simp add: takesG_def retC_def)

lemma takesG_bind0:
  "takesG G c m bs x c1 \<Longrightarrow> takesG G c1 (f x) [] y c2 \<Longrightarrow> takesG G c (bindC m f) bs y c2"
  using takesG_bind [of G c m bs x c1 G f "[]" y c2] by simp

lemma takesG_0bind:
  "takesG G1 c m [] x c1 \<Longrightarrow> takesG G c1 (f x) bs y c2 \<Longrightarrow> (\<And>rest. G rest \<Longrightarrow> G1 (bs @ rest)) \<Longrightarrow>
    takesG G c (bindC m f) bs y c2"
  using takesG_bind [of G1 c m "[]" x c1 G f bs y c2] by simp

lemma takesG_map: "takesG G c m bs x c' \<Longrightarrow> takesG G c (bindC m (\<lambda>y. retC (g y))) bs (g x) c'"
  by (rule takesG_bind0 [OF _ takesG_retC])

lemma takesG_weaken: "takesG G1 c m bs x c' \<Longrightarrow> (\<And>rest. G rest \<Longrightarrow> G1 rest) \<Longrightarrow> takesG G c m bs x c'"
  unfolding takesG_def takesT_def by blast

lemma emits_bind0: "emits c m bs x c1 \<Longrightarrow> emits c1 (f x) [] y c2 \<Longrightarrow> emits c (bindC m f) bs y c2"
  using emits_bind [of c m bs x c1 f "[]" y c2] by simp

text \<open>What a loop takes, turn by turn, and a promise for every first character of the rest.\<close>

definition starts :: "u8 \<Rightarrow> bytes \<Rightarrow> bool" where
  "starts b r \<longleftrightarrow> r \<noteq> [] \<and> hd r = b"

lemma takesT_turn:
  assumes "takesT G1 c (body l) bs (Inl l') c1" and "takesT G c1 (loopT body l') cs x c2"
    and "\<And>rest. G rest \<Longrightarrow> G1 (cs @ rest)"
  shows "takesT G c (loopT body l) (bs @ cs) x c2"
  unfolding takesT_def
proof (intro allI impI)
  fix s rest
  assume "R c s" and "pending s = (bs @ cs) @ rest" and g: "G rest"
  then have "pending s = bs @ (cs @ rest)" by simp
  with assms(1,3) \<open>R c s\<close> g obtain t where t: "body l s = (Inr (Inl l'), t)" "R c1 t" "pending t = cs @ rest"
    unfolding takesT_def by blast
  with assms(2) g obtain u where "loopT body l' t = (Inr x, u)" "R c2 u" "pending u = rest"
    unfolding takesT_def by blast
  with loopT_step [of body l s l' t] t(1) show "\<exists>s'. loopT body l s = (Inr x, s') \<and> R c2 s' \<and> pending s' = rest"
    by blast
qed

lemma takesT_leave: "takesT G c (body l) bs (Inr x) c' \<Longrightarrow> takesT G c (loopT body l) bs x c'"
  unfolding takesT_def by (meson loopT_leave)

lemma takesT_starts:
  "(\<And>b. P b \<Longrightarrow> takesT (starts b) c m bs x c') \<Longrightarrow> takesT (\<lambda>r. r \<noteq> [] \<and> P (hd r)) c m bs x c'"
  unfolding takesT_def starts_def by blast

lemma takesG_drop: "takesG G c m bs x c' \<Longrightarrow> takesG G c (dropC m) bs () c'"
  unfolding takesG_def takesT_def dropC_def by fastforce

end

section \<open>The text of a value\<close>

text \<open>What a context writes before the next value, and the context after it.\<close>

fun sep :: "json_context \<Rightarrow> bytes" where
  "sep BaseContext = []"
| "sep (PairContext first colon) =
     (if first then [] else if colon then [kJSONPairSeparator] else [kJSONElemSeparator])"
| "sep (ListContext first) = (if first then [] else [kJSONElemSeparator])"

fun nxt :: "json_context \<Rightarrow> json_context" where
  "nxt BaseContext = BaseContext"
| "nxt (PairContext first colon) = PairContext False (first \<or> \<not> colon)"
| "nxt (ListContext first) = ListContext False"

definition quoted :: "bytes \<Rightarrow> bytes" where
  "quoted t = [kJSONStringDelimiter] @ t @ [kJSONStringDelimiter]"

definition jchar :: "u8 \<Rightarrow> bytes" where
  "jchar ch =
     (if 0x30 \<le> ch then (if ch = kJSONBackslash then [kJSONBackslash, kJSONBackslash] else [ch])
      else let out = kJSONCharTable ! unat ch in
        if out = 1 then [ch] else if out > 1 then [kJSONBackslash, out]
        else kJSONEscapePrefix @ [hexChar (drop_bit 4 ch), hexChar ch])"

definition jstr :: "json_context \<Rightarrow> bytes \<Rightarrow> bytes" where
  "jstr c s = sep c @ quoted (concat (map jchar s))"

fun base64 :: "bytes \<Rightarrow> bytes" where
  "base64 (a # b # c # bs) =
     [enc64 (drop_bit 2 (unat a)), enc64 (push_bit 4 (unat a) + drop_bit 4 (unat b)),
      enc64 (push_bit 2 (unat b) + drop_bit 6 (unat c)), enc64 (unat c)] @ base64 bs"
| "base64 [a, b] =
     [enc64 (drop_bit 2 (unat a)), enc64 (push_bit 4 (unat a) + drop_bit 4 (unat b)),
      enc64 (push_bit 2 (unat b))]"
| "base64 [a] = [enc64 (drop_bit 2 (unat a)), enc64 (push_bit 4 (unat a))]"
| "base64 [] = []"

definition jbin :: "json_context \<Rightarrow> bytes \<Rightarrow> bytes" where
  "jbin c s = sep c @ quoted (base64 s)"

definition jnum :: "lexical \<Rightarrow> json_context \<Rightarrow> int \<Rightarrow> bytes" where
  "jnum L c n = sep c @ (if escapeNum (nxt c) then quoted (lc_show L n) else lc_show L n)"

definition jdbl :: "lexical \<Rightarrow> json_context \<Rightarrow> i64 \<Rightarrow> bytes" where
  "jdbl L c d = (case double_text (lc_show_double L d) of
     (t, special) \<Rightarrow> sep c @ (if special \<or> escapeNum (nxt c) then quoted t else t))"

definition type_text :: "ttype \<Rightarrow> bytes" where
  "type_text t = (case getTypeNameForTypeID t of Inl _ \<Rightarrow> [] | Inr name \<Rightarrow> name)"

definition jtype :: "json_context \<Rightarrow> ttype \<Rightarrow> bytes" where
  "jtype c t = jstr c (type_text t)"

definition jopen :: "json_context \<Rightarrow> bytes" where
  "jopen c = sep c @ [kJSONObjectStart]"

definition jarray :: "json_context \<Rightarrow> bytes" where
  "jarray c = sep c @ [kJSONArrayStart]"

abbreviation first_pair :: json_context where "first_pair \<equiv> PairContext True True"
abbreviation first_elem :: json_context where "first_elem \<equiv> ListContext True"
abbreviation next_elem :: json_context where "next_elem \<equiv> ListContext False"

fun jval :: "lexical \<Rightarrow> json_context \<Rightarrow> tval \<Rightarrow> bytes"
  and jfields :: "lexical \<Rightarrow> json_context \<Rightarrow> tfield list \<Rightarrow> bytes"
  and jpairs :: "lexical \<Rightarrow> json_context \<Rightarrow> tpair list \<Rightarrow> bytes"
  and jelems :: "lexical \<Rightarrow> json_context \<Rightarrow> tval list \<Rightarrow> bytes" where
  "jval L c (VBool b) = jnum L c (of_bool b)"
| "jval L c (VByte w) = jnum L c (sint w)"
| "jval L c (VI16 w) = jnum L c (sint w)"
| "jval L c (VI32 w) = jnum L c (sint w)"
| "jval L c (VI64 w) = jnum L c (sint w)"
| "jval L c (VDouble d) = jdbl L c d"
| "jval L c (VString s) = jbin c s"
| "jval L c (VStruct n fs) = jopen c @ jfields L first_pair fs @ [kJSONObjectEnd]"
| "jval L c (VMap k v ps) =
     jarray c @ jtype first_elem k @ jtype next_elem v @ jnum L next_elem (int (length ps)) @
     jopen next_elem @ jpairs L first_pair ps @ [kJSONObjectEnd] @ [kJSONArrayEnd]"
| "jval L c (VSet e xs) =
     jarray c @ jtype first_elem e @ jnum L next_elem (int (length xs)) @ jelems L next_elem xs @
     [kJSONArrayEnd]"
| "jval L c (VList e xs) =
     jarray c @ jtype first_elem e @ jnum L next_elem (int (length xs)) @ jelems L next_elem xs @
     [kJSONArrayEnd]"
| "jval L c VNothing = []"
| "jfields L c [] = []"
| "jfields L c (Field n i v # fs) =
     (jnum L c (sint i) @ jopen (nxt c) @ jtype first_pair (type_of v)) @ jval L (nxt first_pair) v @
     [kJSONObjectEnd] @ jfields L (nxt (nxt c)) fs"
| "jpairs L c [] = []"
| "jpairs L c (Pair k v # ps) = jval L c k @ jval L (nxt c) v @ jpairs L (nxt (nxt c)) ps"
| "jelems L c [] = []"
| "jelems L c (x # xs) = jval L c x @ jelems L (nxt c) xs"

section \<open>Characters, types and groups of base 64 come back\<close>

lemma low_table: "list_all (\<lambda>(n, out). out = 1 \<longrightarrow> n \<noteq> 0x22 \<and> n \<noteq> 0x5C) (zip [0..<48] kJSONCharTable)"
  by (simp add: kJSONCharTable_def upt_rec)
lemma low_table2: "list_all (\<lambda>(n, out). 1 < out \<longrightarrow> out \<noteq> 0x75 \<and>
  map_option ((!) kEscapeCharVals) (strchr kEscapeChars out) = Some (of_nat n)) (zip [0..<48] kJSONCharTable)"
  by (simp add: kJSONCharTable_def upt_rec kEscapeChars_def kEscapeCharVals_def)
lemma hex_low: "w < 16 \<Longrightarrow> hexVal (hexChar (of_nat w)) = Inr (of_nat w)"
proof -
  have "list_all (\<lambda>w. hexVal (hexChar (of_nat w)) = Inr (of_nat w)) [0..<16]"
    by (simp add: upt_rec hexVal_def hexChar_def Let_def)
  then show "w < 16 \<Longrightarrow> ?thesis" by (simp add: list_all_iff)
qed
lemma and_0F: "(w :: u8) AND 0x0F = take_bit 4 w"
  by (simp add: take_bit_eq_mask mask_eq_exp_minus_1)
lemma hex_back: "hexVal (hexChar w) = Inr (w AND 0x0F)"
proof -
  have "hexChar w = hexChar (w AND 0x0F)" by (simp add: hexChar_def and_0F)
  moreover have "unat (w AND 0x0F) < 16" unfolding and_0F
    by (simp add: unsigned_take_bit_eq take_bit_nat_less_exp [of 4, simplified])
  ultimately show ?thesis using hex_low [of "unat (w AND 0x0F)"] by simp
qed
lemma hex_whole: "push_bit 4 (drop_bit 4 w AND 0x0F) + (w AND 0x0F) = (w :: u8)"
proof -
  have "drop_bit 4 w AND 0x0F = drop_bit 4 w"
    unfolding and_0F by (rule bit_word_eqI) (auto simp: bit_take_bit_iff bit_drop_bit_eq dest: bit_imp_le_length)
  then show ?thesis using bits_ident [of 4 w] by (simp only: and_0F)
qed
lemma zip_nth: "n < length xs \<Longrightarrow> (n, xs ! n) \<in> set (zip [0..<length xs] xs)"
  by (auto simp: set_zip intro!: exI [of _ n])

lemma low_char:
  assumes "\<not> 0x30 \<le> ch"
  defines "out \<equiv> kJSONCharTable ! unat ch"
  shows "out = 1 \<Longrightarrow> ch \<noteq> kJSONStringDelimiter \<and> ch \<noteq> kJSONBackslash"
    and "1 < out \<Longrightarrow> out \<noteq> kJSONEscapeChar \<and> (\<exists>pos. strchr kEscapeChars out = Some pos \<and> kEscapeCharVals ! pos = ch)"
proof -
  have n: "unat ch < 48" using assms(1) by (simp add: word_le_nat_alt)
  have "length kJSONCharTable = 48" by (simp add: kJSONCharTable_def)
  with n have "(unat ch, out) \<in> set (zip [0..<48] kJSONCharTable)"
    using zip_nth [of "unat ch" kJSONCharTable] by (simp add: out_def)
  with low_table low_table2 have *: "out = 1 \<longrightarrow> unat ch \<noteq> 0x22 \<and> unat ch \<noteq> 0x5C"
    "1 < out \<longrightarrow> out \<noteq> 0x75 \<and> map_option ((!) kEscapeCharVals) (strchr kEscapeChars out) = Some (of_nat (unat ch))"
    unfolding list_all_iff by fastforce+
  show "out = 1 \<Longrightarrow> ch \<noteq> kJSONStringDelimiter \<and> ch \<noteq> kJSONBackslash"
    using *(1) by (auto simp: json_chars)
  show "1 < out \<Longrightarrow> out \<noteq> kJSONEscapeChar \<and> (\<exists>pos. strchr kEscapeChars out = Some pos \<and> kEscapeCharVals ! pos = ch)"
    using *(2) by (auto simp: json_chars)
qed

lemma jchar_enc64: "jchar (enc64 n) = [enc64 n]"
proof -
  have "list_all (\<lambda>b. 0x30 \<le> b \<and> b \<noteq> kJSONBackslash \<or> \<not> 0x30 \<le> b \<and> kJSONCharTable ! unat b = 1) kBase64EncodeTable"
    by (simp add: encode_table kJSONBackslash_def kJSONCharTable_def)
  moreover have "enc64 n \<in> set kBase64EncodeTable"
    by (simp add: enc64_def and_3F length_encode_table)
  ultimately have "0x30 \<le> enc64 n \<and> enc64 n \<noteq> kJSONBackslash \<or>
      \<not> 0x30 \<le> enc64 n \<and> kJSONCharTable ! unat (enc64 n) = 1"
    unfolding list_all_iff by (rule bspec)
  then show ?thesis by (elim disjE conjE) (simp_all only: jchar_def Let_def if_True if_False simp_thms)
qed

lemma jbin_jstr: "jbin c s = jstr c (base64 s)"
proof -
  have "concat (map jchar (base64 s)) = base64 s"
    by (induction s rule: base64.induct) (simp_all add: jchar_enc64)
  then show ?thesis by (simp add: jbin_def jstr_def)
qed

lemma length_base64: "length (base64 s) \<le> 2 * length s"
  by (induction s rule: base64.induct) simp_all

lemma read_base64: "readBase64_loop (base64 s) (length (base64 s)) acc = acc @ s"
proof (induction s arbitrary: acc rule: base64.induct)
  case (1 a b c bs)
  then show ?case by (subst readBase64_loop.simps) (simp add: decode_group)
next
  case (2 a b)
  show ?case
    by (subst readBase64_loop.simps) (simp add: decode_group [simplified] numeral_3_eq_3 [symmetric])
next
  case (3 a)
  show ?case
    by (subst readBase64_loop.simps) (simp add: decode_group [simplified] numeral_2_eq_2 [symmetric])
next
  case 4
  show ?case by (subst readBase64_loop.simps) simp
qed

lemma type_name_back: "data_type t \<Longrightarrow> getTypeIDForTypeName (type_text t) = Inr t"
  by (cases t) (simp_all add: type_text_def str_def getTypeIDForTypeName_def)

lemma jchar_numeric: "isJSONNumeric b \<Longrightarrow> jchar b = [b]"
proof -
  assume "isJSONNumeric b"
  then have "0x30 \<le> b \<and> b \<noteq> kJSONBackslash \<or> \<not> 0x30 \<le> b \<and> kJSONCharTable ! unat b = 1"
    by (auto simp: isJSONNumeric_def kJSONBackslash_def kJSONCharTable_def)
  then show ?thesis by (elim disjE conjE) (simp_all only: jchar_def Let_def if_True if_False simp_thms)
qed

lemma jchars_numeric: "\<forall>b \<in> set t. isJSONNumeric b \<Longrightarrow> concat (map jchar t) = t"
  by (induction t) (simp_all add: jchar_numeric)

lemma jchars_special:
  "concat (map jchar kThriftNan) = kThriftNan" "concat (map jchar kThriftInfinity) = kThriftInfinity"
  "concat (map jchar kThriftNegativeInfinity) = kThriftNegativeInfinity"
  by (simp_all add: kThriftNan_def kThriftInfinity_def kThriftNegativeInfinity_def str_def jchar_def
      kJSONBackslash_def kJSONCharTable_def)

text \<open>What follows a value, where it decides how the value is read.\<close>

definition nonnum :: "bytes \<Rightarrow> bool" where
  "nonnum r \<longleftrightarrow> r \<noteq> [] \<and> \<not> isJSONNumeric (hd r)"

fun fresh :: "json_context \<Rightarrow> bool" where
  "fresh BaseContext = True"
| "fresh (PairContext first colon) = first"
| "fresh (ListContext first) = first"

lemma nonnum_chars [simp]:
  "nonnum (kJSONStringDelimiter # r)" "nonnum (kJSONObjectStart # r)" "nonnum (kJSONArrayStart # r)"
  "nonnum (kJSONObjectEnd # r)" "nonnum (kJSONArrayEnd # r)" "nonnum (kJSONElemSeparator # r)"
  "nonnum (kJSONPairSeparator # r)"
  by (simp_all add: nonnum_def isJSONNumeric_def json_chars)

lemma nonnum_sep [simp]: "\<not> fresh c \<Longrightarrow> nonnum (sep c @ r)"
  by (cases c) simp_all

lemma fresh_nxt [simp]: "nxt c \<noteq> BaseContext \<Longrightarrow> \<not> fresh (nxt c)"
  by (cases c) simp_all

text \<open>The header of a message: the array of the message stays open.\<close>

definition jmessage :: "lexical \<Rightarrow> json_context \<Rightarrow> bytes \<Rightarrow> tmessage_type \<Rightarrow> i32 \<Rightarrow> bytes" where
  "jmessage L c name mt seqid = jarray c @ jnum L first_elem 1 @ jstr next_elem name @
     jnum L next_elem (sint (msg_code mt)) @ jnum L next_elem (sint seqid)"

text \<open>Every value starts with the separator of its context.\<close>

lemma jval_sep: "type_of v \<noteq> T_VOID \<Longrightarrow> \<exists>r. jval L c v = sep c @ r"
  by (cases v) (auto simp: jnum_def jdbl_def jbin_def jopen_def jarray_def split: prod.split)

lemma nonnum_jval: "\<not> fresh c \<Longrightarrow> type_of v \<noteq> T_VOID \<Longrightarrow> nonnum (jval L c v @ r)"
  using jval_sep [of v L c] by auto

lemma nonnum_jpairs:
  "\<not> fresh c \<Longrightarrow> \<forall>p \<in> set ps. wt_pair sl cl kt vt p \<Longrightarrow> nonnum r \<Longrightarrow> nonnum (jpairs L c ps @ r)"
proof (cases ps)
  case (Cons p qs)
  moreover assume "\<not> fresh c" and "\<forall>p \<in> set ps. wt_pair sl cl kt vt p"
  moreover obtain k v where "p = Pair k v" by (cases p)
  ultimately show ?thesis using nonnum_jval [of c k] by (cases k) auto
qed simp

lemma nonnum_jelems:
  "\<not> fresh c \<Longrightarrow> \<forall>x \<in> set xs. wt sl cl x \<Longrightarrow> nonnum r \<Longrightarrow> nonnum (jelems L c xs @ r)"
proof (cases xs)
  case (Cons x ys)
  moreover assume "\<not> fresh c" and "\<forall>x \<in> set xs. wt sl cl x"
  ultimately show ?thesis using nonnum_jval [of c x] by (cases x) auto
qed simp

text \<open>The contexts in front of a key, and the one after some keys and values.\<close>

definition at_key :: "json_context \<Rightarrow> bool" where
  "at_key c \<longleftrightarrow> c = first_pair \<or> c = PairContext False False"

definition after_keys :: "json_context \<Rightarrow> 'a list \<Rightarrow> json_context" where
  "after_keys c xs = (if xs = [] then c else PairContext False False)"

lemma at_key_simps [simp]:
  "at_key first_pair" "at_key (PairContext False False)"
  "at_key c \<Longrightarrow> nxt c = PairContext False True"
  "after_keys c [] = c" "after_keys (PairContext False False) xs = PairContext False False"
  "after_keys c (x # xs) = PairContext False False"
  by (auto simp: at_key_def after_keys_def)

section \<open>What the code needs of boost::lexical_cast\<close>

text \<open>
  A double that is neither infinite nor a NaN, by its exponent; and the doubles that come back
  as they were: NaNs do when they are the one that the reader makes and are shown without a sign.
\<close>

definition dfinite :: "i64 \<Rightarrow> bool" where
  "dfinite d \<longleftrightarrow> drop_bit 52 d AND 0x7FF \<noteq> 0x7FF"

definition dbl_ok :: "lexical \<Rightarrow> i64 \<Rightarrow> bool" where
  "dbl_ok L d \<longleftrightarrow> dfinite d \<or> d = HUGE_VAL \<or> d = minus_HUGE_VAL \<or>
     (d = lc_nan L \<and> lc_show_double L d = str ''nan'')"

fun dbls :: "(i64 \<Rightarrow> bool) \<Rightarrow> tval \<Rightarrow> bool"
  and dbls_field :: "(i64 \<Rightarrow> bool) \<Rightarrow> tfield \<Rightarrow> bool" and dbls_pair :: "(i64 \<Rightarrow> bool) \<Rightarrow> tpair \<Rightarrow> bool" where
  "dbls p (VDouble d) = p d"
| "dbls p (VStruct n fs) = (\<forall>f \<in> set fs. dbls_field p f)"
| "dbls p (VMap k v ps) = (\<forall>q \<in> set ps. dbls_pair p q)"
| "dbls p (VSet e xs) = (\<forall>x \<in> set xs. dbls p x)"
| "dbls p (VList e xs) = (\<forall>x \<in> set xs. dbls p x)"
| "dbls p v = True"
| "dbls_field p (Field n i v) = dbls p v"
| "dbls_pair p (Pair k v) = (dbls p k \<and> dbls p v)"

definition numeric :: "bytes \<Rightarrow> bool" where
  "numeric t \<longleftrightarrow> t \<noteq> [] \<and> (\<forall>b \<in> set t. isJSONNumeric b)"

lemma numeric_text:
  assumes "numeric t"
  shows "double_text t = (t, False)" and "t \<noteq> kThriftNan" and "t \<noteq> kThriftInfinity"
    and "t \<noteq> kThriftNegativeInfinity" and "hd t \<noteq> kJSONStringDelimiter"
proof -
  have bad: "\<not> isJSONNumeric 0x4E" "\<not> isJSONNumeric 0x6E" "\<not> isJSONNumeric 0x49" "\<not> isJSONNumeric 0x69"
    "\<not> isJSONNumeric kJSONStringDelimiter"
    by (simp_all add: isJSONNumeric_def json_chars)
  obtain b r where t: "t = b # r" "isJSONNumeric b" "\<forall>x \<in> set r. isJSONNumeric x"
    using assms by (cases t) (auto simp: numeric_def)
  then have 0: "char_at t 0 = b" by (simp add: char_at_def)
  have 1: "char_at t 1 \<noteq> 0x49 \<and> char_at t 1 \<noteq> 0x69"
    using t(3) bad by (cases r) (auto simp: char_at_def t(1))
  show "double_text t = (t, False)"
    unfolding double_text_def 0 using 1 t(2) bad by auto
  show "t \<noteq> kThriftNan" and "t \<noteq> kThriftInfinity" and "t \<noteq> kThriftNegativeInfinity"
    using t bad by (auto simp: kThriftNan_def kThriftInfinity_def kThriftNegativeInfinity_def str_def)
  show "hd t \<noteq> kJSONStringDelimiter" using t bad by auto
qed

lemma special_text:
  "double_text (str ''nan'') = (kThriftNan, True)" "double_text (str ''inf'') = (kThriftInfinity, True)"
  "double_text (str ''-inf'') = (kThriftNegativeInfinity, True)"
  by (simp_all add: double_text_def char_at_def str_def)

lemma special_distinct [simp]:
  "kThriftInfinity \<noteq> kThriftNan" "kThriftNegativeInfinity \<noteq> kThriftNan"
  "kThriftNegativeInfinity \<noteq> kThriftInfinity"
  by (simp_all add: kThriftNan_def kThriftInfinity_def kThriftNegativeInfinity_def str_def)

locale lexical_cast =
  fixes L :: lexical
  assumes show_numeric: "numeric (lc_show L n)"
    and read_bool: "lc_read_bool L (lc_show L (of_bool b)) = Some b"
    and read_i16: "lc_read_i16 L (lc_show L (sint w16)) = Some w16"
    and read_i32: "lc_read_i32 L (lc_show L (sint w32)) = Some w32"
    and read_i64: "lc_read_i64 L (lc_show L (sint w64)) = Some w64"
    and read_u64: "- (2 ^ 63) \<le> n \<Longrightarrow> n < 2 ^ 64 \<Longrightarrow> lc_read_u64 L (lc_show L n) = Some (of_int n)"
    and show_double: "dfinite d \<Longrightarrow> numeric (lc_show_double L d) \<and>
       lc_read_double L (lc_show_double L d) = Some d"
    and show_inf: "lc_show_double L HUGE_VAL = str ''inf''"
      "lc_show_double L minus_HUGE_VAL = str ''-inf''"

type_synonym json_ctx = "json_context \<times> json_context list"

definition js_W :: "('u \<Rightarrow> bool) \<Rightarrow> json_ctx \<Rightarrow> 'u json \<Rightarrow> bool" where
  "js_W winv c s \<longleftrightarrow> winv (js_trans s) \<and> c = (context_top s, contexts s)"

definition js_R :: "('u \<Rightarrow> bool) \<Rightarrow> json_ctx \<Rightarrow> 'u json \<Rightarrow> bool" where
  "js_R rinv c s \<longleftrightarrow> rinv (js_trans s) \<and> c = (context_top s, contexts s)"

definition js_pending :: "('u \<Rightarrow> bytes) \<Rightarrow> 'u json \<Rightarrow> bytes" where
  "js_pending pending s = (if hasData s then [data s] else []) @ pending (js_trans s)"

locale json_coding = byte_channel T winv room written rinv pending + lexical_cast L
  for T :: "'s ttransport"
    and winv :: "'s \<Rightarrow> bool" and room :: "'s \<Rightarrow> nat \<Rightarrow> bool" and written :: "'s \<Rightarrow> bytes"
    and rinv :: "'s \<Rightarrow> bool" and pending :: "'s \<Rightarrow> bytes" and L :: lexical

sublocale json_coding \<subseteq> js: codec_base "js_W winv" "\<lambda>s. room (js_trans s)" "\<lambda>s. written (js_trans s)"
  "js_R rinv" "js_pending pending" .

context json_coding
begin

section \<open>Writing\<close>

lemma emits_put: "js.emitsT c (js_put T bs) bs () c"
  unfolding js.emitsT_def
proof (intro allI impI)
  fix s n
  assume s: "js_W winv c s" and "room (js_trans s) (length bs + n)"
  then obtain u where "t_write T bs (js_trans s) = (Inr (), u)" "winv u"
      "written u = written (js_trans s) @ bs" "room u n"
    unfolding js_W_def using write_whole by blast
  with s show "\<exists>s'. js_put T bs s = (Inr (), s') \<and> js_W winv c s' \<and>
      written (js_trans s') = written (js_trans s) @ bs \<and> room (js_trans s') n"
    by (simp add: js_put_def on_js_trans_def on_part_def js_W_def)
qed

lemma emits_set: "js.emitsT (c, st) (set_context c') [] () (c', st)"
  "js.emitsT (c, st) (pushContext c') [] () (c', c # st)"
  "js.emitsT (c, c' # st) popContext [] () (c', st)"
  by (auto simp: js.emitsT_def set_context_def pushContext_def popContext_def modify_def js_W_def
      split: list.split)

lemma emits_puts: "js.emitsT c1 m bs x c' \<Longrightarrow> js.emitsT c1 (bindT (js_put T as) (\<lambda>_. m)) (as @ bs) x c'"
  by (rule js.emitsT_bind [OF emits_put])

lemma emits_char [simp]: "js.emits c (countC (Suc 0) (js_put T [b])) [b] () c"
  by (rule js.emits_count [OF emits_put]) simp

lemma js_W_ctx: "js_W winv (c, st) s \<Longrightarrow> context_top s = c \<and> contexts s = st"
  by (simp add: js_W_def)

lemma emits_context: "js.emits (c, st) (context_write T) (sep c) () (nxt c, st)"
proof (cases c)
  case BaseContext
  show ?thesis
    by (rule js.emits_state [where m' = "retC ()"])
      (auto simp: BaseContext context_write_def js_W_def js.emits_retC)
next
  case (PairContext first colon)
  let ?m = "if first then countC 0 (set_context (PairContext False True)) else
    countC 1 (bindT (js_put T [if colon then kJSONPairSeparator else kJSONElemSeparator]) (\<lambda>_.
      set_context (PairContext first (\<not> colon))))"
  have "js.emitsT (c, st) (bindT (js_put T [b]) (\<lambda>_. set_context d)) [b] () (d, st)" for b d
    using emits_puts [OF emits_set(1), where as = "[b]"] by simp
  then have "js.emits (c, st) ?m (sep c) () (nxt c, st)"
    by (cases first; cases colon) (auto simp: PairContext intro!: js.emits_count emits_set)
  then show ?thesis
    by (rule js.emits_state [rotated]) (drule js_W_ctx, simp only: PairContext context_write_def json_context.case if_True if_False split: if_splits)
next
  case (ListContext first)
  let ?m = "if first then countC 0 (set_context (ListContext False)) else
    countC 1 (js_put T [kJSONElemSeparator])"
  have "js.emits (c, st) ?m (sep c) () (nxt c, st)"
    by (cases first) (auto simp: ListContext intro!: js.emits_count emits_set emits_put)
  then show ?thesis
    by (rule js.emits_state [rotated]) (drule js_W_ctx, simp only: ListContext context_write_def json_context.case)
qed

lemma emits_quoted:
  assumes "js.emits (nxt c, st) m bs () (nxt c, st)"
  shows "js.emits (c, st) (bindC (context_write T) (\<lambda>_. bindC (countC 1 (js_put T [kJSONStringDelimiter])) (\<lambda>_.
    bindC m (\<lambda>_. countC 1 (js_put T [kJSONStringDelimiter]))))) (sep c @ quoted bs) () (nxt c, st)"
  unfolding quoted_def
  by (intro js.emits_bind [OF emits_context] js.emits_bind [OF _ js.emits_bind [OF assms]]) simp_all

lemma emits_jchar: "js.emits c (writeJSONChar T ch) (jchar ch) () c"
proof -
  have 2: "js.emits c (countC 2 (bindT (js_put T [a]) (\<lambda>_. js_put T [b]))) [a, b] () c" for a b
    by (rule js.emits_count) (use emits_puts [OF emits_put, where as = "[a]" and bs = "[b]"] in simp_all)
  have "js.emits c (writeJSONEscapeChar T ch) (kJSONEscapePrefix @ [hexChar (drop_bit 4 ch), hexChar ch]) () c"
    unfolding writeJSONEscapeChar_def
    by (rule js.emits_count) (use emits_puts [OF emits_puts [OF emits_put, where as = "[a]" and bs = "[b]" for a b], where as = kJSONEscapePrefix] in simp,
        simp add: kJSONEscapePrefix_def)
  moreover have "0x30 \<le> kJSONBackslash" by (simp add: kJSONBackslash_def)
  ultimately show ?thesis
    using 2 by (cases "ch = kJSONBackslash") (simp_all add: writeJSONChar_def jchar_def Let_def)
qed

lemma emits_jchars: "js.emits c (writeJSONChars T s) (concat (map jchar s)) () c"
  by (induction s) (simp_all add: js.emits_retC js.emits_bind [OF emits_jchar])

lemma emits_jstr: "js.emits (c, st) (writeJSONString T s) (jstr c s) () (nxt c, st)"
  unfolding writeJSONString_def jstr_def by (rule emits_quoted [OF emits_jchars])

lemma emits_base64: "length s < 2 ^ 32 \<Longrightarrow> js.emits c (writeBase64_loop T s (length s)) (base64 s) () c"
proof (induction s rule: base64.induct)
  case (1 a b d bs)
  have "js.emits c (countC 4 (js_put T (base64_encode (a # b # d # bs) 3 [0, 0, 0, 0])))
      [enc64 (drop_bit 2 (unat a)), enc64 (push_bit 4 (unat a) + drop_bit 4 (unat b)),
      enc64 (push_bit 2 (unat b) + drop_bit 6 (unat d)), enc64 (unat d)] () c"
    unfolding encode_group by (rule js.emits_count [OF emits_put]) simp
  from js.emits_bind [OF this 1(1)] 1(2) show ?case
    by (subst writeBase64_loop.simps) simp
next
  case (2 a b)
  have "js.emits c (countC 3 (js_put T (take 3 (base64_encode [a, b] 2 [0, 0, 0, 0])))) (base64 [a, b]) () c"
    unfolding encode_group by (rule js.emits_count [where bs = "base64 [a, b]"]) (simp_all add: emits_put)
  then show ?case by (subst writeBase64_loop.simps) (simp del: base64.simps add: numeral_3_eq_3 numeral_2_eq_2)
next
  case (3 a)
  have "js.emits c (countC 2 (js_put T (take 2 (base64_encode [a] 1 [0, 0, 0, 0])))) (base64 [a]) () c"
    unfolding encode_group by (rule js.emits_count [where bs = "base64 [a]"]) (simp_all add: emits_put)
  then show ?case by (subst writeBase64_loop.simps) (simp del: base64.simps add: numeral_2_eq_2)
next
  case 4
  show ?case by (subst writeBase64_loop.simps) (simp add: js.emits_retC)
qed

lemma emits_jbin: "length s < 2 ^ 32 \<Longrightarrow> js.emits (c, st) (writeJSONBase64 T s) (jbin c s) () (nxt c, st)"
  unfolding writeJSONBase64_def jbin_def using emits_base64 by (intro emits_quoted) simp

lemma emits_number: "js.emits c (put_number T q t) (if q then quoted t else t) () c"
proof -
  have t: "js.emits c (countC (u32 (length t)) (js_put T t)) t () c"
    by (rule js.emits_count [OF emits_put]) simp
  have u: "js.emits c (retC ()) [] () c" by (rule js.emits_retC)
  show ?thesis
    unfolding put_number_def quoted_def
    using js.emits_bind [where f = "\<lambda>_. m" for m, OF emits_char [of c kJSONStringDelimiter]
        js.emits_bind [where f = "\<lambda>_. m" for m, OF t emits_char [of c kJSONStringDelimiter]]]
      js.emits_bind [where f = "\<lambda>_. m" for m, OF u js.emits_bind [where f = "\<lambda>_. m" for m, OF t u]]
    by (cases q) simp_all
qed

lemma emits_jnum: "js.emits (c, st) (writeJSONInteger L T n) (jnum L c n) () (nxt c, st)"
  unfolding writeJSONInteger_def jnum_def
  by (rule js.emits_bind [OF emits_context], rule js.emits_state [OF _ emits_number]) (auto dest: js_W_ctx)

lemma emits_jdbl: "js.emits (c, st) (writeJSONDouble L T d) (jdbl L c d) () (nxt c, st)"
proof -
  obtain t sp where t: "double_text (lc_show_double L d) = (t, sp)" by fastforce
  show ?thesis
    unfolding writeJSONDouble_def jdbl_def t prod.case
    by (rule js.emits_bind [OF emits_context], rule js.emits_state [OF _ emits_number]) (auto dest: js_W_ctx)
qed

lemma emits_jopen: "js.emits (c, st) (writeJSONObjectStart T) (jopen c) () (first_pair, nxt c # st)"
  "js.emits (c, st) (writeJSONArrayStart T) (jarray c) () (first_elem, nxt c # st)"
  unfolding writeJSONObjectStart_def jopen_def writeJSONArrayStart_def jarray_def
  by (rule js.emits_bind [OF emits_context], rule js.emits_count,
      use emits_puts [OF emits_set(2), where as = "[b]" for b] in force, simp)+

lemma emits_jclose: "js.emits (c, d # st) (writeJSONObjectEnd T) [kJSONObjectEnd] () (d, st)"
  "js.emits (c, d # st) (writeJSONArrayEnd T) [kJSONArrayEnd] () (d, st)"
  unfolding writeJSONObjectEnd_def writeJSONArrayEnd_def
  by (rule js.emits_count, use js.emitsT_bind [where f = "\<lambda>_. m" for m, OF emits_set(3) emits_put [where bs = "[b]" for b]] in force, simp)+

lemma emits_jtype:
  assumes "data_type t"
  shows "js.emits (c, st) (writeJSONTypeName T t) (jtype c t) () (nxt c, st)"
proof -
  obtain name where "getTypeNameForTypeID t = Inr name" using assms by (cases t) auto
  then show ?thesis
    unfolding jtype_def type_text_def writeJSONTypeName_def by (simp add: emits_jstr)
qed

section \<open>Reading\<close>

lemma js_R_ctx: "js_R rinv (c, st) s \<Longrightarrow> context_top s = c \<and> contexts s = st"
  by (simp add: js_R_def)

lemma fetch_ok:
  assumes "js_R rinv c s" and "js_pending pending s = b # rest" and "\<not> hasData s"
  obtains s' where "fetch T s = (Inr (), s')" and "js_R rinv c s'" and "data s' = b" and "\<not> hasData s'"
    and "pending (js_trans s') = rest"
proof -
  have "rinv (js_trans s)" "pending (js_trans s) = [b] @ rest"
    using assms by (auto simp: js_R_def js_pending_def)
  from read_whole [OF this] obtain u where u: "t_readAll T 1 (js_trans s) = (Inr [b], u)" "rinv u" "pending u = rest"
    by auto
  with assms have "fetch T s = (Inr (), s\<lparr>js_trans := u, data := b\<rparr>)"
    by (simp add: fetch_def on_js_trans_def tio_simps)
  with u assms that [of "s\<lparr>js_trans := u, data := b\<rparr>"] show ?thesis by (simp add: js_R_def)
qed

lemma takes_read: "js.takesT G c (reader_read T) [b] b c"
  unfolding js.takesT_def
proof (intro allI impI)
  fix s rest
  assume s: "js_R rinv c s" "js_pending pending s = [b] @ rest"
  show "\<exists>s'. reader_read T s = (Inr b, s') \<and> js_R rinv c s' \<and> js_pending pending s' = rest"
  proof (cases "hasData s")
    case True
    with s have "reader_read T s = (Inr b, s\<lparr>hasData := False\<rparr>)"
      by (simp add: reader_read_def tio_simps js_pending_def)
    with s True show ?thesis by (intro exI [of _ "s\<lparr>hasData := False\<rparr>"]) (simp add: js_R_def js_pending_def)
  next
    case False
    from s(2) have "js_pending pending s = b # rest" by simp
    from fetch_ok [OF s(1) this False] obtain s' where
      "fetch T s = (Inr (), s')" "js_R rinv c s'" "data s' = b" "\<not> hasData s'" "pending (js_trans s') = rest" .
    with False show ?thesis
      by (intro exI [of _ s']) (simp add: reader_read_def bindT_ok gets_def js_pending_def)
  qed
qed

lemma takes_peek: "js.takesT (js.starts b) c (reader_peek T) [] b c"
  unfolding js.takesT_def
proof (intro allI impI)
  fix s rest
  assume s: "js_R rinv c s" "js_pending pending s = [] @ rest" and "js.starts b rest"
  then obtain r where r: "rest = b # r" by (cases rest) (auto simp: js.starts_def)
  show "\<exists>s'. reader_peek T s = (Inr b, s') \<and> js_R rinv c s' \<and> js_pending pending s' = rest"
  proof (cases "hasData s")
    case True
    with s r have "reader_peek T s = (Inr b, s\<lparr>hasData := True\<rparr>)"
      by (simp add: reader_peek_def tio_simps js_pending_def)
    with s True show ?thesis by (intro exI [of _ "s\<lparr>hasData := True\<rparr>"]) (simp add: js_R_def js_pending_def)
  next
    case False
    from s(2) r have "js_pending pending s = b # r" by simp
    from fetch_ok [OF s(1) this False] obtain s' where
      "fetch T s = (Inr (), s')" "js_R rinv c s'" "data s' = b" "\<not> hasData s'" "pending (js_trans s') = r" .
    with False r show ?thesis
      by (intro exI [of _ "s'\<lparr>hasData := True\<rparr>"])
        (simp add: reader_peek_def bindT_ok gets_def modify_def bindT_def js_pending_def js_R_def)
  qed
qed

lemma takes_readbind: "js.takesT G c (m b) bs x c' \<Longrightarrow> js.takesT G c (bindT (reader_read T) m) (b # bs) x c'"
  using js.takesT_bind [OF takes_read, of G c m b bs x c' "\<lambda>_. True"] by simp

lemma takes_peekbind:
  assumes "js.takesT G c (m b) bs x c'" and "\<And>rest. G rest \<Longrightarrow> js.starts b (bs @ rest)"
  shows "js.takesT G c (bindT (reader_peek T) m) bs x c'"
  using js.takesT_bind [where f = m, OF takes_peek [of b] assms(1)] assms(2) by simp

lemma takes_syntaxT: "js.takesT G c (readSyntaxChar T ch) [ch] (1, ()) c"
  unfolding readSyntaxChar_def by (rule takes_readbind) (simp add: js.takesT_ret)

lemma takes_syntax: "js.takesG G c (readSyntaxChar T ch) [ch] () c" "js.takesG G c (readJSONSyntaxChar T ch) [ch] () c"
  unfolding js.takesG_def readJSONSyntaxChar_def using takes_syntaxT by simp_all

lemma takes_upd:
  assumes "\<And>s. js_R rinv d s \<Longrightarrow> m s = (Inr (), h s)" and "\<And>s. js_R rinv d s \<Longrightarrow> js_R rinv d' (h s)"
    and "\<And>s. js_R rinv d s \<Longrightarrow> js_pending pending (h s) = js_pending pending s"
  shows "js.takesT G d m [] () d'"
  unfolding js.takesT_def using assms by (intro allI impI) auto

lemma takes_set: "js.takesT G (c, st) (set_context c') [] () (c', st)"
  "js.takesT G (c, st) (pushContext c') [] () (c', c # st)"
  "js.takesT G (c, c' # st) popContext [] () (c', st)"
proof -
  show "js.takesT G (c, st) (set_context c') [] () (c', st)"
    by (rule takes_upd [where h = "\<lambda>s. s\<lparr>context_top := c'\<rparr>"])
      (simp_all add: set_context_def modify_def js_R_def js_pending_def)
  show "js.takesT G (c, st) (pushContext c') [] () (c', c # st)"
    by (rule takes_upd [where h = "\<lambda>s. s\<lparr>contexts := context_top s # contexts s, context_top := c'\<rparr>"])
      (simp_all add: pushContext_def modify_def js_R_def js_pending_def)
  show "js.takesT G (c, c' # st) popContext [] () (c', st)"
    by (rule takes_upd [where h = "\<lambda>s. s\<lparr>context_top := c', contexts := st\<rparr>"])
      (auto simp: popContext_def js_R_def js_pending_def split: list.split)
qed

lemma takes_count0: "js.takesT G c m [] x c' \<Longrightarrow> js.takesG G c (countC 0 m) [] x c'"
  by (rule js.takesG_count) simp_all

lemma takes_context: "js.takesG G (c, st) (context_read T) (sep c) () (nxt c, st)"
proof (cases c)
  case BaseContext
  show ?thesis
    by (rule js.takesG_state [where m' = "retC ()"])
      (auto simp: BaseContext context_read_def js_R_def js.takesG_retC)
next
  case (PairContext first colon)
  let ?m = "if first then countC 0 (set_context (PairContext False True)) else
    bindT (set_context (PairContext first (\<not> colon))) (\<lambda>_.
      readSyntaxChar T (if colon then kJSONPairSeparator else kJSONElemSeparator))"
  have "js.takesT G (c, st) (bindT (set_context d) (\<lambda>_. readSyntaxChar T b)) [b] (1, ()) (d, st)" for b d
    using js.takesT_bind [where f = "\<lambda>_. m" for m, OF takes_set(1) [where G = "\<lambda>_. True"] takes_syntaxT] by simp
  then have "js.takesG G (c, st) ?m (sep c) () (nxt c, st)"
    by (cases first; cases colon) (auto simp: PairContext js.takesG_def intro!: takes_count0 [unfolded js.takesG_def, simplified] takes_set)
  then show ?thesis
    by (rule js.takesG_state [rotated]) (drule js_R_ctx, simp only: PairContext context_read_def json_context.case)
next
  case (ListContext first)
  let ?m = "if first then countC 0 (set_context (ListContext False)) else readSyntaxChar T kJSONElemSeparator"
  have "js.takesG G (c, st) ?m (sep c) () (nxt c, st)"
    by (cases first) (auto simp: ListContext intro!: takes_count0 takes_set takes_syntax)
  then show ?thesis
    by (rule js.takesG_state [rotated]) (drule js_R_ctx, simp only: ListContext context_read_def json_context.case)
qed

subsection \<open>Strings\<close>

lemma takes_escape:
  "js.takesT G c (readJSONEscapeChar T) [0x30, 0x30, hexChar (drop_bit 4 ch), hexChar ch] (4, ch) c"
proof -
  have z: "js.takesT G c (bindT (readJSONSyntaxChar T kJSONZeroChar) (\<lambda>_. m)) (0x30 # bs) x c'"
    if "js.takesT G c m bs x c'" for bs and m :: "('s json, 'y) tio" and x c'
    using js.takesT_bind [OF takes_syntaxT [where G = "\<lambda>_. True"] that, of kJSONZeroChar]
    by (simp add: readJSONSyntaxChar_def kJSONZeroChar_def)
  show ?thesis
    unfolding readJSONEscapeChar_def
    by (rule z, rule z, rule takes_readbind, rule takes_readbind)
      (simp only: hex_back sum.case hex_whole js.takesT_ret)
qed

lemma takes_jchar:
  "js.takesT G c (readJSONString_body T (k, acc)) (jchar ch) (Inl (u32 (k + length (jchar ch)), acc @ [ch])) c"
proof -
  have cont: "js.takesT G c (continue_with l) [] (Inl l) c" for l :: "nat \<times> bytes"
    by (simp add: js.takesT_def continue_with_def)
  have plain: "js.takesT G c (readJSONString_body T (k, acc)) [ch] (Inl (u32 (k + 1), acc @ [ch])) c"
    if "ch \<noteq> kJSONStringDelimiter" "ch \<noteq> kJSONBackslash"
    unfolding readJSONString_body_def prod.case by (rule takes_readbind) (simp add: that cont)
  have short: "js.takesT G c (readJSONString_body T (k, acc)) [kJSONBackslash, out]
      (Inl (u32 (k + 2), acc @ [kEscapeCharVals ! pos])) c"
    if "strchr kEscapeChars out = Some pos" "out \<noteq> kJSONEscapeChar" for out pos
    unfolding readJSONString_body_def prod.case
    by (rule takes_readbind, simp add: json_chars(7,8), rule takes_readbind) (simp add: that cont)
  have "js.takesT G c (readJSONString_body T (k, acc)) ([kJSONBackslash, kJSONEscapeChar] @
      [0x30, 0x30, hexChar (drop_bit 4 ch), hexChar ch] @ []) (Inl (u32 (k + 6), acc @ [ch])) c"
    unfolding readJSONString_body_def prod.case append.simps
    by (rule takes_readbind, simp add: json_chars(7,8), rule takes_readbind,
        simp, rule js.takesT_bind [where bs = "[a, b, d, e]" and cs = "[]" for a b d e, simplified, OF takes_escape])
      (simp_all add: cont add.commute)
  then have long: "js.takesT G c (readJSONString_body T (k, acc))
      (kJSONEscapePrefix @ [hexChar (drop_bit 4 ch), hexChar ch]) (Inl (u32 (k + 6), acc @ [ch])) c"
    by (simp add: kJSONEscapePrefix_def json_chars(7,10))
  have d: "strchr kEscapeChars kJSONBackslash = Some 1" "kEscapeCharVals ! 1 = kJSONBackslash"
    "kJSONBackslash \<noteq> kJSONEscapeChar" "\<not> 0x30 \<le> kJSONStringDelimiter"
    by (simp_all add: kEscapeChars_def kEscapeCharVals_def json_chars)
  show ?thesis
  proof (cases "0x30 \<le> ch")
    case True
    then have "ch \<noteq> kJSONStringDelimiter" using d(4) by blast
    with True plain short [OF d(1,3)] d(2) show ?thesis by (auto simp: jchar_def)
  next
    case False
    note low = low_char [OF False]
    consider "kJSONCharTable ! unat ch = 1" | "1 < kJSONCharTable ! unat ch" | "kJSONCharTable ! unat ch = 0"
      by (fastforce simp: word_less_nat_alt word_unat_eq_iff)
    then show ?thesis
    proof cases
      case 1
      with low(1) plain False show ?thesis by (simp add: jchar_def)
    next
      case 2
      with low(2) obtain pos where "strchr kEscapeChars (kJSONCharTable ! unat ch) = Some pos"
          "kEscapeCharVals ! pos = ch" "kJSONCharTable ! unat ch \<noteq> kJSONEscapeChar" by blast
      with short [of "kJSONCharTable ! unat ch" pos] False 2 show ?thesis by (auto simp: jchar_def Let_def)
    next
      case 3
      with False have j: "jchar ch = kJSONEscapePrefix @ [hexChar (drop_bit 4 ch), hexChar ch]"
        by (simp add: jchar_def)
      then have "length (jchar ch) = 6" by (simp add: kJSONEscapePrefix_def)
      with long show ?thesis by (simp only: j)
    qed
  qed
qed

lemma takes_jchars:
  "js.takesT G c (loopT (readJSONString_body T) (k, acc)) (concat (map jchar t) @ [kJSONStringDelimiter])
     (u32 (k + length (concat (map jchar t)) + 1), acc @ t) c"
proof (induction t arbitrary: k acc)
  case Nil
  have "js.takesT G c (readJSONString_body T (k, acc)) [kJSONStringDelimiter] (Inr (u32 (k + 1), acc)) c"
    unfolding readJSONString_body_def prod.case
    by (rule takes_readbind) (simp add: js.takesT_def leave_with_def)
  then show ?case by (simp add: js.takesT_leave)
next
  case (Cons ch t)
  let ?a = "length (jchar ch)" and ?b = "length (concat (map jchar t))"
  have n: "u32 (u32 (k + ?a) + ?b + 1) = u32 (k + length (concat (map jchar (ch # t))) + 1)"
    using u32_add(1) [of "k + ?a" "?b + 1"] by (simp only: list.map concat.simps length_append add.assoc)
  from js.takesT_turn [OF takes_jchar [where G = "\<lambda>_. True"] Cons.IH [of "u32 (k + ?a)" "acc @ [ch]"]]
  show ?case unfolding n by simp
qed

lemma takes_string:
  "js.takesG G c (readJSONString T True) (quoted (concat (map jchar t))) t c"
  "js.takesG G (d, st) (readJSONString T False) (jstr d t) t (nxt d, st)"
proof -
  have l: "js.takesG G c (loopT (readJSONString_body T) (0, [])) (concat (map jchar t) @ [kJSONStringDelimiter]) t c" for c
    using takes_jchars [of G c 0 "[]" t] by (simp add: js.takesG_def)
  have q: "js.takesG G c (bindC (readJSONSyntaxChar T kJSONStringDelimiter) (\<lambda>_. loopT (readJSONString_body T) (0, [])))
      (quoted (concat (map jchar t))) t c" for c
    unfolding quoted_def by (rule js.takesG_bind [OF takes_syntax(2) l]) simp
  show "js.takesG G c (readJSONString T True) (quoted (concat (map jchar t))) t c"
    unfolding readJSONString_def if_True by (rule js.takesG_0bind [where f = "\<lambda>_. m" and x = "()" for m, OF js.takesG_retC q]) simp
  show "js.takesG G (d, st) (readJSONString T False) (jstr d t) t (nxt d, st)"
    unfolding readJSONString_def if_False jstr_def by (rule js.takesG_bind [OF takes_context q]) simp
qed

lemma takes_jbin:
  assumes "length t < 2 ^ 31"
  shows "js.takesG G (d, st) (readJSONBase64 T) (jbin d t) t (nxt d, st)"
proof -
  have "length (base64 t) < 2 ^ 32" using length_base64 [of t] assms by simp
  then show ?thesis
    unfolding readJSONBase64_def jbin_jstr
    using js.takesG_map [OF takes_string(2) [where G = G and t = "base64 t" and d = d and st = st], where g = "\<lambda>tmp. readBase64_loop tmp (u32 (length tmp)) []"]
    by (simp add: read_base64)
qed

lemma takes_jtype: "data_type t \<Longrightarrow> js.takesG G (d, st) (readJSONTypeName T) (jtype d t) t (nxt d, st)"
  unfolding readJSONTypeName_def jtype_def
  by (rule js.takesG_bind0 [OF takes_string(2)]) (simp add: type_name_back js.takesG_retC)

subsection \<open>Numbers\<close>

lemma takes_digits:
  assumes "\<forall>b \<in> set t. isJSONNumeric b" and "k < 2 ^ 32"
  shows "js.takesT nonnum c (loopT (readNumericChars_body T) (k, acc)) t (u32 (k + length t), acc @ t) c"
  using assms
proof (induction t arbitrary: k acc)
  case Nil
  have "js.takesT (js.starts b) c (readNumericChars_body T (k, acc)) [] (Inr (k, acc)) c"
    if "\<not> isJSONNumeric b" for b
    unfolding readNumericChars_body_def prod.case
    by (rule takes_peekbind [where b = b]) (simp_all add: that js.takesT_def leave_with_def)
  then have "js.takesT nonnum c (readNumericChars_body T (k, acc)) [] (Inr (k, acc)) c"
    unfolding nonnum_def by (rule js.takesT_starts)
  from js.takesT_leave [where body = "readNumericChars_body T", OF this] Nil(2) show ?case by simp
next
  case (Cons b t)
  have "js.takesT (\<lambda>_. True) c (bindT (reader_read T) (\<lambda>_. continue_with l)) [b] (Inl l) c" for l :: "nat \<times> bytes"
    by (rule takes_readbind) (simp add: js.takesT_def continue_with_def)
  moreover have "isJSONNumeric b" using Cons.prems by simp
  ultimately have "js.takesT (\<lambda>_. True) c (readNumericChars_body T (k, acc)) [b] (Inl (u32 (k + 1), acc @ [b])) c"
    unfolding readNumericChars_body_def prod.case
    by (intro takes_peekbind [where b = b]) (simp_all add: js.starts_def)
  from js.takesT_turn [where body = "readNumericChars_body T", OF this Cons.IH [of "u32 (k + 1)" "acc @ [b]"]] Cons.prems
  show ?case by (simp add: u32_add)
qed

lemma takes_numeric: "numeric t \<Longrightarrow> js.takesG nonnum c (readJSONNumericChars T) t t c"
  using takes_digits [of t 0 c "[]"] by (simp add: readJSONNumericChars_def js.takesG_def numeric_def)

lemma takes_cast: "conv t = Some x \<Longrightarrow> js.takesG G c (cast_text conv t) [] x c"
  by (simp add: cast_text_def js.takesG_retC)

lemma takes_jnum:
  assumes "conv (lc_show L n) = Some x"
  shows "js.takesG nonnum (c, st) (readJSONInteger conv T) (jnum L c n) x (nxt c, st)"
proof -
  let ?d = "(nxt c, st)" and ?t = "lc_show L n" and ?q = "if escapeNum (nxt c) then [kJSONStringDelimiter] else []"
  let ?quote = "\<lambda>c :: json_context. if escapeNum c then readJSONSyntaxChar T kJSONStringDelimiter else retC ()"
  let ?close = "\<lambda>num s. bindC (?quote (context_top s)) (\<lambda>_. retC num) s"
  have quote: "js.takesG G ?d (?quote (nxt c)) ?q () ?d" for G
    by (simp add: takes_syntax js.takesG_retC)
  have close: "js.takesG nonnum ?d (?close x) ?q x ?d"
    by (rule js.takesG_state [OF _ js.takesG_bind0 [where f = "\<lambda>_. retC x", OF quote js.takesG_retC]])
      (auto dest: js_R_ctx)
  have "js.takesG nonnum ?d (bindC (cast_text conv ?t) ?close) ?q x ?d"
    by (rule js.takesG_0bind [where f = ?close, OF takes_cast [where conv = conv, OF assms, where G = "\<lambda>_. True"] close]) simp
  from js.takesG_bind [where f = "\<lambda>cs. bindC (cast_text conv cs) ?close", OF takes_numeric [OF show_numeric] this]
  have "js.takesG nonnum ?d (bindC (readJSONNumericChars T) (\<lambda>cs. bindC (cast_text conv cs) ?close)) (?t @ ?q) x ?d"
    by (simp split: if_splits)
  from js.takesG_bind [where f = "\<lambda>_. m" for m, OF quote [of "\<lambda>_. True"] this]
  have body: "js.takesG nonnum ?d (bindC (?quote (nxt c)) (\<lambda>_. bindC (readJSONNumericChars T)
      (\<lambda>cs. bindC (cast_text conv cs) ?close))) (if escapeNum (nxt c) then quoted ?t else ?t) x ?d"
    by (simp add: quoted_def split: if_splits)
  show ?thesis
    unfolding readJSONInteger_def jnum_def
    by (rule js.takesG_bind [OF takes_context [where G = "\<lambda>_. True"]], rule js.takesG_state [OF _ body])
      (auto dest: js_R_ctx)
qed

subsection \<open>Doubles\<close>

lemma takes_peekC:
  assumes "js.takesG G c (m b) bs x c'" and "\<And>rest. G rest \<Longrightarrow> js.starts b (bs @ rest)"
  shows "js.takesG G c (bindC (countC 0 (reader_peek T)) m) bs x c'"
  by (rule js.takesG_0bind [where f = m, OF takes_count0 [OF takes_peek] assms(1)]) (rule assms(2))

text \<open>A double between quotes, and one without.\<close>

lemma takes_quoted_double:
  assumes "concat (map jchar t) = t"
    and "\<And>s. js_R rinv d s \<Longrightarrow>
      (if t = kThriftNan then retC (lc_nan L) s else if t = kThriftInfinity then retC HUGE_VAL s
       else if t = kThriftNegativeInfinity then retC minus_HUGE_VAL s
       else if \<not> escapeNum (context_top s) then throw (ThrownPointer PE_INVALID_DATA) s
       else cast_text (lc_read_double L) t s) = retC x s"
  shows "js.takesG G d (bindC (readJSONString T True) (\<lambda>cs s.
       if cs = kThriftNan then retC (lc_nan L) s
       else if cs = kThriftInfinity then retC HUGE_VAL s
       else if cs = kThriftNegativeInfinity then retC minus_HUGE_VAL s
       else if \<not> escapeNum (context_top s) then throw (ThrownPointer PE_INVALID_DATA) s
       else cast_text (lc_read_double L) cs s)) (quoted t) x d"
  using takes_string(1) [of G d t] unfolding assms(1)
  by (rule js.takesG_bind0) (rule js.takesG_state [OF assms(2) js.takesG_retC])

lemma takes_plain_double:
  assumes "numeric t" and "lc_read_double L t = Some x" and "\<not> escapeNum c"
  shows "js.takesG nonnum (c, st) (\<lambda>s. bindC (if escapeNum (context_top s)
      then countC 0 (readJSONSyntaxChar T kJSONStringDelimiter) else retC (0, ()))
    (\<lambda>_. bindC (readJSONNumericChars T) (cast_text (lc_read_double L))) s) t x (c, st)"
proof (rule js.takesG_state)
  show "js.takesG nonnum (c, st) (bindC (retC (0 :: nat, ())) (\<lambda>_. bindC (readJSONNumericChars T)
      (cast_text (lc_read_double L)))) t x (c, st)"
    by (rule js.takesG_0bind [OF js.takesG_retC [where G = "\<lambda>_. True"]],
        rule js.takesG_bind0 [where f = "cast_text (lc_read_double L)", OF takes_numeric [OF assms(1)] takes_cast [where conv = "lc_read_double L", OF assms(2)]]) simp
qed (use assms(3) js_R_ctx in fastforce)

lemma takes_jdbl:
  assumes "dbl_ok L d"
  shows "js.takesG nonnum (c, st) (readJSONDouble L T) (jdbl L c d) d (nxt c, st)"
proof -
  let ?t = "lc_show_double L d"
  have special: ?thesis
    if t: "double_text ?t = (t, True)" "concat (map jchar t) = t" and x: "\<And>s :: 's json.
      (if t = kThriftNan then retC (lc_nan L) s else if t = kThriftInfinity then retC HUGE_VAL s
       else if t = kThriftNegativeInfinity then retC minus_HUGE_VAL s
       else if \<not> escapeNum (context_top s) then throw (ThrownPointer PE_INVALID_DATA) s
       else cast_text (lc_read_double L) t s) = retC d s" for t
    unfolding readJSONDouble_def jdbl_def t(1) prod.case
    by (rule js.takesG_bind [OF takes_context [where G = "\<lambda>_. True"]],
        rule takes_peekC [where b = kJSONStringDelimiter])
      (simp_all add: takes_quoted_double [OF t(2) x], simp add: js.starts_def quoted_def)
  from assms consider "dfinite d" | "?t = str ''inf''" "d = HUGE_VAL" | "?t = str ''-inf''" "d = minus_HUGE_VAL"
    | "?t = str ''nan''" "d = lc_nan L"
    unfolding dbl_ok_def using show_inf by blast
  then show ?thesis
  proof cases
    case 1
    then have n: "numeric ?t" and rd: "lc_read_double L ?t = Some d" using show_double by simp_all
    then have j: "concat (map jchar ?t) = ?t" by (simp add: jchars_numeric numeric_def)
    obtain b r where b: "?t = b # r" using n by (cases ?t) (simp_all add: numeric_def)
    note nt = numeric_text [OF n]
    show ?thesis
    proof (cases "escapeNum (nxt c)")
      case True
      then have x: "js_R rinv (nxt c, st) s \<Longrightarrow>
        (if ?t = kThriftNan then retC (lc_nan L) s else if ?t = kThriftInfinity then retC HUGE_VAL s
         else if ?t = kThriftNegativeInfinity then retC minus_HUGE_VAL s
         else if \<not> escapeNum (context_top s) then throw (ThrownPointer PE_INVALID_DATA) s
         else cast_text (lc_read_double L) ?t s) = retC d s" for s
        using nt rd by (auto dest: js_R_ctx simp: cast_text_def)
      show ?thesis
        unfolding readJSONDouble_def jdbl_def nt(1) prod.case
        by (rule js.takesG_bind [OF takes_context [where G = "\<lambda>_. True"]],
            rule takes_peekC [where b = kJSONStringDelimiter])
          (simp_all add: True takes_quoted_double [OF j x], simp add: js.starts_def quoted_def)
    next
      case False
      have "b \<noteq> kJSONStringDelimiter" using nt(5) b by simp
      then show ?thesis
        unfolding readJSONDouble_def jdbl_def nt(1) prod.case
        by (intro js.takesG_bind [OF takes_context [where G = "\<lambda>_. True"]] takes_peekC [where b = b])
          (simp_all add: False takes_plain_double [OF n rd False], simp add: js.starts_def b)
    qed
  next
    case 2
    show ?thesis by (rule special [of kThriftInfinity]) (simp_all only: 2(1) special_text jchars_special, simp add: 2(2))
  next
    case 3
    show ?thesis by (rule special [of kThriftNegativeInfinity]) (simp_all only: 3(1) special_text jchars_special, simp add: 3(2))
  next
    case 4
    have "?t = str ''nan''" by (rule 4)
    then show ?thesis by (intro special [of kThriftNan]) (simp_all add: 4(2) [symmetric] special_text jchars_special)
  qed
qed

section \<open>Structs, fields and containers\<close>

lemma takes_jopen: "js.takesG G (c, st) (readJSONObjectStart T) (jopen c) () (first_pair, nxt c # st)"
  "js.takesG G (c, st) (readJSONArrayStart T) (jarray c) () (first_elem, nxt c # st)"
  unfolding readJSONObjectStart_def jopen_def readJSONArrayStart_def jarray_def
  by (rule js.takesG_bind [OF takes_context [where G = "\<lambda>_. True"]],
      rule js.takesG_bind0 [OF takes_syntax(2)], rule takes_count0 [OF takes_set(2)], rule TrueI)+

lemma takes_jclose: "js.takesG G (c, d # st) (readJSONObjectEnd T) [kJSONObjectEnd] () (d, st)"
  "js.takesG G (c, d # st) (readJSONArrayEnd T) [kJSONArrayEnd] () (d, st)"
  unfolding readJSONObjectEnd_def readJSONArrayEnd_def
  by (rule js.takesG_bind0 [OF takes_syntax(2)], rule takes_count0 [OF takes_set(3)])+

lemma read_count: "n < 2 ^ 32 \<Longrightarrow> lc_read_u64 L (lc_show L (int n)) = Some (of_nat n)"
  using read_u64 [of "int n"] by simp

lemma u32_unat: "n < 2 ^ 32 \<Longrightarrow> u32 (unat (of_nat n :: i64)) = n"
  by (simp add: unat_of_nat)

text \<open>The elements of an array after the first leave the context as it is.\<close>

lemma first_type:
  assumes "data_type t"
  shows "js.emits (first_elem, st) (writeJSONTypeName T t) (jtype first_elem t) () (next_elem, st)"
    and "js.takesG G (first_elem, st) (readJSONTypeName T) (jtype first_elem t) t (next_elem, st)"
  using emits_jtype [OF assms, of first_elem] takes_jtype [OF assms, of G first_elem] by simp_all

lemma next_in_array:
  "js.emits (next_elem, st) (writeJSONInteger L T i) (jnum L next_elem i) () (next_elem, st)"
  "n < 2 ^ 32 \<Longrightarrow> js.takesG nonnum (next_elem, st) (readJSONInteger (lc_read_u64 L) T) (jnum L next_elem (int n))
     (of_nat n) (next_elem, st)"
  "data_type t \<Longrightarrow> js.emits (next_elem, st) (writeJSONTypeName T t) (jtype next_elem t) () (next_elem, st)"
  "data_type t \<Longrightarrow> js.takesG G (next_elem, st) (readJSONTypeName T) (jtype next_elem t) t (next_elem, st)"
  "js.emits (next_elem, st) (writeJSONObjectStart T) (jopen next_elem) () (first_pair, next_elem # st)"
  "js.takesG G (next_elem, st) (readJSONObjectStart T) (jopen next_elem) () (first_pair, next_elem # st)"
  using emits_jnum [of next_elem] emits_jtype [of t next_elem] emits_jopen(1) [of next_elem]
    takes_jnum [where conv = "lc_read_u64 L" and n = "int n", OF read_count, of next_elem]
    takes_jtype [of t G next_elem] takes_jopen(1) [of G next_elem] by simp_all

lemma collection_begin:
  assumes "data_type e" and "n < 2 ^ 32"
  defines "bs c \<equiv> jarray c @ jtype first_elem e @ jnum L next_elem (int n)"
  shows "js.emits (c, st) (js_writeListBegin L T e n) (bs c) () (next_elem, nxt c # st)"
    and "js.takesG nonnum (c, st) (js_readListBegin L T) (bs c) (e, n) (next_elem, nxt c # st)"
    and "js.emits (c, st) (js_writeSetBegin L T e n) (bs c) () (next_elem, nxt c # st)"
    and "js.takesG nonnum (c, st) (js_readSetBegin L T) (bs c) (e, n) (next_elem, nxt c # st)"
proof -
  have w: "js.emits (c, st) (bindC (writeJSONArrayStart T) (\<lambda>_. bindC (writeJSONTypeName T e)
      (\<lambda>_. writeJSONInteger L T (int n)))) (bs c) () (next_elem, nxt c # st)"
    unfolding bs_def
    by (rule js.emits_bind [OF emits_jopen(2)], rule js.emits_bind [OF first_type(1) [OF assms(1)] next_in_array(1)])
  have r: "js.takesG nonnum (c, st) (bindC (readJSONArrayStart T) (\<lambda>_. bindC (readJSONTypeName T) (\<lambda>elemType.
      bindC (readJSONInteger (lc_read_u64 L) T) (\<lambda>sz. retC (elemType, u32 (unat sz)))))) (bs c) (e, n) (next_elem, nxt c # st)"
    unfolding bs_def
    by (rule js.takesG_bind [OF takes_jopen(2) [where G = "\<lambda>_. True"]],
        rule js.takesG_bind [OF first_type(2) [OF assms(1), where G = "\<lambda>_. True"]],
        rule js.takesG_bind0 [OF next_in_array(2) [OF assms(2)]])
      (simp_all only: u32_unat [OF assms(2)] js.takesG_retC)
  show "js.emits (c, st) (js_writeListBegin L T e n) (bs c) () (next_elem, nxt c # st)"
    and "js.emits (c, st) (js_writeSetBegin L T e n) (bs c) () (next_elem, nxt c # st)"
    unfolding js_writeListBegin_def js_writeSetBegin_def by (rule w)+
  show "js.takesG nonnum (c, st) (js_readListBegin L T) (bs c) (e, n) (next_elem, nxt c # st)"
    and "js.takesG nonnum (c, st) (js_readSetBegin L T) (bs c) (e, n) (next_elem, nxt c # st)"
    unfolding js_readListBegin_def js_readSetBegin_def by (rule r)+
qed

lemma map_begin:
  assumes "data_type kt" and "data_type vt" and "n < 2 ^ 32"
  defines "bs c \<equiv> jarray c @ jtype first_elem kt @ jtype next_elem vt @ jnum L next_elem (int n) @ jopen next_elem"
  shows "js.emits (c, st) (js_writeMapBegin L T kt vt n) (bs c) () (first_pair, next_elem # nxt c # st)"
    and "js.takesG G (c, st) (js_readMapBegin L T) (bs c) (kt, vt, n) (first_pair, next_elem # nxt c # st)"
proof -
  show "js.emits (c, st) (js_writeMapBegin L T kt vt n) (bs c) () (first_pair, next_elem # nxt c # st)"
    unfolding js_writeMapBegin_def bs_def
    by (rule js.emits_bind [OF emits_jopen(2)], rule js.emits_bind [OF first_type(1) [OF assms(1)]],
        rule js.emits_bind [OF next_in_array(3) [OF assms(2)]],
        rule js.emits_bind [OF next_in_array(1) next_in_array(5)])
  show "js.takesG G (c, st) (js_readMapBegin L T) (bs c) (kt, vt, n) (first_pair, next_elem # nxt c # st)"
    unfolding js_readMapBegin_def bs_def
    by (rule js.takesG_bind [OF takes_jopen(2) [where G = "\<lambda>_. True"]],
        rule js.takesG_bind [OF first_type(2) [OF assms(1), where G = "\<lambda>_. True"]],
        rule js.takesG_bind [OF next_in_array(4) [OF assms(2), where G = "\<lambda>_. True"]],
        rule js.takesG_bind [OF next_in_array(2) [OF assms(3)]], rule js.takesG_bind0 [OF next_in_array(6)])
      (simp_all add: u32_unat [OF assms(3)] js.takesG_retC jopen_def)
qed

lemma map_end:
  "js.emits (c, d # e # st) (js_writeMapEnd T) ([kJSONObjectEnd] @ [kJSONArrayEnd]) () (e, st)"
  "js.takesG G (c, d # e # st) (js_readMapEnd T) ([kJSONObjectEnd] @ [kJSONArrayEnd]) () (e, st)"
  unfolding js_writeMapEnd_def js_readMapEnd_def
  by (rule js.emits_bind [OF emits_jclose(1) emits_jclose(2)])
    (rule js.takesG_bind [where f = "\<lambda>_. m" for m, OF takes_jclose(1) [where G = "\<lambda>_. True"] takes_jclose(2)], simp)

lemma field_begin:
  fixes i :: i16
  assumes "at_key c" and "data_type t"
  defines "bs \<equiv> jnum L c (sint i) @ jopen (nxt c) @ jtype first_pair t"
  shows "js.emits (c, st) (js_writeFieldBegin L T nm t i) bs () (nxt first_pair, nxt (nxt c) # st)"
    and "js.takesG G (c, st) (js_readFieldBegin L T) bs ([], t, i) (nxt first_pair, nxt (nxt c) # st)"
proof -
  show "js.emits (c, st) (js_writeFieldBegin L T nm t i) bs () (nxt first_pair, nxt (nxt c) # st)"
    unfolding js_writeFieldBegin_def bs_def
    by (rule js.emits_bind [OF emits_jnum], rule js.emits_bind [OF emits_jopen(1) emits_jtype [OF assms(2)]])
  have "lc_read_u64 L (lc_show L (sint i)) = Some (of_int (sint i))"
    using sint_ge [of i] sint_lt [of i] by (intro read_u64) simp_all
  note num = takes_jnum [where conv = "lc_read_u64 L", OF this]
  have cut: "ucast (of_int (sint i) :: i64) = i"
    by (rule bit_word_eqI) (simp add: bit_simps)
  have first: "\<exists>r. bs = kJSONStringDelimiter # r \<or> bs = kJSONElemSeparator # r"
    using assms(1) by (auto simp: bs_def jnum_def at_key_def quoted_def)
  then obtain b r where b: "bs = b # r" "b \<noteq> kJSONObjectEnd" by (auto simp: json_chars)
  have "js.takesG G (c, st) (bindC (readJSONInteger (lc_read_u64 L) T) (\<lambda>fieldId. bindC (readJSONObjectStart T)
      (\<lambda>_. bindC (readJSONTypeName T) (\<lambda>fieldType. retC ([], fieldType, ucast fieldId))))) bs ([], t, i)
      (nxt first_pair, nxt (nxt c) # st)"
    unfolding bs_def
    by (rule js.takesG_bind [OF num], rule js.takesG_bind [OF takes_jopen(1) [where G = "\<lambda>_. True"]],
        rule js.takesG_bind0 [OF takes_jtype [OF assms(2)]])
      (use js.takesG_retC cut assms(1) in \<open>auto simp: jopen_def\<close>)
  then show "js.takesG G (c, st) (js_readFieldBegin L T) bs ([], t, i) (nxt first_pair, nxt (nxt c) # st)"
    unfolding js_readFieldBegin_def by (intro takes_peekC [where b = b]) (simp_all add: b js.starts_def)
qed

lemma field_stop: "js.takesG (js.starts kJSONObjectEnd) c (js_readFieldBegin L T) [] ([], T_STOP, 0) c"
  unfolding js_readFieldBegin_def
  by (rule takes_peekC [where b = kJSONObjectEnd]) (simp_all add: js.takesG_retC)

section \<open>Values\<close>

abbreviation P :: "'s json tprotocol" where "P \<equiv> json_protocol L T"

definition jwt :: "tval \<Rightarrow> bool" where
  "jwt v \<longleftrightarrow> wt (\<lambda>n. n < 2 ^ 31) (\<lambda>n. n < 2 ^ 32) v \<and> dbls (dbl_ok L) v"

definition jok :: "tval \<Rightarrow> bool" where
  "jok v \<longleftrightarrow> (\<forall>c st k. jwt v \<longrightarrow> fuel v \<le> k \<longrightarrow>
     js.emits (c, st) (write_val P v) (jval L c v) () (nxt c, st) \<and>
     js.takesG nonnum (c, st) (read_val k P (type_of v)) (jval L c v) (erase v) (nxt c, st))"

lemma jokD:
  assumes "jok v" and "jwt v" and "fuel v \<le> k"
  shows "js.emits (c, st) (write_val P v) (jval L c v) () (nxt c, st)"
    and "js.takesG nonnum (c, st) (read_val k P (type_of v)) (jval L c v) (erase v) (nxt c, st)"
  using assms unfolding jok_def by blast+

lemma jscalar:
  assumes "\<And>c st. jwt v \<Longrightarrow> js.emits (c, st) (write_val P v) (jval L c v) () (nxt c, st)"
    and "\<And>k. read_val (Suc k) P (type_of v) = bindC m (\<lambda>x. retC (f x))" and "f x = erase v" and "fuel v = 1"
    and "\<And>c st. jwt v \<Longrightarrow> js.takesG nonnum (c, st) m (jval L c v) x (nxt c, st)"
  shows "jok v"
  unfolding jok_def
proof (intro allI impI conjI)
  fix c st k
  assume "jwt v"
  then show "js.emits (c, st) (write_val P v) (jval L c v) () (nxt c, st)" by (rule assms(1))
next
  fix c st k
  assume "jwt v" and "fuel v \<le> k"
  then obtain j where "k = Suc j" using assms(4) by (cases k) auto
  with js.takesG_map [where g = f, OF assms(5) [OF \<open>jwt v\<close>]] assms(2,3)
  show "js.takesG nonnum (c, st) (read_val k P (type_of v)) (jval L c v) (erase v) (nxt c, st)" by simp
qed

lemma jbyte: "js.takesG nonnum (c, st) (js_readByte L T) (jnum L c (sint (w :: u8))) w (nxt c, st)"
proof -
  have w: "sint (scast w :: i16) = sint w" by (rule sint_up_scast) (simp add: is_up)
  then have "lc_read_i16 L (lc_show L (sint w)) = Some (scast w)" using read_i16 [of "scast w"] by simp
  note num = takes_jnum [where conv = "lc_read_i16 L", OF this]
  have "ucast (scast w :: i16) = w" by (rule bit_word_eqI) (simp add: bit_simps)
  moreover have "sint w < 256" using sint_lt [of w] by simp
  ultimately show ?thesis
    unfolding js_readByte_def by (intro js.takesG_bind0 [OF num]) (simp add: w js.takesG_retC)
qed

lemma jscalars_ok:
  "jok (VBool b)" "jok (VByte w8)" "jok (VI16 w16)" "jok (VI32 w32)" "jok (VI64 w64)" "jok (VDouble d)" "jok (VString t)"
proof -
  show "jok (VBool b)"
    by (rule jscalar [where m = "js_readBool L T" and f = VBool and x = b])
      (simp_all add: json_protocol_def js_writeBool_def js_readBool_def emits_jnum takes_jnum read_bool)
  show "jok (VByte w8)"
    by (rule jscalar [where m = "js_readByte L T" and f = VByte and x = w8])
      (simp_all add: json_protocol_def js_writeByte_def emits_jnum jbyte)
  show "jok (VI16 w16)"
    by (rule jscalar [where m = "js_readI16 L T" and f = VI16 and x = w16])
      (simp_all add: json_protocol_def js_writeI16_def js_readI16_def emits_jnum takes_jnum read_i16)
  show "jok (VI32 w32)"
    by (rule jscalar [where m = "js_readI32 L T" and f = VI32 and x = w32])
      (simp_all add: json_protocol_def js_writeI32_def js_readI32_def emits_jnum takes_jnum read_i32)
  show "jok (VI64 w64)"
    by (rule jscalar [where m = "js_readI64 L T" and f = VI64 and x = w64])
      (simp_all add: json_protocol_def js_writeI64_def js_readI64_def emits_jnum takes_jnum read_i64)
  show "jok (VDouble d)"
    by (rule jscalar [where m = "js_readDouble L T" and f = VDouble and x = d])
      (simp_all add: json_protocol_def js_writeDouble_def js_readDouble_def emits_jdbl takes_jdbl jwt_def)
  show "jok (VString t)"
    by (rule jscalar [where m = "js_readBinary T" and f = VString and x = t])
      (simp_all add: json_protocol_def js_writeBinary_def js_readBinary_def emits_jbin takes_jbin jwt_def)
qed

text \<open>The same for the fields of a struct, the pairs of a map and the elements of a collection.\<close>

definition jfields_ok :: "tfield list \<Rightarrow> bool" where
  "jfields_ok fs \<longleftrightarrow> (\<forall>c st k. at_key c \<longrightarrow> (\<forall>n i v. Field n i v \<in> set fs \<longrightarrow> jwt v) \<longrightarrow>
     sum_list (map fuel_field fs) < k \<longrightarrow>
     js.emits (c, st) (write_fields P fs) (jfields L c fs) () (after_keys c fs, st) \<and>
     js.takesG (js.starts kJSONObjectEnd) (c, st) (read_fields k P) (jfields L c fs) (map erase_field fs)
       (after_keys c fs, st))"

definition jpairs_ok :: "tpair list \<Rightarrow> bool" where
  "jpairs_ok ps \<longleftrightarrow> (\<forall>c st kt vt k. at_key c \<longrightarrow>
     (\<forall>x y. Pair x y \<in> set ps \<longrightarrow> jwt x \<and> jwt y \<and> type_of x = kt \<and> type_of y = vt) \<longrightarrow>
     sum_list (map fuel_pair ps) < k \<longrightarrow>
     js.emits (c, st) (write_pairs P ps) (jpairs L c ps) () (after_keys c ps, st) \<and>
     js.takesG nonnum (c, st) (read_pairs k P kt vt (length ps)) (jpairs L c ps) (map erase_pair ps) (after_keys c ps, st))"

definition jelems_ok :: "tval list \<Rightarrow> bool" where
  "jelems_ok xs \<longleftrightarrow> (\<forall>st e k. (\<forall>x \<in> set xs. jwt x \<and> type_of x = e) \<longrightarrow>
     sum_list (map (\<lambda>x. Suc (fuel x)) xs) < k \<longrightarrow>
     js.emits (next_elem, st) (write_elems P xs) (jelems L next_elem xs) () (next_elem, st) \<and>
     js.takesG nonnum (next_elem, st) (read_elems k P e (length xs)) (jelems L next_elem xs) (map erase xs) (next_elem, st))"

lemma jwt_type: "jwt v \<Longrightarrow> data_type (type_of v) \<and> type_of v \<noteq> T_VOID"
  by (cases v) (auto simp: jwt_def)

lemma P_simps [simp]:
  "writeStructBegin_virt P nm = writeJSONObjectStart T" "writeStructEnd_virt P = writeJSONObjectEnd T"
  "writeFieldBegin_virt P nm t i = js_writeFieldBegin L T nm t i" "writeFieldEnd_virt P = writeJSONObjectEnd T"
  "writeFieldStop_virt P = retC ()" "writeMapBegin_virt P kt vt n = js_writeMapBegin L T kt vt n"
  "writeMapEnd_virt P = js_writeMapEnd T" "writeListBegin_virt P t n = js_writeListBegin L T t n"
  "writeListEnd_virt P = writeJSONArrayEnd T" "writeSetBegin_virt P t n = js_writeSetBegin L T t n"
  "writeSetEnd_virt P = writeJSONArrayEnd T"
  "readStructBegin_virt P = bindC (readJSONObjectStart T) (\<lambda>_. retC [])" "readStructEnd_virt P = readJSONObjectEnd T"
  "readFieldBegin_virt P = js_readFieldBegin L T" "readFieldEnd_virt P = readJSONObjectEnd T"
  "readMapBegin_virt P = js_readMapBegin L T" "readMapEnd_virt P = js_readMapEnd T"
  "readListBegin_virt P = js_readListBegin L T" "readListEnd_virt P = readJSONArrayEnd T"
  "readSetBegin_virt P = js_readSetBegin L T" "readSetEnd_virt P = readJSONArrayEnd T"
  by (simp_all add: json_protocol_def js_writeStructBegin_def js_writeStructEnd_def js_writeFieldEnd_def
      js_writeFieldStop_def js_writeListEnd_def js_writeSetEnd_def js_readStructBegin_def js_readStructEnd_def
      js_readFieldEnd_def js_readListEnd_def js_readSetEnd_def)

lemma jelems_all:
  assumes "\<And>x. x \<in> set xs \<Longrightarrow> jok x"
  shows "jelems_ok xs"
  using assms
proof (induction xs)
  case Nil
  have "js.takesG G c (read_elems k P e 0) [] [] c" if "0 < k" for G c k e
    using that js.takesG_retC by (cases k) simp_all
  then show ?case by (simp add: jelems_ok_def js.emits_retC)
next
  case (Cons x xs)
  have x: "jok x" using Cons.prems by simp
  have IH: "jelems_ok xs" by (rule Cons.IH, rule Cons.prems) simp
  show ?case
    unfolding jelems_ok_def
  proof (intro allI impI)
    fix st e k
    assume wt: "\<forall>y \<in> set (x # xs). jwt y \<and> type_of y = e" and "sum_list (map (\<lambda>x. Suc (fuel x)) (x # xs)) < k"
    then obtain j where k: "k = Suc j" "fuel x \<le> j" "sum_list (map (\<lambda>x. Suc (fuel x)) xs) < j"
      by (cases k) auto
    have jx: "jwt x" "type_of x = e" using wt by simp_all
    note X = jokD [OF x jx(1) k(2), of next_elem st, unfolded jx(2)]
    have "(\<forall>y \<in> set xs. jwt y \<and> type_of y = e)" using wt by simp
    with IH k(3) have XS: "js.emits (next_elem, st) (write_elems P xs) (jelems L next_elem xs) () (next_elem, st)"
      "js.takesG nonnum (next_elem, st) (read_elems j P e (length xs)) (jelems L next_elem xs) (map erase xs) (next_elem, st)"
      unfolding jelems_ok_def by blast+
    have guard: "nonnum rest \<Longrightarrow> nonnum (jelems L next_elem xs @ rest)" for rest
      using wt by (intro nonnum_jelems [where sl = "\<lambda>n. n < 2 ^ 31" and cl = "\<lambda>n. n < 2 ^ 32"]) (auto simp: jwt_def)
    have "js.takesG nonnum (next_elem, st) (bindC (read_val j P e) (\<lambda>y. bindC (read_elems j P e (length xs)) (\<lambda>ys. retC (y # ys))))
        (jval L next_elem x @ jelems L next_elem xs) (erase x # map erase xs) (next_elem, st)"
      by (rule js.takesG_bind [OF X(2) [simplified]], rule js.takesG_map [where g = "\<lambda>ys. erase x # ys", OF XS(2)], rule guard)
    then show "js.emits (next_elem, st) (write_elems P (x # xs)) (jelems L next_elem (x # xs)) () (next_elem, st) \<and>
      js.takesG nonnum (next_elem, st) (read_elems k P e (length (x # xs))) (jelems L next_elem (x # xs))
        (map erase (x # xs)) (next_elem, st)"
      using js.emits_bind [where f = "\<lambda>_. m" for m, OF X(1) [simplified] XS(1)] by (simp add: k(1))
  qed
qed

lemma jpairs_all:
  assumes "\<And>x y. Pair x y \<in> set ps \<Longrightarrow> jok x \<and> jok y"
  shows "jpairs_ok ps"
  using assms
proof (induction ps)
  case Nil
  have "js.takesG G c (read_pairs k P kt vt 0) [] [] c" if "0 < k" for G c k kt vt
    using that js.takesG_retC by (cases k) simp_all
  then show ?case by (simp add: jpairs_ok_def js.emits_retC)
next
  case (Cons p ps)
  obtain a b where p: "p = Pair a b" by (cases p)
  have ab: "jok a" "jok b" using Cons.prems [of a b] p by simp_all
  have IH: "jpairs_ok ps" by (rule Cons.IH, rule Cons.prems) simp
  show ?case
    unfolding jpairs_ok_def
  proof (intro allI impI)
    fix c st kt vt k
    assume c: "at_key c" and "\<forall>x y. Pair x y \<in> set (p # ps) \<longrightarrow> jwt x \<and> jwt y \<and> type_of x = kt \<and> type_of y = vt"
      and "sum_list (map fuel_pair (p # ps)) < k"
    then obtain j where k: "k = Suc j" "fuel a \<le> j" "fuel b \<le> j" "sum_list (map fuel_pair ps) < j"
      and wt: "jwt a" "jwt b" "type_of a = kt" "type_of b = vt"
        "\<forall>x y. Pair x y \<in> set ps \<longrightarrow> jwt x \<and> jwt y \<and> type_of x = kt \<and> type_of y = vt"
      using p by (cases k) auto
    let ?v = "PairContext False True" and ?k = "PairContext False False"
    have A: "js.emits (c, st) (write_val P a) (jval L c a) () (?v, st)"
      "js.takesG nonnum (c, st) (read_val j P kt) (jval L c a) (erase a) (?v, st)"
      using jokD [OF ab(1) wt(1) k(2), of c st] c wt(3) by simp_all
    have B: "js.emits (?v, st) (write_val P b) (jval L ?v b) () (?k, st)"
      "js.takesG nonnum (?v, st) (read_val j P vt) (jval L ?v b) (erase b) (?k, st)"
      using jokD [OF ab(2) wt(2) k(3), of ?v st] wt(4) by simp_all
    have "at_key ?k" by simp
    with IH wt(5) k(4) have R: "js.emits (?k, st) (write_pairs P ps) (jpairs L ?k ps) () (?k, st)"
      "js.takesG nonnum (?k, st) (read_pairs j P kt vt (length ps)) (jpairs L ?k ps) (map erase_pair ps) (?k, st)"
      unfolding jpairs_ok_def by (metis at_key_simps(5))+
    have "\<forall>q \<in> set ps. wt_pair (\<lambda>n. n < 2 ^ 31) (\<lambda>n. n < 2 ^ 32) kt vt q"
    proof
      fix q
      assume "q \<in> set ps"
      with wt(5) show "wt_pair (\<lambda>n. n < 2 ^ 31) (\<lambda>n. n < 2 ^ 32) kt vt q" by (cases q) (auto simp: jwt_def)
    qed
    then have g: "nonnum (jpairs L ?k ps @ rest)" if "nonnum rest" for rest
      using that by (intro nonnum_jpairs) simp_all
    have g2: "nonnum (jval L ?v b @ r)" for r using nonnum_jval [of ?v b] jwt_type [OF wt(2)] by simp
    have "js.takesG nonnum (?v, st) (bindC (read_val j P vt) (\<lambda>y. bindC (read_pairs j P kt vt (length ps))
        (\<lambda>ps'. retC (Pair (erase a) y # ps')))) (jval L ?v b @ jpairs L ?k ps) (Pair (erase a) (erase b) # map erase_pair ps) (?k, st)"
      by (rule js.takesG_bind [OF B(2)], rule js.takesG_map [where g = "\<lambda>ps'. Pair (erase a) (erase b) # ps'", OF R(2)], rule g)
    then have "js.takesG nonnum (c, st) (bindC (read_val j P kt) (\<lambda>x. bindC (read_val j P vt) (\<lambda>y.
        bindC (read_pairs j P kt vt (length ps)) (\<lambda>ps'. retC (Pair x y # ps')))))
        (jval L c a @ jval L ?v b @ jpairs L ?k ps) (Pair (erase a) (erase b) # map erase_pair ps) (?k, st)"
      by (rule js.takesG_bind [OF A(2)]) (simp add: g2)
    then show "js.emits (c, st) (write_pairs P (p # ps)) (jpairs L c (p # ps)) () (after_keys c (p # ps), st) \<and>
      js.takesG nonnum (c, st) (read_pairs k P kt vt (length (p # ps))) (jpairs L c (p # ps))
        (map erase_pair (p # ps)) (after_keys c (p # ps), st)"
      using js.emits_bind [where f = "\<lambda>_. m" for m, OF A(1) js.emits_bind [where f = "\<lambda>_. m" for m, OF B(1) R(1)]]
      by (simp add: k(1) p c)
  qed
qed

lemma jfields_all:
  assumes "\<And>n i v. Field n i v \<in> set fs \<Longrightarrow> jok v"
  shows "jfields_ok fs"
  using assms
proof (induction fs)
  case Nil
  have "js.takesG (js.starts kJSONObjectEnd) c (read_fields k P) [] [] c" if "0 < k" for c k
    using that by (cases k) (auto intro!: js.takesG_bind0 [OF field_stop] js.takesG_retC)
  then show ?case by (simp add: jfields_ok_def js.emits_retC)
next
  case (Cons f fs)
  obtain nm i v where f: "f = Field nm i v" by (cases f)
  have v: "jok v" using Cons.prems [of nm i v] f by simp
  have IH: "jfields_ok fs"
  proof (rule Cons.IH)
    fix n i v
    assume "Field n i v \<in> set fs"
    then have "Field n i v \<in> set (f # fs)" by simp
    then show "jok v" by (rule Cons.prems)
  qed
  show ?case
    unfolding jfields_ok_def
  proof (intro allI impI)
    fix c st k
    assume c: "at_key c" and "\<forall>n i v. Field n i v \<in> set (f # fs) \<longrightarrow> jwt v"
      and "sum_list (map fuel_field (f # fs)) < k"
    then obtain j where k: "k = Suc j" "fuel v \<le> j" "sum_list (map fuel_field fs) < j" and wt: "jwt v"
        "\<forall>n i v. Field n i v \<in> set fs \<longrightarrow> jwt v"
      using f by (cases k) auto
    let ?v = "PairContext False True" and ?k = "PairContext False False"
    let ?bs = "jnum L c (sint i) @ jopen (nxt c) @ jtype first_pair (type_of v)"
    note t = jwt_type [OF wt(1)]
    have t0: "type_of v \<noteq> T_STOP" using t by auto
    have B: "js.emits (c, st) (js_writeFieldBegin L T nm (type_of v) i) ?bs () (?v, ?k # st)"
      "js.takesG G (c, st) (js_readFieldBegin L T) ?bs ([], type_of v, i) (?v, ?k # st)" for G
      using field_begin(1) [OF c, where t = "type_of v" and st = st and i = i and nm = nm] field_begin(2) [OF c, where t = "type_of v" and st = st and i = i and G = G] t c by simp_all
    have V: "js.emits (?v, ?k # st) (write_val P v) (jval L ?v v) () (?k, ?k # st)"
      "js.takesG nonnum (?v, ?k # st) (read_val j P (type_of v)) (jval L ?v v) (erase v) (?k, ?k # st)"
      using jokD [OF v wt(1) k(2), of ?v "?k # st"] by simp_all
    have "at_key ?k" by simp
    with IH wt(2) k(3) have R: "js.emits (?k, st) (write_fields P fs) (jfields L ?k fs) () (?k, st)"
      "js.takesG (js.starts kJSONObjectEnd) (?k, st) (read_fields j P) (jfields L ?k fs) (map erase_field fs) (?k, st)"
      unfolding jfields_ok_def by (metis at_key_simps(5))+
    let ?F = "\<lambda>fs'. Field [] i (erase v) # fs'"
    have rest: "js.takesG (js.starts kJSONObjectEnd) (?k, ?k # st) (bindC (readJSONObjectEnd T)
        (\<lambda>_. bindC (read_fields j P) (\<lambda>fs'. retC (?F fs')))) ([kJSONObjectEnd] @ jfields L ?k fs) (?F (map erase_field fs)) (?k, st)"
      by (rule js.takesG_bind [where f = "\<lambda>_. m" for m, OF takes_jclose(1) [where G = "\<lambda>_. True"]
            js.takesG_map [where g = ?F, OF R(2)]]) simp
    have "js.takesG (js.starts kJSONObjectEnd) (?v, ?k # st) (bindC (read_val j P (type_of v)) (\<lambda>v. bindC (readJSONObjectEnd T)
        (\<lambda>_. bindC (read_fields j P) (\<lambda>fs'. retC (Field [] i v # fs'))))) (jval L ?v v @ [kJSONObjectEnd] @ jfields L ?k fs)
        (?F (map erase_field fs)) (?k, st)"
      by (rule js.takesG_bind [OF V(2)], rule rest) simp
    from js.takesG_bind [where f = "\<lambda>(name, ftype, fid). if ftype = T_STOP then retC [] else bindC (read_val j P ftype)
        (\<lambda>v. bindC (readJSONObjectEnd T) (\<lambda>_. bindC (read_fields j P) (\<lambda>fs. retC (Field [] fid v # fs))))",
        OF B(2) [of "\<lambda>_. True"]] this t0
    have T: "js.takesG (js.starts kJSONObjectEnd) (c, st) (read_fields k P)
        (?bs @ jval L ?v v @ [kJSONObjectEnd] @ jfields L ?k fs) (?F (map erase_field fs)) (?k, st)"
      by (simp only: k(1) read_fields.simps P_simps prod.case if_False)
    have E: "js.emits (c, st) (write_fields P (f # fs)) ((?bs @ jval L ?v v) @ [kJSONObjectEnd] @ jfields L ?k fs) () (?k, st)"
      unfolding f write_fields.simps P_simps
      by (rule js.emits_bind [OF js.emits_bind [OF B(1) V(1)] js.emits_bind [OF emits_jclose(1) R(1)]])
    show "js.emits (c, st) (write_fields P (f # fs)) (jfields L c (f # fs)) () (after_keys c (f # fs), st) \<and>
      js.takesG (js.starts kJSONObjectEnd) (c, st) (read_fields k P) (jfields L c (f # fs))
        (map erase_field (f # fs)) (after_keys c (f # fs), st)"
      using T E by (simp add: f c)
  qed
qed

lemma jstruct_ok:
  assumes "jfields_ok fs"
  shows "jok (VStruct nm fs)"
  unfolding jok_def
proof (intro allI impI)
  fix c st k
  assume wt: "jwt (VStruct nm fs)" and "fuel (VStruct nm fs) \<le> k"
  then obtain j where k: "k = Suc j" "sum_list (map fuel_field fs) < j" by (cases k) auto
  have "jwt v" if "Field n i v \<in> set fs" for n i v
    using wt that by (fastforce simp: jwt_def)
  with assms k(2) have F: "js.emits (first_pair, nxt c # st) (write_fields P fs) (jfields L first_pair fs) ()
      (after_keys first_pair fs, nxt c # st)"
    "js.takesG (js.starts kJSONObjectEnd) (first_pair, nxt c # st) (read_fields j P) (jfields L first_pair fs)
      (map erase_field fs) (after_keys first_pair fs, nxt c # st)"
    unfolding jfields_ok_def by (metis at_key_simps(1))+
  have close: "js.takesG nonnum (d, nxt c # st) (bindC (readJSONObjectEnd T) (\<lambda>_. retC x)) [kJSONObjectEnd] x (nxt c, st)"
    for d and x :: tval
    by (rule js.takesG_bind0 [OF takes_jclose(1) js.takesG_retC])
  have fs: "js.takesG nonnum (first_pair, nxt c # st)
      (bindC (read_fields j P) (\<lambda>fs. bindC (readJSONObjectEnd T) (\<lambda>_. retC (VStruct [] fs))))
      (jfields L first_pair fs @ [kJSONObjectEnd]) (VStruct [] (map erase_field fs)) (nxt c, st)"
    by (rule js.takesG_bind [OF F(2) close]) (simp add: js.starts_def)
  have begin_ok: "js.takesG (\<lambda>_. True) (c, st) (bindC (readJSONObjectStart T) (\<lambda>_. retC ([] :: bytes))) (jopen c) [] (first_pair, nxt c # st)"
    by (rule js.takesG_bind0 [OF takes_jopen(1) js.takesG_retC])
  have "js.takesG nonnum (c, st) (read_val k P (type_of (VStruct nm fs))) (jval L c (VStruct nm fs))
      (erase (VStruct nm fs)) (nxt c, st)"
    unfolding k(1) read_val.simps type_of.simps ttype.case P_simps jval.simps erase.simps
    by (rule js.takesG_bind [OF begin_ok], rule fs, rule TrueI)
  moreover have "js.emits (c, st) (write_val P (VStruct nm fs)) (jval L c (VStruct nm fs)) () (nxt c, st)"
    unfolding write_val.simps P_simps jval.simps
    by (rule js.emits_bind [OF emits_jopen(1)], rule js.emits_bind [OF F(1) emits_jclose(1)])
  ultimately show "js.emits (c, st) (write_val P (VStruct nm fs)) (jval L c (VStruct nm fs)) () (nxt c, st) \<and>
      js.takesG nonnum (c, st) (read_val k P (type_of (VStruct nm fs))) (jval L c (VStruct nm fs))
        (erase (VStruct nm fs)) (nxt c, st)" by blast
qed

lemma jmap_ok:
  assumes "jpairs_ok ps"
  shows "jok (VMap kt vt ps)"
  unfolding jok_def
proof (intro allI impI)
  fix c st k
  assume wt: "jwt (VMap kt vt ps)" and "fuel (VMap kt vt ps) \<le> k"
  then obtain j where k: "k = Suc j" "sum_list (map fuel_pair ps) < j" by (cases k) auto
  have t: "data_type kt" "data_type vt" "length ps < 2 ^ 32" using wt by (simp_all add: jwt_def)
  have "jwt x \<and> jwt y \<and> type_of x = kt \<and> type_of y = vt" if "Pair x y \<in> set ps" for x y
    using wt that by (fastforce simp: jwt_def)
  with assms k(2) have F: "js.emits (first_pair, next_elem # nxt c # st) (write_pairs P ps) (jpairs L first_pair ps) ()
      (after_keys first_pair ps, next_elem # nxt c # st)"
    "js.takesG nonnum (first_pair, next_elem # nxt c # st) (read_pairs j P kt vt (length ps)) (jpairs L first_pair ps)
      (map erase_pair ps) (after_keys first_pair ps, next_elem # nxt c # st)"
    unfolding jpairs_ok_def by (metis at_key_simps(1))+
  let ?g = "\<lambda>ps'. if length ps = 0 then VMap T_STOP T_STOP [] else VMap kt vt ps'"
  have close: "js.takesG nonnum (d, next_elem # nxt c # st) (bindC (js_readMapEnd T) (\<lambda>_. retC x))
      ([kJSONObjectEnd] @ [kJSONArrayEnd]) x (nxt c, st)" for d and x :: tval
    by (rule js.takesG_bind0 [OF map_end(2) js.takesG_retC])
  have ps: "js.takesG nonnum (first_pair, next_elem # nxt c # st)
      (bindC (read_pairs j P kt vt (length ps)) (\<lambda>ps'. bindC (js_readMapEnd T) (\<lambda>_. retC (?g ps'))))
      (jpairs L first_pair ps @ [kJSONObjectEnd] @ [kJSONArrayEnd]) (?g (map erase_pair ps)) (nxt c, st)"
    by (rule js.takesG_bind [OF F(2) close]) simp
  have r: "js.takesG nonnum (c, st) (read_val k P (type_of (VMap kt vt ps)))
      ((jarray c @ jtype first_elem kt @ jtype next_elem vt @ jnum L next_elem (int (length ps)) @ jopen next_elem) @
        jpairs L first_pair ps @ [kJSONObjectEnd] @ [kJSONArrayEnd]) (?g (map erase_pair ps)) (nxt c, st)"
    unfolding k(1) read_val.simps type_of.simps ttype.case P_simps
    by (rule js.takesG_bind [OF map_begin(2) [OF t, where G = "\<lambda>_. True"]]) (simp_all only: prod.case ps)
  moreover have "js.emits (c, st) (write_val P (VMap kt vt ps))
      ((jarray c @ jtype first_elem kt @ jtype next_elem vt @ jnum L next_elem (int (length ps)) @ jopen next_elem) @
        jpairs L first_pair ps @ [kJSONObjectEnd] @ [kJSONArrayEnd]) () (nxt c, st)"
    unfolding write_val.simps P_simps
    by (rule js.emits_bind [OF map_begin(1) [OF t]], rule js.emits_bind [OF F(1) map_end(1)])
  moreover have "?g (map erase_pair ps) = erase (VMap kt vt ps)" by simp
  ultimately show "js.emits (c, st) (write_val P (VMap kt vt ps)) (jval L c (VMap kt vt ps)) () (nxt c, st) \<and>
      js.takesG nonnum (c, st) (read_val k P (type_of (VMap kt vt ps))) (jval L c (VMap kt vt ps))
        (erase (VMap kt vt ps)) (nxt c, st)" by (simp only: jval.simps append_assoc)
qed

lemma jcollections_ok:
  assumes "jelems_ok xs"
  shows "jok (VList e xs)" and "jok (VSet e xs)"
proof -
  let ?bs = "\<lambda>c. jarray c @ jtype first_elem e @ jnum L next_elem (int (length xs)) @ jelems L next_elem xs @ [kJSONArrayEnd]"
  have *: "jok (C e xs)"
    if B: "\<And>c st. data_type e \<Longrightarrow> length xs < 2 ^ 32 \<Longrightarrow>
        js.emits (c, st) wb (jarray c @ jtype first_elem e @ jnum L next_elem (int (length xs))) () (next_elem, nxt c # st) \<and>
        js.takesG nonnum (c, st) rb (jarray c @ jtype first_elem e @ jnum L next_elem (int (length xs))) (e, length xs)
          (next_elem, nxt c # st)"
      and w: "write_val P (C e xs) = bindC wb (\<lambda>_. bindC (write_elems P xs) (\<lambda>_. writeJSONArrayEnd T))"
      and r: "\<And>j. read_val (Suc j) P (type_of (C e xs)) = bindC rb (\<lambda>(et, n). bindC (read_elems j P et n)
        (\<lambda>xs. bindC (readJSONArrayEnd T) (\<lambda>_. retC (C et xs))))"
      and x: "erase (C e xs) = C e (map erase xs)" "jwt (C e xs) = jwt (VList e xs)" "fuel (C e xs) = fuel (VList e xs)"
        "\<And>c. jval L c (C e xs) = ?bs c"
    for C :: "ttype \<Rightarrow> tval list \<Rightarrow> tval" and wb rb
    unfolding jok_def
  proof (intro allI impI)
    fix c st k
    assume wt: "jwt (C e xs)" and "fuel (C e xs) \<le> k"
    then obtain j where k: "k = Suc j" "sum_list (map (\<lambda>x. Suc (fuel x)) xs) < j"
      unfolding x by (cases k) auto
    have t: "data_type e" "length xs < 2 ^ 32" and el: "\<forall>x \<in> set xs. jwt x \<and> type_of x = e"
      using wt unfolding x by (auto simp: jwt_def)
    have E: "js.emits (next_elem, nxt c # st) (write_elems P xs) (jelems L next_elem xs) () (next_elem, nxt c # st)"
      "js.takesG nonnum (next_elem, nxt c # st) (read_elems j P e (length xs)) (jelems L next_elem xs) (map erase xs)
        (next_elem, nxt c # st)"
      using assms el k(2) unfolding jelems_ok_def by blast+
    have g: "nonnum ((jelems L next_elem xs @ [kJSONArrayEnd]) @ rest)" for rest
      using el nonnum_jelems [where c = next_elem and xs = xs and sl = "\<lambda>n. n < 2 ^ 31" and cl = "\<lambda>n. n < 2 ^ 32"
          and r = "kJSONArrayEnd # rest" and L = L] by (auto simp: jwt_def)
    have close: "js.takesG nonnum (next_elem, nxt c # st) (bindC (readJSONArrayEnd T) (\<lambda>_. retC x)) [kJSONArrayEnd] x (nxt c, st)"
      for x :: tval
      by (rule js.takesG_bind0 [OF takes_jclose(2) js.takesG_retC])
    have "js.takesG nonnum (next_elem, nxt c # st) (bindC (read_elems j P e (length xs)) (\<lambda>xs. bindC (readJSONArrayEnd T)
        (\<lambda>_. retC (C e xs)))) (jelems L next_elem xs @ [kJSONArrayEnd]) (C e (map erase xs)) (nxt c, st)"
      by (rule js.takesG_bind [OF E(2) close]) simp
    then have "js.takesG nonnum (c, st) (read_val k P (type_of (C e xs)))
        ((jarray c @ jtype first_elem e @ jnum L next_elem (int (length xs))) @ jelems L next_elem xs @ [kJSONArrayEnd])
        (C e (map erase xs)) (nxt c, st)"
      unfolding k(1) r by (intro js.takesG_bind [OF conjunct2 [OF B [OF t]]]) (simp_all only: prod.case g)
    moreover have "js.emits (c, st) (write_val P (C e xs))
        ((jarray c @ jtype first_elem e @ jnum L next_elem (int (length xs))) @ jelems L next_elem xs @ [kJSONArrayEnd]) () (nxt c, st)"
      unfolding w by (rule js.emits_bind [OF conjunct1 [OF B [OF t]]], rule js.emits_bind [OF E(1) emits_jclose(2)])
    ultimately show "js.emits (c, st) (write_val P (C e xs)) (jval L c (C e xs)) () (nxt c, st) \<and>
        js.takesG nonnum (c, st) (read_val k P (type_of (C e xs))) (jval L c (C e xs)) (erase (C e xs)) (nxt c, st)"
      unfolding x by (simp only: append_assoc)
  qed
  show "jok (VList e xs)"
    by (rule * [of "js_writeListBegin L T e (length xs)" "js_readListBegin L T" VList])
      (simp_all add: collection_begin)
  show "jok (VSet e xs)"
    by (rule * [of "js_writeSetBegin L T e (length xs)" "js_readSetBegin L T" VSet])
      (simp_all add: collection_begin jwt_def)
qed

theorem jok_all: "jok v"
proof -
  have "jok v" and "\<And>n i x. f = Field n i x \<Longrightarrow> jok x" and "\<And>x y. p = Pair x y \<Longrightarrow> jok x \<and> jok y"
    for f p
  proof (induction v and f and p)
    case (VStruct nm fs)
    then show ?case by (intro jstruct_ok jfields_all) blast
  next
    case (VMap kt vt ps)
    then show ?case by (intro jmap_ok jpairs_all) blast
  next
    case (VSet et xs)
    then show ?case by (intro jcollections_ok jelems_all)
  next
    case (VList et xs)
    then show ?case by (intro jcollections_ok jelems_all)
  next
    case VNothing
    show ?case by (simp add: jok_def jwt_def)
  qed (simp_all add: jscalars_ok)
  then show ?thesis by blast
qed

lemma json_value:
  assumes "jwt v" and "fuel v \<le> k"
  shows "js.emits (c, st) (write_val P v) (jval L c v) () (nxt c, st)"
    and "js.takesG nonnum (c, st) (read_val k P (type_of v)) (jval L c v) (erase v) (nxt c, st)"
    and "js.takesG nonnum (c, st) (skip k P (type_of v)) (jval L c v) () (nxt c, st)"
  unfolding skip_reads by (rule jokD [OF jok_all assms] js.takesG_drop [OF jokD(2) [OF jok_all assms]])+

lemma json_message:
  fixes seqid :: i32
  assumes "named_message mt"
  shows "js.emits (c, st) (js_writeMessageBegin L T name mt seqid) (jmessage L c name mt seqid) () (next_elem, nxt c # st)"
    and "js.takesG nonnum (c, st) (js_readMessageBegin L T) (jmessage L c name mt seqid) (name, mt, seqid) (next_elem, nxt c # st)"
proof -
  have i32: "lc_read_u64 L (lc_show L (sint w)) = Some (of_int (sint w))" for w :: i32
    using sint_ge [of w] sint_lt [of w] by (intro read_u64) simp_all
  have cut: "ucast (scast w :: i64) = w" for w :: i32
    by (rule bit_word_eqI) (simp add: bit_simps)
  have v: "js.emits (first_elem, nxt c # st) (writeJSONInteger L T kThriftVersion1) (jnum L first_elem 1) () (next_elem, nxt c # st)"
    using emits_jnum [of first_elem] by (simp add: kThriftVersion1_def)
  have rv: "js.takesG nonnum (first_elem, nxt c # st) (readJSONInteger (lc_read_u64 L) T) (jnum L first_elem 1)
      (of_int kThriftVersion1) (next_elem, nxt c # st)"
    using takes_jnum [where conv = "lc_read_u64 L" and n = 1, OF read_u64, of first_elem] by (simp add: kThriftVersion1_def)
  have n: "js.emits (next_elem, nxt c # st) (writeJSONString T name) (jstr next_elem name) () (next_elem, nxt c # st)"
    "js.takesG G (next_elem, nxt c # st) (readJSONString T False) (jstr next_elem name) name (next_elem, nxt c # st)" for G
    using emits_jstr [of next_elem] takes_string(2) [of G next_elem] by simp_all
  have i: "js.takesG nonnum (next_elem, nxt c # st) (readJSONInteger (lc_read_u64 L) T) (jnum L next_elem (sint w))
      (of_int (sint w)) (next_elem, nxt c # st)" for w :: i32
    using takes_jnum [where conv = "lc_read_u64 L", OF i32, of next_elem] by simp
  show "js.emits (c, st) (js_writeMessageBegin L T name mt seqid) (jmessage L c name mt seqid) () (next_elem, nxt c # st)"
    unfolding js_writeMessageBegin_def jmessage_def
    by (rule js.emits_bind [OF emits_jopen(2)], rule js.emits_bind [OF v], rule js.emits_bind [OF n(1)],
        rule js.emits_bind [OF next_in_array(1) next_in_array(1)])
  show "js.takesG nonnum (c, st) (js_readMessageBegin L T) (jmessage L c name mt seqid) (name, mt, seqid) (next_elem, nxt c # st)"
    unfolding js_readMessageBegin_def jmessage_def
    by (rule js.takesG_bind [OF takes_jopen(2) [where G = "\<lambda>_. True"]], rule js.takesG_bind [OF rv],
        simp only: simp_thms if_False, rule js.takesG_bind [OF n(2) [of "\<lambda>_. True"]], rule js.takesG_bind [OF i],
        rule js.takesG_bind0 [OF i])
      (simp_all add: cut assms(1) js.takesG_retC, simp_all add: jstr_def jnum_def)
qed

end

section \<open>Over a memory buffer, with decimal numbers\<close>

text \<open>
  A conversion with the promised laws: decimal numbers, and for a finite double the number that its
  bits make.
\<close>

definition show_int :: "int \<Rightarrow> bytes" where
  "show_int n = (if n < 0 then 45 # dec (nat (- n)) else dec (nat n))"

definition parse_nat :: "bytes \<Rightarrow> nat option" where
  "parse_nat t = (if t \<noteq> [] \<and> list_all isdigit t then Some (digits 10 t) else None)"

definition parse_int :: "bytes \<Rightarrow> int option" where
  "parse_int t = (if t \<noteq> [] \<and> hd t = 45 then map_option (\<lambda>n. - int n) (parse_nat (tl t))
     else map_option int (parse_nat t))"

definition parse_word :: "int \<Rightarrow> int \<Rightarrow> bytes \<Rightarrow> ('n::len) word option" where
  "parse_word lo hi t = (case parse_int t of None \<Rightarrow> None
     | Some n \<Rightarrow> if lo \<le> n \<and> n < hi then Some (of_int n) else None)"

definition decimal :: lexical where
  "decimal = \<lparr>lc_show = show_int,
     lc_read_bool = (\<lambda>t. if t = [48] then Some False else if t = [49] then Some True else None),
     lc_read_i16 = parse_word (- (2 ^ 15)) (2 ^ 15), lc_read_i32 = parse_word (- (2 ^ 31)) (2 ^ 31),
     lc_read_i64 = parse_word (- (2 ^ 63)) (2 ^ 63), lc_read_u64 = parse_word (- (2 ^ 63)) (2 ^ 64),
     lc_show_double = (\<lambda>d. if d = HUGE_VAL then str ''inf'' else if d = minus_HUGE_VAL then str ''-inf''
       else if dfinite d then dec (unat d) else if bit d 63 then str ''-nan'' else str ''nan''),
     lc_read_double = parse_word 0 (2 ^ 64), lc_nan = 0xFFF8000000000000\<rparr>"

lemma parse_show: "parse_int (show_int n) = Some n"
proof -
  have p: "parse_nat (dec m) = Some m" for m
    using dec_isdigit [of m] by (simp add: parse_nat_def list_all_iff)
  have "hd (dec m) \<noteq> 45" for m using isdigit_no_space [OF dec_hd [of m]] by simp
  with p show ?thesis by (simp add: parse_int_def show_int_def)
qed

lemma parse_show_word: "lo \<le> n \<Longrightarrow> n < hi \<Longrightarrow> parse_word lo hi (show_int n) = Some (of_int n)"
  by (simp add: parse_word_def parse_show)

lemma numeric_dec: "numeric (dec n)"
  using dec_isdigit [of n] by (auto simp: numeric_def isJSONNumeric_def isdigit_def)

interpretation dec: lexical_cast decimal
proof unfold_locales
  have i: "numeric (show_int n)" for n
    using numeric_dec by (auto simp: show_int_def numeric_def isJSONNumeric_def)
  show "numeric (lc_show decimal n)" for n using i by (simp add: decimal_def)
  show "lc_read_bool decimal (lc_show decimal (of_bool b)) = Some b" for b
    by (cases b) (simp_all add: decimal_def show_int_def dec.simps)
  show "lc_read_i16 decimal (lc_show decimal (sint w)) = Some w" for w :: i16
    using sint_ge [of w] sint_lt [of w] by (simp add: decimal_def parse_show_word)
  show "lc_read_i32 decimal (lc_show decimal (sint w)) = Some w" for w :: i32
    using sint_ge [of w] sint_lt [of w] by (simp add: decimal_def parse_show_word)
  show "lc_read_i64 decimal (lc_show decimal (sint w)) = Some w" for w :: i64
    using sint_ge [of w] sint_lt [of w] by (simp add: decimal_def parse_show_word)
  show "lc_read_u64 decimal (lc_show decimal n) = Some (of_int n)" if "- (2 ^ 63) \<le> n" "n < 2 ^ 64" for n
    using that by (simp add: decimal_def parse_show_word)
  have h: "\<not> dfinite HUGE_VAL" "\<not> dfinite minus_HUGE_VAL" "minus_HUGE_VAL \<noteq> HUGE_VAL"
    by (simp_all add: dfinite_def HUGE_VAL_def minus_HUGE_VAL_def)
  show "numeric (lc_show_double decimal d) \<and> lc_read_double decimal (lc_show_double decimal d) = Some d"
    if "dfinite d" for d
  proof -
    have "d \<noteq> HUGE_VAL" "d \<noteq> minus_HUGE_VAL" using that h by auto
    moreover have "parse_word 0 (2 ^ 64) (show_int (uint d)) = Some (of_int (uint d) :: i64)"
      using unsigned_less [of d, where 'a = int] by (intro parse_show_word) simp_all
    then have "parse_word 0 (2 ^ 64) (dec (unat d)) = Some d" by (simp add: show_int_def)
    ultimately show ?thesis using that by (simp add: decimal_def numeric_dec)
  qed
  show "lc_show_double decimal HUGE_VAL = str ''inf''" "lc_show_double decimal minus_HUGE_VAL = str ''-inf''"
    using h by (simp_all add: decimal_def)
qed

interpretation js_mem: json_coding mem_transport mem_unread mem_room mem_written mem_inv mem_pending decimal
  by (intro json_coding.intro mem_channel.byte_channel_axioms dec.lexical_cast_axioms)

lemma js_fresh:
  "js_W mem_unread (BaseContext, []) (new_TJSONProtocol new_TMemoryBuffer)"
  "mem_written (js_trans (new_TJSONProtocol new_TMemoryBuffer)) = []"
  "n < 2 ^ 30 \<Longrightarrow> mem_room (js_trans (new_TJSONProtocol new_TMemoryBuffer)) n"
  "mem_inv m \<Longrightarrow> js_R mem_inv (BaseContext, []) (new_TJSONProtocol m)"
  "js_pending pend (new_TJSONProtocol m) = pend m"
  using new_sized_inv [of 1024] new_sized_fields [of 1024]
  by (simp_all add: js_W_def js_R_def js_pending_def new_TJSONProtocol_def new_TMemoryBuffer_def mem_unread_def
      mem_written_def mem_room_def)

section \<open>Properties\<close>

text \<open>
  C8: TJSONProtocol writes a value as exactly \<open>jval\<close>, its JSON in the given context, over
  any transport, and reads the value back (up to names and the types of empty maps), or skips it,
  from exactly this text when what follows is no part of a number. Strings go as base 64; the
  doubles are finite, infinite, or the NaN of the reader shown without a sign.
\<close>

theorem json_round_trip:
  assumes "byte_channel T winv room written rinv pending" and "lexical_cast L"
    and "wt (\<lambda>n. n < 2 ^ 31) (\<lambda>n. n < 2 ^ 32) v" and "dbls (dbl_ok L) v" and "fuel v \<le> k"
  shows "(\<forall>s n. js_W winv (c, st) s \<longrightarrow> room (js_trans s) (length (jval L c v) + n) \<longrightarrow>
      (\<exists>s'. write_val (json_protocol L T) v s = (Inr (u32 (length (jval L c v)), ()), s') \<and>
        js_W winv (nxt c, st) s' \<and> written (js_trans s') = written (js_trans s) @ jval L c v)) \<and>
    (\<forall>s rest. js_R rinv (c, st) s \<longrightarrow> js_pending pending s = jval L c v @ rest \<longrightarrow> nonnum rest \<longrightarrow>
      (\<exists>s'. read_val k (json_protocol L T) (type_of v) s = (Inr (u32 (length (jval L c v)), erase v), s') \<and>
        js_R rinv (nxt c, st) s' \<and> js_pending pending s' = rest) \<and>
      (\<exists>s'. skip k (json_protocol L T) (type_of v) s = (Inr (u32 (length (jval L c v)), ()), s') \<and>
        js_R rinv (nxt c, st) s' \<and> js_pending pending s' = rest))"
proof -
  have j: "json_coding T winv room written rinv pending L"
    using assms(1,2) by (rule json_coding.intro)
  have v: "json_coding.jwt L v" using assms(3,4) by (simp add: json_coding.jwt_def [OF j])
  note ok = json_coding.json_value [OF j v assms(5), of c st]
  show ?thesis
    using ok unfolding codec_base.emits_def codec_base.takesG_def codec_base.takesT_def by blast
qed

definition sample :: tval where
  "sample = VStruct [] [Field [] 1 (VBool True),
     Field [] 2 (VMap T_I32 T_STRING [Pair (VI32 (- 7)) (VString [1, 2])]),
     Field [] 3 (VList T_DOUBLE [VDouble HUGE_VAL])]"

lemma sample_text:
  "jval decimal BaseContext sample =
     str ''{\"1\":{\"tf\":1},\"2\":{\"map\":[\"i32\",\"str\",1,{\"-7\":\"AQI\"}]},\"3\":{\"lst\":[\"dbl\",1,\"Infinity\"]}}''"
  by (simp add: sample_def jnum_def jdbl_def jbin_def jtype_def jstr_def jopen_def jarray_def decimal_def show_int_def
      dec.simps quoted_def json_chars type_text_def str_def jchar_def kJSONCharTable_def special_text [unfolded str_def, simplified] kThriftInfinity_def
      enc64_def encode_table)

theorem json_round_trip_witness:
  "\<exists>s'. write_val (json_protocol decimal mem_transport) sample (new_TJSONProtocol new_TMemoryBuffer) =
     (Inr (88, ()), s') \<and> mem_written (js_trans s') =
     str ''{\"1\":{\"tf\":1},\"2\":{\"map\":[\"i32\",\"str\",1,{\"-7\":\"AQI\"}]},\"3\":{\"lst\":[\"dbl\",1,\"Infinity\"]}}''"
proof -
  have d: "dbl_ok decimal HUGE_VAL" by (simp add: dbl_ok_def)
  have "wt (\<lambda>n. n < 2 ^ 31) (\<lambda>n. n < 2 ^ 32) sample" "dbls (dbl_ok decimal) sample" "fuel sample \<le> 20"
    by (simp_all add: sample_def d)
  from json_round_trip [OF mem_channel.byte_channel_axioms dec.lexical_cast_axioms this, of BaseContext "[]"]
  obtain s' where "write_val (json_protocol decimal mem_transport) sample (new_TJSONProtocol new_TMemoryBuffer) =
      (Inr (u32 (length (jval decimal BaseContext sample)), ()), s')" "mem_written (js_trans s') = jval decimal BaseContext sample"
    using js_fresh(1,2) js_fresh(3) [of "length (jval decimal BaseContext sample) + 0"] sample_text
    by (force simp: str_def)
  then show ?thesis unfolding sample_text by (simp add: str_def)
qed

text \<open>
  Any string is read back by TJSONProtocol from its text in quotes, with every control
  character, quote and backslash escaped, in front of any other bytes.
\<close>

lemma json_string_round_trip:
  assumes "byte_channel T winv room written rinv pending"
  shows "(\<forall>s n. js_W winv (c, st) s \<longrightarrow> room (js_trans s) (length (jstr c t) + n) \<longrightarrow>
      (\<exists>s'. js_writeString T t s = (Inr (u32 (length (jstr c t)), ()), s') \<and> js_W winv (nxt c, st) s' \<and>
        written (js_trans s') = written (js_trans s) @ jstr c t)) \<and>
    (\<forall>s rest. js_R rinv (c, st) s \<longrightarrow> js_pending pending s = jstr c t @ rest \<longrightarrow>
      (\<exists>s'. js_readString T s = (Inr (u32 (length (jstr c t)), t), s') \<and> js_R rinv (nxt c, st) s' \<and>
        js_pending pending s' = rest))"
proof -
  have j: "json_coding T winv room written rinv pending decimal"
    using assms dec.lexical_cast_axioms by (rule json_coding.intro)
  note ok = json_coding.emits_jstr [OF j, of c st t] json_coding.takes_string(2) [OF j, where G = "\<lambda>_. True" and d = c and st = st and t = t]
  show ?thesis
    using ok unfolding codec_base.emits_def codec_base.takesG_def codec_base.takesT_def js_writeString_def js_readString_def
    by blast
qed

lemma json_string_round_trip_witness:
  "\<exists>s'. js_writeString mem_transport [34, 10, 0, 65] (new_TJSONProtocol new_TMemoryBuffer) = (Inr (13, ()), s') \<and>
     mem_written (js_trans s') = [34, 92, 34, 92, 110, 92, 117, 48, 48, 48, 48, 65, 34]"
proof -
  let ?t = "[34, 10, 0, 65] :: bytes"
  have t: "jstr BaseContext ?t = [34, 92, 34, 92, 110, 92, 117, 48, 48, 48, 48, 65, 34]"
    by (simp add: jstr_def quoted_def jchar_def json_chars kJSONCharTable_def kJSONEscapePrefix_def hexChar_def)
  have "mem_room (js_trans (new_TJSONProtocol new_TMemoryBuffer)) (length (jstr BaseContext ?t) + 0)"
    by (rule js_fresh(3)) (simp add: t)
  from conjunct1 [OF json_string_round_trip [OF mem_channel.byte_channel_axioms, of BaseContext "[]" ?t], rule_format,
      OF js_fresh(1) this]
  show ?thesis unfolding t by (auto simp: js_fresh(2))
qed

text \<open>
  The header of a message of TJSONProtocol is read back as it was written: version, name, type
  and sequence id.
\<close>

lemma json_message_round_trip:
  assumes "byte_channel T winv room written rinv pending" and "lexical_cast L" and "named_message mt"
  shows "(\<forall>s n. js_W winv (c, st) s \<longrightarrow> room (js_trans s) (length (jmessage L c name mt seqid) + n) \<longrightarrow>
      (\<exists>s'. js_writeMessageBegin L T name mt seqid s = (Inr (u32 (length (jmessage L c name mt seqid)), ()), s') \<and>
        written (js_trans s') = written (js_trans s) @ jmessage L c name mt seqid)) \<and>
    (\<forall>s rest. js_R rinv (c, st) s \<longrightarrow> js_pending pending s = jmessage L c name mt seqid @ rest \<longrightarrow> nonnum rest \<longrightarrow>
      (\<exists>s'. js_readMessageBegin L T s = (Inr (u32 (length (jmessage L c name mt seqid)), (name, mt, seqid)), s') \<and>
        js_pending pending s' = rest))"
proof -
  have j: "json_coding T winv room written rinv pending L"
    using assms(1,2) by (rule json_coding.intro)
  note ok = json_coding.json_message [OF j assms(3), where c = c and st = st and name = name and seqid = seqid]
  show ?thesis
    using ok unfolding codec_base.emits_def codec_base.takesG_def codec_base.takesT_def by blast
qed

lemma json_message_round_trip_witness:
  "\<exists>s'. js_writeMessageBegin decimal mem_transport (str ''add'') T_ONEWAY (- 1) (new_TJSONProtocol new_TMemoryBuffer) =
     (Inr (13, ()), s') \<and> mem_written (js_trans s') = str ''[1,\"add\",4,-1''"
proof -
  have "named_message T_ONEWAY" by (simp add: named_message_def)
  note ok = json_message_round_trip [OF mem_channel.byte_channel_axioms dec.lexical_cast_axioms this]
  have t: "jmessage decimal BaseContext (str ''add'') T_ONEWAY (- 1) = str ''[1,\"add\",4,-1''"
    by (simp add: jmessage_def jarray_def jnum_def jstr_def quoted_def jchar_def json_chars str_def decimal_def
        show_int_def dec.simps)
  have "mem_room (js_trans (new_TJSONProtocol new_TMemoryBuffer))
      (length (jmessage decimal BaseContext (str ''add'') T_ONEWAY (- 1)) + 0)"
    by (rule js_fresh(3)) (simp only: t, simp add: str_def)
  from conjunct1 [OF ok, rule_format, OF js_fresh(1) this]
  show ?thesis unfolding t by (auto simp: js_fresh(2) str_def)
qed

text \<open>
  A double that \<^verbatim>\<open>boost::lexical_cast\<close> shows as \<open>-nan\<close>, which it does for a NaN with the
  sign bit, is written without quotes, and the reader throws a pointer to an exception on it.
\<close>

lemma json_negative_nan_unreadable:
  assumes "byte_channel T winv room written rinv pending" and "lc_show_double L d = str ''-nan''"
    and "lc_read_double L (str ''-'') = None" and "\<not> escapeNum (nxt c)"
  shows "(\<forall>s n. js_W winv (c, st) s \<longrightarrow> room (js_trans s) (length (sep c) + 4 + n) \<longrightarrow>
      (\<exists>s'. js_writeDouble L T d s = (Inr (u32 (length (sep c) + 4), ()), s') \<and>
        written (js_trans s') = written (js_trans s) @ sep c @ str ''-nan'')) \<and>
    (\<forall>s rest. js_R rinv (c, st) s \<longrightarrow> js_pending pending s = sep c @ str ''-nan'' @ rest \<longrightarrow>
      (\<exists>s'. js_readDouble L T s = (Inl (ThrownPointer PE_INVALID_DATA), s')))"
proof -
  have j: "json_coding T winv room written rinv pending decimal"
    using assms(1) dec.lexical_cast_axioms by (rule json_coding.intro)
  note takes = codec_base.takesG_def codec_base.takesT_def
  have tx: "double_text (str ''-nan'') = (str ''-nan'', False)"
    by (simp add: double_text_def char_at_def str_def)
  have w: "codec_base.emits (js_W winv) (\<lambda>s. room (js_trans s)) (\<lambda>s. written (js_trans s)) (c, st)
      (js_writeDouble L T d) (sep c @ str ''-nan'') () (nxt c, st)"
    unfolding js_writeDouble_def writeJSONDouble_def
    by (rule codec_base.emits_bind [OF json_coding.emits_context [OF j]],
        rule codec_base.emits_state [OF _ json_coding.emits_number [OF j, where q = False and t = "str ''-nan''", simplified]])
      (use assms(2,4) tx json_coding.js_W_ctx [OF j] in auto)
  have r: "\<exists>s'. js_readDouble L T s = (Inl (ThrownPointer PE_INVALID_DATA), s')"
    if s: "js_R rinv (c, st) s" "js_pending pending s = sep c @ str ''-nan'' @ rest" for s rest
  proof -
    obtain s1 where s1: "context_read T s = (Inr (u32 (length (sep c)), ()), s1)" "js_R rinv (nxt c, st) s1"
        "js_pending pending s1 = str ''-nan'' @ rest"
      using json_coding.takes_context [OF j, of "\<lambda>_. True" c st] s unfolding takes by blast
    have "codec_base.takesG (js_R rinv) (js_pending pending) (codec_base.starts 45) (nxt c, st) (countC 0 (reader_peek T)) [] 45 (nxt c, st)"
      by (rule json_coding.takes_count0 [OF j json_coding.takes_peek [OF j]])
    then obtain s2 where s2: "countC 0 (reader_peek T) s1 = (Inr (0, 45), s2)" "js_R rinv (nxt c, st) s2"
        "js_pending pending s2 = str ''-'' @ (str ''nan'' @ rest)"
      using s1(2,3) unfolding takes by (fastforce simp: codec_base.starts_def str_def)
    have "numeric (str ''-'')" "nonnum (str ''nan'' @ rest)"
      by (simp_all add: numeric_def isJSONNumeric_def nonnum_def str_def)
    with json_coding.takes_numeric [OF j, of "str ''-''" "(nxt c, st)"] s2(2,3)
    obtain s3 where s3: "readJSONNumericChars T s2 = (Inr (u32 (length (str ''-'')), str ''-''), s3)"
      unfolding takes by blast
    have cast: "cast_text (lc_read_double L) (str ''-'') s3 = (Inl (ThrownPointer PE_INVALID_DATA), s3)"
      by (simp add: cast_text_def assms(3) throw_def)
    have top: "context_top s2 = nxt c" using json_coding.js_R_ctx [OF j s2(2)] by simp
    have n: "bindC (readJSONNumericChars T) (cast_text (lc_read_double L)) s2 = (Inl (ThrownPointer PE_INVALID_DATA), s3)"
      by (rule bindC_exc2, rule s3, rule cast)
    have "bindC (retC (0 :: nat, ())) (\<lambda>_. bindC (readJSONNumericChars T) (cast_text (lc_read_double L))) s2 =
        (Inl (ThrownPointer PE_INVALID_DATA), s3)"
      by (rule bindC_exc2, simp add: retC_def ret_def, rule n)
    moreover have "(45 :: u8) \<noteq> kJSONStringDelimiter" "\<not> escapeNum (context_top s2)"
      using assms(4) by (simp_all add: top kJSONStringDelimiter_def)
    ultimately show ?thesis
      unfolding js_readDouble_def readJSONDouble_def
      by - (rule exI [of _ s3], rule bindC_exc2, rule s1(1), rule bindC_exc2, rule s2(1), simp)
  qed
  show ?thesis
  proof (rule conjI)
    have "length (sep c @ str ''-nan'') = length (sep c) + 4" by (simp add: str_def)
    then show "\<forall>s n. js_W winv (c, st) s \<longrightarrow> room (js_trans s) (length (sep c) + 4 + n) \<longrightarrow>
      (\<exists>s'. js_writeDouble L T d s = (Inr (u32 (length (sep c) + 4), ()), s') \<and>
        written (js_trans s') = written (js_trans s) @ sep c @ str ''-nan'')"
      using w unfolding codec_base.emits_def by (simp only:) blast
  qed (use r in blast)
qed

lemma json_negative_nan_unreadable_witness:
  "\<exists>s' m t. js_writeDouble decimal mem_transport 0xFFF8000000000000 (new_TJSONProtocol new_TMemoryBuffer) =
     (Inr (4, ()), s') \<and> mem_written (js_trans s') = str ''-nan'' \<and>
     new_TMemoryBuffer_from (Some (str ''-nan,'')) 5 TAKE_OWNERSHIP = Inr m \<and>
     js_readDouble decimal mem_transport (new_TJSONProtocol m) = (Inl (ThrownPointer PE_INVALID_DATA), t)"
proof -
  let ?d = "0xFFF8000000000000 :: i64" and ?s = "new_TJSONProtocol new_TMemoryBuffer"
  have d: "lc_show_double decimal ?d = str ''-nan''"
    by (simp add: decimal_def HUGE_VAL_def minus_HUGE_VAL_def dfinite_def bit_iff_odd_drop_bit)
  have r: "lc_read_double decimal (str ''-'') = None"
    by (simp add: decimal_def parse_word_def parse_int_def parse_nat_def str_def)
  have e: "\<not> escapeNum (nxt BaseContext)" by simp
  note ok = json_negative_nan_unreadable [OF mem_channel.byte_channel_axioms d r e, of "[]"]
  have "mem_room (js_trans ?s) (length (sep BaseContext) + 4 + 0)" by (intro js_fresh(3)) simp
  with conjunct1 [OF ok, rule_format, OF js_fresh(1)] obtain s' where
    s': "js_writeDouble decimal mem_transport ?d ?s = (Inr (4, ()), s')" "mem_written (js_trans s') = str ''-nan''"
    using js_fresh(2) by fastforce
  obtain m where m: "new_TMemoryBuffer_from (Some (str ''-nan,'')) 5 TAKE_OWNERSHIP = Inr m" "mem_inv m"
      "mem_pending m = str ''-nan,''"
    using new_from_ok [of "str ''-nan,''" 5] by (auto simp: str_def)
  have "js_pending mem_pending (new_TJSONProtocol m) = sep BaseContext @ str ''-nan'' @ str '',''"
    using m by (simp add: js_fresh(5) str_def)
  with conjunct2 [OF ok, rule_format, OF js_fresh(4) [OF m(2)]] s' m(1) show ?thesis by blast
qed

end
