(* ===== verification/ParseTree.thy ===== *)
theory ParseTree
  imports ThriftPrelude "HOL-Library.Multiset"
begin

text \<open>
  The parse tree of the interface compiler (\<^verbatim>\<open>compiler/cpp/src/parse\<close>): types, fields,
  constants and the scope in which their names are looked up, with the operations that the
  grammar (\<^verbatim>\<open>thrifty.yy\<close>) uses to build them. A C++ object of these classes is built once
  and not changed after it can be shared, so it is a value here. A member that no constructor
  sets is an option, and reading it before it is set is an error of its own.
\<close>

section \<open>Errors\<close>

text \<open>
  The compiler throws a \<^verbatim>\<open>std::string\<close> or a \<^verbatim>\<open>const char*\<close>; it prints a message and exits;
  or it reads what was never set.
\<close>

datatype compile_error = ThrownString string | ThrownChars string | Exited string | ReadUninitialised

type_synonym 'a cres = "compile_error + 'a"

definition bindR :: "'a cres \<Rightarrow> ('a \<Rightarrow> 'b cres) \<Rightarrow> 'b cres" where
  "bindR r f = (case r of Inl e \<Rightarrow> Inl e | Inr x \<Rightarrow> f x)"

lemma bindR_simps [simp]: "bindR (Inr x) f = f x" "bindR (Inl e) f = Inl e"
  by (simp_all add: bindR_def)

lemma bindR_Inr_iff: "bindR r f = Inr y \<longleftrightarrow> (\<exists>x. r = Inr x \<and> f x = Inr y)"
  by (cases r) simp_all

definition initialised :: "'a option \<Rightarrow> 'a cres" where
  "initialised x = (case x of None \<Rightarrow> Inl ReadUninitialised | Some v \<Rightarrow> Inr v)"

lemma initialised_simps [simp]: "initialised (Some v) = Inr v" "initialised None = Inl ReadUninitialised"
  by (simp_all add: initialised_def)

section \<open>Enums\<close>

record t_enum_value =
  ev_name :: string
  ev_has_value :: bool
  ev_value :: i32

definition new_t_enum_value :: "string \<Rightarrow> i32 option \<Rightarrow> t_enum_value" where
  "new_t_enum_value name v = (case v of
     None \<Rightarrow> \<lparr>ev_name = name, ev_has_value = False, ev_value = 0\<rparr>
   | Some n \<Rightarrow> \<lparr>ev_name = name, ev_has_value = True, ev_value = n\<rparr>)"

definition ev_set_value :: "i32 \<Rightarrow> t_enum_value \<Rightarrow> t_enum_value" where
  "ev_set_value n v = v\<lparr>ev_has_value := True, ev_value := n\<rparr>"

record t_enum =
  en_name :: string
  en_constants :: "t_enum_value list"

definition enum_append :: "t_enum_value \<Rightarrow> t_enum \<Rightarrow> t_enum" where
  "enum_append c e = e\<lparr>en_constants := en_constants e @ [c]\<rparr>"

definition get_constant_by_name :: "t_enum \<Rightarrow> string \<Rightarrow> t_enum_value option" where
  "get_constant_by_name e name = find (\<lambda>c. ev_name c = name) (en_constants e)"

text \<open>The comparison of an \<^verbatim>\<open>int\<close> with an \<^verbatim>\<open>int64_t\<close>.\<close>

definition get_constant_by_value :: "t_enum \<Rightarrow> i64 \<Rightarrow> t_enum_value option" where
  "get_constant_by_value e n = find (\<lambda>c. sint (ev_value c) = sint n) (en_constants e)"

text \<open>
  The loop of \<^verbatim>\<open>resolve_values\<close>, over \<^verbatim>\<open>lastValue\<close>. The increment of an \<^verbatim>\<open>int\<close> at the
  end of its range is undefined; the model wraps around.
\<close>

fun resolve_from :: "i32 \<Rightarrow> t_enum_value list \<Rightarrow> t_enum_value list" where
  "resolve_from lastValue [] = []"
| "resolve_from lastValue (c # cs) =
     (if \<not> ev_has_value c then ev_set_value (lastValue + 1) c # resolve_from (lastValue + 1) cs
      else c # resolve_from (ev_value c) cs)"

definition resolve_values :: "t_enum \<Rightarrow> t_enum" where
  "resolve_values e = e\<lparr>en_constants := resolve_from (- 1) (en_constants e)\<rparr>"

section \<open>Constant values\<close>

datatype cv_type = CV_INTEGER | CV_DOUBLE | CV_STRING | CV_MAP | CV_LIST | CV_IDENTIFIER

text \<open>
  \<^verbatim>\<open>t_const_value\<close> with its members in the order of the class: a map in the order in which it is
  iterated, \<^verbatim>\<open>NULL\<close> in the pointer to the enum as \<open>Some None\<close>. Doubles are kept as their bits.
\<close>

datatype t_const_value = CV
  (mapVal: "(t_const_value \<times> t_const_value) list")
  (listVal: "t_const_value list")
  (stringVal: string)
  (intVal: "i64 option")
  (doubleVal: "i64 option")
  (identifierVal: string)
  (cv_enum: "t_enum option")
  (valType: "cv_type option")

definition new_const_value :: t_const_value where
  "new_const_value = CV [] [] '''' None None '''' None None"

fun set_string :: "string \<Rightarrow> t_const_value \<Rightarrow> t_const_value" where
  "set_string x (CV m l s i d idn e t) = CV m l x i d idn e (Some CV_STRING)"

fun set_integer :: "i64 \<Rightarrow> t_const_value \<Rightarrow> t_const_value" where
  "set_integer x (CV m l s i d idn e t) = CV m l s (Some x) d idn e (Some CV_INTEGER)"

fun set_double :: "i64 \<Rightarrow> t_const_value \<Rightarrow> t_const_value" where
  "set_double x (CV m l s i d idn e t) = CV m l s i (Some x) idn e (Some CV_DOUBLE)"

fun set_map :: "t_const_value \<Rightarrow> t_const_value" where
  "set_map (CV m l s i d idn e t) = CV m l s i d idn e (Some CV_MAP)"

fun add_map :: "t_const_value \<times> t_const_value \<Rightarrow> t_const_value \<Rightarrow> t_const_value" where
  "add_map kv (CV m l s i d idn e t) = CV (m @ [kv]) l s i d idn e t"

fun set_list :: "t_const_value \<Rightarrow> t_const_value" where
  "set_list (CV m l s i d idn e t) = CV m l s i d idn e (Some CV_LIST)"

fun add_list :: "t_const_value \<Rightarrow> t_const_value \<Rightarrow> t_const_value" where
  "add_list x (CV m l s i d idn e t) = CV m (l @ [x]) s i d idn e t"

fun set_identifier :: "string \<Rightarrow> t_const_value \<Rightarrow> t_const_value" where
  "set_identifier x (CV m l s i d idn e t) = CV m l s i d x e (Some CV_IDENTIFIER)"

fun set_enum :: "t_enum \<Rightarrow> t_const_value \<Rightarrow> t_const_value" where
  "set_enum x (CV m l s i d idn e t) = CV m l s i d idn (Some x) t"

text \<open>
  The parts of an identifier: \<open>before_dot\<close> and \<open>after_dot\<close> at the first dot, \<open>after_last_dot\<close>
  at the last one (all of it when there is none).
\<close>

definition after_dot :: "string \<Rightarrow> string option" where
  "after_dot s = (if CHR ''.'' \<in> set s then Some (tl (dropWhile (\<lambda>c. c \<noteq> CHR ''.'') s)) else None)"

definition after_last_dot :: "string \<Rightarrow> string" where
  "after_last_dot s = rev (takeWhile (\<lambda>c. c \<noteq> CHR ''.'') (rev s))"

definition get_identifier_name :: "t_const_value \<Rightarrow> string cres" where
  "get_identifier_name v =
     (case after_dot (identifierVal v) of
        None \<Rightarrow> Inl (ThrownString (''error: identifier '' @ identifierVal v @ '' is unqualified!''))
      | Some r \<Rightarrow> Inr (case after_dot r of None \<Rightarrow> r | Some r' \<Rightarrow> r'))"

definition get_identifier_with_parent :: "t_const_value \<Rightarrow> string cres" where
  "get_identifier_with_parent v =
     (case after_dot (identifierVal v) of
        None \<Rightarrow> Inl (ThrownString (''error: identifier '' @ identifierVal v @ '' is unqualified!''))
      | Some r \<Rightarrow> Inr (case after_dot r of None \<Rightarrow> identifierVal v | Some _ \<Rightarrow> r))"

text \<open>
  \<^verbatim>\<open>get_integer\<close>. No constructor sets \<^verbatim>\<open>enum_\<close>, so its comparison with \<^verbatim>\<open>NULL\<close> reads what was
  never set unless \<^verbatim>\<open>set_enum\<close> was called.
\<close>

definition get_integer :: "t_const_value \<Rightarrow> i64 cres" where
  "get_integer v =
     (if valType v = None then Inl ReadUninitialised
      else if valType v = Some CV_IDENTIFIER then
        bindR (initialised (cv_enum v)) (\<lambda>e.
        case get_constant_by_name e (after_last_dot (identifierVal v)) of
          None \<Rightarrow> Inl (ThrownString (''Unable to find enum value \"'' @ after_last_dot (identifierVal v) @
                        ''\" in enum \"'' @ en_name e @ ''\"''))
        | Some c \<Rightarrow> Inr (scast (ev_value c)))
      else initialised (intVal v))"

definition get_double :: "t_const_value \<Rightarrow> i64 cres" where
  "get_double v = initialised (doubleVal v)"

definition get_cv_type :: "t_const_value \<Rightarrow> cv_type cres" where
  "get_cv_type v = initialised (valType v)"

section \<open>Types\<close>

datatype t_base =
  TYPE_VOID | TYPE_STRING | TYPE_BOOL | TYPE_BYTE | TYPE_I16 | TYPE_I32 | TYPE_I64 | TYPE_DOUBLE

datatype e_req = T_REQUIRED | T_OPTIONAL | T_OPT_IN_REQ_OUT

text \<open>
  The subclasses of \<^verbatim>\<open>t_type\<close>: a struct or exception with its members as declared and in the
  order of their keys. A container has an empty name.
\<close>

datatype t_type =
    BaseType string t_base
  | TypedefType string t_type
  | EnumType t_enum
  | StructType string bool "t_field list" "t_field list"
  | ListType t_type
  | SetType t_type
  | MapType t_type t_type
  | ServiceType string
and t_field = Member (f_type: t_type) (f_name: string) (f_key: i32) (f_req: e_req)
  (f_value: "t_const_value option")

fun get_name :: "t_type \<Rightarrow> string" where
  "get_name (BaseType n b) = n"
| "get_name (TypedefType n t) = n"
| "get_name (EnumType e) = en_name e"
| "get_name (StructType n x ms srt) = n"
| "get_name (ServiceType n) = n"
| "get_name t = ''''"

fun is_void :: "t_type \<Rightarrow> bool" where "is_void (BaseType n b) = (b = TYPE_VOID)" | "is_void t = False"
fun is_base_type :: "t_type \<Rightarrow> bool" where "is_base_type (BaseType n b) = True" | "is_base_type t = False"
fun is_string :: "t_type \<Rightarrow> bool" where "is_string (BaseType n b) = (b = TYPE_STRING)" | "is_string t = False"
fun is_bool :: "t_type \<Rightarrow> bool" where "is_bool (BaseType n b) = (b = TYPE_BOOL)" | "is_bool t = False"
fun is_typedef :: "t_type \<Rightarrow> bool" where "is_typedef (TypedefType n t) = True" | "is_typedef t = False"
fun is_enum :: "t_type \<Rightarrow> bool" where "is_enum (EnumType e) = True" | "is_enum t = False"
fun is_struct :: "t_type \<Rightarrow> bool" where "is_struct (StructType n x ms srt) = (\<not> x)" | "is_struct t = False"
fun is_xception :: "t_type \<Rightarrow> bool" where "is_xception (StructType n x ms srt) = x" | "is_xception t = False"
fun is_list :: "t_type \<Rightarrow> bool" where "is_list (ListType t) = True" | "is_list t = False"
fun is_set_type :: "t_type \<Rightarrow> bool" where "is_set_type (SetType t) = True" | "is_set_type t = False"
fun is_map :: "t_type \<Rightarrow> bool" where "is_map (MapType k v) = True" | "is_map t = False"
fun is_service :: "t_type \<Rightarrow> bool" where "is_service (ServiceType n) = True" | "is_service t = False"

definition is_container :: "t_type \<Rightarrow> bool" where
  "is_container t \<longleftrightarrow> is_list t \<or> is_set_type t \<or> is_map t"

fun get_true_type :: "t_type \<Rightarrow> t_type" where
  "get_true_type (TypedefType n t) = get_true_type t"
| "get_true_type t = t"

fun t_base_name :: "t_base \<Rightarrow> string" where
  "t_base_name TYPE_VOID = ''void''"
| "t_base_name TYPE_STRING = ''string''"
| "t_base_name TYPE_BOOL = ''bool''"
| "t_base_name TYPE_BYTE = ''byte''"
| "t_base_name TYPE_I16 = ''i16''"
| "t_base_name TYPE_I32 = ''i32''"
| "t_base_name TYPE_I64 = ''i64''"
| "t_base_name TYPE_DOUBLE = ''double''"

section \<open>Building structs\<close>

text \<open>
  \<^verbatim>\<open>append\<close>: \<^verbatim>\<open>std::equal_range\<close> by key on the sorted members, \<^verbatim>\<open>lower\<close> and \<^verbatim>\<open>upper\<close> being its
  bounds. The declared members get the new one in any case.
\<close>

record t_struct =
  st_members :: "t_field list"
  st_sorted :: "t_field list"

definition new_t_struct :: t_struct where
  "new_t_struct = \<lparr>st_members = [], st_sorted = []\<rparr>"

definition key_compare :: "t_field \<Rightarrow> t_field \<Rightarrow> bool" where
  "key_compare a b \<longleftrightarrow> sint (f_key a) < sint (f_key b)"

definition struct_append :: "t_field \<Rightarrow> t_struct \<Rightarrow> t_struct \<times> bool" where
  "struct_append el s =
     (let s' = s\<lparr>st_members := st_members s @ [el]\<rparr>;
          lower = length (takeWhile (\<lambda>m. key_compare m el) (st_sorted s));
          upper = length (takeWhile (\<lambda>m. \<not> key_compare el m) (st_sorted s)) in
      if lower \<noteq> upper then (s', False)
      else (s'\<lparr>st_sorted := take upper (st_sorted s) @ [el] @ drop upper (st_sorted s)\<rparr>, True))"

definition get_field_by_name :: "t_field list \<Rightarrow> string \<Rightarrow> t_field option" where
  "get_field_by_name srt name = find (\<lambda>m. f_name m = name) srt"

text \<open>
  The semantic actions of \<^verbatim>\<open>FieldIdentifier\<close> and \<^verbatim>\<open>FieldList\<close>. \<open>y_field_val\<close> counts down for
  fields without a key of their own (an error if \<^verbatim>\<open>-strict\<close> is on); a key that is not positive counts as none unless negative
  keys are allowed. The value goes through an \<^verbatim>\<open>int64_t\<close> and is cut to 32 bits in the field.
\<close>

definition field_identifier :: "bool \<Rightarrow> i64 option \<Rightarrow> i32 \<Rightarrow> (i64 \<times> bool) \<times> i32" where
  "field_identifier allow_neg_field_keys key y_field_val =
     (case key of
        None \<Rightarrow> ((scast y_field_val, True), y_field_val - 1)
      | Some k \<Rightarrow>
          if sint k \<le> 0 then
            (if allow_neg_field_keys then ((k, False), ucast (k - 1))
             else ((scast y_field_val, True), y_field_val - 1))
          else ((k, False), y_field_val))"

text \<open>A field as it is parsed; a default value is resolved and checked before it gets there.\<close>

record parsed_field =
  pf_key :: "i64 option"
  pf_req :: e_req
  pf_type :: t_type
  pf_name :: string
  pf_value :: "t_const_value option"

definition field_list_step :: "int \<Rightarrow> bool \<Rightarrow> parsed_field \<Rightarrow> t_struct \<times> i32 \<Rightarrow> (t_struct \<times> i32) cres" where
  "field_list_step strict allow_neg p = (\<lambda>(s, y).
     case field_identifier allow_neg (pf_key p) y of ((k, auto_assigned), y') \<Rightarrow>
       if auto_assigned \<and> strict \<ge> 192
       then Inl (Exited ''Implicit field keys are deprecated and not allowed with -strict'')
       else let el = Member (pf_type p) (pf_name p) (ucast k) (pf_req p) (pf_value p) in
       case struct_append el s of (s', ok) \<Rightarrow>
         if ok then Inr (s', y')
         else Inl (Exited (''Field identifier for '' @ pf_name p @ '' has already been used'')))"

fun field_list_from :: "int \<Rightarrow> bool \<Rightarrow> parsed_field list \<Rightarrow> t_struct \<times> i32 \<Rightarrow> (t_struct \<times> i32) cres" where
  "field_list_from strict allow_neg [] s = Inr s"
| "field_list_from strict allow_neg (p # ps) s =
     bindR (field_list_step strict allow_neg p s) (field_list_from strict allow_neg ps)"

definition field_list :: "int \<Rightarrow> bool \<Rightarrow> parsed_field list \<Rightarrow> t_struct cres" where
  "field_list strict allow_neg ps = bindR (field_list_from strict allow_neg ps (new_t_struct, - 1)) (\<lambda>(s, y). Inr s)"

section \<open>Services\<close>

record t_function =
  fn_name :: string
  fn_returntype :: t_type
  fn_arglist :: t_struct
  fn_xceptions :: t_struct
  fn_oneway :: bool

definition new_t_function :: "t_type \<Rightarrow> string \<Rightarrow> t_struct \<Rightarrow> t_struct \<Rightarrow> bool \<Rightarrow> t_function cres" where
  "new_t_function returntype name arglist xceptions oneway =
     (if oneway \<and> st_members xceptions \<noteq> [] then Inl (ThrownString ''Oneway methods can't throw exceptions.'')
      else Inr \<lparr>fn_name = name, fn_returntype = returntype, fn_arglist = arglist,
                fn_xceptions = xceptions, fn_oneway = oneway\<rparr>)"

definition add_function :: "t_function \<Rightarrow> t_function list \<Rightarrow> t_function list cres" where
  "add_function func functions =
     (if \<exists>f \<in> set functions. fn_name func = fn_name f
      then Inl (ThrownString (''Function '' @ fn_name func @ '' is already defined''))
      else Inr (functions @ [func]))"

section \<open>Scopes\<close>

record t_const =
  co_type :: t_type
  co_name :: string
  co_value :: t_const_value

type_synonym t_scope = "string \<Rightarrow> t_const option"

definition add_constant :: "string \<Rightarrow> t_const \<Rightarrow> t_scope \<Rightarrow> t_scope cres" where
  "add_constant name c scope =
     (if scope name \<noteq> None then Inl (ThrownString (''Enum '' @ name @ '' is already defined!''))
      else Inr (scope(name \<mapsto> c)))"

text \<open>The constants that the action of \<^verbatim>\<open>Enum\<close> adds, for each value \<open>Enum.NAME\<close> of type \<^verbatim>\<open>i32\<close>
  (to the scope of an including program they go by the same operation, under a prefix).\<close>

fun add_enum_constants :: "t_enum \<Rightarrow> t_enum_value list \<Rightarrow> t_scope \<Rightarrow> t_scope cres" where
  "add_enum_constants e [] scope = Inr scope"
| "add_enum_constants e (c # cs) scope =
     (let v = set_enum e (set_integer (scast (ev_value c)) new_const_value) in
      bindR (add_constant (en_name e @ ''.'' @ ev_name c)
        \<lparr>co_type = BaseType ''i32'' TYPE_I32, co_name = ev_name c, co_value = v\<rparr> scope)
      (add_enum_constants e cs))"


section \<open>Members in the order of their keys\<close>

abbreviation keys :: "t_field list \<Rightarrow> int list" where
  "keys ms \<equiv> map (\<lambda>m. sint (f_key m)) ms"

text \<open>The invariant of a struct: its sorted members are its members, strictly ascending by key.\<close>

definition struct_inv :: "t_struct \<Rightarrow> bool" where
  "struct_inv s \<longleftrightarrow> mset (st_sorted s) = mset (st_members s) \<and> sorted_wrt (<) (keys (st_sorted s))"

lemma sorted_split:
  "sorted_wrt (<) (map h ms) \<Longrightarrow> takeWhile (\<lambda>m. h m < (k :: int)) ms = filter (\<lambda>m. h m < k) ms \<and>
     takeWhile (\<lambda>m. \<not> k < h m) ms = filter (\<lambda>m. h m \<le> k) ms \<and>
     drop (length (takeWhile (\<lambda>m. \<not> k < h m) ms)) ms = filter (\<lambda>m. k < h m) ms"
proof (induction ms)
  case (Cons m ms)
  have "filter (\<lambda>x. h x < k) ms = [] \<and> filter (\<lambda>x. h x \<le> k) ms = [] \<and> filter (\<lambda>x. k < h x) ms = ms" if "k < h m"
    using Cons.prems that by (auto simp: filter_empty_conv filter_id_conv)
  moreover have "filter (\<lambda>x. h x < k) ms = [] \<and> filter (\<lambda>x. h x \<le> k) ms = []" if "k = h m"
    using Cons.prems that by (auto simp: filter_empty_conv)
  ultimately show ?case using Cons by (cases "h m" k rule: linorder_cases) auto
qed simp

lemma length_le_split:
  "length (filter (\<lambda>m. h m \<le> (k :: int)) ms) = length (filter (\<lambda>m. h m < k) ms) + length (filter (\<lambda>m. h m = k) ms)"
  by (induction ms) auto

lemma struct_append_ok:
  fixes el :: t_field
  assumes "struct_inv s"
  defines "r \<equiv> struct_append el s"
  shows "snd r \<longleftrightarrow> sint (f_key el) \<notin> set (keys (st_members s))"
    and "st_members (fst r) = st_members s @ [el]"
    and "snd r \<Longrightarrow> struct_inv (fst r)"
proof -
  let ?k = "sint (f_key el)" and ?ms = "st_sorted s"
  have srt: "sorted_wrt (<) (keys ?ms)" and ms: "mset ?ms = mset (st_members s)"
    using assms(1) by (simp_all add: struct_inv_def)
  note split = sorted_split [OF srt, of ?k, THEN conjunct1] sorted_split [OF srt, of ?k, THEN conjunct2, THEN conjunct1]
    sorted_split [OF srt, of ?k, THEN conjunct2, THEN conjunct2]
  have "set ?ms = set (st_members s)" using ms by (rule mset_eq_setD)
  moreover note len = length_le_split [of "\<lambda>m. sint (f_key m)" ?k ?ms]
  ultimately have eq: "snd r \<longleftrightarrow> ?k \<notin> set (keys (st_members s))"
    unfolding r_def struct_append_def Let_def key_compare_def split(1,2)
    by (auto simp: filter_empty_conv) (metis (mono_tags, lifting) imageI)
  then show "snd r \<longleftrightarrow> ?k \<notin> set (keys (st_members s))" .
  show "st_members (fst r) = st_members s @ [el]"
    by (simp add: r_def struct_append_def Let_def)
  show "struct_inv (fst r)" if "snd r"
  proof -
    let ?l = "filter (\<lambda>m. sint (f_key m) < ?k) ?ms" and ?u = "filter (\<lambda>m. ?k < sint (f_key m)) ?ms"
    have "?k \<notin> set (keys ?ms)" using that eq \<open>set ?ms = set (st_members s)\<close> by auto
    then have nk: "\<forall>x \<in> set ?ms. sint (f_key x) \<noteq> ?k" by (metis (mono_tags, lifting) imageI list.set_map)
    then have le: "filter (\<lambda>m. sint (f_key m) \<le> ?k) ?ms = ?l"
      by (intro filter_cong) (auto simp: le_less)
    have "take (length (takeWhile (\<lambda>m. \<not> ?k < sint (f_key m)) ?ms)) ?ms = ?l"
      by (metis le split(2) takeWhile_eq_take)
    then have f: "st_sorted (fst r) = ?l @ [el] @ ?u"
      using that split(3) by (auto simp: r_def struct_append_def Let_def key_compare_def split: if_splits)
    have "mset ?l + mset ?u = mset ?ms"
    proof -
      have "filter (\<lambda>m. \<not> sint (f_key m) < ?k) ?ms = ?u"
        using nk by (intro filter_cong) (auto simp: not_less le_less)
      then show ?thesis by (metis mset_filter multiset_partition)
    qed
    moreover have "sorted_wrt (<) (keys (?l @ [el] @ ?u))"
      using srt by (auto simp: sorted_wrt_append sorted_wrt_map intro: sorted_wrt_filter)
    ultimately show ?thesis
      using ms f \<open>st_members (fst r) = st_members s @ [el]\<close> by (auto simp: struct_inv_def)
  qed
qed

lemma new_t_struct_inv: "struct_inv new_t_struct"
  by (simp add: struct_inv_def new_t_struct_def)

text \<open>
  What the keys of an accepted list are to be. A field declares its key if one is given and it is
  positive or keys that are not positive are allowed. A field that does not gets the next number of a
  count-down from 0, which goes on from the last key before it that was not a declared positive one.
\<close>

definition declared_key :: "bool \<Rightarrow> parsed_field \<Rightarrow> i64 option" where
  "declared_key allow_neg p =
     (case pf_key p of None \<Rightarrow> None | Some k \<Rightarrow> if 0 < sint k \<or> allow_neg then Some k else None)"

definition counted_down :: "parsed_field list \<Rightarrow> t_field list \<Rightarrow> i32 list" where
  "counted_down ps ms = map (\<lambda>(p, m). f_key m)
     (filter (\<lambda>(p, m). case pf_key p of None \<Rightarrow> True | Some k \<Rightarrow> sint k \<le> 0) (zip ps ms))"

definition key_to_be :: "bool \<Rightarrow> parsed_field list \<Rightarrow> t_field list \<Rightarrow> parsed_field \<Rightarrow> i32" where
  "key_to_be allow_neg ps ms p =
     (case declared_key allow_neg p of Some k \<Rightarrow> ucast k | None \<Rightarrow> last (0 # counted_down ps ms) - 1)"

definition as_declared :: "bool \<Rightarrow> parsed_field list \<Rightarrow> t_field list \<Rightarrow> bool" where
  "as_declared allow_neg ps ms \<longleftrightarrow> length ms = length ps \<and> (\<forall>i < length ps.
     ms ! i = Member (pf_type (ps ! i)) (pf_name (ps ! i)) (key_to_be allow_neg (take i ps) (take i ms) (ps ! i))
       (pf_req (ps ! i)) (pf_value (ps ! i)))"

lemma as_declared_snoc:
  assumes "as_declared allow ps ms"
    and "m = Member (pf_type p) (pf_name p) (key_to_be allow ps ms p) (pf_req p) (pf_value p)"
  shows "as_declared allow (ps @ [p]) (ms @ [m])"
  using assms by (auto simp: as_declared_def nth_append less_Suc_eq)

lemma counted_down_snoc:
  "length ms = length ps \<Longrightarrow> counted_down (ps @ [p]) (ms @ [m]) = counted_down ps ms @
     (if (case pf_key p of None \<Rightarrow> True | Some k \<Rightarrow> sint k \<le> 0) then [f_key m] else [])"
  by (auto simp: counted_down_def split: option.split)

lemma ucast_pred: "(ucast (k - 1 :: i64) :: i32) = ucast k - 1"
proof -
  have cut: "take_bit 32 (take_bit 64 (k - 1)) = take_bit 32 (take_bit 64 k - 1)" for k :: int
  proof -
    have "take_bit 32 (take_bit 64 (k - 1)) = take_bit 32 (k - 1)"
      by (simp add: take_bit_take_bit)
    also have "\<dots> = take_bit 32 (take_bit 32 k - take_bit 32 1)" by (simp only: take_bit_diff)
    also have "take_bit 32 k = take_bit 32 (take_bit 64 k)" by (simp add: take_bit_take_bit)
    also have "take_bit 32 (take_bit 32 (take_bit 64 k) - take_bit 32 1) = take_bit 32 (take_bit 64 k - 1)"
      by (simp only: take_bit_diff)
    finally show ?thesis .
  qed
  show ?thesis using cut by transfer simp
qed

lemma field_identifier_key:
  assumes "field_identifier allow (pf_key p) y = ((k, auto), y')" and "y = last (0 # counted_down ps ms) - 1"
    and "length ms = length ps" and "f_key m = ucast k"
  shows "ucast k = key_to_be allow ps ms p" and "y' = last (0 # counted_down (ps @ [p]) (ms @ [m])) - 1"
    and "auto \<longleftrightarrow> declared_key allow p = None"
proof -
  have cut: "(ucast (scast y :: i64) :: i32) = y" by (rule bit_word_eqI) (simp add: bit_simps)
  show "ucast k = key_to_be allow ps ms p" "auto \<longleftrightarrow> declared_key allow p = None"
    "y' = last (0 # counted_down (ps @ [p]) (ms @ [m])) - 1"
    using assms cut
    by (auto simp: field_identifier_def key_to_be_def declared_key_def counted_down_snoc ucast_pred
        split: option.splits if_splits)
qed

lemma field_list_from_inv:
  assumes "struct_inv (fst sy)" and "as_declared allow qs (st_members (fst sy))"
    and "snd sy = last (0 # counted_down qs (st_members (fst sy))) - 1"
    and "field_list_from strict allow ps sy = Inr (s', y')"
  shows "struct_inv s' \<and> as_declared allow (qs @ ps) (st_members s') \<and>
    (192 \<le> strict \<longrightarrow> (\<forall>p \<in> set ps. declared_key allow p \<noteq> None))"
  using assms
proof (induction ps arbitrary: sy qs)
  case (Cons p ps)
  obtain s y where sy: "sy = (s, y)" by (cases sy)
  obtain k a y1 where id: "field_identifier allow (pf_key p) y = ((k, a), y1)" by (metis prod.exhaust)
  let ?el = "Member (pf_type p) (pf_name p) (ucast k) (pf_req p) (pf_value p)"
  obtain s1 ok where ap: "struct_append ?el s = (s1, ok)" by (cases "struct_append ?el s")
  have ok: "ok" "\<not> (a \<and> 192 \<le> strict)" and rest: "field_list_from strict allow ps (s1, y1) = Inr (s', y')"
    using Cons.prems(4) by (auto simp: sy id ap field_list_step_def Let_def split: if_splits)
  have s1: "struct_inv s1" "st_members s1 = st_members s @ [?el]"
    using struct_append_ok [of s ?el] Cons.prems(1) ok by (simp_all add: sy ap)
  have len: "length (st_members s) = length qs" using Cons.prems(2) by (simp add: sy as_declared_def)
  have y: "y = last (0 # counted_down qs (st_members s)) - 1" using Cons.prems(3) by (simp add: sy)
  note key = field_identifier_key [OF id y len, of ?el, simplified]
  have "as_declared allow (qs @ [p]) (st_members s1)"
    unfolding s1(2) by (rule as_declared_snoc) (use Cons.prems(2) key(1) in \<open>simp_all add: sy\<close>)
  moreover have "y1 = last (0 # counted_down (qs @ [p]) (st_members s1)) - 1" using key(2) s1(2) by simp
  ultimately have "struct_inv s' \<and> as_declared allow ((qs @ [p]) @ ps) (st_members s') \<and>
      (192 \<le> strict \<longrightarrow> (\<forall>p \<in> set ps. declared_key allow p \<noteq> None))"
    using s1(1) rest by (intro Cons.IH) simp_all
  with key(3) ok(2) show ?case by auto
qed simp

lemma field_list_inv:
  assumes "field_list strict allow ps = Inr s"
  shows "struct_inv s \<and> as_declared allow ps (st_members s) \<and>
    (192 \<le> strict \<longrightarrow> (\<forall>p \<in> set ps. declared_key allow p \<noteq> None))"
proof -
  obtain y where "field_list_from strict allow ps (new_t_struct, - 1) = Inr (s, y)"
    using assms by (auto simp: field_list_def bindR_Inr_iff)
  from field_list_from_inv [OF _ _ _ this, of "[]"] new_t_struct_inv show ?thesis
    by (simp add: as_declared_def counted_down_def new_t_struct_def)
qed

section \<open>Properties\<close>

text \<open>
  C31: a field list that the compiler accepts gives a struct with the fields as declared: in order,
  each with its type, name, requiredness and default value, and with its declared key (cut to 32
  bits), or without one the next key of the count-down; with \<^verbatim>\<open>-strict\<close> every key is declared. No
  two fields of a struct have the same key, whether it was given or assigned, and its sorted members
  are the same fields in strictly ascending order of their keys.
\<close>

theorem field_list_keys_distinct:
  assumes "field_list strict allow_neg ps = Inr s"
  shows "as_declared allow_neg ps (st_members s) \<and>
    (192 \<le> strict \<longrightarrow> (\<forall>p \<in> set ps. declared_key allow_neg p \<noteq> None)) \<and>
    mset (st_sorted s) = mset (st_members s) \<and>
    sorted_wrt (<) (map (\<lambda>m. sint (f_key m)) (st_sorted s)) \<and>
    distinct (map (\<lambda>m. sint (f_key m)) (st_members s))"
proof -
  note inv = field_list_inv [OF assms]
  then have m: "mset (st_sorted s) = mset (st_members s)" and srt: "sorted_wrt (<) (keys (st_sorted s))"
    by (simp_all add: struct_inv_def)
  have "distinct (keys (st_sorted s))" using srt by (metis strict_sorted_iff)
  moreover have "mset (keys (st_sorted s)) = mset (keys (st_members s))" using m by simp
  ultimately have "distinct (keys (st_members s))" by (metis mset_eq_imp_distinct_iff)
  with inv m srt show ?thesis by simp
qed

theorem field_list_keys_distinct_witness:
  "\<exists>s. field_list 0 False
      [\<lparr>pf_key = Some 2, pf_req = T_REQUIRED, pf_type = BaseType ''i32'' TYPE_I32, pf_name = ''b'', pf_value = None\<rparr>,
       \<lparr>pf_key = None, pf_req = T_OPTIONAL, pf_type = BaseType ''i32'' TYPE_I32, pf_name = ''a'', pf_value = None\<rparr>] = Inr s \<and>
     map (\<lambda>m. sint (f_key m)) (st_sorted s) = [- 1, 2] \<and> distinct (map (\<lambda>m. sint (f_key m)) (st_members s))"
proof -
  let ?ps = "[\<lparr>pf_key = Some 2, pf_req = T_REQUIRED, pf_type = BaseType ''i32'' TYPE_I32, pf_name = ''b'', pf_value = None\<rparr>,
       \<lparr>pf_key = None, pf_req = T_OPTIONAL, pf_type = BaseType ''i32'' TYPE_I32, pf_name = ''a'', pf_value = None\<rparr>]"
  have cut: "ucast (- 1 :: i64) = (- 1 :: i32)"
    by (rule bit_word_eqI) (simp add: bit_simps)
  let ?b = "Member (BaseType ''i32'' TYPE_I32) ''b'' 2 T_REQUIRED None"
    and ?a = "Member (BaseType ''i32'' TYPE_I32) ''a'' (- 1) T_OPTIONAL None"
  have b: "struct_append ?b new_t_struct = (\<lparr>st_members = [?b], st_sorted = [?b]\<rparr>, True)"
    by (simp add: struct_append_def new_t_struct_def)
  have a: "struct_append ?a \<lparr>st_members = [?b], st_sorted = [?b]\<rparr> =
      (\<lparr>st_members = [?b, ?a], st_sorted = [?a, ?b]\<rparr>, True)"
    by (simp add: struct_append_def key_compare_def)
  have s: "field_list 0 False ?ps = Inr \<lparr>st_members = [?b, ?a], st_sorted = [?a, ?b]\<rparr>"
    by (simp add: field_list_def field_list_step_def field_identifier_def cut a b Let_def)
  from field_list_keys_distinct [OF s] s show ?thesis
    by (intro exI [of _ "\<lparr>st_members = [?b, ?a], st_sorted = [?a, ?b]\<rparr>"]) (simp only: simp_thms, simp)
qed

lemma resolve_from_values:
  "map ev_value (resolve_from l cs) = map2 (\<lambda>c last. if ev_has_value c then ev_value c else last + 1) cs
     (l # map ev_value (resolve_from l cs)) \<and>
   map ev_name (resolve_from l cs) = map ev_name cs \<and> list_all ev_has_value (resolve_from l cs)"
  by (induction l cs rule: resolve_from.induct) (auto simp: ev_set_value_def)

text \<open>
  After \<^verbatim>\<open>resolve_values\<close> every constant of an enum has a value, the one it was given or one
  more than that of the constant before it, the first starting from 0; names and order stay.
\<close>

lemma enum_values_resolved:
  "let cs = en_constants e; cs' = en_constants (resolve_values e) in
     map ev_value cs' = map2 (\<lambda>c last. if ev_has_value c then ev_value c else last + 1) cs (- 1 # map ev_value cs') \<and>
     map ev_name cs' = map ev_name cs \<and> list_all ev_has_value cs'"
  using resolve_from_values [of "- 1" "en_constants e"] by (simp add: resolve_values_def)

end
