(* ===== verification/ConstTyping.thy ===== *)
theory ConstTyping
  imports ParseTree
begin

text \<open>
  Constants and default values against their declared types: \<^verbatim>\<open>t_scope::resolve_const_value\<close>,
  which replaces identifiers by what they name, and \<^verbatim>\<open>validate_const_rec\<close> of \<^verbatim>\<open>main.cc\<close>, which
  checks the result. What the check is meant to decide is stated as a typing judgement.
\<close>

section \<open>Resolving identifiers\<close>

text \<open>What an identifier that names a constant becomes, by the true type of the constant.\<close>

definition copy_constant :: "t_const \<Rightarrow> t_const_value \<Rightarrow> t_const_value cres" where
  "copy_constant constant v =
     (case get_true_type (co_type constant) of
        BaseType _ TYPE_STRING \<Rightarrow> Inr (set_string (stringVal (co_value constant)) v)
      | BaseType _ TYPE_DOUBLE \<Rightarrow> bindR (get_double (co_value constant)) (\<lambda>d. Inr (set_double d v))
      | BaseType _ TYPE_VOID \<Rightarrow> Inl (ThrownChars ''Constants cannot be of type VOID'')
      | BaseType _ _ \<Rightarrow> bindR (get_integer (co_value constant)) (\<lambda>n. Inr (set_integer n v))
      | MapType _ _ \<Rightarrow> Inr (fold add_map (mapVal (co_value constant)) (set_map v))
      | ListType _ \<Rightarrow> Inr (fold add_list (listVal (co_value constant)) (set_list v))
      | _ \<Rightarrow> Inr v)"

text \<open>The number as \<^verbatim>\<open>ostream << int64_t\<close> prints it; it only goes into a message.\<close>

fun show_nat :: "nat \<Rightarrow> string" where
  "show_nat n = (if n < 10 then [char_of (48 + n)] else show_nat (n div 10) @ [char_of (48 + n mod 10)])"

declare show_nat.simps [simp del]

definition show_i64 :: "int \<Rightarrow> string" where
  "show_i64 n = (if n < 0 then CHR ''-'' # show_nat (nat (- n)) else show_nat (nat n))"

text \<open>The types without parts, where the value itself is looked at.\<close>

definition resolve_leaf :: "t_scope \<Rightarrow> t_type \<Rightarrow> t_const_value \<Rightarrow> t_const_value cres" where
  "resolve_leaf scope ttype v =
     bindR (get_cv_type v) (\<lambda>vt.
     if vt = CV_IDENTIFIER then
       (case ttype of
          EnumType en \<Rightarrow> Inr (set_enum en v)
        | _ \<Rightarrow>
          (case scope (identifierVal v) of
             None \<Rightarrow> Inl (ThrownString (''No enum value or constant found named \"'' @ identifierVal v @ ''\"!''))
           | Some constant \<Rightarrow> copy_constant constant v))
     else
       (case ttype of
          EnumType en \<Rightarrow>
            bindR (get_integer v) (\<lambda>n.
            case get_constant_by_value en n of
              None \<Rightarrow> Inl (ThrownString (''Couldn't find a named value in enum '' @ en_name en @
                        '' for value '' @ show_i64 (sint n)))
            | Some c \<Rightarrow> Inr (set_enum en (set_identifier (en_name en @ ''.'' @ ev_name c) v)))
        | _ \<Rightarrow> Inr v))"

text \<open>A set is cast to \<^verbatim>\<open>t_list\<close> and its element type read through it, the two classes being laid out alike.\<close>

function (sequential) resolve_const_value :: "t_scope \<Rightarrow> t_type \<Rightarrow> t_const_value \<Rightarrow> t_const_value cres"
  and resolve_pairs :: "t_scope \<Rightarrow> t_type \<Rightarrow> t_type \<Rightarrow> (t_const_value \<times> t_const_value) list \<Rightarrow>
    (t_const_value \<times> t_const_value) list cres"
  and resolve_elems :: "t_scope \<Rightarrow> t_type \<Rightarrow> t_const_value list \<Rightarrow> t_const_value list cres"
  and resolve_members :: "t_scope \<Rightarrow> string \<Rightarrow> t_field list \<Rightarrow> (t_const_value \<times> t_const_value) list \<Rightarrow>
    (t_const_value \<times> t_const_value) list cres" where
  "resolve_const_value scope ttype (CV m l s i d idn e t) =
     (case ttype of
        MapType k w \<Rightarrow> bindR (resolve_pairs scope k w m) (\<lambda>m'. Inr (CV m' l s i d idn e t))
      | ListType el \<Rightarrow> bindR (resolve_elems scope el l) (\<lambda>l'. Inr (CV m l' s i d idn e t))
      | SetType el \<Rightarrow> bindR (resolve_elems scope el l) (\<lambda>l'. Inr (CV m l' s i d idn e t))
      | StructType n xception ms srt \<Rightarrow>
          (if \<not> xception then bindR (resolve_members scope n srt m) (\<lambda>m'. Inr (CV m' l s i d idn e t))
           else resolve_leaf scope ttype (CV m l s i d idn e t))
      | _ \<Rightarrow> resolve_leaf scope ttype (CV m l s i d idn e t))"
| "resolve_pairs scope k w [] = Inr []"
| "resolve_pairs scope k w ((a, b) # m) =
     bindR (resolve_const_value scope k a) (\<lambda>a'.
     bindR (resolve_const_value scope w b) (\<lambda>b'.
     bindR (resolve_pairs scope k w m) (\<lambda>m'. Inr ((a', b') # m'))))"
| "resolve_elems scope el [] = Inr []"
| "resolve_elems scope el (a # l) =
     bindR (resolve_const_value scope el a) (\<lambda>a'.
     bindR (resolve_elems scope el l) (\<lambda>l'. Inr (a' # l')))"
| "resolve_members scope n srt [] = Inr []"
| "resolve_members scope n srt ((a, b) # m) =
     (case get_field_by_name srt (stringVal a) of
        None \<Rightarrow> Inl (ThrownString (''No field named \"'' @ stringVal a @ ''\" was found in struct of type \"'' @ n @ ''\"''))
      | Some f \<Rightarrow>
          bindR (resolve_const_value scope (f_type f) b) (\<lambda>b'.
          bindR (resolve_members scope n srt m) (\<lambda>m'. Inr ((a, b') # m'))))"
  by pat_completeness auto
termination
  by (relation "measure (\<lambda>x. case x of
       Inl (Inl (scope, ttype, v)) \<Rightarrow> size v
     | Inl (Inr (scope, k, w, m)) \<Rightarrow> size_list (size_prod size size) m
     | Inr (Inl (scope, el, l)) \<Rightarrow> size_list size l
     | Inr (Inr (scope, n, srt, m)) \<Rightarrow> size_list (size_prod size size) m)") auto

section \<open>The check\<close>

definition type_error :: "string \<Rightarrow> string \<Rightarrow> 'a cres" where
  "type_error name kind = Inl (ThrownString (''type error: const \"'' @ name @ ''\" was declared as '' @ kind))"

text \<open>The value types that a base type admits.\<close>

fun base_admits :: "t_base \<Rightarrow> cv_type \<Rightarrow> bool" where
  "base_admits TYPE_STRING t = (t = CV_STRING)"
| "base_admits TYPE_DOUBLE t = (t = CV_INTEGER \<or> t = CV_DOUBLE)"
| "base_admits TYPE_VOID t = False"
| "base_admits b t = (t = CV_INTEGER)"

text \<open>The last field of that name: the loop has no \<^verbatim>\<open>break\<close>.\<close>

definition last_field_type :: "t_field list \<Rightarrow> string \<Rightarrow> t_type option" where
  "last_field_type ms name = map_option f_type (find (\<lambda>m. f_name m = name) (rev ms))"

function (sequential) validate_const_rec :: "string \<Rightarrow> t_type \<Rightarrow> t_const_value \<Rightarrow> unit cres"
  and validate_members :: "string \<Rightarrow> string \<Rightarrow> t_field list \<Rightarrow> (t_const_value \<times> t_const_value) list \<Rightarrow> unit cres"
  and validate_pairs :: "string \<Rightarrow> t_type \<Rightarrow> t_type \<Rightarrow> (t_const_value \<times> t_const_value) list \<Rightarrow> unit cres"
  and validate_elems :: "string \<Rightarrow> t_type \<Rightarrow> t_const_value list \<Rightarrow> unit cres" where
  "validate_const_rec name ttype (CV m l s i d idn e t) =
     (let v = CV m l s i d idn e t in
      if is_void ttype then Inl (ThrownString (''type error: cannot declare a void const: '' @ name))
      else case ttype of
        BaseType n b \<Rightarrow>
          bindR (get_cv_type v) (\<lambda>vt. if base_admits b vt then Inr () else type_error name (t_base_name b))
      | EnumType en \<Rightarrow>
          bindR (get_cv_type v) (\<lambda>vt.
          if vt \<noteq> CV_IDENTIFIER then type_error name ''enum''
          else
            bindR (get_identifier_name v) (\<lambda>name_portion.
            if \<exists>c \<in> set (en_constants en). ev_name c = name_portion then Inr ()
            else Inl (ThrownString (''type error: const '' @ name @ '' was declared as type '' @ en_name en @
                   '' which is an enum, but '' @ idn @ '' is not a valid value for that enum''))))
      | StructType n x ms srt \<Rightarrow>
          bindR (get_cv_type v) (\<lambda>vt.
          if vt \<noteq> CV_MAP then type_error name ''struct/xception'' else validate_members name n ms m)
      | MapType k w \<Rightarrow> validate_pairs name k w m
      | ListType el \<Rightarrow> validate_elems name el l
      | SetType el \<Rightarrow> validate_elems name el l
      | TypedefType n ty \<Rightarrow> Inr ()
      | ServiceType n \<Rightarrow> Inr ())"
| "validate_members name n ms [] = Inr ()"
| "validate_members name n ms ((a, b) # m) =
     bindR (get_cv_type a) (\<lambda>at.
     if at \<noteq> CV_STRING then Inl (ThrownString (''type error: '' @ name @ '' struct key must be string''))
     else case last_field_type ms (stringVal a) of
        None \<Rightarrow> Inl (ThrownString (''type error: '' @ n @ '' has no field '' @ stringVal a))
      | Some field_type \<Rightarrow>
          bindR (validate_const_rec (name @ ''.'' @ stringVal a) field_type b) (\<lambda>_.
          validate_members name n ms m))"
| "validate_pairs name k w [] = Inr ()"
| "validate_pairs name k w ((a, b) # m) =
     bindR (validate_const_rec (name @ ''<key>'') k a) (\<lambda>_.
     bindR (validate_const_rec (name @ ''<val>'') w b) (\<lambda>_.
     validate_pairs name k w m))"
| "validate_elems name el [] = Inr ()"
| "validate_elems name el (a # l) =
     bindR (validate_const_rec (name @ ''<elem>'') el a) (\<lambda>_. validate_elems name el l)"
  by pat_completeness auto
termination
  by (relation "measure (\<lambda>x. case x of
       Inl (Inl (name, ttype, v)) \<Rightarrow> size v
     | Inl (Inr (name, n, ms, m)) \<Rightarrow> size_list (size_prod size size) m
     | Inr (Inl (name, k, w, m)) \<Rightarrow> size_list (size_prod size size) m
     | Inr (Inr (name, el, l)) \<Rightarrow> size_list size l)") auto

definition validate_const_type :: "t_const \<Rightarrow> unit cres" where
  "validate_const_type c = validate_const_rec (co_name c) (co_type c) (co_value c)"

definition validate_field_value :: "t_field \<Rightarrow> t_const_value \<Rightarrow> unit cres" where
  "validate_field_value field cv = validate_const_rec (f_name field) (f_type field) cv"

definition validate_throws :: "t_field list \<Rightarrow> bool" where
  "validate_throws members = list_all (\<lambda>m. is_xception (get_true_type (f_type m))) members"

text \<open>
  The semantic action of \<^verbatim>\<open>Const\<close> in the mode that keeps a program: \<open>parent\<close> is the prefix and the
  scope of the program that includes this one, if there is one, which gets the constant as well.
\<close>

definition define_const ::
  "t_type \<Rightarrow> string \<Rightarrow> t_const_value \<Rightarrow> t_scope \<Rightarrow> (string \<times> t_scope) option \<Rightarrow>
    (t_scope \<times> (string \<times> t_scope) option) cres" where
  "define_const ty name v scope parent =
     bindR (resolve_const_value scope ty v) (\<lambda>v'.
     let c = \<lparr>co_type = ty, co_name = name, co_value = v'\<rparr> in
     bindR (validate_const_type c) (\<lambda>_.
     bindR (add_constant name c scope) (\<lambda>scope'.
     case parent of
       None \<Rightarrow> Inr (scope', None)
     | Some (prefix, ps) \<Rightarrow> bindR (add_constant (prefix @ name) c ps) (\<lambda>ps'. Inr (scope', Some (prefix, ps'))))))"


section \<open>What a constant of a type is\<close>

text \<open>
  \<open>has_type ty v\<close>: the value is one of the type. A boolean and every integer type take an integer,
  a string a string, a double an integer or a double, and \<^verbatim>\<open>void\<close> nothing. A value of an enum is an
  identifier \<open>Enum.NAME\<close> or \<open>program.Enum.NAME\<close> with the name of one of its constants (the name in
  front of it is not compared with that of the enum). The keys of a struct are the names of fields;
  of several fields of one name the last one declared counts. \<open>literal_containers ty v\<close>: wherever
  the type is a container the value is a literal of that kind, and no typedef occurs on the way.
\<close>

definition dotless :: "string \<Rightarrow> bool" where
  "dotless s \<longleftrightarrow> CHR ''.'' \<notin> set s"

definition names_constant :: "string \<Rightarrow> string \<Rightarrow> bool" where
  "names_constant ident x \<longleftrightarrow>
     (\<exists>enum. ident = enum @ ''.'' @ x \<and> dotless enum \<and> dotless x) \<or>
     (\<exists>program enum. ident = program @ ''.'' @ enum @ ''.'' @ x \<and> dotless program \<and> dotless enum)"

definition declares :: "t_field list \<Rightarrow> string \<Rightarrow> t_type \<Rightarrow> bool" where
  "declares ms name ty \<longleftrightarrow> (\<exists>before m after. ms = before @ m # after \<and> f_name m = name \<and> f_type m = ty \<and>
     (\<forall>g \<in> set after. f_name g \<noteq> name))"

inductive literal_kind :: "t_base \<Rightarrow> cv_type \<Rightarrow> bool" where
  "literal_kind TYPE_STRING CV_STRING"
| "literal_kind TYPE_BOOL CV_INTEGER"
| "literal_kind TYPE_BYTE CV_INTEGER"
| "literal_kind TYPE_I16 CV_INTEGER"
| "literal_kind TYPE_I32 CV_INTEGER"
| "literal_kind TYPE_I64 CV_INTEGER"
| "literal_kind TYPE_DOUBLE CV_INTEGER"
| "literal_kind TYPE_DOUBLE CV_DOUBLE"

inductive has_type :: "t_type \<Rightarrow> t_const_value \<Rightarrow> bool" where
  of_base: "valType v = Some vt \<Longrightarrow> literal_kind b vt \<Longrightarrow> has_type (BaseType n b) v"
| of_enum: "valType v = Some CV_IDENTIFIER \<Longrightarrow> names_constant (identifierVal v) x \<Longrightarrow>
    x \<in> ev_name ` set (en_constants en) \<Longrightarrow> has_type (EnumType en) v"
| of_struct: "valType v = Some CV_MAP \<Longrightarrow> (\<forall>(a, b) \<in> set (mapVal v). valType a = Some CV_STRING \<and>
      (\<exists>ty. declares ms (stringVal a) ty \<and> has_type ty b)) \<Longrightarrow> has_type (StructType n x ms srt) v"
| of_map: "valType v = Some CV_MAP \<Longrightarrow> (\<forall>(a, b) \<in> set (mapVal v). has_type k a \<and> has_type w b) \<Longrightarrow> has_type (MapType k w) v"
| of_list: "valType v = Some CV_LIST \<Longrightarrow> (\<forall>a \<in> set (listVal v). has_type el a) \<Longrightarrow> has_type (ListType el) v"
| of_set: "valType v = Some CV_LIST \<Longrightarrow> (\<forall>a \<in> set (listVal v). has_type el a) \<Longrightarrow> has_type (SetType el) v"
| of_typedef: "has_type ty v \<Longrightarrow> has_type (TypedefType n ty) v"

inductive literal_containers :: "t_type \<Rightarrow> t_const_value \<Rightarrow> bool" where
  "literal_containers (BaseType n b) v"
| "literal_containers (EnumType en) v"
| "(\<forall>(a, b) \<in> set (mapVal v). \<forall>ty. declares ms (stringVal a) ty \<longrightarrow> literal_containers ty b) \<Longrightarrow>
    literal_containers (StructType n x ms srt) v"
| "valType v = Some CV_MAP \<Longrightarrow> (\<forall>(a, b) \<in> set (mapVal v). literal_containers k a \<and> literal_containers w b) \<Longrightarrow>
    literal_containers (MapType k w) v"
| "valType v = Some CV_LIST \<Longrightarrow> (\<forall>a \<in> set (listVal v). literal_containers el a) \<Longrightarrow> literal_containers (ListType el) v"
| "valType v = Some CV_LIST \<Longrightarrow> (\<forall>a \<in> set (listVal v). literal_containers el a) \<Longrightarrow> literal_containers (SetType el) v"

text \<open>The helpers of the check compute what the judgement asks for.\<close>

lemma base_admits_kind: "base_admits b vt = literal_kind b vt"
  by (cases b; cases vt; simp add: literal_kind.simps)

lemma last_field_declares: "last_field_type ms name = Some ty \<longleftrightarrow> declares ms name ty"
proof (induction ms rule: rev_induct)
  case Nil
  show ?case by (simp add: last_field_type_def declares_def)
next
  case (snoc m ms)
  show ?case
  proof (cases "f_name m = name")
    case True
    have "declares (ms @ [m]) name ty \<longleftrightarrow> f_type m = ty"
    proof
      assume "declares (ms @ [m]) name ty"
      then obtain before k after where k: "ms @ [m] = before @ k # after" "f_type k = ty" "\<forall>g \<in> set after. f_name g \<noteq> name"
        by (auto simp: declares_def)
      have "after = []" using k(1,3) True by (cases after rule: rev_cases) auto
      with k show "f_type m = ty" by simp
    next
      assume "f_type m = ty"
      with True have "ms @ [m] = ms @ m # [] \<and> f_name m = name \<and> f_type m = ty \<and> (\<forall>g \<in> set []. f_name g \<noteq> name)" by simp
      then show "declares (ms @ [m]) name ty" unfolding declares_def by blast
    qed
    then show ?thesis using True by (simp add: last_field_type_def)
  next
    case False
    have "declares (ms @ [m]) name ty \<longleftrightarrow> declares ms name ty"
    proof
      assume "declares (ms @ [m]) name ty"
      then obtain before k after where k: "ms @ [m] = before @ k # after" "f_name k = name" "f_type k = ty"
          "\<forall>g \<in> set after. f_name g \<noteq> name"
        by (auto simp: declares_def)
      then obtain after' where "after = after' @ [m]" using False by (cases after rule: rev_cases) auto
      with k show "declares ms name ty" by (auto simp: declares_def)
    next
      assume "declares ms name ty"
      then obtain before k after where k: "ms = before @ k # after" "f_name k = name" "f_type k = ty"
          "\<forall>g \<in> set after. f_name g \<noteq> name"
        by (auto simp: declares_def)
      then have "ms @ [m] = before @ k # (after @ [m]) \<and> f_name k = name \<and> f_type k = ty \<and>
          (\<forall>g \<in> set (after @ [m]). f_name g \<noteq> name)" using False by simp
      then show "declares (ms @ [m]) name ty" unfolding declares_def by blast
    qed
    with False snoc show ?thesis by (simp add: last_field_type_def)
  qed
qed

lemma dotless_dropWhile: "dotless s \<Longrightarrow> dropWhile (\<lambda>c. c \<noteq> CHR ''.'') (s @ CHR ''.'' # t) = CHR ''.'' # t"
  by (induction s) (auto simp: dotless_def)

lemma after_dot_Some: "after_dot s = Some r \<longleftrightarrow> (\<exists>q. s = q @ ''.'' @ r \<and> dotless q)"
proof
  assume "after_dot s = Some r"
  then have dot: "CHR ''.'' \<in> set s" and r: "r = tl (dropWhile (\<lambda>c. c \<noteq> CHR ''.'') s)"
    by (simp_all add: after_dot_def split: if_splits)
  obtain q t where s: "s = q @ CHR ''.'' # t" "CHR ''.'' \<notin> set q" using split_list_first [OF dot] by blast
  then have "dotless q" by (simp add: dotless_def)
  with r s show "\<exists>q. s = q @ ''.'' @ r \<and> dotless q" by (intro exI [of _ q]) (simp add: dotless_dropWhile)
qed (auto simp: after_dot_def dotless_dropWhile)

lemma after_dot_None: "after_dot s = None \<longleftrightarrow> dotless s"
  by (simp add: after_dot_def dotless_def)

lemma identifier_names: "get_identifier_name v = Inr x \<longleftrightarrow> names_constant (identifierVal v) x"
proof -
  have "get_identifier_name v = Inr x \<longleftrightarrow>
      (\<exists>r. after_dot (identifierVal v) = Some r \<and> (after_dot r = None \<and> x = r \<or> after_dot r = Some x))"
    by (auto simp: get_identifier_name_def split: option.splits)
  also have "\<dots> \<longleftrightarrow> names_constant (identifierVal v) x"
    by (auto simp: names_constant_def after_dot_None after_dot_Some)
  finally show ?thesis .
qed

inductive_simps has_type_iff:
  "has_type (BaseType n b) v" "has_type (EnumType en) v" "has_type (StructType n x ms srt) v" "has_type (MapType k w) v"
  "has_type (ListType el) v" "has_type (SetType el) v" "has_type (TypedefType n ty) v" "has_type (ServiceType n) v"

lemmas has_type_simps = has_type_iff [folded base_admits_kind last_field_declares identifier_names]

inductive_simps literal_iff:
  "literal_containers (BaseType n b) v" "literal_containers (EnumType en) v"
  "literal_containers (StructType n x ms srt) v" "literal_containers (MapType k w) v" "literal_containers (ListType el) v"
  "literal_containers (SetType el) v" "literal_containers (TypedefType n ty) v" "literal_containers (ServiceType n) v"

lemmas literal_simps = literal_iff [folded base_admits_kind last_field_declares identifier_names]

lemma base_admits_void [simp]: "base_admits b vt \<Longrightarrow> b \<noteq> TYPE_VOID"
  by (cases b) simp_all

lemma get_cv_type_Inr: "get_cv_type v = Inr t \<longleftrightarrow> valType v = Some t"
  by (cases "valType v") (simp_all add: get_cv_type_def)

lemma type_error_Inr [simp]: "type_error name k \<noteq> Inr x"
  by (simp add: type_error_def)

lemma is_void_iff: "is_void ty \<longleftrightarrow> (\<exists>n. ty = BaseType n TYPE_VOID)"
  by (cases ty) auto

text \<open>The check accepts exactly what the judgement admits, where containers are literals.\<close>

lemma validate_sound:
  "validate_const_rec name ty v = Inr () \<Longrightarrow> literal_containers ty v \<Longrightarrow> has_type ty v"
  "validate_members name n ms m = Inr () \<Longrightarrow>
     (\<forall>(a, b) \<in> set m. \<forall>ty. last_field_type ms (stringVal a) = Some ty \<longrightarrow> literal_containers ty b) \<Longrightarrow>
     (\<forall>(a, b) \<in> set m. valType a = Some CV_STRING \<and> (\<exists>ty. last_field_type ms (stringVal a) = Some ty \<and> has_type ty b))"
  "validate_pairs name k w m = Inr () \<Longrightarrow> (\<forall>(a, b) \<in> set m. literal_containers k a \<and> literal_containers w b) \<Longrightarrow>
     (\<forall>(a, b) \<in> set m. has_type k a \<and> has_type w b)"
  "validate_elems name el l = Inr () \<Longrightarrow> (\<forall>a \<in> set l. literal_containers el a) \<Longrightarrow> (\<forall>a \<in> set l. has_type el a)"
proof (induction name ty v and name n ms m and name k w m and name el l
    rule: validate_const_rec_validate_members_validate_pairs_validate_elems.induct)
  case (1 name ttype m l s i d idn e t)
  show ?case
  proof (cases ttype)
    case (StructType n x ms srt)
    with 1 show ?thesis
      by (auto simp: bindR_Inr_iff get_cv_type_Inr literal_simps has_type_simps Let_def split: if_splits)
  qed (use 1 in \<open>auto simp: bindR_Inr_iff get_cv_type_Inr literal_simps has_type_simps Let_def split: if_splits\<close>)
next
  case (3 name n ms a b m)
  then obtain ft where ft: "valType a = Some CV_STRING" "last_field_type ms (stringVal a) = Some ft"
      "validate_const_rec (name @ ''.'' @ stringVal a) ft b = Inr ()" "validate_members name n ms m = Inr ()"
    by (auto simp: bindR_Inr_iff get_cv_type_Inr split: if_splits option.splits)
  have "has_type ft b" using 3(1) [of CV_STRING ft] 3(4) ft by (simp add: get_cv_type_def)
  moreover have "\<forall>(a, b) \<in> set m. valType a = Some CV_STRING \<and> (\<exists>ty. last_field_type ms (stringVal a) = Some ty \<and> has_type ty b)"
    using 3(2) [of CV_STRING ft] 3(4) ft by (simp add: get_cv_type_def)
  ultimately show ?case using ft(1,2) by simp
next
  case (5 name k w a b m)
  then show ?case by (simp add: bindR_Inr_iff)
next
  case (7 name el a l)
  then show ?case by (simp add: bindR_Inr_iff)
qed simp_all

lemma validate_complete:
  "has_type ty v \<Longrightarrow> validate_const_rec name ty v = Inr ()"
  "(\<forall>(a, b) \<in> set m. valType a = Some CV_STRING \<and> (\<exists>ty. last_field_type ms (stringVal a) = Some ty \<and> has_type ty b)) \<Longrightarrow>
     validate_members name n ms m = Inr ()"
  "(\<forall>(a, b) \<in> set m. has_type k a \<and> has_type w b) \<Longrightarrow> validate_pairs name k w m = Inr ()"
  "(\<forall>a \<in> set l. has_type el a) \<Longrightarrow> validate_elems name el l = Inr ()"
proof (induction name ty v and name n ms m and name k w m and name el l
    rule: validate_const_rec_validate_members_validate_pairs_validate_elems.induct)
  case (1 name ttype m l s i d idn e t)
  then show ?case
    by (cases ttype) (auto simp: get_cv_type_def has_type_simps Let_def split: if_splits)
qed (auto simp: get_cv_type_def)


section \<open>Well-formed source values\<close>






lemma setters [simp]:
  "valType (set_string x v) = Some CV_STRING" "valType (set_integer n v) = Some CV_INTEGER"
  "valType (set_double d v) = Some CV_DOUBLE" "valType (set_enum en v) = valType v"
  "valType (set_identifier y v) = Some CV_IDENTIFIER" "identifierVal (set_enum en v) = identifierVal v"
  "identifierVal (set_identifier y v) = y" "valType new_const_value = None"
  by (cases v; simp add: new_const_value_def)+

lemma get_identifier_name_set_enum [simp]: "get_identifier_name (set_enum en v) = get_identifier_name v"
  by (simp add: get_identifier_name_def split: option.split)







section \<open>Properties\<close>

text \<open>
  C16: where containers are given by literals and no typedef is in the way, \<^verbatim>\<open>validate_const_rec\<close>
  accepts a constant exactly when the judgement \<open>has_type\<close>, which is stated without the functions
  of the check, gives it the declared type.
\<close>

theorem const_check_exact:
  assumes "literal_containers ty v"
  shows "validate_const_rec name ty v = Inr () \<longleftrightarrow> has_type ty v"
  using validate_sound(1) [OF _ assms] validate_complete(1) by blast

theorem const_check_exact_witness:
  "has_type (ListType (BaseType ''i32'' TYPE_I32)) (add_list (set_integer 3 new_const_value) (set_list new_const_value)) \<and>
   \<not> has_type (ListType (BaseType ''i32'' TYPE_I32)) (add_list (set_string ''x'' new_const_value) (set_list new_const_value))"
proof -
  let ?ty = "ListType (BaseType ''i32'' TYPE_I32)"
  let ?v = "add_list (set_integer 3 new_const_value) (set_list new_const_value)"
  let ?w = "add_list (set_string ''x'' new_const_value) (set_list new_const_value)"
  have "literal_containers ?ty ?v" "literal_containers ?ty ?w"
    by (simp_all add: literal_simps new_const_value_def)
  from this [THEN const_check_exact, of "''c''"] show ?thesis
    by (simp add: new_const_value_def get_cv_type_def type_error_def)
qed



text \<open>
  The check does not look at the kind of the value where the type is a container, nor at
  anything behind a typedef: a number is accepted as a list, any value under a typedef, and a map
  constant that is the name of another one (defined or not) is accepted and stays without entries.
\<close>

lemma containers_and_typedefs_unchecked:
  "validate_const_rec name (ListType el) (set_integer x new_const_value) = Inr () \<and>
   validate_const_rec name (TypedefType n ty) v = Inr () \<and>
   (\<exists>v'. define_const (MapType k w) name (set_identifier y new_const_value) Map.empty None =
      Inr ([name \<mapsto> \<lparr>co_type = MapType k w, co_name = name, co_value = v'\<rparr>], None) \<and>
      mapVal v' = [] \<and> valType v' = Some CV_IDENTIFIER)"
proof (intro conjI exI [of _ "set_identifier y new_const_value"])
  show "validate_const_rec name (TypedefType n ty) v = Inr ()" by (cases v) simp
qed (simp_all add: new_const_value_def define_const_def validate_const_type_def add_constant_def)

text \<open>
  A constant of type \<^verbatim>\<open>double\<close> that is given by an integer is accepted, and another constant
  of that type that names it takes its value from a member that was never set.
\<close>

lemma double_named_by_double_uninitialised:
  "let double = BaseType ''double'' TYPE_DOUBLE in
   \<exists>scope. define_const double a (set_integer x new_const_value) Map.empty None = Inr (scope, None) \<and>
     define_const double b (set_identifier a new_const_value) scope None = Inl ReadUninitialised"
  by (simp add: Let_def new_const_value_def define_const_def validate_const_type_def add_constant_def
      resolve_leaf_def get_cv_type_def copy_constant_def get_double_def)

end
