(* ===== verification/Fingerprint.thy ===== *)
theory Fingerprint
  imports ConstTyping
begin

text \<open>
  Fingerprints of types (\<^verbatim>\<open>get_fingerprint_material\<close> of the type classes,
  \<^verbatim>\<open>generate_fingerprint\<close>): the text that is hashed, and what two types have in common when
  their texts are the same. The hash function (MD5) is an argument.
\<close>

section \<open>The material\<close>

fun get_fingerprint_material :: "t_type \<Rightarrow> string cres"
  and fields_material :: "t_field list \<Rightarrow> string cres" where
  "get_fingerprint_material (BaseType n b) = Inr (t_base_name b)"
| "get_fingerprint_material (TypedefType n t) = get_fingerprint_material t"
| "get_fingerprint_material (EnumType e) = Inr ''enum''"
| "get_fingerprint_material (StructType n x ms srt) =
     bindR (fields_material srt) (\<lambda>rv. Inr (''{'' @ rv @ ''}''))"
| "get_fingerprint_material (ListType t) =
     bindR (get_fingerprint_material t) (\<lambda>m. Inr (''list<'' @ m @ ''>''))"
| "get_fingerprint_material (SetType t) =
     bindR (get_fingerprint_material t) (\<lambda>m. Inr (''set<'' @ m @ ''>''))"
| "get_fingerprint_material (MapType k v) =
     bindR (get_fingerprint_material k) (\<lambda>a. bindR (get_fingerprint_material v) (\<lambda>b.
     Inr (''map<'' @ a @ '','' @ b @ ''>'')))"
| "get_fingerprint_material (ServiceType n) =
     Inl (ThrownChars ''BUG: Can't get fingerprint material for service.'')"
| "fields_material [] = Inr ''''"
| "fields_material (Member t n key r v # ms) =
     bindR (get_fingerprint_material t) (\<lambda>m.
     bindR (fields_material ms) (\<lambda>rest.
     Inr ((show_i64 (sint key) @ '':'' @ (if r = T_OPTIONAL then ''opt-'' else '''') @ m) @ '';'' @ rest)))"

definition generate_fingerprint :: "(string \<Rightarrow> bytes) \<Rightarrow> t_type \<Rightarrow> bytes cres" where
  "generate_fingerprint md5 t = bindR (get_fingerprint_material t) (\<lambda>m. Inr (md5 m))"

definition has_fingerprint :: "bytes \<Rightarrow> bool" where
  "has_fingerprint fp \<longleftrightarrow> (\<exists>b \<in> set fp. b \<noteq> 0)"

definition nybble_to_xdigit :: "nat \<Rightarrow> char" where
  "nybble_to_xdigit num = (if num < 10 then char_of (48 + num) else char_of (65 + num - 10))"

definition byte_to_hex :: "u8 \<Rightarrow> string" where
  "byte_to_hex b = [nybble_to_xdigit (unat (drop_bit 4 b)), nybble_to_xdigit (unat (and b 0x0f))]"

definition get_ascii_fingerprint :: "bytes \<Rightarrow> string" where
  "get_ascii_fingerprint fp = concat (map byte_to_hex fp)"

section \<open>Types with the same fingerprint\<close>

text \<open>
  Types are alike when they differ at most in what the fingerprint is meant to ignore: the names of
  types and fields, typedefs, which enum it is, binary or string, struct or exception, the order of
  declaration (\<open>srt\<close> is in the order of the keys), default values, and whether a field that is not
  optional is marked as required.
\<close>

inductive alike :: "t_type \<Rightarrow> t_type \<Rightarrow> bool" where
  alike_base: "alike (BaseType n b) (BaseType n' b)"
| alike_typedef_left: "alike t u \<Longrightarrow> alike (TypedefType n t) u"
| alike_typedef_right: "alike t u \<Longrightarrow> alike t (TypedefType n u)"
| alike_enum: "alike (EnumType e) (EnumType e')"
| alike_struct: "list_all2 (\<lambda>m m'. f_key m = f_key m' \<and> (f_req m = T_OPTIONAL \<longleftrightarrow> f_req m' = T_OPTIONAL) \<and>
     alike (f_type m) (f_type m')) srt srt' \<Longrightarrow> alike (StructType n x ms srt) (StructType n' x' ms' srt')"
| alike_list: "alike t u \<Longrightarrow> alike (ListType t) (ListType u)"
| alike_set: "alike t u \<Longrightarrow> alike (SetType t) (SetType u)"
| alike_map: "alike k k' \<Longrightarrow> alike v v' \<Longrightarrow> alike (MapType k v) (MapType k' v')"

text \<open>
  For the proof: the tree that the text of a fingerprint spells out, \<open>shape_of\<close> a type, and its
  text. Alike are the types with the same tree.
\<close>

datatype shape =
    ShBase t_base | ShEnum | ShStruct "(int \<times> bool \<times> shape) list" | ShList shape | ShSet shape | ShMap shape shape

fun shape_of :: "t_type \<Rightarrow> shape option"
  and shape_fields :: "t_field list \<Rightarrow> (int \<times> bool \<times> shape) list option" where
  "shape_of (BaseType n b) = Some (ShBase b)"
| "shape_of (TypedefType n t) = shape_of t"
| "shape_of (EnumType e) = Some ShEnum"
| "shape_of (StructType n x ms srt) = map_option ShStruct (shape_fields srt)"
| "shape_of (ListType t) = map_option ShList (shape_of t)"
| "shape_of (SetType t) = map_option ShSet (shape_of t)"
| "shape_of (MapType k v) =
     (case shape_of k of None \<Rightarrow> None | Some a \<Rightarrow> map_option (ShMap a) (shape_of v))"
| "shape_of (ServiceType n) = None"
| "shape_fields [] = Some []"
| "shape_fields (Member t n key r v # ms) =
     (case shape_of t of None \<Rightarrow> None
      | Some a \<Rightarrow> map_option ((#) (sint key, r = T_OPTIONAL, a)) (shape_fields ms))"

fun text_of :: "shape \<Rightarrow> string" and text_field :: "int \<times> bool \<times> shape \<Rightarrow> string" where
  "text_of (ShBase b) = t_base_name b"
| "text_of ShEnum = ''enum''"
| "text_of (ShStruct fs) = ''{'' @ concat (map text_field fs) @ ''}''"
| "text_of (ShList a) = ''list<'' @ text_of a @ ''>''"
| "text_of (ShSet a) = ''set<'' @ text_of a @ ''>''"
| "text_of (ShMap a b) = ''map<'' @ text_of a @ '','' @ text_of b @ ''>''"
| "text_field (k, opt, a) = show_i64 k @ '':'' @ (if opt then ''opt-'' else '''') @ text_of a @ '';''"

definition service_error :: compile_error where
  "service_error = ThrownChars ''BUG: Can't get fingerprint material for service.''"

lemma material_text:
  "get_fingerprint_material t = (case shape_of t of None \<Rightarrow> Inl service_error | Some a \<Rightarrow> Inr (text_of a))"
  "fields_material ms = (case shape_fields ms of None \<Rightarrow> Inl service_error
     | Some fs \<Rightarrow> Inr (concat (map text_field fs)))"
  by (induction t and ms rule: get_fingerprint_material_fields_material.induct)
    (auto simp: service_error_def split: option.splits)

lemma shape_true_type: "shape_of (get_true_type t) = shape_of t"
  by (induction t rule: get_true_type.induct) auto

lemma alike_true_type: "alike t (get_true_type u) \<Longrightarrow> alike t u"
  by (induction u rule: get_true_type.induct) (auto intro: alike.intros)

lemma true_type_not_typedef: "get_true_type t \<noteq> TypedefType n u"
  by (induction t rule: get_true_type.induct) auto

lemma shape_true_cases:
  assumes "shape_of u = Some a"
  shows "(\<exists>n b. get_true_type u = BaseType n b \<and> a = ShBase b) \<or> (\<exists>e. get_true_type u = EnumType e \<and> a = ShEnum) \<or>
    (\<exists>n x ms srt fs. get_true_type u = StructType n x ms srt \<and> shape_fields srt = Some fs \<and> a = ShStruct fs) \<or>
    (\<exists>t b. get_true_type u = ListType t \<and> shape_of t = Some b \<and> a = ShList b) \<or>
    (\<exists>t b. get_true_type u = SetType t \<and> shape_of t = Some b \<and> a = ShSet b) \<or>
    (\<exists>k v b c. get_true_type u = MapType k v \<and> shape_of k = Some b \<and> shape_of v = Some c \<and> a = ShMap b c)"
  using assms true_type_not_typedef [of u] shape_true_type [of u, symmetric]
  by (cases "get_true_type u") (auto split: option.splits)

lemma shape_fields_Some_Cons:
  "shape_fields ms = Some ((k, opt, a) # fs) \<longleftrightarrow>
     (\<exists>m ms'. ms = m # ms' \<and> sint (f_key m) = k \<and> (f_req m = T_OPTIONAL) = opt \<and> shape_of (f_type m) = Some a \<and>
       shape_fields ms' = Some fs)"
proof (cases ms)
  case (Cons m ms')
  then show ?thesis by (cases m) (auto split: option.splits)
qed simp

lemma shape_fields_Some_Nil: "shape_fields ms = Some [] \<longleftrightarrow> ms = []"
proof (cases ms)
  case (Cons m ms')
  then show ?thesis by (cases m) (auto split: option.splits)
qed simp

lemma alike_if_shape:
  "shape_of t = Some a \<Longrightarrow> shape_of u = Some a \<Longrightarrow> alike t u"
  "shape_fields ms = Some fs \<Longrightarrow> shape_fields ms' = Some fs \<Longrightarrow>
     list_all2 (\<lambda>m m'. f_key m = f_key m' \<and> (f_req m = T_OPTIONAL \<longleftrightarrow> f_req m' = T_OPTIONAL) \<and>
       alike (f_type m) (f_type m')) ms ms'"
proof (induction t and ms arbitrary: u a and ms' fs rule: shape_of_shape_fields.induct)
  case (10 t n key r v ms)
  from 10(3) obtain b fs' where fs: "shape_of t = Some b" "shape_fields ms = Some fs'"
    "fs = (sint key, r = T_OPTIONAL, b) # fs'" by (auto split: option.splits)
  with 10(4) obtain m' ms'' where ms': "ms' = m' # ms''" "sint (f_key m') = sint key"
    "(f_req m' = T_OPTIONAL) = (r = T_OPTIONAL)" "shape_of (f_type m') = Some b" "shape_fields ms'' = Some fs'"
    by (auto simp: shape_fields_Some_Cons)
  have "f_key m' = key" using ms'(2) by (rule signed_word_eqI)
  with 10(1) [OF fs(1) ms'(4)] 10(2) [OF fs(1,2) ms'(5)] ms' show ?case by simp
next
  case (1 n b)
  from 1 shape_true_cases [of u a] show ?case
    by (auto intro!: alike_true_type [of _ u] alike.intros split: option.splits)
next
  case (3 e)
  from 3 shape_true_cases [of u a] show ?case
    by (auto intro!: alike_true_type [of _ u] alike.intros split: option.splits)
next
  case (4 n x ms srt)
  from 4 shape_true_cases [of u a] show ?case
    by (auto intro!: alike_true_type [of _ u] alike.intros split: option.splits)
next
  case (5 t)
  from 5 shape_true_cases [of u a] show ?case
    by (auto intro!: alike_true_type [of _ u] alike.intros split: option.splits)
next
  case (6 t)
  from 6 shape_true_cases [of u a] show ?case
    by (auto intro!: alike_true_type [of _ u] alike.intros split: option.splits)
next
  case (7 k v)
  from 7 shape_true_cases [of u a] show ?case
    by (auto intro!: alike_true_type [of _ u] alike.intros split: option.splits)
next
  case (8 n)
  from 8 shape_true_cases [of u a] show ?case
    by (auto intro!: alike_true_type [of _ u] alike.intros split: option.splits)
next
  case (2 n t)
  then show ?case by (auto intro: alike_typedef_left)
next
  case 9
  then show ?case by (auto simp: shape_fields_Some_Nil)
qed

lemma shape_if_alike: "alike t u \<Longrightarrow> shape_of t = shape_of u"
proof (induction rule: alike.induct)
  case (alike_struct srt srt' n x ms n' x' ms')
  have "shape_fields srt = shape_fields srt'" using alike_struct
  proof (induction rule: list_all2_induct)
    case (Cons m ms m' ms')
    then show ?case by (cases m; cases m') (auto split: option.splits)
  qed simp
  then show ?case by simp
next
  case (alike_map k k' v v')
  show ?case unfolding shape_of.simps alike_map.IH ..
qed auto

lemma alike_iff_shape: "shape_of t = Some a \<Longrightarrow> alike t u \<longleftrightarrow> shape_of u = Some a"
  using alike_if_shape(1) shape_if_alike by metis

section \<open>The text determines the shape\<close>

text \<open>Numbers: digits and a sign, and no two numbers have the same text.\<close>

definition digit_val :: "char \<Rightarrow> nat" where
  "digit_val c = of_char c - 48"

lemma digit_char: "n < 10 \<Longrightarrow> digit_val (char_of (48 + n)) = n \<and> char_of (48 + n) \<notin> {CHR '':'', CHR ''-'', CHR ''}''}"
proof -
  assume "n < 10"
  then have code: "of_char (char_of (48 + n) :: char) = 48 + n" by simp
  have "(char_of (48 + n) :: char) \<noteq> d" if "of_char d \<noteq> 48 + n" for d
    using that code by auto
  from this [of "CHR '':''"] this [of "CHR ''-''"] this [of "CHR ''}''"] \<open>n < 10\<close> code
  show ?thesis by (simp add: digit_val_def)
qed

lemma show_nat_chars: "\<forall>c \<in> set (show_nat n). c \<notin> {CHR '':'', CHR ''-'', CHR ''}''}"
proof (induction n rule: show_nat.induct)
  case (1 n)
  then show ?case using digit_char [of n] digit_char [of "n mod 10"] by (subst show_nat.simps) auto
qed

lemma show_nat_val: "foldl (\<lambda>a c. a * 10 + digit_val c) 0 (show_nat n) = n"
proof (induction n rule: show_nat.induct)
  case (1 n)
  then show ?case using digit_char [of n] digit_char [of "n mod 10"] by (subst show_nat.simps) auto
qed

lemma show_nat_inj: "show_nat n = show_nat m \<Longrightarrow> n = m"
  by (metis show_nat_val)

lemma show_nat_Cons: "\<exists>c cs. show_nat n = c # cs \<and> c \<noteq> CHR ''-'' \<and> c \<noteq> CHR ''}''"
proof -
  have "show_nat n \<noteq> []" by (subst show_nat.simps) simp
  then show ?thesis using show_nat_chars [of n] by (cases "show_nat n") auto
qed

lemma show_i64_inj: "show_i64 n = show_i64 m \<Longrightarrow> n = m"
  using show_nat_Cons [of "nat n"] show_nat_Cons [of "nat m"] show_nat_inj [of "nat n" "nat m"]
    show_nat_inj [of "nat (- n)" "nat (- m)"]
  by (auto simp: show_i64_def split: if_splits)

lemma show_i64_chars: "CHR '':'' \<notin> set (show_i64 n)" "\<exists>c cs. show_i64 n = c # cs \<and> c \<noteq> CHR ''}''"
  using show_nat_chars [of "nat n"] show_nat_chars [of "nat (- n)"] show_nat_Cons [of "nat n"]
  by (auto simp: show_i64_def)

lemma split_at_first: "x \<notin> set as \<Longrightarrow> x \<notin> set bs \<Longrightarrow> as @ x # r = bs @ x # r' \<Longrightarrow> as = bs \<and> r = r'"
  by (induction as arbitrary: bs) (case_tac bs; auto)+

text \<open>No text of a shape starts with another one, or with an \<open>o\<close>.\<close>

lemma text_of_start: "\<exists>c cs. text_of a = c # cs \<and> c \<noteq> CHR ''o''"
proof (cases a)
  case (ShBase b)
  then show ?thesis by (cases b) auto
qed auto

lemma text_field_start: "\<exists>c cs. text_field f = c # cs \<and> c \<noteq> CHR ''}''"
proof -
  obtain k opt a where "f = (k, opt, a)" by (cases f) auto
  then show ?thesis using show_i64_chars(2) [of k] by auto
qed

lemma fields_prefix_free:
  assumes "\<And>f g r r'. f \<in> set fs \<Longrightarrow> text_field f @ r = text_field g @ r' \<Longrightarrow> f = g \<and> r = r'"
    and "concat (map text_field fs) @ CHR ''}'' # r = concat (map text_field gs) @ CHR ''}'' # r'"
  shows "fs = gs \<and> r = r'"
  using assms
proof (induction fs arbitrary: gs)
  case Nil
  show ?case
  proof (cases gs)
    case (Cons g gs')
    with Nil(2) text_field_start [of g] show ?thesis by auto
  qed (use Nil in simp)
next
  case (Cons f fs)
  show ?case
  proof (cases gs)
    case Nil
    then show ?thesis using Cons.prems(2) text_field_start [of f] by auto
  next
    case gs: (Cons g gs')
    have "text_field f @ concat (map text_field fs) @ CHR ''}'' # r =
        text_field g @ concat (map text_field gs') @ CHR ''}'' # r'"
      using Cons.prems(2) gs by simp
    from Cons.prems(1) [OF _ this] have fg: "f = g"
      and rest: "concat (map text_field fs) @ CHR ''}'' # r = concat (map text_field gs') @ CHR ''}'' # r'" by simp_all
    have "fs = gs' \<and> r = r'" by (rule Cons.IH [OF _ rest], rule Cons.prems(1)) simp_all
    with fg gs show ?thesis by simp
  qed
qed

lemma text_of_prefix_free:
  "text_of a @ r = text_of b @ r' \<Longrightarrow> a = b \<and> r = r'"
  "text_field f @ r = text_field g @ r' \<Longrightarrow> f = g \<and> r = r'"
proof (induction a and f arbitrary: b r r' and g r r' rule: text_of_text_field.induct)
  case (1 x)
  show ?case
  proof (cases b)
    case (ShBase y)
    with 1 show ?thesis by (cases x; cases y) auto
  qed (use 1 in \<open>(cases x; auto)+\<close>)
next
  case 2
  show ?case
  proof (cases b)
    case (ShBase y)
    with 2 show ?thesis by (cases y) auto
  qed (use 2 in auto)
next
  case (3 fs)
  show ?case
  proof (cases b)
    case (ShBase y)
    with 3(2) show ?thesis by (cases y) auto
  next
    case (ShStruct gs)
    with 3(2) have "concat (map text_field fs) @ CHR ''}'' # r = concat (map text_field gs) @ CHR ''}'' # r'" by simp
    with fields_prefix_free [OF 3(1)] ShStruct show ?thesis by blast
  qed (use 3(2) in auto)
next
  case (4 a)
  show ?case
  proof (cases b)
    case (ShBase y)
    with 4(2) show ?thesis by (cases y) auto
  next
    case (ShList c)
    with 4(2) have "text_of a @ CHR ''>'' # r = text_of c @ CHR ''>'' # r'" by simp
    from 4(1) [OF this] ShList show ?thesis by simp
  qed (use 4(2) in auto)
next
  case (5 a)
  show ?case
  proof (cases b)
    case (ShBase y)
    with 5(2) show ?thesis by (cases y) auto
  next
    case (ShSet c)
    with 5(2) have "text_of a @ CHR ''>'' # r = text_of c @ CHR ''>'' # r'" by simp
    from 5(1) [OF this] ShSet show ?thesis by simp
  qed (use 5(2) in auto)
next
  case (6 a1 a2)
  show ?case
  proof (cases b)
    case (ShBase y)
    with 6(3) show ?thesis by (cases y) auto
  next
    case (ShMap c1 c2)
    with 6(3) have "text_of a1 @ CHR '','' # text_of a2 @ CHR ''>'' # r = text_of c1 @ CHR '','' # text_of c2 @ CHR ''>'' # r'"
      by simp
    from 6(1) [OF this] have "a1 = c1" "text_of a2 @ CHR ''>'' # r = text_of c2 @ CHR ''>'' # r'" by simp_all
    from 6(2) [OF this(2)] \<open>a1 = c1\<close> ShMap show ?thesis by simp
  qed (use 6(3) in auto)
next
  case (7 k opt a)
  obtain k' opt' a' where g: "g = (k', opt', a')" by (cases g) auto
  have eq: "show_i64 k @ CHR '':'' # ((if opt then ''opt-'' else []) @ text_of a @ CHR '';'' # r) =
      show_i64 k' @ CHR '':'' # ((if opt' then ''opt-'' else []) @ text_of a' @ CHR '';'' # r')"
    using 7(2) by (simp add: g)
  from split_at_first [OF show_i64_chars(1) show_i64_chars(1) eq]
  have "k = k'" and tail: "(if opt then ''opt-'' else []) @ text_of a @ CHR '';'' # r =
      (if opt' then ''opt-'' else []) @ text_of a' @ CHR '';'' # r'"
    using show_i64_inj by auto
  have "opt = opt'" using tail text_of_start [of a] text_of_start [of a'] by (auto split: if_splits)
  with tail have "text_of a @ CHR '';'' # r = text_of a' @ CHR '';'' # r'" by (simp split: if_splits)
  from 7(1) [OF this] show ?case using g \<open>k = k'\<close> \<open>opt = opt'\<close> by simp
qed

lemma text_of_inj: "text_of a = text_of b \<longleftrightarrow> a = b"
  using text_of_prefix_free(1) [of a "[]" b "[]"] by auto

section \<open>Properties\<close>

text \<open>
  C17: two types have the same fingerprint material exactly when they are alike: they agree in
  everything but names, typedefs, which enum it is, binary or string, struct or exception, the order
  in which fields are declared, default values and the mark of required fields. The material thus
  distinguishes more than the encoding of TDenseProtocol, for which \<^verbatim>\<open>t_type.h\<close> wants it to change
  exactly when that changes: integers of 16, 32 and 64 bits and enums, lists and sets, and the keys
  of fields in the same order look alike in that encoding and have different material.
\<close>

theorem fingerprint_material_exact:
  assumes "get_fingerprint_material t = Inr m" and "get_fingerprint_material u = Inr m'"
  shows "m = m' \<longleftrightarrow> alike t u"
proof -
  from assms obtain a b where "shape_of t = Some a" "m = text_of a" "shape_of u = Some b" "m' = text_of b"
    by (auto simp: material_text split: option.splits)
  then show ?thesis by (simp add: text_of_inj alike_iff_shape eq_commute)
qed

theorem fingerprint_material_exact_witness:
  "alike (MapType (BaseType ''i32'' TYPE_I32) (TypedefType ''Name'' (BaseType ''binary'' TYPE_STRING)))
     (MapType (BaseType ''int'' TYPE_I32) (BaseType ''string'' TYPE_STRING)) \<and>
   \<not> alike (ListType (BaseType ''i32'' TYPE_I32)) (ListType (BaseType ''i64'' TYPE_I64))"
  using fingerprint_material_exact [of "MapType (BaseType ''i32'' TYPE_I32) (TypedefType ''Name'' (BaseType ''binary'' TYPE_STRING))"
    "''map<i32,string>''" "MapType (BaseType ''int'' TYPE_I32) (BaseType ''string'' TYPE_STRING)" "''map<i32,string>''"]
    fingerprint_material_exact [of "ListType (BaseType ''i32'' TYPE_I32)" "''list<i32>''"
      "ListType (BaseType ''i64'' TYPE_I64)" "''list<i64>''"]
  by simp

lemma strictly_sorted_unique:
  fixes h :: "'a \<Rightarrow> int"
  assumes "sorted_wrt (<) (map h xs)" and "sorted_wrt (<) (map h ys)" and "set xs = set ys"
  shows "xs = ys"
proof (rule map_sorted_distinct_set_unique [of h])
  show "inj_on h (set xs \<union> set ys)"
    using assms(1,3) by (simp add: strict_sorted_iff distinct_map)
qed (use assms in \<open>simp_all add: strict_sorted_iff\<close>)

text \<open>
  The order in which the fields of a struct are declared, and the name of the struct, do not
  matter to its fingerprint: two field lists that give the same fields have the same material.
\<close>

lemma fingerprint_ignores_order:
  assumes "field_list strict allow ps = Inr s" and "field_list strict' allow' qs = Inr s'" and "mset (st_members s) = mset (st_members s')"
  shows "get_fingerprint_material (StructType n x (st_members s) (st_sorted s)) =
    get_fingerprint_material (StructType n' x' (st_members s') (st_sorted s'))"
proof -
  have "struct_inv s" "struct_inv s'" using assms(1,2) field_list_inv by blast+
  then have "st_sorted s = st_sorted s'"
    using assms(3) by (intro strictly_sorted_unique) (auto simp: struct_inv_def dest: mset_eq_setD)
  then show ?thesis by simp
qed

lemma fingerprint_ignores_order_witness:
  "let p = \<lparr>pf_key = Some 1, pf_req = T_REQUIRED, pf_type = BaseType ''i32'' TYPE_I32, pf_name = ''a'', pf_value = None\<rparr>;
       q = \<lparr>pf_key = Some 2, pf_req = T_OPTIONAL, pf_type = BaseType ''string'' TYPE_STRING, pf_name = ''b'', pf_value = None\<rparr> in
   \<exists>s s'. field_list 0 False [p, q] = Inr s \<and> field_list 0 False [q, p] = Inr s' \<and>
     get_fingerprint_material (StructType ''S'' False (st_members s) (st_sorted s)) =
     get_fingerprint_material (StructType ''T'' False (st_members s') (st_sorted s'))"
proof -
  let ?a = "Member (BaseType ''i32'' TYPE_I32) ''a'' 1 T_REQUIRED None"
    and ?b = "Member (BaseType ''string'' TYPE_STRING) ''b'' 2 T_OPTIONAL None"
  let ?p = "\<lparr>pf_key = Some 1, pf_req = T_REQUIRED, pf_type = BaseType ''i32'' TYPE_I32, pf_name = ''a'', pf_value = None\<rparr>"
    and ?q = "\<lparr>pf_key = Some 2, pf_req = T_OPTIONAL, pf_type = BaseType ''string'' TYPE_STRING, pf_name = ''b'', pf_value = None\<rparr>"
  have s: "struct_append ?a new_t_struct = (\<lparr>st_members = [?a], st_sorted = [?a]\<rparr>, True)"
    "struct_append ?b \<lparr>st_members = [?a], st_sorted = [?a]\<rparr> = (\<lparr>st_members = [?a, ?b], st_sorted = [?a, ?b]\<rparr>, True)"
    "struct_append ?b new_t_struct = (\<lparr>st_members = [?b], st_sorted = [?b]\<rparr>, True)"
    "struct_append ?a \<lparr>st_members = [?b], st_sorted = [?b]\<rparr> = (\<lparr>st_members = [?b, ?a], st_sorted = [?a, ?b]\<rparr>, True)"
    by (simp_all add: struct_append_def key_compare_def new_t_struct_def)
  have 1: "field_list 0 False [?p, ?q] = Inr \<lparr>st_members = [?a, ?b], st_sorted = [?a, ?b]\<rparr>"
    and 2: "field_list 0 False [?q, ?p] = Inr \<lparr>st_members = [?b, ?a], st_sorted = [?a, ?b]\<rparr>"
    by (simp_all add: field_list_def field_list_step_def field_identifier_def s Let_def)
  have m: "mset (st_members \<lparr>st_members = [?a, ?b], st_sorted = [?a, ?b]\<rparr>) =
      mset (st_members \<lparr>st_members = [?b, ?a], st_sorted = [?a, ?b]\<rparr>)" by simp
  note eq = fingerprint_ignores_order [OF 1 2 m, of "''S''" False "''T''" False]
  show ?thesis
    unfolding Let_def
    apply (rule exI [of _ "\<lparr>st_members = [?a, ?b], st_sorted = [?a, ?b]\<rparr>"])
    apply (rule exI [of _ "\<lparr>st_members = [?b, ?a], st_sorted = [?a, ?b]\<rparr>"])
    apply (rule conjI [OF 1 conjI [OF 2 eq]])
    done
qed

end
