(* ===== verification/Socket.thy ===== *)
theory Socket
  imports Transport CText
begin

text \<open>
  \<^verbatim>\<open>TSocket\<close> (\<^verbatim>\<open>transport/TSocket.cpp\<close>): a stream socket as a transport, and
  \<^verbatim>\<open>TSocketPool\<close>, which picks one of several servers. The system calls are a record of functions
  over the state of the operating system, so that every retry and every error is a branch.
\<close>

section \<open>System calls\<close>

text \<open>
  The error numbers that the code distinguishes (\<^verbatim>\<open>EWOULDBLOCK\<close> is \<^verbatim>\<open>EAGAIN\<close>). A clock
  reading is in microseconds. \<open>'a\<close> are the addresses of \<^verbatim>\<open>getaddrinfo\<close>.
\<close>

datatype errno =
    EAGAIN | EINTR | ECONNRESET | ENOTCONN | ETIMEDOUT | EPIPE | EINPROGRESS | ErrnoOther

datatype 'a peer = Inet 'a | UnixPath string

record ('a, 'e) sys =
  sys_recv :: "int \<Rightarrow> nat \<Rightarrow> 'e \<Rightarrow> (errno + bytes) \<times> 'e"
  sys_recv_peek :: "int \<Rightarrow> 'e \<Rightarrow> (errno + bytes) \<times> 'e"
  sys_send :: "int \<Rightarrow> bytes \<Rightarrow> 'e \<Rightarrow> (errno + nat) \<times> 'e"
  sys_gettimeofday :: "'e \<Rightarrow> int \<times> 'e"
  sys_usleep :: "nat \<Rightarrow> 'e \<Rightarrow> 'e"
  sys_time :: "'e \<Rightarrow> int \<times> 'e"
  sys_close :: "int \<Rightarrow> 'e \<Rightarrow> 'e"
  sys_getaddrinfo :: "string \<Rightarrow> int \<Rightarrow> 'e \<Rightarrow> 'a list option \<times> 'e"
  sys_socket :: "'a option \<Rightarrow> 'e \<Rightarrow> int \<times> 'e"
  sys_set_blocking :: "int \<Rightarrow> bool \<Rightarrow> 'e \<Rightarrow> bool \<times> 'e"
  sys_connect :: "int \<Rightarrow> 'a peer \<Rightarrow> 'e \<Rightarrow> errno option \<times> 'e"
  sys_poll :: "int \<Rightarrow> int \<Rightarrow> 'e \<Rightarrow> int \<times> 'e"
  sys_so_error :: "int \<Rightarrow> 'e \<Rightarrow> int option \<times> 'e"

section \<open>TSocket\<close>

text \<open>
  The object, without the cached names of the peer. The options that \<^verbatim>\<open>setsockopt\<close> hands to the
  system are members only, since a failure of the call is just reported.
\<close>

record tsocket =
  host :: string
  port :: int
  path :: string
  socket :: int
  connTimeout :: int
  sendTimeout :: int
  recvTimeout :: int
  lingerOn :: bool
  lingerVal :: int
  noDelay :: bool
  maxRecvRetries :: int

definition new_TSocket_at :: "string \<Rightarrow> int \<Rightarrow> string \<Rightarrow> int \<Rightarrow> tsocket" where
  "new_TSocket_at h p pth fd = \<lparr>host = h, port = p, path = pth, socket = fd, connTimeout = 0, sendTimeout = 0,
     recvTimeout = 0, lingerOn = True, lingerVal = 0, noDelay = True, maxRecvRetries = 5\<rparr>"

definition new_TSocket :: tsocket where
  "new_TSocket = new_TSocket_at '''' 0 '''' (- 1)"

definition sock_isOpen :: "tsocket \<times> 'e \<Rightarrow> bool" where
  "sock_isOpen = (\<lambda>(t, e). socket t \<ge> 0)"

definition sock_throw :: "transport_exc_type \<Rightarrow> tsocket \<times> 'e \<Rightarrow> (exc + 'b) \<times> tsocket \<times> 'e" where
  "sock_throw k s = (Inl (TTransportException k), s)"

definition sock_peek :: "('a, 'e) sys \<Rightarrow> (tsocket \<times> 'e, bool) tio" where
  "sock_peek sys = (\<lambda>(t, e).
     if \<not> socket t \<ge> 0 then (Inr False, (t, e))
     else case sys_recv_peek sys (socket t) e of
       (Inl err, e') \<Rightarrow> sock_throw TE_UNKNOWN (t, e')
     | (Inr bs, e') \<Rightarrow> (Inr (bs \<noteq> []), (t, e')))"

definition sock_close :: "('a, 'e) sys \<Rightarrow> (tsocket \<times> 'e, unit) tio" where
  "sock_close sys = (\<lambda>(t, e).
     (Inr (), (t\<lparr>socket := - 1\<rparr>, if socket t \<ge> 0 then sys_close sys (socket t) e else e)))"

definition setSocketFD :: "('a, 'e) sys \<Rightarrow> int \<Rightarrow> (tsocket \<times> 'e, unit) tio" where
  "setSocketFD sys fd = (\<lambda>(t, e).
     bindT (if socket t \<ge> 0 then sock_close sys else ret ()) (\<lambda>_.
     modify (\<lambda>(t, e). (t\<lparr>socket := fd\<rparr>, e))) (t, e))"

text \<open>
  \<^verbatim>\<open>read\<close> from \<^verbatim>\<open>try_again\<close> on. The elapsed time is cut to 32 bits, as is the threshold.
\<close>

definition recv_error :: "errno \<Rightarrow> transport_exc_type" where
  "recv_error err = (case err of
     ECONNRESET \<Rightarrow> TE_NOT_OPEN
   | ENOTCONN \<Rightarrow> TE_NOT_OPEN
   | ETIMEDOUT \<Rightarrow> TE_TIMED_OUT
   | _ \<Rightarrow> TE_UNKNOWN)"

function sock_read_try :: "('a, 'e) sys \<Rightarrow> nat \<Rightarrow> nat \<Rightarrow> int \<Rightarrow> tsocket \<times> 'e \<Rightarrow>
    (exc + bytes) \<times> tsocket \<times> 'e" where
  "sock_read_try sys eagainThresholdMicros len retries (t, e) =
     (case (if recvTimeout t > 0 then sys_gettimeofday sys e else (0, e)) of (begin_t, e1) \<Rightarrow>
      case sys_recv sys (socket t) len e1 of
        (Inr got, e2) \<Rightarrow> (Inr got, (t, e2))
      | (Inl err, e2) \<Rightarrow>
          if err = EAGAIN then
            if recvTimeout t = 0 then sock_throw TE_TIMED_OUT (t, e2)
            else case sys_gettimeofday sys e2 of (end_t, e3) \<Rightarrow>
              let readElapsedMicros = nat ((end_t - begin_t) mod 2 ^ 32) in
              if eagainThresholdMicros = 0 \<or> readElapsedMicros < eagainThresholdMicros then
                if retries < maxRecvRetries t
                then sock_read_try sys eagainThresholdMicros len (retries + 1) (t, sys_usleep sys 50 e3)
                else sock_throw TE_TIMED_OUT (t, e3)
              else sock_throw TE_TIMED_OUT (t, e3)
          else if err = EINTR \<and> retries < maxRecvRetries t
            then sock_read_try sys eagainThresholdMicros len (retries + 1) (t, e2)
          else sock_throw (recv_error err) (t, e2))"
  by pat_completeness auto
termination
  by (relation "measure (\<lambda>(sys, th, len, retries, (t, e)). nat (maxRecvRetries t - retries))") auto

declare sock_read_try.simps [simp del]

definition sock_read :: "('a, 'e) sys \<Rightarrow> nat \<Rightarrow> (tsocket \<times> 'e, bytes) tio" where
  "sock_read sys len = (\<lambda>(t, e).
     if socket t < 0 then sock_throw TE_NOT_OPEN (t, e)
     else
       let eagainThresholdMicros =
             (if recvTimeout t \<noteq> 0
              then nat ((recvTimeout t * 1000) div (if maxRecvRetries t > 0 then maxRecvRetries t else 2) mod 2 ^ 32)
              else 0) in
       sock_read_try sys eagainThresholdMicros len 0 (t, e))"

definition sock_write_partial :: "('a, 'e) sys \<Rightarrow> bytes \<Rightarrow> (tsocket \<times> 'e, nat) tio" where
  "sock_write_partial sys buf = (\<lambda>(t, e).
     if socket t < 0 then sock_throw TE_NOT_OPEN (t, e)
     else case sys_send sys (socket t) buf e of
       (Inl err, e') \<Rightarrow>
         if err = EAGAIN then (Inr 0, (t, e'))
         else if err = EPIPE \<or> err = ECONNRESET \<or> err = ENOTCONN
           then bindT (sock_close sys) (\<lambda>_. sock_throw TE_NOT_OPEN) (t, e')
         else sock_throw TE_UNKNOWN (t, e')
     | (Inr b, e') \<Rightarrow> if b = 0 then sock_throw TE_NOT_OPEN (t, e') else (Inr b, (t, e')))"

definition sock_write_body :: "('a, 'e) sys \<Rightarrow> bytes \<Rightarrow> nat \<Rightarrow> (tsocket \<times> 'e, nat + unit) tio" where
  "sock_write_body sys buf sent =
     (if sent < length buf then
        bindT (sock_write_partial sys (drop sent buf)) (\<lambda>b.
        if b = 0 then sock_throw TE_TIMED_OUT
        else continue_with (u32 (sent + b)))
      else leave_with ())"

definition sock_write :: "('a, 'e) sys \<Rightarrow> bytes \<Rightarrow> (tsocket \<times> 'e, unit) tio" where
  "sock_write sys buf = loopT (sock_write_body sys buf) 0"

section \<open>Opening\<close>

text \<open>
  \<^verbatim>\<open>openConnection\<close>, with no address for a Unix domain socket. The path is cut by
  \<^verbatim>\<open>snprintf\<close> to the 107 characters that fit before the terminator. \<^verbatim>\<open>sys_set_blocking\<close> sets or
  clears \<^verbatim>\<open>O_NONBLOCK\<close>; at the end the flags of the new socket are restored, which is blocking.
\<close>

definition sock_connected :: "('a, 'e) sys \<Rightarrow> (tsocket \<times> 'e, unit) tio" where
  "sock_connected sys = (\<lambda>(t, e). case sys_set_blocking sys (socket t) True e of (_, e') \<Rightarrow> (Inr (), (t, e')))"

definition sock_await :: "('a, 'e) sys \<Rightarrow> (tsocket \<times> 'e, unit) tio" where
  "sock_await sys = (\<lambda>(t, e).
     case sys_poll sys (socket t) (connTimeout t) e of (r, e1) \<Rightarrow>
       if r > 0 then
         (case sys_so_error sys (socket t) e1 of
            (None, e2) \<Rightarrow> sock_throw TE_NOT_OPEN (t, e2)
          | (Some val, e2) \<Rightarrow> if val = 0 then sock_connected sys (t, e2) else sock_throw TE_NOT_OPEN (t, e2))
       else sock_throw TE_NOT_OPEN (t, e1))"

definition sock_connect :: "('a, 'e) sys \<Rightarrow> 'a peer \<Rightarrow> (tsocket \<times> 'e, unit) tio" where
  "sock_connect sys addr = (\<lambda>(t, e).
     case sys_connect sys (socket t) addr e of
       (None, e1) \<Rightarrow> sock_connected sys (t, e1)
     | (Some err, e1) \<Rightarrow>
         if err \<noteq> EINPROGRESS \<and> err \<noteq> EAGAIN then sock_throw TE_NOT_OPEN (t, e1)
         else sock_await sys (t, e1))"

definition openConnection :: "('a, 'e) sys \<Rightarrow> 'a option \<Rightarrow> (tsocket \<times> 'e, unit) tio" where
  "openConnection sys res = (\<lambda>(t, e).
     if socket t \<ge> 0 then (Inr (), (t, e))
     else case sys_socket sys (if path t \<noteq> [] then None else res) e of (fd, e1) \<Rightarrow>
       let t1 = t\<lparr>socket := fd\<rparr> in
       if fd = - 1 then sock_throw TE_NOT_OPEN (t1, e1)
       else case sys_set_blocking sys fd (\<not> connTimeout t > 0) e1 of (ok, e2) \<Rightarrow>
         if \<not> ok then sock_throw TE_NOT_OPEN (t1, e2)
         else if path t \<noteq> [] then
           (if length (path t) > 108 then sock_throw TE_NOT_OPEN (t1, e2)
            else sock_connect sys (UnixPath (take 107 (path t))) (t1, e2))
         else case res of
           None \<Rightarrow> (Inl UndefinedBehaviour, (t1, e2))
         | Some a \<Rightarrow> sock_connect sys (Inet a) (t1, e2))"

text \<open>The loop over the addresses: the exception of the last one is thrown on.\<close>

fun open_addresses :: "('a, 'e) sys \<Rightarrow> 'a list \<Rightarrow> (tsocket \<times> 'e, unit) tio" where
  "open_addresses sys [] = ret ()"
| "open_addresses sys (a # as) = (\<lambda>s.
     case openConnection sys (Some a) s of
       (Inr _, s') \<Rightarrow> (Inr (), s')
     | (Inl (TTransportException k), s') \<Rightarrow>
         (if as \<noteq> [] then bindT (sock_close sys) (\<lambda>_. open_addresses sys as) s'
          else bindT (sock_close sys) (\<lambda>_. sock_throw k) s')
     | (Inl x, s') \<Rightarrow> (Inl x, s'))"

definition local_open :: "('a, 'e) sys \<Rightarrow> (tsocket \<times> 'e, unit) tio" where
  "local_open sys = (\<lambda>(t, e).
     if socket t \<ge> 0 then (Inr (), (t, e))
     else if port t < 0 \<or> port t > 0xFFFF then sock_throw TE_NOT_OPEN (t, e)
     else case sys_getaddrinfo sys (host t) (port t) e of
       (None, e1) \<Rightarrow> bindT (sock_close sys) (\<lambda>_. sock_throw TE_NOT_OPEN) (t, e1)
     | (Some as, e1) \<Rightarrow> open_addresses sys as (t, e1))"

definition unix_open :: "('a, 'e) sys \<Rightarrow> (tsocket \<times> 'e, unit) tio" where
  "unix_open sys = (\<lambda>(t, e).
     if path t \<noteq> [] then openConnection sys None (t, e) else (Inr (), (t, e)))"

definition sock_open :: "('a, 'e) sys \<Rightarrow> (tsocket \<times> 'e, unit) tio" where
  "sock_open sys = (\<lambda>(t, e).
     if socket t \<ge> 0 then (Inr (), (t, e))
     else if path t \<noteq> [] then unix_open sys (t, e)
     else local_open sys (t, e))"

definition socket_transport :: "('a, 'e) sys \<Rightarrow> (tsocket \<times> 'e) ttransport" where
  "socket_transport sys = \<lparr>
     t_isOpen = sock_isOpen, t_peek = sock_peek sys, t_open = sock_open sys, t_close = sock_close sys,
     t_read = sock_read sys, t_readAll = readAll (sock_read sys), t_readEnd = base_readEnd,
     t_write = sock_write sys, t_writeEnd = base_writeEnd, t_flush = base_flush,
     t_borrow = base_borrow, t_consume = base_consume\<rparr>"


section \<open>A system of connected sockets\<close>

text \<open>
  The documented behaviour of \<^verbatim>\<open>recv\<close> and \<^verbatim>\<open>send\<close> on connected stream sockets: a call
  transfers at least one byte and at most what was asked for, or fails with an error; \<^verbatim>\<open>recv\<close>
  returns 0 at the end of the stream. A plan decides, call by call, which of these happens, and
  calls beyond the plan transfer all they can.
\<close>

datatype recv_event = RecvPiece nat | RecvError errno
datatype send_event = SendPiece nat | SendError errno

record endpoint =
  incoming :: bytes
  sent :: bytes
  recv_plan :: "recv_event list"
  send_plan :: "send_event list"

type_synonym kernel = "int \<Rightarrow> endpoint"

definition piece :: "nat \<Rightarrow> nat \<Rightarrow> nat" where
  "piece k n = min n (max 1 k)"

definition kernel_recv :: "int \<Rightarrow> nat \<Rightarrow> kernel \<Rightarrow> (errno + bytes) \<times> kernel" where
  "kernel_recv fd n k =
     (let ep = k fd in
      case recv_plan ep of
        [] \<Rightarrow> (Inr (take n (incoming ep)), k(fd := ep\<lparr>incoming := drop n (incoming ep)\<rparr>))
      | RecvError err # p \<Rightarrow> (Inl err, k(fd := ep\<lparr>recv_plan := p\<rparr>))
      | RecvPiece m # p \<Rightarrow> (Inr (take (piece m n) (incoming ep)),
          k(fd := ep\<lparr>recv_plan := p, incoming := drop (piece m n) (incoming ep)\<rparr>)))"

definition kernel_send :: "int \<Rightarrow> bytes \<Rightarrow> kernel \<Rightarrow> (errno + nat) \<times> kernel" where
  "kernel_send fd bs k =
     (let ep = k fd in
      case send_plan ep of
        [] \<Rightarrow> (Inr (length bs), k(fd := ep\<lparr>sent := sent ep @ bs\<rparr>))
      | SendError err # p \<Rightarrow> (Inl err, k(fd := ep\<lparr>send_plan := p\<rparr>))
      | SendPiece m # p \<Rightarrow> (Inr (piece m (length bs)),
          k(fd := ep\<lparr>send_plan := p, sent := sent ep @ take (piece m (length bs)) bs\<rparr>)))"

definition kernel_sys :: "(unit, kernel) sys" where
  "kernel_sys = \<lparr>
     sys_recv = kernel_recv,
     sys_recv_peek = (\<lambda>fd k. (Inr (take 1 (incoming (k fd))), k)),
     sys_send = kernel_send,
     sys_gettimeofday = (\<lambda>k. (0, k)),
     sys_usleep = (\<lambda>n k. k),
     sys_time = (\<lambda>k. (0, k)),
     sys_close = (\<lambda>fd k. k),
     sys_getaddrinfo = (\<lambda>h p k. (None, k)),
     sys_socket = (\<lambda>a k. (- 1, k)),
     sys_set_blocking = (\<lambda>fd b k. (True, k)),
     sys_connect = (\<lambda>fd a k. (Some ErrnoOther, k)),
     sys_poll = (\<lambda>fd n k. (0, k)),
     sys_so_error = (\<lambda>fd k. (Some 0, k))\<rparr>"

text \<open>
  \<open>survives m k p\<close>: after \<open>k\<close> interruptions, the plan interrupts no call more than \<open>m\<close> times
  in a row, and has no other errors.
\<close>

fun survives :: "int \<Rightarrow> int \<Rightarrow> recv_event list \<Rightarrow> bool" where
  "survives m k [] = True"
| "survives m k (RecvPiece n # p) = survives m 0 p"
| "survives m k (RecvError err # p) = (err = EINTR \<and> k < m \<and> survives m (k + 1) p)"

definition sock_rinv :: "tsocket \<times> kernel \<Rightarrow> bool" where
  "sock_rinv = (\<lambda>(t, k). socket t \<ge> 0 \<and> survives (maxRecvRetries t) 0 (recv_plan (k (socket t))))"

definition sock_pending :: "tsocket \<times> kernel \<Rightarrow> bytes" where
  "sock_pending = (\<lambda>(t, k). incoming (k (socket t)))"

lemma kernel_sys_simps [simp]:
  "sys_recv kernel_sys = kernel_recv" "sys_send kernel_sys = kernel_send"
  "sys_gettimeofday kernel_sys = (\<lambda>k. (0, k))" "sys_close kernel_sys = (\<lambda>fd k. k)"
  by (simp_all add: kernel_sys_def)

lemma read_try_stream:
  assumes "survives (maxRecvRetries t) retries (recv_plan (k (socket t)))"
  shows "\<exists>bs k'. sock_read_try kernel_sys th n retries (t, k) = (Inr bs, (t, k')) \<and>
    survives (maxRecvRetries t) 0 (recv_plan (k' (socket t))) \<and>
    incoming (k (socket t)) = bs @ incoming (k' (socket t)) \<and> length bs \<le> n \<and>
    (0 < n \<longrightarrow> incoming (k (socket t)) \<noteq> [] \<longrightarrow> bs \<noteq> [])"
  using assms
proof (induction "recv_plan (k (socket t))" arbitrary: k retries)
  case Nil
  have "k(socket t := k (socket t)) = k" by simp
  from Nil show ?case
    by (subst sock_read_try.simps) (simp add: kernel_recv_def Let_def)
next
  case (Cons ev p)
  note plan = Cons.hyps(2) [symmetric]
  show ?case
  proof (cases ev)
    case (RecvPiece m)
    with Cons.prems plan show ?thesis
      by (subst sock_read_try.simps) (auto simp: kernel_recv_def Let_def piece_def)
  next
    case (RecvError err)
    let ?k = "k(socket t := (k (socket t))\<lparr>recv_plan := p\<rparr>)"
    have er: "err = EINTR" "retries < maxRecvRetries t" "survives (maxRecvRetries t) (retries + 1) p"
      using Cons.prems plan RecvError by simp_all
    have "sock_read_try kernel_sys th n retries (t, k) = sock_read_try kernel_sys th n (retries + 1) (t, ?k)"
      using plan RecvError er by (subst sock_read_try.simps) (simp add: kernel_recv_def Let_def)
    with Cons.hyps(1) [of ?k "retries + 1"] er show ?thesis by simp
  qed
qed

interpretation sock_stream: stream_source "socket_transport kernel_sys" sock_rinv sock_pending
proof (rule stream_sourceI)
  fix s n
  assume "sock_rinv s"
  then show "\<exists>bs s'. t_read (socket_transport kernel_sys) n s = (Inr bs, s') \<and> sock_rinv s' \<and>
      sock_pending s = bs @ sock_pending s' \<and> length bs \<le> n \<and> (0 < n \<longrightarrow> sock_pending s \<noteq> [] \<longrightarrow> bs \<noteq> [])"
    using read_try_stream [of "fst s" 0 "snd s" _ n]
    by (cases s) (fastforce simp: socket_transport_def sock_read_def sock_rinv_def sock_pending_def Let_def)
qed

interpretation sock_source: byte_source "socket_transport kernel_sys" sock_rinv sock_pending
  by unfold_locales
    (use sock_stream.readAll_exact sock_stream.readAll_short in
      \<open>fastforce simp: socket_transport_def base_borrow_def ret_def\<close>)+

interpretation sock_full: full_source "socket_transport kernel_sys" sock_rinv sock_pending ..

section \<open>Writing\<close>

text \<open>The sends of a plan without errors.\<close>

definition sends_ok :: "send_event list \<Rightarrow> bool" where
  "sends_ok p \<longleftrightarrow> (\<forall>ev \<in> set p. \<exists>n. ev = SendPiece n)"

lemma kernel_send_cases:
  obtains (ok) n ep where "kernel_send fd bs k = (Inr n, k(fd := ep))" "n \<le> length bs" "bs \<noteq> [] \<Longrightarrow> 0 < n"
      "sent ep = sent (k fd) @ take n bs" "send_plan ep = tl (send_plan (k fd))"
  | (err) err ep where "kernel_send fd bs k = (Inl err, k(fd := ep))" "sent ep = sent (k fd)"
      "\<not> sends_ok (send_plan (k fd))"
proof (cases "send_plan (k fd)")
  case Nil
  then show ?thesis
    by (intro ok [of "length bs" "(k fd)\<lparr>sent := sent (k fd) @ bs\<rparr>"]) (simp_all add: kernel_send_def Let_def)
next
  case (Cons ev p)
  show ?thesis
  proof (cases ev)
    case (SendPiece m)
    with Cons show ?thesis
      by (intro ok [of "piece m (length bs)" "(k fd)\<lparr>send_plan := p, sent := sent (k fd) @ take (piece m (length bs)) bs\<rparr>"])
        (simp_all add: kernel_send_def Let_def piece_def)
  next
    case (SendError e)
    with Cons show ?thesis
      by (intro err [of e "(k fd)\<lparr>send_plan := p\<rparr>"]) (simp_all add: kernel_send_def Let_def sends_ok_def)
  qed
qed

definition sock_sent :: "tsocket \<times> kernel \<Rightarrow> bytes" where
  "sock_sent = (\<lambda>(t, k). sent (k (socket t)))"

definition sock_sends_ok :: "tsocket \<times> kernel \<Rightarrow> bool" where
  "sock_sends_ok = (\<lambda>(t, k). socket t \<ge> 0 \<and> sends_ok (send_plan (k (socket t))))"

text \<open>What a write has done when it is left: all of the bytes, or some of them and an exception.\<close>

definition write_done :: "int \<Rightarrow> bytes \<Rightarrow> bytes \<Rightarrow> exc + unit \<Rightarrow> tsocket \<times> kernel \<Rightarrow> bool" where
  "write_done fd old buf r = (\<lambda>(t, k). case r of
     Inr _ \<Rightarrow> socket t = fd \<and> sent (k fd) = old @ buf
   | Inl x \<Rightarrow> (\<exists>e n. x = TTransportException e \<and> n < length buf \<and> sent (k fd) = old @ take n buf))"

lemma sends_ok_tl: "sends_ok p \<Longrightarrow> sends_ok (tl p)"
  by (cases p) (simp_all add: sends_ok_def)

lemma sock_write_done:
  assumes "socket t \<ge> 0" and "length buf < 2 ^ 32"
  shows "\<exists>r s'. sock_write kernel_sys buf (t, k) = (r, s') \<and> r \<noteq> Inl Diverges \<and>
    write_done (socket t) (sent (k (socket t))) buf r s' \<and>
    (sock_sends_ok (t, k) \<longrightarrow> r = Inr () \<and> sock_sends_ok s')"
proof -
  let ?fd = "socket t" and ?old = "sent (k (socket t))"
  let ?done = "\<lambda>r s'. write_done ?fd ?old buf r s' \<and> (sock_sends_ok (t, k) \<longrightarrow> r = Inr () \<and> sock_sends_ok s')"
  have "\<exists>r s'. loopT (sock_write_body kernel_sys buf) 0 (t, k) = (r, s') \<and> r \<noteq> Inl Diverges \<and> ?done r s'"
  proof (rule loopT_total [where m = "\<lambda>n s. length buf - n" and
        I = "\<lambda>n (t', k'). t' = t \<and> n \<le> length buf \<and> sent (k' ?fd) = ?old @ take n buf \<and>
          (sock_sends_ok (t, k) \<longrightarrow> sock_sends_ok (t, k'))"])
    fix n and s :: "tsocket \<times> kernel"
    assume "case s of (t', k') \<Rightarrow> t' = t \<and> n \<le> length buf \<and> sent (k' ?fd) = ?old @ take n buf \<and>
      (sock_sends_ok (t, k) \<longrightarrow> sock_sends_ok (t, k'))"
    then obtain k1 where s: "s = (t, k1)" and n: "n \<le> length buf" and dn: "sent (k1 ?fd) = ?old @ take n buf"
      and oks: "sock_sends_ok (t, k) \<longrightarrow> sock_sends_ok (t, k1)"
      by (cases s) auto
    show "\<exists>r s'. sock_write_body kernel_sys buf n s = (r, s') \<and>
        (case r of Inl e \<Rightarrow> e \<noteq> Diverges \<and> ?done (Inl e) s'
         | Inr (Inl l') \<Rightarrow> (case s' of (t', k') \<Rightarrow> t' = t \<and> l' \<le> length buf \<and> sent (k' ?fd) = ?old @ take l' buf \<and>
             (sock_sends_ok (t, k) \<longrightarrow> sock_sends_ok (t, k'))) \<and> length buf - l' < length buf - n
         | Inr (Inr x) \<Rightarrow> ?done (Inr x) s')"
    proof (cases "n < length buf")
      case False
      with n dn s oks show ?thesis by (simp add: sock_write_body_def leave_with_def write_done_def)
    next
      case True
      show ?thesis
      proof (cases rule: kernel_send_cases [where bs = "drop n buf" and fd = ?fd and k = k1])
        case (ok b ep)
        then have b: "0 < b" "n + b \<le> length buf" using True by auto
        have "sock_sends_ok (t, k) \<longrightarrow> sock_sends_ok (t, k1(?fd := ep))"
          using oks ok(5) sends_ok_tl [of "send_plan (k1 ?fd)"] by (simp add: sock_sends_ok_def)
        with b ok(1,4) True s assms dn show ?thesis
          by (simp add: sock_write_body_def sock_write_partial_def bindT_def continue_with_def take_add)
      next
        case (err er ep)
        have bad: "\<not> sock_sends_ok (t, k)" using oks err(3) by (auto simp: sock_sends_ok_def)
        have "write_done ?fd ?old buf (Inl (TTransportException e)) (t', k1(?fd := ep))" for e t'
          using True dn err by (auto simp: write_done_def)
        with bad err(1) True s assms(1) show ?thesis
          by (simp add: sock_write_body_def sock_write_partial_def bindT_def sock_throw_def sock_close_def)
      qed
    qed
  qed simp
  then show ?thesis by (simp add: sock_write_def)
qed

interpretation sock_sink: byte_sink "socket_transport kernel_sys" sock_sends_ok "\<lambda>s n. n < 2 ^ 32" sock_sent
proof unfold_locales
  fix s :: "tsocket \<times> kernel" and bs :: bytes and n
  assume s: "sock_sends_ok s" and len: "length bs + n < 2 ^ 32"
  obtain t k where tk: "s = (t, k)" by (cases s)
  with s len sock_write_done [of t bs k] show "\<exists>s'. t_write (socket_transport kernel_sys) bs s = (Inr (), s') \<and>
      sock_sends_ok s' \<and> sock_sent s' = sock_sent s @ bs \<and> n < 2 ^ 32"
    by (auto simp: socket_transport_def sock_sends_ok_def write_done_def sock_sent_def)
qed simp

text \<open>
  C32: over a connected socket, however the system splits the stream and as long as no read is
  interrupted more often than \<^verbatim>\<open>maxRecvRetries_\<close> times in a row, \<^verbatim>\<open>readAll\<close> returns exactly
  the next bytes of the stream, and at its end throws \<^verbatim>\<open>END_OF_FILE\<close>.
\<close>

theorem socket_reads_the_stream:
  assumes "socket t \<ge> 0" and "survives (maxRecvRetries t) 0 (recv_plan (k (socket t)))"
  shows "\<exists>s'. readAll (sock_read kernel_sys) n (t, k) =
    (if n \<le> length (incoming (k (socket t))) then Inr (take n (incoming (k (socket t))))
     else Inl (TTransportException TE_END_OF_FILE), s') \<and>
    sock_pending s' = drop n (incoming (k (socket t)))"
proof -
  have "sock_rinv (t, k)" and "sock_pending (t, k) = incoming (k (socket t))"
    using assms by (simp_all add: sock_rinv_def sock_pending_def)
  then show ?thesis
    using sock_stream.readAll_exact [of "(t, k)" n] sock_stream.readAll_short [of "(t, k)" n]
    by (cases "n \<le> length (incoming (k (socket t)))") (fastforce simp: socket_transport_def)+
qed

text \<open>
  C33: whatever \<^verbatim>\<open>send\<close> does, \<^verbatim>\<open>write\<close> ends: it returns when all bytes have been sent in
  order, once each, or throws a transport exception when only a part of them has been.
\<close>

theorem socket_write_all_or_exception:
  assumes "socket t \<ge> 0" and "length buf < 2 ^ 32"
  shows "\<exists>r t' k'. sock_write kernel_sys buf (t, k) = (r, (t', k')) \<and>
    (case r of
       Inr _ \<Rightarrow> sent (k' (socket t)) = sent (k (socket t)) @ buf
     | Inl x \<Rightarrow> (\<exists>e n. x = TTransportException e \<and> n < length buf \<and>
         sent (k' (socket t)) = sent (k (socket t)) @ take n buf))"
  using sock_write_done [OF assms, of k] by (fastforce simp: write_done_def split: sum.splits)

section \<open>Opening fails\<close>







theorem socket_reads_the_stream_witness:
  "\<exists>s'. readAll (sock_read kernel_sys) 3
      (new_TSocket_at '''' 0 '''' 4, \<lambda>fd. \<lparr>incoming = [1, 2, 3, 4], sent = [],
         recv_plan = [RecvError EINTR, RecvPiece 2, RecvError EINTR, RecvError EINTR], send_plan = []\<rparr>) =
      (Inr [1, 2, 3], s') \<and> sock_pending s' = [4]"
proof -
  let ?k = "\<lambda>fd :: int. \<lparr>incoming = [1, 2, 3, 4], sent = [],
    recv_plan = [RecvError EINTR, RecvPiece 2, RecvError EINTR, RecvError EINTR], send_plan = []\<rparr>"
  have "0 \<le> socket (new_TSocket_at '''' 0 '''' 4)" and
    "survives (maxRecvRetries (new_TSocket_at '''' 0 '''' 4)) 0 (recv_plan (?k (socket (new_TSocket_at '''' 0 '''' 4))))"
    by (simp_all add: new_TSocket_at_def)
  from socket_reads_the_stream [OF this, of 3] show ?thesis by (simp add: new_TSocket_at_def)
qed

theorem socket_write_all_or_exception_witness:
  "\<exists>r t' k'. sock_write kernel_sys [1, 2, 3]
      (new_TSocket_at '''' 0 '''' 4, \<lambda>fd. \<lparr>incoming = [], sent = [9], recv_plan = [],
         send_plan = [SendPiece 2, SendError EAGAIN]\<rparr>) = (r, (t', k')) \<and>
    (case r of Inr _ \<Rightarrow> sent (k' 4) = [9, 1, 2, 3]
     | Inl x \<Rightarrow> (\<exists>e n. x = TTransportException e \<and> n < 3 \<and> sent (k' 4) = 9 # take n [1, 2, 3]))"
proof -
  let ?t = "new_TSocket_at '''' 0 '''' 4" and ?k = "\<lambda>fd :: int. \<lparr>incoming = [], sent = [9], recv_plan = [],
    send_plan = [SendPiece 2, SendError EAGAIN]\<rparr>"
  have len: "length [1, 2, 3 :: u8] < 2 ^ 32" and opn: "0 \<le> socket ?t" by (simp_all add: new_TSocket_at_def)
  from socket_write_all_or_exception [OF opn len, of ?k] show ?thesis
    by (simp add: new_TSocket_at_def numeral_3_eq_3 cong: sum.case_cong)
qed

end
