(* ===== verification/SocketPool.thy ===== *)
theory SocketPool
  imports Socket "HOL-Library.Multiset"
begin

text \<open>
  \<^verbatim>\<open>TSocketPool\<close> (\<^verbatim>\<open>transport/TSocketPool.cpp\<close>): a socket that connects to one of several
  servers, remembers which of them failed, and keeps the sockets it opened. The servers are shared
  objects, kept in a store under their addresses. \<^verbatim>\<open>random_shuffle\<close> is an argument.
\<close>

section \<open>The pool\<close>

record pool_server =
  ps_host :: string
  ps_port :: int
  ps_socket :: int
  lastFailTime :: int
  consecutiveFailures :: int

definition new_pool_server :: "string \<Rightarrow> int \<Rightarrow> pool_server" where
  "new_pool_server h p = \<lparr>ps_host = h, ps_port = p, ps_socket = - 1, lastFailTime = 0, consecutiveFailures = 0\<rparr>"

record socket_pool =
  p_sock :: tsocket
  store :: "nat \<Rightarrow> pool_server"
  servers :: "nat list"
  currentServer :: "nat option"
  numRetries :: int
  retryInterval :: int
  maxConsecutiveFailures :: int
  randomize :: bool
  alwaysTryLast :: bool

definition new_TSocketPool :: "(nat \<Rightarrow> pool_server) \<Rightarrow> nat list \<Rightarrow> socket_pool" where
  "new_TSocketPool st ss = \<lparr>p_sock = new_TSocket, store = st, servers = ss, currentServer = None, numRetries = 1,
     retryInterval = 60, maxConsecutiveFailures = 1, randomize = True, alwaysTryLast = True\<rparr>"

definition addServer :: "nat \<Rightarrow> socket_pool \<Rightarrow> socket_pool" where
  "addServer i p = p\<lparr>servers := servers p @ [i]\<rparr>"

definition setCurrentServer :: "nat \<Rightarrow> socket_pool \<Rightarrow> socket_pool" where
  "setCurrentServer i p =
     (let s = store p i in
      p\<lparr>currentServer := Some i,
        p_sock := (p_sock p)\<lparr>host := ps_host s, port := ps_port s, socket := ps_socket s\<rparr>\<rparr>)"

definition set_server :: "nat \<Rightarrow> (pool_server \<Rightarrow> pool_server) \<Rightarrow> socket_pool \<Rightarrow> socket_pool" where
  "set_server i f p = p\<lparr>store := (store p)(i := f (store p i))\<rparr>"

text \<open>
  The attempts at one server. A handler of \<^verbatim>\<open>TException\<close> takes any exception of the library;
  \<^verbatim>\<open>close\<close>, which \<^verbatim>\<open>TSocket::open\<close> calls on the way, leaves the socket of the server at
  \<open>-1\<close>, which it is then.
\<close>

definition is_TException :: "exc \<Rightarrow> bool" where
  "is_TException x = (case x of
     TTransportException _ \<Rightarrow> True | TProtocolException _ \<Rightarrow> True | TException \<Rightarrow> True | _ \<Rightarrow> False)"

fun pool_attempts :: "('a, 'e) sys \<Rightarrow> nat \<Rightarrow> nat \<Rightarrow> (socket_pool \<times> 'e, bool) tio" where
  "pool_attempts sys 0 i s = (Inr False, s)"
| "pool_attempts sys (Suc j) i (p, e) =
     (case sock_open sys (p_sock p, e) of
        (Inr _, (t, e')) \<Rightarrow>
          (Inr True, (set_server i (\<lambda>s. s\<lparr>ps_socket := socket t, lastFailTime := 0\<rparr>) (p\<lparr>p_sock := t\<rparr>), e'))
      | (Inl x, (t, e')) \<Rightarrow>
          if is_TException x then pool_attempts sys j i (p\<lparr>p_sock := t\<lparr>socket := - 1\<rparr>\<rparr>, e')
          else (Inl x, (p\<lparr>p_sock := t\<rparr>, e')))"

definition count_failure :: "('a, 'e) sys \<Rightarrow> nat \<Rightarrow> (socket_pool \<times> 'e, unit) tio" where
  "count_failure sys i = (\<lambda>(p, e).
     let n = consecutiveFailures (store p i) + 1 in
     if n > maxConsecutiveFailures p then
       (case sys_time sys e of (now, e') \<Rightarrow>
          (Inr (), (set_server i (\<lambda>s. s\<lparr>consecutiveFailures := 0, lastFailTime := now\<rparr>) p, e')))
     else (Inr (), (set_server i (\<lambda>s. s\<lparr>consecutiveFailures := n\<rparr>) p, e)))"

definition retry_passed :: "('a, 'e) sys \<Rightarrow> nat \<Rightarrow> (socket_pool \<times> 'e, bool) tio" where
  "retry_passed sys i = (\<lambda>(p, e).
     let failed = lastFailTime (store p i) in
     if failed > 0 then
       (case sys_time sys e of (now, e') \<Rightarrow> (Inr (now - failed > retryInterval p), (p, e')))
     else (Inr (failed = 0), (p, e)))"

fun pool_loop :: "('a, 'e) sys \<Rightarrow> nat list \<Rightarrow> (socket_pool \<times> 'e, unit) tio" where
  "pool_loop sys [] = throw (TTransportException TE_NOT_OPEN)"
| "pool_loop sys (i # is) = (\<lambda>(p, e).
     let p1 = setCurrentServer i p in
     if socket (p_sock p1) \<ge> 0 then (Inr (), (p1, e))
     else
       bindT (retry_passed sys i) (\<lambda>retryIntervalPassed.
       let isLastServer = (alwaysTryLast p1 \<and> is = []) in
       if retryIntervalPassed \<or> isLastServer then
         bindT (pool_attempts sys (nat (numRetries p1)) i) (\<lambda>connected.
         if connected then ret ()
         else bindT (count_failure sys i) (\<lambda>_. pool_loop sys is))
       else pool_loop sys is) (p1, e))"

declare pool_loop.simps(2) [simp del]

definition pool_open :: "('a, 'e) sys \<Rightarrow> (nat list \<Rightarrow> 'e \<Rightarrow> nat list \<times> 'e) \<Rightarrow> (socket_pool \<times> 'e, unit) tio" where
  "pool_open sys shuffle = (\<lambda>(p, e).
     if servers p = [] then (Inl (TTransportException TE_NOT_OPEN), (p\<lparr>p_sock := (p_sock p)\<lparr>socket := - 1\<rparr>\<rparr>, e))
     else if socket (p_sock p) \<ge> 0 then (Inr (), (p, e))
     else case (if randomize p \<and> length (servers p) > 1 then shuffle (servers p) e else (servers p, e)) of
       (order, e1) \<Rightarrow> pool_loop sys order (p\<lparr>servers := order\<rparr>, e1))"

definition pool_close :: "('a, 'e) sys \<Rightarrow> (socket_pool \<times> 'e, unit) tio" where
  "pool_close sys = (\<lambda>(p, e).
     case sock_close sys (p_sock p, e) of (r, (t, e')) \<Rightarrow>
       let p1 = p\<lparr>p_sock := t\<rparr> in
       (Inr (), (case currentServer p of
          None \<Rightarrow> p1
        | Some i \<Rightarrow> set_server i (\<lambda>s. s\<lparr>ps_socket := - 1\<rparr>) p1, e')))"

section \<open>Which server is chosen\<close>

text \<open>
  The choice, stated without the attempts: the first server, in the order drawn, that has a socket
  already or may be tried (it is not marked as down, or its time has passed, or it is the last one
  and \<^verbatim>\<open>alwaysTryLast_\<close> is set) and accepts a connection.
\<close>

definition may_try :: "socket_pool \<Rightarrow> int \<Rightarrow> bool \<Rightarrow> nat \<Rightarrow> bool" where
  "may_try p now final i \<longleftrightarrow> lastFailTime (store p i) = 0 \<or>
     0 < lastFailTime (store p i) \<and> now - lastFailTime (store p i) > retryInterval p \<or> (alwaysTryLast p \<and> final)"

definition available :: "(string \<Rightarrow> int \<Rightarrow> bool) \<Rightarrow> socket_pool \<Rightarrow> int \<Rightarrow> bool \<Rightarrow> nat \<Rightarrow> bool" where
  "available up p now final i \<longleftrightarrow> ps_socket (store p i) \<ge> 0 \<or>
     may_try p now final i \<and> up (ps_host (store p i)) (ps_port (store p i))"

fun choice :: "(string \<Rightarrow> int \<Rightarrow> bool) \<Rightarrow> socket_pool \<Rightarrow> int \<Rightarrow> nat list \<Rightarrow> nat option" where
  "choice up p now [] = None"
| "choice up p now (i # is) = (if available up p now (is = []) i then Some i else choice up p now is)"

text \<open>
  What is assumed of connecting: to a server that is up it succeeds, to another it fails with an
  exception and leaves the socket closed.
\<close>

definition connects :: "('a, 'e) sys \<Rightarrow> (string \<Rightarrow> int \<Rightarrow> bool) \<Rightarrow> int \<Rightarrow> bool" where
  "connects sys up now \<longleftrightarrow> (\<forall>e. sys_time sys e = (now, e)) \<and> (\<forall>t e. socket t < 0 \<and> path t = [] \<longrightarrow>
     (if up (host t) (port t)
      then \<exists>fd \<ge> 0. sock_open sys (t, e) = (Inr (), (t\<lparr>socket := fd\<rparr>, e))
      else \<exists>fd < 0. sock_open sys (t, e) = (Inl (TTransportException TE_NOT_OPEN), (t\<lparr>socket := fd\<rparr>, e))))"

lemma set_server_simps [simp]:
  "p_sock (set_server i f p) = p_sock p" "servers (set_server i f p) = servers p"
  "currentServer (set_server i f p) = currentServer p" "store (set_server i f p) = (store p)(i := f (store p i))"
  "retryInterval (set_server i f p) = retryInterval p" "alwaysTryLast (set_server i f p) = alwaysTryLast p"
  "numRetries (set_server i f p) = numRetries p"
  by (simp_all add: set_server_def)

lemma set_current_simps [simp]:
  "store (setCurrentServer i p) = store p" "servers (setCurrentServer i p) = servers p"
  "currentServer (setCurrentServer i p) = Some i" "socket (p_sock (setCurrentServer i p)) = ps_socket (store p i)"
  "host (p_sock (setCurrentServer i p)) = ps_host (store p i)" "port (p_sock (setCurrentServer i p)) = ps_port (store p i)"
  "retryInterval (setCurrentServer i p) = retryInterval p" "alwaysTryLast (setCurrentServer i p) = alwaysTryLast p"
  "numRetries (setCurrentServer i p) = numRetries p" "path (p_sock (setCurrentServer i p)) = path (p_sock p)"
  by (simp_all add: setCurrentServer_def Let_def)

lemma attempts_down:
  assumes "connects sys up now" and "\<not> up (host (p_sock p)) (port (p_sock p))" and "socket (p_sock p) < 0"
    and "path (p_sock p) = []"
  shows "\<exists>t. pool_attempts sys n i (p, e) = (Inr False, (p\<lparr>p_sock := t\<rparr>, e)) \<and> path t = []"
  using assms
proof (induction n arbitrary: p)
  case 0
  have "p\<lparr>p_sock := p_sock p\<rparr> = p" by simp
  then show ?case using 0 by (metis pool_attempts.simps(1))
next
  case (Suc n)
  then obtain fd where "sock_open sys (p_sock p, e) = (Inl (TTransportException TE_NOT_OPEN), ((p_sock p)\<lparr>socket := fd\<rparr>, e))"
    unfolding connects_def by meson
  then show ?case
    using Suc.IH [of "p\<lparr>p_sock := (p_sock p)\<lparr>socket := - 1\<rparr>\<rparr>"] Suc.prems by (simp add: is_TException_def)
qed

lemma attempts_up:
  assumes "connects sys up now" and "up (host (p_sock p)) (port (p_sock p))" and "socket (p_sock p) < 0"
    and "path (p_sock p) = []"
  shows "\<exists>p'. pool_attempts sys (Suc n) i (p, e) = (Inr True, (p', e)) \<and> currentServer p' = currentServer p \<and>
    0 \<le> socket (p_sock p') \<and> ps_socket (store p' i) = socket (p_sock p')"
proof -
  obtain fd where "0 \<le> fd" "sock_open sys (p_sock p, e) = (Inr (), ((p_sock p)\<lparr>socket := fd\<rparr>, e))"
    using assms unfolding connects_def by meson
  then show ?thesis by simp
qed

lemma choice_cong:
  assumes "\<And>i. i \<in> set is \<Longrightarrow> store q i = store p i" and "retryInterval q = retryInterval p"
    and "alwaysTryLast q = alwaysTryLast p"
  shows "choice up q now is = choice up p now is"
proof -
  have "available up q now final i = available up p now final i" if "i \<in> set is" for final i
    using assms that by (simp add: available_def may_try_def)
  then show ?thesis by (induction "is") auto
qed

lemma pool_loop_choice:
  assumes "connects sys up now" and "0 < numRetries p" and "distinct order" and "path (p_sock p) = []"
  shows "case choice up p now order of
      None \<Rightarrow> \<exists>s'. pool_loop sys order (p, e) = (Inl (TTransportException TE_NOT_OPEN), s')
    | Some i \<Rightarrow> \<exists>p'. pool_loop sys order (p, e) = (Inr (), (p', e)) \<and> currentServer p' = Some i \<and>
        0 \<le> socket (p_sock p') \<and> ps_socket (store p' i) = socket (p_sock p')"
  using assms(2-4)
proof (induction order arbitrary: p)
  case Nil
  then show ?case by (simp add: throw_def)
next
  case (Cons i "is")
  let ?p1 = "setCurrentServer i p"
  have rest: "choice up q now is = choice up p now is"
    if st: "\<And>j. j \<noteq> i \<Longrightarrow> store q j = store p j" and "retryInterval q = retryInterval p" "alwaysTryLast q = alwaysTryLast p" for q
  proof (rule choice_cong)
    show "store q j = store p j" if "j \<in> set is" for j by (rule st) (use Cons.prems(2) that in auto)
  qed (use that in simp_all)
  show ?case
  proof (cases "ps_socket (store p i) \<ge> 0")
    case True
    then show ?thesis by (simp add: available_def pool_loop.simps(2) Let_def)
  next
    case closed: False
    have time: "sys_time sys e = (now, e)" using assms(1) by (simp add: connects_def)
    have passed: "retry_passed sys i (?p1, e) = (Inr (lastFailTime (store p i) = 0 \<or>
        0 < lastFailTime (store p i) \<and> now - lastFailTime (store p i) > retryInterval p), (?p1, e))"
      by (auto simp: retry_passed_def time Let_def)
    have next_try: "pool_loop sys (i # is) (p, e) =
        (if may_try p now (is = []) i then
           bindT (pool_attempts sys (nat (numRetries p)) i) (\<lambda>connected.
           if connected then ret () else bindT (count_failure sys i) (\<lambda>_. pool_loop sys is)) (?p1, e)
         else pool_loop sys is (?p1, e))"
      using closed by (simp add: bindT_ok [where m = "retry_passed sys i", OF passed] pool_loop.simps(2) may_try_def Let_def)
    show ?thesis
    proof (cases "may_try p now (is = []) i")
      case False
      with next_try Cons.IH [of ?p1] Cons.prems closed rest [of ?p1] show ?thesis
        by (simp add: available_def split: option.splits)
    next
      case may: True
      show ?thesis
      proof (cases "up (ps_host (store p i)) (ps_port (store p i))")
        case True
        obtain n where n: "nat (numRetries p) = Suc n" using Cons.prems(1) by (cases "nat (numRetries p)") auto
        obtain p' where at: "pool_attempts sys (Suc n) i (?p1, e) = (Inr True, (p', e))" and
            "currentServer p' = Some i" "0 \<le> socket (p_sock p')" "ps_socket (store p' i) = socket (p_sock p')"
          using attempts_up [OF assms(1), of ?p1 n i e] True closed Cons.prems(3) by auto
        with may next_try True closed n show ?thesis
          by (simp add: available_def bindT_ok [where m = "pool_attempts sys _ i", OF at] ret_def)
      next
        case False
        then obtain t where at: "pool_attempts sys (nat (numRetries p)) i (?p1, e) = (Inr False, (?p1\<lparr>p_sock := t\<rparr>, e))"
            and "path t = []"
          using attempts_down [OF assms(1), of ?p1 "nat (numRetries p)" i e] closed Cons.prems(3) by auto
        obtain f where fail: "count_failure sys i (?p1\<lparr>p_sock := t\<rparr>, e) = (Inr (), (set_server i f (?p1\<lparr>p_sock := t\<rparr>), e))"
          by (cases "consecutiveFailures (store p i) + 1 > maxConsecutiveFailures (?p1\<lparr>p_sock := t\<rparr>)")
            (simp_all add: count_failure_def time Let_def)
        let ?q = "set_server i f (?p1\<lparr>p_sock := t\<rparr>)"
        have "pool_loop sys (i # is) (p, e) = pool_loop sys is (?q, e)"
          using next_try may by (simp add: bindT_ok [where m = "pool_attempts sys _ i", OF at] bindT_ok [where m = "count_failure sys i", OF fail])
        with Cons.IH [of ?q] Cons.prems closed False \<open>path t = []\<close> rest [of ?q] show ?thesis
          by (simp add: available_def split: option.splits)
      qed
    qed
  qed
qed

text \<open>
  C35: opening a closed pool connects to the first server, in the order drawn, that has a socket
  already or may be tried and accepts a connection, and keeps the socket with that server; the
  exception \<^verbatim>\<open>NOT_OPEN\<close> is thrown just when there is no such server.
\<close>

theorem pool_connects_to_first_available:
  assumes "connects sys up now" and "0 < numRetries p" and "distinct order" and "order \<noteq> []"
    and "mset order = mset (servers p)" and "socket (p_sock p) < 0" and "path (p_sock p) = []"
    and "if randomize p \<and> length (servers p) > 1 then shuffle (servers p) e = (order, e) else order = servers p"
  shows "case choice up p now order of
      None \<Rightarrow> \<exists>s'. pool_open sys shuffle (p, e) = (Inl (TTransportException TE_NOT_OPEN), s')
    | Some i \<Rightarrow> \<exists>p'. pool_open sys shuffle (p, e) = (Inr (), (p', e)) \<and> currentServer p' = Some i \<and>
        0 \<le> socket (p_sock p') \<and> ps_socket (store p' i) = socket (p_sock p')"
proof -
  have "servers p \<noteq> []" using assms(4,5) by auto
  then have "pool_open sys shuffle (p, e) = pool_loop sys order (p\<lparr>servers := order\<rparr>, e)"
    using assms(6,8) by (auto simp: pool_open_def split: if_splits)
  moreover have "choice up (p\<lparr>servers := order\<rparr>) now order = choice up p now order"
    by (rule choice_cong) simp_all
  ultimately show ?thesis
    using pool_loop_choice [OF assms(1), of "p\<lparr>servers := order\<rparr>" order e] assms(2,3,7)
    by (simp split: option.splits)
qed


text \<open>A system in which only the server at port 2 is up, at time 100.\<close>

definition one_up :: "(unit, unit) sys" where
  "one_up = \<lparr>
     sys_recv = (\<lambda>fd n e. (Inr [], e)), sys_recv_peek = (\<lambda>fd e. (Inr [], e)), sys_send = (\<lambda>fd bs e. (Inr (length bs), e)),
     sys_gettimeofday = (\<lambda>e. (0, e)), sys_usleep = (\<lambda>n e. e), sys_time = (\<lambda>e. (100, e)), sys_close = (\<lambda>fd e. e),
     sys_getaddrinfo = (\<lambda>h p e. (if p = 2 then Some [()] else None, e)), sys_socket = (\<lambda>a e. (5, e)),
     sys_set_blocking = (\<lambda>fd b e. (True, e)), sys_connect = (\<lambda>fd a e. (None, e)), sys_poll = (\<lambda>fd n e. (0, e)),
     sys_so_error = (\<lambda>fd e. (Some 0, e))\<rparr>"

lemma one_up_connects: "connects one_up (\<lambda>h p. p = 2) 100"
  unfolding connects_def
proof (intro conjI allI impI)
  fix t :: tsocket and e :: unit
  assume t: "socket t < 0 \<and> path t = []"
  have fd: "\<exists>fd < 0. t = t\<lparr>socket := fd\<rparr>" using t by (intro exI [of _ "socket t"]) simp
  have five: "\<exists>fd \<ge> 0. t\<lparr>socket := 5\<rparr> = t\<lparr>socket := fd\<rparr>" and neg: "\<exists>fd < 0. t\<lparr>socket := - 1\<rparr> = t\<lparr>socket := fd\<rparr>"
    by (rule exI [of _ 5], simp, rule exI [of _ "- 1"], simp)
  show "if port t = 2 then \<exists>fd \<ge> 0. sock_open one_up (t, e) = (Inr (), (t\<lparr>socket := fd\<rparr>, e))
      else \<exists>fd < 0. sock_open one_up (t, e) = (Inl (TTransportException TE_NOT_OPEN), (t\<lparr>socket := fd\<rparr>, e))"
    using t fd five neg
    by (auto simp: one_up_def sock_open_def local_open_def openConnection_def sock_connect_def sock_connected_def
        sock_throw_def sock_close_def bindT_def Let_def)
qed (simp add: one_up_def)

theorem pool_connects_to_first_available_witness:
  "let st = (\<lambda>i. if i = 0 then (new_pool_server ''a'' 1)\<lparr>lastFailTime := 90\<rparr>
         else if i = 1 then new_pool_server ''b'' 1 else new_pool_server ''c'' 2);
       p = (new_TSocketPool st [0, 1, 2])\<lparr>randomize := False\<rparr> in
   \<exists>p'. pool_open one_up (\<lambda>ss e. (ss, e)) (p, ()) = (Inr (), (p', ())) \<and> currentServer p' = Some 2 \<and>
     0 \<le> socket (p_sock p')"
proof -
  let ?st = "\<lambda>i :: nat. if i = 0 then (new_pool_server ''a'' 1)\<lparr>lastFailTime := 90\<rparr>
         else if i = 1 then new_pool_server ''b'' 1 else new_pool_server ''c'' 2"
  let ?p = "(new_TSocketPool ?st [0, 1, 2])\<lparr>randomize := False\<rparr>"
  note defs = new_TSocketPool_def new_TSocket_def new_TSocket_at_def new_pool_server_def
  have h: "0 < numRetries ?p" "distinct [0, 1, 2 :: nat]" "[0, 1, 2 :: nat] \<noteq> []" "mset [0, 1, 2] = mset (servers ?p)"
    "socket (p_sock ?p) < 0" "path (p_sock ?p) = []"
    "if randomize ?p \<and> length (servers ?p) > 1 then (\<lambda>ss e. (ss, e)) (servers ?p) () = ([0, 1, 2], ()) else [0, 1, 2] = servers ?p"
    by (simp_all add: defs)
  have "choice (\<lambda>h p. p = 2) ?p 100 [0, 1, 2] = Some 2"
    by (simp add: defs available_def may_try_def)
  with pool_connects_to_first_available [where shuffle = "\<lambda>ss e. (ss, e)", OF one_up_connects h] show ?thesis
    by (auto simp: Let_def)
qed

end
