(* ===== verification/NonblockingServer.thy ===== *)
theory NonblockingServer
  imports Socket FramedTransport StepSystem
begin

text \<open>
  \<^verbatim>\<open>TNonblockingServer\<close> (\<^verbatim>\<open>server/TNonblockingServer.{h,cpp}\<close>): one thread that runs the
  handlers of libevent, a connection object per client that is a state machine over its socket, and
  tasks that a thread manager runs. Connections are shared between the threads, so they live in a
  store under their addresses, and the use of one that was deleted is undefined.
\<close>

section \<open>State\<close>

datatype socket_state = SOCKET_RECV_FRAMING | SOCKET_RECV | SOCKET_SEND

datatype app_state =
    APP_INIT | APP_READ_FRAME_SIZE | APP_READ_REQUEST | APP_WAIT_TASK | APP_SEND_RESULT | APP_CLOSE_CONNECTION

text \<open>The flags \<^verbatim>\<open>0\<close>, \<^verbatim>\<open>EV_READ | EV_PERSIST\<close> and \<^verbatim>\<open>EV_WRITE | EV_PERSIST\<close>.\<close>

datatype event_flags = EV_NONE | EV_READ | EV_WRITE

datatype overload_action = T_OVERLOAD_NO_ACTION | T_OVERLOAD_CLOSE_ON_ACCEPT | T_OVERLOAD_DRAIN_TASK_QUEUE

text \<open>
  \<open>registered\<close> says whether libevent holds the event of the connection. \<^verbatim>\<open>writeBuffer_\<close> points
  into the block of the output transport: it is an offset there, or the null pointer. The transport
  factories are the default ones, which give the transport itself, and there is no event handler.
\<close>

record connection =
  tSocket :: tsocket
  eventFlags :: event_flags
  registered :: bool
  socketState :: socket_state
  appState :: app_state
  readWant :: nat
  readBufferPos :: nat
  readBuffer :: "bytes option"
  readBufferSize :: nat
  writeAt :: "nat option"
  writeBufferSize :: nat
  writeBufferPos :: nat
  largestWriteBufferSize :: nat
  callsForResize :: int
  inputTransport :: mem_buffer
  outputTransport :: mem_buffer

text \<open>
  The server. \<open>nextConn\<close> is the address of the next new connection. Of the thread manager it holds
  whether it runs, the pending tasks and the tasks taken by its threads; a task is named by its
  connection. \<open>notified\<close> are the connections written to the notification socket and not yet read.
\<close>

record ('e, 'h) nb_server =
  conns :: "nat \<Rightarrow> connection option"
  nextConn :: nat
  connectionStack :: "nat list"
  numTConnections :: nat
  numActiveProcessors :: nat
  isOverloaded :: bool
  nConnectionsDropped :: nat
  nTotalConnectionsDropped :: nat
  managerStarted :: bool
  tasks :: "nat list"
  running :: "nat list"
  notified :: "nat list"
  os :: 'e
  handler :: 'h

text \<open>
  What is fixed while it serves: the system, the processor (on the input and the output transport
  and the state of the handler), and the settings. \<open>within n m\<close> is
  \<^verbatim>\<open>n <= overloadHysteresis_ * m\<close>, and \<open>pipe_room n\<close> says that the notification socket takes
  another address when it holds \<open>n\<close>.
\<close>

record ('a, 'e, 'h) nb_env =
  e_sys :: "('a, 'e) sys"
  process :: "((mem_buffer \<times> mem_buffer) \<times> 'h, bool) tio"
  threadPoolProcessing :: bool
  connectionStackLimit :: nat
  maxActiveProcessors :: nat
  maxConnections :: nat
  within :: "nat \<Rightarrow> nat \<Rightarrow> bool"
  overloadAction :: overload_action
  writeBufferDefaultSize :: nat
  idleReadBufferLimit :: nat
  idleWriteBufferLimit :: nat
  resizeBufferEveryN :: int
  pipe_room :: "nat \<Rightarrow> bool"

type_synonym ('e, 'h, 'r) srv = "(('e, 'h) nb_server, 'r) tio"

section \<open>Access to a connection\<close>

definition get_conn :: "nat \<Rightarrow> ('e, 'h, connection) srv" where
  "get_conn c s = (case conns s c of None \<Rightarrow> (Inl UndefinedBehaviour, s) | Some k \<Rightarrow> (Inr k, s))"

definition upd_conn :: "nat \<Rightarrow> (connection \<Rightarrow> connection) \<Rightarrow> ('e, 'h, unit) srv" where
  "upd_conn c f s = (case conns s c of
     None \<Rightarrow> (Inl UndefinedBehaviour, s)
   | Some k \<Rightarrow> (Inr (), s\<lparr>conns := (conns s)(c \<mapsto> f k)\<rparr>))"

definition on_socket :: "nat \<Rightarrow> (tsocket \<times> 'e, 'r) tio \<Rightarrow> ('e, 'h, 'r) srv" where
  "on_socket c m s = (case conns s c of
     None \<Rightarrow> (Inl UndefinedBehaviour, s)
   | Some k \<Rightarrow> (case m (tSocket k, os s) of
       (r, (t, e)) \<Rightarrow> (r, s\<lparr>conns := (conns s)(c \<mapsto> k\<lparr>tSocket := t\<rparr>), os := e\<rparr>)))"

definition on_input :: "nat \<Rightarrow> (mem_buffer, 'r) tio \<Rightarrow> ('e, 'h, 'r) srv" where
  "on_input c m s = (case conns s c of
     None \<Rightarrow> (Inl UndefinedBehaviour, s)
   | Some k \<Rightarrow> (case m (inputTransport k) of
       (r, b) \<Rightarrow> (r, s\<lparr>conns := (conns s)(c \<mapsto> k\<lparr>inputTransport := b\<rparr>)\<rparr>)))"

definition on_output :: "nat \<Rightarrow> (mem_buffer, 'r) tio \<Rightarrow> ('e, 'h, 'r) srv" where
  "on_output c m s = (case conns s c of
     None \<Rightarrow> (Inl UndefinedBehaviour, s)
   | Some k \<Rightarrow> (case m (outputTransport k) of
       (r, b) \<Rightarrow> (r, s\<lparr>conns := (conns s)(c \<mapsto> k\<lparr>outputTransport := b\<rparr>)\<rparr>)))"

definition on_transports :: "nat \<Rightarrow> ((mem_buffer \<times> mem_buffer) \<times> 'h, 'r) tio \<Rightarrow> ('e, 'h, 'r) srv" where
  "on_transports c m s = (case conns s c of
     None \<Rightarrow> (Inl UndefinedBehaviour, s)
   | Some k \<Rightarrow> (case m ((inputTransport k, outputTransport k), handler s) of
       (r, ((i, b), h)) \<Rightarrow>
         (r, s\<lparr>conns := (conns s)(c \<mapsto> k\<lparr>inputTransport := i, outputTransport := b\<rparr>), handler := h\<rparr>)))"

text \<open>
  A \<^verbatim>\<open>try\<close> block: \<open>handles e\<close> says which exceptions its handlers take. A failed assertion,
  undefined behaviour and a loop that does not end are no exceptions.
\<close>

definition tryT :: "(exc \<Rightarrow> bool) \<Rightarrow> ('s, 'a) tio \<Rightarrow> ('a \<Rightarrow> ('s, 'b) tio) \<Rightarrow> ('s, 'b) tio \<Rightarrow> ('s, 'b) tio" where
  "tryT handles m f h s = (case m s of
     (Inr x, s') \<Rightarrow> f x s'
   | (Inl e, s') \<Rightarrow> if handles e then h s' else (Inl e, s'))"

definition is_transport_exc :: "exc \<Rightarrow> bool" where
  "is_transport_exc e = (case e of TTransportException _ \<Rightarrow> True | _ \<Rightarrow> False)"

definition is_exception :: "exc \<Rightarrow> bool" where
  "is_exception e = (case e of AssertFail \<Rightarrow> False | UndefinedBehaviour \<Rightarrow> False | Diverges \<Rightarrow> False | _ \<Rightarrow> True)"

definition assertT :: "bool \<Rightarrow> ('s, unit) tio" where
  "assertT b = (if b then ret () else throw AssertFail)"

section \<open>Events and buffers of a connection\<close>

text \<open>
  \<^verbatim>\<open>setFlags\<close>. The calls of libevent are taken to succeed (their failures are only logged).
\<close>

definition setFlags :: "nat \<Rightarrow> event_flags \<Rightarrow> ('e, 'h, unit) srv" where
  "setFlags c flags = upd_conn c (\<lambda>k.
     if eventFlags k = flags then k
     else k\<lparr>eventFlags := flags, registered := flags \<noteq> EV_NONE\<rparr>)"

definition checkIdleBufferMemLimit :: "('a, 'e, 'h) nb_env \<Rightarrow> nat \<Rightarrow> ('e, 'h, unit) srv" where
  "checkIdleBufferMemLimit P c = upd_conn c (\<lambda>k.
     let k1 = (if idleReadBufferLimit P > 0 \<and> readBufferSize k > idleReadBufferLimit P
               then k\<lparr>readBuffer := None, readBufferSize := 0\<rparr> else k) in
     if idleWriteBufferLimit P > 0 \<and> largestWriteBufferSize k1 > idleWriteBufferLimit P
     then k1\<lparr>outputTransport := new_TMemoryBuffer_sized (u32 (writeBufferDefaultSize P)), largestWriteBufferSize := 0\<rparr>
     else k1)"

definition delete_conn :: "nat \<Rightarrow> ('e, 'h, unit) srv" where
  "delete_conn c = modify (\<lambda>s. s\<lparr>conns := (conns s)(c := None), numTConnections := numTConnections s - 1\<rparr>)"

definition returnConnection :: "('a, 'e, 'h) nb_env \<Rightarrow> nat \<Rightarrow> ('e, 'h, unit) srv" where
  "returnConnection P c s =
     (if connectionStackLimit P \<noteq> 0 \<and> length (connectionStack s) \<ge> connectionStackLimit P
      then delete_conn c s
      else bindT (checkIdleBufferMemLimit P c) (\<lambda>_.
           modify (\<lambda>s. s\<lparr>connectionStack := c # connectionStack s\<rparr>)) s)"

definition conn_close :: "('a, 'e, 'h) nb_env \<Rightarrow> nat \<Rightarrow> ('e, 'h, unit) srv" where
  "conn_close P c =
     bindT (upd_conn c (\<lambda>k. k\<lparr>registered := False\<rparr>)) (\<lambda>_.
     bindT (on_socket c (sock_close (e_sys P))) (\<lambda>_.
     returnConnection P c))"

definition conn_init :: "('a, 'e, 'h) nb_env \<Rightarrow> nat \<Rightarrow> int \<Rightarrow> event_flags \<Rightarrow> ('e, 'h, unit) srv" where
  "conn_init P c fd flags =
     bindT (on_socket c (setSocketFD (e_sys P) fd)) (\<lambda>_.
     bindT (upd_conn c (\<lambda>k. k\<lparr>
       appState := APP_INIT, eventFlags := EV_NONE, readBufferPos := 0, readWant := 0,
       writeAt := None, writeBufferSize := 0, writeBufferPos := 0, largestWriteBufferSize := 0,
       socketState := SOCKET_RECV_FRAMING, callsForResize := 0\<rparr>)) (\<lambda>_.
     setFlags c flags))"

text \<open>A new connection object before \<^verbatim>\<open>init\<close>, which sets the other members.\<close>

definition raw_connection :: "('a, 'e, 'h) nb_env \<Rightarrow> connection" where
  "raw_connection P = \<lparr>tSocket = new_TSocket, eventFlags = EV_NONE, registered = False,
     socketState = SOCKET_RECV_FRAMING, appState = APP_INIT, readWant = 0, readBufferPos = 0,
     readBuffer = None, readBufferSize = 0, writeAt = None, writeBufferSize = 0, writeBufferPos = 0,
     largestWriteBufferSize = 0, callsForResize = 0, inputTransport = initCommon None 0 False 0,
     outputTransport = new_TMemoryBuffer_sized (u32 (writeBufferDefaultSize P))\<rparr>"

definition createConnection :: "('a, 'e, 'h) nb_env \<Rightarrow> int \<Rightarrow> event_flags \<Rightarrow> ('e, 'h, nat) srv" where
  "createConnection P fd flags s =
     (case connectionStack s of
        [] \<Rightarrow> let c = nextConn s in
          bindT (modify (\<lambda>s. s\<lparr>conns := (conns s)(c \<mapsto> raw_connection P), nextConn := c + 1\<rparr>)) (\<lambda>_.
          bindT (conn_init P c fd flags) (\<lambda>_.
          bindT (modify (\<lambda>s. s\<lparr>numTConnections := numTConnections s + 1\<rparr>)) (\<lambda>_. ret c))) s
      | c # cs \<Rightarrow>
          bindT (modify (\<lambda>s. s\<lparr>connectionStack := cs\<rparr>)) (\<lambda>_.
          bindT (conn_init P c fd flags) (\<lambda>_. ret c)) s)"


section \<open>Transitions\<close>

definition incrementActiveProcessors :: "('e, 'h, unit) srv" where
  "incrementActiveProcessors = modify (\<lambda>s. s\<lparr>numActiveProcessors := numActiveProcessors s + 1\<rparr>)"

definition decrementActiveProcessors :: "('e, 'h, unit) srv" where
  "decrementActiveProcessors = modify (\<lambda>s.
     if numActiveProcessors s > 0 then s\<lparr>numActiveProcessors := numActiveProcessors s - 1\<rparr> else s)"

text \<open>From the label \<^verbatim>\<open>LABEL_APP_INIT\<close> on.\<close>

definition transition_init :: "nat \<Rightarrow> ('e, 'h, unit) srv" where
  "transition_init c =
     bindT (upd_conn c (\<lambda>k. k\<lparr>writeAt := None, writeBufferPos := 0, writeBufferSize := 0,
       socketState := SOCKET_RECV_FRAMING, appState := APP_READ_FRAME_SIZE, readBufferPos := 0\<rparr>)) (\<lambda>_.
     setFlags c EV_READ)"

text \<open>
  The case \<^verbatim>\<open>APP_SEND_RESULT\<close>; \<^verbatim>\<open>callsForResize_\<close> is counted up only when checks are on.
\<close>

definition transition_sent :: "('a, 'e, 'h) nb_env \<Rightarrow> nat \<Rightarrow> ('e, 'h, unit) srv" where
  "transition_sent P c =
     bindT (upd_conn c (\<lambda>k.
       if writeBufferSize k > largestWriteBufferSize k
       then k\<lparr>largestWriteBufferSize := writeBufferSize k\<rparr> else k)) (\<lambda>_.
     bindT (if resizeBufferEveryN P > 0 then
              bindT (upd_conn c (\<lambda>k. k\<lparr>callsForResize := callsForResize k + 1\<rparr>)) (\<lambda>_.
              bindT (get_conn c) (\<lambda>k.
              if callsForResize k \<ge> resizeBufferEveryN P then
                bindT (checkIdleBufferMemLimit P c) (\<lambda>_.
                upd_conn c (\<lambda>k. k\<lparr>callsForResize := 0\<rparr>))
              else ret ()))
            else ret ()) (\<lambda>_.
     transition_init c))"

text \<open>
  The case \<^verbatim>\<open>APP_WAIT_TASK\<close>: the result is framed in place, in the four bytes that were reserved
  in front of it.
\<close>

definition transition_result :: "nat \<Rightarrow> ('e, 'h, unit) srv" where
  "transition_result c =
     bindT decrementActiveProcessors (\<lambda>_.
     bindT (upd_conn c (\<lambda>k. k\<lparr>writeAt := Some (rBase (outputTransport k)),
       writeBufferSize := available_read (outputTransport k)\<rparr>)) (\<lambda>_.
     bindT (get_conn c) (\<lambda>k.
     if writeBufferSize k > 4 then
       bindT (upd_conn c (\<lambda>k. k\<lparr>writeBufferPos := 0, socketState := SOCKET_SEND\<rparr>)) (\<lambda>_.
       bindT (on_output c (store mem mem_upd (rBase (outputTransport k)) (be_bytes 4 (writeBufferSize k - 4)))) (\<lambda>_.
       bindT (upd_conn c (\<lambda>k. k\<lparr>appState := APP_SEND_RESULT\<rparr>)) (\<lambda>_.
       setFlags c EV_WRITE)))
     else transition_init c)))"

text \<open>
  The case \<^verbatim>\<open>APP_READ_REQUEST\<close>. A task that the thread manager refuses closes the connection,
  and the code goes on to make it idle.
\<close>

definition transition_request :: "('a, 'e, 'h) nb_env \<Rightarrow> nat \<Rightarrow> ('e, 'h, unit) srv" where
  "transition_request P c =
     bindT (get_conn c) (\<lambda>k.
     bindT (on_input c (mem_resetBuffer_from (readBuffer k) (readBufferPos k) OBSERVE)) (\<lambda>_.
     bindT (on_output c (bindT (modify mem_resetBuffer) (\<lambda>_. bindT (getWritePtr 4) (\<lambda>_. wroteBytes 4)))) (\<lambda>_.
     bindT incrementActiveProcessors (\<lambda>_.
     if threadPoolProcessing P then
       bindT (upd_conn c (\<lambda>k. k\<lparr>appState := APP_WAIT_TASK\<rparr>)) (\<lambda>_.
       bindT (gets managerStarted) (\<lambda>started.
       bindT (if started then modify (\<lambda>s. s\<lparr>tasks := tasks s @ [c]\<rparr>) else conn_close P c) (\<lambda>_.
       setFlags c EV_NONE)))
     else
       tryT is_exception (on_transports c (process P)) (\<lambda>_. transition_result c)
         (bindT decrementActiveProcessors (\<lambda>_. conn_close P c))))))"

text \<open>The doubling of the read buffer, in \<^verbatim>\<open>uint32_t\<close>.\<close>

partial_function (option) double_size :: "nat \<Rightarrow> nat \<Rightarrow> nat option" where
  "double_size want newSize =
     (if want > newSize then double_size want (u32 (newSize * 2)) else Some newSize)"

declare double_size.simps [code]

definition transition_size :: "nat \<Rightarrow> ('e, 'h, unit) srv" where
  "transition_size c =
     bindT (get_conn c) (\<lambda>k.
     bindT (if readWant k > readBufferSize k then
              let oldSize = (if readBufferSize k = 0 then 1 else readBufferSize k) in
              (case double_size (readWant k) oldSize of
                 None \<Rightarrow> throw Diverges
               | Some newSize \<Rightarrow> upd_conn c (\<lambda>k.
                   k\<lparr>readBuffer := Some (resize newSize (case readBuffer k of None \<Rightarrow> [] | Some b \<Rightarrow> b)),
                     readBufferSize := newSize\<rparr>))
            else ret ()) (\<lambda>_.
     upd_conn c (\<lambda>k. k\<lparr>readBufferPos := 0, socketState := SOCKET_RECV, appState := APP_READ_REQUEST\<rparr>)))"

definition transition :: "('a, 'e, 'h) nb_env \<Rightarrow> nat \<Rightarrow> ('e, 'h, unit) srv" where
  "transition P c = bindT (get_conn c) (\<lambda>k. case appState k of
     APP_READ_REQUEST \<Rightarrow> transition_request P c
   | APP_WAIT_TASK \<Rightarrow> transition_result c
   | APP_SEND_RESULT \<Rightarrow> transition_sent P c
   | APP_INIT \<Rightarrow> transition_init c
   | APP_READ_FRAME_SIZE \<Rightarrow> transition_size c
   | APP_CLOSE_CONNECTION \<Rightarrow> bindT decrementActiveProcessors (\<lambda>_. conn_close P c))"

section \<open>The handler of socket events\<close>

text \<open>
  The bytes of the frame size that were received so far are kept in \<^verbatim>\<open>readWant_\<close>, in the order of
  the machine, which is taken to be little-endian; \<^verbatim>\<open>ntohl\<close> reads them in network order.
\<close>

definition work_framing :: "('a, 'e, 'h) nb_env \<Rightarrow> nat \<Rightarrow> ('e, 'h, unit) srv" where
  "work_framing P c =
     bindT (get_conn c) (\<lambda>k.
     let pos = readBufferPos k in
     tryT is_transport_exc (on_socket c (sock_read (e_sys P) (4 - pos))) (\<lambda>fetch.
       if fetch = [] then conn_close P c
       else if pos + length fetch > 4 then throw UndefinedBehaviour
       else
         let buf = splice pos fetch (le_bytes 4 (readWant k)); pos' = pos + length fetch in
         if pos' < 4 then upd_conn c (\<lambda>k. k\<lparr>readBufferPos := pos', readWant := le_nat buf\<rparr>)
         else
           bindT (upd_conn c (\<lambda>k. k\<lparr>readBufferPos := pos', readWant := be_nat buf\<rparr>)) (\<lambda>_.
           if s32 (be_nat buf) \<le> 0 then conn_close P c else transition P c))
       (conn_close P c))"

definition work_recv :: "('a, 'e, 'h) nb_env \<Rightarrow> nat \<Rightarrow> ('e, 'h, unit) srv" where
  "work_recv P c =
     bindT (get_conn c) (\<lambda>k.
     let pos = readBufferPos k in
     bindT (assertT (pos < readWant k)) (\<lambda>_.
     tryT is_transport_exc (on_socket c (sock_read (e_sys P) (readWant k - pos))) (\<lambda>got.
       if got \<noteq> [] then
         (case readBuffer k of
            None \<Rightarrow> throw UndefinedBehaviour
          | Some b \<Rightarrow>
              if pos + length got > length b then throw UndefinedBehaviour
              else
                bindT (upd_conn c (\<lambda>k. k\<lparr>readBuffer := Some (splice pos got b), readBufferPos := pos + length got\<rparr>)) (\<lambda>_.
                bindT (assertT (pos + length got \<le> readWant k)) (\<lambda>_.
                if pos + length got = readWant k then transition P c else ret ())))
       else conn_close P c)
       (conn_close P c)))"

definition work_send :: "('a, 'e, 'h) nb_env \<Rightarrow> nat \<Rightarrow> ('e, 'h, unit) srv" where
  "work_send P c =
     bindT (get_conn c) (\<lambda>k.
     let pos = writeBufferPos k; sz = writeBufferSize k in
     bindT (assertT (pos \<le> sz)) (\<lambda>_.
     if pos = sz then transition P c
     else
       case writeAt k of
         None \<Rightarrow> throw UndefinedBehaviour
       | Some at \<Rightarrow>
           bindT (on_output c (load mem (at + pos) (sz - pos))) (\<lambda>bs.
           tryT is_transport_exc (on_socket c (sock_write_partial (e_sys P) bs)) (\<lambda>sent.
             bindT (upd_conn c (\<lambda>k. k\<lparr>writeBufferPos := pos + sent\<rparr>)) (\<lambda>_.
             bindT (assertT (pos + sent \<le> sz)) (\<lambda>_.
             if pos + sent = sz then transition P c else ret ())))
             (conn_close P c))))"

definition workSocket :: "('a, 'e, 'h) nb_env \<Rightarrow> nat \<Rightarrow> ('e, 'h, unit) srv" where
  "workSocket P c = bindT (get_conn c) (\<lambda>k. case socketState k of
     SOCKET_RECV_FRAMING \<Rightarrow> work_framing P c
   | SOCKET_RECV \<Rightarrow> work_recv P c
   | SOCKET_SEND \<Rightarrow> work_send P c)"

section \<open>Tasks\<close>

definition notifyServer :: "('a, 'e, 'h) nb_env \<Rightarrow> nat \<Rightarrow> ('e, 'h, bool) srv" where
  "notifyServer P c s =
     (if pipe_room P (length (notified s)) then (Inr True, s\<lparr>notified := notified s @ [c]\<rparr>)
      else (Inr False, s))"

definition forceClose :: "('a, 'e, 'h) nb_env \<Rightarrow> nat \<Rightarrow> ('e, 'h, unit) srv" where
  "forceClose P c =
     bindT (upd_conn c (\<lambda>k. k\<lparr>appState := APP_CLOSE_CONNECTION\<rparr>)) (\<lambda>_.
     bindT (notifyServer P c) (\<lambda>told. if told then ret () else throw TException))"

text \<open>
  \<^verbatim>\<open>Task::run\<close>. All exceptions end the loop, save for \<^verbatim>\<open>bad_alloc\<close>, after which the program
  exits.
\<close>

definition task_body :: "('a, 'e, 'h) nb_env \<Rightarrow> unit \<Rightarrow> ((mem_buffer \<times> mem_buffer) \<times> 'h, unit + unit) tio" where
  "task_body P u =
     bindT (process P) (\<lambda>more.
     if \<not> more then leave_with ()
     else bindT (on_part (\<lambda>s. fst (fst s)) (\<lambda>i s. ((i, snd (fst s)), snd s)) mem_peek) (\<lambda>pending.
       if pending then continue_with () else leave_with ()))"

definition nb_task_run :: "('a, 'e, 'h) nb_env \<Rightarrow> nat \<Rightarrow> ('e, 'h, unit) srv" where
  "nb_task_run P c =
     bindT (tryT (\<lambda>e. is_exception e \<and> e \<noteq> BadAlloc) (on_transports c (loopT (task_body P) ())) (\<lambda>_. ret ()) (ret ())) (\<lambda>_.
     bindT (notifyServer P c) (\<lambda>told. if told then ret () else throw TException))"

text \<open>
  One round of \<^verbatim>\<open>taskHandler\<close>, which reads the addresses in the notification socket one by one.
\<close>

definition taskHandler :: "('a, 'e, 'h) nb_env \<Rightarrow> ('e, 'h, unit) srv" where
  "taskHandler P s = (case notified s of
     [] \<Rightarrow> (Inr (), s)
   | c # cs \<Rightarrow> transition P c (s\<lparr>notified := cs\<rparr>))"

text \<open>The task of \<open>c\<close> has been taken out of the queue by the thread manager, being too old.\<close>

definition expireClose :: "('a, 'e, 'h) nb_env \<Rightarrow> nat \<Rightarrow> ('e, 'h, unit) srv" where
  "expireClose P c =
     bindT (get_conn c) (\<lambda>k.
     bindT (assertT (appState k = APP_WAIT_TASK)) (\<lambda>_.
     forceClose P c))"

text \<open>
  \<^verbatim>\<open>removeNextPending\<close> of a thread manager that does not run throws an
  \<^verbatim>\<open>IllegalStateException\<close>, which is a \<^verbatim>\<open>TException\<close>.
\<close>

definition drainPendingTask :: "('a, 'e, 'h) nb_env \<Rightarrow> ('e, 'h, bool) srv" where
  "drainPendingTask P s =
     (if threadPoolProcessing P then
        if \<not> managerStarted s then (Inl TException, s)
        else
          (case tasks s of
             [] \<Rightarrow> (Inr False, s)
           | c # cs \<Rightarrow> bindT (expireClose P c) (\<lambda>_. ret True) (s\<lparr>tasks := cs\<rparr>))
      else (Inr False, s))"

section \<open>New clients\<close>

definition serverOverloaded :: "('a, 'e, 'h) nb_env \<Rightarrow> ('e, 'h, bool) srv" where
  "serverOverloaded P s =
     (let activeConnections = numTConnections s - length (connectionStack s);
          s' = (if numActiveProcessors s > maxActiveProcessors P \<or> activeConnections > maxConnections P
                then s\<lparr>isOverloaded := True\<rparr>
                else if isOverloaded s \<and> within P (numActiveProcessors s) (maxActiveProcessors P) \<and>
                        within P activeConnections (maxConnections P)
                then s\<lparr>nConnectionsDropped := 0, isOverloaded := False\<rparr>
                else s) in
      (Inr (isOverloaded s'), s'))"

definition close_client :: "('a, 'e, 'h) nb_env \<Rightarrow> int \<Rightarrow> ('e, 'h, unit) srv" where
  "close_client P fd = modify (\<lambda>s. s\<lparr>os := sys_close (e_sys P) fd (os s)\<rparr>)"

text \<open>
  One round of the loop of \<^verbatim>\<open>handleEvent\<close>, for the socket that \<^verbatim>\<open>accept\<close> returned; \<open>nonblock\<close>
  is whether \<^verbatim>\<open>fcntl\<close> succeeds. The result is whether the loop goes on.
\<close>

definition shed_load :: "('a, 'e, 'h) nb_env \<Rightarrow> ('e, 'h, bool) srv" where
  "shed_load P =
     (if overloadAction P = T_OVERLOAD_NO_ACTION then ret True
      else bindT (serverOverloaded P) (\<lambda>over.
        if \<not> over then ret True
        else
          bindT (modify (\<lambda>s. s\<lparr>nConnectionsDropped := u32 (nConnectionsDropped s + 1),
            nTotalConnectionsDropped := (nTotalConnectionsDropped s + 1) mod 2 ^ 64\<rparr>)) (\<lambda>_.
          if overloadAction P = T_OVERLOAD_CLOSE_ON_ACCEPT then ret False
          else drainPendingTask P)))"

definition accept_client :: "('a, 'e, 'h) nb_env \<Rightarrow> int \<Rightarrow> bool \<Rightarrow> ('e, 'h, bool) srv" where
  "accept_client P fd nonblock =
     bindT (shed_load P) (\<lambda>accepted.
     if \<not> accepted then bindT (close_client P fd) (\<lambda>_. ret False)
     else if \<not> nonblock then bindT (close_client P fd) (\<lambda>_. ret False)
     else
       bindT (createConnection P fd EV_READ) (\<lambda>c.
       bindT (transition P c) (\<lambda>_. ret True)))"

fun handleEvent :: "('a, 'e, 'h) nb_env \<Rightarrow> (int \<times> bool) list \<Rightarrow> ('e, 'h, unit) srv" where
  "handleEvent P [] = ret ()"
| "handleEvent P ((fd, nonblock) # clients) =
     bindT (accept_client P fd nonblock) (\<lambda>go_on. if go_on then handleEvent P clients else ret ())"

section \<open>Steps of the server\<close>

text \<open>
  What can happen next: clients connect, a registered socket is ready, a thread takes a task, a
  thread runs the task it took, a notification is read, a pending task expires, the thread manager
  stops. An exception that leaves a handler, or one of the other failures, is an event of its own.
\<close>

datatype nb_event = Failed exc | Stopped

definition outcome :: "exc + 'r \<Rightarrow> nb_event list" where
  "outcome r = (case r of Inl e \<Rightarrow> [Failed e] | Inr _ \<Rightarrow> [])"

inductive nb_step :: "('a, 'e, 'h) nb_env \<Rightarrow> ('e, 'h) nb_server \<Rightarrow> nb_event list \<Rightarrow> ('e, 'h) nb_server \<Rightarrow> bool"
  for P where
  clients: "handleEvent P fds s = (r, s') \<Longrightarrow> nb_step P s (outcome r) s'"
| socket_ready: "conns s c = Some k \<Longrightarrow> registered k \<Longrightarrow> workSocket P c s = (r, s') \<Longrightarrow> nb_step P s (outcome r) s'"
| task_taken: "tasks s = c # cs \<Longrightarrow> nb_step P s [] (s\<lparr>tasks := cs, running := running s @ [c]\<rparr>)"
| task_runs: "running s = cs @ c # ds \<Longrightarrow> nb_task_run P c (s\<lparr>running := cs @ ds\<rparr>) = (r, s') \<Longrightarrow> nb_step P s (outcome r) s'"
| task_notified: "taskHandler P s = (r, s') \<Longrightarrow> nb_step P s (outcome r) s'"
| task_expires: "tasks s = cs @ c # ds \<Longrightarrow> expireClose P c (s\<lparr>tasks := cs @ ds\<rparr>) = (r, s') \<Longrightarrow> nb_step P s (outcome r) s'"
| manager_stops: "nb_step P s [Stopped] (s\<lparr>managerStarted := False\<rparr>)"

definition new_server :: "'e \<Rightarrow> 'h \<Rightarrow> ('e, 'h) nb_server" where
  "new_server e h = \<lparr>conns = Map.empty, nextConn = 0, connectionStack = [], numTConnections = 0,
     numActiveProcessors = 0, isOverloaded = False, nConnectionsDropped = 0, nTotalConnectionsDropped = 0,
     managerStarted = True, tasks = [], running = [], notified = [], os = e, handler = h\<rparr>"

end
