(* ===== verification/NonblockingInv.thy ===== *)
theory NonblockingInv
  imports NonblockingServer "HOL-Library.Multiset"
begin

text \<open>
  The invariant of the nonblocking server: the counters are exact, a connection is idle, waiting
  for a task or talking to its client and never two of these, and all its buffers are in bounds.
\<close>

section \<open>The invariant\<close>

definition buffer_ok :: "connection \<Rightarrow> bool" where
  "buffer_ok k \<longleftrightarrow> (readBufferSize k = 0 \<and> readBuffer k = None) \<or>
     (\<exists>j b. j \<le> 31 \<and> readBufferSize k = 2 ^ j \<and> readBuffer k = Some b \<and> length b = readBufferSize k)"

definition base_ok :: "connection \<Rightarrow> bool" where
  "base_ok k \<longleftrightarrow> buffer_ok k \<and> mem_inv (inputTransport k) \<and> mem_unread (outputTransport k) \<and> owner (outputTransport k)"

definition waits :: "connection \<Rightarrow> bool" where
  "waits k \<longleftrightarrow> appState k = APP_WAIT_TASK \<or> appState k = APP_CLOSE_CONNECTION"

definition phase_ok :: "connection \<Rightarrow> bool" where
  "phase_ok k \<longleftrightarrow> (case appState k of
     APP_INIT \<Rightarrow> False
   | APP_READ_FRAME_SIZE \<Rightarrow> socketState k = SOCKET_RECV_FRAMING \<and> eventFlags k = EV_READ \<and> registered k \<and>
       readBufferPos k < 4
   | APP_READ_REQUEST \<Rightarrow> socketState k = SOCKET_RECV \<and> eventFlags k = EV_READ \<and> registered k \<and>
       readBufferPos k < readWant k \<and> readWant k \<le> readBufferSize k
   | APP_WAIT_TASK \<Rightarrow> \<not> registered k \<and> eventFlags k = EV_NONE
   | APP_SEND_RESULT \<Rightarrow> socketState k = SOCKET_SEND \<and> eventFlags k = EV_WRITE \<and> registered k \<and>
       writeBufferPos k < writeBufferSize k \<and>
       (\<exists>at. writeAt k = Some at \<and> at + writeBufferSize k \<le> length (mem (outputTransport k)))
   | APP_CLOSE_CONNECTION \<Rightarrow> \<not> registered k \<and> eventFlags k = EV_NONE)"

definition waiting :: "('e, 'h) nb_server \<Rightarrow> nat list" where
  "waiting s = tasks s @ running s @ notified s"

text \<open>
  \<open>conn_inv s c k\<close>: the connection \<open>k\<close> at \<open>c\<close> is idle on the stack, or in a phase of its state
  machine, in which it is waiting just when it is in one of the queues.
\<close>

definition conn_inv :: "('e, 'h) nb_server \<Rightarrow> nat \<Rightarrow> connection \<Rightarrow> bool" where
  "conn_inv s c k \<longleftrightarrow> base_ok k \<and>
     (if c \<in> set (connectionStack s) then \<not> registered k \<and> c \<notin> set (waiting s)
      else phase_ok k \<and> (c \<in> set (waiting s) \<longleftrightarrow> waits k) \<and>
        (c \<in> set (tasks s @ running s) \<longrightarrow> appState k = APP_WAIT_TASK))"

definition counters :: "('a, 'e, 'h) nb_env \<Rightarrow> nat \<Rightarrow> ('e, 'h) nb_server \<Rightarrow> bool" where
  "counters P n s \<longleftrightarrow> finite (dom (conns s)) \<and> numTConnections s = card (dom (conns s)) \<and>
     (\<forall>c \<in> dom (conns s). c < nextConn s) \<and>
     distinct (connectionStack s) \<and> set (connectionStack s) \<subseteq> dom (conns s) \<and>
     (connectionStackLimit P \<noteq> 0 \<longrightarrow> length (connectionStack s) \<le> connectionStackLimit P) \<and>
     distinct (waiting s) \<and> set (waiting s) \<subseteq> dom (conns s) \<and>
     numActiveProcessors s = length (waiting s) + n \<and> managerStarted s"

definition nb_inv :: "('a, 'e, 'h) nb_env \<Rightarrow> ('e, 'h) nb_server \<Rightarrow> bool" where
  "nb_inv P s \<longleftrightarrow> counters P 0 s \<and> (\<forall>c k. conns s c = Some k \<longrightarrow> conn_inv s c k)"

text \<open>While the handler works on \<open>c\<close>, which counts as \<open>n\<close> active processors.\<close>

definition nb_frame :: "('a, 'e, 'h) nb_env \<Rightarrow> nat \<Rightarrow> nat \<Rightarrow> ('e, 'h) nb_server \<Rightarrow> bool" where
  "nb_frame P c n s \<longleftrightarrow> counters P n s \<and> (\<exists>k. conns s c = Some k \<and> base_ok k) \<and>
     c \<notin> set (connectionStack s) \<and> c \<notin> set (waiting s) \<and>
     (\<forall>d k. d \<noteq> c \<longrightarrow> conns s d = Some k \<longrightarrow> conn_inv s d k)"

lemma waiting_simps [simp]:
  "waiting (s\<lparr>conns := f\<rparr>) = waiting s" "waiting (s\<lparr>os := e\<rparr>) = waiting s" "waiting (s\<lparr>handler := h\<rparr>) = waiting s"
  "waiting (s\<lparr>numActiveProcessors := n\<rparr>) = waiting s" "waiting (s\<lparr>numTConnections := n\<rparr>) = waiting s"
  "waiting (s\<lparr>isOverloaded := b\<rparr>) = waiting s" "waiting (s\<lparr>nConnectionsDropped := n\<rparr>) = waiting s"
  "waiting (s\<lparr>nTotalConnectionsDropped := n\<rparr>) = waiting s" "waiting (s\<lparr>nextConn := n\<rparr>) = waiting s"
  "waiting (s\<lparr>connectionStack := cs\<rparr>) = waiting s"
  by (simp_all add: waiting_def)

lemma conn_inv_simps [simp]:
  "conn_inv (s\<lparr>conns := f\<rparr>) = conn_inv s" "conn_inv (s\<lparr>os := e\<rparr>) = conn_inv s" "conn_inv (s\<lparr>handler := h\<rparr>) = conn_inv s"
  "conn_inv (s\<lparr>numActiveProcessors := n\<rparr>) = conn_inv s" "conn_inv (s\<lparr>numTConnections := n\<rparr>) = conn_inv s"
  "conn_inv (s\<lparr>isOverloaded := b\<rparr>) = conn_inv s" "conn_inv (s\<lparr>nConnectionsDropped := n\<rparr>) = conn_inv s"
  "conn_inv (s\<lparr>nTotalConnectionsDropped := n\<rparr>) = conn_inv s" "conn_inv (s\<lparr>nextConn := n\<rparr>) = conn_inv s"
  by (rule ext, rule ext, simp add: conn_inv_def)+

lemma nb_frame_put:
  assumes "nb_frame P c n s" and "base_ok k"
  shows "nb_frame P c n (s\<lparr>conns := (conns s)(c \<mapsto> k)\<rparr>)"
proof -
  have "dom ((conns s)(c \<mapsto> k)) = dom (conns s)"
    using assms(1) by (auto simp: nb_frame_def)
  then show ?thesis using assms by (simp add: nb_frame_def counters_def)
qed

lemma nb_frame_env:
  "nb_frame P c n (s\<lparr>os := e\<rparr>) = nb_frame P c n s" "nb_frame P c n (s\<lparr>handler := h\<rparr>) = nb_frame P c n s"
  by (simp_all add: nb_frame_def counters_def)

lemma nb_frame_get: "nb_frame P c n s \<Longrightarrow> \<exists>k. conns s c = Some k \<and> base_ok k"
  by (simp add: nb_frame_def)

lemma nb_frame_done:
  assumes "nb_frame P c 0 s" and "conns s c = Some k" and "phase_ok k" and "\<not> waits k"
  shows "nb_inv P s"
proof -
  have "conn_inv s c k" using assms by (auto simp: nb_frame_def conn_inv_def waiting_def)
  then have "conn_inv s d k'" if "conns s d = Some k'" for d k'
    using that assms(1,2) by (cases "d = c") (auto simp: nb_frame_def)
  with assms(1) show ?thesis by (simp add: nb_frame_def nb_inv_def)
qed

lemma nb_inv_frame:
  assumes "nb_inv P s" and "conns s c = Some k" and "registered k"
  shows "nb_frame P c 0 s" and "phase_ok k" and "\<not> waits k" and "base_ok k"
proof -
  have inv: "conn_inv s c k" using assms by (simp add: nb_inv_def)
  with assms(3) have st: "c \<notin> set (connectionStack s)" by (auto simp: conn_inv_def split: if_splits)
  with inv have "phase_ok k" "c \<in> set (waiting s) \<longleftrightarrow> waits k" by (simp_all add: conn_inv_def)
  moreover from this(1) have "\<not> waits k" using assms(3) by (auto simp: phase_ok_def waits_def)
  ultimately show "phase_ok k" "\<not> waits k" "nb_frame P c 0 s" "base_ok k"
    using assms st inv by (auto simp: nb_frame_def nb_inv_def conn_inv_def)
qed

section \<open>Steps on one connection\<close>

lemma upd_conn_eq: "conns s c = Some k \<Longrightarrow> upd_conn c f s = (Inr (), s\<lparr>conns := (conns s)(c \<mapsto> f k)\<rparr>)"
  by (simp add: upd_conn_def)

lemma get_conn_eq: "conns s c = Some k \<Longrightarrow> get_conn c s = (Inr k, s)"
  by (simp add: get_conn_def)

lemmas conn_simps = upd_conn_eq get_conn_eq setFlags_def bindT_def ret_def throw_def modify_def gets_def assertT_def

lemma bindT_assertT [simp]: "bindT (assertT True) f = f ()"
  by (rule ext) (simp add: assertT_def ret_def bindT_def)

lemma base_ok_simps [simp]:
  "base_ok (k\<lparr>tSocket := t\<rparr>) = base_ok k" "base_ok (k\<lparr>eventFlags := f\<rparr>) = base_ok k"
  "base_ok (k\<lparr>registered := b\<rparr>) = base_ok k" "base_ok (k\<lparr>socketState := st\<rparr>) = base_ok k"
  "base_ok (k\<lparr>appState := a\<rparr>) = base_ok k" "base_ok (k\<lparr>readWant := n\<rparr>) = base_ok k"
  "base_ok (k\<lparr>readBufferPos := n\<rparr>) = base_ok k" "base_ok (k\<lparr>writeAt := w\<rparr>) = base_ok k"
  "base_ok (k\<lparr>writeBufferSize := n\<rparr>) = base_ok k" "base_ok (k\<lparr>writeBufferPos := n\<rparr>) = base_ok k"
  "base_ok (k\<lparr>largestWriteBufferSize := n\<rparr>) = base_ok k" "base_ok (k\<lparr>callsForResize := i\<rparr>) = base_ok k"
  by (simp_all add: base_ok_def buffer_ok_def)

text \<open>\<open>ends_in Q m s\<close>: the call returns, in a state of \<open>Q\<close>.\<close>

definition ends_in :: "('s \<Rightarrow> bool) \<Rightarrow> ('s, unit) tio \<Rightarrow> 's \<Rightarrow> bool" where
  "ends_in Q m s \<longleftrightarrow> (\<exists>s'. m s = (Inr (), s') \<and> Q s')"

lemma ends_in_upd:
  "conns s c = Some k \<Longrightarrow> ends_in Q (m ()) (s\<lparr>conns := (conns s)(c \<mapsto> f k)\<rparr>) \<Longrightarrow>
   ends_in Q (bindT (upd_conn c f) m) s"
  by (simp add: ends_in_def bindT_def upd_conn_eq)

lemma ends_in_get: "conns s c = Some k \<Longrightarrow> ends_in Q (m k) s \<Longrightarrow> ends_in Q (bindT (get_conn c) m) s"
  by (simp add: ends_in_def bindT_def get_conn_eq)

lemma transition_init_ok:
  assumes "nb_frame P c 0 s" and "conns s c = Some k" and "registered k \<longleftrightarrow> eventFlags k \<noteq> EV_NONE"
  shows "ends_in (nb_inv P) (transition_init c) s"
proof -
  let ?k = "k\<lparr>writeAt := None, writeBufferPos := 0, writeBufferSize := 0,
       socketState := SOCKET_RECV_FRAMING, appState := APP_READ_FRAME_SIZE, readBufferPos := 0,
       eventFlags := EV_READ, registered := True\<rparr>"
  have k: "base_ok k" using assms(1,2) by (auto simp: nb_frame_def)
  have eq: "transition_init c s = (Inr (), s\<lparr>conns := (conns s)(c \<mapsto> ?k)\<rparr>)"
    using assms(2,3) by (cases k) (auto simp: transition_init_def conn_simps)
  have "nb_frame P c 0 (s\<lparr>conns := (conns s)(c \<mapsto> ?k)\<rparr>)"
    using k by (intro nb_frame_put assms(1)) simp
  then have "nb_inv P (s\<lparr>conns := (conns s)(c \<mapsto> ?k)\<rparr>)"
    by (rule nb_frame_done [where k = ?k]) (simp_all add: phase_ok_def waits_def)
  with eq show ?thesis by (simp add: ends_in_def)
qed


lemma input_ok:
  assumes "n \<le> length b" and "n < 2 ^ 32"
  shows "\<exists>i. mem_resetBuffer_from (Some b) n OBSERVE i0 = (Inr (), i) \<and> mem_inv i \<and> mem_pending i = take n b"
  using assms by (simp add: mem_resetBuffer_from_def new_TMemoryBuffer_from_def initCommon_def mem_inv_def mem_def
      mem_pending_def Let_def)

lemma output_ok:
  assumes "mem_unread b" and "owner b"
  shows "\<exists>b'. bindT (modify mem_resetBuffer) (\<lambda>_. bindT (getWritePtr 4) (\<lambda>_. wroteBytes 4)) b = (Inr (), b') \<and>
    mem_unread b' \<and> owner b' \<and> wBase b' = 4"
proof -
  let ?r = "mem_resetBuffer b"
  have r: "mem_inv ?r" "wBase ?r = 0" "rBase ?r = 0" "owner ?r"
    using assms mem_resetBuffer_inv [of b] by (auto simp: mem_unread_def mem_resetBuffer_def Let_def)
  then have "mem_room ?r 4" by (simp add: mem_room_def)
  from ensureCanWrite_ok [OF r(1) this] obtain u where
    u: "ensureCanWrite 4 ?r = (Inr (), u)" "mem_inv u" "wBase u + 4 \<le> wBound u" "rBase u = 0" "wBase u = 0" "owner u"
    using r by auto
  note inv = mem_inv_D [OF u(2)]
  have "mem_inv (u\<lparr>wBase := 4\<rparr>)" using u inv by (auto simp: mem_inv_def)
  moreover have "wroteBytes 4 u = (Inr (), u\<lparr>wBase := 4\<rparr>)" using u inv by (simp add: wroteBytes_def)
  ultimately show ?thesis using u by (simp add: bindT_def modify_def getWritePtr_def gets_def mem_unread_def)
qed

text \<open>What \<^verbatim>\<open>transition\<close> does with a request up to the point where it is processed.\<close>

definition dispatch :: "('a, 'e, 'h) nb_env \<Rightarrow> nat \<Rightarrow> ('e, 'h, unit) srv" where
  "dispatch P c =
     (if threadPoolProcessing P then
       bindT (upd_conn c (\<lambda>k. k\<lparr>appState := APP_WAIT_TASK\<rparr>)) (\<lambda>_.
       bindT (gets managerStarted) (\<lambda>started.
       bindT (if started then modify (\<lambda>s. s\<lparr>tasks := tasks s @ [c]\<rparr>) else conn_close P c) (\<lambda>_.
       setFlags c EV_NONE)))
     else
       tryT is_exception (on_transports c (process P)) (\<lambda>_. transition_result c)
         (bindT decrementActiveProcessors (\<lambda>_. conn_close P c)))"

lemma request_ready:
  assumes base: "base_ok k" and k: "conns s c = Some k" and b: "readBuffer k = Some b" and pos: "readBufferPos k \<le> length b"
  obtains i ob where "mem_inv i" and "mem_pending i = take (readBufferPos k) b" and "mem_unread ob" and "owner ob"
    and "wBase ob = 4" and "base_ok (k\<lparr>inputTransport := i, outputTransport := ob\<rparr>)"
    and "transition_request P c s = dispatch P c (s\<lparr>conns := (conns s)(c \<mapsto> k\<lparr>inputTransport := i, outputTransport := ob\<rparr>),
      numActiveProcessors := numActiveProcessors s + 1\<rparr>)"
proof -
  obtain j :: nat where "j \<le> 31" "length b = 2 ^ j" using base b by (auto simp: base_ok_def buffer_ok_def)
  then have "length b \<le> 2 ^ 31" by (simp only: power_increasing)
  then have "readBufferPos k < 2 ^ 32" using pos by simp
  from input_ok [OF pos this] obtain i where
    i: "mem_resetBuffer_from (Some b) (readBufferPos k) OBSERVE (inputTransport k) = (Inr (), i)" "mem_inv i"
      "mem_pending i = take (readBufferPos k) b" by blast
  obtain ob where ob: "bindT (modify mem_resetBuffer) (\<lambda>_. bindT (getWritePtr 4) (\<lambda>_. wroteBytes 4)) (outputTransport k) = (Inr (), ob)"
      "mem_unread ob" "owner ob" "wBase ob = 4"
    using output_ok [of "outputTransport k"] base by (auto simp: base_ok_def)
  let ?k = "k\<lparr>inputTransport := i, outputTransport := ob\<rparr>"
  let ?s = "s\<lparr>conns := (conns s)(c \<mapsto> ?k), numActiveProcessors := numActiveProcessors s + 1\<rparr>"
  have "base_ok ?k" using base i ob by (simp add: base_ok_def buffer_ok_def)
  moreover have get: "get_conn c s = (Inr k, s)" using k by (rule get_conn_eq)
  let ?s1 = "s\<lparr>conns := (conns s)(c \<mapsto> k\<lparr>inputTransport := i\<rparr>)\<rparr>" and ?s2 = "s\<lparr>conns := (conns s)(c \<mapsto> ?k)\<rparr>"
  have in_eq: "on_input c (mem_resetBuffer_from (Some b) (readBufferPos k) OBSERVE) s = (Inr (), ?s1)"
    using k i by (simp add: on_input_def)
  have out_eq: "on_output c (bindT (modify mem_resetBuffer) (\<lambda>_. bindT (getWritePtr 4) (\<lambda>_. wroteBytes 4))) ?s1 = (Inr (), ?s2)"
    using ob(1) by (simp add: on_output_def)
  have inc: "incrementActiveProcessors ?s2 = (Inr (), ?s)" by (simp add: incrementActiveProcessors_def modify_def)
  have "transition_request P c s = dispatch P c ?s"
    using get in_eq out_eq inc b
    by (simp add: transition_request_def dispatch_def bindT_ok [where m = "get_conn c", OF get] bindT_ok [where m = "on_input c _"]
        bindT_ok [where m = "on_output c _"] bindT_ok [where m = incrementActiveProcessors])
  ultimately show thesis using that i ob by simp
qed

section \<open>What the server relies on\<close>

text \<open>Reads and writes of a socket keep within what was asked for.\<close>

definition recv_bounded :: "('a, 'e) sys \<Rightarrow> bool" where
  "recv_bounded sys \<longleftrightarrow> (\<forall>fd n e bs e'. sys_recv sys fd n e = (Inr bs, e') \<longrightarrow> length bs \<le> n)"

definition send_bounded :: "('a, 'e) sys \<Rightarrow> bool" where
  "send_bounded sys \<longleftrightarrow> (\<forall>fd bs e n e'. sys_send sys fd bs e = (Inr n, e') \<longrightarrow> n \<le> length bs)"

definition bounded_by :: "nat \<Rightarrow> ('r \<Rightarrow> nat) \<Rightarrow> exc + 'r \<Rightarrow> bool" where
  "bounded_by n f r = (case r of Inr x \<Rightarrow> f x \<le> n | Inl err \<Rightarrow> is_transport_exc err)"

lemma bounded_by_simps [simp]:
  "bounded_by n f (Inr x) \<longleftrightarrow> f x \<le> n" "bounded_by n f (Inl (TTransportException k))"
  by (simp_all add: bounded_by_def is_transport_exc_def)

lemma fst_sock_throw [simp]: "fst (sock_throw k s) = Inl (TTransportException k)"
  by (simp add: sock_throw_def)

lemma sock_read_try_bounds:
  assumes "recv_bounded sys"
  shows "bounded_by n length (fst (sock_read_try sys th n r (t, e)))"
proof (induction "nat (maxRecvRetries t - r)" arbitrary: e r rule: less_induct)
  case less
  have again: "bounded_by n length (fst (sock_read_try sys th n (r + 1) (t, e')))" if "r < maxRecvRetries t" for e'
    by (rule less) (use that in simp)
  obtain b e1 where b: "(if recvTimeout t > 0 then sys_gettimeofday sys e else (0, e)) = (b, e1)" by fastforce
  obtain x e2 where x: "sys_recv sys (socket t) n e1 = (x, e2)" by fastforce
  obtain f e3 where f: "sys_gettimeofday sys e2 = (f, e3)" by fastforce
  show ?case
  proof (cases x)
    case (Inl err)
    with again show ?thesis
      by (cases "th = 0"; subst sock_read_try.simps) (simp_all add: b x f Let_def)
  next
    case (Inr bs)
    with x assms have "length bs \<le> n" unfolding recv_bounded_def by blast
    with Inr show ?thesis by (subst sock_read_try.simps) (simp add: b x)
  qed
qed

lemma sock_read_bounds: "recv_bounded sys \<Longrightarrow> bounded_by n length (fst (sock_read sys n (t, e)))"
  by (simp add: sock_read_try_bounds sock_read_def Let_def)

lemma sock_write_partial_bounds:
  assumes "send_bounded sys"
  shows "bounded_by (length bs) (\<lambda>n. n) (fst (sock_write_partial sys bs (t, e)))"
proof -
  have "n \<le> length bs" if "sys_send sys fd bs e = (Inr n, e')" for fd e n e'
    using assms that unfolding send_bounded_def by blast
  then show ?thesis
    by (auto simp: sock_write_partial_def sock_throw_def sock_close_def bindT_def bounded_by_def is_transport_exc_def
        split: prod.splits sum.splits)
qed

text \<open>
  What is assumed of the surroundings: bounded system calls, a notification socket with room, and
  a processor that leaves intact transports, throws exceptions only, and does not ask to be called
  again on input it took nothing from.
\<close>

locale nb_surroundings =
  fixes P :: "('a, 'e, 'h) nb_env"
  assumes recv: "recv_bounded (e_sys P)"
    and send: "send_bounded (e_sys P)"
    and room: "pipe_room P n"
    and processor: "mem_inv i \<Longrightarrow> mem_unread b \<Longrightarrow> owner b \<Longrightarrow> process P ((i, b), h) = (r, ((i', b'), h')) \<Longrightarrow>
      mem_inv i' \<and> mem_unread b' \<and> owner b' \<and>
      (case r of
         Inl err \<Rightarrow> is_exception err \<and> err \<noteq> BadAlloc
       | Inr again \<Rightarrow> again \<longrightarrow> mem_pending i' \<noteq> [] \<longrightarrow> length (mem_pending i') < length (mem_pending i))"
begin

lemma new_output_ok: "mem_unread (new_TMemoryBuffer_sized (u32 (writeBufferDefaultSize P))) \<and>
    owner (new_TMemoryBuffer_sized (u32 (writeBufferDefaultSize P)))"
  using new_sized_inv [of "u32 (writeBufferDefaultSize P)"] new_sized_fields by (simp add: mem_unread_def u32_def)

lemma idle_check:
  assumes "conns s c = Some k" and "base_ok k"
  shows "\<exists>k'. checkIdleBufferMemLimit P c s = (Inr (), s\<lparr>conns := (conns s)(c \<mapsto> k')\<rparr>) \<and> base_ok k' \<and>
    registered k' = registered k \<and> eventFlags k' = eventFlags k"
  using assms new_output_ok
  by (auto simp: checkIdleBufferMemLimit_def upd_conn_eq base_ok_def buffer_ok_def Let_def)

lemma returnConnection_ok:
  assumes fr: "nb_frame P c 0 s" and k: "conns s c = Some k" and reg: "\<not> registered k"
  shows "ends_in (nb_inv P) (returnConnection P c) s"
proof -
  have c: "c \<notin> set (connectionStack s)" "c \<notin> set (waiting s)" and base: "base_ok k" and ct: "counters P 0 s"
    and others: "\<And>d k'. d \<noteq> c \<Longrightarrow> conns s d = Some k' \<Longrightarrow> conn_inv s d k'"
    using fr k by (auto simp: nb_frame_def)
  show ?thesis
  proof (cases "connectionStackLimit P \<noteq> 0 \<and> length (connectionStack s) \<ge> connectionStackLimit P")
    case True
    let ?s = "s\<lparr>conns := (conns s)(c := None), numTConnections := numTConnections s - 1\<rparr>"
    have "card (dom (conns s) - {c}) = card (dom (conns s)) - 1"
      using k by (intro card_Diff_singleton) auto
    then have "counters P 0 ?s"
      using ct c by (auto simp: counters_def waiting_def)
    moreover have "conn_inv ?s d k'" if "conns ?s d = Some k'" for d k'
      using others [of d k'] that by (auto simp: conn_inv_def waiting_def split: if_splits)
    ultimately show ?thesis
      using True by (simp add: ends_in_def returnConnection_def delete_conn_def modify_def nb_inv_def)
  next
    case False
    obtain k' where ck: "checkIdleBufferMemLimit P c s = (Inr (), s\<lparr>conns := (conns s)(c \<mapsto> k')\<rparr>)"
        "base_ok k'" "registered k' = registered k"
      using idle_check [OF k base] by blast
    let ?s = "s\<lparr>conns := (conns s)(c \<mapsto> k'), connectionStack := c # connectionStack s\<rparr>"
    have "dom ((conns s)(c \<mapsto> k')) = dom (conns s)" using k by auto
    then have "counters P 0 ?s"
      using ct c k False by (auto simp: counters_def waiting_def)
    moreover have "conn_inv ?s d k''" if "conns ?s d = Some k''" for d k''
      using others [of d k''] that c ck reg by (auto simp: conn_inv_def waiting_def split: if_splits)
    ultimately show ?thesis
      using False ck(1) by (auto simp: ends_in_def returnConnection_def bindT_def modify_def nb_inv_def)
  qed
qed

lemma conn_close_ok:
  assumes "nb_frame P c 0 s"
  shows "ends_in (nb_inv P) (conn_close P c) s"
proof -
  obtain k where k: "conns s c = Some k" "base_ok k" using nb_frame_get [OF assms] by blast
  obtain t e where cl: "sock_close (e_sys P) (tSocket k, os s) = (Inr (), (t, e))"
    by (simp add: sock_close_def)
  let ?k = "k\<lparr>registered := False, tSocket := t\<rparr>"
  let ?s = "s\<lparr>conns := (conns s)(c \<mapsto> ?k), os := e\<rparr>"
  have "nb_frame P c 0 ?s"
    using nb_frame_put [OF assms, of ?k] k by (simp add: nb_frame_env)
  then have "ends_in (nb_inv P) (returnConnection P c) ?s"
    by (rule returnConnection_ok [where k = ?k]) simp_all
  then show ?thesis
    by (simp add: ends_in_def conn_close_def bindT_def upd_conn_eq k on_socket_def cl)
qed

lemma decrement_ok:
  assumes "nb_frame P c (Suc n) s"
  shows "\<exists>s'. decrementActiveProcessors s = (Inr (), s') \<and> nb_frame P c n s' \<and> conns s' = conns s"
  using assms by (auto simp: decrementActiveProcessors_def modify_def nb_frame_def counters_def)

lemma increment_ok:
  "nb_frame P c n s \<Longrightarrow> nb_frame P c (Suc n) (s\<lparr>numActiveProcessors := numActiveProcessors s + 1\<rparr>)"
  by (simp add: nb_frame_def counters_def)

lemma header_ok:
  assumes "mem_unread b" and "owner b" and "4 \<le> wBase b" and "length h = 4"
  shows "store mem mem_upd (rBase b) h b = (Inr (), mem_upd (splice 0 h) b)" and "mem_unread (mem_upd (splice 0 h) b)"
    and "owner (mem_upd (splice 0 h) b)" and "length (mem (mem_upd (splice 0 h) b)) = length (mem b)"
proof -
  have r: "rBase b = 0" and inv: "mem_inv b" using assms(1) by (simp_all add: mem_unread_def)
  have len: "4 \<le> length (mem b)" using mem_inv_D [OF inv] assms(3) by linarith
  with r assms(4) show "store mem mem_upd (rBase b) h b = (Inr (), mem_upd (splice 0 h) b)"
    and "length (mem (mem_upd (splice 0 h) b)) = length (mem b)"
    by (simp_all add: store_def)
  with inv r assms show "mem_unread (mem_upd (splice 0 h) b)" "owner (mem_upd (splice 0 h) b)"
    by (auto simp: mem_unread_def mem_inv_def)
qed

lemma transition_result_ok:
  assumes fr: "nb_frame P c 1 s" and k: "conns s c = Some k" and reg: "registered k \<longleftrightarrow> eventFlags k \<noteq> EV_NONE"
  shows "ends_in (nb_inv P) (transition_result c) s"
proof -
  let ?b = "outputTransport k"
  have base: "base_ok k" using fr k by (auto simp: nb_frame_def)
  then have b: "mem_unread ?b" "owner ?b" "rBase ?b = 0" "mem_inv ?b" by (simp_all add: base_ok_def mem_unread_def)
  obtain s1 where dec: "decrementActiveProcessors s = (Inr (), s1)" and f1: "nb_frame P c 0 s1" and "conns s1 = conns s"
    using decrement_ok [of c 0 s] fr by auto
  with k have k1: "conns s1 c = Some k" by simp
  let ?k = "k\<lparr>writeAt := Some 0, writeBufferSize := wBase ?b\<rparr>"
  let ?s = "s1\<lparr>conns := (conns s1)(c \<mapsto> ?k)\<rparr>"
  have f2: "nb_frame P c 0 ?s" using base by (intro nb_frame_put f1) simp
  have eq: "transition_result c s = (if wBase ?b > 4 then
       bindT (upd_conn c (\<lambda>k. k\<lparr>writeBufferPos := 0, socketState := SOCKET_SEND\<rparr>)) (\<lambda>_.
       bindT (on_output c (store mem mem_upd 0 (be_bytes 4 (wBase ?b - 4)))) (\<lambda>_.
       bindT (upd_conn c (\<lambda>k. k\<lparr>appState := APP_SEND_RESULT\<rparr>)) (\<lambda>_.
       setFlags c EV_WRITE)))
     else transition_init c) ?s"
    using b by (simp add: transition_result_def bindT_def dec upd_conn_eq [OF k1] get_conn_def)
  show ?thesis
  proof (cases "wBase ?b > 4")
    case False
    have "ends_in (nb_inv P) (transition_init c) ?s"
      by (rule transition_init_ok [OF f2, where k = ?k]) (simp_all add: reg)
    with eq False show ?thesis by (simp add: ends_in_def)
  next
    case True
    let ?h = "be_bytes 4 (wBase ?b - 4)"
    note h = header_ok [OF b(1,2), of ?h, unfolded b(3), OF less_imp_le [OF True], simplified]
    let ?k' = "?k\<lparr>writeBufferPos := 0, socketState := SOCKET_SEND, outputTransport := mem_upd (splice 0 ?h) ?b,
      appState := APP_SEND_RESULT, eventFlags := EV_WRITE, registered := True\<rparr>"
    let ?s' = "s1\<lparr>conns := (conns s1)(c \<mapsto> ?k')\<rparr>"
    have "base_ok ?k'" using base h(2,3) by (simp add: base_ok_def buffer_ok_def)
    then have fr': "nb_frame P c 0 ?s'" by (intro nb_frame_put f1)
    have ph: "phase_ok ?k'" using True mem_inv_D [OF b(4)] h(4) by (simp add: phase_ok_def)
    have "nb_inv P ?s'" by (rule nb_frame_done [OF fr' _ ph]) (simp_all add: waits_def)
    moreover have "transition_result c s = (Inr (), ?s')"
      using True h(1) reg by (cases k) (auto simp: eq conn_simps on_output_def)
    ultimately show ?thesis by (simp add: ends_in_def)
  qed
qed

lemma transition_sent_ok:
  assumes fr: "nb_frame P c 0 s" and k: "conns s c = Some k" and reg: "registered k \<longleftrightarrow> eventFlags k \<noteq> EV_NONE"
  shows "ends_in (nb_inv P) (transition_sent P c) s"
proof -
  have base: "base_ok k" using fr k by (auto simp: nb_frame_def)
  define k1 where "k1 = (if writeBufferSize k > largestWriteBufferSize k
       then k\<lparr>largestWriteBufferSize := writeBufferSize k\<rparr> else k)"
  have k1: "base_ok k1" "registered k1 = registered k" "eventFlags k1 = eventFlags k"
    using base by (simp_all add: k1_def)
  let ?s1 = "s\<lparr>conns := (conns s)(c \<mapsto> k1)\<rparr>" and ?k2 = "k1\<lparr>callsForResize := callsForResize k1 + 1\<rparr>"
  let ?resize = "if resizeBufferEveryN P > 0 then
              bindT (upd_conn c (\<lambda>k. k\<lparr>callsForResize := callsForResize k + 1\<rparr>)) (\<lambda>_.
              bindT (get_conn c) (\<lambda>k.
              if callsForResize k \<ge> resizeBufferEveryN P then
                bindT (checkIdleBufferMemLimit P c) (\<lambda>_.
                upd_conn c (\<lambda>k. k\<lparr>callsForResize := 0\<rparr>))
              else ret ()))
            else ret ()"
  obtain k3 where k3: "checkIdleBufferMemLimit P c (s\<lparr>conns := (conns s)(c \<mapsto> ?k2)\<rparr>) = (Inr (), s\<lparr>conns := (conns s)(c \<mapsto> k3)\<rparr>)"
      "base_ok k3" "registered k3 = registered k1" "eventFlags k3 = eventFlags k1"
    using idle_check [of "s\<lparr>conns := (conns s)(c \<mapsto> ?k2)\<rparr>" c ?k2] k1(1) by auto
  define k' where "k' = (if resizeBufferEveryN P > 0 then
      if callsForResize k1 + 1 \<ge> resizeBufferEveryN P then k3\<lparr>callsForResize := 0\<rparr> else ?k2 else k1)"
  have rs: "?resize ?s1 = (Inr (), s\<lparr>conns := (conns s)(c \<mapsto> k')\<rparr>)"
    using k3(1) by (simp add: k'_def bindT_def upd_conn_def get_conn_def ret_def)
  have k': "base_ok k'" "registered k' = registered k" "eventFlags k' = eventFlags k"
    using k1 k3 by (simp_all add: k'_def)
  have "ends_in (nb_inv P) (transition_init c) (s\<lparr>conns := (conns s)(c \<mapsto> k')\<rparr>)"
    by (rule transition_init_ok [where k = k', OF nb_frame_put [OF fr k'(1)]]) (simp_all add: k' reg)
  moreover have "transition_sent P c s = bindT ?resize (\<lambda>_. transition_init c) ?s1"
    unfolding transition_sent_def by (subst bindT_ok [where m = "upd_conn c _", OF upd_conn_eq [OF k]]) (simp only: k1_def)
  ultimately show ?thesis unfolding ends_in_def bindT_ok [where m = ?resize, OF rs] by simp
qed

lemma nb_frame_queue:
  assumes "nb_frame P c 1 s" and "conns s c = Some k" and "phase_ok k" and "waits k"
  shows "appState k = APP_WAIT_TASK \<Longrightarrow> nb_inv P (s\<lparr>tasks := tasks s @ [c]\<rparr>)"
    and "nb_inv P (s\<lparr>notified := notified s @ [c]\<rparr>)"
proof -
  have c: "c \<notin> set (connectionStack s)" "c \<notin> set (waiting s)" and base: "base_ok k" and ct: "counters P 1 s"
    and others: "\<And>d k'. d \<noteq> c \<Longrightarrow> conns s d = Some k' \<Longrightarrow> conn_inv s d k'"
    using assms by (auto simp: nb_frame_def)
  show "nb_inv P (s\<lparr>tasks := tasks s @ [c]\<rparr>)" if "appState k = APP_WAIT_TASK"
  proof -
    have "conn_inv (s\<lparr>tasks := tasks s @ [c]\<rparr>) d k'" if "conns s d = Some k'" for d k'
      using others [OF _ that] that c base assms(2-4) \<open>appState k = APP_WAIT_TASK\<close>
      by (cases "d = c") (auto simp: conn_inv_def waiting_def)
    then show ?thesis using ct c assms(2) by (auto simp: nb_inv_def counters_def waiting_def)
  qed
  have "conn_inv (s\<lparr>notified := notified s @ [c]\<rparr>) d k'" if "conns s d = Some k'" for d k'
    using others [OF _ that] that c base assms(2-4) by (cases "d = c") (auto simp: conn_inv_def waiting_def)
  then show "nb_inv P (s\<lparr>notified := notified s @ [c]\<rparr>)"
    using ct c assms(2) by (auto simp: nb_inv_def counters_def waiting_def)
qed

lemma process_ok:
  assumes fr: "nb_frame P c 1 s" and k: "conns s c = Some k" and reg: "registered k \<longleftrightarrow> eventFlags k \<noteq> EV_NONE"
  shows "ends_in (nb_inv P) (tryT is_exception (on_transports c (process P)) (\<lambda>_. transition_result c)
         (bindT decrementActiveProcessors (\<lambda>_. conn_close P c))) s"
proof -
  have base: "base_ok k" using fr k by (auto simp: nb_frame_def)
  obtain r i b h where pr: "process P ((inputTransport k, outputTransport k), handler s) = (r, ((i, b), h))"
    by (metis prod.exhaust)
  with processor [OF _ _ _ pr] base have ok: "mem_inv i" "mem_unread b" "owner b"
      "case r of Inl err \<Rightarrow> is_exception err \<and> err \<noteq> BadAlloc | Inr again \<Rightarrow> True"
    by (auto simp: base_ok_def split: sum.splits)
  let ?k = "k\<lparr>inputTransport := i, outputTransport := b\<rparr>"
  let ?s = "s\<lparr>conns := (conns s)(c \<mapsto> ?k), handler := h\<rparr>"
  have ran: "on_transports c (process P) s = (r, ?s)" by (simp add: on_transports_def k pr)
  have "base_ok ?k" using base ok by (simp add: base_ok_def buffer_ok_def)
  then have fr': "nb_frame P c 1 ?s" using nb_frame_put [OF fr] by (simp add: nb_frame_env)
  show ?thesis
  proof (cases r)
    case (Inr x)
    have "ends_in (nb_inv P) (transition_result c) ?s"
      by (rule transition_result_ok [OF fr', where k = ?k]) (simp_all add: reg)
    then show ?thesis by (simp add: ends_in_def tryT_def ran Inr)
  next
    case (Inl err)
    obtain s1 where "decrementActiveProcessors ?s = (Inr (), s1)" "nb_frame P c 0 s1"
      using decrement_ok [of c 0 ?s] fr' by auto
    with conn_close_ok [of c s1] Inl ok show ?thesis by (simp add: ends_in_def tryT_def ran bindT_def)
  qed
qed

lemma transition_request_ok:
  assumes fr: "nb_frame P c 0 s" and k: "conns s c = Some k" and reg: "registered k" "eventFlags k \<noteq> EV_NONE"
    and b: "readBuffer k = Some b" and pos: "readBufferPos k \<le> length b"
  shows "ends_in (nb_inv P) (transition_request P c) s"
proof -
  have "base_ok k" using fr k by (auto simp: nb_frame_def)
  from request_ready [OF this k b pos, of P] obtain i ob where base: "base_ok (k\<lparr>inputTransport := i, outputTransport := ob\<rparr>)" and
    eq: "transition_request P c s = dispatch P c (s\<lparr>conns := (conns s)(c \<mapsto> k\<lparr>inputTransport := i, outputTransport := ob\<rparr>),
      numActiveProcessors := numActiveProcessors s + 1\<rparr>)" .
  let ?k = "k\<lparr>inputTransport := i, outputTransport := ob\<rparr>"
  let ?s = "s\<lparr>conns := (conns s)(c \<mapsto> ?k), numActiveProcessors := numActiveProcessors s + 1\<rparr>"
  from increment_ok [OF nb_frame_put [OF fr base]] have fr': "nb_frame P c 1 ?s" by simp
  show ?thesis
  proof (cases "threadPoolProcessing P")
    case False
    have "registered ?k \<longleftrightarrow> eventFlags ?k \<noteq> EV_NONE" using reg by simp
    from process_ok [OF fr' _ this] eq False show ?thesis by (simp add: ends_in_def dispatch_def)
  next
    case True
    let ?k' = "?k\<lparr>appState := APP_WAIT_TASK, eventFlags := EV_NONE, registered := False\<rparr>"
    let ?s' = "?s\<lparr>conns := (conns s)(c \<mapsto> ?k')\<rparr>"
    have "base_ok ?k'" using base by simp
    from nb_frame_put [OF fr' this] have fr'': "nb_frame P c 1 ?s'" by simp
    have "nb_inv P (?s'\<lparr>tasks := tasks ?s' @ [c]\<rparr>)"
      by (rule nb_frame_queue(1) [OF fr'', where k = ?k']) (simp_all add: phase_ok_def waits_def)
    moreover have "managerStarted s" using fr by (simp add: nb_frame_def counters_def)
    then have "transition_request P c s = (Inr (), ?s'\<lparr>tasks := tasks ?s' @ [c]\<rparr>)"
      using True reg by (simp add: eq dispatch_def conn_simps)
    ultimately show ?thesis by (simp add: ends_in_def)
  qed
qed

lemma double_size_ok:
  assumes "want \<le> 2 ^ 31" and "j \<le> 31"
  shows "\<exists>i \<le> 31. double_size want (2 ^ j) = Some (2 ^ i) \<and> want \<le> 2 ^ i"
  using assms(2)
proof (induction "31 - j" arbitrary: j)
  case 0
  then have "j = 31" by simp
  with assms(1) show ?case by (subst double_size.simps) (auto intro: exI [of _ 31])
next
  case (Suc n)
  show ?case
  proof (cases "want > 2 ^ j")
    case False
    with Suc.prems show ?thesis by (subst double_size.simps) (auto intro: exI [of _ j])
  next
    case True
    have "Suc j \<le> 31" using Suc.hyps(2) by simp
    then have "(2 :: nat) ^ Suc j \<le> 2 ^ 31" by (rule power_increasing) simp
    then have "u32 (2 ^ j * 2) = 2 ^ Suc j" by simp
    with Suc.hyps(1) [of "Suc j"] Suc.hyps(2) True show ?thesis by (subst double_size.simps) simp
  qed
qed

lemma transition_size_ok:
  assumes fr: "nb_frame P c 0 s" and k: "conns s c = Some k" and reg: "registered k" "eventFlags k = EV_READ"
    and want: "0 < readWant k" "readWant k < 2 ^ 31"
  shows "ends_in (nb_inv P) (transition_size c) s"
proof -
  have base: "base_ok k" using fr k by (auto simp: nb_frame_def)
  let ?old = "if readBufferSize k = 0 then 1 else readBufferSize k"
  obtain j where "j \<le> 31" "?old = 2 ^ j"
  proof (cases "readBufferSize k = 0")
    case True
    then show ?thesis using that [of 0] by simp
  next
    case False
    then show ?thesis using base that by (auto simp: base_ok_def buffer_ok_def)
  qed
  with double_size_ok [of "readWant k" j] want obtain i where
    i: "i \<le> 31" "double_size (readWant k) ?old = Some (2 ^ i)" "readWant k \<le> 2 ^ i" by auto
  let ?b = "resize (2 ^ i) (case readBuffer k of None \<Rightarrow> [] | Some b \<Rightarrow> b)"
  define k1 where "k1 = (if readWant k > readBufferSize k
    then k\<lparr>readBuffer := Some ?b, readBufferSize := 2 ^ i\<rparr> else k)"
  have k1: "base_ok k1" "registered k1" "eventFlags k1 = EV_READ" "readWant k1 = readWant k" "readWant k \<le> readBufferSize k1"
    using base reg i by (auto simp: k1_def base_ok_def buffer_ok_def)
  let ?k = "k1\<lparr>readBufferPos := 0, socketState := SOCKET_RECV, appState := APP_READ_REQUEST\<rparr>"
  let ?s = "s\<lparr>conns := (conns s)(c \<mapsto> ?k)\<rparr>"
  have fr': "nb_frame P c 0 ?s" by (rule nb_frame_put [OF fr]) (simp add: k1)
  have ph: "phase_ok ?k" using k1 want by (simp add: phase_ok_def)
  have "nb_inv P ?s" by (rule nb_frame_done [OF fr' _ ph]) (simp_all add: waits_def)
  moreover have "transition_size c s = (Inr (), ?s)"
    using k i(2) by (simp add: transition_size_def k1_def bindT_def get_conn_def upd_conn_def ret_def Let_def)
  ultimately show ?thesis by (simp add: ends_in_def)
qed

lemma transition_at:
  "conns s c = Some k \<Longrightarrow> transition P c s = (case appState k of
     APP_READ_REQUEST \<Rightarrow> transition_request P c
   | APP_WAIT_TASK \<Rightarrow> transition_result c
   | APP_SEND_RESULT \<Rightarrow> transition_sent P c
   | APP_INIT \<Rightarrow> transition_init c
   | APP_READ_FRAME_SIZE \<Rightarrow> transition_size c
   | APP_CLOSE_CONNECTION \<Rightarrow> bindT decrementActiveProcessors (\<lambda>_. conn_close P c)) s"
  by (simp add: transition_def bindT_def get_conn_def)

text \<open>A call on the socket of the connection, with its handlers.\<close>

lemma try_socket_ok:
  fixes m :: "(tsocket \<times> 'e, 'r) tio"
  assumes fr: "nb_frame P c 0 s" and k: "conns s c = Some k" and bound: "\<And>t e. bounded_by n f (fst (m (t, e)))"
    and rest: "\<And>x t e. f x \<le> n \<Longrightarrow> nb_frame P c 0 (s\<lparr>conns := (conns s)(c \<mapsto> k\<lparr>tSocket := t\<rparr>), os := e\<rparr>) \<Longrightarrow>
      ends_in (nb_inv P) (g x) (s\<lparr>conns := (conns s)(c \<mapsto> k\<lparr>tSocket := t\<rparr>), os := e\<rparr>)"
  shows "ends_in (nb_inv P) (tryT is_transport_exc (on_socket c m) g (conn_close P c)) s"
proof -
  obtain r t e where m: "m (tSocket k, os s) = (r, (t, e))" by (metis prod.exhaust)
  let ?s = "s\<lparr>conns := (conns s)(c \<mapsto> k\<lparr>tSocket := t\<rparr>), os := e\<rparr>"
  have so: "on_socket c m s = (r, ?s)" by (simp add: on_socket_def k m)
  have "base_ok k" using fr k by (auto simp: nb_frame_def)
  then have fr': "nb_frame P c 0 ?s" using nb_frame_put [OF fr, of "k\<lparr>tSocket := t\<rparr>"] by (simp add: nb_frame_env)
  show ?thesis
  proof (cases r)
    case (Inl err)
    then have "is_transport_exc err" using bound [of "tSocket k" "os s"] m by (simp add: bounded_by_def)
    with conn_close_ok [OF fr'] Inl show ?thesis by (simp add: ends_in_def tryT_def so)
  next
    case (Inr x)
    then have "f x \<le> n" using bound [of "tSocket k" "os s"] m by simp
    from rest [OF this fr'] Inr show ?thesis by (simp add: ends_in_def tryT_def so)
  qed
qed

lemma be_nat_bound:
  assumes "length b = 4"
  shows "be_nat b < 2 ^ 32"
proof -
  have "be_bytes 4 (be_nat b) = b" using be_bytes_be_nat [of b] assms by simp
  then have "be_nat b = be_nat b mod 256 ^ 4" by (metis be_nat_be_bytes)
  also have "\<dots> < 256 ^ 4" by simp
  finally show ?thesis by simp
qed

lemma work_framing_ok:
  assumes inv: "nb_inv P s" and k: "conns s c = Some k" and reg: "registered k" and st: "socketState k = SOCKET_RECV_FRAMING"
  shows "ends_in (nb_inv P) (work_framing P c) s"
proof -
  note fr = nb_inv_frame [OF inv k reg]
  then have ph: "appState k = APP_READ_FRAME_SIZE" "readBufferPos k < 4" "eventFlags k = EV_READ"
    using st by (auto simp: phase_ok_def waits_def reg split: app_state.splits)
  let ?pos = "readBufferPos k"
  have "ends_in (nb_inv P) (tryT is_transport_exc (on_socket c (sock_read (e_sys P) (4 - ?pos))) (\<lambda>fetch.
       if fetch = [] then conn_close P c
       else if ?pos + length fetch > 4 then throw UndefinedBehaviour
       else
         let buf = splice ?pos fetch (le_bytes 4 (readWant k)); pos' = ?pos + length fetch in
         if pos' < 4 then upd_conn c (\<lambda>k. k\<lparr>readBufferPos := pos', readWant := le_nat buf\<rparr>)
         else
           bindT (upd_conn c (\<lambda>k. k\<lparr>readBufferPos := pos', readWant := be_nat buf\<rparr>)) (\<lambda>_.
           if s32 (be_nat buf) \<le> 0 then conn_close P c else transition P c))
       (conn_close P c)) s"
  proof (rule try_socket_ok [OF fr(1) k, where f = length and n = "4 - ?pos"])
    show "bounded_by (4 - ?pos) length (fst (sock_read (e_sys P) (4 - ?pos) (t, e)))" for t e
      by (rule sock_read_bounds [OF recv])
    fix fetch :: bytes and t e
    let ?k = "k\<lparr>tSocket := t\<rparr>"
    let ?s = "s\<lparr>conns := (conns s)(c \<mapsto> ?k), os := e\<rparr>"
    assume len: "length fetch \<le> 4 - ?pos" and fr': "nb_frame P c 0 ?s"
    define buf where "buf = splice ?pos fetch (le_bytes 4 (readWant k))"
    have lb: "length buf = 4" using len ph by (simp add: buf_def)
    let ?pos' = "?pos + length fetch"
    have upd: "ends_in (nb_inv P) (if ?pos' < 4 then upd_conn c (\<lambda>k. k\<lparr>readBufferPos := ?pos', readWant := le_nat buf\<rparr>)
         else
           bindT (upd_conn c (\<lambda>k. k\<lparr>readBufferPos := ?pos', readWant := be_nat buf\<rparr>)) (\<lambda>_.
           if s32 (be_nat buf) \<le> 0 then conn_close P c else transition P c)) ?s"
    proof (cases "?pos' < 4")
      case True
      let ?k' = "?k\<lparr>readBufferPos := ?pos', readWant := le_nat buf\<rparr>"
      let ?s' = "?s\<lparr>conns := (conns ?s)(c \<mapsto> ?k')\<rparr>"
      have fr'': "nb_frame P c 0 ?s'" by (rule nb_frame_put [OF fr']) (simp add: fr(4))
      have "nb_inv P ?s'"
        by (rule nb_frame_done [OF fr'', where k = ?k']) (use ph True fr(2) in \<open>simp_all add: phase_ok_def waits_def\<close>)
      with True show ?thesis by (simp add: ends_in_def upd_conn_def)
    next
      case False
      let ?k' = "?k\<lparr>readBufferPos := ?pos', readWant := be_nat buf\<rparr>"
      let ?s' = "?s\<lparr>conns := (conns ?s)(c \<mapsto> ?k')\<rparr>"
      have fr'': "nb_frame P c 0 ?s'" by (rule nb_frame_put [OF fr']) (simp add: fr(4))
      have "ends_in (nb_inv P) (if s32 (be_nat buf) \<le> 0 then conn_close P c else transition P c) ?s'"
      proof (cases "s32 (be_nat buf) \<le> 0")
        case True
        with conn_close_ok [OF fr''] show ?thesis by simp
      next
        case positive: False
        then have "0 < be_nat buf" "be_nat buf < 2 ^ 31"
          using be_nat_bound [OF lb] by (auto simp: s32_def split: if_splits)
        then have "ends_in (nb_inv P) (transition_size c) ?s'"
          by (intro transition_size_ok [OF fr'', where k = ?k']) (use reg ph in simp_all)
        moreover have "transition P c ?s' = transition_size c ?s'"
          by (subst transition_at [where k = ?k']) (simp_all add: ph)
        ultimately show ?thesis using positive by (simp add: ends_in_def)
      qed
      with False show ?thesis by (simp add: ends_in_def bindT_def upd_conn_def)
    qed
    show "ends_in (nb_inv P) (if fetch = [] then conn_close P c
       else if ?pos + length fetch > 4 then throw UndefinedBehaviour
       else
         let buf = splice ?pos fetch (le_bytes 4 (readWant k)); pos' = ?pos + length fetch in
         if pos' < 4 then upd_conn c (\<lambda>k. k\<lparr>readBufferPos := pos', readWant := le_nat buf\<rparr>)
         else
           bindT (upd_conn c (\<lambda>k. k\<lparr>readBufferPos := pos', readWant := be_nat buf\<rparr>)) (\<lambda>_.
           if s32 (be_nat buf) \<le> 0 then conn_close P c else transition P c)) ?s"
    proof (cases "fetch = []")
      case True
      with conn_close_ok [OF fr'] show ?thesis by simp
    next
      case False
      have "\<not> ?pos + length fetch > 4" using len ph by simp
      with upd False show ?thesis by (simp only: if_False Let_def buf_def [symmetric])
    qed
  qed
  then show ?thesis by (simp add: work_framing_def ends_in_def bindT_def get_conn_def k Let_def)
qed

lemma work_recv_ok:
  assumes inv: "nb_inv P s" and k: "conns s c = Some k" and reg: "registered k" and st: "socketState k = SOCKET_RECV"
  shows "ends_in (nb_inv P) (work_recv P c) s"
proof -
  note fr = nb_inv_frame [OF inv k reg]
  then have ph: "appState k = APP_READ_REQUEST" "readBufferPos k < readWant k" "readWant k \<le> readBufferSize k" "eventFlags k = EV_READ"
    using st by (auto simp: phase_ok_def waits_def reg split: app_state.splits)
  obtain b where b: "readBuffer k = Some b" "length b = readBufferSize k"
    using fr(4) ph by (auto simp: base_ok_def buffer_ok_def)
  let ?pos = "readBufferPos k"
  let ?rest = "\<lambda>got. bindT (upd_conn c (\<lambda>k. k\<lparr>readBuffer := Some (splice ?pos got b), readBufferPos := ?pos + length got\<rparr>)) (\<lambda>_.
                bindT (assertT (?pos + length got \<le> readWant k)) (\<lambda>_.
                if ?pos + length got = readWant k then transition P c else ret ()))"
  let ?h = "\<lambda>got. if got \<noteq> [] then
         (case readBuffer k of
            None \<Rightarrow> throw UndefinedBehaviour
          | Some b \<Rightarrow>
              if ?pos + length got > length b then throw UndefinedBehaviour
              else
                bindT (upd_conn c (\<lambda>k. k\<lparr>readBuffer := Some (splice ?pos got b), readBufferPos := ?pos + length got\<rparr>)) (\<lambda>_.
                bindT (assertT (?pos + length got \<le> readWant k)) (\<lambda>_.
                if ?pos + length got = readWant k then transition P c else ret ())))
       else conn_close P c"
  have "ends_in (nb_inv P) (tryT is_transport_exc (on_socket c (sock_read (e_sys P) (readWant k - ?pos))) ?h (conn_close P c)) s"
  proof (rule try_socket_ok [OF fr(1) k, where f = length and n = "readWant k - ?pos"])
    show "bounded_by (readWant k - ?pos) length (fst (sock_read (e_sys P) (readWant k - ?pos) (t, e)))" for t e
      by (rule sock_read_bounds [OF recv])
    fix got :: bytes and t e
    let ?k = "k\<lparr>tSocket := t\<rparr>"
    let ?s = "s\<lparr>conns := (conns s)(c \<mapsto> ?k), os := e\<rparr>"
    assume len: "length got \<le> readWant k - ?pos" and fr': "nb_frame P c 0 ?s"
    show "ends_in (nb_inv P) (?h got) ?s"
    proof (cases "got = []")
      case True
      with conn_close_ok [OF fr'] show ?thesis by simp
    next
      case False
      let ?k' = "?k\<lparr>readBuffer := Some (splice ?pos got b), readBufferPos := ?pos + length got\<rparr>"
      let ?s' = "?s\<lparr>conns := (conns ?s)(c \<mapsto> ?k')\<rparr>"
      have fits: "?pos + length got \<le> readWant k" "?pos + length got \<le> length b" using len ph b by auto
      then have "base_ok ?k'" using fr(4) b ph by (auto simp: base_ok_def buffer_ok_def)
      then have fr'': "nb_frame P c 0 ?s'" by (rule nb_frame_put [OF fr'])
      have "ends_in (nb_inv P) (if ?pos + length got = readWant k then transition P c else ret ()) ?s'"
      proof (cases "?pos + length got = readWant k")
        case True
        have "ends_in (nb_inv P) (transition_request P c) ?s'"
          by (rule transition_request_ok [OF fr'', where k = ?k' and b = "splice ?pos got b"]) (use reg ph fits in simp_all)
        moreover have "transition P c ?s' = transition_request P c ?s'"
          by (subst transition_at [where k = ?k']) (simp_all add: ph)
        ultimately show ?thesis using True by (simp add: ends_in_def)
      next
        case False
        have "nb_inv P ?s'"
          by (rule nb_frame_done [OF fr'', where k = ?k'])
            (use ph False fits fr(2) in \<open>simp_all add: phase_ok_def waits_def\<close>)
        with False show ?thesis by (simp add: ends_in_def ret_def)
      qed
      with False fits b(1) show ?thesis by (simp add: ends_in_def bindT_def upd_conn_def assertT_def ret_def)
    qed
  qed
  then show ?thesis using ph by (simp add: work_recv_def ends_in_def bindT_def get_conn_def assertT_def ret_def k Let_def)
qed

lemma work_send_ok:
  assumes inv: "nb_inv P s" and k: "conns s c = Some k" and reg: "registered k" and st: "socketState k = SOCKET_SEND"
  shows "ends_in (nb_inv P) (work_send P c) s"
proof -
  note fr = nb_inv_frame [OF inv k reg]
  then have ph: "appState k = APP_SEND_RESULT" "writeBufferPos k < writeBufferSize k" "eventFlags k = EV_WRITE"
    using st by (auto simp: phase_ok_def waits_def reg split: app_state.splits)
  obtain at where at: "writeAt k = Some at" "at + writeBufferSize k \<le> length (mem (outputTransport k))"
    using fr(2) ph by (auto simp: phase_ok_def)
  let ?pos = "writeBufferPos k" and ?sz = "writeBufferSize k"
  let ?bs = "slice (at + ?pos) (?sz - ?pos) (mem (outputTransport k))"
  have lb: "length ?bs = ?sz - ?pos" using at ph by simp
  let ?h = "\<lambda>sent. bindT (upd_conn c (\<lambda>k. k\<lparr>writeBufferPos := ?pos + sent\<rparr>)) (\<lambda>_.
             bindT (assertT (?pos + sent \<le> ?sz)) (\<lambda>_.
             if ?pos + sent = ?sz then transition P c else ret ()))"
  have "ends_in (nb_inv P) (tryT is_transport_exc (on_socket c (sock_write_partial (e_sys P) ?bs)) ?h (conn_close P c)) s"
  proof (rule try_socket_ok [OF fr(1) k, where f = "\<lambda>n. n" and n = "length ?bs"])
    show "bounded_by (length ?bs) (\<lambda>n. n) (fst (sock_write_partial (e_sys P) ?bs (t, e)))" for t e
      by (rule sock_write_partial_bounds [OF send])
    fix n t e
    let ?k = "k\<lparr>tSocket := t\<rparr>"
    let ?s = "s\<lparr>conns := (conns s)(c \<mapsto> ?k), os := e\<rparr>"
    assume len: "n \<le> length ?bs" and fr': "nb_frame P c 0 ?s"
    let ?k' = "?k\<lparr>writeBufferPos := ?pos + n\<rparr>"
    let ?s' = "?s\<lparr>conns := (conns ?s)(c \<mapsto> ?k')\<rparr>"
    have fits: "?pos + n \<le> ?sz" using len lb ph by auto
    have fr'': "nb_frame P c 0 ?s'" by (rule nb_frame_put [OF fr']) (simp add: fr(4))
    have "ends_in (nb_inv P) (if ?pos + n = ?sz then transition P c else ret ()) ?s'"
    proof (cases "?pos + n = ?sz")
      case True
      have "ends_in (nb_inv P) (transition_sent P c) ?s'"
        by (rule transition_sent_ok [OF fr'', where k = ?k']) (use reg ph in simp_all)
      moreover have "transition P c ?s' = transition_sent P c ?s'"
        by (subst transition_at [where k = ?k']) (simp_all add: ph)
      ultimately show ?thesis using True by (simp add: ends_in_def)
    next
      case False
      have "nb_inv P ?s'"
        by (rule nb_frame_done [OF fr'', where k = ?k'])
          (use ph False fits fr(2) in \<open>simp_all add: phase_ok_def waits_def\<close>)
      with False show ?thesis by (simp add: ends_in_def ret_def)
    qed
    with fits show "ends_in (nb_inv P) (?h n) ?s"
      by (simp add: ends_in_def bindT_def upd_conn_def assertT_def ret_def)
  qed
  moreover have "work_send P c s = tryT is_transport_exc (on_socket c (sock_write_partial (e_sys P) ?bs)) ?h (conn_close P c) s"
  proof -
    have out_eq: "on_output c (load mem (at + ?pos) (?sz - ?pos)) s = (Inr ?bs, s)"
      using at ph k by (simp add: on_output_def load_def fun_upd_idem)
    show ?thesis using ph
      by (simp add: work_send_def bindT_ok [where m = "get_conn c", OF get_conn_eq [OF k]] at(1) Let_def
          bindT_ok [where m = "on_output c _", OF out_eq])
  qed
  ultimately show ?thesis by (simp add: ends_in_def)
qed

theorem workSocket_ok:
  assumes "nb_inv P s" and "conns s c = Some k" and "registered k"
  shows "ends_in (nb_inv P) (workSocket P c) s"
  using work_framing_ok [OF assms] work_recv_ok [OF assms] work_send_ok [OF assms] assms(2)
  by (cases "socketState k") (simp_all add: workSocket_def ends_in_def bindT_def get_conn_def)

lemma leave_queue:
  fixes s :: "('e, 'h) nb_server"
  assumes inv: "nb_inv P s" and s': "s' = s\<lparr>tasks := ts, running := rs, notified := ns\<rparr>"
    and ms: "mset (waiting s) = add_mset c (mset (waiting s'))" and sub: "set (ts @ rs) \<subseteq> set (tasks s @ running s)"
  obtains k where "nb_frame P c 1 s'" and "conns s' c = Some k" and "phase_ok k" and "waits k"
    and "c \<in> set (tasks s @ running s) \<Longrightarrow> appState k = APP_WAIT_TASK"
proof -
  have eq: "mset (waiting s) = mset (c # waiting s')" using ms by simp
  then have q: "set (waiting s) = insert c (set (waiting s'))" "length (waiting s) = Suc (length (waiting s'))"
      "distinct (waiting s) = (c \<notin> set (waiting s') \<and> distinct (waiting s'))"
    using mset_eq_setD [OF eq] mset_eq_length [OF eq] mset_eq_imp_distinct_iff [OF eq] by simp_all
  have ct: "counters P 0 s" and ci: "\<And>d k. conns s d = Some k \<Longrightarrow> conn_inv s d k" using inv by (simp_all add: nb_inv_def)
  have "c \<in> dom (conns s)" using ct q by (auto simp: counters_def)
  then obtain k where k: "conns s c = Some k" by blast
  have notst: "c \<notin> set (connectionStack s)" using ci [OF k] q by (auto simp: conn_inv_def split: if_splits)
  then have ck: "base_ok k" "phase_ok k" "waits k" "c \<in> set (tasks s @ running s) \<Longrightarrow> appState k = APP_WAIT_TASK"
    using ci [OF k] q by (simp_all add: conn_inv_def)
  have c': "c \<notin> set (waiting s')" using ct q by (simp add: counters_def)
  have "conn_inv s' d k'" if "d \<noteq> c" "conns s d = Some k'" for d k'
    using ci [OF that(2)] that(1) q(1) sub s' by (auto simp: conn_inv_def split: if_splits)
  moreover have "counters P 1 s'" using ct q s' by (simp add: counters_def)
  ultimately have "nb_frame P c 1 s'" using k ck notst c' s' by (simp add: nb_frame_def)
  with that k ck s' show thesis by simp
qed

lemma notify_ok:
  assumes "nb_frame P c 1 s" and "conns s c = Some k" and "phase_ok k" and "waits k"
  shows "ends_in (nb_inv P) (bindT (notifyServer P c) (\<lambda>told. if told then ret () else throw TException)) s"
  using nb_frame_queue(2) [OF assms] by (simp add: ends_in_def bindT_def notifyServer_def room ret_def)

lemma task_loop_ok:
  assumes "mem_inv i" and "mem_unread b" and "owner b"
  shows "\<exists>r s'. loopT (task_body P) () ((i, b), h) = (r, s') \<and> r \<noteq> Inl Diverges \<and>
    (case s' of ((i', b'), h') \<Rightarrow> mem_inv i' \<and> mem_unread b' \<and> owner b') \<and>
    (case r of Inl err \<Rightarrow> is_exception err \<and> err \<noteq> BadAlloc | Inr _ \<Rightarrow> True)"
proof (rule loopT_total [where I = "\<lambda>_ ((i, b), h). mem_inv i \<and> mem_unread b \<and> owner b" and
      m = "\<lambda>_ s. length (mem_pending (fst (fst s)))" and
      Q = "\<lambda>r s'. (case s' of ((i', b'), h') \<Rightarrow> mem_inv i' \<and> mem_unread b' \<and> owner b') \<and>
    (case r of Inl err \<Rightarrow> is_exception err \<and> err \<noteq> BadAlloc | Inr _ \<Rightarrow> True)"])
  fix l :: unit and s :: "(mem_buffer \<times> mem_buffer) \<times> 'h"
  obtain i b h where s: "s = ((i, b), h)" by (metis prod.exhaust)
  assume "case s of (x, h) \<Rightarrow> (case x of (i, b) \<Rightarrow> \<lambda>h. mem_inv i \<and> mem_unread b \<and> owner b) h"
  then have ok: "mem_inv i" "mem_unread b" "owner b" by (simp_all add: s)
  obtain r i' b' h' where pr: "process P ((i, b), h) = (r, ((i', b'), h'))" by (metis prod.exhaust)
  note post = processor [OF ok pr]
  have "rBase i' < wBase i' \<longleftrightarrow> mem_pending i' \<noteq> []"
    using post length_mem_pending [of i'] by (metis length_greater_0_conv zero_less_diff)
  with post show "\<exists>r s'. task_body P l s = (r, s') \<and>
      (case r of
         Inl e \<Rightarrow> e \<noteq> Diverges \<and> (case s' of ((i', b'), h') \<Rightarrow> mem_inv i' \<and> mem_unread b' \<and> owner b') \<and>
           (case Inl e of Inl err \<Rightarrow> is_exception err \<and> err \<noteq> BadAlloc | Inr _ \<Rightarrow> True)
       | Inr (Inl l') \<Rightarrow> (case s' of (x, h) \<Rightarrow> (case x of (i, b) \<Rightarrow> \<lambda>h. mem_inv i \<and> mem_unread b \<and> owner b) h) \<and>
           length (mem_pending (fst (fst s'))) < length (mem_pending (fst (fst s)))
       | Inr (Inr x) \<Rightarrow> (case s' of ((i', b'), h') \<Rightarrow> mem_inv i' \<and> mem_unread b' \<and> owner b') \<and>
           (case Inr x of Inl err \<Rightarrow> is_exception err \<and> err \<noteq> BadAlloc | Inr _ \<Rightarrow> True))"
    by (cases r) (auto simp: s task_body_def bindT_def pr leave_with_def continue_with_def on_part_def mem_peek_def is_exception_def)
qed (simp add: assms)

lemma nb_task_run_ok:
  assumes inv: "nb_inv P s" and r: "running s = cs @ c # ds"
  shows "ends_in (nb_inv P) (nb_task_run P c) (s\<lparr>running := cs @ ds\<rparr>)"
proof -
  let ?s = "s\<lparr>running := cs @ ds\<rparr>"
  obtain k where fr: "nb_frame P c 1 ?s" and k: "conns ?s c = Some k" and ph: "phase_ok k" "waits k"
    by (rule leave_queue [OF inv, where s' = ?s and ts = "tasks s" and rs = "cs @ ds" and ns = "notified s" and c = c]) (auto simp: waiting_def r)
  have base: "base_ok k" using fr k by (auto simp: nb_frame_def)
  obtain x i b h where l: "loopT (task_body P) () ((inputTransport k, outputTransport k), handler s) = (x, ((i, b), h))"
      "mem_inv i" "mem_unread b" "owner b" "case x of Inl err \<Rightarrow> is_exception err \<and> err \<noteq> BadAlloc | Inr _ \<Rightarrow> True"
    using task_loop_ok [of "inputTransport k" "outputTransport k" "handler s"] base by (fastforce simp: base_ok_def)
  let ?k = "k\<lparr>inputTransport := i, outputTransport := b\<rparr>"
  let ?s' = "?s\<lparr>conns := (conns ?s)(c \<mapsto> ?k), handler := h\<rparr>"
  have "base_ok ?k" using base l by (simp add: base_ok_def buffer_ok_def)
  from nb_frame_put [OF fr this] have fr': "nb_frame P c 1 ?s'" by (simp add: nb_frame_env)
  have "phase_ok ?k" "waits ?k" using ph by (auto simp: phase_ok_def waits_def)
  then have "ends_in (nb_inv P) (bindT (notifyServer P c) (\<lambda>told. if told then ret () else throw TException)) ?s'"
    by (intro notify_ok [OF fr', where k = ?k]) simp_all
  moreover have "tryT (\<lambda>e. is_exception e \<and> e \<noteq> BadAlloc) (on_transports c (loopT (task_body P) ())) (\<lambda>_. ret ()) (ret ()) ?s = (Inr (), ?s')"
    using k l(1,5) by (cases x) (simp_all add: tryT_def on_transports_def ret_def)
  ultimately show ?thesis by (simp add: ends_in_def nb_task_run_def bindT_def)
qed

lemma taskHandler_ok:
  assumes inv: "nb_inv P s"
  shows "ends_in (nb_inv P) (taskHandler P) s"
proof (cases "notified s")
  case Nil
  with inv show ?thesis by (simp add: ends_in_def taskHandler_def)
next
  case (Cons c cs)
  let ?s = "s\<lparr>notified := cs\<rparr>"
  obtain k where fr: "nb_frame P c 1 ?s" and k: "conns ?s c = Some k" and ph: "phase_ok k" "waits k"
    by (rule leave_queue [OF inv, where s' = ?s and ts = "tasks s" and rs = "running s" and ns = cs and c = c]) (auto simp: waiting_def Cons)
  have "ends_in (nb_inv P) (transition P c) ?s"
  proof (cases "appState k = APP_WAIT_TASK")
    case True
    have "ends_in (nb_inv P) (transition_result c) ?s"
      by (rule transition_result_ok [OF fr k]) (use ph True in \<open>simp add: phase_ok_def\<close>)
    with True show ?thesis by (simp add: ends_in_def transition_at [OF k])
  next
    case False
    with ph(2) have st: "appState k = APP_CLOSE_CONNECTION" by (simp add: waits_def)
    obtain s1 where "decrementActiveProcessors ?s = (Inr (), s1)" "nb_frame P c 0 s1"
      using decrement_ok [of c 0 ?s] fr by auto
    with conn_close_ok [of c s1] st show ?thesis by (simp add: ends_in_def transition_at [OF k] bindT_def)
  qed
  with Cons show ?thesis by (simp add: taskHandler_def ends_in_def)
qed

lemma expireClose_ok:
  assumes inv: "nb_inv P s" and r: "tasks s = cs @ c # ds"
  shows "ends_in (nb_inv P) (expireClose P c) (s\<lparr>tasks := cs @ ds\<rparr>)"
proof -
  let ?s = "s\<lparr>tasks := cs @ ds\<rparr>"
  obtain k where fr: "nb_frame P c 1 ?s" and k: "conns ?s c = Some k" and ph: "phase_ok k" "waits k" and
      wait: "c \<in> set (tasks s @ running s) \<Longrightarrow> appState k = APP_WAIT_TASK"
    by (rule leave_queue [OF inv, where s' = ?s and ts = "cs @ ds" and rs = "running s" and ns = "notified s" and c = c]) (auto simp: waiting_def r)
  let ?k = "k\<lparr>appState := APP_CLOSE_CONNECTION\<rparr>"
  let ?s' = "?s\<lparr>conns := (conns ?s)(c \<mapsto> ?k)\<rparr>"
  have st: "appState k = APP_WAIT_TASK" using wait r by simp
  have "base_ok ?k" using fr k by (auto simp: nb_frame_def)
  from nb_frame_put [OF fr this] have fr': "nb_frame P c 1 ?s'" .
  have "phase_ok ?k" "waits ?k" using ph st by (simp_all add: phase_ok_def waits_def)
  then have "ends_in (nb_inv P) (bindT (notifyServer P c) (\<lambda>told. if told then ret () else throw TException)) ?s'"
    by (intro notify_ok [OF fr', where k = ?k]) simp_all
  with k st show ?thesis
    by (simp add: ends_in_def expireClose_def forceClose_def bindT_ok [where m = "get_conn c", OF get_conn_eq [OF k]]
        bindT_ok [where m = "upd_conn c _", OF upd_conn_eq [OF k]])
qed

end

end
