(* ===== verification/NonblockingRuns.thy ===== *)
theory NonblockingRuns
  imports NonblockingInv
begin

text \<open>
  Whole runs of the nonblocking server: new clients, overload, and every interleaving of its events,
  first with room for all notifications and then over a notification socket that can be full.
\<close>

section \<open>New clients\<close>

context nb_surroundings
begin

lemma conn_init_ok:
  assumes "conns s c = Some k" and "base_ok k"
  shows "\<exists>k' e. conn_init P c fd EV_READ s = (Inr (), s\<lparr>conns := (conns s)(c \<mapsto> k'), os := e\<rparr>) \<and>
    base_ok k' \<and> registered k' \<and> eventFlags k' = EV_READ \<and> appState k' = APP_INIT"
proof -
  have "\<exists>t e. setSocketFD (e_sys P) fd (tSocket k, os s) = (Inr (), (t, e))"
    by (cases "socket (tSocket k) \<ge> 0") (simp_all add: setSocketFD_def sock_close_def bindT_def ret_def modify_def)
  then obtain t e where sf: "setSocketFD (e_sys P) fd (tSocket k, os s) = (Inr (), (t, e))" by blast
  let ?k = "k\<lparr>tSocket := t, appState := APP_INIT, readBufferPos := 0, readWant := 0, writeAt := None,
    writeBufferSize := 0, writeBufferPos := 0, largestWriteBufferSize := 0, socketState := SOCKET_RECV_FRAMING,
    callsForResize := 0, eventFlags := EV_READ, registered := True\<rparr>"
  have "conn_init P c fd EV_READ s = (Inr (), s\<lparr>conns := (conns s)(c \<mapsto> ?k), os := e\<rparr>)"
    using assms by (simp add: conn_init_def bindT_def on_socket_def sf upd_conn_def setFlags_def)
  then show ?thesis using assms(2) by (intro exI [of _ ?k] exI [of _ e]) simp
qed

lemma raw_connection_ok: "base_ok (raw_connection P)"
  using new_output_ok by (simp add: base_ok_def buffer_ok_def raw_connection_def initCommon_def mem_inv_def)

lemma createConnection_ok:
  assumes inv: "nb_inv P s"
  shows "\<exists>c k s'. createConnection P fd EV_READ s = (Inr c, s') \<and> nb_frame P c 0 s' \<and> conns s' c = Some k \<and>
    registered k \<and> eventFlags k = EV_READ \<and> appState k = APP_INIT"
proof (cases "connectionStack s")
  case Nil
  let ?c = "nextConn s"
  let ?s = "s\<lparr>conns := (conns s)(?c \<mapsto> raw_connection P), nextConn := ?c + 1\<rparr>"
  obtain k e where k: "conn_init P ?c fd EV_READ ?s = (Inr (), ?s\<lparr>conns := (conns ?s)(?c \<mapsto> k), os := e\<rparr>)"
      "base_ok k" "registered k" "eventFlags k = EV_READ" "appState k = APP_INIT"
    using conn_init_ok [of ?s ?c "raw_connection P" fd] raw_connection_ok by auto
  let ?s' = "?s\<lparr>conns := (conns ?s)(?c \<mapsto> k), os := e, numTConnections := numTConnections s + 1\<rparr>"
  have ct: "counters P 0 s" and others: "\<And>d k'. conns s d = Some k' \<Longrightarrow> conn_inv s d k'"
    using inv by (simp_all add: nb_inv_def)
  have new: "?c \<notin> dom (conns s)" using ct by (auto simp: counters_def)
  have "d < nextConn s" if "conns s d = Some k'" for d k' using ct that by (auto simp: counters_def)
  then have "nb_frame P ?c 0 ?s'"
    using ct new others k(2) Nil by (auto simp: nb_frame_def counters_def intro: less_SucI)
  moreover have "createConnection P fd EV_READ s = (Inr ?c, ?s')"
    using k(1) by (simp add: createConnection_def Nil Let_def bindT_def modify_def ret_def)
  ultimately show ?thesis using k by auto
next
  case (Cons c cs)
  let ?s = "s\<lparr>connectionStack := cs\<rparr>"
  have ct: "counters P 0 s" and others: "\<And>d k'. conns s d = Some k' \<Longrightarrow> conn_inv s d k'"
    using inv by (simp_all add: nb_inv_def)
  then obtain k0 where k0: "conns s c = Some k0" "base_ok k0" "c \<notin> set (waiting s)"
    using Cons by (auto simp: counters_def conn_inv_def)
  obtain k e where k: "conn_init P c fd EV_READ ?s = (Inr (), ?s\<lparr>conns := (conns ?s)(c \<mapsto> k), os := e\<rparr>)"
      "base_ok k" "registered k" "eventFlags k = EV_READ" "appState k = APP_INIT"
    using conn_init_ok [of ?s c k0 fd] k0 by auto
  let ?s' = "?s\<lparr>conns := (conns ?s)(c \<mapsto> k), os := e\<rparr>"
  have d: "dom (conns ?s') = dom (conns s)" using k0 by auto
  have "conn_inv ?s' d k'" if "d \<noteq> c" "conns s d = Some k'" for d k'
    using others [OF that(2)] that Cons by (auto simp: conn_inv_def waiting_def split: if_splits)
  moreover have "counters P 0 ?s'" using ct d Cons by (auto simp: counters_def)
  ultimately have "nb_frame P c 0 ?s'" using k(2) k0 ct Cons by (auto simp: nb_frame_def counters_def)
  moreover have "createConnection P fd EV_READ s = (Inr c, ?s')"
    using k(1) by (simp add: createConnection_def Cons bindT_def modify_def ret_def)
  ultimately show ?thesis using k by auto
qed

lemma nb_inv_counts [simp]:
  "nb_inv P (s\<lparr>isOverloaded := b\<rparr>) = nb_inv P s" "nb_inv P (s\<lparr>nConnectionsDropped := n\<rparr>) = nb_inv P s"
  "nb_inv P (s\<lparr>nTotalConnectionsDropped := n\<rparr>) = nb_inv P s" "nb_inv P (s\<lparr>os := e\<rparr>) = nb_inv P s"
  by (simp_all add: nb_inv_def counters_def)

lemma drainPendingTask_ok:
  assumes "nb_inv P s"
  shows "\<exists>b s'. drainPendingTask P s = (Inr b, s') \<and> nb_inv P s'"
proof (cases "threadPoolProcessing P \<and> tasks s \<noteq> []")
  case True
  then obtain c cs where t: "tasks s = c # cs" by (meson list.exhaust)
  have "managerStarted s" using assms by (simp add: nb_inv_def counters_def)
  with t expireClose_ok [OF assms, of "[]" c cs] True show ?thesis
    by (auto simp: drainPendingTask_def ends_in_def bindT_def ret_def)
next
  case False
  moreover have "managerStarted s" using assms by (simp add: nb_inv_def counters_def)
  ultimately show ?thesis using assms by (auto simp: drainPendingTask_def split: list.split)
qed

lemma shed_load_ok:
  assumes "nb_inv P s"
  shows "\<exists>b s'. shed_load P s = (Inr b, s') \<and> nb_inv P s'"
proof -
  obtain over s1 where o: "serverOverloaded P s = (Inr over, s1)" "nb_inv P s1"
    using assms by (auto simp: serverOverloaded_def Let_def)
  let ?s = "s1\<lparr>nConnectionsDropped := u32 (nConnectionsDropped s1 + 1),
            nTotalConnectionsDropped := (nTotalConnectionsDropped s1 + 1) mod 2 ^ 64\<rparr>"
  have "nb_inv P ?s" using o(2) by simp
  from drainPendingTask_ok [OF this] show ?thesis using assms o
    by (auto simp: shed_load_def bindT_def ret_def modify_def)
qed

lemma accept_client_ok:
  assumes "nb_inv P s"
  shows "\<exists>b s'. accept_client P fd nonblock s = (Inr b, s') \<and> nb_inv P s'"
proof -
  obtain b s1 where s: "shed_load P s = (Inr b, s1)" "nb_inv P s1" using shed_load_ok [OF assms] by blast
  obtain c k s2 where c: "createConnection P fd EV_READ s1 = (Inr c, s2)" "nb_frame P c 0 s2" "conns s2 c = Some k"
      "registered k" "eventFlags k = EV_READ" "appState k = APP_INIT"
    using createConnection_ok [OF s(2)] by blast
  have "ends_in (nb_inv P) (transition P c) s2"
    using transition_init_ok [OF c(2,3)] c by (simp add: ends_in_def transition_at [OF c(3)])
  with s c(1) show ?thesis
    by (auto simp: accept_client_def bindT_def ret_def close_client_def modify_def ends_in_def)
qed

lemma handleEvent_ok: "nb_inv P s \<Longrightarrow> ends_in (nb_inv P) (handleEvent P clients) s"
proof (induction clients arbitrary: s)
  case Nil
  then show ?case by (simp add: ends_in_def ret_def)
next
  case (Cons x clients)
  obtain fd nonblock where x: "x = (fd, nonblock)" by fastforce
  obtain b s1 where "accept_client P fd nonblock s = (Inr b, s1)" "nb_inv P s1"
    using accept_client_ok [OF Cons.prems] by blast
  with Cons.IH [of s1] show ?case by (simp add: x ends_in_def bindT_def ret_def)
qed

section \<open>Steps\<close>

lemma task_taken_ok:
  assumes "nb_inv P s" and "tasks s = c # cs"
  shows "nb_inv P (s\<lparr>tasks := cs, running := running s @ [c]\<rparr>)"
proof -
  let ?s = "s\<lparr>tasks := cs, running := running s @ [c]\<rparr>"
  have "mset (waiting ?s) = mset (waiting s)" using assms(2) by (simp add: waiting_def)
  then have q: "set (waiting ?s) = set (waiting s)" "length (waiting ?s) = length (waiting s)"
      "distinct (waiting ?s) = distinct (waiting s)"
    using mset_eq_setD mset_eq_length mset_eq_imp_distinct_iff by blast+
  then have "counters P 0 ?s" using assms(1) by (simp add: nb_inv_def counters_def)
  moreover have "conn_inv ?s d k = conn_inv s d k" for d k
    using q(1) assms(2) by (auto simp: conn_inv_def)
  ultimately show ?thesis using assms(1) by (simp add: nb_inv_def)
qed

lemma ends_in_outcome: "ends_in Q m s \<Longrightarrow> m s = (r, s') \<Longrightarrow> Q s' \<and> outcome r = []"
  by (auto simp: ends_in_def outcome_def)

lemma nb_step_ok:
  assumes "nb_step P s es s'" and "nb_inv P s" and "Stopped \<notin> set es"
  shows "nb_inv P s' \<and> es = []"
  using assms
proof (cases rule: nb_step.cases)
  case (clients fds r)
  with ends_in_outcome [OF handleEvent_ok [OF assms(2)]] show ?thesis by blast
next
  case (socket_ready c k r)
  with ends_in_outcome [OF workSocket_ok [OF assms(2)]] show ?thesis by blast
next
  case (task_taken c cs)
  with task_taken_ok [OF assms(2)] show ?thesis by simp
next
  case (task_runs cs c ds r)
  with ends_in_outcome [OF nb_task_run_ok [OF assms(2)]] show ?thesis by blast
next
  case (task_notified r)
  with ends_in_outcome [OF taskHandler_ok [OF assms(2)]] show ?thesis by blast
next
  case (task_expires cs c ds r)
  with ends_in_outcome [OF expireClose_ok [OF assms(2)]] show ?thesis by blast
qed simp

lemma new_server_inv: "nb_inv P (new_server e h)"
  by (simp add: nb_inv_def counters_def new_server_def waiting_def)

end

section \<open>A notification socket that can be full\<close>

text \<open>
  \<open>roomy P\<close> is \<open>P\<close> with a notification socket that is never full. A call does the same in both
  unless a notification finds the socket of \<open>P\<close> full, which \<^verbatim>\<open>forceClose\<close> and \<^verbatim>\<open>Task::run\<close> turn
  into an exception.
\<close>

definition roomy :: "('a, 'e, 'h) nb_env \<Rightarrow> ('a, 'e, 'h) nb_env" where
  "roomy P = P\<lparr>pipe_room := \<lambda>_. True\<rparr>"

lemma roomy_select [simp]:
  "e_sys (roomy P) = e_sys P" "process (roomy P) = process P" "threadPoolProcessing (roomy P) = threadPoolProcessing P"
  "connectionStackLimit (roomy P) = connectionStackLimit P" "maxActiveProcessors (roomy P) = maxActiveProcessors P"
  "maxConnections (roomy P) = maxConnections P" "within (roomy P) = within P" "overloadAction (roomy P) = overloadAction P"
  "writeBufferDefaultSize (roomy P) = writeBufferDefaultSize P" "idleReadBufferLimit (roomy P) = idleReadBufferLimit P"
  "idleWriteBufferLimit (roomy P) = idleWriteBufferLimit P" "resizeBufferEveryN (roomy P) = resizeBufferEveryN P"
  "pipe_room (roomy P) n"
  by (simp_all add: roomy_def)

lemma roomy_inv [simp]: "nb_inv (roomy P) = nb_inv P"
  by (rule ext) (simp add: nb_inv_def counters_def)

lemma roomy_conn [simp]: "checkIdleBufferMemLimit (roomy P) = checkIdleBufferMemLimit P"
    "raw_connection (roomy P) = raw_connection P" "conn_init (roomy P) = conn_init P"
    "task_body (roomy P) = task_body P" "serverOverloaded (roomy P) = serverOverloaded P"
    "close_client (roomy P) = close_client P"
  unfolding checkIdleBufferMemLimit_def raw_connection_def conn_init_def task_body_def serverOverloaded_def
    close_client_def roomy_select fun_eq_iff by (rule refl | intro allI)+

lemma roomy_transition [simp]: "returnConnection (roomy P) = returnConnection P" "conn_close (roomy P) = conn_close P"
    "createConnection (roomy P) = createConnection P" "transition (roomy P) = transition P"
  unfolding returnConnection_def conn_close_def createConnection_def transition_def transition_sent_def
    transition_request_def roomy_select roomy_conn fun_eq_iff by (rule refl | intro allI)+

lemma roomy_work [simp]: "workSocket (roomy P) = workSocket P" "taskHandler (roomy P) = taskHandler P"
  unfolding workSocket_def work_framing_def work_recv_def work_send_def taskHandler_def roomy_select
    roomy_transition fun_eq_iff by (rule refl | intro allI)+

definition same_or_full :: "('a, 'e, 'h) nb_env \<Rightarrow> ('e, 'h, 'r) srv \<Rightarrow> ('e, 'h, 'r) srv \<Rightarrow> bool" where
  "same_or_full P m m' \<longleftrightarrow> (\<forall>s. m s = m' s \<or> fst (m s) = Inl TException \<and> (\<exists>n. \<not> pipe_room P n))"

lemma same_refl [intro, simp]: "same_or_full P m m"
  by (simp add: same_or_full_def)

lemma same_bind:
  assumes "same_or_full P m m'" and "\<And>x. same_or_full P (f x) (f' x)"
  shows "same_or_full P (bindT m f) (bindT m' f')"
  unfolding same_or_full_def
proof (rule allI)
  fix s
  from assms(1) have "m s = m' s \<or> fst (m s) = Inl TException \<and> (\<exists>n. \<not> pipe_room P n)" by (simp add: same_or_full_def)
  then show "bindT m f s = bindT m' f' s \<or> fst (bindT m f s) = Inl TException \<and> (\<exists>n. \<not> pipe_room P n)"
  proof
    assume eq: "m s = m' s"
    obtain r s' where r: "m' s = (r, s')" by fastforce
    show ?thesis
    proof (cases r)
      case (Inr x)
      with assms(2) [of x] show ?thesis by (simp add: same_or_full_def bindT_def eq r)
    qed (simp add: bindT_def eq r)
  qed (auto simp: bindT_def split: prod.split sum.split)
qed

lemma same_if: "same_or_full P m m' \<Longrightarrow> same_or_full P n n' \<Longrightarrow> same_or_full P (if b then m else n) (if b then m' else n')"
  by simp

lemma same_notify:
  "same_or_full P (bindT (notifyServer P c) (\<lambda>told. if told then ret () else throw TException))
     (bindT (notifyServer (roomy P) c) (\<lambda>told. if told then ret () else throw TException))"
  by (auto simp: same_or_full_def bindT_def notifyServer_def ret_def throw_def)

lemma same_tasks:
  "same_or_full P (nb_task_run P c) (nb_task_run (roomy P) c)" "same_or_full P (expireClose P c) (expireClose (roomy P) c)"
  unfolding nb_task_run_def expireClose_def forceClose_def by (simp_all add: same_bind same_notify)

lemma same_drain: "same_or_full P (drainPendingTask P) (drainPendingTask (roomy P))"
proof -
  have "same_or_full P (bindT (expireClose P c) (\<lambda>_. ret True)) (bindT (expireClose (roomy P) c) (\<lambda>_. ret True))" for c
    by (rule same_bind [OF same_tasks(2)]) simp
  then show ?thesis
    unfolding same_or_full_def drainPendingTask_def by (auto split: list.split)
qed

lemma same_accept: "same_or_full P (accept_client P fd nonblock) (accept_client (roomy P) fd nonblock)"
proof -
  have "same_or_full P (shed_load P) (shed_load (roomy P))"
    unfolding shed_load_def by (simp add: same_bind same_drain)
  then show ?thesis unfolding accept_client_def by (simp add: same_bind)
qed

lemma same_handle: "same_or_full P (handleEvent P clients) (handleEvent (roomy P) clients)"
proof (induction clients)
  case (Cons x clients)
  then show ?case by (cases x) (simp add: same_bind same_accept)
qed simp

lemma same_or_full_cases:
  assumes "same_or_full P m m'" and "m s = (r, s')"
  shows "m' s = (r, s') \<or> outcome r = [Failed TException] \<and> (\<exists>n. \<not> pipe_room P n)"
  using assms unfolding same_or_full_def outcome_def by (metis fst_conv sum.simps(5))

lemma step_roomy:
  assumes "nb_step P s es s'"
  shows "nb_step (roomy P) s es s' \<or> es = [Failed TException] \<and> (\<exists>n. \<not> pipe_room P n)"
  using assms
proof (cases rule: nb_step.cases)
  case (clients fds r)
  with same_or_full_cases [OF same_handle clients(2)] show ?thesis by (auto intro: nb_step.clients)
next
  case (task_runs cs c ds r)
  with same_or_full_cases [OF same_tasks(1) task_runs(3)] show ?thesis by (auto intro: nb_step.task_runs)
next
  case (task_expires cs c ds r)
  with same_or_full_cases [OF same_tasks(2) task_expires(3)] show ?thesis by (auto intro: nb_step.task_expires)
qed (auto intro: nb_step.intros)

subsection \<open>Without a thread pool\<close>

definition no_tasks :: "('e, 'h) nb_server \<Rightarrow> bool" where
  "no_tasks s \<longleftrightarrow> tasks s = [] \<and> running s = [] \<and> notified s = []"

definition adds_none :: "('e, 'h, 'r) srv \<Rightarrow> bool" where
  "adds_none m \<longleftrightarrow> (\<forall>s. no_tasks s \<longrightarrow> no_tasks (snd (m s)))"

lemma adds_none_bind: "adds_none m \<Longrightarrow> (\<And>x. adds_none (f x)) \<Longrightarrow> adds_none (bindT m f)"
  by (fastforce simp: adds_none_def bindT_def split: prod.splits sum.splits)

lemma adds_none_tryT: "adds_none m \<Longrightarrow> (\<And>x. adds_none (f x)) \<Longrightarrow> adds_none h \<Longrightarrow> adds_none (tryT ok m f h)"
  by (fastforce simp: adds_none_def tryT_def split: prod.splits sum.splits)

lemma adds_none_if: "adds_none m \<Longrightarrow> adds_none n \<Longrightarrow> adds_none (if b then m else n)"
  by simp

lemma adds_none_option:
  "adds_none m \<Longrightarrow> (\<And>x. adds_none (f x)) \<Longrightarrow> adds_none (case r of None \<Rightarrow> m | Some x \<Rightarrow> f x)"
  by (cases r) simp_all

lemma adds_none_modify: "(\<And>s. tasks (g s) = tasks s \<and> running (g s) = running s \<and> notified (g s) = notified s) \<Longrightarrow>
    adds_none (modify g)"
  by (simp add: adds_none_def modify_def no_tasks_def)

lemma adds_none_basic:
  "adds_none (ret x)" "adds_none (throw e)" "adds_none (assertT b)" "adds_none (get_conn c)" "adds_none (upd_conn c g)"
  "adds_none (on_socket c ms)" "adds_none (on_input c mi)" "adds_none (on_output c mo)" "adds_none (on_transports c mt)"
  "adds_none (setFlags c fl)" "adds_none (checkIdleBufferMemLimit P c)" "adds_none (delete_conn c)"
  "adds_none decrementActiveProcessors" "adds_none incrementActiveProcessors" "adds_none (gets g')"
  "adds_none (serverOverloaded P)" "adds_none (close_client P fd)"
  by (auto simp: adds_none_def no_tasks_def ret_def throw_def assertT_def get_conn_def upd_conn_def on_socket_def
      on_input_def on_output_def on_transports_def setFlags_def checkIdleBufferMemLimit_def delete_conn_def modify_def
      decrementActiveProcessors_def incrementActiveProcessors_def gets_def serverOverloaded_def close_client_def Let_def
      split: option.splits prod.splits)

lemmas adds_none_rules = adds_none_bind adds_none_if adds_none_option adds_none_tryT adds_none_basic

lemma adds_none_close: "adds_none (conn_close P c)"
proof -
  have "adds_none (bindT (checkIdleBufferMemLimit P c) (\<lambda>_. modify (\<lambda>s. s\<lparr>connectionStack := c # connectionStack s\<rparr>)))"
    by (intro adds_none_rules adds_none_modify) simp
  moreover have "adds_none (delete_conn c)" by (rule adds_none_basic)
  ultimately have "adds_none (returnConnection P c)" unfolding returnConnection_def adds_none_def by auto
  then show ?thesis unfolding conn_close_def by (intro adds_none_rules)
qed

lemma adds_none_create: "adds_none (createConnection P fd fl)"
proof -
  have init: "adds_none (conn_init P c fd fl)" for c unfolding conn_init_def by (intro adds_none_rules)
  have new: "adds_none (bindT (modify (\<lambda>s. s\<lparr>conns := (conns s)(c \<mapsto> raw_connection P), nextConn := c + 1\<rparr>)) (\<lambda>_.
          bindT (conn_init P c fd fl) (\<lambda>_.
          bindT (modify (\<lambda>s. s\<lparr>numTConnections := numTConnections s + 1\<rparr>)) (\<lambda>_. ret c))))" for c
    by (intro adds_none_rules init adds_none_modify) simp_all
  have old: "adds_none (bindT (modify (\<lambda>s. s\<lparr>connectionStack := cs\<rparr>)) (\<lambda>_.
          bindT (conn_init P c fd fl) (\<lambda>_. ret c)))" for c cs
    by (intro adds_none_rules init adds_none_modify) simp
  show ?thesis
    using new old unfolding adds_none_def createConnection_def Let_def by (auto split: list.split)
qed

lemma adds_none_transition:
  assumes "\<not> threadPoolProcessing P"
  shows "adds_none (transition P c)"
proof -
  have init: "adds_none (transition_init c)" unfolding transition_init_def by (intro adds_none_rules)
  have result: "adds_none (transition_result c)" unfolding transition_result_def by (intro adds_none_rules init)
  have sent: "adds_none (transition_sent P c)" unfolding transition_sent_def by (intro adds_none_rules init)
  have request: "adds_none (transition_request P c)" unfolding transition_request_def if_not_P [OF assms]
    by (intro adds_none_rules result adds_none_close)
  have size: "adds_none (transition_size c)" unfolding transition_size_def Let_def by (intro adds_none_rules)
  have "adds_none (case a of APP_READ_REQUEST \<Rightarrow> transition_request P c | APP_WAIT_TASK \<Rightarrow> transition_result c
   | APP_SEND_RESULT \<Rightarrow> transition_sent P c | APP_INIT \<Rightarrow> transition_init c | APP_READ_FRAME_SIZE \<Rightarrow> transition_size c
   | APP_CLOSE_CONNECTION \<Rightarrow> bindT decrementActiveProcessors (\<lambda>_. conn_close P c))" for a
    using init result sent request size by (cases a) (simp_all add: adds_none_bind adds_none_basic adds_none_close)
  then show ?thesis unfolding transition_def by (intro adds_none_rules)
qed

lemma adds_none_work:
  assumes "\<not> threadPoolProcessing P"
  shows "adds_none (workSocket P c)"
proof -
  note rules = adds_none_rules adds_none_close adds_none_transition [OF assms]
  have "adds_none (work_framing P c)" "adds_none (work_recv P c)" "adds_none (work_send P c)"
    unfolding work_framing_def work_recv_def work_send_def Let_def by (intro rules)+
  then have "adds_none (case a of SOCKET_RECV_FRAMING \<Rightarrow> work_framing P c | SOCKET_RECV \<Rightarrow> work_recv P c
      | SOCKET_SEND \<Rightarrow> work_send P c)" for a by (cases a) simp_all
  then show ?thesis unfolding workSocket_def by (intro adds_none_rules)
qed

lemma direct_accept:
  assumes "\<not> threadPoolProcessing P"
  shows "handleEvent P clients = handleEvent (roomy P) clients" and "adds_none (handleEvent P clients)"
proof -
  have drain: "drainPendingTask (roomy P) = drainPendingTask P" "adds_none (drainPendingTask P)"
    using assms by (auto simp: drainPendingTask_def adds_none_def)
  have shed: "shed_load (roomy P) = shed_load P" unfolding shed_load_def roomy_select roomy_conn drain(1) ..
  have "adds_none (shed_load P)"
    unfolding shed_load_def by (intro adds_none_rules drain(2) adds_none_modify) simp
  then have accept: "adds_none (accept_client P fd nonblock)" for fd nonblock
    unfolding accept_client_def by (intro adds_none_rules adds_none_create adds_none_transition [OF assms])
  have same: "accept_client (roomy P) = accept_client P"
    unfolding accept_client_def shed roomy_conn roomy_transition ..
  show "handleEvent P clients = handleEvent (roomy P) clients" 
  proof (induction clients)
    case (Cons x clients)
    then show ?case by (cases x) (simp add: same cong: if_cong)
  qed simp
  show "adds_none (handleEvent P clients)"
  proof (induction clients)
    case (Cons x clients)
    then show ?case by (cases x) (auto intro!: adds_none_bind adds_none_if adds_none_basic accept)
  qed (simp add: adds_none_basic)
qed

lemma direct_step:
  assumes "nb_step P s es s'" and "\<not> threadPoolProcessing P" and "no_tasks s"
  shows "nb_step (roomy P) s es s' \<and> no_tasks s'"
  using assms(1)
proof (cases rule: nb_step.cases)
  case (clients fds r)
  have "no_tasks (snd (handleEvent P fds s))" using direct_accept(2) [OF assms(2)] assms(3) by (simp add: adds_none_def)
  moreover have "nb_step (roomy P) s (outcome r) s'"
    using clients(2) by (intro nb_step.clients [of _ fds]) (simp add: direct_accept(1) [OF assms(2), symmetric])
  ultimately show ?thesis using clients by simp
next
  case (socket_ready c k r)
  have "no_tasks (snd (workSocket P c s))" using adds_none_work [OF assms(2)] assms(3) by (simp add: adds_none_def)
  then show ?thesis using socket_ready by (auto intro: nb_step.socket_ready)
next
  case (task_notified r)
  then show ?thesis using assms(3) by (auto intro: nb_step.task_notified simp: taskHandler_def no_tasks_def)
next
  case manager_stops
  then show ?thesis using assms(3) by (auto intro: nb_step.manager_stops simp: no_tasks_def)
qed (use assms(3) in \<open>auto simp: no_tasks_def\<close>)

section \<open>A server over the model of the system\<close>

text \<open>
  A processor whose handler maps the bytes of a request to those of the reply, or throws: it reads
  its whole input transport and writes the reply to the output transport, within \<open>2 ^ 31\<close> bytes.
\<close>

definition reply_process :: "('h \<Rightarrow> bytes \<Rightarrow> bytes option \<times> 'h) \<Rightarrow> ((mem_buffer \<times> mem_buffer) \<times> 'h, bool) tio" where
  "reply_process f = (\<lambda>((i, b), h).
     case readAsString (available_read i) i of
       (Inl e, i') \<Rightarrow> (Inl e, ((i', b), h))
     | (Inr req, i') \<Rightarrow> (case f h req of
         (None, h') \<Rightarrow> (Inl TException, ((i', b), h'))
       | (Some reply, h') \<Rightarrow>
           if wBase b + length reply > 2 ^ 31 then (Inl TException, ((i', b), h'))
           else (case mem_write reply b of
             (Inl e, b') \<Rightarrow> (Inl e, ((i', b'), h'))
           | (Inr _, b') \<Rightarrow> (Inr True, ((i', b'), h')))))"

lemma reply_process_eq:
  assumes "mem_inv i" and "mem_unread b" and "owner b" and f: "f h (mem_pending i) = (r, h')"
  shows "\<exists>i' b'. mem_inv i' \<and> mem_pending i' = [] \<and> mem_unread b' \<and> owner b' \<and>
    reply_process f ((i, b), h) =
      (if r = None \<or> wBase b + length (the r) > 2 ^ 31 then Inl TException else Inr True, ((i', b'), h')) \<and>
    (\<forall>reply. r = Some reply \<longrightarrow> wBase b + length reply \<le> 2 ^ 31 \<longrightarrow> mem_written b' = mem_written b @ reply)"
proof -
  obtain i' where i: "readAsString (available_read i) i = (Inr (mem_pending i), i')" "mem_inv i'" "mem_pending i' = []"
    using mem_readAsString_eq [OF assms(1), of "available_read i"] assms(1) length_mem_pending [OF assms(1)] by auto
  show ?thesis
  proof (cases "r = None \<or> wBase b + length (the r) > 2 ^ 31")
    case True
    then show ?thesis using i f assms by - (rule exI [of _ i'], rule exI [of _ b], auto simp: reply_process_def split: option.split)
  next
    case False
    then obtain reply where r: "r = Some reply" "wBase b + length reply \<le> 2 ^ 31" by auto
    have inv: "mem_inv b" "rBase b = 0" using assms(2) by (simp_all add: mem_unread_def)
    have "mem_room b (length reply + 0)" using r assms(3) by (simp add: mem_room_def)
    from mem_write_ok [OF inv(1) this] obtain b' where b: "mem_write reply b = (Inr (), b')" "mem_inv b'"
      "mem_written b' = mem_written b @ reply" "rBase b' = rBase b" "owner b' = owner b" by blast
    then show ?thesis using i f r inv assms(3)
      by - (rule exI [of _ i'], rule exI [of _ b'], auto simp: reply_process_def mem_unread_def)
  qed
qed

text \<open>The room of the notification socket and the settings remain arbitrary.\<close>

definition kernel_env :: "('h \<Rightarrow> bytes \<Rightarrow> bytes option \<times> 'h) \<Rightarrow> (unit, kernel, 'h) nb_env \<Rightarrow> (unit, kernel, 'h) nb_env" where
  "kernel_env f P = P\<lparr>e_sys := kernel_sys, process := reply_process f\<rparr>"

lemma kernel_recv_bounded: "recv_bounded kernel_sys"
  by (auto simp: recv_bounded_def kernel_recv_def Let_def piece_def split: list.splits recv_event.splits)

lemma kernel_send_bounded: "send_bounded kernel_sys"
  by (auto simp: send_bounded_def kernel_send_def Let_def piece_def split: list.splits send_event.splits)

interpretation kernel_server: nb_surroundings "roomy (kernel_env f P)"
proof
  fix i b h r i' b' h'
  assume a: "mem_inv i" "mem_unread b" "owner b" "process (roomy (kernel_env f P)) ((i, b), h) = (r, ((i', b'), h'))"
  obtain x h1 where f: "f h (mem_pending i) = (x, h1)" by fastforce
  from reply_process_eq [OF a(1-3), of f h, OF f] a(4)
  show "mem_inv i' \<and> mem_unread b' \<and> owner b' \<and>
      (case r of
         Inl err \<Rightarrow> is_exception err \<and> err \<noteq> BadAlloc
       | Inr again \<Rightarrow> again \<longrightarrow> mem_pending i' \<noteq> [] \<longrightarrow> length (mem_pending i') < length (mem_pending i))"
    by (auto simp: roomy_def kernel_env_def is_exception_def split: if_splits)
qed (simp_all add: roomy_def kernel_env_def kernel_recv_bounded kernel_send_bounded)

lemma kernel_workSocket_ok:
  "nb_inv (kernel_env f P) s \<Longrightarrow> conns s c = Some k \<Longrightarrow> registered k \<Longrightarrow>
   ends_in (nb_inv (kernel_env f P)) (workSocket (kernel_env f P) c) s"
  using kernel_server.workSocket_ok by simp

text \<open>The first thing that can go wrong is a notification that finds the socket full.\<close>

interpretation nb_runs: step_invariant "nb_step (kernel_env f P)" "\<lambda>s. \<exists>e h. s = new_server e h"
  "\<lambda>es s. Stopped \<notin> set es \<longrightarrow> es = [] \<and> nb_inv (kernel_env f P) s \<or>
     es \<noteq> [] \<and> hd es = Failed TException \<and> (\<exists>n. \<not> pipe_room P n)"
proof
  fix es fs and s t :: "(kernel, 'a) nb_server"
  assume I: "Stopped \<notin> set es \<longrightarrow> es = [] \<and> nb_inv (kernel_env f P) s \<or>
      es \<noteq> [] \<and> hd es = Failed TException \<and> (\<exists>n. \<not> pipe_room P n)"
    and st: "nb_step (kernel_env f P) s fs t"
  show "Stopped \<notin> set (es @ fs) \<longrightarrow> es @ fs = [] \<and> nb_inv (kernel_env f P) t \<or>
      es @ fs \<noteq> [] \<and> hd (es @ fs) = Failed TException \<and> (\<exists>n. \<not> pipe_room P n)"
  proof (cases "es = [] \<and> nb_inv (kernel_env f P) s \<and> Stopped \<notin> set fs")
    case True
    from step_roomy [OF st] show ?thesis
    proof
      assume "nb_step (roomy (kernel_env f P)) s fs t"
      from kernel_server.nb_step_ok [OF this] True show ?thesis by simp
    qed (use True in \<open>auto simp: kernel_env_def\<close>)
  qed (use I in auto)
qed (use kernel_server.new_server_inv in auto)

text \<open>Without a thread pool nothing is ever notified, and the size of the socket does not matter.\<close>

interpretation direct_runs: step_invariant "nb_step (kernel_env f P)" "\<lambda>s. \<exists>e h. s = new_server e h"
  "\<lambda>es s. Stopped \<notin> set es \<longrightarrow> \<not> threadPoolProcessing P \<longrightarrow> nb_inv (kernel_env f P) s \<and> no_tasks s"
proof
  fix es fs and s t :: "(kernel, 'a) nb_server"
  assume I: "Stopped \<notin> set es \<longrightarrow> \<not> threadPoolProcessing P \<longrightarrow> nb_inv (kernel_env f P) s \<and> no_tasks s"
    and st: "nb_step (kernel_env f P) s fs t"
  have same: "threadPoolProcessing (kernel_env f P) = threadPoolProcessing P" by (simp add: kernel_env_def)
  show "Stopped \<notin> set (es @ fs) \<longrightarrow> \<not> threadPoolProcessing P \<longrightarrow> nb_inv (kernel_env f P) t \<and> no_tasks t"
    using I direct_step [OF st] kernel_server.nb_step_ok [of f P s fs t] same by auto
qed (use kernel_server.new_server_inv in \<open>auto simp: no_tasks_def new_server_def\<close>)

text \<open>
  C15: as long as the thread manager runs, whatever clients, sockets and threads do and in whatever
  order, the first thing that can go wrong is that the notification socket, which does not block,
  is full: then \<^verbatim>\<open>forceClose\<close> or \<^verbatim>\<open>Task::run\<close> throws. Until then no exception leaves a handler, no
  assertion fails, no deleted connection is used and no buffer is overrun, and the counters are
  exact: the active processors are the connections that wait for a task, each once, and no socket
  event of theirs is registered; idle connections are not waiting and the idle stack keeps to its
  limit. On a socket with room for all notifications this holds throughout.
\<close>

theorem nonblocking_server_safe:
  assumes "runs (nb_step (kernel_env f P)) (new_server e h) es s" and "Stopped \<notin> set es"
  shows "if es = [] then
    numActiveProcessors s = length (tasks s) + length (running s) + length (notified s) \<and>
    numTConnections s = card (dom (conns s)) \<and>
    distinct (tasks s @ running s @ notified s) \<and> distinct (connectionStack s) \<and>
    (connectionStackLimit P \<noteq> 0 \<longrightarrow> length (connectionStack s) \<le> connectionStackLimit P) \<and>
    (\<forall>c \<in> set (tasks s @ running s @ notified s). \<exists>k. conns s c = Some k \<and> \<not> registered k \<and> waits k) \<and>
    (\<forall>c \<in> set (connectionStack s). \<exists>k. conns s c = Some k \<and> \<not> registered k \<and>
       c \<notin> set (tasks s @ running s @ notified s))
    else hd es = Failed TException \<and> (\<exists>n. \<not> pipe_room P n)"
proof (cases "es = []")
  case False
  with nb_runs.holds [OF assms(1)] assms(2) show ?thesis by auto
next
  case True
  with nb_runs.holds [OF assms(1)] assms(2) have inv: "nb_inv (kernel_env f P) s" by auto
  have lim: "connectionStackLimit (kernel_env f P) = connectionStackLimit P" by (simp add: kernel_env_def)
  have ct: "counters (kernel_env f P) 0 s" and ci: "\<And>c k. conns s c = Some k \<Longrightarrow> conn_inv s c k"
    using inv by (simp_all add: nb_inv_def)
  have "\<exists>k. conns s c = Some k \<and> \<not> registered k \<and> waits k" if c: "c \<in> set (waiting s)" for c
  proof -
    obtain k where k: "conns s c = Some k" using ct c by (auto simp: counters_def)
    with ci [OF k] c have "phase_ok k" "waits k" by (auto simp: conn_inv_def split: if_splits)
    with k show ?thesis by (auto simp: waits_def phase_ok_def)
  qed
  moreover have "\<exists>k. conns s c = Some k \<and> \<not> registered k \<and> c \<notin> set (waiting s)" if c: "c \<in> set (connectionStack s)" for c
  proof -
    obtain k where k: "conns s c = Some k" using ct c by (auto simp: counters_def)
    with ci [OF k] c show ?thesis by (auto simp: conn_inv_def)
  qed
  ultimately show ?thesis using ct True lim by (simp add: counters_def waiting_def)
qed

text \<open>
  A notification that fails loses the connection: it keeps waiting, no event of its socket is
  registered, nothing refers to it any more, and it stays counted as an active processor.
\<close>

lemma full_pipe_loses_connection:
  assumes "nb_inv (kernel_env f P) s" and "tasks s = cs @ c # ds" and "\<not> pipe_room P (length (notified s))"
  shows "\<exists>k s'. expireClose (kernel_env f P) c (s\<lparr>tasks := cs @ ds\<rparr>) = (Inl TException, s') \<and> conns s' c = Some k \<and>
    \<not> registered k \<and> appState k = APP_CLOSE_CONNECTION \<and> c \<notin> set (tasks s' @ running s' @ notified s') \<and>
    numActiveProcessors s' = Suc (length (tasks s' @ running s' @ notified s'))"
proof -
  let ?s = "s\<lparr>tasks := cs @ ds\<rparr>"
  have inv: "nb_inv (roomy (kernel_env f P)) s" using assms(1) by simp
  obtain k where fr: "nb_frame (roomy (kernel_env f P)) c 1 ?s" and k: "conns ?s c = Some k" and ph: "phase_ok k"
      and wait: "c \<in> set (tasks s @ running s) \<Longrightarrow> appState k = APP_WAIT_TASK"
    by (rule kernel_server.leave_queue [OF inv, where s' = ?s and ts = "cs @ ds" and rs = "running s" and ns = "notified s" and c = c])
      (auto simp: waiting_def assms(2))
  have st: "appState k = APP_WAIT_TASK" using wait assms(2) by simp
  with ph have "\<not> registered k" by (simp add: phase_ok_def)
  moreover have "\<not> pipe_room (kernel_env f P) (length (notified s))" using assms(3) by (simp add: kernel_env_def)
  ultimately show ?thesis using fr k st
    by (simp add: expireClose_def forceClose_def notifyServer_def bindT_def get_conn_def upd_conn_def assertT_def
        ret_def throw_def nb_frame_def counters_def waiting_def)
qed

section \<open>A task that is refused\<close>

text \<open>
  C36: when the thread manager takes no more tasks, a complete request makes the server close the
  connection and then touch it again: the counter of active processors is never taken back, and if
  the idle stack is full the connection was deleted, so the access to it is undefined behaviour.
\<close>

theorem refused_task_leaks:
  assumes "conns s c = Some k" and "base_ok k" and "appState k = APP_READ_REQUEST" and "readBuffer k = Some b"
    and "readBufferPos k \<le> length b" and "threadPoolProcessing P" and "\<not> managerStarted s"
  shows "\<exists>r s'. transition P c s = (r, s') \<and> numActiveProcessors s' = numActiveProcessors s + 1 \<and>
    tasks s' = tasks s \<and> running s' = running s \<and> notified s' = notified s \<and>
    (if connectionStackLimit P \<noteq> 0 \<and> length (connectionStack s) \<ge> connectionStackLimit P
     then r = Inl UndefinedBehaviour \<and> conns s' c = None
     else r = Inr () \<and> connectionStack s' = c # connectionStack s)"
proof -
  from request_ready [OF assms(2,1,4,5), of P] obtain i ob where
    eq: "transition_request P c s = dispatch P c (s\<lparr>conns := (conns s)(c \<mapsto> k\<lparr>inputTransport := i, outputTransport := ob\<rparr>),
      numActiveProcessors := numActiveProcessors s + 1\<rparr>)" .
  obtain t e where cl: "sock_close (e_sys P) (tSocket k, os s) = (Inr (), (t, e))"
    by (simp add: sock_close_def)
  show ?thesis using assms eq cl
    by (simp add: transition_def dispatch_def conn_simps conn_close_def on_socket_def returnConnection_def
        delete_conn_def checkIdleBufferMemLimit_def upd_conn_def Let_def)
qed

section \<open>Witnesses\<close>

definition pool_env :: "(unit, kernel, nat) nb_env" where
  "pool_env = \<lparr>e_sys = kernel_sys, process = reply_process (\<lambda>h req. (Some req, h + 1)), threadPoolProcessing = True,
     connectionStackLimit = 1, maxActiveProcessors = 8, maxConnections = 8, within = (\<lambda>n m. 5 * n \<le> 4 * m),
     overloadAction = T_OVERLOAD_NO_ACTION, writeBufferDefaultSize = 16, idleReadBufferLimit = 64,
     idleWriteBufferLimit = 64, resizeBufferEveryN = 2, pipe_room = (\<lambda>_. True)\<rparr>"

definition echo_env :: "(unit, kernel, nat) nb_env" where
  "echo_env = kernel_env (\<lambda>h req. (Some req, h + 1)) pool_env"

definition one_client :: kernel where
  "one_client = (\<lambda>fd. \<lparr>incoming = [0, 0, 0, 2, 42, 43], sent = [], recv_plan = [], send_plan = []\<rparr>)"

lemma echo_env_simps: "e_sys echo_env = kernel_sys" "process echo_env = reply_process (\<lambda>h req. (Some req, h + 1))"
    "threadPoolProcessing echo_env" "overloadAction echo_env = T_OVERLOAD_NO_ACTION" "writeBufferDefaultSize echo_env = 16"
    "connectionStackLimit echo_env = 1"
  by (simp_all add: echo_env_def kernel_env_def pool_env_def)

lemmas nb_eval = echo_env_simps bindT_def ret_def modify_def gets_def Let_def on_socket_def on_input_def on_output_def
  on_transports_def upd_conn_def get_conn_def setFlags_def tryT_def throw_def assertT_def createConnection_def
  new_server_def conn_init_def setSocketFD_def raw_connection_def new_TSocket_def new_TSocket_at_def
  transition_def transition_init_def transition_size_def transition_request_def incrementActiveProcessors_def
  workSocket_def work_framing_def work_recv_def sock_read_def sock_read_try.simps kernel_recv_def one_client_def
  mem_resetBuffer_from_def new_TMemoryBuffer_from_def mem_resetBuffer_def new_TMemoryBuffer_sized_def initCommon_def
  ensureCanWrite_def getWritePtr_def wroteBytes_def available_write_def

definition client_1 :: connection where
  "client_1 = (raw_connection echo_env)\<lparr>tSocket := new_TSocket\<lparr>socket := 7\<rparr>, eventFlags := EV_READ, registered := True,
     appState := APP_READ_FRAME_SIZE\<rparr>"

definition client_2 :: connection where
  "client_2 = client_1\<lparr>readWant := 2, readBuffer := Some (resize 2 []), readBufferSize := 2,
     socketState := SOCKET_RECV, appState := APP_READ_REQUEST\<rparr>"

definition server_1 :: "(kernel, nat) nb_server" where
  "server_1 = (new_server one_client 0)\<lparr>conns := [0 \<mapsto> client_1], nextConn := 1, numTConnections := 1\<rparr>"

definition server_2 :: "(kernel, nat) nb_server" where
  "server_2 = server_1\<lparr>conns := [0 \<mapsto> client_2], os := one_client(7 := (one_client 7)\<lparr>incoming := [42, 43]\<rparr>)\<rparr>"

lemmas server_defs = server_1_def server_2_def client_1_def client_2_def

lemma client_connects: "handleEvent echo_env [(7, True)] (new_server one_client 0) = (Inr (), server_1)"
  by (simp add: nb_eval accept_client_def shed_load_def server_defs)

lemma size_arrives: "workSocket echo_env 0 server_1 = (Inr (), server_2)"
  by (simp add: nb_eval server_defs be_nat_def splice_def s32_def double_size.simps [of 2 "Suc 0"] double_size.simps [of 2 2])

lemma request_arrives: "\<exists>s. workSocket echo_env 0 server_2 = (Inr (), s) \<and> tasks s = [0]"
  by (simp add: nb_eval server_defs)

lemma runs_silent: "runs step s es t \<Longrightarrow> step t [] u \<Longrightarrow> runs step s es u"
  using runs_step [of step s es t "[]" u] by simp

theorem nonblocking_server_safe_witness:
  "\<exists>s. runs (nb_step echo_env) (new_server one_client 0) [] s \<and> tasks s = [0] \<and>
    numActiveProcessors s = length (tasks s) + length (running s) + length (notified s) \<and>
    numTConnections s = card (dom (conns s))"
proof -
  obtain s where s: "workSocket echo_env 0 server_2 = (Inr (), s)" "tasks s = [0]" using request_arrives by blast
  have "nb_step echo_env (new_server one_client 0) [] server_1"
    using nb_step.clients [OF client_connects] by (simp add: outcome_def)
  then have "runs (nb_step echo_env) (new_server one_client 0) [] server_1" by (rule runs_one)
  moreover have "nb_step echo_env server_1 [] server_2"
    using nb_step.socket_ready [OF _ _ size_arrives] by (simp add: outcome_def server_defs)
  moreover have "nb_step echo_env server_2 [] s"
    using nb_step.socket_ready [OF _ _ s(1)] by (simp add: outcome_def server_defs)
  ultimately have r: "runs (nb_step echo_env) (new_server one_client 0) [] s"
    by (blast intro: runs_silent)
  with s nonblocking_server_safe [OF r [unfolded echo_env_def]] show ?thesis by (auto simp del: One_nat_def)
qed

theorem refused_task_leaks_witness:
  "fst (transition echo_env 0 (server_2\<lparr>conns := [0 \<mapsto> client_2\<lparr>readBufferPos := 2\<rparr>], connectionStack := [5],
     managerStarted := False\<rparr>)) = Inl UndefinedBehaviour"
proof -
  let ?k = "client_2\<lparr>readBufferPos := 2\<rparr>"
  let ?s = "server_2\<lparr>conns := [0 \<mapsto> ?k], connectionStack := [5], managerStarted := False\<rparr>"
  have "base_ok (raw_connection echo_env)"
    using kernel_server.raw_connection_ok unfolding echo_env_def by simp
  then have "base_ok ?k" by (auto simp: base_ok_def buffer_ok_def client_1_def client_2_def intro: exI [of _ 1])
  from refused_task_leaks [of ?s 0 ?k, OF _ this, of "resize 2 []" echo_env] show ?thesis
    by (auto simp: server_defs echo_env_simps)
qed

end
