(* ===== verification/NonblockingService.thy ===== *)
theory NonblockingService
  imports NonblockingRuns
begin

text \<open>
  The nonblocking server as a service: without a thread pool, however the system splits what is
  read and written, every framed request of a client is answered in order by one framed reply.
\<close>

section \<open>The service that is promised\<close>

text \<open>
  The bytes that answer the requests \<open>reqs\<close> when the handler starts in \<open>h\<close>, and the state it
  ends in. An empty reply, that of a oneway call, is not sent.
\<close>

fun serve :: "('h \<Rightarrow> bytes \<Rightarrow> bytes option \<times> 'h) \<Rightarrow> 'h \<Rightarrow> bytes list \<Rightarrow> bytes \<times> 'h" where
  "serve f h [] = ([], h)"
| "serve f h (req # reqs) =
     (let reply = the (fst (f h req)); (out, h') = serve f (snd (f h req)) reqs in
      ((if reply = [] then [] else frame reply) @ out, h'))"

definition answers :: "('h \<Rightarrow> bytes \<Rightarrow> bytes option \<times> 'h) \<Rightarrow> bool" where
  "answers f \<longleftrightarrow> (\<forall>h req. \<exists>reply. fst (f h req) = Some reply \<and> 4 + length reply \<le> 2 ^ 31)"

section \<open>What is left to read and to write\<close>

definition unread :: "connection \<Rightarrow> endpoint \<Rightarrow> bytes" where
  "unread k ep = (case socketState k of
     SOCKET_RECV_FRAMING \<Rightarrow> take (readBufferPos k) (le_bytes 4 (readWant k)) @ incoming ep
   | SOCKET_RECV \<Rightarrow> be_bytes 4 (readWant k) @ take (readBufferPos k) (the (readBuffer k)) @ incoming ep
   | SOCKET_SEND \<Rightarrow> incoming ep)"

definition unsent :: "connection \<Rightarrow> bytes" where
  "unsent k = (case socketState k of
     SOCKET_SEND \<Rightarrow> slice (the (writeAt k) + writeBufferPos k) (writeBufferSize k - writeBufferPos k) (mem (outputTransport k))
   | _ \<Rightarrow> [])"

text \<open>A plan of sends in which a full buffer is the only error.\<close>

definition patient :: "send_event list \<Rightarrow> bool" where
  "patient p \<longleftrightarrow> (\<forall>ev \<in> set p. \<forall>err. ev = SendError err \<longrightarrow> err = EAGAIN)"

text \<open>
  \<open>talking f P c fd reqs out s\<close>: the connection \<open>c\<close> over the socket \<open>fd\<close> has still to answer
  \<open>reqs\<close>, and when it has done so it will have sent \<open>fst out\<close>, with the handler in \<open>snd out\<close>.
\<close>

definition on_fd :: "connection \<Rightarrow> int \<Rightarrow> endpoint \<Rightarrow> bytes list \<Rightarrow> bool" where
  "on_fd k fd ep reqs \<longleftrightarrow> registered k \<and> socket (tSocket k) = fd \<and> 0 \<le> fd \<and>
     survives (maxRecvRetries (tSocket k)) 0 (recv_plan ep) \<and> patient (send_plan ep) \<and>
     unread k ep = concat (map frame reqs)"

definition talking :: "('h \<Rightarrow> bytes \<Rightarrow> bytes option \<times> 'h) \<Rightarrow> (unit, kernel, 'h) nb_env \<Rightarrow> nat \<Rightarrow> int \<Rightarrow> bytes list \<Rightarrow>
    bytes \<times> 'h \<Rightarrow> (kernel, 'h) nb_server \<Rightarrow> bool" where
  "talking f P c fd reqs out s \<longleftrightarrow> nb_inv (kernel_env f P) s \<and> (\<forall>req \<in> set reqs. frame_ok req) \<and>
     (\<exists>k. conns s c = Some k \<and> on_fd k fd (os s fd) reqs \<and>
       out = (sent (os s fd) @ unsent k @ fst (serve f (handler s) reqs), snd (serve f (handler s) reqs)))"

definition left :: "int \<Rightarrow> bytes \<times> 'h \<Rightarrow> (kernel, 'h) nb_server \<Rightarrow> nat" where
  "left fd out s = length (incoming (os s fd)) + (length (fst out) - length (sent (os s fd))) + length (send_plan (os s fd))"

section \<open>Reads and writes\<close>

lemma kernel_env_simps:
  "e_sys (kernel_env f P) = kernel_sys" "process (kernel_env f P) = reply_process f"
  "threadPoolProcessing (kernel_env f P) = threadPoolProcessing P"
  by (simp_all add: kernel_env_def)

lemma kernel_recv_sends: "kernel_recv fd n k = (r, k') \<Longrightarrow> sent (k' fd) = sent (k fd) \<and> send_plan (k' fd) = send_plan (k fd)"
  by (auto simp: kernel_recv_def Let_def split: list.splits recv_event.splits)

lemma sock_read_try_sends:
  "sock_read_try kernel_sys th n retries (t, k) = (Inr bs, (t', k')) \<Longrightarrow>
   sent (k' (socket t)) = sent (k (socket t)) \<and> send_plan (k' (socket t)) = send_plan (k (socket t))"
proof (induction "nat (maxRecvRetries t - retries)" arbitrary: k retries rule: less_induct)
  case less
  obtain r k1 where r: "kernel_recv (socket t) n k = (r, k1)" by (metis prod.exhaust)
  note same = kernel_recv_sends [OF r]
  have again: "sock_read_try kernel_sys th n (retries + 1) (t, k1) = (Inr bs, (t', k')) \<Longrightarrow> retries < maxRecvRetries t \<Longrightarrow>
      sent (k' (socket t)) = sent (k (socket t)) \<and> send_plan (k' (socket t)) = send_plan (k (socket t))"
    using less.hyps [of "retries + 1" k1] same by simp
  from less.prems show ?case
    by (subst (asm) sock_read_try.simps)
      (use again same in \<open>auto simp: r sock_throw_def Let_def kernel_sys_def split: sum.splits if_splits\<close>)
qed

lemma sock_read_step:
  assumes "0 \<le> socket t" and "survives (maxRecvRetries t) 0 (recv_plan (k (socket t)))" and "incoming (k (socket t)) \<noteq> []" and "0 < n"
  obtains bs k' where "sock_read kernel_sys n (t, k) = (Inr bs, (t, k'))" and "bs \<noteq> []" and "length bs \<le> n"
    and "incoming (k (socket t)) = bs @ incoming (k' (socket t))"
    and "survives (maxRecvRetries t) 0 (recv_plan (k' (socket t)))"
    and "sent (k' (socket t)) = sent (k (socket t))" and "send_plan (k' (socket t)) = send_plan (k (socket t))"
proof -
  let ?th = "if recvTimeout t \<noteq> 0
              then nat ((recvTimeout t * 1000) div (if maxRecvRetries t > 0 then maxRecvRetries t else 2) mod 2 ^ 32)
              else 0"
  have eq: "sock_read kernel_sys n (t, k) = sock_read_try kernel_sys ?th n 0 (t, k)"
    using assms(1) by (simp add: sock_read_def Let_def)
  from read_try_stream [where t = t and k = k and retries = 0 and th = ?th and n = n, OF assms(2)] obtain bs k' where
    r: "sock_read_try kernel_sys ?th n 0 (t, k) = (Inr bs, (t, k'))" "survives (maxRecvRetries t) 0 (recv_plan (k' (socket t)))"
      "incoming (k (socket t)) = bs @ incoming (k' (socket t))" "length bs \<le> n" "bs \<noteq> []"
    using assms(3,4) by blast
  from that [of bs k'] eq r sock_read_try_sends [OF r(1)] show thesis by simp
qed

lemma sock_write_step:
  assumes "0 \<le> socket t" and "patient (send_plan (k (socket t)))" and "bs \<noteq> []"
  obtains n k' where "sock_write_partial kernel_sys bs (t, k) = (Inr n, (t, k'))" and "n \<le> length bs"
    and "sent (k' (socket t)) = sent (k (socket t)) @ take n bs" and "incoming (k' (socket t)) = incoming (k (socket t))"
    and "recv_plan (k' (socket t)) = recv_plan (k (socket t))" and "patient (send_plan (k' (socket t)))"
    and "0 < n \<or> length (send_plan (k' (socket t))) < length (send_plan (k (socket t)))"
    and "length (send_plan (k' (socket t))) \<le> length (send_plan (k (socket t)))"
proof (cases "send_plan (k (socket t))")
  case Nil
  with assms that [of "length bs" "k(socket t := (k (socket t))\<lparr>sent := sent (k (socket t)) @ bs\<rparr>)"] show thesis
    by (simp add: sock_write_partial_def kernel_send_def Let_def patient_def)
next
  case (Cons ev p)
  show thesis
  proof (cases ev)
    case (SendPiece m)
    have "0 < piece m (length bs)" "piece m (length bs) \<le> length bs" using assms(3) by (auto simp: piece_def)
    with SendPiece Cons assms that [of "piece m (length bs)" "k(socket t := (k (socket t))\<lparr>send_plan := p,
        sent := sent (k (socket t)) @ take (piece m (length bs)) bs\<rparr>)"] show thesis
      by (simp add: sock_write_partial_def kernel_send_def Let_def patient_def)
  next
    case (SendError err)
    with Cons assms that [of 0 "k(socket t := (k (socket t))\<lparr>send_plan := p\<rparr>)"] show thesis
      by (simp add: sock_write_partial_def kernel_send_def Let_def patient_def)
  qed
qed

section \<open>What the transitions leave\<close>

lemma transition_size_post:
  assumes "transition_size c s = (Inr (), s')" and "conns s c = Some k"
  shows "\<exists>k'. conns s' c = Some k' \<and> readWant k' = readWant k \<and> readBufferPos k' = 0 \<and> socketState k' = SOCKET_RECV \<and>
    tSocket k' = tSocket k \<and> registered k' = registered k \<and> os s' = os s \<and> handler s' = handler s"
  using assms by (auto simp: transition_size_def bindT_def get_conn_def upd_conn_def ret_def throw_def Let_def
      split: if_splits option.splits)

lemma transition_init_post:
  assumes "conns s c = Some k" and "registered k"
  shows "\<exists>k' s'. transition_init c s = (Inr (), s') \<and> conns s' c = Some k' \<and> readBufferPos k' = 0 \<and>
    socketState k' = SOCKET_RECV_FRAMING \<and> tSocket k' = tSocket k \<and> registered k' \<and> os s' = os s \<and> handler s' = handler s"
  using assms by (simp add: transition_init_def bindT_def upd_conn_def setFlags_def)

lemma transition_sent_post:
  assumes "transition_sent P c s = (Inr (), s')" and "conns s c = Some k" and "registered k"
  shows "\<exists>k'. conns s' c = Some k' \<and> readBufferPos k' = 0 \<and>
    socketState k' = SOCKET_RECV_FRAMING \<and> tSocket k' = tSocket k \<and> registered k' \<and> os s' = os s \<and> handler s' = handler s"
  using assms
  by (auto simp: transition_sent_def transition_init_def bindT_def upd_conn_def get_conn_def setFlags_def ret_def
      checkIdleBufferMemLimit_def Let_def split: if_splits)

lemma transition_result_post:
  assumes r: "transition_result c s = (Inr (), s')" and k: "conns s c = Some k" and reg: "registered k" "eventFlags k = EV_READ"
    and b: "mem_unread (outputTransport k)" "owner (outputTransport k)"
    and w: "mem_written (outputTransport k) = hd4 @ reply" "length hd4 = 4" 
  shows "\<exists>k'. conns s' c = Some k' \<and> tSocket k' = tSocket k \<and> registered k' \<and> os s' = os s \<and> handler s' = handler s \<and>
    unsent k' = (if reply = [] then [] else frame reply) \<and>
    (if reply = [] then socketState k' = SOCKET_RECV_FRAMING \<and> readBufferPos k' = 0 else socketState k' = SOCKET_SEND)"
proof -
  let ?b = "outputTransport k"
  have inv: "mem_inv ?b" "rBase ?b = 0" using b by (simp_all add: mem_unread_def)
  have "length (mem_written ?b) = wBase ?b" using mem_inv_D [OF inv(1)] by (simp add: mem_written_def)
  with w have wb: "wBase ?b = 4 + length reply" by simp
  show ?thesis
  proof (cases "reply = []")
    case True
    with r k reg wb inv show ?thesis
      by (auto simp: transition_result_def decrementActiveProcessors_def transition_init_def bindT_def modify_def upd_conn_def
          get_conn_def setFlags_def unsent_def split: if_splits)
  next
    case False
    let ?h = "be_bytes 4 (length reply)"
    have four: "4 \<le> wBase ?b" "wBase ?b - 4 = length reply" "4 < wBase ?b" using wb False by simp_all
    note h = kernel_server.header_ok [OF b four(1), of ?h, unfolded inv(2), simplified]
    have m: "mem (mem_upd (splice 0 ?h) ?b) = ?h @ drop 4 (mem ?b)"
      using four mem_inv_D [OF inv(1)] by (subst mem_splice) (simp_all add: splice_def)
    have "slice 0 (wBase ?b) (?h @ drop 4 (mem ?b)) = ?h @ drop 4 (mem_written ?b)"
      using four by (simp add: slice_def mem_written_def drop_take)
    then have fr: "slice 0 (wBase ?b) (?h @ drop 4 (mem ?b)) = frame reply" using w by (simp add: frame_def)
    with False r k reg inv h(1) m four wb show ?thesis
      by (auto simp: transition_result_def decrementActiveProcessors_def bindT_def modify_def upd_conn_def
          get_conn_def setFlags_def on_output_def unsent_def split: if_splits)
  qed
qed

section \<open>One event of the socket\<close>

lemma frame_stream_size:
  assumes "length h = 4" and "h @ xs = concat (map frame reqs)" and "\<forall>req \<in> set reqs. frame_ok req"
  obtains req rest where "reqs = req # rest" and "h = be_bytes 4 (length req)" and "xs = req @ concat (map frame rest)"
    and "be_nat h = length req" and "0 < length req" and "length req < 2 ^ 31"
proof (cases reqs)
  case Nil
  with assms show thesis by auto
next
  case (Cons req rest)
  with assms(2) have "h @ xs = be_bytes 4 (length req) @ req @ concat (map frame rest)" by (simp add: frame_def)
  with assms(1) have "h = be_bytes 4 (length req)" "xs = req @ concat (map frame rest)" by simp_all
  with that Cons assms(3) show thesis by (simp add: frame_ok_def)
qed

lemma framing_step:
  assumes inv: "nb_inv (kernel_env f P) s" and fok: "\<forall>req \<in> set reqs. frame_ok req" and k: "conns s c = Some k"
    and fd: "on_fd k fd (os s fd) reqs" and st: "socketState k = SOCKET_RECV_FRAMING" and more: "incoming (os s fd) \<noteq> []"
    and w: "workSocket (kernel_env f P) c s = (Inr (), s')"
  shows "\<exists>k'. conns s' c = Some k' \<and> on_fd k' fd (os s' fd) reqs \<and> handler s' = handler s \<and> unsent k' = [] \<and>
    sent (os s' fd) = sent (os s fd) \<and> send_plan (os s' fd) = send_plan (os s fd) \<and>
    length (incoming (os s' fd)) < length (incoming (os s fd))"
proof -
  let ?pos = "readBufferPos k" and ?P = "kernel_env f P"
  from fd have reg: "registered k" and sock: "socket (tSocket k) = fd" "0 \<le> fd" by (simp_all add: on_fd_def)
  note fr = nb_inv_frame [OF inv k reg]
  then have ph: "appState k = APP_READ_FRAME_SIZE" "?pos < 4" "eventFlags k = EV_READ"
    using st by (auto simp: phase_ok_def waits_def reg split: app_state.splits)
  obtain bs e where rd: "sock_read kernel_sys (4 - ?pos) (tSocket k, os s) = (Inr bs, (tSocket k, e))" "bs \<noteq> []" "length bs \<le> 4 - ?pos"
      "incoming (os s fd) = bs @ incoming (e fd)" "survives (maxRecvRetries (tSocket k)) 0 (recv_plan (e fd))"
      "sent (e fd) = sent (os s fd)" "send_plan (e fd) = send_plan (os s fd)"
    using sock_read_step [of "tSocket k" "os s" "4 - ?pos"] sock fd ph more by (auto simp: on_fd_def)
  define buf where "buf = splice ?pos bs (le_bytes 4 (readWant k))"
  have lb: "length buf = 4" using rd ph by (simp add: buf_def)
  have tb: "take (?pos + length bs) buf = take ?pos (le_bytes 4 (readWant k)) @ bs"
    using rd ph by (simp add: buf_def slice_simps)
  have un: "take (?pos + length bs) buf @ incoming (e fd) = concat (map frame reqs)"
    using fd rd(4) st by (simp add: tb on_fd_def unread_def)
  let ?s = "s\<lparr>conns := (conns s)(c \<mapsto> k), os := e\<rparr>"
  have sk: "k\<lparr>tSocket := tSocket k\<rparr> = k" by simp
  have read: "on_socket c (sock_read kernel_sys (4 - ?pos)) s = (Inr bs, ?s)"
    using k rd(1) sk by (simp add: on_socket_def)
  have "\<not> ?pos + length bs > 4" using rd ph by simp
  with w st k rd(2) read have w': "(if ?pos + length bs < 4 then upd_conn c (\<lambda>k. k\<lparr>readBufferPos := ?pos + length bs, readWant := le_nat buf\<rparr>)
         else
           bindT (upd_conn c (\<lambda>k. k\<lparr>readBufferPos := ?pos + length bs, readWant := be_nat buf\<rparr>)) (\<lambda>_.
           if s32 (be_nat buf) \<le> 0 then conn_close ?P c else transition ?P c)) ?s = (Inr (), s')"
    unfolding buf_def by (simp add: workSocket_def work_framing_def bindT_ok [where m = "get_conn c", OF get_conn_eq [OF k]] tryT_def Let_def
        kernel_env_simps split del: if_split)
  show ?thesis
  proof (cases "?pos + length bs < 4")
    case True
    have "le_bytes 4 (le_nat buf) = buf" using lb le_bytes_le_nat [of buf] by simp
    with True w' un fd rd reg sock st more show ?thesis
      by (auto simp: upd_conn_def on_fd_def unread_def unsent_def)
  next
    case False
    then have four: "?pos + length bs = 4" using rd ph by simp
    with un lb have "buf @ incoming (e fd) = concat (map frame reqs)" by simp
    from frame_stream_size [OF lb this fok] obtain req rest where
      rq: "reqs = req # rest" "buf = be_bytes 4 (length req)" "incoming (e fd) = req @ concat (map frame rest)"
        "be_nat buf = length req" "0 < length req" "length req < 2 ^ 31" .
    let ?k = "k\<lparr>readBufferPos := 4, readWant := length req\<rparr>"
    let ?s' = "?s\<lparr>conns := (conns ?s)(c \<mapsto> ?k)\<rparr>"
    have "transition ?P c ?s' = (Inr (), s')"
      using w' four rq(4-6) by (simp add: bindT_def upd_conn_def s32_def split: if_splits)
    then have "transition_size c ?s' = (Inr (), s')"
      by (simp add: transition_def bindT_def get_conn_def ph)
    from transition_size_post [OF this] obtain k' where k': "conns s' c = Some k'" "readWant k' = length req" "readBufferPos k' = 0"
        "socketState k' = SOCKET_RECV" "tSocket k' = tSocket k" "registered k' = registered k" "os s' = e" "handler s' = handler s"
      by auto
    with rq rd fd show ?thesis by (auto simp: on_fd_def unread_def unsent_def frame_def)
  qed
qed

text \<open>\<open>moves\<close>: the request, if one is complete, has become a reply, and nothing else has changed.\<close>

definition moves :: "('h \<Rightarrow> bytes \<Rightarrow> bytes option \<times> 'h) \<Rightarrow> nat \<Rightarrow> int \<Rightarrow> bytes list \<Rightarrow> bytes \<Rightarrow>
    (kernel, 'h) nb_server \<Rightarrow> (kernel, 'h) nb_server \<Rightarrow> bool" where
  "moves f c fd reqs old s s' \<longleftrightarrow> (\<exists>k' reqs'. conns s' c = Some k' \<and> on_fd k' fd (os s' fd) reqs' \<and> set reqs' \<subseteq> set reqs \<and>
     (sent (os s' fd) @ unsent k' @ fst (serve f (handler s') reqs'), snd (serve f (handler s') reqs')) =
     (sent (os s fd) @ old @ fst (serve f (handler s) reqs), snd (serve f (handler s) reqs)))"

lemma answer_step:
  assumes base: "base_ok k" and k: "conns s c = Some k" and b: "readBuffer k = Some b" "readBufferPos k \<le> length b"
    and req: "take (readBufferPos k) b = req" and f: "answers f" and P: "\<not> threadPoolProcessing P"
    and reg: "registered k" "eventFlags k = EV_READ" and t: "transition_request (kernel_env f P) c s = (Inr (), s')"
  shows "\<exists>k'. conns s' c = Some k' \<and> tSocket k' = tSocket k \<and> registered k' \<and> os s' = os s \<and>
    handler s' = snd (f (handler s) req) \<and>
    unsent k' = (let reply = the (fst (f (handler s) req)) in if reply = [] then [] else frame reply) \<and>
    (socketState k' = SOCKET_RECV_FRAMING \<and> readBufferPos k' = 0 \<or> socketState k' = SOCKET_SEND)"
proof -
  let ?P = "kernel_env f P"
  obtain reply h' where r: "f (handler s) req = (Some reply, h')" "4 + length reply \<le> 2 ^ 31"
    using f unfolding answers_def by (metis prod.collapse)
  from request_ready [OF base k b, of ?P] obtain i ob where
    i: "mem_inv i" "mem_pending i = take (readBufferPos k) b" "mem_unread ob" "owner ob" "wBase ob = 4" and
    eq: "transition_request ?P c s = dispatch ?P c (s\<lparr>conns := (conns s)(c \<mapsto> k\<lparr>inputTransport := i, outputTransport := ob\<rparr>),
      numActiveProcessors := numActiveProcessors s + 1\<rparr>)" .
  let ?s = "s\<lparr>conns := (conns s)(c \<mapsto> k\<lparr>inputTransport := i, outputTransport := ob\<rparr>),
      numActiveProcessors := numActiveProcessors s + 1\<rparr>"
  from reply_process_eq [OF i(1,3,4), of f "handler s" "Some reply" h'] i(2,5) req r obtain i' b' where
    pr: "reply_process f ((i, ob), handler s) = (Inr True, ((i', b'), h'))" "mem_unread b'" "owner b'"
      "mem_written b' = mem_written ob @ reply" by auto
  have four: "length (mem_written ob) = 4"
    using i(3,5) mem_inv_D [of ob] by (simp add: mem_unread_def mem_written_def)
  let ?k = "k\<lparr>inputTransport := i', outputTransport := b'\<rparr>"
  let ?s' = "?s\<lparr>conns := (conns ?s)(c \<mapsto> ?k), handler := h'\<rparr>"
  have "transition_result c ?s' = (Inr (), s')"
    using t P pr(1) by (simp add: eq dispatch_def kernel_env_simps tryT_def on_transports_def)
  from transition_result_post [OF this, of ?k "mem_written ob" reply] pr four reg r show ?thesis
    by (auto simp: Let_def)
qed

lemma recv_step:
  assumes inv: "nb_inv (kernel_env f P) s" and fok: "\<forall>req \<in> set reqs. frame_ok req" and k: "conns s c = Some k"
    and fd: "on_fd k fd (os s fd) reqs" and st: "socketState k = SOCKET_RECV"
    and w: "workSocket (kernel_env f P) c s = (Inr (), s')" and f: "answers f" and P: "\<not> threadPoolProcessing P"
  shows "moves f c fd reqs (unsent k) s s' \<and> sent (os s' fd) = sent (os s fd) \<and> send_plan (os s' fd) = send_plan (os s fd) \<and>
    length (incoming (os s' fd)) < length (incoming (os s fd))"
proof -
  let ?pos = "readBufferPos k" and ?P = "kernel_env f P" and ?want = "readWant k"
  from fd have reg: "registered k" and sock: "socket (tSocket k) = fd" "0 \<le> fd" by (simp_all add: on_fd_def)
  note fr = nb_inv_frame [OF inv k reg]
  then have ph: "appState k = APP_READ_REQUEST" "?pos < ?want" "?want \<le> readBufferSize k" "eventFlags k = EV_READ"
    using st by (auto simp: phase_ok_def waits_def reg split: app_state.splits)
  obtain b where b: "readBuffer k = Some b" "length b = readBufferSize k"
    using fr(4) ph by (auto simp: base_ok_def buffer_ok_def)
  have un: "be_bytes 4 ?want @ take ?pos b @ incoming (os s fd) = concat (map frame reqs)"
    using fd st b by (simp add: on_fd_def unread_def)
  obtain j :: nat where "j \<le> 31" "readBufferSize k = 2 ^ j" using fr(4) b ph by (auto simp: base_ok_def buffer_ok_def)
  then have "readBufferSize k \<le> 2 ^ 31" by (simp only: power_increasing)
  then have small: "?want mod 2 ^ 32 = ?want" using ph by simp
  from frame_stream_size [OF _ un fok] obtain req rest where
    rq: "reqs = req # rest" "take ?pos b @ incoming (os s fd) = req @ concat (map frame rest)"
      "be_nat (be_bytes 4 ?want) = length req" by (metis length_be_bytes)
  with small have len: "length req = ?want" by simp
  have "incoming (os s fd) \<noteq> []"
  proof
    assume "incoming (os s fd) = []"
    with rq(2) have "length (take ?pos b) = length req + length (concat (map frame rest))" by (metis append_Nil2 length_append)
    with len ph b show False by simp
  qed
  then obtain bs e where rd: "sock_read kernel_sys (?want - ?pos) (tSocket k, os s) = (Inr bs, (tSocket k, e))" "bs \<noteq> []"
      "length bs \<le> ?want - ?pos"
      "incoming (os s fd) = bs @ incoming (e fd)" "survives (maxRecvRetries (tSocket k)) 0 (recv_plan (e fd))"
      "sent (e fd) = sent (os s fd)" "send_plan (e fd) = send_plan (os s fd)"
    using sock_read_step [of "tSocket k" "os s" "?want - ?pos"] sock fd ph by (auto simp: on_fd_def)
  let ?b = "splice ?pos bs b" and ?pos' = "?pos + length bs"
  let ?k = "k\<lparr>readBuffer := Some ?b, readBufferPos := ?pos'\<rparr>"
  let ?s = "s\<lparr>os := e, conns := (conns s)(c \<mapsto> ?k)\<rparr>"
  have fits: "?pos' \<le> ?want" "?pos' \<le> length b" using rd ph b by auto
  have un': "take ?pos' ?b @ incoming (e fd) = req @ concat (map frame rest)"
    using rq(2) rd(4) fits by (simp add: slice_simps)
  have read: "on_socket c (sock_read kernel_sys (?want - ?pos)) s = (Inr bs, s\<lparr>conns := (conns s)(c \<mapsto> k), os := e\<rparr>)"
    using k rd(1) by (simp add: on_socket_def)
  have "work_recv ?P c s = (if ?pos' = ?want then transition ?P c else ret ()) ?s"
    using ph rd(2) fits
    by (simp add: work_recv_def bindT_ok [where m = "get_conn c", OF get_conn_eq [OF k]] b(1) tryT_def Let_def read
        kernel_env_simps bindT_def [of "upd_conn c _"] upd_conn_def)
  then have w': "(if ?pos' = ?want then transition ?P c else ret ()) ?s = (Inr (), s')"
    using w st k by (simp add: workSocket_def bindT_def get_conn_def)
  have progress: "length (incoming (e fd)) < length (incoming (os s fd))" using rd by simp
  show ?thesis
  proof (cases "?pos' = ?want")
    case False
    with w' have s': "s' = ?s" by (simp add: ret_def)
    have "on_fd ?k fd (e fd) reqs"
      using fd rd sock st un' len rq by (simp add: on_fd_def unread_def frame_def)
    then have "moves f c fd reqs (unsent k) s s'"
      unfolding moves_def s' by (intro exI [of _ ?k] exI [of _ reqs]) (simp add: unsent_def st rd)
    with progress show ?thesis by (simp add: s' rd)
  next
    case True
    with w' have "transition ?P c ?s = (Inr (), s')" by simp
    then have tr: "transition_request ?P c ?s = (Inr (), s')" by (simp add: transition_def bindT_def get_conn_def ph)
    have base: "base_ok ?k" using fr(4) b fits by (auto simp: base_ok_def buffer_ok_def)
    have len': "length (take ?pos' ?b) = length req" using True len fits by simp
    with un' have "take ?pos' ?b = req" "incoming (e fd) = concat (map frame rest)" by simp_all
    with answer_step [OF base, of ?s c ?b req f P s'] fits f P ph reg tr obtain k' where
      k': "conns s' c = Some k'" "tSocket k' = tSocket k" "registered k'" "os s' = e" "handler s' = snd (f (handler s) req)"
        "unsent k' = (let reply = the (fst (f (handler s) req)) in if reply = [] then [] else frame reply)"
        "socketState k' = SOCKET_RECV_FRAMING \<and> readBufferPos k' = 0 \<or> socketState k' = SOCKET_SEND" by auto
    have "on_fd k' fd (e fd) rest"
      using fd rd sock k' \<open>incoming (e fd) = concat (map frame rest)\<close> by (auto simp: on_fd_def unread_def)
    moreover have "unsent k = []" by (simp add: unsent_def st)
    ultimately have "moves f c fd reqs (unsent k) s s'"
      unfolding moves_def using k' rq rd by (intro exI [of _ k'] exI [of _ rest]) (auto simp: Let_def split: prod.split)
    with progress show ?thesis by (simp add: k' rd)
  qed
qed

lemma send_step:
  assumes inv: "nb_inv (kernel_env f P) s" and k: "conns s c = Some k"
    and fd: "on_fd k fd (os s fd) reqs" and st: "socketState k = SOCKET_SEND"
    and w: "workSocket (kernel_env f P) c s = (Inr (), s')"
  shows "moves f c fd reqs (unsent k) s s' \<and> incoming (os s' fd) = incoming (os s fd) \<and>
    length (sent (os s' fd)) \<le> length (sent (os s fd)) + length (unsent k) \<and>
    (length (sent (os s fd)) < length (sent (os s' fd)) \<and> length (send_plan (os s' fd)) \<le> length (send_plan (os s fd)) \<or>
     length (sent (os s fd)) \<le> length (sent (os s' fd)) \<and> length (send_plan (os s' fd)) < length (send_plan (os s fd)))"
proof -
  let ?pos = "writeBufferPos k" and ?sz = "writeBufferSize k" and ?P = "kernel_env f P"
  from fd have reg: "registered k" and sock: "socket (tSocket k) = fd" "0 \<le> fd" by (simp_all add: on_fd_def)
  note fr = nb_inv_frame [OF inv k reg]
  then have ph: "appState k = APP_SEND_RESULT" "?pos < ?sz" "eventFlags k = EV_WRITE"
    using st by (auto simp: phase_ok_def waits_def reg split: app_state.splits)
  obtain at where at: "writeAt k = Some at" "at + ?sz \<le> length (mem (outputTransport k))"
    using fr(2) ph by (auto simp: phase_ok_def)
  let ?bs = "slice (at + ?pos) (?sz - ?pos) (mem (outputTransport k))"
  have us: "unsent k = ?bs" by (simp add: unsent_def st at)
  have lb: "length ?bs = ?sz - ?pos" using at ph by simp
  then have "?bs \<noteq> []" using ph by force
  then obtain n e where wr: "sock_write_partial kernel_sys ?bs (tSocket k, os s) = (Inr n, (tSocket k, e))" "n \<le> length ?bs"
      "sent (e fd) = sent (os s fd) @ take n ?bs" "incoming (e fd) = incoming (os s fd)"
      "recv_plan (e fd) = recv_plan (os s fd)" "patient (send_plan (e fd))"
      "0 < n \<or> length (send_plan (e fd)) < length (send_plan (os s fd))"
      "length (send_plan (e fd)) \<le> length (send_plan (os s fd))"
    using sock_write_step [of "tSocket k" "os s" ?bs] sock fd by (auto simp: on_fd_def)
  let ?k = "k\<lparr>writeBufferPos := ?pos + n\<rparr>"
  let ?s = "s\<lparr>os := e, conns := (conns s)(c \<mapsto> ?k)\<rparr>"
  have out_eq: "on_output c (load mem (at + ?pos) (?sz - ?pos)) s = (Inr ?bs, s)"
    using at ph k by (simp add: on_output_def load_def fun_upd_idem)
  have wro: "on_socket c (sock_write_partial kernel_sys ?bs) s = (Inr n, s\<lparr>conns := (conns s)(c \<mapsto> k), os := e\<rparr>)"
    using k wr(1) by (simp add: on_socket_def)
  have fits: "?pos + n \<le> ?sz" using wr(2) lb ph by simp
  have "work_send ?P c s = (if ?pos + n = ?sz then transition ?P c else ret ()) ?s"
    using ph fits
    by (simp add: work_send_def bindT_ok [where m = "get_conn c", OF get_conn_eq [OF k]] at(1) Let_def
        bindT_ok [where m = "on_output c _", OF out_eq] tryT_def wro kernel_env_simps bindT_def [of "upd_conn c _"] upd_conn_def)
  then have w': "(if ?pos + n = ?sz then transition ?P c else ret ()) ?s = (Inr (), s')"
    using w st k by (simp add: workSocket_def bindT_def get_conn_def)
  have "\<exists>k'. conns s' c = Some k' \<and> tSocket k' = tSocket k \<and> registered k' \<and> os s' = e \<and> handler s' = handler s \<and>
    unsent k' = drop n ?bs \<and> (socketState k' = SOCKET_RECV_FRAMING \<and> readBufferPos k' = 0 \<or> socketState k' = SOCKET_SEND)"
  proof (cases "?pos + n = ?sz")
    case False
    with w' have s': "s' = ?s" by (simp add: ret_def)
    have "slice (at + (?pos + n)) (?sz - (?pos + n)) (mem (outputTransport k)) = drop n ?bs"
      by (simp add: slice_def drop_take ac_simps)
    then show ?thesis using reg st at by (simp add: s' unsent_def)
  next
    case True
    with w' have "transition_sent ?P c ?s = (Inr (), s')" by (simp add: transition_def bindT_def get_conn_def ph)
    from transition_sent_post [OF this, of ?k] reg True lb show ?thesis by (auto simp: unsent_def)
  qed
  then obtain k' where k': "conns s' c = Some k'" "tSocket k' = tSocket k" "registered k'" "os s' = e" "handler s' = handler s"
    "unsent k' = drop n ?bs" "socketState k' = SOCKET_RECV_FRAMING \<and> readBufferPos k' = 0 \<or> socketState k' = SOCKET_SEND" by blast
  have halves: "take n ?bs @ drop n ?bs @ xs = ?bs @ xs" for xs by (simp flip: append_assoc)
  have "unread k (os s fd) = incoming (os s fd)" by (simp add: unread_def st)
  with fd wr sock k' have "on_fd k' fd (e fd) reqs" by (auto simp: on_fd_def unread_def)
  then have "moves f c fd reqs (unsent k) s s'"
    unfolding moves_def using k' wr(3) us halves by (intro exI [of _ k'] exI [of _ reqs]) simp
  with wr us k' lb show ?thesis by (auto simp: min_def)
qed

section \<open>All requests are answered\<close>

lemma concat_frames_short: "length (concat (map frame reqs)) < 4 \<Longrightarrow> reqs = []"
  by (cases reqs) (simp_all add: frame_def)

lemma talking_end:
  assumes t: "talking f P c fd reqs out s" and k: "conns s c = Some k"
    and "socketState k = SOCKET_RECV_FRAMING" and "incoming (os s fd) = []"
  shows "reqs = []" and "out = (sent (os s fd), handler s)"
proof -
  from t k have fd: "on_fd k fd (os s fd) reqs" and inv: "nb_inv (kernel_env f P) s" by (auto simp: talking_def)
  with nb_inv_frame [OF inv k] have "phase_ok k" by (simp add: on_fd_def)
  with assms(3) have "readBufferPos k < 4"
    using nb_inv_frame [OF inv k] fd by (auto simp: phase_ok_def waits_def on_fd_def split: app_state.splits)
  with fd assms(3,4) have "length (concat (map frame reqs)) < 4"
    by (auto simp: on_fd_def unread_def dest!: arg_cong [where f = length])
  then show "reqs = []" by (rule concat_frames_short)
  with t k assms(3) show "out = (sent (os s fd), handler s)" by (simp add: talking_def unsent_def)
qed

lemma talking_step:
  assumes t: "talking f P c fd reqs out s" and f: "answers f" and P: "\<not> threadPoolProcessing P"
    and k: "conns s c = Some k" and busy: "\<not> (socketState k = SOCKET_RECV_FRAMING \<and> incoming (os s fd) = [])"
  shows "\<exists>s' reqs'. workSocket (kernel_env f P) c s = (Inr (), s') \<and> talking f P c fd reqs' out s' \<and> left fd out s' < left fd out s"
proof -
  from t k have inv: "nb_inv (kernel_env f P) s" and fok: "\<forall>req \<in> set reqs. frame_ok req" and fd: "on_fd k fd (os s fd) reqs"
    and out: "out = (sent (os s fd) @ unsent k @ fst (serve f (handler s) reqs), snd (serve f (handler s) reqs))"
    by (auto simp: talking_def)
  have "registered k" using fd by (simp add: on_fd_def)
  from kernel_workSocket_ok [OF inv k this] obtain s' where
    w: "workSocket (kernel_env f P) c s = (Inr (), s')" and inv': "nb_inv (kernel_env f P) s'" by (auto simp: ends_in_def)
  have goal: ?thesis if m: "moves f c fd reqs (unsent k) s s'" and d: "length (sent (os s' fd)) \<le> length (fst out) \<Longrightarrow> left fd out s' < left fd out s"
  proof -
    from m obtain k' reqs' where k': "conns s' c = Some k'" "on_fd k' fd (os s' fd) reqs'" "set reqs' \<subseteq> set reqs"
        "out = (sent (os s' fd) @ unsent k' @ fst (serve f (handler s') reqs'), snd (serve f (handler s') reqs'))"
      unfolding moves_def out by metis
    with inv' fok have "talking f P c fd reqs' out s'" by (auto simp: talking_def)
    moreover have "left fd out s' < left fd out s" by (rule d) (simp add: k'(4))
    ultimately show ?thesis using w by blast
  qed
  show ?thesis
  proof (cases "socketState k")
    case SOCKET_RECV_FRAMING
    with framing_step [OF inv fok k fd _ _ w] busy obtain k' where
      k': "conns s' c = Some k'" "on_fd k' fd (os s' fd) reqs" "handler s' = handler s" "unsent k' = []"
        "sent (os s' fd) = sent (os s fd)" "send_plan (os s' fd) = send_plan (os s fd)"
        "length (incoming (os s' fd)) < length (incoming (os s fd))" by blast
    have "unsent k = []" by (simp add: unsent_def SOCKET_RECV_FRAMING)
    with k' have "moves f c fd reqs (unsent k) s s'" by (auto simp: moves_def)
    then show ?thesis by (rule goal) (use k'(5-7) in \<open>simp add: left_def\<close>)
  next
    case SOCKET_RECV
    note r = recv_step [OF inv fok k fd SOCKET_RECV w f P]
    show ?thesis by (rule goal) (use r in \<open>auto simp: left_def\<close>)
  next
    case SOCKET_SEND
    note r = send_step [OF inv k fd SOCKET_SEND w]
    show ?thesis by (rule goal) (use r in \<open>auto simp: left_def\<close>)
  qed
qed

text \<open>The socket is found ready \<open>n\<close> times.\<close>

fun work_times :: "('a, 'e, 'h) nb_env \<Rightarrow> nat \<Rightarrow> nat \<Rightarrow> ('e, 'h, unit) srv" where
  "work_times P c 0 = ret ()"
| "work_times P c (Suc n) = bindT (workSocket P c) (\<lambda>_. work_times P c n)"

lemma talking_ends:
  assumes "talking f P c fd reqs out s" and "answers f" and "\<not> threadPoolProcessing P"
  shows "\<exists>n s'. work_times (kernel_env f P) c n s = (Inr (), s') \<and> incoming (os s' fd) = [] \<and>
    (sent (os s' fd), handler s') = out \<and> nb_inv (kernel_env f P) s'"
  using assms(1)
proof (induction "left fd out s" arbitrary: reqs s rule: less_induct)
  case less
  from less.prems obtain k where k: "conns s c = Some k" by (auto simp: talking_def)
  show ?case
  proof (cases "socketState k = SOCKET_RECV_FRAMING \<and> incoming (os s fd) = []")
    case True
    with talking_end [OF less.prems k] less.prems show ?thesis
      by (intro exI [of _ 0] exI [of _ s]) (simp add: ret_def talking_def)
  next
    case False
    from talking_step [OF less.prems assms(2,3) k this] obtain s1 reqs1 where
      s1: "workSocket (kernel_env f P) c s = (Inr (), s1)" "talking f P c fd reqs1 out s1" "left fd out s1 < left fd out s" by blast
    from less.hyps [OF s1(3,2)] obtain n s' where "work_times (kernel_env f P) c n s1 = (Inr (), s')"
      "incoming (os s' fd) = []" "(sent (os s' fd), handler s') = out" "nb_inv (kernel_env f P) s'" by blast
    with s1(1) show ?thesis by (intro exI [of _ "Suc n"] exI [of _ s']) (simp add: bindT_def)
  qed
qed

text \<open>
  C14: a client of a server without thread pool that has sent whole frames gets, after finitely many
  events of its socket, exactly the framed replies in the order of its requests, each request
  handled once, however \<^verbatim>\<open>recv\<close> and \<^verbatim>\<open>send\<close> split the bytes and however often the send
  buffer is full; then its connection waits for the next frame.
\<close>

theorem requests_answered_in_order:
  assumes "runs (nb_step (kernel_env f P)) (new_server e h) es s" and "Stopped \<notin> set es"
    and "conns s c = Some k" and "registered k" and "appState k = APP_READ_FRAME_SIZE" and "readBufferPos k = 0"
    and "socket (tSocket k) = fd" and "0 \<le> fd" and "survives (maxRecvRetries (tSocket k)) 0 (recv_plan (os s fd))"
    and "patient (send_plan (os s fd))" and "incoming (os s fd) = concat (map frame reqs)" and "\<forall>req \<in> set reqs. frame_ok req"
    and "answers f" and "\<not> threadPoolProcessing P"
  shows "\<exists>n s'. work_times (kernel_env f P) c n s = (Inr (), s') \<and> incoming (os s' fd) = [] \<and>
    sent (os s' fd) = sent (os s fd) @ fst (serve f (handler s) reqs) \<and> handler s' = snd (serve f (handler s) reqs)"
proof -
  from direct_runs.holds [OF assms(1)] assms(2,14) have inv: "nb_inv (kernel_env f P) s" by auto
  have "phase_ok k" by (rule nb_inv_frame [OF inv assms(3,4)])
  with assms(5) have st: "socketState k = SOCKET_RECV_FRAMING" by (simp add: phase_ok_def)
  then have "talking f P c fd reqs (sent (os s fd) @ fst (serve f (handler s) reqs), snd (serve f (handler s) reqs)) s"
    using inv assms by (simp add: talking_def on_fd_def unread_def unsent_def)
  from talking_ends [OF this assms(13,14)] show ?thesis by auto
qed

section \<open>Witness\<close>

definition direct_env :: "(unit, kernel, nat) nb_env" where
  "direct_env = pool_env\<lparr>threadPoolProcessing := False\<rparr>"

text \<open>A handler that counts the requests and answers the first byte.\<close>

definition first_byte :: "nat \<Rightarrow> bytes \<Rightarrow> bytes option \<times> nat" where
  "first_byte h req = (Some (take 1 req), h + 1)"

definition two_requests :: kernel where
  "two_requests = (\<lambda>fd. \<lparr>incoming = frame [42, 43] @ frame [7], sent = [], recv_plan = [RecvPiece 3, RecvError EINTR],
     send_plan = [SendError EAGAIN, SendPiece 2]\<rparr>)"

lemma direct_client:
  "\<exists>s k. handleEvent (kernel_env first_byte direct_env) [(7, True)] (new_server two_requests 0) = (Inr (), s) \<and>
    conns s 0 = Some k \<and> registered k \<and> appState k = APP_READ_FRAME_SIZE \<and> readBufferPos k = 0 \<and> socket (tSocket k) = 7 \<and>
    maxRecvRetries (tSocket k) = 5 \<and> os s = two_requests \<and> handler s = 0"
  by (simp add: nb_eval accept_client_def shed_load_def direct_env_def pool_env_def kernel_env_def)

theorem requests_answered_in_order_witness:
  "\<exists>n s s'. runs (nb_step (kernel_env first_byte direct_env)) (new_server two_requests 0) [] s \<and>
    work_times (kernel_env first_byte direct_env) 0 n s = (Inr (), s') \<and>
    sent (os s' 7) = frame [42] @ frame [7] \<and> handler s' = 2"
proof -
  from direct_client obtain s k where s: "handleEvent (kernel_env first_byte direct_env) [(7, True)] (new_server two_requests 0) = (Inr (), s)"
    "conns s 0 = Some k" "registered k" "appState k = APP_READ_FRAME_SIZE" "readBufferPos k = 0" "socket (tSocket k) = 7"
    "maxRecvRetries (tSocket k) = 5" "os s = two_requests" "handler s = 0" by blast
  have "nb_step (kernel_env first_byte direct_env) (new_server two_requests 0) [] s"
    using nb_step.clients [OF s(1)] by (simp add: outcome_def)
  then have r: "runs (nb_step (kernel_env first_byte direct_env)) (new_server two_requests 0) [] s" by (rule runs_one)
  have "answers first_byte" by (auto simp: answers_def first_byte_def min_def)
  moreover have "\<not> threadPoolProcessing direct_env" by (simp add: direct_env_def)
  moreover have "serve first_byte 0 [[42, 43], [7]] = (frame [42] @ frame [7], 2)" by (simp add: first_byte_def)
  moreover have "os s 7 = \<lparr>incoming = concat (map frame [[42, 43], [7]]), sent = [], recv_plan = [RecvPiece 3, RecvError EINTR],
     send_plan = [SendError EAGAIN, SendPiece 2]\<rparr>" by (simp add: s two_requests_def)
  ultimately have "\<exists>n s'. work_times (kernel_env first_byte direct_env) 0 n s = (Inr (), s') \<and> incoming (os s' 7) = [] \<and>
    sent (os s' 7) = sent (os s 7) @ fst (serve first_byte (handler s) [[42, 43], [7]]) \<and>
    handler s' = snd (serve first_byte (handler s) [[42, 43], [7]])"
    by (intro requests_answered_in_order [OF r _ s(2-6)]) (simp_all add: s(7) patient_def frame_ok_def)
  with r s(9) \<open>serve first_byte 0 _ = _\<close> \<open>os s 7 = _\<close> show ?thesis by auto
qed

end
