(* ===== verification/FileTransport.thy ===== *)
theory FileTransport
  imports FramedTransport CText
begin

text \<open>
  The reading side of \<^verbatim>\<open>TFileTransport\<close> (\<^verbatim>\<open>transport/TFileTransport.{h,cpp}\<close>): a log file
  of events, each with its size in front, in which no event crosses the boundary of a chunk. The
  reader keeps its place in a state machine over a block of the file. Its places in the block are
  \<^verbatim>\<open>int32_t\<close> in the code and natural numbers here, which is the same for blocks (\<open>readBuffSize\<close>)
  of less than \<open>2 ^ 31\<close> bytes.
\<close>

section \<open>State\<close>

record event_info =
  eventBuff :: "bytes option"
  eventSize :: nat
  eventBuffPos :: nat

record read_state =
  rs_event :: "event_info option"
  eventSizeBuff :: bytes
  eventSizeBuffPos :: nat
  readingSize :: bool
  bufferPtr :: nat
  bufferLen :: nat
  lastDispatchPtr :: nat

definition resetState :: "nat \<Rightarrow> read_state \<Rightarrow> read_state" where
  "resetState n r = r\<lparr>readingSize := True, eventSizeBuffPos := 0, lastDispatchPtr := n\<rparr>"

definition resetAllValues :: "read_state \<Rightarrow> read_state" where
  "resetAllValues r = (resetState 0 r)\<lparr>bufferPtr := 0, bufferLen := 0, rs_event := None\<rparr>"

text \<open>
  The open file: its bytes and the position of the descriptor. \<open>reads\<close> says how many bytes each
  \<^verbatim>\<open>read\<close> gives at most, or that it fails; reads beyond it give all they can. \<open>growth\<close> is what
  others append to the file while the reader sleeps.
\<close>

record log_file =
  contents :: bytes
  fpos :: nat
  reads :: "nat option list"
  growth :: "bytes list"

definition file_read :: "nat \<Rightarrow> log_file \<Rightarrow> bytes option \<times> log_file" where
  "file_read n f = (case reads f of
     None # p \<Rightarrow> (None, f\<lparr>reads := p\<rparr>)
   | Some m # p \<Rightarrow> (let k = min n (max 1 m) in
       (Some (slice (fpos f) k (contents f)), f\<lparr>reads := p, fpos := min (fpos f + k) (max (fpos f) (length (contents f)))\<rparr>))
   | [] \<Rightarrow> (Some (slice (fpos f) n (contents f)), f\<lparr>fpos := min (fpos f + n) (max (fpos f) (length (contents f)))\<rparr>))"

definition file_sleep :: "log_file \<Rightarrow> log_file" where
  "file_sleep f = (case growth f of [] \<Rightarrow> f | g # gs \<Rightarrow> f\<lparr>contents := contents f @ g, growth := gs\<rparr>)"

record file_transport =
  readState :: read_state
  readBuff :: "bytes option"
  currentEvent :: "event_info option"
  readBuffSize :: nat
  readTimeout :: int
  chunkSize :: nat
  maxEventSize :: nat
  maxCorruptedEvents :: nat
  offset :: nat
  lastBadChunk :: nat
  numCorruptedEventsInChunk :: nat
  fd_open :: bool
  disk :: log_file

text \<open>The constants \<^verbatim>\<open>TAIL_READ_TIMEOUT\<close> and \<^verbatim>\<open>NO_TAIL_READ_TIMEOUT\<close>, and a new reader.\<close>

definition TAIL_READ_TIMEOUT :: int where "TAIL_READ_TIMEOUT = - 1"
definition NO_TAIL_READ_TIMEOUT :: int where "NO_TAIL_READ_TIMEOUT = 0"

definition new_TFileTransport :: "log_file \<Rightarrow> file_transport" where
  "new_TFileTransport f = \<lparr>
     readState = resetAllValues \<lparr>rs_event = None, eventSizeBuff = replicate 4 0, eventSizeBuffPos = 0,
       readingSize = True, bufferPtr = 0, bufferLen = 0, lastDispatchPtr = 0\<rparr>,
     readBuff = None, currentEvent = None, readBuffSize = 1024 * 1024, readTimeout = NO_TAIL_READ_TIMEOUT,
     chunkSize = 16 * 1024 * 1024, maxEventSize = 0, maxCorruptedEvents = 0, offset = 0, lastBadChunk = 0,
     numCorruptedEventsInChunk = 0, fd_open = True, disk = f\<lparr>fpos := 0\<rparr>\<rparr>"

section \<open>Chunks\<close>

definition getNumChunks :: "file_transport \<Rightarrow> nat" where
  "getNumChunks s =
     (if \<not> fd_open s then 0
      else if length (contents (disk s)) > 0 then u32 (length (contents (disk s)) div chunkSize s + 1)
      else 0)"

definition getCurChunk :: "file_transport \<Rightarrow> nat" where
  "getCurChunk s = u32 (offset s div chunkSize s)"

text \<open>
  \<^verbatim>\<open>seekToChunk\<close>, given \<^verbatim>\<open>readEvent\<close>. An exception of \<^verbatim>\<open>readEvent\<close> leaves it with the read
  timeout not restored. \<^verbatim>\<open>lseek\<close> is taken to succeed.
\<close>

definition seek_past :: "(file_transport, event_info option) tio \<Rightarrow> nat \<Rightarrow> unit \<Rightarrow> (file_transport, unit + unit) tio" where
  "seek_past rd minEndOffset u s =
     (if offset s + bufferPtr (readState s) < minEndOffset
      then bindT rd (\<lambda>event. if event = None then leave_with () else continue_with ()) s
      else leave_with () s)"

definition seekToChunk_with :: "(file_transport, event_info option) tio \<Rightarrow> int \<Rightarrow> (file_transport, unit) tio" where
  "seekToChunk_with rd chunk s =
     (if \<not> fd_open s then (Inl (TTransportException TE_UNKNOWN), s)
      else
        let numChunks = s32 (getNumChunks s) in
        if numChunks = 0 then (Inr (), s)
        else
          let c1 = (if chunk < 0 then chunk + numChunks else chunk);
              c2 = (if c1 < 0 then 0 else c1);
              seekToEnd = (c2 \<ge> numChunks);
              c3 = (if seekToEnd then numChunks - 1 else c2);
              newOffset = nat c3 * chunkSize s;
              s1 = s\<lparr>offset := newOffset, disk := (disk s)\<lparr>fpos := newOffset\<rparr>,
                readState := resetAllValues (readState s), currentEvent := None\<rparr> in
          if seekToEnd then
            bindT (modify (\<lambda>s. s\<lparr>readTimeout := NO_TAIL_READ_TIMEOUT\<rparr>)) (\<lambda>_.
            bindT (loopT (seek_past rd (length (contents (disk s)))) ()) (\<lambda>_.
            modify (\<lambda>t. t\<lparr>readTimeout := readTimeout s\<rparr>))) s1
          else (Inr (), s1))"

section \<open>Corrupted events\<close>

definition isEventCorrupted :: "nat \<Rightarrow> file_transport \<Rightarrow> bool" where
  "isEventCorrupted n s \<longleftrightarrow>
     (if maxEventSize s > 0 \<and> n > maxEventSize s then True
      else if n > chunkSize s then True
      else (offset s + bufferPtr (readState s) - 4) div chunkSize s \<noteq>
        (offset s + bufferPtr (readState s) + n - 1) div chunkSize s)"

definition wait_for_chunk :: "nat \<Rightarrow> unit \<Rightarrow> (file_transport, unit + unit) tio" where
  "wait_for_chunk curChunk u s =
     (if getNumChunks s \<noteq> 0 \<and> curChunk = getNumChunks s - 1
      then continue_with () (s\<lparr>disk := file_sleep (disk s)\<rparr>)
      else leave_with () s)"

definition count_corrupted :: "file_transport \<Rightarrow> file_transport" where
  "count_corrupted s =
     (if lastBadChunk s = getCurChunk s
      then s\<lparr>numCorruptedEventsInChunk := u32 (numCorruptedEventsInChunk s + 1)\<rparr>
      else s\<lparr>lastBadChunk := getCurChunk s, numCorruptedEventsInChunk := 1\<rparr>)"

definition performRecovery :: "(file_transport, event_info option) tio \<Rightarrow> (file_transport, unit) tio" where
  "performRecovery rd s0 =
     (let curChunk = getCurChunk s0; s = count_corrupted s0 in
      if numCorruptedEventsInChunk s < maxCorruptedEvents s then seekToChunk_with rd (s32 curChunk) s
      else if \<not> (getNumChunks s \<noteq> 0 \<and> curChunk = getNumChunks s - 1)
        then seekToChunk_with rd (s32 (u32 (curChunk + 1))) s
      else if readTimeout s = TAIL_READ_TIMEOUT then
        bindT (loopT (wait_for_chunk curChunk) ()) (\<lambda>_. seekToChunk_with rd (s32 (u32 (curChunk + 1)))) s
      else
        (Inl (TTransportException TE_UNKNOWN),
         s\<lparr>readState := resetState (lastDispatchPtr (readState s)) (readState s), currentEvent := None\<rparr>))"

section \<open>Reading an event\<close>

datatype fill = Filled | Retry nat | GiveUp

text \<open>
  The buffer is allocated once, with the size that is set at that moment.
\<close>

definition buffer_of :: "file_transport \<Rightarrow> bytes" where
  "buffer_of s = (case readBuff s of None \<Rightarrow> [] | Some b \<Rightarrow> b)"

definition alloc_buffer :: "file_transport \<Rightarrow> file_transport" where
  "alloc_buffer s = (if readBuff s = None then s\<lparr>readBuff := Some (replicate (readBuffSize s) 0)\<rparr> else s)"

text \<open>The block is read again when it is used up. A read timeout below \<open>-1\<close> is none of the cases.\<close>

definition refill :: "nat \<Rightarrow> (file_transport, fill) tio" where
  "refill readTries s =
     (if bufferPtr (readState s) \<noteq> bufferLen (readState s) then (Inr Filled, s)
      else
        (case file_read (readBuffSize s) (disk s) of (got, d) \<Rightarrow>
           let s1 = s\<lparr>offset := offset s + bufferLen (readState s), disk := d\<rparr> in
           case got of
             None \<Rightarrow> (Inl (TTransportException TE_UNKNOWN), s1\<lparr>readState := resetAllValues (readState s)\<rparr>)
           | Some bs \<Rightarrow>
               let s2 = s1\<lparr>readState := (readState s)\<lparr>bufferLen := length bs, bufferPtr := 0, lastDispatchPtr := 0\<rparr>,
                     readBuff := map_option (splice 0 bs) (readBuff s)\<rparr>;
                   asleep = s2\<lparr>disk := file_sleep (disk s2)\<rparr>;
                   reset = s2\<lparr>readState := resetState 0 (readState s2)\<rparr> in
               if length bs > length (buffer_of s) then (Inl UndefinedBehaviour, s1)
               else if bs \<noteq> [] then (Inr Filled, s2)
               else if readTimeout s = TAIL_READ_TIMEOUT then (Inr (Retry readTries), asleep)
               else if readTimeout s = NO_TAIL_READ_TIMEOUT then (Inr GiveUp, reset)
               else if readTimeout s > 0 then
                 (if readTries > 0 then (Inr GiveUp, reset) else (Inr (Retry (readTries + 1)), asleep))
               else (Inr Filled, s2)))"

definition scan_size :: "(file_transport, event_info option) tio \<Rightarrow> (file_transport, unit + event_info option) tio" where
  "scan_size rd s =
     (let r = readState s; pos = offset s + bufferPtr r in
      if eventSizeBuffPos r = 0 \<and> pos div chunkSize s \<noteq> (pos + 3) div chunkSize s
      then (Inr (Inl ()), s\<lparr>readState := r\<lparr>bufferPtr := bufferPtr r + 1\<rparr>\<rparr>)
      else if bufferPtr r \<ge> length (buffer_of s) \<or> eventSizeBuffPos r \<ge> length (eventSizeBuff r)
      then (Inl UndefinedBehaviour, s)
      else
        let buf = (eventSizeBuff r)[eventSizeBuffPos r := buffer_of s ! bufferPtr r];
            r1 = r\<lparr>eventSizeBuff := buf, eventSizeBuffPos := eventSizeBuffPos r + 1, bufferPtr := bufferPtr r + 1\<rparr> in
        if eventSizeBuffPos r1 \<noteq> 4 then (Inr (Inl ()), s\<lparr>readState := r1\<rparr>)
        else if le_nat buf = 0 then (Inr (Inl ()), s\<lparr>readState := resetState (lastDispatchPtr r1) r1\<rparr>)
        else
          let s2 = s\<lparr>readState := r1\<lparr>readingSize := False,
                rs_event := Some \<lparr>eventBuff = None, eventSize = le_nat buf, eventBuffPos = 0\<rparr>\<rparr>\<rparr> in
          if isEventCorrupted (le_nat buf) s2 then bindT (performRecovery rd) (\<lambda>_. leave_with None) s2
          else (Inr (Inl ()), s2))"

definition scan_event :: "(file_transport, unit + event_info option) tio" where
  "scan_event s =
     (let r = readState s in
      case rs_event r of
        None \<Rightarrow> (Inl UndefinedBehaviour, s)
      | Some ev \<Rightarrow>
          let buf = (case eventBuff ev of None \<Rightarrow> replicate (eventSize ev) 0 | Some b \<Rightarrow> b);
              pos = (case eventBuff ev of None \<Rightarrow> 0 | Some b \<Rightarrow> eventBuffPos ev);
              n = min (bufferLen r - bufferPtr r) (eventSize ev - pos);
              ev1 = \<lparr>eventBuff = Some (splice pos (slice (bufferPtr r) n (buffer_of s)) buf), eventSize = eventSize ev,
                eventBuffPos = pos + n\<rparr>;
              r1 = r\<lparr>bufferPtr := bufferPtr r + n, rs_event := Some ev1\<rparr> in
          if bufferPtr r + n > length (buffer_of s) then (Inl UndefinedBehaviour, s)
          else if pos + n = eventSize ev then
            (Inr (Inr (Some (ev1\<lparr>eventBuffPos := 0\<rparr>))),
             s\<lparr>readState := resetState (bufferPtr r1) (r1\<lparr>rs_event := None\<rparr>)\<rparr>)
          else (Inr (Inl ()), s\<lparr>readState := r1\<rparr>))"

definition scan_body :: "(file_transport, event_info option) tio \<Rightarrow> unit \<Rightarrow> (file_transport, unit + event_info option) tio" where
  "scan_body rd u s =
     (if \<not> bufferPtr (readState s) < bufferLen (readState s) then leave_with None s
      else if readingSize (readState s) then scan_size rd s
      else scan_event s)"

definition readEvent_body :: "(file_transport, event_info option) tio \<Rightarrow> nat \<Rightarrow> (file_transport, nat + event_info option) tio" where
  "readEvent_body rd readTries =
     bindT (refill readTries) (\<lambda>f. case f of
       Retry n \<Rightarrow> continue_with n
     | GiveUp \<Rightarrow> leave_with None
     | Filled \<Rightarrow> bindT (loopT (scan_body rd) ()) (\<lambda>r. case r of
         None \<Rightarrow> continue_with 0
       | Some ev \<Rightarrow> leave_with (Some ev)))"

text \<open>
  \<^verbatim>\<open>readEvent\<close> calls itself through \<^verbatim>\<open>performRecovery\<close> and \<^verbatim>\<open>seekToChunk\<close>; the argument bounds
  the depth of these calls. One call that does not nest is enough, as recovery never seeks to the
  end of the file.
\<close>

fun readEvent_at :: "nat \<Rightarrow> (file_transport, event_info option) tio" where
  "readEvent_at 0 = throw Diverges"
| "readEvent_at (Suc d) = bindT (modify alloc_buffer) (\<lambda>_. loopT (readEvent_body (readEvent_at d)) 0)"

definition readEvent :: "(file_transport, event_info option) tio" where
  "readEvent = readEvent_at 2"

definition seekToChunk :: "int \<Rightarrow> (file_transport, unit) tio" where
  "seekToChunk = seekToChunk_with readEvent"

definition seekToEnd :: "(file_transport, unit) tio" where
  "seekToEnd s = seekToChunk (s32 (getNumChunks s)) s"

section \<open>Reading bytes\<close>

definition next_event :: "(file_transport, unit) tio" where
  "next_event s =
     (if currentEvent s = None then bindT readEvent (\<lambda>e. modify (\<lambda>s. s\<lparr>currentEvent := e\<rparr>)) s else (Inr (), s))"

definition file_peek :: "(file_transport, bool) tio" where
  "file_peek = bindT next_event (\<lambda>_ s. case currentEvent s of
     None \<Rightarrow> (Inr False, s)
   | Some e \<Rightarrow> (Inr (u32_diff (eventSize e) (eventBuffPos e) > 0), s))"

text \<open>
  The remaining bytes are counted in \<^verbatim>\<open>int32_t\<close>: of an event of \<open>2 ^ 31\<close> bytes or more a
  negative number is returned, which the caller takes for bytes that were never written.
\<close>

definition file_bytes :: "nat \<Rightarrow> (file_transport, bytes) tio" where
  "file_bytes len = bindT next_event (\<lambda>_ s. case currentEvent s of
     None \<Rightarrow> (Inr [], s)
   | Some e \<Rightarrow>
       let remaining = s32 (u32_diff (eventSize e) (eventBuffPos e)); b = (case eventBuff e of None \<Rightarrow> [] | Some b \<Rightarrow> b) in
       if remaining \<le> s32 len then
         (if remaining < 0 \<or> eventBuffPos e + nat remaining > length b then (Inl UndefinedBehaviour, s)
          else (Inr (slice (eventBuffPos e) (nat remaining) b), s\<lparr>currentEvent := None\<rparr>))
       else if eventBuffPos e + len > length b then (Inl UndefinedBehaviour, s)
       else (Inr (slice (eventBuffPos e) len b), s\<lparr>currentEvent := Some (e\<lparr>eventBuffPos := eventBuffPos e + len\<rparr>)\<rparr>))"

definition file_readAll :: "nat \<Rightarrow> (file_transport, bytes) tio" where
  "file_readAll len = readAll file_bytes len"

end
