(* ===== verification/FileLog.thy ===== *)
theory FileLog
  imports FileTransport
begin

text \<open>
  What a log file means, whatever the blocks in which it is read: the events from a position on,
  and that the state machine of the reader computes them.
\<close>

section \<open>The events of a file\<close>

definition corrupted :: "nat \<Rightarrow> nat \<Rightarrow> nat \<Rightarrow> nat \<Rightarrow> bool" where
  "corrupted c mx pos n \<longleftrightarrow> 0 < mx \<and> mx < n \<or> c < n \<or> pos div c \<noteq> (pos + 4 + n - 1) div c"

datatype parsed = Event bytes nat | NoEvent | Corrupted

text \<open>
  The first event at or after a position, with the position behind it: bytes before a chunk
  boundary that cannot hold a size are skipped, and so are sizes of zero.
\<close>

function parse_log :: "nat \<Rightarrow> nat \<Rightarrow> bytes \<Rightarrow> nat \<Rightarrow> parsed" where
  "parse_log c mx file pos =
     (if pos \<ge> length file then NoEvent
      else if pos div c \<noteq> (pos + 3) div c then parse_log c mx file (pos + 1)
      else if pos + 4 > length file then NoEvent
      else let n = le_nat (slice pos 4 file) in
        if n = 0 then parse_log c mx file (pos + 4)
        else if corrupted c mx pos n then Corrupted
        else if pos + 4 + n > length file then NoEvent
        else Event (slice (pos + 4) n file) (pos + 4 + n))"
  by pat_completeness auto
termination by (relation "measure (\<lambda>(c, mx, file, pos). length file - pos)") auto

declare parse_log.simps [simp del]

section \<open>The state of the reader\<close>

abbreviation file_of :: "file_transport \<Rightarrow> bytes" where
  "file_of s \<equiv> contents (disk s)"

definition reader_ok :: "file_transport \<Rightarrow> bool" where
  "reader_ok s \<longleftrightarrow> 0 < chunkSize s \<and> 0 < readBuffSize s \<and> fd_open s \<and>
     (readBuff s \<noteq> None \<longrightarrow> readBuffSize s \<le> length (buffer_of s)) \<and>
     bufferPtr (readState s) \<le> bufferLen (readState s) \<and> bufferLen (readState s) \<le> length (buffer_of s) \<and>
     take (bufferLen (readState s)) (buffer_of s) = slice (offset s) (bufferLen (readState s)) (file_of s) \<and>
     fpos (disk s) = offset s + bufferLen (readState s) \<and> fpos (disk s) \<le> length (file_of s) \<and>
     length (eventSizeBuff (readState s)) = 4"

text \<open>The first \<open>m\<close> bytes of the event at \<open>p\<close> have been copied.\<close>

definition event_part :: "bytes \<Rightarrow> nat \<Rightarrow> nat \<Rightarrow> event_info \<Rightarrow> bool" where
  "event_part file p m ev \<longleftrightarrow> (case eventBuff ev of
     None \<Rightarrow> m = 0
   | Some b \<Rightarrow> length b = eventSize ev \<and> m = eventBuffPos ev \<and> take m b = slice (p + 4) m file)"

text \<open>\<open>scanning s p\<close>: the reader is at work on what starts at \<open>p\<close>.\<close>

definition scanning :: "file_transport \<Rightarrow> nat \<Rightarrow> bool" where
  "scanning s p \<longleftrightarrow> (let r = readState s; at = offset s + bufferPtr r; c = chunkSize s in
     if readingSize r then
       eventSizeBuffPos r < 4 \<and> at = p + eventSizeBuffPos r \<and>
       take (eventSizeBuffPos r) (eventSizeBuff r) = slice p (eventSizeBuffPos r) (file_of s) \<and>
       (0 < eventSizeBuffPos r \<longrightarrow> p div c = (p + 3) div c)
     else (\<exists>ev m. rs_event r = Some ev \<and> m < eventSize ev \<and> eventSize ev = le_nat (slice p 4 (file_of s)) \<and>
       \<not> corrupted c (maxEventSize s) p (eventSize ev) \<and> p div c = (p + 3) div c \<and> at = p + 4 + m \<and>
       event_part (file_of s) p m ev))"

definition parse_at :: "file_transport \<Rightarrow> nat \<Rightarrow> parsed" where
  "parse_at s = parse_log (chunkSize s) (maxEventSize s) (file_of s)"

text \<open>What the reader leaves alone while it reads on.\<close>

definition same_setup :: "file_transport \<Rightarrow> file_transport \<Rightarrow> bool" where
  "same_setup s t \<longleftrightarrow> file_of t = file_of s \<and> chunkSize t = chunkSize s \<and> maxEventSize t = maxEventSize s \<and>
     readBuffSize t = readBuffSize s \<and> readTimeout t = readTimeout s \<and> fd_open t = fd_open s \<and>
     maxCorruptedEvents t = maxCorruptedEvents s \<and> currentEvent t = currentEvent s \<and>
     (None \<notin> set (reads (disk s)) \<longrightarrow> None \<notin> set (reads (disk t)))"

lemma same_setup_refl [simp]: "same_setup s s"
  by (simp add: same_setup_def)

lemma same_setup_trans: "same_setup s t \<Longrightarrow> same_setup t u \<Longrightarrow> same_setup s u"
  by (simp add: same_setup_def)

lemma same_setup_parse: "same_setup s t \<Longrightarrow> parse_at t = parse_at s"
  by (simp add: same_setup_def parse_at_def)

lemma buffer_of_state [simp]: "buffer_of (s\<lparr>readState := r\<rparr>) = buffer_of s"
  by (simp add: buffer_of_def)

definition at_pos :: "file_transport \<Rightarrow> nat" where
  "at_pos s = offset s + bufferPtr (readState s)"

lemma at_pos_bound: "reader_ok s \<Longrightarrow> at_pos s \<le> length (file_of s)"
  by (auto simp: reader_ok_def at_pos_def)

lemma slice_slice: "i + n \<le> m \<Longrightarrow> slice i n (slice k m xs) = slice (k + i) n xs"
  by (simp add: slice_def drop_take min_def add.commute)

lemma block_byte:
  assumes "reader_ok s" and "bufferPtr (readState s) < bufferLen (readState s)"
  shows "buffer_of s ! bufferPtr (readState s) = file_of s ! at_pos s"
    and "bufferPtr (readState s) < length (buffer_of s)" and "at_pos s < length (file_of s)"
proof -
  let ?i = "bufferPtr (readState s)" and ?n = "bufferLen (readState s)"
  have b: "?n \<le> length (buffer_of s)" "offset s + ?n \<le> length (file_of s)" "?n > ?i"
    "take ?n (buffer_of s) = slice (offset s) ?n (file_of s)"
    using assms by (auto simp: reader_ok_def)
  have "buffer_of s ! ?i = take ?n (buffer_of s) ! ?i" by (rule nth_take [symmetric]) (rule b(3))
  also have "\<dots> = file_of s ! (offset s + ?i)" unfolding b(4) using b by (simp add: slice_def)
  finally show "buffer_of s ! ?i = file_of s ! at_pos s" by (simp add: at_pos_def)
  show "?i < length (buffer_of s)" "at_pos s < length (file_of s)" using b by (simp_all add: at_pos_def)
qed

lemma block_slice:
  assumes "reader_ok s" and "bufferPtr (readState s) + n \<le> bufferLen (readState s)"
  shows "slice (bufferPtr (readState s)) n (buffer_of s) = slice (at_pos s) n (file_of s)"
    and "at_pos s + n \<le> length (file_of s)" and "bufferPtr (readState s) + n \<le> length (buffer_of s)"
proof -
  let ?i = "bufferPtr (readState s)" and ?n = "bufferLen (readState s)"
  have b: "?n \<le> length (buffer_of s)" "offset s + ?n \<le> length (file_of s)" 
    "take ?n (buffer_of s) = slice (offset s) ?n (file_of s)"
    using assms by (auto simp: reader_ok_def)
  have "slice ?i n (buffer_of s) = slice ?i n (take ?n (buffer_of s))" by (rule slice_take [symmetric]) (rule assms(2))
  also have "\<dots> = slice (offset s + ?i) n (file_of s)"
    unfolding b(3) by (rule slice_slice) (rule assms(2))
  finally show "slice ?i n (buffer_of s) = slice (at_pos s) n (file_of s)" by (simp add: at_pos_def)
  show "at_pos s + n \<le> length (file_of s)" "?i + n \<le> length (buffer_of s)" using b assms(2) by (simp_all add: at_pos_def)
qed

lemma slice_snoc: "p + k < length xs \<Longrightarrow> slice p (Suc k) xs = slice p k xs @ [xs ! (p + k)]"
  by (simp add: slice_def take_Suc_conv_app_nth)

section \<open>One step of the scan\<close>

definition scans_on :: "file_transport \<Rightarrow> file_transport \<Rightarrow> bool" where
  "scans_on s t \<longleftrightarrow> same_setup s t \<and> reader_ok t \<and> offset t = offset s \<and> readBuff t = readBuff s \<and>
     bufferLen (readState t) = bufferLen (readState s) \<and> bufferPtr (readState s) < bufferPtr (readState t) \<and>
     lastBadChunk t = lastBadChunk s \<and> numCorruptedEventsInChunk t = numCorruptedEventsInChunk s \<and> disk t = disk s"

lemma scans_onI:
  assumes "reader_ok s" and "t = s\<lparr>readState := r\<rparr>" and "bufferLen r = bufferLen (readState s)"
    and "bufferPtr (readState s) < bufferPtr r" and "bufferPtr r \<le> bufferLen r" and "length (eventSizeBuff r) = 4"
  shows "scans_on s t"
  using assms by (simp add: scans_on_def reader_ok_def same_setup_def)

text \<open>What a complete size says.\<close>

lemma parse_size:
  assumes "p + 4 \<le> length file" and "p div c = (p + 3) div c"
  shows "parse_log c mx file p = (let n = le_nat (slice p 4 file) in
     if n = 0 then parse_log c mx file (p + 4)
     else if corrupted c mx p n then Corrupted
     else if p + 4 + n > length file then NoEvent
     else Event (slice (p + 4) n file) (p + 4 + n))"
  using assms by (subst parse_log.simps) (simp add: Let_def)

lemma isEventCorrupted_eq:
  assumes "offset s + bufferPtr (readState s) = p + 4"
  shows "isEventCorrupted n s = corrupted (chunkSize s) (maxEventSize s) p n"
  using assms by (auto simp: isEventCorrupted_def corrupted_def)

lemma scan_size_ok:
  assumes ok: "reader_ok s" and sc: "scanning s p" and rs: "readingSize (readState s)"
    and more: "bufferPtr (readState s) < bufferLen (readState s)"
  shows "(\<exists>s' p'. scan_size rd s = (Inr (Inl ()), s') \<and> scans_on s s' \<and> scanning s' p' \<and> parse_at s p' = parse_at s p) \<or>
    (\<exists>s'. scan_size rd s = bindT (performRecovery rd) (\<lambda>_. leave_with None) s' \<and> scans_on s s' \<and> parse_at s p = Corrupted)"
proof -
  let ?r = "readState s" and ?c = "chunkSize s" and ?f = "file_of s"
  let ?k = "eventSizeBuffPos ?r"
  have k: "?k < 4" "at_pos s = p + ?k" "take ?k (eventSizeBuff ?r) = slice p ?k ?f" "0 < ?k \<longrightarrow> p div ?c = (p + 3) div ?c"
    using sc rs by (simp_all add: scanning_def at_pos_def Let_def)
  have len: "length (eventSizeBuff ?r) = 4" using ok by (simp add: reader_ok_def)
  note byte = block_byte [OF ok more]
  show ?thesis
  proof (cases "?k = 0 \<and> at_pos s div ?c \<noteq> (at_pos s + 3) div ?c")
    case True
    let ?s = "s\<lparr>readState := ?r\<lparr>bufferPtr := bufferPtr ?r + 1\<rparr>\<rparr>"
    have p: "at_pos s = p" "p div ?c \<noteq> (p + 3) div ?c" "p < length ?f"
      using conjunct2 [OF True] k(2) byte(3) unfolding conjunct1 [OF True] by simp_all
    have "scan_size rd s = (Inr (Inl ()), ?s)" using True by (simp add: scan_size_def Let_def at_pos_def)
    moreover have "scans_on s ?s" using more len by (intro scans_onI [OF ok refl]) simp_all
    moreover have "scanning ?s (p + 1)" using True k rs by (simp add: scanning_def at_pos_def Let_def)
    moreover have "parse_at s p = parse_at s (p + 1)"
      unfolding parse_at_def using p(2,3) by (subst parse_log.simps) simp
    ultimately show ?thesis by metis
  next
    case False
    let ?buf = "(eventSizeBuff ?r)[?k := ?f ! at_pos s]"
    let ?r1 = "?r\<lparr>eventSizeBuff := ?buf, eventSizeBuffPos := ?k + 1, bufferPtr := bufferPtr ?r + 1\<rparr>"
    have chunk: "p div ?c = (p + 3) div ?c" using False k by auto
    have buf: "take (?k + 1) ?buf = slice p (?k + 1) ?f"
      using k len byte(3) by (simp add: take_Suc_conv_app_nth slice_snoc)
    have step: "scan_size rd s = (if ?k + 1 \<noteq> 4 then (Inr (Inl ()), s\<lparr>readState := ?r1\<rparr>)
        else if le_nat ?buf = 0 then (Inr (Inl ()), s\<lparr>readState := resetState (lastDispatchPtr ?r1) ?r1\<rparr>)
        else
          let s2 = s\<lparr>readState := ?r1\<lparr>readingSize := False,
                rs_event := Some \<lparr>eventBuff = None, eventSize = le_nat ?buf, eventBuffPos = 0\<rparr>\<rparr>\<rparr> in
          if isEventCorrupted (le_nat ?buf) s2 then bindT (performRecovery rd) (\<lambda>_. leave_with None) s2
          else (Inr (Inl ()), s2))"
    proof -
      have "\<not> (?k = 0 \<and> (offset s + bufferPtr ?r) div ?c \<noteq> (offset s + bufferPtr ?r + 3) div ?c)"
        using False by (simp add: at_pos_def)
      moreover have "\<not> (bufferPtr ?r \<ge> length (buffer_of s) \<or> ?k \<ge> length (eventSizeBuff ?r))"
        using byte(2) k(1) len by simp
      ultimately show ?thesis unfolding scan_size_def Let_def by (simp only: if_False byte(1)) simp
    qed
    show ?thesis
    proof (cases "?k + 1 = 4")
      case False
      let ?s = "s\<lparr>readState := ?r1\<rparr>"
      have "scans_on s ?s" using more len by (intro scans_onI [OF ok refl]) simp_all
      moreover have "scanning ?s p" using False k rs buf chunk by (simp add: scanning_def at_pos_def Let_def)
      ultimately show ?thesis using step False by auto
    next
      case four: True
      with buf len have b4: "?buf = slice p 4 ?f" by simp
      have fits: "p + 4 \<le> length ?f" using four k byte(3) by simp
      note parse = parse_size [OF fits chunk, of "maxEventSize s"]
      show ?thesis
      proof (cases "le_nat (slice p 4 ?f) = 0")
        case True
        let ?s = "s\<lparr>readState := resetState (lastDispatchPtr ?r1) ?r1\<rparr>"
        have "scans_on s ?s" using more len by (intro scans_onI [OF ok refl]) (simp_all add: resetState_def)
        moreover have "scanning ?s (p + 4)" using four k by (simp add: scanning_def at_pos_def Let_def resetState_def)
        moreover have "parse_at s (p + 4) = parse_at s p" using True parse by (simp add: parse_at_def)
        ultimately show ?thesis using step four True b4 by (metis (no_types, lifting))
      next
        case nonzero: False
        let ?n = "le_nat (slice p 4 ?f)"
        let ?s = "s\<lparr>readState := ?r1\<lparr>readingSize := False,
                rs_event := Some \<lparr>eventBuff = None, eventSize = ?n, eventBuffPos = 0\<rparr>\<rparr>\<rparr>"
        have on: "scans_on s ?s" using more len by (intro scans_onI [OF ok refl]) simp_all
        have cor: "isEventCorrupted ?n ?s = corrupted ?c (maxEventSize s) p ?n"
          using four k by (subst isEventCorrupted_eq [where p = p]) (simp_all add: at_pos_def)
        show ?thesis
        proof (cases "corrupted ?c (maxEventSize s) p ?n")
          case True
          then have "parse_at s p = Corrupted" using parse nonzero by (simp add: parse_at_def)
          moreover have "scan_size rd s = bindT (performRecovery rd) (\<lambda>_. leave_with None) ?s"
            using step four nonzero cor True unfolding b4 by (simp add: Let_def)
          ultimately show ?thesis using on by blast
        next
          case False
          have "scan_size rd s = (Inr (Inl ()), ?s)" using step four nonzero cor False unfolding b4 by (simp add: Let_def)
          moreover have "scanning ?s p" using nonzero False chunk four k by (simp add: scanning_def at_pos_def Let_def event_part_def)
          ultimately show ?thesis using on by blast
        qed
      qed
    qed
  qed
qed

text \<open>The state in which the reader has done with what was in front of \<open>q\<close>.\<close>

definition clean :: "file_transport \<Rightarrow> nat \<Rightarrow> bool" where
  "clean s q \<longleftrightarrow> reader_ok s \<and> readingSize (readState s) \<and> eventSizeBuffPos (readState s) = 0 \<and> at_pos s = q"

lemma clean_scanning: "clean s q \<Longrightarrow> scanning s q"
  by (simp add: clean_def scanning_def at_pos_def Let_def)

definition complete :: "bytes \<Rightarrow> event_info" where
  "complete bs = \<lparr>eventBuff = Some bs, eventSize = length bs, eventBuffPos = 0\<rparr>"

lemma scan_event_ok:
  assumes ok: "reader_ok s" and sc: "scanning s p" and rs: "\<not> readingSize (readState s)"
    and more: "bufferPtr (readState s) < bufferLen (readState s)"
  shows "(\<exists>s'. scan_event s = (Inr (Inl ()), s') \<and> scans_on s s' \<and> scanning s' p) \<or>
    (\<exists>s' bs q. scan_event s = (Inr (Inr (Some (complete bs))), s') \<and> scans_on s s' \<and> clean s' q \<and>
       lastDispatchPtr (readState s') = bufferPtr (readState s') \<and> parse_at s p = Event bs q)"
proof -
  let ?r = "readState s" and ?c = "chunkSize s" and ?f = "file_of s"
  obtain ev m where ev: "rs_event ?r = Some ev" "m < eventSize ev" "eventSize ev = le_nat (slice p 4 ?f)"
      "\<not> corrupted ?c (maxEventSize s) p (eventSize ev)" "p div ?c = (p + 3) div ?c" "at_pos s = p + 4 + m"
      "event_part ?f p m ev"
    using sc rs by (auto simp: scanning_def at_pos_def Let_def)
  let ?buf = "case eventBuff ev of None \<Rightarrow> replicate (eventSize ev) 0 | Some b \<Rightarrow> b"
  define n where "n = min (bufferLen ?r - bufferPtr ?r) (eventSize ev - m)"
  have buf: "length ?buf = eventSize ev" "take m ?buf = slice (p + 4) m ?f"
    "(case eventBuff ev of None \<Rightarrow> 0 | Some b \<Rightarrow> eventBuffPos ev) = m"
    using ev(7) by (auto simp: event_part_def split: option.splits)
  have n: "0 < n" "bufferPtr ?r + n \<le> bufferLen ?r" "m + n \<le> eventSize ev" using more ev(2) by (auto simp: n_def)
  note sl = block_slice [OF ok n(2)]
  define buf' where "buf' = splice m (slice (bufferPtr ?r) n (buffer_of s)) ?buf"
  have len': "length (slice (bufferPtr ?r) n (buffer_of s)) = n" using sl(3) by simp
  have "take (m + n) buf' = take m ?buf @ slice (bufferPtr ?r) n (buffer_of s)"
    using take_splice [of m "slice (bufferPtr ?r) n (buffer_of s)" ?buf] len' n(3) buf(1) by (simp add: buf'_def)
  also have "\<dots> = slice (p + 4) m ?f @ slice (p + 4 + m) n ?f" by (simp only: buf(2) sl(1) ev(6))
  finally have got: "take (m + n) buf' = slice (p + 4) (m + n) ?f" by (simp only: slice_append)
  have lb: "length buf' = eventSize ev" using len' n(3) buf(1) by (simp add: buf'_def)
  let ?ev = "\<lparr>eventBuff = Some buf', eventSize = eventSize ev, eventBuffPos = m + n\<rparr>"
  let ?r1 = "?r\<lparr>bufferPtr := bufferPtr ?r + n, rs_event := Some ?ev\<rparr>"
  have l4: "length (eventSizeBuff ?r) = 4" using ok by (simp add: reader_ok_def)
  have step: "scan_event s = (if m + n = eventSize ev then
            (Inr (Inr (Some (?ev\<lparr>eventBuffPos := 0\<rparr>))),
             s\<lparr>readState := resetState (bufferPtr ?r1) (?r1\<lparr>rs_event := None\<rparr>)\<rparr>)
          else (Inr (Inl ()), s\<lparr>readState := ?r1\<rparr>))"
    using ev(1) sl(3) by (simp add: scan_event_def Let_def buf(3) n_def buf'_def)
  show ?thesis
  proof (cases "m + n = eventSize ev")
    case False
    let ?s = "s\<lparr>readState := ?r1\<rparr>"
    have "scans_on s ?s" using n l4 by (intro scans_onI [OF ok refl]) simp_all
    moreover have "scanning ?s p"
      using False rs ev(3-6) n lb got
      by (simp add: scanning_def Let_def at_pos_def event_part_def)
    ultimately show ?thesis using step False by auto
  next
    case True
    let ?s = "s\<lparr>readState := resetState (bufferPtr ?r1) (?r1\<lparr>rs_event := None\<rparr>)\<rparr>"
    have on: "scans_on s ?s" using n l4 by (intro scans_onI [OF ok refl]) (simp_all add: resetState_def)
    have whole: "buf' = slice (p + 4) (eventSize ev) ?f" using got True lb by simp
    have q: "at_pos ?s = p + 4 + eventSize ev" using ev(6) True by (simp add: at_pos_def resetState_def)
    with on have bound: "p + 4 + eventSize ev \<le> length ?f"
      using at_pos_bound [of ?s] by (simp add: scans_on_def)
    have "parse_at s p = Event buf' (p + 4 + eventSize ev)"
      unfolding parse_at_def using parse_size [of p ?f ?c "maxEventSize s"] ev(2-5) bound by (simp add: Let_def whole)
    moreover have "clean ?s (p + 4 + eventSize ev)" using on q by (simp add: clean_def scans_on_def resetState_def)
    moreover have cmp: "?ev\<lparr>eventBuffPos := 0\<rparr> = complete buf'" using lb by (simp add: complete_def)
    have "scan_event s = (Inr (Inr (Some (complete buf'))), ?s)"
      unfolding cmp [symmetric] by (rule trans [OF step if_P [OF True]])
    moreover have "lastDispatchPtr (readState ?s) = bufferPtr (readState ?s)" by (simp add: resetState_def)
    ultimately show ?thesis using on by blast
  qed
qed

section \<open>Corrupted events\<close>

text \<open>
  There is nothing to recover to: the block starts in the last chunk, no corrupted event of a chunk
  is tolerated (the default), and the reader does not wait for the file to grow.
\<close>

definition hopeless :: "file_transport \<Rightarrow> bool" where
  "hopeless s \<longleftrightarrow> readTimeout s = NO_TAIL_READ_TIMEOUT \<and> maxCorruptedEvents s = 0 \<and>
     length (file_of s) div chunkSize s * chunkSize s \<le> offset s \<and> length (file_of s) div chunkSize s + 1 < 2 ^ 32"

lemma hopeless_later: "hopeless s \<Longrightarrow> same_setup s t \<Longrightarrow> offset s \<le> offset t \<Longrightarrow> hopeless t"
  by (auto simp: hopeless_def same_setup_def)

text \<open>The exception leaves the file as it is.\<close>

definition gave_up :: "file_transport \<Rightarrow> exc \<Rightarrow> file_transport \<Rightarrow> bool" where
  "gave_up s e t \<longleftrightarrow> e = TTransportException TE_UNKNOWN \<and> file_of t = file_of s \<and>
     chunkSize t = chunkSize s \<and> maxEventSize t = maxEventSize s \<and> fd_open t = fd_open s \<and> currentEvent t = None \<and>
     readingSize (readState t) \<and> eventSizeBuffPos (readState t) = 0"

lemma gave_up_setup: "same_setup s t \<Longrightarrow> gave_up t e u \<Longrightarrow> gave_up s e u"
  by (simp add: gave_up_def same_setup_def)

lemma recovery_hopeless:
  assumes "reader_ok s" and "hopeless s" and "file_of s \<noteq> []"
  shows "\<exists>t. performRecovery rd s = (Inl (TTransportException TE_UNKNOWN), t) \<and> gave_up s (TTransportException TE_UNKNOWN) t"
proof -
  let ?n = "length (file_of s) div chunkSize s"
  have c: "0 < chunkSize s" "fd_open s" "offset s \<le> length (file_of s)" using assms(1) by (auto simp: reader_ok_def)
  have "?n \<le> offset s div chunkSize s"
    using assms(2) c(1) by (simp add: hopeless_def less_eq_div_iff_mult_less_eq)
  moreover have "offset s div chunkSize s \<le> ?n" using c(3) by (rule div_le_mono)
  ultimately have "getCurChunk s = ?n" "getNumChunks s = ?n + 1"
    using assms(2,3) c by (simp_all add: getCurChunk_def getNumChunks_def hopeless_def)
  moreover have "getNumChunks (count_corrupted s) = getNumChunks s" by (simp add: count_corrupted_def getNumChunks_def)
  moreover have "maxCorruptedEvents (count_corrupted s) = 0" "readTimeout (count_corrupted s) = NO_TAIL_READ_TIMEOUT"
    using assms(2) by (simp_all add: count_corrupted_def hopeless_def)
  ultimately show ?thesis
    by (simp add: performRecovery_def Let_def NO_TAIL_READ_TIMEOUT_def TAIL_READ_TIMEOUT_def gave_up_def count_corrupted_def
        resetState_def)
qed

section \<open>The scan of a block\<close>

lemma scans_on_trans: "scans_on s t \<Longrightarrow> scans_on t u \<Longrightarrow> scans_on s u"
  by (auto simp: scans_on_def intro: same_setup_trans)

definition scanned :: "file_transport \<Rightarrow> file_transport \<Rightarrow> bool" where
  "scanned s t \<longleftrightarrow> t = s \<or> scans_on s t"

lemma scanned_step: "scanned s t \<Longrightarrow> scans_on t u \<Longrightarrow> scans_on s u"
  by (auto simp: scanned_def intro: scans_on_trans)

lemma scanned_D: "scanned s t \<Longrightarrow> same_setup s t \<and> offset t = offset s \<and> readBuff t = readBuff s \<and>
    bufferLen (readState t) = bufferLen (readState s) \<and> bufferPtr (readState s) \<le> bufferPtr (readState t) \<and> disk t = disk s \<and>
    lastBadChunk t = lastBadChunk s \<and> numCorruptedEventsInChunk t = numCorruptedEventsInChunk s"
  by (auto simp: scanned_def scans_on_def)

lemma scan_loop_ok:
  assumes ok: "reader_ok s" and sc: "scanning s p" and good: "parse_at s p = Corrupted \<Longrightarrow> hopeless s"
  shows "(\<exists>r t. loopT (scan_body rd) () s = (Inr r, t) \<and> scanned s t \<and> reader_ok t \<and>
    (case r of
       None \<Rightarrow> bufferPtr (readState t) = bufferLen (readState t) \<and> (\<exists>p'. scanning t p' \<and> parse_at s p' = parse_at s p)
     | Some e \<Rightarrow> (\<exists>bs q. e = complete bs \<and> parse_at s p = Event bs q \<and> clean t q \<and>
         lastDispatchPtr (readState t) = bufferPtr (readState t)))) \<or>
    (\<exists>e t. loopT (scan_body rd) () s = (Inl e, t) \<and> gave_up s e t \<and> parse_at s p = Corrupted)"
proof -
  let ?Q = "\<lambda>(r :: exc + event_info option) t. (case r of Inl e \<Rightarrow> gave_up s e t \<and> parse_at s p = Corrupted
     | Inr None \<Rightarrow> scanned s t \<and> reader_ok t \<and>
      bufferPtr (readState t) = bufferLen (readState t) \<and> (\<exists>p'. scanning t p' \<and> parse_at s p' = parse_at s p)
     | Inr (Some e) \<Rightarrow> scanned s t \<and> reader_ok t \<and> (\<exists>bs q. e = complete bs \<and> parse_at s p = Event bs q \<and> clean t q \<and>
         lastDispatchPtr (readState t) = bufferPtr (readState t)))"
  have "\<exists>r t. loopT (scan_body rd) () s = (r, t) \<and> r \<noteq> Inl Diverges \<and> ?Q r t"
  proof (rule loopT_total [where m = "\<lambda>_ t. bufferLen (readState t) - bufferPtr (readState t)" and
        I = "\<lambda>_ t. scanned s t \<and> reader_ok t \<and> (\<exists>p'. scanning t p' \<and> parse_at s p' = parse_at s p)"])
    show "scanned s s \<and> reader_ok s \<and> (\<exists>p'. scanning s p' \<and> parse_at s p' = parse_at s p)"
      using ok sc by (auto simp: scanned_def)
    fix l :: unit and t
    assume "scanned s t \<and> reader_ok t \<and> (\<exists>p'. scanning t p' \<and> parse_at s p' = parse_at s p)"
    then obtain p' where t: "scanned s t" "reader_ok t" "scanning t p'" "parse_at s p' = parse_at s p" by blast
    from t(1) have pa: "parse_at t = parse_at s" using scanned_D same_setup_parse by blast
    let ?goal = "\<exists>r u. scan_body rd l t = (r, u) \<and>
      (case r of Inl e \<Rightarrow> e \<noteq> Diverges \<and> ?Q (Inl e) u | Inr (Inr x) \<Rightarrow> ?Q (Inr x) u
       | Inr (Inl l') \<Rightarrow> (scanned s u \<and> reader_ok u \<and> (\<exists>p'. scanning u p' \<and> parse_at s p' = parse_at s p)) \<and>
           bufferLen (readState u) - bufferPtr (readState u) < bufferLen (readState t) - bufferPtr (readState t))"
    show ?goal
    proof (cases "bufferPtr (readState t) < bufferLen (readState t)")
      case False
      moreover have "bufferPtr (readState t) \<le> bufferLen (readState t)" using t(2) by (simp add: reader_ok_def)
      ultimately show ?goal using t by (auto simp: scan_body_def leave_with_def)
    next
      case more: True
      have goes: ?goal if "scan_body rd l t = (Inr (Inl ()), u)" "scans_on t u" "scanning u q" "parse_at s q = parse_at s p" for u q
      proof -
        have "bufferLen (readState u) - bufferPtr (readState u) < bufferLen (readState t) - bufferPtr (readState t)"
          using that(2) more by (auto simp: scans_on_def)
        moreover have "scanned s u" using scanned_step [OF t(1) that(2)] by (simp add: scanned_def)
        moreover have "reader_ok u" using that(2) by (simp add: scans_on_def)
        ultimately show ?goal using that by auto
      qed
      show ?goal
      proof (cases "readingSize (readState t)")
        case True
        then have b: "scan_body rd l t = scan_size rd t" using more by (simp add: scan_body_def)
        from scan_size_ok [OF t(2,3) True more, of rd] consider
            (on) u q where "scan_size rd t = (Inr (Inl ()), u)" "scans_on t u" "scanning u q" "parse_at t q = parse_at t p'"
          | (bad) u where "scan_size rd t = bindT (performRecovery rd) (\<lambda>_. leave_with None) u" "scans_on t u"
              "parse_at t p' = Corrupted" by blast
        then show ?goal
        proof cases
          case on
          then show ?goal using goes [of u q] b pa t(4) by simp
        next
          case bad
          then have cor: "parse_at s p = Corrupted" using t(4) pa by simp
          have on: "scans_on s u" using scanned_step [OF t(1) bad(2)] .
          then have u: "reader_ok u" "hopeless u" "same_setup s u"
            using hopeless_later [OF good [OF cor]] by (simp_all add: scans_on_def)
          moreover have "file_of u \<noteq> []" using u(3) cor by (auto simp: same_setup_def parse_at_def parse_log.simps)
          ultimately obtain v where "performRecovery rd u = (Inl (TTransportException TE_UNKNOWN), v)"
            "gave_up u (TTransportException TE_UNKNOWN) v" using recovery_hopeless by blast
          then show ?goal using b bad(1) cor gave_up_setup [OF u(3)] by (simp add: bindT_def)
        qed
      next
        case False
        then have b: "scan_body rd l t = scan_event t" using more by (simp add: scan_body_def)
        from scan_event_ok [OF t(2,3) False more] consider
            (on) u where "scan_event t = (Inr (Inl ()), u)" "scans_on t u" "scanning u p'"
          | (found) u bs q where "scan_event t = (Inr (Inr (Some (complete bs))), u)" "scans_on t u" "clean u q"
              "lastDispatchPtr (readState u) = bufferPtr (readState u)" "parse_at t p' = Event bs q" by blast
        then show ?goal
        proof cases
          case on
          then show ?goal using goes [of u p'] b t(4) by simp
        next
          case found
          have "scanned s u" using scanned_step [OF t(1) found(2)] by (simp add: scanned_def)
          moreover have "reader_ok u" using found(3) by (simp add: clean_def)
          ultimately show ?goal using found b pa t(4) by simp
        qed
      qed
    qed
  qed
  then obtain r t where rt: "loopT (scan_body rd) () s = (r, t)" "?Q r t" by blast
  then show ?thesis by (cases r) (auto split: option.splits)
qed

section \<open>Reading an event\<close>

lemma file_read_ok:
  assumes "None \<notin> set (reads f)" and "fpos f \<le> length (contents f)" and "0 < n"
  obtains bs g where "file_read n f = (Some bs, g)" and "contents g = contents f" and "bs = slice (fpos f) (length bs) (contents f)"
    and "length bs \<le> n" and "fpos g = fpos f + length bs" and "fpos g \<le> length (contents f)"
    and "bs = [] \<longleftrightarrow> fpos f = length (contents f)" and "None \<notin> set (reads g)"
proof -
  note result = that
  have one: thesis if k: "0 < k" "k \<le> n" and fr: "file_read n f = (Some (slice (fpos f) k (contents f)), g)"
    and g: "contents g = contents f" "fpos g = min (fpos f + k) (max (fpos f) (length (contents f)))" "None \<notin> set (reads g)" for k g
  proof -
    have len: "length (slice (fpos f) k (contents f)) = min k (length (contents f) - fpos f)" by (simp add: slice_def min.commute)
    have "slice (fpos f) k (contents f) = slice (fpos f) (length (slice (fpos f) k (contents f))) (contents f)"
      by (simp add: slice_def min_def)
    moreover have "fpos g = fpos f + length (slice (fpos f) k (contents f))" using g(2) len assms(2) by auto
    moreover have "slice (fpos f) k (contents f) = [] \<longleftrightarrow> min k (length (contents f) - fpos f) = 0"
      unfolding len [symmetric] by simp
    moreover have "min k (length (contents f) - fpos f) = 0 \<longleftrightarrow> fpos f = length (contents f)"
      using k(1) assms(2) by (auto simp: min_def)
    ultimately show thesis using result [OF fr g(1) _ _ _ _ _ g(3)] len k(2) assms(2) by simp
  qed
  show thesis
  proof (cases "reads f")
    case Nil
    with one [OF assms(3) order_refl, of "f\<lparr>fpos := min (fpos f + n) (max (fpos f) (length (contents f)))\<rparr>"] show thesis
      by (simp add: file_read_def)
  next
    case (Cons x p)
    with assms(1) obtain m where x: "x = Some m" by (cases x) auto
    let ?k = "min n (max 1 m)"
    have "0 < ?k" "?k \<le> n" using assms(3) by auto
    with one [of ?k "f\<lparr>reads := p, fpos := min (fpos f + ?k) (max (fpos f) (length (contents f)))\<rparr>"] Cons x assms(1) show thesis
      by (simp add: file_read_def Let_def)
  qed
qed

lemma scanning_buff [simp]: "scanning (s\<lparr>readBuff := b\<rparr>) p = scanning s p"
  by (simp add: scanning_def)

definition readable :: "file_transport \<Rightarrow> bool" where
  "readable s \<longleftrightarrow> reader_ok s \<and> readTimeout s = NO_TAIL_READ_TIMEOUT \<and> None \<notin> set (reads (disk s))"

text \<open>The block is used up: the next one, or the end of the file.\<close>

lemma refill_ok:
  assumes ok: "readable s" and buf: "readBuff s \<noteq> None" and sc: "scanning s p"
    and used: "bufferPtr (readState s) = bufferLen (readState s)"
  shows "(\<exists>t. refill n s = (Inr Filled, t) \<and> readable t \<and> same_setup s t \<and> readBuff t \<noteq> None \<and> scanning t p \<and>
      at_pos t = at_pos s \<and> bufferPtr (readState t) < bufferLen (readState t) \<and>
      lastBadChunk t = lastBadChunk s \<and> numCorruptedEventsInChunk t = numCorruptedEventsInChunk s \<and> offset s \<le> offset t) \<or>
    (\<exists>t. refill n s = (Inr GiveUp, t) \<and> readable t \<and> same_setup s t \<and> clean t (length (file_of s)) \<and>
      offset t = length (file_of s) \<and> lastDispatchPtr (readState t) = 0 \<and> parse_at s p = NoEvent)"
proof -
  have r: "reader_ok s" "readTimeout s = NO_TAIL_READ_TIMEOUT" "None \<notin> set (reads (disk s))" using ok by (simp_all add: readable_def)
  have pos: "fpos (disk s) = at_pos s" "fpos (disk s) \<le> length (file_of s)" "0 < readBuffSize s" "readBuffSize s \<le> length (buffer_of s)"
    using r(1) used buf by (auto simp: reader_ok_def at_pos_def)
  from file_read_ok [OF r(3) pos(2,3)] obtain bs g where
    g: "file_read (readBuffSize s) (disk s) = (Some bs, g)" "contents g = file_of s" "bs = slice (at_pos s) (length bs) (file_of s)"
      "length bs \<le> readBuffSize s" "fpos g = at_pos s + length bs" "fpos g \<le> length (file_of s)"
      "bs = [] \<longleftrightarrow> at_pos s = length (file_of s)" "None \<notin> set (reads g)"
    by (metis pos(1))
  obtain b where b: "readBuff s = Some b" using buf by blast
  with pos(4) g(4) have lb: "length bs \<le> length b" by (simp add: buffer_of_def)
  let ?t = "s\<lparr>offset := at_pos s, disk := g,
      readState := (readState s)\<lparr>bufferLen := length bs, bufferPtr := 0, lastDispatchPtr := 0\<rparr>, readBuff := Some (splice 0 bs b)\<rparr>"
  have step: "refill n s = (if bs \<noteq> [] then (Inr Filled, ?t) else (Inr GiveUp, ?t\<lparr>readState := resetState 0 (readState ?t)\<rparr>))"
  proof -
    have "offset s + bufferLen (readState s) = at_pos s" using used by (simp add: at_pos_def)
    then show ?thesis using lb
      by (simp add: refill_def used g(1) b r(2) Let_def buffer_of_def NO_TAIL_READ_TIMEOUT_def TAIL_READ_TIMEOUT_def)
  qed
  have tb: "take (length bs) (splice 0 bs b) = bs" by (simp add: splice_def)
  have ok': "reader_ok ?t" using r(1) g lb pos(4) b tb by (auto simp: reader_ok_def buffer_of_def)
  have same: "same_setup s ?t" using g by (simp add: same_setup_def)
  show ?thesis
  proof (cases "bs = []")
    case False
    have "scanning ?t p" using sc g(2) by (auto simp: scanning_def Let_def at_pos_def split: if_splits)
    moreover have "readable ?t" using ok' r g(8) by (simp add: readable_def)
    ultimately show ?thesis using step False same by (simp add: at_pos_def)
  next
    case True
    let ?u = "?t\<lparr>readState := resetState 0 (readState ?t)\<rparr>"
    have end_pos: "at_pos s = length (file_of s)" using True g(7) by simp
    have ok_u: "reader_ok ?u" using ok' by (simp add: reader_ok_def resetState_def buffer_of_def)
    then have "clean ?u (length (file_of s))" using True end_pos by (simp add: clean_def at_pos_def resetState_def)
    moreover have "readable ?u" using ok_u r g(8) by (simp add: readable_def)
    moreover have "same_setup s ?u" using same by (simp add: same_setup_def)
    moreover have "parse_at s p = NoEvent"
    proof (cases "readingSize (readState s)")
      case True
      then have "at_pos s = p + eventSizeBuffPos (readState s)" "eventSizeBuffPos (readState s) < 4"
        "0 < eventSizeBuffPos (readState s) \<longrightarrow> p div chunkSize s = (p + 3) div chunkSize s"
        using sc by (simp_all add: scanning_def Let_def at_pos_def)
      with end_pos show ?thesis unfolding parse_at_def by (subst parse_log.simps) auto
    next
      case False
      then obtain n m where "m < n" "n = le_nat (slice p 4 (file_of s))" "\<not> corrupted (chunkSize s) (maxEventSize s) p n"
        "p div chunkSize s = (p + 3) div chunkSize s" "at_pos s = p + 4 + m"
        using sc by (auto simp: scanning_def Let_def at_pos_def)
      with end_pos show ?thesis
        unfolding parse_at_def by (subst parse_size) (simp_all add: Let_def)
    qed
    ultimately show ?thesis using step True end_pos by (simp add: resetState_def)
  qed
qed

definition found_event :: "file_transport \<Rightarrow> nat \<Rightarrow> event_info option \<Rightarrow> file_transport \<Rightarrow> bool" where
  "found_event s p r t \<longleftrightarrow> readable t \<and> same_setup s t \<and> readBuff t \<noteq> None \<and> offset s \<le> offset t \<and> (case r of
     None \<Rightarrow> parse_at s p = NoEvent \<and> clean t (length (file_of s)) \<and> offset t = length (file_of s) \<and>
       lastDispatchPtr (readState t) = 0
   | Some e \<Rightarrow> (\<exists>bs q. parse_at s p = Event bs q \<and> e = complete bs \<and> clean t q \<and>
       lastDispatchPtr (readState t) = bufferPtr (readState t)))"

lemma readEvent_loop_ok:
  assumes ok: "readable s" and buf: "readBuff s \<noteq> None" and sc: "scanning s p"
    and good: "parse_at s p = Corrupted \<Longrightarrow> hopeless s"
  shows "(\<exists>r t. loopT (readEvent_body rd) 0 s = (Inr r, t) \<and> found_event s p r t) \<or>
    (\<exists>e t. loopT (readEvent_body rd) 0 s = (Inl e, t) \<and> gave_up s e t \<and> parse_at s p = Corrupted)"
proof -
  let ?I = "\<lambda>t. readable t \<and> same_setup s t \<and> readBuff t \<noteq> None \<and> offset s \<le> offset t \<and> (\<exists>p'. scanning t p' \<and> parse_at s p' = parse_at s p)"
  let ?Q = "\<lambda>(r :: exc + event_info option) t. case r of Inl e \<Rightarrow> gave_up s e t \<and> parse_at s p = Corrupted | Inr x \<Rightarrow> found_event s p x t"
  have "\<exists>r t. loopT (readEvent_body rd) 0 s = (r, t) \<and> r \<noteq> Inl Diverges \<and> ?Q r t"
  proof (rule loopT_total [where m = "\<lambda>_ t. length (file_of s) - at_pos t" and I = "\<lambda>_. ?I"])
    show "?I s" using ok buf sc by auto
    fix l t
    assume "?I t"
    then obtain p' where t: "readable t" "same_setup s t" "readBuff t \<noteq> None" "scanning t p'" "parse_at s p' = parse_at s p"
      "offset s \<le> offset t" by blast
    have pa: "parse_at t = parse_at s" and fl: "file_of t = file_of s"
      using t(2) by (simp_all add: same_setup_parse) (simp add: same_setup_def)
    let ?goal = "\<exists>r u. readEvent_body rd l t = (r, u) \<and>
      (case r of Inl e \<Rightarrow> e \<noteq> Diverges \<and> ?Q (Inl e) u | Inr (Inr x) \<Rightarrow> ?Q (Inr x) u
       | Inr (Inl l') \<Rightarrow> ?I u \<and> length (file_of s) - at_pos u < length (file_of s) - at_pos t)"
    have scan: ?goal if f: "refill l t = (Inr Filled, u)" "readable u" "same_setup s u" "readBuff u \<noteq> None" "scanning u p'"
        "at_pos u = at_pos t" "bufferPtr (readState u) < bufferLen (readState u)" "offset s \<le> offset u" for u
    proof -
      have pu: "parse_at u = parse_at s" and fu: "file_of u = file_of s"
        using f(3) by (simp_all add: same_setup_parse) (simp add: same_setup_def)
      have ru: "reader_ok u" using f(2) by (simp add: readable_def)
      have hope: "parse_at u p' = Corrupted \<Longrightarrow> hopeless u"
        using good t(5) pu hopeless_later [OF _ f(3,8)] by simp
      from scan_loop_ok [OF ru f(5), of rd] hope consider
          (bad) e v where "loopT (scan_body rd) () u = (Inl e, v)" "gave_up u e v" "parse_at u p' = Corrupted"
        | (good) r v where
        "loopT (scan_body rd) () u = (Inr r, v)" "scanned u v" "reader_ok v"
        "case r of
           None \<Rightarrow> bufferPtr (readState v) = bufferLen (readState v) \<and> (\<exists>q. scanning v q \<and> parse_at u q = parse_at u p')
         | Some e \<Rightarrow> (\<exists>bs q. e = complete bs \<and> parse_at u p' = Event bs q \<and> clean v q \<and>
             lastDispatchPtr (readState v) = bufferPtr (readState v))" by blast
      then show ?goal
      proof cases
        case bad
        then have "readEvent_body rd l t = (Inl e, v)" by (simp add: readEvent_body_def bindT_def f(1))
        moreover have "gave_up s e v" using gave_up_setup [OF f(3) bad(2)] .
        moreover have "parse_at s p = Corrupted" using bad(3) pu t(5) by simp
        moreover have "e \<noteq> Diverges" using bad(2) by (simp add: gave_up_def)
        ultimately show ?goal by auto
      next
        case v: (good r v)
      note sd = scanned_D [OF v(2)]
      have ss: "same_setup s v" using f(3) sd same_setup_trans by blast
      have rv: "readable v" using v(3) f(2) sd by (auto simp: readable_def same_setup_def)
      have bv: "readBuff v \<noteq> None" using f(4) sd by simp
      have body: "readEvent_body rd l t = (case r of None \<Rightarrow> (Inr (Inl 0), v) | Some ev \<Rightarrow> (Inr (Inr (Some ev)), v))"
        by (simp add: readEvent_body_def bindT_def f(1) v(1) continue_with_def leave_with_def split: option.split)
      show ?goal
      proof (cases r)
        case (Some e)
        with v(4) pu t(5) have "found_event s p r v" using rv ss bv f(8) sd by (auto simp: found_event_def)
        with body Some show ?goal by simp
      next
        case None
        with v(4) pu t(5) obtain q where q: "bufferPtr (readState v) = bufferLen (readState v)" "scanning v q" "parse_at s q = parse_at s p" by auto
        have "at_pos t < at_pos v" using f(6,7) q(1) sd by (simp add: at_pos_def)
        moreover have "at_pos v \<le> length (file_of s)" using at_pos_bound [OF v(3)] ss by (simp add: same_setup_def)
        moreover have "offset s \<le> offset v" using f(8) sd by simp
        ultimately show ?goal using body None rv ss bv q by auto
      qed
      qed
    qed
    show ?goal
    proof (cases "bufferPtr (readState t) = bufferLen (readState t)")
      case False
      have "bufferPtr (readState t) \<le> bufferLen (readState t)" using t(1) by (simp add: readable_def reader_ok_def)
      with False show ?goal using scan [of t] t by (simp add: refill_def)
    next
      case True
      from refill_ok [OF t(1,3,4) True, of l] consider
          (more) u where "refill l t = (Inr Filled, u)" "readable u" "same_setup t u" "readBuff u \<noteq> None" "scanning u p'"
            "at_pos u = at_pos t" "bufferPtr (readState u) < bufferLen (readState u)" "offset t \<le> offset u"
        | (eof) u where "refill l t = (Inr GiveUp, u)" "readable u" "same_setup t u" "clean u (length (file_of t))"
            "offset u = length (file_of t)" "lastDispatchPtr (readState u) = 0" "parse_at t p' = NoEvent" by blast
      then show ?goal
      proof cases
        case more
        with scan [of u] same_setup_trans [OF t(2)] t(6) show ?goal by (meson order_trans)
      next
        case eof
        have "readBuff u \<noteq> None" using eof(1) t(3) True
          by (auto simp: refill_def Let_def split: prod.splits option.splits if_splits)
        with eof t(2,5) pa fl have "found_event s p None u"
          using same_setup_trans [OF t(2) eof(3)] at_pos_bound [of t] t(1,6) by (auto simp: found_event_def readable_def at_pos_def)
        with eof(1) show ?goal by (simp add: readEvent_body_def bindT_def leave_with_def)
      qed
    qed
  qed
  then obtain r t where "loopT (readEvent_body rd) 0 s = (r, t)" "?Q r t" by blast
  then show ?thesis by (cases r) auto
qed

lemma readEvent_at_any:
  assumes ok: "readable s" and sc: "scanning s p" and good: "parse_at s p = Corrupted \<Longrightarrow> hopeless s"
  shows "(\<exists>r t. readEvent_at (Suc d) s = (Inr r, t) \<and> found_event s p r t) \<or>
    (\<exists>e t. readEvent_at (Suc d) s = (Inl e, t) \<and> gave_up s e t \<and> parse_at s p = Corrupted)"
proof -
  let ?s = "alloc_buffer s"
  have r: "reader_ok s" "0 < readBuffSize s" using ok by (simp_all add: readable_def reader_ok_def)
  have "reader_ok ?s"
    using r(1) by (cases "readBuff s") (auto simp: alloc_buffer_def reader_ok_def buffer_of_def)
  then have a: "readable ?s" "readBuff ?s \<noteq> None" "scanning ?s p" "same_setup s ?s" "offset ?s = offset s"
    using ok sc by (auto simp: readable_def alloc_buffer_def same_setup_def)
  have pa: "parse_at ?s = parse_at s" by (rule same_setup_parse [OF a(4)])
  have hope: "parse_at ?s p = Corrupted \<Longrightarrow> hopeless ?s" using good hopeless_later [OF _ a(4)] a(5) pa by simp
  have eq: "readEvent_at (Suc d) s = loopT (readEvent_body (readEvent_at d)) 0 ?s" by (simp add: bindT_def modify_def)
  from readEvent_loop_ok [OF a(1-3), of "readEvent_at d"] hope consider
      (ends) x t where "loopT (readEvent_body (readEvent_at d)) 0 ?s = (Inr x, t)" "found_event ?s p x t"
    | (fails) e t where "loopT (readEvent_body (readEvent_at d)) 0 ?s = (Inl e, t)" "gave_up ?s e t" "parse_at ?s p = Corrupted"
    by blast
  then show ?thesis
  proof cases
    case (ends x t)
    then have "found_event s p x t"
      using a(4,5) pa same_setup_trans [OF a(4)] by (auto simp: found_event_def same_setup_def split: option.splits)
    with ends show ?thesis unfolding eq by blast
  next
    case fails
    with gave_up_setup [OF a(4)] pa show ?thesis unfolding eq by auto
  qed
qed

lemma readEvent_at_ok:
  assumes "readable s" and "scanning s p" and "parse_at s p \<noteq> Corrupted"
  shows "\<exists>r t. readEvent_at (Suc d) s = (Inr r, t) \<and> found_event s p r t"
  using readEvent_at_any [OF assms(1,2), of d] assms(3) by blast

end
