(* ===== verification/LogFormat.thy ===== *)
theory LogFormat
  imports FileLog
begin

text \<open>
  The files that the writer makes: events and padding. The reader gets from such a file, read from
  its start or from the start of a chunk, exactly the events that were put in it.
\<close>

section \<open>What a reader gets from a position on\<close>

fun reads_as :: "nat \<Rightarrow> nat \<Rightarrow> bytes \<Rightarrow> nat \<Rightarrow> bytes list \<Rightarrow> bool" where
  "reads_as c mx file pos [] \<longleftrightarrow> parse_log c mx file pos = NoEvent"
| "reads_as c mx file pos (e # es) \<longleftrightarrow> (case parse_log c mx file pos of
     Event e' q \<Rightarrow> e' = e \<and> reads_as c mx file q es
   | _ \<Rightarrow> False)"

lemma reads_as_not_corrupted: "reads_as c mx file pos es \<Longrightarrow> parse_log c mx file pos \<noteq> Corrupted"
  by (cases es) (auto split: parsed.splits)

text \<open>The parser walks over whole events and padding, from one position to another.\<close>

inductive walk :: "nat \<Rightarrow> nat \<Rightarrow> bytes \<Rightarrow> nat \<Rightarrow> bytes list \<Rightarrow> nat \<Rightarrow> bool"
  for c mx "file" where
  walk_done: "walk c mx file p [] p"
| walk_skip: "p div c \<noteq> (p + 3) div c \<Longrightarrow> p < length file \<Longrightarrow> walk c mx file (p + 1) es q \<Longrightarrow> walk c mx file p es q"
| walk_zero: "p div c = (p + 3) div c \<Longrightarrow> p + 4 \<le> length file \<Longrightarrow> le_nat (slice p 4 file) = 0 \<Longrightarrow>
    walk c mx file (p + 4) es q \<Longrightarrow> walk c mx file p es q"
| walk_event: "p div c = (p + 3) div c \<Longrightarrow> n = le_nat (slice p 4 file) \<Longrightarrow> 0 < n \<Longrightarrow> p + 4 + n \<le> length file \<Longrightarrow>
    \<not> corrupted c mx p n \<Longrightarrow> e = slice (p + 4) n file \<Longrightarrow> walk c mx file (p + 4 + n) es q \<Longrightarrow> walk c mx file p (e # es) q"

lemma walk_trans: "walk c mx file p es q \<Longrightarrow> walk c mx file q fs r \<Longrightarrow> walk c mx file p (es @ fs) r"
  by (induction rule: walk.induct) (auto intro: walk.intros)

lemma slice_of_append: "i + n \<le> length xs \<Longrightarrow> slice i n (xs @ ys) = slice i n xs"
  by (simp add: slice_def)

lemma slice_of_append_right: "slice (length xs + i) n (xs @ ys) = slice i n ys"
  by (simp add: slice_def)

lemma walk_append: "walk c mx file p es q \<Longrightarrow> walk c mx (file @ rest) p es q"
proof (induction rule: walk.induct)
  case (walk_event p n e es q)
  then show ?case by (intro walk.walk_event [where n = n]) (simp_all add: slice_of_append)
qed (auto intro: walk.intros simp: slice_of_append)

lemma walk_reads_as: "walk c mx file p es q \<Longrightarrow> q = length file \<Longrightarrow> reads_as c mx file p es"
proof (induction rule: walk.induct)
  case (walk_done p)
  then show ?case by (simp add: parse_log.simps)
next
  case (walk_skip p es q)
  then have "parse_log c mx file p = parse_log c mx file (p + 1)" by (subst parse_log.simps) simp
  with walk_skip show ?case by (cases es) simp_all
next
  case (walk_zero p es q)
  then have "parse_log c mx file p = parse_log c mx file (p + 4)" by (subst parse_size) simp_all
  with walk_zero show ?case by (cases es) simp_all
next
  case (walk_event p n e es q)
  then show ?case by (simp add: parse_size Let_def)
qed

section \<open>The files of the writer\<close>

definition fits :: "nat \<Rightarrow> nat \<Rightarrow> bytes \<Rightarrow> bool" where
  "fits c mx e \<longleftrightarrow> e \<noteq> [] \<and> length e + 4 \<le> c \<and> (mx = 0 \<or> length e + 4 \<le> mx)"

inductive log_of :: "nat \<Rightarrow> nat \<Rightarrow> bytes \<Rightarrow> bytes list \<Rightarrow> bool" for c mx where
  log_empty: "log_of c mx [] []"
| log_pad: "log_of c mx f es \<Longrightarrow> log_of c mx (f @ replicate (c - length f mod c) 0) es"
| log_event: "log_of c mx f es \<Longrightarrow> fits c mx e \<Longrightarrow> length e < 2 ^ 32 \<Longrightarrow>
    length f div c = (length f + (length e + 4) - 1) div c \<Longrightarrow>
    log_of c mx (f @ le_bytes 4 (length e) @ e) (es @ [e])"

lemma same_chunk_between:
  fixes p :: nat
  assumes "p div c = r div c" and "p \<le> q" and "q \<le> r"
  shows "p div c = q div c"
  using div_le_mono [OF assms(2), of c] div_le_mono [OF assms(3), of c] assms(1) by simp

lemma walk_zeros:
  assumes "0 < c" and "p \<le> b" and "b = Suc (a div c) * c" and "a \<le> p" and "b \<le> length file"
    and "slice p (b - p) file = replicate (b - p) 0"
  shows "walk c mx file p [] b"
  using assms
proof (induction "b - p" arbitrary: p rule: less_induct)
  case less
  have bound: "a div c * c \<le> a" "b = a div c * c + c" using less.prems(3) by simp_all
  show ?case
  proof (cases "p = b")
    case True
    then show ?thesis by (simp add: walk_done)
  next
    case False
    then have "p < b" using less.prems by simp
    have d: "x div c = a div c" if "p \<le> x" "x < b" for x
    proof (rule div_nat_eqI)
      show "c * (a div c) \<le> x" using that(1) less.prems(4) bound(1) by (subst mult.commute) linarith
      show "x < c * Suc (a div c)" using that(2) less.prems(3) by (simp add: mult.commute)
    qed
    have zeros: "slice q (b - q) file = replicate (b - q) 0" if "p \<le> q" "q \<le> b" for q
    proof -
      have "slice q (b - q) file = drop (q - p) (slice p (b - p) file)" using that by (simp add: slice_split)
      then show ?thesis using less.prems(6) that by simp
    qed
    have onward: "walk c mx file q [] b" if "p < q" "q \<le> b" for q
    proof (rule less.hyps [OF _ less.prems(1) that(2) less.prems(3) _ less.prems(5) zeros])
      show "b - q < b - p" using that by linarith
    qed (use that less.prems(4) in linarith)+
    show ?thesis
    proof (cases "p + 4 \<le> b")
      case True
      have "slice p 4 file = take 4 (slice p (b - p) file)" using True by (simp add: slice_split)
      then have "slice p 4 file = replicate 4 0" using less.prems(6) True by simp
      then have z: "le_nat (slice p 4 file) = 0" by (simp add: numeral_eq_Suc)
      have "walk c mx file (p + 4) [] b" by (rule onward) (use True in simp_all)
      moreover have "p div c = (p + 3) div c" using d [of p] d [of "p + 3"] True by simp
      moreover have "p + 4 \<le> length file" using True less.prems(5) by linarith
      ultimately show ?thesis using z by (blast intro: walk_zero)
    next
      case F: False
      have "b div c = Suc (a div c)" using less.prems(1,3) by simp
      moreover have "b div c \<le> (p + 3) div c" using F by (intro div_le_mono) simp
      ultimately have "p div c \<noteq> (p + 3) div c" using d [of p] \<open>p < b\<close> by simp
      moreover have "walk c mx file (p + 1) [] b" by (rule onward) (use \<open>p < b\<close> in simp_all)
      moreover have "p < length file" using \<open>p < b\<close> less.prems(5) by linarith
      ultimately show ?thesis by (blast intro: walk_skip)
    qed
  qed
qed

lemma pad_end: "0 < c \<Longrightarrow> n + (c - n mod c) = Suc (n div c) * c" for n :: nat
proof -
  assume "0 < c"
  then have "n mod c < c" by simp
  moreover have "n = n div c * c + n mod c" by simp
  ultimately show "n + (c - n mod c) = Suc (n div c) * c" unfolding mult_Suc by linarith
qed

lemma walk_pad:
  assumes "0 < c"
  shows "walk c mx (f @ replicate (c - length f mod c) 0) (length f) [] (length f + (c - length f mod c))"
proof (rule walk_zeros [OF assms, where a = "length f"])
  show "length f + (c - length f mod c) = Suc (length f div c) * c" by (rule pad_end [OF assms])
qed (simp_all add: slice_of_append_right [where i = 0, simplified])

lemma walk_new_event:
  assumes "fits c mx e" and "length e < 2 ^ 32" and "length f div c = (length f + (length e + 4) - 1) div c"
  shows "walk c mx (f @ le_bytes 4 (length e) @ e) (length f) [e] (length f + 4 + length e)"
proof -
  let ?file = "f @ le_bytes 4 (length e) @ e"
  have "slice (length f) 4 ?file = le_bytes 4 (length e)" and data: "slice (length f + 4) (length e) ?file = e"
    by (simp_all add: slice_def)
  then have size: "length e = le_nat (slice (length f) 4 ?file)" using assms(2) by simp
  have pos: "0 < length e" using assms(1) by (simp add: fits_def)
  then have "length f div c = (length f + 3) div c" using same_chunk_between [OF assms(3)] by simp
  moreover have "\<not> corrupted c mx (length f) (length e)"
    using assms(1,3) by (auto simp: corrupted_def fits_def add.assoc add.commute)
  ultimately show ?thesis using size pos data by (intro walk_event [where n = "length e"] walk_done) simp_all
qed

lemma log_walk: "log_of c mx f es \<Longrightarrow> 0 < c \<Longrightarrow> walk c mx f 0 es (length f)"
proof (induction rule: log_of.induct)
  case log_empty
  show ?case by (simp add: walk_done)
next
  case (log_pad f es)
  then show ?case using walk_trans [OF walk_append walk_pad] by simp
next
  case (log_event f es e)
  then show ?case using walk_trans [OF walk_append walk_new_event [of c mx e f]] by (simp add: add.assoc)
qed

lemma log_walk_chunk: "log_of c mx f es \<Longrightarrow> 0 < c \<Longrightarrow> k * c \<le> length f \<Longrightarrow> \<exists>es'. walk c mx f (k * c) es' (length f)"
proof (induction rule: log_of.induct)
  case log_empty
  then show ?case by (auto intro: walk_done)
next
  case (log_pad f es)
  let ?n = "length f" and ?f = "f @ replicate (c - length f mod c) 0"
  have len: "length ?f = Suc (?n div c) * c" using pad_end [OF log_pad.prems(1), of ?n] by simp
  show ?case
  proof (cases "k * c \<le> ?n")
    case True
    with log_pad obtain es' where "walk c mx f (k * c) es' ?n" by blast
    from walk_trans [OF walk_append [OF this] walk_pad [OF log_pad.prems(1)]] show ?thesis by auto
  next
    case False
    then have "?n div c < k" using log_pad.prems(1) by (simp add: div_less_iff_less_mult)
    then have "Suc (?n div c) * c \<le> k * c" by (intro mult_le_mono1) simp
    then have "k * c = length ?f" using log_pad.prems(2) len by simp
    then show ?thesis using walk_done by metis
  qed
next
  case (log_event f es e)
  let ?n = "length f" and ?f = "f @ le_bytes 4 (length e) @ e"
  show ?case
  proof (cases "k * c \<le> ?n")
    case True
    with log_event obtain es' where "walk c mx f (k * c) es' ?n" by blast
    from walk_trans [OF walk_append [OF this] walk_new_event [OF log_event.hyps(2-4)]] show ?thesis by (auto simp: add.assoc)
  next
    case False
    then have "?n div c < k" using log_event.prems(1) by (simp add: div_less_iff_less_mult)
    then have "(?n + (length e + 4) - 1) div c < k" using log_event.hyps(4) by simp
    then have "?n + (length e + 4) - 1 < k * c" using log_event.prems(1) by (simp add: div_less_iff_less_mult)
    then have "k * c = length ?f" using log_event.prems(2) by simp
    then show ?thesis using walk_done by metis
  qed
qed

lemma log_reads_as: "log_of c mx f es \<Longrightarrow> 0 < c \<Longrightarrow> reads_as c mx f 0 es"
  by (auto intro: walk_reads_as log_walk)

end
