(* ===== verification/FileWriter.thy ===== *)
theory FileWriter
  imports FileLog StepSystem
begin

text \<open>
  The writing side of \<^verbatim>\<open>TFileTransport\<close>: the two event buffers, the threads that enqueue
  events, the writer thread with its flushes and its recovery from I/O errors, as steps between
  which other threads may run.
\<close>

section \<open>TFileTransportBuffer\<close>

datatype buffer_mode = WRITE | READ

record event_buffer =
  bufferMode :: buffer_mode
  buffer_events :: "event_info list"
  readPoint :: nat
  buffer_size :: nat

definition new_TFileTransportBuffer :: "nat \<Rightarrow> event_buffer" where
  "new_TFileTransportBuffer n = \<lparr>bufferMode = WRITE, buffer_events = [], readPoint = 0, buffer_size = n\<rparr>"

definition addEvent :: "event_info \<Rightarrow> event_buffer \<Rightarrow> bool \<times> event_buffer" where
  "addEvent e b = (if length (buffer_events b) < buffer_size b
     then (True, b\<lparr>buffer_events := buffer_events b @ [e]\<rparr>) else (False, b))"

definition getNext :: "event_buffer \<Rightarrow> event_info option \<times> event_buffer" where
  "getNext b = (let b1 = b\<lparr>bufferMode := READ\<rparr> in
     if readPoint b < length (buffer_events b)
     then (Some (buffer_events b ! readPoint b), b1\<lparr>readPoint := readPoint b + 1\<rparr>)
     else (None, b1))"

definition buffer_reset :: "event_buffer \<Rightarrow> event_buffer" where
  "buffer_reset b = b\<lparr>bufferMode := WRITE, buffer_events := [], readPoint := 0\<rparr>"

definition isFull :: "event_buffer \<Rightarrow> bool" where
  "isFull b \<longleftrightarrow> length (buffer_events b) = buffer_size b"

definition isEmpty :: "event_buffer \<Rightarrow> bool" where
  "isEmpty b \<longleftrightarrow> buffer_events b = []"

section \<open>The state of the logger\<close>

text \<open>
  Where the writer thread is: not started, before its initialisation, at the head of its loop,
  waiting in \<^verbatim>\<open>swapEventBuffers\<close>, about to take the next event of the buffer, with an event
  in hand, before the decision to flush, in a flush (which may be a forced one), or gone.
\<close>

datatype writer_at =
    NotStarted | Starting | Round | Sleeping | Draining | Holding event_info | Deciding | Syncing bool | Exited

record file_logger =
  transport :: file_transport
  enqueueBuffer :: event_buffer
  dequeueBuffer :: event_buffer
  eventBufferSize :: nat
  flushMaxBytes :: nat
  unflushed :: nat
  readOnly :: bool
  closing :: bool
  forceFlush :: bool
  hasIOError :: bool
  writer_pc :: writer_at

definition new_logger :: "bool \<Rightarrow> log_file \<Rightarrow> file_logger" where
  "new_logger ro f = \<lparr>transport = new_TFileTransport f, enqueueBuffer = new_TFileTransportBuffer 0,
     dequeueBuffer = new_TFileTransportBuffer 0, eventBufferSize = 10000, flushMaxBytes = 1000 * 1024,
     unflushed = 0, readOnly = ro, closing = False, forceFlush = False, hasIOError = False, writer_pc = NotStarted\<rparr>"

section \<open>The callers' side\<close>

definition initBufferAndWriteThread :: "file_logger \<Rightarrow> file_logger" where
  "initBufferAndWriteThread s =
     (if writer_pc s \<noteq> NotStarted then s
      else s\<lparr>enqueueBuffer := new_TFileTransportBuffer (eventBufferSize s),
        dequeueBuffer := new_TFileTransportBuffer (eventBufferSize s), writer_pc := Starting\<rparr>)"

text \<open>The event of a payload: its size in front, in the byte order of the host (little endian).\<close>

definition log_event :: "bytes \<Rightarrow> event_info" where
  "log_event buf = \<lparr>eventBuff = Some (le_bytes 4 (length buf) @ buf), eventSize = u32 (length buf + 4), eventBuffPos = 0\<rparr>"

text \<open>\<^verbatim>\<open>enqueueEvent\<close> returns \<open>False\<close> where it waits for the buffer to have room, to be called again.\<close>

definition enqueueEvent :: "bytes \<Rightarrow> (file_logger, bool) tio" where
  "enqueueEvent buf s =
     (let mx = maxEventSize (transport s); s1 = initBufferAndWriteThread s in
      if closing s then (Inr True, s)
      else if mx > 0 \<and> length buf > mx then (Inr True, s)
      else if length buf = 0 then (Inr True, s)
      else if isFull (enqueueBuffer s1) then (Inr False, s1)
      else if forceFlush s1 then (Inl AssertFail, s1)
      else (Inr True, s1\<lparr>enqueueBuffer := snd (addEvent (log_event buf) (enqueueBuffer s1))\<rparr>))"

definition file_write :: "bytes \<Rightarrow> (file_logger, bool) tio" where
  "file_write buf s =
     (if readOnly s then (Inl (TTransportException TE_UNKNOWN), s) else enqueueEvent buf s)"

text \<open>\<^verbatim>\<open>flush\<close> up to its wait, which lasts until \<open>forceFlush\<close> is cleared.\<close>

definition file_flush :: "file_logger \<Rightarrow> file_logger" where
  "file_flush s = (if writer_pc s = NotStarted then s else s\<lparr>forceFlush := True\<rparr>)"

section \<open>The writer thread\<close>

text \<open>The start of the thread; the file is the one that the constructor has opened.\<close>

definition upd_transport :: "(file_transport \<Rightarrow> file_transport) \<Rightarrow> file_logger \<Rightarrow> file_logger" where
  "upd_transport g s = s\<lparr>transport := g (transport s)\<rparr>"

definition truncate_to :: "nat \<Rightarrow> log_file \<Rightarrow> log_file" where
  "truncate_to n f = f\<lparr>contents := take n (contents f) @ replicate (n - length (contents f)) 0\<rparr>"

definition throw_away_partial :: "file_transport \<Rightarrow> file_transport" where
  "throw_away_partial t = (let n = offset t + lastDispatchPtr (readState t) in
     t\<lparr>offset := n, disk := truncate_to n (disk t), readState := resetAllValues (readState t)\<rparr>)"

definition writer_start :: "file_logger \<Rightarrow> file_logger" where
  "writer_start s = (case seekToEnd (transport s) of
     (Inl e, t) \<Rightarrow> s\<lparr>transport := t, hasIOError := True, unflushed := 0, writer_pc := Round\<rparr>
   | (Inr _, t) \<Rightarrow> s\<lparr>transport := throw_away_partial t, unflushed := 0, writer_pc := Round\<rparr>)"

definition swap_buffers :: "file_logger \<Rightarrow> file_logger" where
  "swap_buffers s = s\<lparr>enqueueBuffer := dequeueBuffer s, dequeueBuffer := enqueueBuffer s, writer_pc := Draining\<rparr>"

text \<open>The head of the loop, with \<^verbatim>\<open>swapEventBuffers\<close> up to its wait, and its rest after the wait.\<close>

definition swapEventBuffers :: "file_logger \<Rightarrow> file_logger" where
  "swapEventBuffers s =
     (if \<not> isEmpty (enqueueBuffer s) then swap_buffers s
      else if closing s then s\<lparr>writer_pc := Deciding\<rparr>
      else s\<lparr>writer_pc := Sleeping\<rparr>)"

definition writer_round :: "file_logger \<Rightarrow> file_logger" where
  "writer_round s =
     (if closing s \<and> hasIOError s then s\<lparr>writer_pc := Exited\<rparr>
      else if closing s \<and> isEmpty (enqueueBuffer s) \<and> isEmpty (dequeueBuffer s)
        then upd_transport (\<lambda>t. t\<lparr>fd_open := False\<rparr>) (s\<lparr>writer_pc := Exited\<rparr>)
      else swapEventBuffers s)"

definition writer_wakes :: "file_logger \<Rightarrow> file_logger" where
  "writer_wakes s = (if isEmpty (enqueueBuffer s) then swap_buffers s else s\<lparr>writer_pc := Deciding\<rparr>)"

definition drain_next :: "file_logger \<Rightarrow> file_logger" where
  "drain_next s = (case getNext (dequeueBuffer s) of
     (Some e, b) \<Rightarrow> s\<lparr>dequeueBuffer := b, writer_pc := Holding e\<rparr>
   | (None, b) \<Rightarrow> s\<lparr>dequeueBuffer := buffer_reset b, writer_pc := Deciding\<rparr>)"

text \<open>
  One attempt to recover from an I/O error; \<open>opened\<close> is the file that \<^verbatim>\<open>open\<close> finds, or that it fails.
\<close>

definition recover_io :: "log_file option \<Rightarrow> file_logger \<Rightarrow> file_logger" where
  "recover_io opened s =
     (if closing s then s\<lparr>writer_pc := Exited\<rparr>
      else case opened of
        None \<Rightarrow> upd_transport (\<lambda>t. t\<lparr>offset := 0, fd_open := False\<rparr>) s
      | Some f \<Rightarrow>
          (case seekToEnd ((transport s)\<lparr>offset := 0, fd_open := True, disk := f\<lparr>fpos := 0\<rparr>\<rparr>) of
             (Inl e, t) \<Rightarrow> s\<lparr>transport := t\<rparr>
           | (Inr _, t) \<Rightarrow> s\<lparr>transport := t, unflushed := 0, hasIOError := False\<rparr>))"

text \<open>
  \<^verbatim>\<open>::write\<close> at the end of the file: \<open>ans\<close> gives for a number of bytes how many are
  written, or that the call fails. A short write counts as a whole one.
\<close>

definition append_file :: "bytes \<Rightarrow> log_file \<Rightarrow> log_file" where
  "append_file bs f = f\<lparr>contents := contents f @ bs, fpos := length (contents f) + length bs\<rparr>"

definition log_bytes :: "(nat \<Rightarrow> nat option) \<Rightarrow> bytes \<Rightarrow> file_logger \<Rightarrow> file_logger" where
  "log_bytes ans bs s = (case ans (length bs) of
     None \<Rightarrow> s\<lparr>hasIOError := True\<rparr>
   | Some k \<Rightarrow> upd_transport (\<lambda>t. t\<lparr>offset := offset t + length bs, disk := append_file (take k bs) (disk t)\<rparr>)
       (s\<lparr>unflushed := u32 (unflushed s + length bs)\<rparr>))"

definition pad_chunk :: "(nat \<Rightarrow> nat option) \<Rightarrow> nat \<Rightarrow> (file_logger, unit) tio" where
  "pad_chunk ans n s =
     (let t = transport s; c = chunkSize t in
      if c = 0 \<or> offset t div c = (offset t + n - 1) div c then (Inr (), s)
      else
        let at = fpos (disk t); padding = s32 (u32 ((at div c + 1) * c - at)) in
        if padding < 0 then (Inl BadAlloc, s)
        else (Inr (), log_bytes ans (replicate (nat padding) 0) (upd_transport (\<lambda>t. t\<lparr>offset := at\<rparr>) s)))"

definition write_event :: "(nat \<Rightarrow> nat option) \<Rightarrow> (nat \<Rightarrow> nat option) \<Rightarrow> event_info \<Rightarrow> (file_logger, unit) tio" where
  "write_event pad ans e s =
     (let t = transport s; n = eventSize e; s1 = s\<lparr>writer_pc := Draining\<rparr> in
      if maxEventSize t > 0 \<and> n > maxEventSize t then (Inr (), s1)
      else if n = 0 then (Inr (), s1)
      else if chunkSize t \<noteq> 0 \<and> n > chunkSize t then (Inr (), s1)
      else bindT (pad_chunk pad n) (\<lambda>_.
        modify (\<lambda>s. if hasIOError s then s
          else log_bytes ans (take n (case eventBuff e of None \<Rightarrow> [] | Some b \<Rightarrow> b)) s)) s1)"

text \<open>The decision to flush, where \<open>due\<close> says that the clock has passed the next flush time, and the flush.\<close>

definition writer_decides :: "bool \<Rightarrow> file_logger \<Rightarrow> file_logger" where
  "writer_decides due s =
     (if hasIOError s then s\<lparr>writer_pc := Round\<rparr>
      else if forceFlush s \<and> \<not> isEmpty (enqueueBuffer s) then s\<lparr>writer_pc := Round\<rparr>
      else if forceFlush s \<or> unflushed s > flushMaxBytes s \<or> due \<and> unflushed s > 0
        then s\<lparr>writer_pc := Syncing (forceFlush s)\<rparr>
      else s\<lparr>writer_pc := Round\<rparr>)"

definition writer_syncs :: "bool \<Rightarrow> (file_logger, unit) tio" where
  "writer_syncs forced s =
     (let s1 = s\<lparr>unflushed := 0, writer_pc := Round\<rparr> in
      if \<not> forced then (Inr (), s1)
      else
        let s2 = s1\<lparr>forceFlush := False\<rparr> in
        if isEmpty (enqueueBuffer s2) \<and> isEmpty (dequeueBuffer s2) then (Inr (), s2) else (Inl AssertFail, s2))"

section \<open>The steps of all threads\<close>

text \<open>
  Every step is what a thread does between two points at which others may run. \<open>os n a\<close> says
  that the system may answer \<open>a\<close> to a \<^verbatim>\<open>write\<close> of \<open>n\<close> bytes. The events of a run are the
  payloads whose \<^verbatim>\<open>write\<close> has returned. A failed assertion or an exception ends the process.
\<close>

inductive log_step :: "(nat \<Rightarrow> nat option \<Rightarrow> bool) \<Rightarrow> file_logger \<Rightarrow> bytes list \<Rightarrow> file_logger \<Rightarrow> bool"
  for os where
  ls_write: "length buf < 2 ^ 32 \<Longrightarrow> \<not> closing s \<Longrightarrow> file_write buf s = (Inr True, t) \<Longrightarrow> log_step os s [buf] t"
| ls_blocked: "\<not> closing s \<Longrightarrow> file_write buf s = (Inr False, t) \<Longrightarrow> log_step os s [] t"
| ls_flush: "log_step os s [] (file_flush s)"
| ls_close: "log_step os s [] (s\<lparr>closing := True\<rparr>)"
| ls_start: "writer_pc s = Starting \<Longrightarrow> log_step os s [] (writer_start s)"
| ls_round: "writer_pc s = Round \<Longrightarrow> log_step os s [] (writer_round s)"
| ls_wake: "writer_pc s = Sleeping \<Longrightarrow> log_step os s [] (writer_wakes s)"
| ls_drain: "writer_pc s = Draining \<Longrightarrow> log_step os s [] (drain_next s)"
| ls_recover: "writer_pc s = Holding e \<Longrightarrow> hasIOError s \<Longrightarrow> log_step os s [] (recover_io opened s)"
| ls_event: "writer_pc s = Holding e \<Longrightarrow> \<not> hasIOError s \<Longrightarrow> \<forall>n. os n (pad n) \<and> os n (ans n) \<Longrightarrow>
    write_event pad ans e s = (Inr (), t) \<Longrightarrow> log_step os s [] t"
| ls_decide: "writer_pc s = Deciding \<Longrightarrow> log_step os s [] (writer_decides due s)"
| ls_sync: "writer_pc s = Syncing f \<Longrightarrow> writer_syncs f s = (Inr (), t) \<Longrightarrow> log_step os s [] t"

text \<open>Two kinds of systems: one on which every write succeeds in full, and any.\<close>

definition healthy_disk :: "nat \<Rightarrow> nat option \<Rightarrow> bool" where
  "healthy_disk n a \<longleftrightarrow> a = Some n"

definition posix_disk :: "nat \<Rightarrow> nat option \<Rightarrow> bool" where
  "posix_disk n a \<longleftrightarrow> (case a of None \<Rightarrow> True | Some k \<Rightarrow> k \<le> n)"

end
