(* ===== verification/FileSeek.thy ===== *)
theory FileSeek
  imports LogFormat FileWriter
begin

text \<open>
  The reader on the files of the writer: reading to the end, looking for the end, and so the start
  of the writer on a file that exists.
\<close>

section \<open>Reading a file to its end\<close>

lemma parse_log_progress: "parse_log c mx f p = Event e q \<Longrightarrow> p < q \<and> q \<le> length f"
proof (induction c mx f p rule: parse_log.induct)
  case (1 c mx f p)
  from "1.prems" show ?case
    by (subst (asm) parse_log.simps) (use "1.IH" in \<open>fastforce simp: Let_def split: if_splits\<close>)
qed

lemma at_end: "reader_ok t \<Longrightarrow> at_pos t = length (file_of t) \<Longrightarrow> fpos (disk t) = length (file_of t)"
  by (auto simp: reader_ok_def at_pos_def)

lemma reads_as_step:
  assumes ok: "readable s" and cl: "clean s p" and rd: "reads_as (chunkSize s) (maxEventSize s) (file_of s) p es"
  shows "case es of
      [] \<Rightarrow> \<exists>t. readEvent s = (Inr None, t) \<and> found_event s p None t
    | e # es' \<Rightarrow> \<exists>t q. readEvent s = (Inr (Some (complete e)), t) \<and> readable t \<and> same_setup s t \<and> clean t q \<and>
        lastDispatchPtr (readState t) = bufferPtr (readState t) \<and> p < q \<and> reads_as (chunkSize s) (maxEventSize s) (file_of s) q es'"
proof -
  have "parse_at s p \<noteq> Corrupted" using reads_as_not_corrupted [OF rd] by (simp add: parse_at_def)
  from readEvent_at_ok [OF ok clean_scanning [OF cl] this, of 1] obtain r t where
    t: "readEvent s = (Inr r, t)" "found_event s p r t" by (auto simp: readEvent_def numeral_2_eq_2)
  show ?thesis
  proof (cases es)
    case Nil
    then have "parse_at s p = NoEvent" using rd by (simp add: parse_at_def)
    then have "r = None" using t(2) by (auto simp: found_event_def split: option.splits)
    with t Nil show ?thesis by simp
  next
    case (Cons e es')
    then obtain q where q: "parse_at s p = Event e q" "reads_as (chunkSize s) (maxEventSize s) (file_of s) q es'"
      using rd by (auto simp: parse_at_def split: parsed.splits)
    then have "r = Some (complete e) \<and> clean t q \<and> lastDispatchPtr (readState t) = bufferPtr (readState t)"
      using t(2) by (auto simp: found_event_def split: option.splits)
    moreover have "p < q" using parse_log_progress q(1) unfolding parse_at_def by blast
    ultimately show ?thesis using t q Cons by (auto simp: found_event_def)
  qed
qed

text \<open>A client that reads until there is no event, and takes up to \<open>n\<close> of them.\<close>

fun read_events :: "nat \<Rightarrow> (file_transport, bytes list) tio" where
  "read_events 0 = ret []"
| "read_events (Suc n) = bindT readEvent (\<lambda>r. case r of
     None \<Rightarrow> ret []
   | Some e \<Rightarrow> bindT (read_events n) (\<lambda>es. ret (the (eventBuff e) # es)))"

lemma read_events_ok:
  assumes "readable s" and "clean s p" and "reads_as (chunkSize s) (maxEventSize s) (file_of s) p es"
  shows "\<exists>t. read_events (length es + 1) s = (Inr es, t) \<and> readEvent t = (Inr None, snd (readEvent t)) \<and> same_setup s t"
  using assms
proof (induction es arbitrary: s p)
  case Nil
  from reads_as_step [OF Nil] obtain t where t: "readEvent s = (Inr None, t)" "found_event s p None t" by auto
  then have "readable t" "same_setup s t" "clean t (length (file_of s))" by (simp_all add: found_event_def)
  moreover from this have "reads_as (chunkSize t) (maxEventSize t) (file_of t) (length (file_of s)) []"
    by (simp add: same_setup_def parse_log.simps)
  ultimately have "\<exists>u. readEvent t = (Inr None, u)" using reads_as_step [of t _ "[]"] by auto
  then have "readEvent t = (Inr None, snd (readEvent t))" by force
  with t \<open>same_setup s t\<close> show ?case by (simp add: bindT_def ret_def)
next
  case (Cons e es)
  from reads_as_step [OF Cons.prems] obtain t q where
    t: "readEvent s = (Inr (Some (complete e)), t)" "readable t" "same_setup s t" "clean t q"
      "reads_as (chunkSize s) (maxEventSize s) (file_of s) q es" by auto
  have "reads_as (chunkSize t) (maxEventSize t) (file_of t) q es" using t(3,5) by (simp add: same_setup_def)
  from Cons.IH [OF t(2,4) this] obtain u where
    "read_events (length es + 1) t = (Inr es, u)" "readEvent u = (Inr None, snd (readEvent u))" "same_setup t u" by blast
  with t(1,3) show ?case using same_setup_trans by (auto simp: bindT_def ret_def complete_def)
qed

text \<open>
  \<open>intact\<close>: reading on from a position, no event is found to be corrupted.
\<close>

definition intact :: "nat \<Rightarrow> nat \<Rightarrow> bytes \<Rightarrow> nat \<Rightarrow> bool" where
  "intact c mx file p \<longleftrightarrow> (\<exists>es. reads_as c mx file p es)"

lemma intact_parse: "intact c mx file p \<longleftrightarrow> (case parse_log c mx file p of
    Corrupted \<Rightarrow> False | NoEvent \<Rightarrow> True | Event e q \<Rightarrow> intact c mx file q)"
proof -
  have "reads_as c mx file p es \<longleftrightarrow> (case parse_log c mx file p of
      Corrupted \<Rightarrow> False | NoEvent \<Rightarrow> es = [] | Event e q \<Rightarrow> (\<exists>es'. es = e # es' \<and> reads_as c mx file q es'))" for es
    by (cases es) (auto split: parsed.split)
  then have "reads_as c mx file p = (\<lambda>es. case parse_log c mx file p of
      Corrupted \<Rightarrow> False | NoEvent \<Rightarrow> es = [] | Event e q \<Rightarrow> (\<exists>es'. es = e # es' \<and> reads_as c mx file q es'))"
    by (rule ext)
  then show ?thesis unfolding intact_def by (auto split: parsed.split)
qed

lemma intact_at_end: "intact c mx file (length file)"
  by (subst intact_parse) (simp add: parse_log.simps)

text \<open>Looking for the end of the file.\<close>

lemma seek_loop_any:
  assumes ok: "readable s" and cl: "clean s p" and ld: "lastDispatchPtr (readState s) = bufferPtr (readState s)"
    and hope: "\<not> intact (chunkSize s) (maxEventSize s) (file_of s) p \<Longrightarrow> hopeless s"
  shows "(\<exists>t. loopT (seek_past readEvent (length (file_of s))) () s = (Inr (), t) \<and> readable t \<and> same_setup s t \<and>
      offset t + lastDispatchPtr (readState t) = length (file_of s) \<and> fpos (disk t) = length (file_of s) \<and>
      intact (chunkSize s) (maxEventSize s) (file_of s) p) \<or>
    (\<exists>e t. loopT (seek_past readEvent (length (file_of s))) () s = (Inl e, t) \<and> file_of t = file_of s \<and>
      \<not> intact (chunkSize s) (maxEventSize s) (file_of s) p)"
proof -
  let ?n = "length (file_of s)" and ?ok = "intact (chunkSize s) (maxEventSize s) (file_of s)"
  let ?I = "\<lambda>t. readable t \<and> same_setup s t \<and> offset s \<le> offset t \<and> lastDispatchPtr (readState t) = bufferPtr (readState t) \<and>
     (\<exists>q. clean t q \<and> (?ok q \<longleftrightarrow> ?ok p))"
  let ?Q = "\<lambda>(r :: exc + unit) t. case r of
      Inl e \<Rightarrow> file_of t = file_of s \<and> \<not> ?ok p
    | Inr x \<Rightarrow> readable t \<and> same_setup s t \<and> offset t + lastDispatchPtr (readState t) = ?n \<and> fpos (disk t) = ?n \<and> ?ok p"
  have "\<exists>r t. loopT (seek_past readEvent ?n) () s = (r, t) \<and> r \<noteq> Inl Diverges \<and> ?Q r t"
  proof (rule loopT_total [where m = "\<lambda>_ t. ?n - at_pos t" and I = "\<lambda>_. ?I"])
    show "?I s" using ok cl ld by auto
    fix l t
    assume "?I t"
    then obtain q where t: "readable t" "same_setup s t" "offset s \<le> offset t"
        "lastDispatchPtr (readState t) = bufferPtr (readState t)" "clean t q" "?ok q \<longleftrightarrow> ?ok p" by blast
    have fl: "file_of t = file_of s" and pa: "parse_at t = parse_log (chunkSize s) (maxEventSize s) (file_of s)"
      using t(2) by (simp_all add: same_setup_def parse_at_def)
    have q: "at_pos t = q" "q \<le> ?n" using t(5) at_pos_bound [of t] fl by (auto simp: clean_def)
    note parsed = intact_parse [of "chunkSize s" "maxEventSize s" "file_of s" q, folded pa]
    let ?goal = "\<exists>r u. seek_past readEvent ?n l t = (r, u) \<and>
      (case r of Inl e \<Rightarrow> e \<noteq> Diverges \<and> ?Q (Inl e) u | Inr (Inr x) \<Rightarrow> ?Q (Inr x) u
       | Inr (Inl l') \<Rightarrow> ?I u \<and> ?n - at_pos u < ?n - at_pos t)"
    show ?goal
    proof (cases "q < ?n")
      case False
      then have "q = ?n" using q(2) by simp
      moreover have "fpos (disk t) = ?n" using at_end [of t] t(5) q(1) fl \<open>q = ?n\<close> by (simp add: clean_def)
      ultimately show ?goal using t q(1) intact_at_end by (simp add: seek_past_def leave_with_def at_pos_def)
    next
      case True
      then have more: "offset t + bufferPtr (readState t) < ?n" using q(1) by (simp add: at_pos_def)
      have "parse_at t q = Corrupted \<Longrightarrow> hopeless t"
        using parsed t(6) hope hopeless_later [OF _ t(2,3)] by auto
      with readEvent_at_any [OF t(1) clean_scanning [OF t(5)], of 1] consider
          (ends) r u where "readEvent t = (Inr r, u)" "found_event t q r u"
        | (fails) e u where "readEvent t = (Inl e, u)" "gave_up t e u" "parse_at t q = Corrupted"
        by (auto simp: readEvent_def numeral_2_eq_2)
      then show ?goal
      proof cases
        case fails
        then have "\<not> ?ok p" "file_of u = file_of s" "e \<noteq> Diverges" using parsed t(6) fl by (simp_all add: gave_up_def)
        with fails(1) more show ?goal by (simp add: seek_past_def bindT_def)
      next
        case ends
        have u: "same_setup s u" "offset s \<le> offset u" "readable u"
          using ends(2) same_setup_trans [OF t(2)] t(3) by (auto simp: found_event_def)
        show ?goal
        proof (cases r)
          case None
          then have n: "parse_at t q = NoEvent" "clean u ?n" "offset u = ?n" "lastDispatchPtr (readState u) = 0"
            using ends(2) fl by (simp_all add: found_event_def)
          then have "?ok p" using parsed t(6) by simp
          moreover have "fpos (disk u) = ?n" using at_end [of u] n(2) u(1) by (simp add: clean_def same_setup_def)
          ultimately show ?goal using ends(1) None more u n by (simp add: seek_past_def bindT_def leave_with_def)
        next
          case (Some e)
          then obtain bs q' where n: "parse_at t q = Event bs q'" "clean u q'"
              "lastDispatchPtr (readState u) = bufferPtr (readState u)" using ends(2) by (auto simp: found_event_def)
          have "q < at_pos u" using parse_log_progress [of _ _ _ q bs q'] n(1,2) unfolding pa by (auto simp: clean_def)
          moreover have "?ok q' \<longleftrightarrow> ?ok p" using parsed t(6) n(1) by simp
          ultimately have "?I u" "?n - at_pos u < ?n - at_pos t" using u n q(1) True by auto
          then show ?goal using ends(1) Some more by (simp add: seek_past_def bindT_def continue_with_def)
        qed
      qed
    qed
  qed
  then obtain r t where "loopT (seek_past readEvent ?n) () s = (r, t)" "?Q r t" by blast
  then show ?thesis by (cases r) auto
qed

lemma seek_loop_ok:
  assumes "readable s" and "clean s p" and "lastDispatchPtr (readState s) = bufferPtr (readState s)"
    and "reads_as (chunkSize s) (maxEventSize s) (file_of s) p es"
  shows "\<exists>t. loopT (seek_past readEvent (length (file_of s))) () s = (Inr (), t) \<and> readable t \<and> same_setup s t \<and>
    offset t + lastDispatchPtr (readState t) = length (file_of s) \<and> fpos (disk t) = length (file_of s)"
proof -
  have "intact (chunkSize s) (maxEventSize s) (file_of s) p" using assms(4) by (auto simp: intact_def)
  with seek_loop_any [OF assms(1-3)] show ?thesis by blast
qed

section \<open>The start of the writer\<close>

definition openable :: "file_transport \<Rightarrow> bool" where
  "openable t \<longleftrightarrow> 0 < chunkSize t \<and> 0 < readBuffSize t \<and> fd_open t \<and> None \<notin> set (reads (disk t)) \<and>
     (readBuff t \<noteq> None \<longrightarrow> readBuffSize t \<le> length (buffer_of t)) \<and> length (eventSizeBuff (readState t)) = 4 \<and>
     length (file_of t) div chunkSize t + 1 < 2 ^ 31"

text \<open>The position at which the last chunk starts.\<close>

definition last_chunk :: "file_transport \<Rightarrow> nat" where
  "last_chunk t = length (file_of t) div chunkSize t * chunkSize t"

lemma seekToEnd_starts:
  assumes op: "openable t" and ne: "file_of t \<noteq> []"
  shows "\<exists>u. seekToEnd t = bindT (loopT (seek_past readEvent (length (file_of u))) ())
      (\<lambda>_. modify (\<lambda>v. v\<lparr>readTimeout := readTimeout t\<rparr>)) u \<and> readable u \<and> clean u (last_chunk t) \<and>
    lastDispatchPtr (readState u) = bufferPtr (readState u) \<and> same_setup (t\<lparr>currentEvent := None, readTimeout := readTimeout u\<rparr>) u \<and>
    offset u = last_chunk t"
proof -
  let ?n = "length (file_of t) div chunkSize t" and ?off = "last_chunk t"
  have num: "getNumChunks t = ?n + 1" "?n + 1 < 2 ^ 31" using op ne by (simp_all add: getNumChunks_def openable_def)
  then have s: "s32 (getNumChunks t) = int (?n + 1)" by (simp add: s32_def)
  let ?t = "t\<lparr>offset := ?off, disk := (disk t)\<lparr>fpos := ?off\<rparr>, readState := resetAllValues (readState t), currentEvent := None\<rparr>"
  let ?u = "?t\<lparr>readTimeout := NO_TAIL_READ_TIMEOUT\<rparr>"
  have "seekToEnd t = bindT (modify (\<lambda>s. s\<lparr>readTimeout := NO_TAIL_READ_TIMEOUT\<rparr>)) (\<lambda>_.
      bindT (loopT (seek_past readEvent (length (file_of t))) ()) (\<lambda>_. modify (\<lambda>u. u\<lparr>readTimeout := readTimeout t\<rparr>))) ?t"
    using op num(2) unfolding seekToEnd_def seekToChunk_def seekToChunk_with_def s Let_def
    by (simp add: openable_def last_chunk_def)
  moreover have "?off \<le> length (file_of t)" by (simp add: last_chunk_def)
  then have "readable ?u" "clean ?u ?off"
    using op by (simp_all add: readable_def clean_def reader_ok_def openable_def resetAllValues_def resetState_def
        at_pos_def buffer_of_def)
  ultimately show ?thesis
    by (intro exI [of _ ?u]) (simp add: bindT_def modify_def same_setup_def resetAllValues_def resetState_def)
qed

lemma seekToEnd_ok:
  assumes op: "openable t" and ne: "file_of t \<noteq> []"
    and rd: "reads_as (chunkSize t) (maxEventSize t) (file_of t) (last_chunk t) es"
  shows "\<exists>u. seekToEnd t = (Inr (), u) \<and> same_setup (t\<lparr>currentEvent := None\<rparr>) u \<and> reader_ok u \<and>
    offset u + lastDispatchPtr (readState u) = length (file_of t) \<and> fpos (disk u) = length (file_of t)"
proof -
  obtain u where u: "seekToEnd t = bindT (loopT (seek_past readEvent (length (file_of u))) ())
      (\<lambda>_. modify (\<lambda>v. v\<lparr>readTimeout := readTimeout t\<rparr>)) u" "readable u" "clean u (last_chunk t)"
      "lastDispatchPtr (readState u) = bufferPtr (readState u)"
      "same_setup (t\<lparr>currentEvent := None, readTimeout := readTimeout u\<rparr>) u"
    using seekToEnd_starts [OF op ne] by blast
  have "reads_as (chunkSize u) (maxEventSize u) (file_of u) (last_chunk t) es" using rd u(5) by (simp add: same_setup_def)
  from seek_loop_ok [OF u(2-4) this] obtain v where v: "loopT (seek_past readEvent (length (file_of u))) () u = (Inr (), v)"
      "readable v" "same_setup u v" "offset v + lastDispatchPtr (readState v) = length (file_of u)" "fpos (disk v) = length (file_of u)"
    by blast
  then have "seekToEnd t = (Inr (), v\<lparr>readTimeout := readTimeout t\<rparr>)" using u(1) by (simp add: bindT_def modify_def)
  moreover have "reader_ok (v\<lparr>readTimeout := readTimeout t\<rparr>)" using v(2) by (simp add: readable_def reader_ok_def buffer_of_def)
  moreover have "same_setup (t\<lparr>currentEvent := None\<rparr>) (v\<lparr>readTimeout := readTimeout t\<rparr>)" using v(3) u(5) by (simp add: same_setup_def)
  ultimately show ?thesis using v(4,5) u(5) by (simp add: same_setup_def)
qed

text \<open>Whatever is in the file: the end is found, or the last chunk has a corrupted event.\<close>

lemma seekToEnd_any:
  assumes op: "openable t" and ne: "file_of t \<noteq> []"
    and no_retry: "intact (chunkSize t) (maxEventSize t) (file_of t) (last_chunk t) \<or> maxCorruptedEvents t = 0"
  shows "(\<exists>u. seekToEnd t = (Inr (), u) \<and> file_of u = file_of t \<and> offset u + lastDispatchPtr (readState u) = length (file_of t) \<and>
      intact (chunkSize t) (maxEventSize t) (file_of t) (last_chunk t)) \<or>
    (\<exists>e u. seekToEnd t = (Inl e, u) \<and> file_of u = file_of t \<and> \<not> intact (chunkSize t) (maxEventSize t) (file_of t) (last_chunk t))"
proof -
  obtain u where u: "seekToEnd t = bindT (loopT (seek_past readEvent (length (file_of u))) ())
      (\<lambda>_. modify (\<lambda>v. v\<lparr>readTimeout := readTimeout t\<rparr>)) u" "readable u" "clean u (last_chunk t)"
      "lastDispatchPtr (readState u) = bufferPtr (readState u)"
      "same_setup (t\<lparr>currentEvent := None, readTimeout := readTimeout u\<rparr>) u" "offset u = last_chunk t"
    using seekToEnd_starts [OF op ne] by blast
  have same: "file_of u = file_of t" "chunkSize u = chunkSize t" "maxEventSize u = maxEventSize t"
      "maxCorruptedEvents u = maxCorruptedEvents t"
    using u(5) by (simp_all add: same_setup_def)
  have "hopeless u" if "\<not> intact (chunkSize u) (maxEventSize u) (file_of u) (last_chunk t)"
    using that u(2,6) op same no_retry by (auto simp: hopeless_def readable_def last_chunk_def openable_def)
  with seek_loop_any [OF u(2-4)] consider
      (ends) v where "loopT (seek_past readEvent (length (file_of u))) () u = (Inr (), v)" "same_setup u v"
        "offset v + lastDispatchPtr (readState v) = length (file_of u)" "intact (chunkSize u) (maxEventSize u) (file_of u) (last_chunk t)"
    | (fails) e v where "loopT (seek_past readEvent (length (file_of u))) () u = (Inl e, v)" "file_of v = file_of u"
        "\<not> intact (chunkSize u) (maxEventSize u) (file_of u) (last_chunk t)" by blast
  then show ?thesis
  proof cases
    case ends
    then have "seekToEnd t = (Inr (), v\<lparr>readTimeout := readTimeout t\<rparr>)" using u(1) by (simp add: bindT_def modify_def)
    with ends same show ?thesis by (simp add: same_setup_def)
  next
    case fails
    then have "seekToEnd t = (Inl e, v)" using u(1) by (simp add: bindT_def)
    with fails same show ?thesis by simp
  qed
qed

text \<open>A file without events yet is left alone, and so is the place of the writer in it.\<close>

lemma seekToEnd_empty: "fd_open t \<Longrightarrow> file_of t = [] \<Longrightarrow> seekToEnd t = (Inr (), t)"
  by (simp add: seekToEnd_def seekToChunk_def seekToChunk_with_def getNumChunks_def s32_def)

lemma writer_start_ok:
  assumes op: "openable (transport s)" and "hasIOError s = False"
    and rd: "file_of (transport s) \<noteq> [] \<Longrightarrow>
      reads_as (chunkSize (transport s)) (maxEventSize (transport s)) (file_of (transport s)) (last_chunk (transport s)) es"
    and new: "file_of (transport s) = [] \<Longrightarrow> offset (transport s) = 0 \<and> lastDispatchPtr (readState (transport s)) = 0 \<and> fpos (disk (transport s)) = 0"
  shows "\<exists>t. writer_start s = s\<lparr>transport := t, unflushed := 0, writer_pc := Round\<rparr> \<and>
    file_of t = file_of (transport s) \<and> offset t = length (file_of (transport s)) \<and> fpos (disk t) = length (file_of (transport s)) \<and>
    chunkSize t = chunkSize (transport s) \<and> maxEventSize t = maxEventSize (transport s)"
proof -
  let ?t = "transport s"
  have "\<exists>u. seekToEnd ?t = (Inr (), u) \<and> file_of u = file_of ?t \<and> chunkSize u = chunkSize ?t \<and> maxEventSize u = maxEventSize ?t \<and>
    offset u + lastDispatchPtr (readState u) = length (file_of ?t) \<and> fpos (disk u) = length (file_of ?t)"
  proof (cases "file_of ?t = []")
    case True
    then show ?thesis using seekToEnd_empty [of ?t] op new by (simp add: openable_def)
  next
    case False
    from seekToEnd_ok [OF op False rd [OF False]] show ?thesis by (auto simp: same_setup_def)
  qed
  then obtain u where u: "seekToEnd ?t = (Inr (), u)" "file_of u = file_of ?t" "chunkSize u = chunkSize ?t" "maxEventSize u = maxEventSize ?t"
    "offset u + lastDispatchPtr (readState u) = length (file_of ?t)" "fpos (disk u) = length (file_of ?t)" by blast
  have "writer_start s = s\<lparr>transport := throw_away_partial u, unflushed := 0, writer_pc := Round\<rparr>"
    using u(1) by (simp add: writer_start_def)
  then show ?thesis using u(2-6)
    by (intro exI [of _ "throw_away_partial u"]) (simp add: throw_away_partial_def truncate_to_def Let_def)
qed

lemma writer_start_any:
  assumes op: "openable (transport s)" and io: "\<not> hasIOError s"
    and no_retry: "intact (chunkSize (transport s)) (maxEventSize (transport s)) (file_of (transport s)) (last_chunk (transport s)) \<or>
      maxCorruptedEvents (transport s) = 0"
    and new: "file_of (transport s) = [] \<Longrightarrow> offset (transport s) = 0 \<and> lastDispatchPtr (readState (transport s)) = 0"
  shows "file_of (transport (writer_start s)) = file_of (transport s) \<and>
    (hasIOError (writer_start s) \<longleftrightarrow> \<not> intact (chunkSize (transport s)) (maxEventSize (transport s)) (file_of (transport s)) (last_chunk (transport s))) \<and>
    (\<not> hasIOError (writer_start s) \<longrightarrow> offset (transport (writer_start s)) = length (file_of (transport s)))"
proof -
  let ?t = "transport s"
  have "(\<exists>u. seekToEnd ?t = (Inr (), u) \<and> file_of u = file_of ?t \<and> offset u + lastDispatchPtr (readState u) = length (file_of ?t) \<and>
      intact (chunkSize ?t) (maxEventSize ?t) (file_of ?t) (last_chunk ?t)) \<or>
    (\<exists>e u. seekToEnd ?t = (Inl e, u) \<and> file_of u = file_of ?t \<and> \<not> intact (chunkSize ?t) (maxEventSize ?t) (file_of ?t) (last_chunk ?t))"
  proof (cases "file_of ?t = []")
    case True
    then have "seekToEnd ?t = (Inr (), ?t)" using op by (intro seekToEnd_empty) (simp_all add: openable_def)
    moreover have "last_chunk ?t = length (file_of ?t)" using True by (simp add: last_chunk_def)
    ultimately show ?thesis using True new intact_at_end [of _ _ "file_of ?t"] by simp
  qed (rule seekToEnd_any [OF op _ no_retry])
  then show ?thesis
  proof (elim disjE exE conjE)
    fix u
    assume u: "seekToEnd ?t = (Inr (), u)" "file_of u = file_of ?t" "offset u + lastDispatchPtr (readState u) = length (file_of ?t)"
      "intact (chunkSize ?t) (maxEventSize ?t) (file_of ?t) (last_chunk ?t)"
    then have "writer_start s = s\<lparr>transport := throw_away_partial u, unflushed := 0, writer_pc := Round\<rparr>"
      by (simp add: writer_start_def)
    with u io show ?thesis by (simp add: throw_away_partial_def truncate_to_def Let_def)
  next
    fix e u
    assume "seekToEnd ?t = (Inl e, u)" "file_of u = file_of ?t" "\<not> intact (chunkSize ?t) (maxEventSize ?t) (file_of ?t) (last_chunk ?t)"
    then show ?thesis by (simp add: writer_start_def)
  qed
qed

end
