(* ===== verification/FileLogging.thy ===== *)
theory FileLogging
  imports FileSeek
begin

text \<open>
  Whole runs of a logger whose writes succeed: nothing is lost, nothing is out of order, and a flush
  is over only when everything is in the file.
\<close>

section \<open>What has not been written yet\<close>

definition payload :: "event_info \<Rightarrow> bytes" where
  "payload e = (case eventBuff e of None \<Rightarrow> [] | Some b \<Rightarrow> drop 4 b)"

definition in_hand :: "file_logger \<Rightarrow> event_info list" where
  "in_hand s = (case writer_pc s of Holding e \<Rightarrow> [e] | _ \<Rightarrow> [])"

definition queued :: "file_logger \<Rightarrow> event_info list" where
  "queued s = in_hand s @ drop (readPoint (dequeueBuffer s)) (buffer_events (dequeueBuffer s)) @ buffer_events (enqueueBuffer s)"

definition small :: "bytes \<Rightarrow> bool" where
  "small b \<longleftrightarrow> length b + 4 < 2 ^ 32"

lemma payload_log_event [simp]: "payload (log_event b) = b"
  by (simp add: payload_def log_event_def)

definition place_ok :: "file_transport \<Rightarrow> bool" where
  "place_ok t \<longleftrightarrow> offset t = length (file_of t) \<and> fpos (disk t) = length (file_of t)"

section \<open>Writing one event\<close>

lemma healthy_answers: "\<forall>n. healthy_disk n (ans n) \<Longrightarrow> ans = Some"
  by (auto simp: healthy_disk_def)

lemma log_bytes_healthy:
  assumes "place_ok (transport s)"
  shows "\<exists>t u. log_bytes Some bs s = s\<lparr>transport := t, unflushed := u\<rparr> \<and> place_ok t \<and> file_of t = file_of (transport s) @ bs \<and>
    chunkSize t = chunkSize (transport s) \<and> maxEventSize t = maxEventSize (transport s)"
  using assms
  by (intro exI [of _ "(transport s)\<lparr>offset := offset (transport s) + length bs, disk := append_file bs (disk (transport s))\<rparr>"]
      exI [of _ "u32 (unflushed s + length bs)"]) (simp add: log_bytes_def upd_transport_def append_file_def place_ok_def)

lemma pad_chunk_healthy:
  assumes pl: "place_ok (transport s)" and c: "chunkSize (transport s) = c" "0 < c" "c < 2 ^ 31"
    and n: "0 < n" "n \<le> c" and lo: "log_of c mx (file_of (transport s)) ws"
  shows "\<exists>t u. pad_chunk Some n s = (Inr (), s\<lparr>transport := t, unflushed := u\<rparr>) \<and> place_ok t \<and> log_of c mx (file_of t) ws \<and>
    length (file_of t) div c = (length (file_of t) + n - 1) div c \<and>
    chunkSize t = c \<and> maxEventSize t = maxEventSize (transport s)"
proof -
  let ?t = "transport s" and ?n = "length (file_of (transport s))"
  show ?thesis
  proof (cases "?n div c = (?n + n - 1) div c")
    case True
    have "pad_chunk Some n s = (Inr (), s)" using True pl c(1) by (simp add: pad_chunk_def Let_def place_ok_def)
    then show ?thesis using True pl c(1) lo by (intro exI [of _ ?t] exI [of _ "unflushed s"]) simp
  next
    case False
    define p where "p = c - ?n mod c"
    have len: "?n + p = Suc (?n div c) * c" unfolding p_def by (rule pad_end [OF c(2)])
    have pe: "(?n div c + 1) * c - ?n = p" using len by simp
    have s32: "s32 (u32 p) = int p" using c(3) by (simp add: s32_def p_def)
    have step: "pad_chunk Some n s = (Inr (), log_bytes Some (replicate p 0) s)"
  proof -
      have pos: "offset ?t = ?n" "fpos (disk ?t) = ?n" using pl by (simp_all add: place_ok_def)
      then have "upd_transport (\<lambda>t. t\<lparr>offset := ?n\<rparr>) s = s" by (simp add: upd_transport_def)
      then show ?thesis using False c(2) s32 unfolding pad_chunk_def Let_def c(1) pos pe by simp
    qed
    from log_bytes_healthy [OF pl, of "replicate p 0"] obtain t u where
      t: "log_bytes Some (replicate p 0) s = s\<lparr>transport := t, unflushed := u\<rparr>" "place_ok t" "file_of t = file_of ?t @ replicate p 0"
        "chunkSize t = chunkSize ?t" "maxEventSize t = maxEventSize ?t" by blast
    have "length (file_of t) = Suc (?n div c) * c" using t(3) len by simp
    moreover from this have "(length (file_of t) + n - 1) div c = Suc (?n div c)"
      using n c(2) by (intro div_nat_eqI) (simp_all add: algebra_simps)
    ultimately have "length (file_of t) div c = (length (file_of t) + n - 1) div c" using c(2) by simp
    moreover have "log_of c mx (file_of t) ws" using log_pad [OF lo] t(3) by (simp add: p_def)
    ultimately show ?thesis using step t c(1) by auto
  qed
qed

lemma write_event_healthy:
  assumes pl: "place_ok (transport s)" and c: "chunkSize (transport s) = c" "0 < c" "c < 2 ^ 31" and mx: "maxEventSize (transport s) = mx"
    and io: "\<not> hasIOError s" and lo: "log_of c mx (file_of (transport s)) ws" and b: "small b" "b \<noteq> []"
  shows "\<exists>t u. write_event Some Some (log_event b) s = (Inr (), s\<lparr>transport := t, unflushed := u, writer_pc := Draining\<rparr>) \<and>
    place_ok t \<and> chunkSize t = c \<and> maxEventSize t = mx \<and> log_of c mx (file_of t) (ws @ filter (fits c mx) [b])"
proof -
  let ?n = "length b + 4" and ?s = "s\<lparr>writer_pc := Draining\<rparr>"
  have size: "eventSize (log_event b) = ?n" using b(1) by (simp add: log_event_def small_def)
  have buf: "take ?n (case eventBuff (log_event b) of None \<Rightarrow> [] | Some x \<Rightarrow> x) = le_bytes 4 (length b) @ b"
    by (simp add: log_event_def)
  show ?thesis
  proof (cases "mx > 0 \<and> ?n > mx \<or> ?n > c")
    case True
    then have "write_event Some Some (log_event b) s = (Inr (), ?s)"
      using c(1,2) mx size by (auto simp: write_event_def Let_def)
    moreover have "\<not> fits c mx b" using True by (auto simp: fits_def)
    ultimately show ?thesis using pl c mx lo
      by (intro exI [of _ "transport s"] exI [of _ "unflushed s"]) simp
  next
    case False
    then have n: "0 < ?n" "?n \<le> c" by simp_all
    from pad_chunk_healthy [of ?s c ?n mx ws] obtain t u where t: "pad_chunk Some ?n ?s = (Inr (), ?s\<lparr>transport := t, unflushed := u\<rparr>)"
        "place_ok t" "log_of c mx (file_of t) ws" "length (file_of t) div c = (length (file_of t) + ?n - 1) div c"
        "chunkSize t = c" "maxEventSize t = maxEventSize (transport ?s)"
      using pl c n lo by auto
    from log_bytes_healthy [of "?s\<lparr>transport := t, unflushed := u\<rparr>" "le_bytes 4 (length b) @ b"] t(2) obtain t' u' where
      t': "log_bytes Some (le_bytes 4 (length b) @ b) (?s\<lparr>transport := t, unflushed := u\<rparr>) =
          ?s\<lparr>transport := t, unflushed := u\<rparr>\<lparr>transport := t', unflushed := u'\<rparr>" "place_ok t'"
          "file_of t' = file_of t @ le_bytes 4 (length b) @ b" "chunkSize t' = chunkSize t" "maxEventSize t' = maxEventSize t" by auto
    have "write_event Some Some (log_event b) s = (Inr (), ?s\<lparr>transport := t', unflushed := u'\<rparr>)"
      using False c(1) mx size t(1) t'(1) buf io by (auto simp: write_event_def Let_def bindT_def modify_def)
    moreover have "log_of c mx (file_of t') (ws @ filter (fits c mx) [b])"
    proof -
      have "fits c mx b" using False b(2) by (auto simp: fits_def)
      then show ?thesis using log_event [OF t(3)] t(4) t'(3) b by (simp add: small_def add.assoc)
    qed
    ultimately show ?thesis using t t' mx c by (intro exI [of _ t'] exI [of _ u']) simp
  qed
qed

end
