(* ===== verification/FileRuns.thy ===== *)
theory FileRuns
  imports FileLogging
begin

text \<open>The invariant of a logger whose writes succeed, kept by every step of every thread.\<close>

section \<open>The invariant of the runs\<close>

definition begins_well :: "nat \<Rightarrow> nat \<Rightarrow> file_transport \<Rightarrow> bool" where
  "begins_well c mx t \<longleftrightarrow> openable t \<and>
     (file_of t = [] \<longrightarrow> offset t = 0 \<and> lastDispatchPtr (readState t) = 0 \<and> fpos (disk t) = 0)"

definition at_rest :: "file_logger \<Rightarrow> bool" where
  "at_rest s \<longleftrightarrow> writer_pc s \<noteq> Draining \<and> (\<forall>e. writer_pc s \<noteq> Holding e)"

definition log_inv :: "nat \<Rightarrow> nat \<Rightarrow> bytes list \<Rightarrow> bytes list \<Rightarrow> file_logger \<Rightarrow> bool" where
  "log_inv c mx old es s \<longleftrightarrow> 0 < c \<and> c < 2 ^ 31 \<and> chunkSize (transport s) = c \<and> maxEventSize (transport s) = mx \<and> \<not> hasIOError s \<and>
     (if writer_pc s \<in> {NotStarted, Starting} then begins_well c mx (transport s) else place_ok (transport s)) \<and>
     (writer_pc s = NotStarted \<longrightarrow> \<not> forceFlush s) \<and>
     readPoint (enqueueBuffer s) = 0 \<and> readPoint (dequeueBuffer s) \<le> length (buffer_events (dequeueBuffer s)) \<and>
     length (buffer_events (enqueueBuffer s)) \<le> buffer_size (enqueueBuffer s) \<and>
     length (buffer_events (dequeueBuffer s)) \<le> buffer_size (dequeueBuffer s) \<and>
     (at_rest s \<longrightarrow> buffer_events (dequeueBuffer s) = []) \<and>
     (writer_pc s = NotStarted \<longrightarrow> buffer_events (enqueueBuffer s) = []) \<and>
     (writer_pc s = Syncing True \<longrightarrow> forceFlush s \<and> buffer_events (enqueueBuffer s) = []) \<and>
     (\<forall>e\<in>set (queued s). \<exists>b. e = log_event b \<and> small b \<and> b \<noteq> []) \<and>
     (\<exists>ws. log_of c mx (file_of (transport s)) ws \<and>
        old @ filter (fits c mx) es = ws @ filter (fits c mx) (map payload (queued s)))"

lemmas log_inv_intro = log_inv_def [THEN iffD2]

lemma queued_at_rest: "log_inv c mx old es s \<Longrightarrow> at_rest s \<Longrightarrow> queued s = buffer_events (enqueueBuffer s)"
  by (auto simp: log_inv_def queued_def in_hand_def at_rest_def split: writer_at.splits)

lemma new_event_buffer [simp]: "buffer_events (new_TFileTransportBuffer n) = []" "readPoint (new_TFileTransportBuffer n) = 0"
  by (simp_all add: new_TFileTransportBuffer_def)

lemma buffer_reset_simps [simp]: "buffer_events (buffer_reset b) = []" "readPoint (buffer_reset b) = 0"
  by (simp_all add: buffer_reset_def)

text \<open>A step that moves no event.\<close>

lemma log_inv_move:
  assumes "log_inv c mx old es s" and "transport t = transport s" and "hasIOError t = hasIOError s"
    and "queued t = queued s" and "writer_pc s \<notin> {NotStarted, Starting}" and "writer_pc t \<notin> {NotStarted, Starting}"
    and "readPoint (enqueueBuffer t) = 0" and "readPoint (dequeueBuffer t) \<le> length (buffer_events (dequeueBuffer t))"
    and "length (buffer_events (enqueueBuffer t)) \<le> buffer_size (enqueueBuffer t)"
    and "length (buffer_events (dequeueBuffer t)) \<le> buffer_size (dequeueBuffer t)"
    and "at_rest t \<Longrightarrow> buffer_events (dequeueBuffer t) = []"
    and "writer_pc t = Syncing True \<Longrightarrow> forceFlush t \<and> buffer_events (enqueueBuffer t) = []"
  shows "log_inv c mx old es t"
  using assms by (simp add: log_inv_def)

lemma init_inv: "log_inv c mx old es s \<Longrightarrow> log_inv c mx old es (initBufferAndWriteThread s)"
  by (auto simp: initBufferAndWriteThread_def log_inv_def at_rest_def queued_def in_hand_def)

lemma file_write_inv:
  assumes inv: "log_inv c mx old es s" and cl: "\<not> closing s" and w: "file_write buf s = (Inr r, t)" and sm: "r \<Longrightarrow> small buf"
  shows "log_inv c mx old (if r then es @ [buf] else es) t"
proof -
  let ?s = "initBufferAndWriteThread s"
  have i: "log_inv c mx old es ?s" by (rule init_inv [OF inv])
  have mx: "maxEventSize (transport s) = mx" using inv by (simp add: log_inv_def)
  have dropped: "log_inv c mx old (es @ [buf]) s" if "\<not> fits c mx buf" using inv that by (simp add: log_inv_def)
  have en: "enqueueEvent buf s = (Inr r, t)" using w by (auto simp: file_write_def split: if_splits)
  consider (big) "mx > 0" "length buf > mx" | (empty) "buf = []" | (full) "isFull (enqueueBuffer ?s)"
    | (put) "\<not> (mx > 0 \<and> length buf > mx)" "buf \<noteq> []" "\<not> isFull (enqueueBuffer ?s)" by blast
  then show ?thesis
  proof cases
    case put
    then have nf: "\<not> forceFlush ?s" "r" "t = ?s\<lparr>enqueueBuffer := snd (addEvent (log_event buf) (enqueueBuffer ?s))\<rparr>"
      using en cl mx by (auto simp: enqueueEvent_def Let_def split: if_splits)
    let ?b = "(enqueueBuffer ?s)\<lparr>buffer_events := buffer_events (enqueueBuffer ?s) @ [log_event buf]\<rparr>"
    have t: "t = ?s\<lparr>enqueueBuffer := ?b\<rparr>" and room: "length (buffer_events (enqueueBuffer ?s)) < buffer_size (enqueueBuffer ?s)"
      using nf(3) put(3) i by (auto simp: addEvent_def isFull_def log_inv_def)
    have pc: "writer_pc ?s \<noteq> NotStarted" by (simp add: initBufferAndWriteThread_def)
    have q: "queued t = queued ?s @ [log_event buf]" by (simp add: t queued_def in_hand_def)
    have tr: "transport t = transport ?s" by (simp add: t)
    have r: "at_rest t = at_rest ?s" by (simp add: t at_rest_def)
    obtain ws where "log_of c mx (file_of (transport ?s)) ws"
        "old @ filter (fits c mx) es = ws @ filter (fits c mx) (map payload (queued ?s))"
      using i by (auto simp: log_inv_def)
    then have "\<exists>ws. log_of c mx (file_of (transport t)) ws \<and>
        old @ filter (fits c mx) (es @ [buf]) = ws @ filter (fits c mx) (map payload (queued t))"
      by (intro exI [of _ ws]) (simp add: tr q flip: append_assoc)
    moreover have "\<forall>e\<in>set (queued t). \<exists>b. e = log_event b \<and> small b \<and> b \<noteq> []"
      using i sm [OF nf(2)] put(2) by (auto simp: q log_inv_def)
    ultimately show ?thesis using i nf(1,2) pc room unfolding log_inv_def r by (simp add: t)
  qed (use dropped en cl mx inv i in \<open>auto simp: enqueueEvent_def Let_def fits_def split: if_splits\<close>)
qed


lemma writer_start_inv:
  assumes inv: "log_inv c mx old es s" and pc: "writer_pc s = Starting"
  shows "log_inv c mx old es (writer_start s)"
proof -
  let ?t = "transport s"
  have b: "openable ?t" "file_of ?t = [] \<Longrightarrow> offset ?t = 0 \<and> lastDispatchPtr (readState ?t) = 0 \<and> fpos (disk ?t) = 0"
    and c: "chunkSize ?t = c" "maxEventSize ?t = mx" "\<not> hasIOError s" "0 < c"
    using inv pc by (simp_all add: log_inv_def begins_well_def)
  obtain ws where ws: "log_of c mx (file_of ?t) ws" using inv by (auto simp: log_inv_def)
  have "last_chunk ?t \<le> length (file_of ?t)" "last_chunk ?t = length (file_of ?t) div c * c" by (simp_all add: last_chunk_def c(1))
  with log_walk_chunk [OF ws c(4)] obtain es' where "walk c mx (file_of ?t) (last_chunk ?t) es' (length (file_of ?t))" by metis
  from walk_reads_as [OF this refl] have "reads_as (chunkSize ?t) (maxEventSize ?t) (file_of ?t) (last_chunk ?t) es'" using c by simp
  with writer_start_ok [of s es'] b c obtain t where t: "writer_start s = s\<lparr>transport := t, unflushed := 0, writer_pc := Round\<rparr>"
      "file_of t = file_of ?t" "offset t = length (file_of ?t)" "fpos (disk t) = length (file_of ?t)"
      "chunkSize t = chunkSize ?t" "maxEventSize t = maxEventSize ?t" by auto
  have "queued (writer_start s) = queued s" using pc by (simp add: t(1) queued_def in_hand_def)
  then show ?thesis using inv pc t(2-6) unfolding t(1) log_inv_def
    by (auto simp: place_ok_def at_rest_def)
qed

lemma swap_buffers_inv:
  assumes inv: "log_inv c mx old es s" and pc: "writer_pc s \<in> {Round, Sleeping}"
  shows "log_inv c mx old es (swap_buffers s)"
proof -
  have "at_rest s" using pc by (auto simp: at_rest_def)
  then have "buffer_events (dequeueBuffer s) = []" "readPoint (dequeueBuffer s) = 0" "readPoint (enqueueBuffer s) = 0"
    using inv by (auto simp: log_inv_def)
  moreover from this pc have "queued (swap_buffers s) = queued s"
    by (auto simp: queued_def in_hand_def swap_buffers_def)
  ultimately show ?thesis using inv pc
    by (intro log_inv_move [OF inv]) (auto simp: swap_buffers_def log_inv_def at_rest_def)
qed

lemma quiet_move:
  assumes inv: "log_inv c mx old es s" and pc: "writer_pc s \<notin> {NotStarted, Starting}" and r: "at_rest s"
    and to: "p \<in> {Round, Sleeping, Deciding, Syncing False, Exited} \<or> p = Syncing True \<and> forceFlush s \<and> buffer_events (enqueueBuffer s) = []"
  shows "log_inv c mx old es (s\<lparr>writer_pc := p\<rparr>)"
proof -
  have "queued (s\<lparr>writer_pc := p\<rparr>) = queued s" using r to by (auto simp: queued_def in_hand_def at_rest_def split: writer_at.split)
  then show ?thesis using inv pc r to by (intro log_inv_move [OF inv]) (auto simp: log_inv_def at_rest_def)
qed

lemma writer_round_inv:
  assumes inv: "log_inv c mx old es s" and pc: "writer_pc s = Round"
  shows "log_inv c mx old es (writer_round s)"
proof -
  have r: "at_rest s" "writer_pc s \<notin> {NotStarted, Starting}" "\<not> hasIOError s"
    using pc inv by (simp_all add: at_rest_def log_inv_def)
  note q = quiet_move [OF inv r(2,1)]
  have "log_inv c mx old es (upd_transport (\<lambda>t. t\<lparr>fd_open := False\<rparr>) (s\<lparr>writer_pc := Exited\<rparr>))"
    using q [of Exited] by (auto simp: log_inv_def upd_transport_def queued_def in_hand_def at_rest_def place_ok_def)
  then show ?thesis using r(3) q [of Deciding] q [of Sleeping] swap_buffers_inv [OF inv] pc
    by (simp add: writer_round_def swapEventBuffers_def)
qed

lemma drain_next_inv:
  assumes inv: "log_inv c mx old es s" and pc: "writer_pc s = Draining"
  shows "log_inv c mx old es (drain_next s)"
proof (cases "readPoint (dequeueBuffer s) < length (buffer_events (dequeueBuffer s))")
  case True
  let ?b = "(dequeueBuffer s)\<lparr>bufferMode := READ, readPoint := readPoint (dequeueBuffer s) + 1\<rparr>"
  let ?s = "s\<lparr>dequeueBuffer := ?b, writer_pc := Holding (buffer_events (dequeueBuffer s) ! readPoint (dequeueBuffer s))\<rparr>"
  have d: "drain_next s = ?s" using True by (simp add: drain_next_def getNext_def Let_def)
  have "queued ?s = queued s"
    using True pc by (simp add: queued_def in_hand_def Cons_nth_drop_Suc)
  then show ?thesis using inv pc True unfolding d
    by (intro log_inv_move [OF inv]) (simp_all add: log_inv_def at_rest_def)
next
  case False
  let ?s = "s\<lparr>dequeueBuffer := buffer_reset ((dequeueBuffer s)\<lparr>bufferMode := READ\<rparr>), writer_pc := Deciding\<rparr>"
  have d: "drain_next s = ?s" using False by (simp add: drain_next_def getNext_def Let_def)
  have "queued ?s = queued s" using False pc by (simp add: queued_def in_hand_def)
  then show ?thesis using inv pc False unfolding d
    by (intro log_inv_move [OF inv]) (simp_all add: log_inv_def)
qed

lemma write_event_inv:
  assumes inv: "log_inv c mx old es s" and pc: "writer_pc s = Holding e" and io: "\<not> hasIOError s"
    and os: "\<forall>n. healthy_disk n (pad n) \<and> healthy_disk n (ans n)" and w: "write_event pad ans e s = (Inr (), t)"
  shows "log_inv c mx old es t"
proof -
  have pa: "pad = Some" "ans = Some" using os healthy_answers by blast+
  obtain ws where ws: "log_of c mx (file_of (transport s)) ws"
      "old @ filter (fits c mx) es = ws @ filter (fits c mx) (map payload (queued s))" using inv by (auto simp: log_inv_def)
  have "e \<in> set (queued s)" using pc by (simp add: queued_def in_hand_def)
  then obtain b where b: "e = log_event b" "small b" "b \<noteq> []" using inv unfolding log_inv_def by blast
  have p: "place_ok (transport s)" "chunkSize (transport s) = c" "0 < c" "c < 2 ^ 31" "maxEventSize (transport s) = mx"
    using inv pc by (simp_all add: log_inv_def)
  from write_event_healthy [OF p io ws(1) b(2,3)] w obtain t' u where
    t: "t = s\<lparr>transport := t', unflushed := u, writer_pc := Draining\<rparr>" "place_ok t'" "chunkSize t' = c" "maxEventSize t' = mx"
      "log_of c mx (file_of t') (ws @ filter (fits c mx) [b])" by (auto simp: pa b(1))
  have q: "queued s = log_event b # queued t" using pc b(1) by (simp add: t(1) queued_def in_hand_def)
  have "old @ filter (fits c mx) es = (ws @ filter (fits c mx) [b]) @ filter (fits c mx) (map payload (queued t))"
    using ws(2) by (simp add: q)
  then have "\<exists>ws. log_of c mx (file_of (transport t)) ws \<and>
      old @ filter (fits c mx) es = ws @ filter (fits c mx) (map payload (queued t))" using t(1,5) by auto
  moreover have "\<forall>e\<in>set (queued t). \<exists>b. e = log_event b \<and> small b \<and> b \<noteq> []" using inv q by (simp add: log_inv_def)
  ultimately show ?thesis using inv pc t(2-4) unfolding log_inv_def by (simp add: t(1) at_rest_def)
qed

lemma writer_decides_inv:
  assumes inv: "log_inv c mx old es s" and pc: "writer_pc s = Deciding"
  shows "log_inv c mx old es (writer_decides due s)"
proof -
  have r: "at_rest s" "writer_pc s \<notin> {NotStarted, Starting}" using pc by (simp_all add: at_rest_def)
  note q = quiet_move [OF inv r(2,1)]
  show ?thesis
  proof (cases "forceFlush s \<and> isEmpty (enqueueBuffer s)")
    case True
    then show ?thesis using q [of "Syncing True"] q [of Round] by (auto simp: writer_decides_def isEmpty_def)
  next
    case False
    then show ?thesis using q [of "Syncing False"] q [of Round] by (auto simp: writer_decides_def)
  qed
qed

lemma writer_syncs_inv:
  assumes inv: "log_inv c mx old es s" and pc: "writer_pc s = Syncing f" and w: "writer_syncs f s = (Inr (), t)"
  shows "log_inv c mx old es t"
proof -
  have r: "at_rest s" "writer_pc s \<notin> {NotStarted, Starting}" using pc by (simp_all add: at_rest_def)
  have i: "log_inv c mx old es (s\<lparr>writer_pc := Round\<rparr>)" by (rule quiet_move [OF inv r(2,1)]) simp
  have "transport t = transport s" "hasIOError t = hasIOError s" "enqueueBuffer t = enqueueBuffer s"
      "dequeueBuffer t = dequeueBuffer s" "writer_pc t = Round"
    using w by (auto simp: writer_syncs_def Let_def split: if_splits)
  moreover from this have "queued t = queued (s\<lparr>writer_pc := Round\<rparr>)" by (simp add: queued_def in_hand_def)
  ultimately show ?thesis using i r
    by (intro log_inv_move [OF i]) (auto simp: log_inv_def at_rest_def)
qed

lemma log_step_inv:
  assumes "log_step healthy_disk s fs t" and inv: "log_inv c mx old es s" and "\<forall>e\<in>set fs. small e"
  shows "log_inv c mx old (es @ fs) t"
  using assms
proof (induction rule: log_step.cases)
  case (ls_write buf s t)
  then show ?case using file_write_inv [of c mx old es s buf True t] by simp
next
  case (ls_blocked s buf t)
  then show ?case using file_write_inv [of c mx old es s buf False t] by simp
next
  case (ls_flush s)
  then show ?case by (auto simp: file_flush_def log_inv_def queued_def in_hand_def at_rest_def)
next
  case (ls_close s)
  then show ?case by (auto simp: log_inv_def queued_def in_hand_def at_rest_def)
next
  case (ls_wake s)
  then have "log_inv c mx old es (s\<lparr>writer_pc := Deciding\<rparr>)"
    using quiet_move [of c mx old es s Deciding] by (simp add: at_rest_def)
  with ls_wake show ?case using swap_buffers_inv [of c mx old es s] by (simp add: writer_wakes_def)
next
  case (ls_event s e pad ans t)
  then show ?case using write_event_inv by simp
next
  case (ls_start s)
  then show ?case using writer_start_inv by simp
next
  case (ls_round s)
  then show ?case using writer_round_inv by simp
next
  case (ls_drain s)
  then show ?case using drain_next_inv by simp
next
  case (ls_recover s e opened)
  then show ?case by (simp add: log_inv_def)
next
  case (ls_decide s due)
  then show ?case using writer_decides_inv by simp
next
  case (ls_sync s f t)
  then show ?case using writer_syncs_inv by simp
qed

end
