(* ===== verification/FileService.thy ===== *)
theory FileService
  imports FileRuns
begin

text \<open>
  What the file transport promises: readers get what writers wrote, in order, once a flush is over;
  and where it keeps less than its comments promise.
\<close>

section \<open>Loggers and readers\<close>

definition opened_logger :: "nat \<Rightarrow> nat \<Rightarrow> bytes list \<Rightarrow> file_logger \<Rightarrow> bool" where
  "opened_logger c mx old s \<longleftrightarrow> writer_pc s = NotStarted \<and> enqueueBuffer s = new_TFileTransportBuffer 0 \<and>
     dequeueBuffer s = new_TFileTransportBuffer 0 \<and> \<not> hasIOError s \<and> \<not> forceFlush s \<and>
     chunkSize (transport s) = c \<and> maxEventSize (transport s) = mx \<and> 0 < c \<and> c < 2 ^ 31 \<and>
     begins_well c mx (transport s) \<and> log_of c mx (file_of (transport s)) old"

definition configured :: "nat \<Rightarrow> nat \<Rightarrow> nat \<Rightarrow> log_file \<Rightarrow> file_transport" where
  "configured n c mx f = (new_TFileTransport f)\<lparr>readBuffSize := n, chunkSize := c, maxEventSize := mx\<rparr>"

interpretation logger: step_invariant "log_step healthy_disk" "opened_logger c mx old"
    "\<lambda>es s. (\<forall>e\<in>set es. small e) \<longrightarrow> log_inv c mx old es s" for c mx old
proof
  fix s assume "opened_logger c mx old s"
  then show "(\<forall>e\<in>set []. small e) \<longrightarrow> log_inv c mx old [] s"
    by (auto simp: opened_logger_def log_inv_def at_rest_def queued_def in_hand_def new_TFileTransportBuffer_def)
next
  fix es s fs t
  assume "(\<forall>e\<in>set es. small e) \<longrightarrow> log_inv c mx old es s" and "log_step healthy_disk s fs t"
  then show "(\<forall>e\<in>set (es @ fs). small e) \<longrightarrow> log_inv c mx old (es @ fs) t"
    using log_step_inv by auto
qed

lemma configured_ready:
  assumes "0 < n" and "0 < c" and "None \<notin> set (reads f)"
  shows "readable (configured n c mx f)" and "clean (configured n c mx f) 0"
    and "chunkSize (configured n c mx f) = c" and "maxEventSize (configured n c mx f) = mx" and "file_of (configured n c mx f) = contents f"
  using assms by (simp_all add: configured_def new_TFileTransport_def readable_def clean_def reader_ok_def
      resetAllValues_def resetState_def at_pos_def buffer_of_def)

lemma configured_openable:
  assumes "0 < n" and "0 < c" and "None \<notin> set (reads f)" and "length (contents f) div c + 1 < 2 ^ 31"
  shows "openable (configured n c mx f)" and "offset (configured n c mx f) = 0"
    and "fpos (disk (configured n c mx f)) = 0" and "lastDispatchPtr (readState (configured n c mx f)) = 0"
  using assms by (simp_all add: configured_def new_TFileTransport_def openable_def resetAllValues_def resetState_def buffer_of_def)

section \<open>Nothing is lost\<close>

text \<open>
  C13: In every interleaving of callers, flushes, the destructor and the writer thread, on a disk
  whose writes all succeed in full: what a reader gets from the file, followed by the events that
  are still in the buffers or in the hand of the writer thread, is what was in the file at the start
  followed by the events of all calls of \<^verbatim>\<open>write\<close> that have returned, in their order,
  less the events that are silently lost: those too large for a chunk or for the configured maximum
  and the empty ones.
\<close>

theorem log_keeps_events_in_order:
  assumes "opened_logger c mx old s" and "runs (log_step healthy_disk) s es t" and "\<forall>e\<in>set es. small e"
  shows "\<exists>ws. reads_as c mx (file_of (transport t)) 0 ws \<and>
    old @ filter (fits c mx) es = ws @ filter (fits c mx) (map payload (queued t))"
proof -
  have "log_inv c mx old es t" using logger.holds [OF assms(2,1)] assms(3) by blast
  then show ?thesis unfolding log_inv_def by (blast intro: log_reads_as)
qed

text \<open>
  C12: On a disk whose writes all succeed in full, when a flush is over, a new reader of the file,
  with any size of its buffer, with the system giving any number of bytes at each read, gets the
  events of the calls of \<^verbatim>\<open>write\<close> that have returned (after those of the file at the start),
  in their order, and then no event; less the events that \<^verbatim>\<open>write\<close> silently loses: those too
  large for a chunk or for the configured maximum and the empty ones.
\<close>

lemma flush_frame [simp]:
  "forceFlush (initBufferAndWriteThread s) = forceFlush s" "forceFlush (upd_transport g s) = forceFlush s"
  "forceFlush (swap_buffers s) = forceFlush s" "forceFlush (swapEventBuffers s) = forceFlush s"
  "forceFlush (writer_round s) = forceFlush s" "forceFlush (writer_wakes s) = forceFlush s"
  "forceFlush (drain_next s) = forceFlush s" "forceFlush (writer_decides due s) = forceFlush s"
  "forceFlush (writer_start s) = forceFlush s" "forceFlush (recover_io opened s) = forceFlush s"
  "forceFlush (log_bytes ans bs s) = forceFlush s"
  by (simp_all add: initBufferAndWriteThread_def upd_transport_def swap_buffers_def swapEventBuffers_def writer_round_def
      writer_wakes_def drain_next_def getNext_def writer_decides_def writer_start_def recover_io_def log_bytes_def
      split: prod.split sum.split option.split)

lemma pad_chunk_flush: "pad_chunk ans n s = (r, t) \<Longrightarrow> forceFlush t = forceFlush s"
  by (auto simp: pad_chunk_def Let_def split: if_splits)

lemma write_event_flush:
  assumes "write_event pad ans e s = (r, t)"
  shows "forceFlush t = forceFlush s"
proof -
  obtain x u where u: "pad_chunk pad (eventSize e) (s\<lparr>writer_pc := Draining\<rparr>) = (x, u)" by fastforce
  then have "forceFlush u = forceFlush s" by (auto dest: pad_chunk_flush)
  with u assms show ?thesis by (auto simp: write_event_def bindT_def modify_def Let_def split: if_splits sum.splits)
qed

lemma flush_over:
  assumes "log_step healthy_disk t fs u" and "log_inv c mx old es t" and "forceFlush t" and "\<not> forceFlush u"
  shows "fs = [] \<and> queued u = []"
  using assms
proof (induction rule: log_step.cases)
  case (ls_write buf s t)
  then show ?case by (auto simp: file_write_def enqueueEvent_def Let_def split: if_splits)
next
  case (ls_blocked s buf t)
  then show ?case by (auto simp: file_write_def enqueueEvent_def Let_def split: if_splits)
next
  case (ls_event s e pad ans t)
  then show ?case using write_event_flush by simp
next
  case (ls_sync s f t)
  have r: "at_rest s" using ls_sync by (simp add: at_rest_def)
  then have "buffer_events (dequeueBuffer s) = []" using ls_sync by (simp add: log_inv_def)
  with ls_sync show ?case
    by (auto simp: writer_syncs_def Let_def queued_def in_hand_def isEmpty_def split: if_splits)
qed (simp_all add: file_flush_def split: if_splits)

theorem flushed_events_are_read_back:
  assumes "opened_logger c mx old s" and "runs (log_step healthy_disk) s es t" and "\<forall>e\<in>set es. small e"
    and "forceFlush t" and "log_step healthy_disk t fs u" and "\<not> forceFlush u"
    and "contents f = file_of (transport u)" and "None \<notin> set (reads f)" and "0 < n"
  shows "\<exists>r. read_events (length (old @ filter (fits c mx) es) + 1) (configured n c mx f) = (Inr (old @ filter (fits c mx) es), r)"
proof -
  have t: "log_inv c mx old es t" using logger.holds [OF assms(2,1)] assms(3) by blast
  note q = flush_over [OF assms(5) t assms(4,6)]
  have "log_inv c mx old es u" using log_step_inv [OF assms(5) t] q by simp
  then have u: "log_of c mx (contents f) (old @ filter (fits c mx) es)" "0 < c" using q assms(7) by (auto simp: log_inv_def)
  note r = configured_ready [OF assms(9) u(2) assms(8), of mx]
  from read_events_ok [OF r(1,2)] log_reads_as [OF u] show ?thesis unfolding r(3-5) by blast
qed


section \<open>A sample run\<close>

definition sample_file :: "bytes \<Rightarrow> log_file" where
  "sample_file bs = \<lparr>contents = bs, fpos = 0, reads = [Some 1, Some 3], growth = []\<rparr>"

definition sample_logger :: "bytes \<Rightarrow> file_logger" where
  "sample_logger bs = \<lparr>transport = configured 4 16 0 (sample_file bs), enqueueBuffer = new_TFileTransportBuffer 0,
     dequeueBuffer = new_TFileTransportBuffer 0, eventBufferSize = 10, flushMaxBytes = 100, unflushed = 0, readOnly = False,
     closing = False, forceFlush = False, hasIOError = False, writer_pc = NotStarted\<rparr>"

lemma sample_logger_opened: "opened_logger 16 0 [] (sample_logger [])"
  using configured_openable [of 4 16 "sample_file []" 0] configured_ready [of 4 16 "sample_file []" 0]
  by (simp add: opened_logger_def sample_logger_def begins_well_def sample_file_def log_empty)

text \<open>One event is enqueued and a flush requested before the writer thread starts and takes the event.\<close>

definition sample_holding :: "file_transport \<Rightarrow> file_logger" where
  "sample_holding t = \<lparr>transport = t, enqueueBuffer = new_TFileTransportBuffer 10,
     dequeueBuffer = (new_TFileTransportBuffer 10)\<lparr>bufferMode := READ, buffer_events := [log_event [65]], readPoint := 1\<rparr>,
     eventBufferSize = 10, flushMaxBytes = 100, unflushed = 0, readOnly = False,
     closing = False, forceFlush = True, hasIOError = False, writer_pc = Holding (log_event [65])\<rparr>"

lemma sample_run:
  "\<exists>t. runs (log_step os) (sample_logger []) [[65]] (sample_holding t) \<and>
     file_of t = [] \<and> offset t = 0 \<and> fpos (disk t) = 0 \<and> chunkSize t = 16 \<and> maxEventSize t = 0"
proof -
  let ?s0 = "sample_logger []"
  let ?b = "(new_TFileTransportBuffer 10)\<lparr>buffer_events := [log_event [65]]\<rparr>"
  let ?s1 = "?s0\<lparr>enqueueBuffer := ?b, dequeueBuffer := new_TFileTransportBuffer 10, writer_pc := Starting\<rparr>"
  let ?s2 = "?s1\<lparr>forceFlush := True\<rparr>"
  have t0: "transport ?s2 = configured 4 16 0 (sample_file [])" "contents (sample_file []) = []" "None \<notin> set (reads (sample_file []))"
    by (simp_all add: sample_logger_def sample_file_def)
  note ready = configured_ready [of 4 16 "sample_file []" 0] configured_openable [of 4 16 "sample_file []" 0]
  have "file_write [65] ?s0 = (Inr True, ?s1)"
    by (simp add: file_write_def enqueueEvent_def initBufferAndWriteThread_def sample_logger_def Let_def isFull_def
        addEvent_def new_TFileTransportBuffer_def configured_def)
  then have r1: "runs (log_step os) ?s0 [[65]] ?s1" by (intro runs_one ls_write) (simp_all add: sample_logger_def)
  have "file_flush ?s1 = ?s2" by (simp add: file_flush_def)
  with runs_step [OF r1 ls_flush] have r2: "runs (log_step os) ?s0 [[65]] ?s2" by simp
  from writer_start_ok [of ?s2] t0 ready obtain t where t: "writer_start ?s2 = ?s2\<lparr>transport := t, unflushed := 0, writer_pc := Round\<rparr>"
      "file_of t = []" "offset t = 0" "fpos (disk t) = 0" "chunkSize t = 16" "maxEventSize t = 0"
    by (auto simp: sample_logger_def)
  let ?s3 = "?s2\<lparr>transport := t, unflushed := 0, writer_pc := Round\<rparr>"
  let ?s4 = "?s3\<lparr>enqueueBuffer := new_TFileTransportBuffer 10, dequeueBuffer := ?b, writer_pc := Draining\<rparr>"
  have s3: "log_step os ?s2 [] ?s3" using ls_start [of ?s2] t(1) by simp
  have s4: "log_step os ?s3 [] ?s4"
    using ls_round [of ?s3] by (simp add: writer_round_def swapEventBuffers_def swap_buffers_def isEmpty_def sample_logger_def)
  have s5: "log_step os ?s4 [] (sample_holding t)"
    using ls_drain [of ?s4] by (simp add: drain_next_def getNext_def sample_holding_def new_TFileTransportBuffer_def sample_logger_def Let_def)
  note q = runs_quiet [where step = "log_step os"]
  have "runs (log_step os) ?s0 [[65]] (sample_holding t)"
    by (rule q [OF q [OF q [OF r2 s3] s4] s5])
  with t show ?thesis by blast
qed


definition sample_drained :: "file_transport \<Rightarrow> nat \<Rightarrow> bool \<Rightarrow> writer_at \<Rightarrow> file_logger" where
  "sample_drained t u err pc = (sample_holding t)\<lparr>dequeueBuffer := new_TFileTransportBuffer 10, unflushed := u,
     hasIOError := err, writer_pc := pc\<rparr>"

lemma sample_written:
  assumes "offset t = 0" and "fpos (disk t) = 0" and "chunkSize t = 16" and "maxEventSize t = 0" and "file_of t = []"
    and "\<forall>n. os n (ans n)" and "runs (log_step os) s es (sample_holding t)"
  shows "\<exists>t' u. runs (log_step os) s es (sample_drained t' u (ans 5 = None) Deciding) \<and>
    (ans 5 = Some 5 \<longrightarrow> file_of t' = [1, 0, 0, 0, 65] \<and> transport (sample_drained t' u False Deciding) = t')"
proof -
  let ?b = "dequeueBuffer (sample_holding t)"
  have le: "le_bytes 4 (Suc 0) = [1, 0, 0, 0]" by code_simp
  let ?s0 = "(sample_holding t)\<lparr>writer_pc := Draining\<rparr>" and ?bs = "[1, 0, 0, 0, 65] :: bytes"
  have ev: "eventSize (log_event [65]) = 5" "eventBuff (log_event [65]) = Some ?bs" "take 5 ?bs = ?bs" "length ?bs = 5"
    by (simp_all add: log_event_def le)
  have tr: "transport ?s0 = t" "transport (sample_holding t) = t" "\<not> hasIOError ?s0" by (simp_all add: sample_holding_def)
  have "pad_chunk ans 5 ?s0 = (Inr (), ?s0)" unfolding pad_chunk_def Let_def tr(1) assms(1,3) by simp
  then have w: "write_event ans ans (log_event [65]) (sample_holding t) = (Inr (), log_bytes ans ?bs ?s0)"
    using tr(3) by (simp add: write_event_def tr(2) assms(3,4) ev bindT_def modify_def Let_def)
  obtain t' u where lb: "log_bytes ans ?bs ?s0 =
      (sample_holding t)\<lparr>transport := t', unflushed := u, hasIOError := (ans 5 = None), writer_pc := Draining\<rparr>"
      and f: "ans 5 = Some 5 \<longrightarrow> file_of t' = ?bs"
  proof (cases "ans 5")
    case None
    have "log_bytes ans ?bs ?s0 = ?s0\<lparr>hasIOError := True\<rparr>" unfolding log_bytes_def ev(4) None by simp
    then show ?thesis using None by (intro that [of 0 t]) (simp_all add: sample_holding_def)
  next
    case (Some k)
    let ?t = "t\<lparr>offset := 5, disk := append_file (take k ?bs) (disk t)\<rparr>"
    have "log_bytes ans ?bs ?s0 = ?s0\<lparr>unflushed := 5, transport := ?t\<rparr>"
      unfolding log_bytes_def ev(4) Some option.case upd_transport_def using assms(1) by (simp add: sample_holding_def)
    moreover have "k = 5 \<longrightarrow> file_of ?t = ?bs" using assms(5) by (simp add: append_file_def)
    ultimately show ?thesis using Some by (intro that [of 5 ?t]) (simp_all add: sample_holding_def)
  qed
  note w = w [unfolded lb]
  let ?s1 = "(sample_holding t)\<lparr>transport := t', unflushed := u, hasIOError := (ans 5 = None), writer_pc := Draining\<rparr>"
  let ?s2 = "sample_drained t' u (ans 5 = None) Deciding"
  have s1: "log_step os (sample_holding t) [] ?s1"
    by (rule ls_event [OF _ _ _ w]) (use assms(6) in \<open>simp_all add: sample_holding_def\<close>)
  have s2: "log_step os ?s1 [] ?s2"
    using ls_drain [of ?s1] by (simp add: drain_next_def getNext_def sample_holding_def sample_drained_def buffer_reset_def new_TFileTransportBuffer_def)
  note q = runs_quiet [where step = "log_step os"]
  have "runs (log_step os) s es ?s2" by (rule q [OF q [OF assms(7) s1] s2])
  then show ?thesis using f by (auto simp: sample_drained_def sample_holding_def)
qed

lemma sample_flush:
  "\<exists>t u. runs (log_step healthy_disk) (sample_logger []) [[65]] t \<and> forceFlush t \<and> log_step healthy_disk t [] u \<and>
     \<not> forceFlush u \<and> file_of (transport u) = [1, 0, 0, 0, 65]"
proof -
  obtain t where t: "runs (log_step healthy_disk) (sample_logger []) [[65]] (sample_holding t)" "file_of t = []" "offset t = 0"
      "fpos (disk t) = 0" "chunkSize t = 16" "maxEventSize t = 0" using sample_run by blast
  from sample_written [OF t(3-6,2) _ t(1), of Some] obtain t' u where
    r: "runs (log_step healthy_disk) (sample_logger []) [[65]] (sample_drained t' u False Deciding)" "file_of t' = [1, 0, 0, 0, 65]"
    by (auto simp: healthy_disk_def)
  let ?s1 = "sample_drained t' u False (Syncing True)" and ?s2 = "sample_drained t' u False (Syncing True)\<lparr>unflushed := 0, writer_pc := Round, forceFlush := False\<rparr>"
  have "log_step healthy_disk (sample_drained t' u False Deciding) [] ?s1"
    using ls_decide [of "sample_drained t' u False Deciding" healthy_disk False]
    by (simp add: writer_decides_def sample_drained_def sample_holding_def isEmpty_def new_TFileTransportBuffer_def)
  then have r1: "runs (log_step healthy_disk) (sample_logger []) [[65]] ?s1" by (rule runs_quiet [where step = "log_step healthy_disk", OF r(1)])
  have "log_step healthy_disk ?s1 [] ?s2"
    by (rule ls_sync [of _ True]) (simp_all add: writer_syncs_def sample_drained_def sample_holding_def isEmpty_def new_TFileTransportBuffer_def)
  then show ?thesis using r1 r(2)
    by (intro exI [of _ ?s1] exI [of _ ?s2]) (simp add: sample_drained_def sample_holding_def)
qed

theorem flushed_events_are_read_back_witness:
  "opened_logger 16 0 [] (sample_logger []) \<and> (\<exists>r. read_events 2 (configured 4 16 0 (sample_file [1, 0, 0, 0, 65])) = (Inr [[65]], r))"
proof -
  obtain t u where r: "runs (log_step healthy_disk) (sample_logger []) [[65]] t" "forceFlush t" "log_step healthy_disk t [] u"
      "\<not> forceFlush u" "file_of (transport u) = [1, 0, 0, 0, 65]" using sample_flush by blast
  have "\<exists>r. read_events (length ([] @ filter (fits 16 0) [[65]]) + 1) (configured 4 16 0 (sample_file [1, 0, 0, 0, 65])) =
      (Inr ([] @ filter (fits 16 0) [[65]]), r)"
    by (rule flushed_events_are_read_back [OF sample_logger_opened r(1) _ r(2-4)]) (simp_all add: r(5) sample_file_def small_def)
  then show ?thesis using sample_logger_opened by (simp add: fits_def numeral_2_eq_2)
qed

theorem log_keeps_events_in_order_witness:
  "\<exists>t ws. runs (log_step healthy_disk) (sample_logger []) [[65]] t \<and> reads_as 16 0 (file_of (transport t)) 0 ws \<and>
     [[65]] = ws @ filter (fits 16 0) (map payload (queued t))"
proof -
  obtain t where r: "runs (log_step healthy_disk) (sample_logger []) [[65]] (sample_holding t)" using sample_run by blast
  from log_keeps_events_in_order [OF sample_logger_opened r] r show ?thesis by (auto simp: fits_def small_def)
qed

section \<open>A flush after an I/O error\<close>

text \<open>The writer thread after an I/O error at the last event of its buffer, with a flush requested.\<close>

definition flush_stuck :: "file_logger \<Rightarrow> bool" where
  "flush_stuck s \<longleftrightarrow> hasIOError s \<and> forceFlush s \<and> isEmpty (enqueueBuffer s) \<and> isEmpty (dequeueBuffer s) \<and>
     writer_pc s \<in> {Round, Sleeping, Draining, Deciding, Exited}"

lemma flush_stuck_step: "log_step os s fs t \<Longrightarrow> flush_stuck s \<Longrightarrow> flush_stuck t"
proof (induction rule: log_step.induct)
  case (ls_write buf s t)
  then show ?case
    by (auto simp: flush_stuck_def file_write_def enqueueEvent_def initBufferAndWriteThread_def Let_def split: if_splits)
next
  case (ls_blocked s buf t)
  then show ?case
    by (auto simp: flush_stuck_def file_write_def enqueueEvent_def initBufferAndWriteThread_def Let_def split: if_splits)
qed (auto simp: flush_stuck_def file_flush_def writer_round_def swapEventBuffers_def swap_buffers_def writer_wakes_def
    drain_next_def getNext_def buffer_reset_def writer_decides_def isEmpty_def Let_def)

text \<open>
  C38: A \<^verbatim>\<open>flush\<close> that finds the writer thread with an I/O error and no event to write never
  returns, whatever the threads do after it and however the system answers: the error is only
  cleared when there is an event to write, a flush is only served when there is no error, and while
  a flush waits no event may be enqueued.
\<close>

theorem flush_never_returns_after_io_error:
  assumes "runs (log_step os) s es t" and "flush_stuck s"
  shows "forceFlush t"
proof -
  have "flush_stuck t" using assms by (induction rule: runs.induct) (auto dest: flush_stuck_step)
  then show ?thesis by (simp add: flush_stuck_def)
qed

theorem flush_never_returns_after_io_error_witness:
  "\<exists>s t. runs (log_step posix_disk) (sample_logger []) [[65]] s \<and> flush_stuck s \<and> log_step posix_disk s [] t \<and>
     writer_pc t = Round \<and> forceFlush t"
proof -
  obtain t where t: "runs (log_step posix_disk) (sample_logger []) [[65]] (sample_holding t)" "file_of t = []" "offset t = 0"
      "fpos (disk t) = 0" "chunkSize t = 16" "maxEventSize t = 0" using sample_run by blast
  from sample_written [OF t(3-6,2) _ t(1), of "\<lambda>_. None"] obtain t' u where
    r: "runs (log_step posix_disk) (sample_logger []) [[65]] (sample_drained t' u True Deciding)"
    by (auto simp: posix_disk_def)
  let ?s = "sample_drained t' u True Deciding"
  have st: "flush_stuck ?s" by (simp add: flush_stuck_def sample_drained_def sample_holding_def isEmpty_def new_TFileTransportBuffer_def)
  have s: "log_step posix_disk ?s [] (writer_decides False ?s)" by (rule ls_decide) (simp add: sample_drained_def)
  have "writer_pc (writer_decides False ?s) = Round" by (simp add: writer_decides_def sample_drained_def)
  with r st s flush_never_returns_after_io_error [OF runs_one [where step = "log_step posix_disk", OF s] st] show ?thesis by blast
qed


section \<open>Any block size\<close>

text \<open>
  C37: \<^verbatim>\<open>readEvent\<close> computes the format of the file, for a reader that does not wait for the
  file to grow and whose reads do not fail. At any position between events, with any size of the
  buffer and any number of bytes given by each read, it ends: with the event that \<open>parse_log\<close> finds
  at that position in the whole file, the reader then being behind it; with no event, the reader
  being at the end of the file, where there is none; or with an exception exactly where the next
  event is corrupted. The last is stated where there is nothing to recover to, in the last chunk
  with no corrupted event tolerated; otherwise the next event must not be corrupted.
\<close>

theorem readEvent_parses_the_file:
  assumes "readable s" and "clean s p" and "parse_at s p = Corrupted \<longrightarrow> hopeless s"
  shows "\<exists>r t. readEvent s = (r, t) \<and> file_of t = file_of s \<and> (case r of
      Inl e \<Rightarrow> parse_at s p = Corrupted \<and> e = TTransportException TE_UNKNOWN
    | Inr None \<Rightarrow> parse_at s p = NoEvent \<and> same_setup s t \<and> clean t (length (file_of s))
    | Inr (Some e) \<Rightarrow> \<exists>bs q. parse_at s p = Event bs q \<and> e = complete bs \<and> same_setup s t \<and> clean t q)"
proof -
  from readEvent_at_any [OF assms(1) clean_scanning [OF assms(2)], of 1] assms(3) consider
      (ends) r t where "readEvent s = (Inr r, t)" "found_event s p r t"
    | (fails) e t where "readEvent s = (Inl e, t)" "gave_up s e t" "parse_at s p = Corrupted"
    by (auto simp: readEvent_def numeral_2_eq_2)
  then show ?thesis
  proof cases
    case ends
    then show ?thesis
      by (intro exI [of _ "Inr r"] exI [of _ t]) (auto simp: found_event_def same_setup_def split: option.splits)
  next
    case fails
    then show ?thesis by (intro exI [of _ "Inl e"] exI [of _ t]) (simp add: gave_up_def)
  qed
qed

lemma sample_parse: "parse_log 16 0 [0, 0, 0, 0, 1, 0, 0, 0, 65] 0 = Event [65] 9"
    "parse_log 16 0 [17, 0, 0, 0] 0 = Corrupted"
  by code_simp+

text \<open>An event behind a size of zero, read in blocks of three bytes; and a size beyond the chunk.\<close>

theorem readEvent_parses_the_file_witness:
  "(\<exists>t. readEvent (configured 3 16 0 (sample_file [0, 0, 0, 0, 1, 0, 0, 0, 65])) = (Inr (Some (complete [65])), t) \<and> clean t 9) \<and>
   fst (readEvent (configured 3 16 0 (sample_file [17, 0, 0, 0]))) = Inl (TTransportException TE_UNKNOWN)"
proof
  let ?s = "configured 3 16 0 (sample_file [0, 0, 0, 0, 1, 0, 0, 0, 65])"
  have r: "readable ?s" "clean ?s 0" by (rule configured_ready; simp add: sample_file_def)+
  have p: "parse_at ?s 0 = Event [65] 9"
    using sample_parse by (simp add: parse_at_def configured_ready sample_file_def)
  obtain x t where x: "readEvent ?s = (x, t)" by fastforce
  with readEvent_parses_the_file [OF r] p
  show "\<exists>t. readEvent ?s = (Inr (Some (complete [65])), t) \<and> clean t 9"
    by (cases x; cases "projr x") simp_all
next
  let ?s = "configured 3 16 0 (sample_file [17, 0, 0, 0])"
  have r: "readable ?s" "clean ?s 0" by (rule configured_ready; simp add: sample_file_def)+
  have p: "parse_at ?s 0 = Corrupted"
    using sample_parse by (simp add: parse_at_def configured_ready sample_file_def)
  have "hopeless ?s" by (simp add: hopeless_def configured_def new_TFileTransport_def sample_file_def)
  moreover obtain x t where "readEvent ?s = (x, t)" by fastforce
  ultimately show "fst (readEvent ?s) = Inl (TTransportException TE_UNKNOWN)"
    using readEvent_parses_the_file [OF r] p by (cases x; cases "projr x") simp_all
qed

section \<open>Partial events\<close>

text \<open>
  C39: The writer thread, which according to its comment throws away any partial events at the end
  of the file it opens, leaves the file as it is: it takes up its work at the end of the file,
  behind the partial event, or, exactly when it finds a corrupted event in the last chunk, with an
  I/O error. This is for every file, an empty one of a transport that has not been used, a file
  with a corrupted last chunk where no corrupted event is tolerated (the default); the reads of the
  start do not fail.
\<close>

theorem writer_start_keeps_partial_event:
  assumes "openable (transport s)" and "\<not> hasIOError s"
    and "intact (chunkSize (transport s)) (maxEventSize (transport s)) (file_of (transport s)) (last_chunk (transport s)) \<or>
      maxCorruptedEvents (transport s) = 0"
    and "file_of (transport s) = [] \<longrightarrow> offset (transport s) = 0 \<and> lastDispatchPtr (readState (transport s)) = 0"
  shows "file_of (transport (writer_start s)) = file_of (transport s) \<and>
    (hasIOError (writer_start s) \<longleftrightarrow>
      \<not> intact (chunkSize (transport s)) (maxEventSize (transport s)) (file_of (transport s)) (last_chunk (transport s))) \<and>
    (\<not> hasIOError (writer_start s) \<longrightarrow> offset (transport (writer_start s)) = length (file_of (transport s)))"
  using writer_start_any [OF assms(1-3)] assms(4) by blast

text \<open>
  At the end of the sample file is an event of three bytes of which one is there. The next event,
  \<open>[81, 82]\<close>, is then read as its rest, and what follows as corrupted.
\<close>

theorem writer_start_keeps_partial_event_witness:
  "reads_as 16 0 [3, 0, 0, 0, 80] 0 [] \<and> file_of (transport (writer_start (sample_logger [3, 0, 0, 0, 80]))) = [3, 0, 0, 0, 80] \<and>
   offset (transport (writer_start (sample_logger [3, 0, 0, 0, 80]))) = 5 \<and>
   parse_log 16 0 ([3, 0, 0, 0, 80] @ le_bytes 4 2 @ [81, 82]) 0 = Event [80, 2, 0] 7 \<and>
   parse_log 16 0 ([3, 0, 0, 0, 80] @ le_bytes 4 2 @ [81, 82]) 7 = Corrupted"
proof -
  let ?s = "sample_logger [3, 0, 0, 0, 80]"
  have "parse_log 16 0 [3, 0, 0, 0, 80] 0 = NoEvent" by code_simp
  then have r: "reads_as 16 0 [3, 0, 0, 0, 80] 0 []" by simp
  have t: "transport ?s = configured 4 16 0 (sample_file [3, 0, 0, 0, 80])" "\<not> hasIOError ?s" by (simp_all add: sample_logger_def)
  have op: "openable (transport ?s)" unfolding t(1) by (rule configured_openable) (simp_all add: sample_file_def)
  have f: "file_of (transport ?s) = [3, 0, 0, 0, 80]" "chunkSize (transport ?s) = 16" "maxEventSize (transport ?s) = 0"
    unfolding t(1) by (simp_all add: configured_ready sample_file_def)
  have l: "last_chunk (transport ?s) = 0" by (simp add: last_chunk_def f)
  have i: "intact 16 0 [3, 0, 0, 0, 80] 0" using r unfolding intact_def by blast
  from writer_start_keeps_partial_event [OF op t(2)] i
  have "file_of (transport (writer_start ?s)) = [3, 0, 0, 0, 80]" "offset (transport (writer_start ?s)) = 5"
    unfolding f l by simp_all
  moreover have "le_bytes 4 2 = [2, 0, 0, 0]" by code_simp
  moreover have "parse_log 16 0 [3, 0, 0, 0, 80, 2, 0, 0, 0, 81, 82] 0 = Event [80, 2, 0] 7"
    by code_simp
  moreover have "parse_log 16 0 [3, 0, 0, 0, 80, 2, 0, 0, 0, 81, 82] 7 = Corrupted"
    by (subst parse_log.simps) (simp add: slice_def corrupted_def)
  ultimately show ?thesis using r by simp
qed

section \<open>Recovery from an I/O error\<close>

definition recovered_file :: log_file where
  "recovered_file = \<lparr>contents = [1, 0, 0, 0, 65], fpos = 0, reads = [], growth = []\<rparr>"

definition recovered_block :: "bytes option \<Rightarrow> nat \<Rightarrow> nat \<Rightarrow> nat \<Rightarrow> bytes \<Rightarrow> event_info option \<Rightarrow> file_transport" where
  "recovered_block b len at at' sz ev = \<lparr>
     readState = \<lparr>rs_event = ev, eventSizeBuff = sz, eventSizeBuffPos = 0,
       readingSize = True, bufferPtr = at, bufferLen = len, lastDispatchPtr = at'\<rparr>,
     readBuff = b, currentEvent = None, readBuffSize = 8, readTimeout = NO_TAIL_READ_TIMEOUT,
     chunkSize = 8, maxEventSize = 0, maxCorruptedEvents = 0, offset = 0, lastBadChunk = 0,
     numCorruptedEventsInChunk = 0, fd_open = True, disk = recovered_file\<lparr>fpos := len\<rparr>\<rparr>"

lemma recovered_refill:
  "refill 0 (alloc_buffer (recovered_block None 0 0 0 [0, 0, 0, 0] None)) =
    (Inr Filled, recovered_block (Some [1, 0, 0, 0, 65, 0, 0, 0]) 5 0 0 [0, 0, 0, 0] None)"
  by (simp add: refill_def alloc_buffer_def recovered_block_def recovered_file_def file_read_def slice_def splice_def buffer_of_def
    numeral_eq_Suc)

lemma recovered_scan: "loop_fuel (Suc (Suc (Suc (Suc (Suc 0))))) (scan_body rd) ()
     (recovered_block (Some [1, 0, 0, 0, 65, 0, 0, 0]) 5 0 0 [0, 0, 0, 0] None) =
    Some (Inr (Some (complete [65])), recovered_block (Some [1, 0, 0, 0, 65, 0, 0, 0]) 5 5 5 [1, 0, 0, 0] None)"
  by code_simp


abbreviation recovered_new :: file_transport where
  "recovered_new \<equiv> recovered_block None 0 0 0 [0, 0, 0, 0] None"

abbreviation recovered_read :: file_transport where
  "recovered_read \<equiv> recovered_block (Some [1, 0, 0, 0, 65, 0, 0, 0]) 5 5 5 [1, 0, 0, 0] None"

lemma recovered_readEvent: "readEvent recovered_new = (Inr (Some (complete [65])), recovered_read)"
proof -
  have "readEvent_body rd 0 (alloc_buffer recovered_new) = (Inr (Inr (Some (complete [65]))), recovered_read)" for rd
    by (simp add: readEvent_body_def bindT_def recovered_refill loop_fuel [OF recovered_scan] leave_with_def)
  from loopT_leave [where body = "readEvent_body (readEvent_at (Suc 0))", OF this] show ?thesis
    by (simp add: readEvent_def numeral_2_eq_2 bindT_def modify_def)
qed

lemma recovered_seek: "seekToEnd recovered_new = (Inr (), recovered_read)"
proof -
  have n: "s32 (getNumChunks recovered_new) = 1"
    by (simp add: getNumChunks_def recovered_block_def recovered_file_def s32_def)
  have "seek_past readEvent 5 () recovered_new = (Inr (Inl ()), recovered_read)"
    using recovered_readEvent by (simp add: seek_past_def bindT_def continue_with_def recovered_block_def)
  moreover have "loopT (seek_past readEvent 5) () recovered_read = (Inr (), recovered_read)"
    by (rule loopT_leave) (simp add: seek_past_def leave_with_def recovered_block_def)
  ultimately have l: "loopT (seek_past readEvent 5) () recovered_new = (Inr (), recovered_read)" by (rule loopT_step) simp
  have s: "recovered_new\<lparr>offset := 0, disk := (disk recovered_new)\<lparr>fpos := 0\<rparr>, readState := resetAllValues (readState recovered_new),
      currentEvent := None, readTimeout := NO_TAIL_READ_TIMEOUT\<rparr> = recovered_new"
    and t: "recovered_read\<lparr>readTimeout := NO_TAIL_READ_TIMEOUT\<rparr> = recovered_read" "readTimeout recovered_new = NO_TAIL_READ_TIMEOUT"
    and f: "length (file_of recovered_new) = 5" "fd_open recovered_new"
    by (simp_all add: recovered_block_def recovered_file_def resetAllValues_def resetState_def)
  show ?thesis unfolding seekToEnd_def seekToChunk_def seekToChunk_with_def n Let_def
    using f by (simp add: bindT_def modify_def s t l)
qed

text \<open>
  A run that leads there. A logger with chunks of eight bytes has the events \<open>E\<close> in the buffer that
  its writer thread takes from, of which \<open>k\<close> have been taken.
\<close>

definition small_log :: "nat \<Rightarrow> bytes \<Rightarrow> file_transport" where
  "small_log at bs = recovered_new\<lparr>offset := at, disk := \<lparr>contents = bs, fpos = length bs, reads = [], growth = []\<rparr>\<rparr>"

definition small_logger :: file_logger where
  "small_logger = \<lparr>transport = configured 8 8 0 \<lparr>contents = [], fpos = 0, reads = [], growth = []\<rparr>,
     enqueueBuffer = new_TFileTransportBuffer 0, dequeueBuffer = new_TFileTransportBuffer 0, eventBufferSize = 10,
     flushMaxBytes = 100, unflushed = 0, readOnly = False, closing = False, forceFlush = False, hasIOError = False,
     writer_pc = NotStarted\<rparr>"

definition small_at :: "file_transport \<Rightarrow> bytes list \<Rightarrow> bytes list \<Rightarrow> nat \<Rightarrow> nat \<Rightarrow> bool \<Rightarrow> writer_at \<Rightarrow> file_logger" where
  "small_at t new E k u err pc = \<lparr>transport = t,
     enqueueBuffer = (new_TFileTransportBuffer 10)\<lparr>buffer_events := map log_event new\<rparr>,
     dequeueBuffer = (new_TFileTransportBuffer 10)\<lparr>bufferMode := (if k = 0 then WRITE else READ), buffer_events := map log_event E,
       readPoint := k\<rparr>,
     eventBufferSize = 10, flushMaxBytes = 100, unflushed = u, readOnly = False, closing = False, forceFlush = False,
     hasIOError = err, writer_pc = pc\<rparr>"

lemma small_fields: "chunkSize (small_log at bs) = 8" "maxEventSize (small_log at bs) = 0" "offset (small_log at bs) = at"
    "fpos (disk (small_log at bs)) = length bs" "contents (disk (small_log at bs)) = bs" "fd_open (small_log at bs)"
  by (simp_all add: small_log_def recovered_block_def)

lemma small_opened: "opened_logger 8 0 [] small_logger"
  using configured_openable [of 8 8 "\<lparr>contents = [], fpos = 0, reads = [], growth = []\<rparr>" 0]
    configured_ready [of 8 8 "\<lparr>contents = [], fpos = 0, reads = [], growth = []\<rparr>" 0]
  by (simp add: opened_logger_def small_logger_def begins_well_def log_empty)

lemma small_write_first: "file_write [65] small_logger = (Inr True, small_at (small_log 0 []) [[65]] [] 0 0 False Starting)"
proof -
  have zeros: "replicate 4 (0 :: u8) = [0, 0, 0, 0]" by (simp add: numeral_eq_Suc)
  have "configured 8 8 0 \<lparr>contents = [], fpos = 0, reads = [], growth = []\<rparr> = small_log 0 []"
    using zeros by (simp add: configured_def small_log_def recovered_block_def recovered_file_def new_TFileTransport_def
        resetAllValues_def resetState_def)
  then show ?thesis
    by (simp add: file_write_def enqueueEvent_def initBufferAndWriteThread_def small_logger_def small_at_def Let_def isFull_def
        addEvent_def new_TFileTransportBuffer_def small_fields)
qed

lemma small_write: "length new < 10 \<Longrightarrow> b \<noteq> [] \<Longrightarrow> file_write b (small_at (small_log at bs) new [] 0 0 False Starting) =
    (Inr True, small_at (small_log at bs) (new @ [b]) [] 0 0 False Starting)"
  by (simp add: file_write_def enqueueEvent_def initBufferAndWriteThread_def small_at_def Let_def isFull_def
      addEvent_def new_TFileTransportBuffer_def small_fields)

lemma small_start: "writer_start (small_at (small_log 0 []) new [] 0 0 False Starting) = small_at (small_log 0 []) new [] 0 0 False Round"
proof -
  have "seekToEnd (small_log 0 []) = (Inr (), small_log 0 [])" by (rule seekToEnd_empty) (simp_all add: small_fields)
  moreover have "throw_away_partial (small_log 0 []) = small_log 0 []"
    by (simp add: throw_away_partial_def truncate_to_def small_log_def recovered_block_def resetAllValues_def resetState_def)
  ultimately show ?thesis by (simp add: writer_start_def small_at_def)
qed

lemma small_round: "E \<noteq> [] \<Longrightarrow> writer_round (small_at t E [] 0 u False Round) = small_at t [] E 0 u False Draining"
  by (simp add: writer_round_def swapEventBuffers_def swap_buffers_def isEmpty_def small_at_def new_TFileTransportBuffer_def)

lemma small_drain: "k < length E \<Longrightarrow> drain_next (small_at t [] E k u err Draining) = small_at t [] E (Suc k) u err (Holding (log_event (E ! k)))"
  by (simp add: drain_next_def getNext_def small_at_def Let_def new_TFileTransportBuffer_def)

lemma small_event: "log_event [b] = \<lparr>eventBuff = Some [1, 0, 0, 0, b], eventSize = 5, eventBuffPos = 0\<rparr>"
proof -
  have "le_bytes 4 (Suc 0) = [1, 0, 0, 0]" by code_simp
  then show ?thesis by (simp add: log_event_def)
qed

text \<open>A write that stays in its chunk by the offset of the writer goes to the end of the file, whatever that is.\<close>

lemma small_written:
  assumes "chunkSize t = 8" and "maxEventSize t = 0" and "offset t = 0"
  shows "write_event Some Some (log_event [b]) (small_at t [] E k u False pc) =
    (Inr (), small_at (t\<lparr>offset := 5, disk := append_file [1, 0, 0, 0, b] (disk t)\<rparr>) [] E k (u32 (u + 5)) False Draining)"
proof -
  have five: "Suc (Suc (Suc (Suc (Suc u)))) = u + 5" by simp
  from assms show ?thesis
    by (simp add: write_event_def pad_chunk_def log_bytes_def upd_transport_def small_at_def small_event bindT_def
        modify_def Let_def five)
qed

lemma small_lost: "write_event (\<lambda>_. None) Some (log_event [b]) (small_at (small_log 5 bs) [] E k u False pc) =
    (Inr (), small_at (small_log 5 bs) [] E k u True Draining)" if "length bs = 5"
  using that by (simp add: write_event_def pad_chunk_def log_bytes_def upd_transport_def small_at_def small_event bindT_def
      modify_def Let_def small_fields s32_def small_log_def recovered_block_def)

lemma small_recovered: "recover_io (Some recovered_file) (small_at (small_log 5 [1, 0, 0, 0, 65]) [] E k u True (Holding e)) =
    small_at recovered_read [] E k 0 False (Holding e)"
proof -
  have "(small_log 5 [1, 0, 0, 0, 65])\<lparr>offset := 0, fd_open := True, disk := recovered_file\<lparr>fpos := 0\<rparr>\<rparr> = recovered_new"
    by (simp add: small_log_def recovered_block_def)
  then show ?thesis by (simp add: recover_io_def small_at_def recovered_seek)
qed

abbreviation small_events :: "bytes list" where
  "small_events \<equiv> [[65], [67], [66]]"

lemma small_run: "runs (log_step posix_disk) small_logger small_events
    (small_at (small_log 5 [1, 0, 0, 0, 65]) [] small_events 3 5 True (Holding (log_event [66])))"
proof -
  note q = runs_quiet [where step = "log_step posix_disk"]
  let ?t = "small_log 0 []" and ?u = "small_log 5 [1, 0, 0, 0, 65]"
  have w1: "log_step posix_disk small_logger [[65]] (small_at ?t [[65]] [] 0 0 False Starting)"
    by (rule ls_write [OF _ _ small_write_first]) (simp_all add: small_logger_def)
  have w: "log_step posix_disk (small_at ?t new [] 0 0 False Starting) [b] (small_at ?t (new @ [b]) [] 0 0 False Starting)"
    if "length new < 10" "b \<noteq> []" "length b < 2 ^ 32" for new b
    by (rule ls_write [OF that(3) _ small_write [OF that(1,2)]]) (simp add: small_at_def)
  have "runs (log_step posix_disk) small_logger (([[65]] @ [[67]]) @ [[66]]) (small_at ?t (([[65]] @ [[67]]) @ [[66]]) [] 0 0 False Starting)"
    by (rule runs_step [where step = "log_step posix_disk", OF runs_step [where step = "log_step posix_disk",
        OF runs_one [where step = "log_step posix_disk", OF w1] w] w]) simp_all
  then have r0: "runs (log_step posix_disk) small_logger small_events (small_at ?t small_events [] 0 0 False Starting)" by simp
  have s1: "log_step posix_disk (small_at ?t small_events [] 0 0 False Starting) [] (small_at ?t small_events [] 0 0 False Round)"
    using ls_start [of "small_at ?t small_events [] 0 0 False Starting" posix_disk] by (simp add: small_start) (simp add: small_at_def)
  have s2: "log_step posix_disk (small_at ?t small_events [] 0 0 False Round) [] (small_at ?t [] small_events 0 0 False Draining)"
    using ls_round [of "small_at ?t small_events [] 0 0 False Round" posix_disk] by (simp add: small_round) (simp add: small_at_def)
  have d: "log_step posix_disk (small_at t [] small_events k u err Draining) []
      (small_at t [] small_events (Suc k) u err (Holding (log_event (small_events ! k))))" if "k < 3" for t k u err
    using ls_drain [of "small_at t [] small_events k u err Draining" posix_disk] small_drain [of k small_events t u err] that
    by (simp add: small_at_def)
  have e1: "log_step posix_disk (small_at ?t [] small_events 1 0 False (Holding (log_event [65]))) []
      (small_at ?u [] small_events 1 5 False Draining)"
  proof -
    have "?t\<lparr>offset := 5, disk := append_file [1, 0, 0, 0, 65] (disk ?t)\<rparr> = ?u"
      by (simp add: small_log_def recovered_block_def append_file_def)
    with small_written [of ?t 65 small_events 1 0 "Holding (log_event [65])"]
    have "write_event Some Some (log_event [65]) (small_at ?t [] small_events 1 0 False (Holding (log_event [65]))) =
        (Inr (), small_at ?u [] small_events 1 5 False Draining)" by (simp add: small_fields)
    from ls_event [OF _ _ _ this, of posix_disk] show ?thesis by (simp add: posix_disk_def small_at_def)
  qed
  have e2: "log_step posix_disk (small_at ?u [] small_events 2 5 False (Holding (log_event [67]))) []
      (small_at ?u [] small_events 2 5 True Draining)"
  proof -
    have "write_event (\<lambda>_. None) Some (log_event [67]) (small_at ?u [] small_events 2 5 False (Holding (log_event [67]))) =
        (Inr (), small_at ?u [] small_events 2 5 True Draining)"
      by (rule small_lost) simp
    from ls_event [OF _ _ _ this, of posix_disk] show ?thesis by (simp add: posix_disk_def small_at_def)
  qed
  have d0: "log_step posix_disk (small_at ?t [] small_events 0 0 False Draining) []
      (small_at ?t [] small_events 1 0 False (Holding (log_event [65])))"
    using d [of 0 ?t 0 False] by simp
  have d1: "log_step posix_disk (small_at ?u [] small_events 1 5 False Draining) []
      (small_at ?u [] small_events 2 5 False (Holding (log_event [67])))"
    using d [of 1 ?u 5 False] by (simp add: numeral_2_eq_2)
  have d2: "log_step posix_disk (small_at ?u [] small_events 2 5 True Draining) []
      (small_at ?u [] small_events 3 5 True (Holding (log_event [66])))"
    using d [of 2 ?u 5 True] by (simp add: numeral_3_eq_3 numeral_2_eq_2)
  show ?thesis by (rule q [OF q [OF q [OF q [OF q [OF q [OF q [OF r0 s1] s2] d0] e1] d1] e2] d2])
qed

text \<open>
  C40: After an I/O error the writer thread takes up its work with the position of the last block
  that \<^verbatim>\<open>seekToEnd\<close> has read in place of the end of the file, and an event that it then writes
  can cross the boundary of a chunk. A run of a newly opened log with chunks of 8 bytes: the events
  \<open>[65]\<close>, \<open>[67]\<close> and \<open>[66]\<close> are enqueued, the first is written, the write of the padding before the
  second fails, and the writer thread holds the third. It opens the file again, as it is, takes it
  to be at byte 0, and writes the event it holds without an error and without padding from byte 5
  to byte 9. No reader gets it.
\<close>

theorem recovered_writer_crosses_chunk:
  "\<exists>s t u. opened_logger 8 0 [] small_logger \<and> runs (log_step posix_disk) small_logger [[65], [67], [66]] s \<and>
     writer_pc s = Holding (log_event [66]) \<and> hasIOError s \<and> file_of (transport s) = [1, 0, 0, 0, 65] \<and>
     t = recover_io (Some (disk (transport s))) s \<and> log_step posix_disk s [] t \<and>
     writer_pc t = Holding (log_event [66]) \<and> \<not> hasIOError t \<and> offset (transport t) = 0 \<and> file_of (transport t) = [1, 0, 0, 0, 65] \<and>
     write_event Some Some (log_event [66]) t = (Inr (), u) \<and> log_step posix_disk t [] u \<and> \<not> hasIOError u \<and> queued u = [] \<and>
     file_of (transport u) = [1, 0, 0, 0, 65, 1, 0, 0, 0, 66] \<and> reads_as 8 0 (file_of (transport u)) 0 [[65]]"
proof -
  let ?s = "small_at (small_log 5 [1, 0, 0, 0, 65]) [] small_events 3 5 True (Holding (log_event [66]))"
  let ?t = "small_at recovered_read [] small_events 3 0 False (Holding (log_event [66]))"
  let ?u = "small_at (recovered_read\<lparr>offset := 5, disk := append_file [1, 0, 0, 0, 66] (disk recovered_read)\<rparr>)
    [] small_events 3 5 False Draining"
  have s: "writer_pc ?s = Holding (log_event [66])" "hasIOError ?s" "file_of (transport ?s) = [1, 0, 0, 0, 65]"
    by (simp_all add: small_at_def small_fields)
  have d: "recover_io (Some (disk (transport ?s))) ?s = recover_io (Some recovered_file) ?s"
    by (simp add: recover_io_def small_at_def small_log_def recovered_file_def)
  have t: "?t = recover_io (Some (disk (transport ?s))) ?s" unfolding d small_recovered ..
  have st: "log_step posix_disk ?s [] ?t" unfolding t by (rule ls_recover [OF s(1,2)])
  have w: "write_event Some Some (log_event [66]) ?t = (Inr (), ?u)"
    using small_written [of recovered_read 66 small_events 3 0] by (simp add: recovered_block_def)
  have tu: "log_step posix_disk ?t [] ?u"
    using ls_event [OF _ _ _ w, of posix_disk] by (simp add: posix_disk_def small_at_def)
  have tt: "writer_pc ?t = Holding (log_event [66])" "\<not> hasIOError ?t" "offset (transport ?t) = 0"
      "file_of (transport ?t) = [1, 0, 0, 0, 65]"
    by (simp_all add: small_at_def recovered_block_def recovered_file_def)
  have uu: "\<not> hasIOError ?u" "queued ?u = []" "file_of (transport ?u) = [1, 0, 0, 0, 65, 1, 0, 0, 0, 66]"
    by (simp_all add: small_at_def recovered_block_def recovered_file_def append_file_def queued_def in_hand_def
        new_TFileTransportBuffer_def)
  have "reads_as 8 0 [1, 0, 0, 0, 65, 1, 0, 0, 0, 66] 0 [[65]]" by code_simp
  then have "reads_as 8 0 (file_of (transport ?u)) 0 [[65]]" unfolding uu(3) .
  with small_opened small_run s t st tt w tu uu show ?thesis by blast
qed

end
