(* ===== verification/Spec2Isabelle.thy ===== *)
theory Spec2Isabelle
  imports FramedTransport PipedTransport BinaryProtocol CompactCodec ThreadManagerInv TimerManagerInv
    HttpClientServer JsonCodec Fingerprint SocketPool NonblockingService FileService
begin

text \<open>
  A model of the C++ runtime library of Apache Thrift (\<^verbatim>\<open>src/thrift/lib/cpp/src\<close>) and of the
  front end of its interface compiler (\<^verbatim>\<open>src/thrift/compiler/cpp/src\<close>), and of what makes them
  correct: bytes that are written through a stack of transports come out of the other end, values
  that a protocol writes are read back, malformed input ends in the documented exception, the thread
  and timer managers neither lose nor repeat a task, the nonblocking server answers every request
  once and in order, a flushed log is read back whole, and the compiler accepts the constants that have their type.

  The program. A generated reader or writer calls a \<^bold>\<open>protocol\<close> (\<^verbatim>\<open>protocol/\<close>), which turns
  values into bytes; the protocol calls a \<^bold>\<open>transport\<close> (\<^verbatim>\<open>transport/\<close>), which may itself sit
  on another transport: buffers, frames, HTTP messages, a pipe that copies what is read, and at the
  bottom a memory buffer or a socket. Servers hand the work to a \<^bold>\<open>thread manager\<close>, and a
  \<^bold>\<open>timer manager\<close> runs tasks at their time (\<^verbatim>\<open>concurrency/\<close>). A protocol or a transport is
  reached through a table of virtual functions; both tables are records here (\<open>ttransport\<close>,
  \<open>tprotocol\<close>), so that every layer is modelled over any layer below it.

  How it is modelled.

  \<^item> \<open>ThriftPrelude\<close>: bytes and machine integers, the wrapping arithmetic of \<^verbatim>\<open>uint32_t\<close>, the
    exceptions, and the calling convention: a method is a function from the object to an outcome
    (an exception or a value) and the object after the call. Undefined behaviour, failed assertions
    and loops that never end are outcomes of their own.
  \<^item> \<open>CText\<close>: loops with an exit (a partial function, so that not ending is an outcome), C strings,
    decimal and hexadecimal numbers.
  \<^item> \<open>Transport\<close>: \<^verbatim>\<open>TTransport.h\<close>, the generic \<^verbatim>\<open>readAll\<close>, and the contracts as locales:
    \<open>stream_source\<close> (a read gives the next bytes), \<open>byte_source\<close> (exact reads, borrow and
    consume), \<open>byte_sink\<close> (writes append), \<open>byte_channel\<close> (both).
  \<^item> \<open>BufferBase\<close>, \<open>MemoryBuffer\<close>, \<open>BufferedTransport\<close>, \<open>FramedTransport\<close>
    (\<^verbatim>\<open>TBufferTransports.{h,cpp}\<close>) and \<open>PipedTransport\<close> (\<^verbatim>\<open>TTransportUtils.{h,cpp}\<close>): the
    pointers of the buffers are offsets, every copy is checked against the bounds of its block.
  \<^item> \<open>HttpTransport\<close>, \<open>HttpClientServer\<close> (\<^verbatim>\<open>THttpTransport\<close>, \<^verbatim>\<open>THttpClient\<close>,
    \<^verbatim>\<open>THttpServer\<close>): the header reader on its block of C strings, chunks, the two ends.
  \<^item> \<open>Protocol\<close>: \<^verbatim>\<open>TProtocol.h\<close>, the wire types and the generic \<^verbatim>\<open>skip\<close> (with fuel, one
    unit for each call and each turn of its loops). \<open>SkipTermination\<close> proves that fuel linear in the
    pending bytes is always enough.
  \<^item> \<open>ProtocolCodec\<close>: what protocols promise, as a locale, and what follows once for all of them.
    \<open>BinaryProtocol\<close> (\<^verbatim>\<open>TBinaryProtocol.{h,tcc}\<close>), \<open>Varint\<close>, \<open>CompactProtocol\<close> and
    \<open>CompactCodec\<close> (\<^verbatim>\<open>TCompactProtocol.{h,tcc}\<close>) are models of it.
  \<^item> \<open>Base64\<close>, \<open>JsonProtocol\<close>, \<open>JsonCodec\<close> (\<^verbatim>\<open>TBase64Utils.cpp\<close>,
    \<^verbatim>\<open>TJSONProtocol.{h,cpp}\<close>): the text protocol with its contexts, and its round trips; the
    conversions of \<^verbatim>\<open>boost::lexical_cast\<close> are an argument.
  \<^item> \<open>Socket\<close>, \<open>SocketPool\<close> (\<^verbatim>\<open>TSocket.cpp\<close>, \<^verbatim>\<open>TSocketPool.cpp\<close>): a stream socket
    over a record \<open>sys\<close> of system calls, and the choice among several servers. \<open>kernel_sys\<close> is a
    model of the documented behaviour of \<^verbatim>\<open>recv\<close> and \<^verbatim>\<open>send\<close>, in which a plan decides how each
    call splits the stream or fails; over it the socket is a model of the contracts of \<open>Transport\<close>.
  \<^item> \<open>NonblockingServer\<close>, \<open>NonblockingInv\<close>, \<open>NonblockingRuns\<close>, \<open>NonblockingService\<close>
    (\<^verbatim>\<open>server/TNonblockingServer.{h,cpp}\<close>): the connections in a store, their state machine,
    the tasks and the accept loop; the invariant under the interface \<open>nb_surroundings\<close> (bounded
    system calls, room for all notifications, a processor that leaves intact transports); all runs,
    also over a notification socket that can be full, where a failed notification is the first
    thing that goes wrong; and a client that is served.
  \<^item> \<open>StepSystem\<close>, \<open>ThreadManager\<close>, \<open>ThreadManagerInv\<close>, \<open>TimerManager\<close>,
    \<open>TimerManagerInv\<close> (\<^verbatim>\<open>concurrency/ThreadManager.cpp\<close>, \<^verbatim>\<open>concurrency/TimerManager.cpp\<close>): the
    code between two waits on the monitor is one step; the threads interleave in any way, and a
    notification wakes any of the waiting threads.
  \<^item> \<open>FileTransport\<close>, \<open>FileWriter\<close> (\<^verbatim>\<open>transport/TFileTransport.{h,cpp}\<close>): the log of events in a
    file: the reader with its blocks, chunks and recovery, and the writer thread with its two
    buffers, flushes and I/O errors, as steps between which callers run. What each read gives and
    what each write answers are arguments. \<open>FileLog\<close> has the abstract parser of the file
    (\<open>parse_log\<close>) and proves that the reader computes it, \<open>LogFormat\<close> and \<open>FileSeek\<close> what
    readers get from the files of writers, \<open>FileLogging\<close> and \<open>FileRuns\<close> the invariant of a
    logger whose writes succeed, and \<open>FileService\<close> the promises to the clients.
  \<^item> \<open>ParseTree\<close>, \<open>ConstTyping\<close>, \<open>Fingerprint\<close> (\<^verbatim>\<open>parse/*.h\<close>, \<^verbatim>\<open>parse.cc\<close>, the
    actions of \<^verbatim>\<open>thrifty.yy\<close>, \<^verbatim>\<open>main.cc\<close> of the compiler): types, fields and scopes as the parser
    builds them, how constants are resolved and checked, and the fingerprint of a type; MD5 is an
    argument.

  What the lemmas show. For each transport: a pointer invariant that all operations keep, the exact
  bytes of every read and write, and the interpretation of the contracts of \<open>Transport\<close>. For the
  protocols: that writing and reading match call by call, from which the round trip of whole values
  follows by induction on the value; that limits and sizes are checked; that \<^verbatim>\<open>skip\<close> ends on every
  input. For the HTTP ends: the round trip of requests and responses over any stream, and that any
  bytes at all leave the invariant intact and never hang. For the managers: invariants of all
  reachable states and an accounting of every task. For the nonblocking server: that no interleaving
  of clients, sockets, tasks and expiries overruns a buffer or uses a deleted connection while the
  thread manager runs and the notification socket has room, and that a client gets its replies. For the log of events, as long as writes succeed:
  that no interleaving loses or reorders an event, save for the empty and the oversized ones that
  the code drops, and that readers get back what was flushed; and what of that does not hold after
  an I/O error or behind a partial event. For the compiler: the check of constants
  against a typing judgement that is stated independently of it, struct fields as they were declared
  with distinct keys, and which types have the same fingerprint (fewer than have the same encoding
  by the dense protocol).

  Bounds. Sizes are natural numbers reduced modulo \<open>2 ^ 32\<close> where the code computes in
  \<^verbatim>\<open>uint32_t\<close>. Theorems on buffers assume what keeps the doubling of a block from wrapping (at
  most \<open>2 ^ 31\<close> bytes in a memory buffer, \<open>2 ^ 28\<close> in front of an HTTP reader); the behaviour beyond
  is stated where it was found to differ. The chunks of a log are shorter than \<open>2 ^ 31\<close> bytes and its
  events than \<open>2 ^ 32 - 4\<close>, where their sizes wrap; \<open>readEvent\<close> is given one nested call, which is all
  that recovery makes. Times of the managers are integers without bound (\<^verbatim>\<open>int64_t\<close> in the code), and
  blocks of the file reader are shorter than \<open>2 ^ 31\<close> bytes. Allocation is taken to succeed.

  Not modelled: plain files, SSL, zlib, the set-up of listening sockets and the calls of libevent, whose
  behaviour is that of the operating system and of other libraries; the dense and debug protocols;
  the servers with one thread per client and the processors, which only compose the parts above; the
  scanner and parser that flex and bison generate for the compiler and its generators, which print
  program text; the libraries of other languages.
\<close>

end
